(* ===== verification/Prelude.thy ===== *)
theory Prelude
  imports Main "HOL-Library.Word" "HOL-Library.Multiset"
begin

text \<open>
  Shared vocabulary of the perf-prof development: the machine types the C sources use,
  the collections that carry component proofs (\<open>layout_simps\<close> for arithmetic on
  offsets and indices, \<open>frame_simps\<close> for the fields an operation leaves alone), and
  generic facts on list updates, swaps and words.
\<close>

unbundle bit_operations_syntax

named_theorems layout_simps \<open>arithmetic on offsets and indices\<close>
named_theorems frame_simps \<open>fields that an operation leaves unchanged\<close>

section \<open>Machine types\<close>

type_synonym u8 = "8 word"
type_synonym u16 = "16 word"
type_synonym u32 = "32 word"
type_synonym u64 = "64 word"

section \<open>Exchanging two elements of an array\<close>

definition swap_nth :: "'a list \<Rightarrow> nat \<Rightarrow> nat \<Rightarrow> 'a list" where
  "swap_nth xs i j = xs[i := xs ! j, j := xs ! i]"

lemma length_swap_nth [simp]: "length (swap_nth xs i j) = length xs"
  by (simp add: swap_nth_def)

lemma nth_swap_nth [simp]:
  "i < length xs \<Longrightarrow> j < length xs \<Longrightarrow> k < length xs \<Longrightarrow>
   swap_nth xs i j ! k = (if k = j then xs ! i else if k = i then xs ! j else xs ! k)"
  by (simp add: swap_nth_def nth_list_update)

lemma mset_swap_nth [simp]:
  "i < length xs \<Longrightarrow> j < length xs \<Longrightarrow> mset (swap_nth xs i j) = mset xs"
  by (simp add: swap_nth_def mset_swap)

lemma set_swap_nth [simp]:
  "i < length xs \<Longrightarrow> j < length xs \<Longrightarrow> set (swap_nth xs i j) = set xs"
  using mset_swap_nth [of i xs j] by (metis set_mset_mset)

lemma take_swap_nth_mset:
  "i < n \<Longrightarrow> j < n \<Longrightarrow> n \<le> length xs \<Longrightarrow> mset (take n (swap_nth xs i j)) = mset (take n xs)"
proof -
  assume "i < n" "j < n" "n \<le> length xs"
  then have "take n (swap_nth xs i j) = swap_nth (take n xs) i j"
    by (auto simp: swap_nth_def take_update_swap intro!: nth_equalityI simp: nth_list_update)
  with \<open>i < n\<close> \<open>j < n\<close> \<open>n \<le> length xs\<close> show ?thesis by simp
qed

lemma drop_swap_nth [simp]:
  "i < n \<Longrightarrow> j < n \<Longrightarrow> drop n (swap_nth xs i j) = drop n xs"
  by (simp add: swap_nth_def)

section \<open>Lowest set bits of words\<close>

lemma odd_and_minus_int: "odd (m::int) \<Longrightarrow> m AND (- m) = 1"
proof -
  assume "odd m"
  then obtain q where q: "m = 2 * q + 1" by (elim oddE)
  have "q AND (NOT q) = 0" by simp
  moreover have "(- (2 * q) - 1) div 2 = NOT q" by (simp add: not_int_def)
  ultimately show ?thesis using q by (simp add: and_int_rec [of "2*q+1"] )
qed

lemma and_minus_odd_word: "odd (m::nat) \<Longrightarrow> (of_nat m :: u64) AND (- of_nat m) = 1"
proof -
  assume "odd m"
  then have "int m AND (- int m) = 1" by (simp add: odd_and_minus_int)
  then have "(of_int (int m AND - int m) :: u64) = 1" by simp
  then show ?thesis by (simp add: of_int_and_eq)
qed

lemma push_bit_of_nat_word: "(of_nat (2 ^ k * m) :: 'a::len word) = push_bit k (of_nat m)"
  by (simp add: push_bit_eq_mult mult.commute)

lemma minus_push_bit: "- push_bit k (w :: 'a::len word) = push_bit k (- w)"
  by (simp add: push_bit_eq_mult)

lemma ex_pow2_odd: "0 < n \<Longrightarrow> \<exists>k m. (n::nat) = 2 ^ k * m \<and> odd m"
proof (induction n rule: less_induct)
  case (less n)
  show ?case
  proof (cases "odd n")
    case True
    then have "n = 2 ^ 0 * n \<and> odd n" by simp
    then show ?thesis by blast
  next
    case False
    then obtain h where h: "n = 2 * h" by blast
    with less.prems have "h < n" "0 < h" by auto
    then obtain k m where km: "h = 2 ^ k * m" "odd m" using less.IH by blast
    then have "n = 2 ^ Suc k * m \<and> odd m" using h by simp
    then show ?thesis by blast
  qed
qed

lemma ucast_push_bit_one: "k < 32 \<Longrightarrow> (ucast (ucast (push_bit k 1 :: u64) :: u32) :: u64) = push_bit k 1"
  by (rule bit_word_eqI) (auto simp: bit_ucast_iff bit_exp_iff bit_push_bit_iff bit_1_iff)

lemma of_nat_and_one: "(of_nat n :: 'a::len word) AND 1 = (if odd n then 1 else 0)"
proof -
  have "(of_nat n :: 'a word) AND of_nat 1 = of_nat (n AND 1)" by (simp only: of_nat_and_eq)
  then show ?thesis by (simp add: and_one_eq mod_2_eq_odd)
qed

lemma half_of_nat_word: "2 * x < 2 ^ 64 \<Longrightarrow> (of_nat (2 * x) :: u64) div 2 = of_nat x"
proof -
  assume a: "2 * x < 2 ^ 64"
  have "unat ((of_nat (2 * x) :: u64) div 2) = unat (of_nat (2 * x) :: u64) div unat (2 :: u64)"
    by (rule unat_div)
  also have "unat (of_nat (2 * x) :: u64) = 2 * x"
    using a by (simp only: unat_of_nat len_of_numeral_defs) simp
  also have "2 * x div unat (2 :: u64) = x" by simp
  also have "x = unat (of_nat x :: u64)" using a by (simp add: unat_of_nat)
  finally show ?thesis by (simp only: word_unat_eq_iff)
qed

section \<open>Widening casts\<close>

lemma unat_ucast_wide:
  fixes x :: "'a::len word"
  assumes "LENGTH('a) \<le> LENGTH('b::len)" shows "unat (ucast x :: 'b word) = unat x"
proof -
  have "unat x < 2 ^ LENGTH('b)"
    using unsigned_less [of x, where ?'a = nat] assms
    by (meson one_le_numeral order_less_le_trans power_increasing)
  then show ?thesis by (simp add: unsigned_ucast_eq take_bit_nat_eq_self)
qed

lemma unat_drop_bit: "unat (drop_bit n (w::'a::len word)) = unat w div 2 ^ n"
proof -
  have "unat (drop_bit n w) = drop_bit n (take_bit LENGTH('a) (unat w))"
    by (rule unsigned_drop_bit_eq)
  also have "take_bit LENGTH('a) (unat w) = unat w"
    using unsigned_less [of w, where ?'a = nat] by (rule take_bit_nat_eq_self)
  finally show ?thesis by (simp only: drop_bit_eq_div)
qed

section \<open>Little-endian fields of a byte array\<close>

fun le_nat :: "u8 list \<Rightarrow> nat" where
  "le_nat [] = 0"
| "le_nat (b # bs) = unat b + 256 * le_nat bs"

fun le_bytes :: "nat \<Rightarrow> nat \<Rightarrow> u8 list" where
  "le_bytes 0 v = []"
| "le_bytes (Suc n) v = of_nat (v mod 256) # le_bytes n (v div 256)"

definition u64_at :: "u8 list \<Rightarrow> nat \<Rightarrow> u64" where
  "u64_at bs off = of_nat (le_nat (take 8 (drop off bs)))"

definition put_u64 :: "u8 list \<Rightarrow> nat \<Rightarrow> u64 \<Rightarrow> u8 list" where
  "put_u64 bs off v = take off bs @ le_bytes 8 (unat v) @ drop (off + 8) bs"

lemma length_le_bytes [simp]: "length (le_bytes n v) = n"
  by (induction n arbitrary: v) auto

lemma le_nat_bound: "le_nat bs < 256 ^ length bs"
proof (induction bs)
  case (Cons b bs)
  have "unat b < 256" using unsigned_less [of b, where ?'a = nat] by simp
  then show ?case using Cons by simp
qed simp

lemma le_nat_le_bytes: "le_nat (le_bytes n v) = v mod 256 ^ n"
proof (induction n arbitrary: v)
  case (Suc n)
  have "unat (of_nat (v mod 256) :: u8) = v mod 256" by (simp add: unat_of_nat)
  then show ?case using Suc by (simp add: mod_mult2_eq)
qed simp

lemma length_put_u64 [simp]: "off + 8 \<le> length bs \<Longrightarrow> length (put_u64 bs off v) = length bs"
  by (simp add: put_u64_def)

lemma u64_at_put_u64 [simp]:
  assumes "off + 8 \<le> length bs" shows "u64_at (put_u64 bs off v) off = v"
proof -
  have "take 8 (drop off (put_u64 bs off v)) = le_bytes 8 (unat v)"
    using assms by (simp add: put_u64_def)
  moreover have "unat v mod 256 ^ 8 = unat v" using unsigned_less [of v, where ?'a = nat] by simp
  ultimately show ?thesis unfolding u64_at_def by (simp only: le_nat_le_bytes) simp
qed

lemma nth_put_u64_other:
  "off + 8 \<le> length bs \<Longrightarrow> i < off \<or> off + 8 \<le> i \<Longrightarrow> i < length bs \<Longrightarrow>
   put_u64 bs off v ! i = bs ! i"
  by (auto simp: put_u64_def nth_append)

lemma take_put_u64: "n \<le> off \<Longrightarrow> off + 8 \<le> length bs \<Longrightarrow> take n (put_u64 bs off v) = take n bs"
  by (simp add: put_u64_def min_def)

end
