(* ===== verification/Min_Heap.thy ===== *)
theory Min_Heap
  imports Prelude
begin

text \<open>
  The array heap of \<open>src/include/linux/min_heap.h\<close>, which sorts the ring buffers of
  \<open>order.c\<close>. Two levels:
  \<^item> the code as written, on byte offsets that are pre-scaled by the element size, with
    the branch-free \<open>parent\<close> on 64-bit words (\<open>parent_off\<close>, \<open>sift_down_inline\<close>,
    \<open>sift_up_inline\<close>); its loops are \<^theory_text>\<open>partial_function (option)\<close>, so
    that \<open>None\<close> is non-termination;
  \<^item> the same operations on array indices (\<open>sift_down\<close>, \<open>sift_up\<close>), proved equal to
    the former whenever the array fits the address space.
  The remaining operations (\<open>min_heapify_all\<close>, \<open>min_heap_pop\<close>,
  \<open>min_heap_pop_push\<close>, \<open>min_heap_push\<close>, \<open>min_heap_del\<close>) are built from the
  index level, and the locale \<open>heap_order\<close> proves them correct for every comparison
  that is a strict weak order.
\<close>

section \<open>The code on byte offsets\<close>

definition lsbit_of :: "u64 \<Rightarrow> u64" where
  "lsbit_of elem_size = elem_size AND (- elem_size)"

text \<open>\<open>parent\<close>: its second parameter is an \<open>unsigned int\<close>.\<close>

definition parent_off :: "u64 \<Rightarrow> u32 \<Rightarrow> u64 \<Rightarrow> u64" where
  "parent_off i lsbit sz =
     (let i1 = i - sz;
          i2 = i1 - (sz AND (- (i1 AND ucast lsbit)))
      in i2 div 2)"

definition parent_nat :: "nat \<Rightarrow> nat \<Rightarrow> nat" where
  "parent_nat es b =
     unat (parent_off (of_nat b) (ucast (lsbit_of (of_nat es))) (of_nat es))"

text \<open>The element stored at a byte offset.\<close>

definition elem_at :: "nat \<Rightarrow> 'a list \<Rightarrow> nat \<Rightarrow> 'a" where
  "elem_at es data off = data ! (off div es)"

definition do_swap :: "nat \<Rightarrow> 'a list \<Rightarrow> nat \<Rightarrow> nat \<Rightarrow> 'a list" where
  "do_swap es data a b = swap_nth data (a div es) (b div es)"

partial_function (option) sift_path_off ::
  "('a \<Rightarrow> 'a \<Rightarrow> bool) \<Rightarrow> nat \<Rightarrow> 'a list \<Rightarrow> nat \<Rightarrow> nat \<Rightarrow> nat option" where
  "sift_path_off lt es data n b =
     (let c = 2 * b + es; d = c + es in
      if d < n then
        sift_path_off lt es data n (if lt (elem_at es data c) (elem_at es data d) then c else d)
      else Some (if d = n then c else b))"

partial_function (option) backtrack_off ::
  "('a \<Rightarrow> 'a \<Rightarrow> bool) \<Rightarrow> nat \<Rightarrow> 'a list \<Rightarrow> nat \<Rightarrow> nat \<Rightarrow> nat option" where
  "backtrack_off lt es data a b =
     (if b \<noteq> a \<and> lt (elem_at es data a) (elem_at es data b)
      then backtrack_off lt es data a (parent_nat es b)
      else Some b)"

partial_function (option) shift_off ::
  "nat \<Rightarrow> nat \<Rightarrow> nat \<Rightarrow> nat \<Rightarrow> 'a list \<Rightarrow> 'a list option" where
  "shift_off es a c b data =
     (if b \<noteq> a
      then shift_off es a c (parent_nat es b) (do_swap es data (parent_nat es b) c)
      else Some data)"

definition sift_down_inline ::
  "('a \<Rightarrow> 'a \<Rightarrow> bool) \<Rightarrow> nat \<Rightarrow> nat \<Rightarrow> 'a list \<Rightarrow> nat \<Rightarrow> 'a list option" where
  "sift_down_inline lt es nr data pos =
     (let a = pos * es; n = nr * es in
      Option.bind (sift_path_off lt es data n a) (\<lambda>b.
      Option.bind (backtrack_off lt es data a b) (\<lambda>b'.
      shift_off es a b' b' data)))"

partial_function (option) sift_up_off ::
  "('a \<Rightarrow> 'a \<Rightarrow> bool) \<Rightarrow> nat \<Rightarrow> 'a list \<Rightarrow> nat \<Rightarrow> 'a list option" where
  "sift_up_off lt es data a =
     (if a \<noteq> 0 then
        let b = parent_nat es a in
        if lt (elem_at es data b) (elem_at es data a) then Some data
        else sift_up_off lt es (do_swap es data a b) b
      else Some data)"

definition sift_up_inline ::
  "('a \<Rightarrow> 'a \<Rightarrow> bool) \<Rightarrow> nat \<Rightarrow> 'a list \<Rightarrow> nat \<Rightarrow> 'a list option" where
  "sift_up_inline lt es data idx = sift_up_off lt es data (idx * es)"

section \<open>The same operations on indices\<close>

abbreviation par :: "nat \<Rightarrow> nat" where
  "par i \<equiv> (i - 1) div 2"

function sd_path :: "('a \<Rightarrow> 'a \<Rightarrow> bool) \<Rightarrow> 'a list \<Rightarrow> nat \<Rightarrow> nat \<Rightarrow> nat" where
  "sd_path lt xs n b =
     (let c = 2 * b + 1; d = c + 1 in
      if d < n then sd_path lt xs n (if lt (xs ! c) (xs ! d) then c else d)
      else if d = n then c else b)"
  by pat_completeness auto
termination
  by (relation "measure (\<lambda>(lt, xs, n, b). n - b)") (auto simp: Let_def)

function sd_back :: "('a \<Rightarrow> 'a \<Rightarrow> bool) \<Rightarrow> 'a list \<Rightarrow> nat \<Rightarrow> nat \<Rightarrow> nat" where
  "sd_back lt xs a b =
     (if a < b \<and> lt (xs ! a) (xs ! b) then sd_back lt xs a (par b) else b)"
  by pat_completeness auto
termination
  by (relation "measure (\<lambda>(lt, xs, a, b). b)") auto

function sd_shift :: "nat \<Rightarrow> nat \<Rightarrow> nat \<Rightarrow> 'a list \<Rightarrow> 'a list" where
  "sd_shift a c b xs = (if a < b then sd_shift a c (par b) (swap_nth xs (par b) c) else xs)"
  by pat_completeness auto
termination
  by (relation "measure (\<lambda>(a, c, b, xs). b)") auto

declare sd_path.simps [simp del] sd_back.simps [simp del] sd_shift.simps [simp del]

definition sift_down :: "('a \<Rightarrow> 'a \<Rightarrow> bool) \<Rightarrow> nat \<Rightarrow> 'a list \<Rightarrow> nat \<Rightarrow> 'a list" where
  "sift_down lt nr xs pos =
     (let b = sd_back lt xs pos (sd_path lt xs nr pos) in sd_shift pos b b xs)"

function sift_up :: "('a \<Rightarrow> 'a \<Rightarrow> bool) \<Rightarrow> 'a list \<Rightarrow> nat \<Rightarrow> 'a list" where
  "sift_up lt xs a =
     (if a \<noteq> 0 then
        if lt (xs ! par a) (xs ! a) then xs
        else sift_up lt (swap_nth xs a (par a)) (par a)
      else xs)"
  by pat_completeness auto
termination
  by (relation "measure (\<lambda>(lt, xs, a). a)") auto

declare sift_up.simps [simp del]

section \<open>Heap objects and their operations\<close>

record 'a min_heap =
  nr :: nat
  hsize :: nat
  hdata :: "'a list"

definition min_heap_init :: "'a list \<Rightarrow> nat \<Rightarrow> 'a min_heap" where
  "min_heap_init data sz = \<lparr>nr = 0, hsize = sz, hdata = data\<rparr>"

definition min_heap_peek :: "'a min_heap \<Rightarrow> 'a option" where
  "min_heap_peek h = (if nr h \<noteq> 0 then Some (hdata h ! 0) else None)"

definition min_heap_full :: "'a min_heap \<Rightarrow> bool" where
  "min_heap_full h = (nr h = hsize h)"

definition min_heap_sift_down :: "('a \<Rightarrow> 'a \<Rightarrow> bool) \<Rightarrow> 'a min_heap \<Rightarrow> nat \<Rightarrow> 'a min_heap" where
  "min_heap_sift_down lt h pos = h\<lparr>hdata := sift_down lt (nr h) (hdata h) pos\<rparr>"

text \<open>\<open>for (i = nr / 2 - 1; i >= 0; i--)\<close>: the loop over the \<open>k\<close> lowest positions.\<close>

fun heapify_from :: "('a \<Rightarrow> 'a \<Rightarrow> bool) \<Rightarrow> nat \<Rightarrow> 'a list \<Rightarrow> nat \<Rightarrow> 'a list" where
  "heapify_from lt n xs 0 = xs"
| "heapify_from lt n xs (Suc k) = heapify_from lt n (sift_down lt n xs k) k"

definition min_heapify_all :: "('a \<Rightarrow> 'a \<Rightarrow> bool) \<Rightarrow> 'a min_heap \<Rightarrow> 'a min_heap" where
  "min_heapify_all lt h = h\<lparr>hdata := heapify_from lt (nr h) (hdata h) (nr h div 2)\<rparr>"

text \<open>The operations that can fail return the flag of the C function with the new heap.\<close>

definition min_heap_pop :: "('a \<Rightarrow> 'a \<Rightarrow> bool) \<Rightarrow> 'a min_heap \<Rightarrow> bool \<times> 'a min_heap" where
  "min_heap_pop lt h =
     (if nr h = 0 then (False, h)
      else let n = nr h - 1; xs = (hdata h)[0 := hdata h ! n]
           in (True, h\<lparr>nr := n, hdata := sift_down lt n xs 0\<rparr>))"

definition min_heap_pop_push :: "('a \<Rightarrow> 'a \<Rightarrow> bool) \<Rightarrow> 'a min_heap \<Rightarrow> 'a \<Rightarrow> 'a min_heap" where
  "min_heap_pop_push lt h x = h\<lparr>hdata := sift_down lt (nr h) ((hdata h)[0 := x]) 0\<rparr>"

definition min_heap_push :: "('a \<Rightarrow> 'a \<Rightarrow> bool) \<Rightarrow> 'a min_heap \<Rightarrow> 'a \<Rightarrow> bool \<times> 'a min_heap" where
  "min_heap_push lt h x =
     (if hsize h \<le> nr h then (False, h)
      else let pos = nr h; xs = (hdata h)[pos := x]
           in (True, h\<lparr>nr := pos + 1, hdata := sift_up lt xs pos\<rparr>))"

definition min_heap_del :: "('a \<Rightarrow> 'a \<Rightarrow> bool) \<Rightarrow> 'a min_heap \<Rightarrow> nat \<Rightarrow> bool \<times> 'a min_heap" where
  "min_heap_del lt h idx =
     (if nr h = 0 then (False, h)
      else let n = nr h - 1 in
           if idx = n then (True, h\<lparr>nr := n\<rparr>)
           else let xs = swap_nth (hdata h) idx n;
                    ys = sift_up lt xs idx;
                    zs = sift_down lt n ys idx
                in (True, h\<lparr>nr := n, hdata := zs\<rparr>))"

text \<open>The elements in the order in which \<open>n\<close> pops deliver them.\<close>

fun pop_all :: "('a \<Rightarrow> 'a \<Rightarrow> bool) \<Rightarrow> nat \<Rightarrow> 'a min_heap \<Rightarrow> 'a list" where
  "pop_all lt 0 h = []"
| "pop_all lt (Suc n) h = hdata h ! 0 # pop_all lt n (snd (min_heap_pop lt h))"

text \<open>Storage: the array has the capacity the heap records, and holds \<open>nr\<close> elements.\<close>

definition heap_wf :: "'a min_heap \<Rightarrow> bool" where
  "heap_wf h \<longleftrightarrow> nr h \<le> hsize h \<and> length (hdata h) = hsize h"

definition heap_elems :: "'a min_heap \<Rightarrow> 'a multiset" where
  "heap_elems h = mset (take (nr h) (hdata h))"

text \<open>
  The order holds below every position from \<open>lo\<close> on; a heap is the case \<open>lo = 0\<close>.
\<close>

definition heap_ok :: "('a \<Rightarrow> 'a \<Rightarrow> bool) \<Rightarrow> nat \<Rightarrow> nat \<Rightarrow> 'a list \<Rightarrow> bool" where
  "heap_ok lt lo n xs \<longleftrightarrow> (\<forall>i. 0 < i \<longrightarrow> i < n \<longrightarrow> lo \<le> par i \<longrightarrow> \<not> lt (xs ! i) (xs ! par i))"

text \<open>The arrays the code can address: \<open>nr\<close> elements of \<open>es\<close> bytes.\<close>

definition addressable :: "nat \<Rightarrow> nat \<Rightarrow> bool" where
  "addressable es n \<longleftrightarrow> 0 < es \<and> es < 2 ^ 32 \<and> n * es < 2 ^ 64"

text \<open>Ancestors in the heap: the nodes on the way up from a position.\<close>

inductive anc :: "nat \<Rightarrow> nat \<Rightarrow> bool" where
  anc_refl [intro, simp]: "anc a a"
| anc_step: "0 < b \<Longrightarrow> anc a (par b) \<Longrightarrow> anc a b"

section \<open>Refinement: byte offsets and indices\<close>

lemma lsbit_of_nat:
  assumes "odd m" shows "lsbit_of (of_nat (2 ^ k * m)) = push_bit k 1"
  by (simp only: lsbit_of_def push_bit_of_nat_word minus_push_bit and_minus_odd_word [OF assms] flip: push_bit_and)

lemma parent_off_index:
  assumes es: "0 < es" "es < 2 ^ 32" and j: "0 < j" "j * es < 2 ^ 64"
  shows "parent_off (of_nat (j * es)) (ucast (lsbit_of (of_nat es))) (of_nat es) = of_nat (par j * es)"
proof -
  obtain k m where km: "es = 2 ^ k * m" "odd m" using ex_pow2_odd [OF es(1)] by blast
  have "2 ^ k \<le> es" using km by (cases m) auto
  then have "(2::nat) ^ k < 2 ^ 32" using es(2) by simp
  then have k32: "k < 32" by (rule nat_power_less_imp_less [rotated]) simp
  define ls :: u64 where "ls = ucast (ucast (lsbit_of (of_nat es)) :: u32)"
  have ls: "ls = push_bit k 1"
    unfolding ls_def km(1) lsbit_of_nat [OF km(2)] by (rule ucast_push_bit_one [OF k32])
  obtain i where i: "j = Suc i" using j(1) by (cases j) auto
  have i1: "(of_nat (j * es) :: u64) - of_nat es = of_nat (i * es)"
    using i by simp
  have pb: "(of_nat (i * es) :: u64) = push_bit k (of_nat (i * m))"
    by (simp only: km(1) mult.left_commute [of i] push_bit_of_nat_word)
  have land: "(of_nat (i * es) :: u64) AND ls = (if odd i then push_bit k 1 else 0)"
  proof -
    have "(of_nat (i * m) :: u64) AND 1 = (if odd i then 1 else 0)"
      by (rule trans [OF of_nat_and_one]) (use km(2) in simp)
    then show ?thesis unfolding pb ls push_bit_and [symmetric] by simp
  qed
  have mask: "(of_nat es :: u64) AND (- push_bit k 1) = of_nat es"
    by (simp only: km(1) push_bit_of_nat_word minus_push_bit flip: push_bit_and) simp
  have i2: "(of_nat (i * es) :: u64) - (of_nat es AND (- (of_nat (i * es) AND ls)))
      = of_nat (2 * (i div 2 * es))"
  proof (cases "odd i")
    case True
    then have eq: "i * es = es + 2 * (i div 2 * es)"
      by (metis add.commute add_mult_distrib mult.assoc mult_1 odd_two_times_div_two_succ)
    have "(of_nat (i * es) :: u64) - of_nat es = of_nat (2 * (i div 2 * es))"
      by (simp only: eq of_nat_add add_diff_cancel_left')
    with True show ?thesis by (simp only: land mask not_False_eq_True if_True)
  next
    case False
    then have "i * es = 2 * (i div 2 * es)" by (metis even_two_times_div_two mult.assoc)
    then have eq: "(of_nat (i * es) :: u64) = of_nat (2 * (i div 2 * es))" by (rule arg_cong)
    have land0: "(of_nat (i * es) :: u64) AND ls = 0" using land False by simp
    show ?thesis unfolding land0 by (simp only: eq minus_zero bit.conj_zero_right diff_zero)
  qed
  have lt: "2 * (i div 2 * es) < 2 ^ 64"
  proof -
    have "2 * (i div 2 * es) \<le> i * es" by (simp flip: mult.assoc)
    also have "\<dots> \<le> j * es" using i by simp
    finally show ?thesis using j(2) by linarith
  qed
  have "(of_nat (2 * (i div 2 * es)) :: u64) div 2 = of_nat (i div 2 * es)"
    by (rule half_of_nat_word [OF lt])
  moreover have "par j = i div 2" using i by simp
  ultimately show ?thesis
    by (simp only: parent_off_def Let_def i1 i2 flip: ls_def)
qed
lemma parent_nat_index:
  assumes "0 < es" "es < 2 ^ 32" "0 < j" "j * es < 2 ^ 64"
  shows "parent_nat es (j * es) = par j * es"
proof -
  have "par j * es \<le> j * es" by (rule mult_le_mono1) simp
  with assms(4) have "par j * es < 2 ^ 64" by linarith
  then show ?thesis
    by (simp only: parent_nat_def parent_off_index [OF assms] unat_of_nat len_of_numeral_defs) simp
qed

lemma addressableD:
  assumes "addressable es n" "j < n"
  shows "0 < es" "0 < j \<Longrightarrow> parent_nat es (j * es) = par j * es"
proof -
  from assms show "0 < es" by (simp add: addressable_def)
  have "j * es \<le> n * es" using assms(2) by simp
  with assms(1) have "j * es < 2 ^ 64" unfolding addressable_def by linarith
  then show "0 < j \<Longrightarrow> parent_nat es (j * es) = par j * es"
    using assms by (intro parent_nat_index) (auto simp: addressable_def)
qed

lemma elem_at_index: "0 < es \<Longrightarrow> elem_at es data (j * es) = data ! j"
  by (simp add: elem_at_def)

lemma do_swap_index: "0 < es \<Longrightarrow> do_swap es data (i * es) (j * es) = swap_nth data i j"
  by (simp add: do_swap_def)

lemma sift_path_off_index:
  assumes es: "0 < es"
  shows "sift_path_off lt es data (n * es) (b * es) = Some (sd_path lt data n b * es)"
proof (induction lt data n b rule: sd_path.induct)
  case (1 lt data n b)
  have c: "2 * (b * es) + es = (2 * b + 1) * es" by simp
  have d: "(2 * b + 1) * es + es = (2 * b + 2) * es" by (simp add: add_mult_distrib)
  have lt: "(2 * b + 2) * es < n * es \<longleftrightarrow> 2 * b + 2 < n"
    and eq: "(2 * b + 2) * es = n * es \<longleftrightarrow> 2 * b + 2 = n" 
    using es by (simp_all only: mult_less_cancel2 mult_cancel2) auto
  show ?case
    by (subst sift_path_off.simps, subst sd_path.simps)
      (use 1 in \<open>simp only: Let_def c d lt eq elem_at_index [OF es] split: if_splits, auto simp: Let_def\<close>)
qed

lemma anc_le: "anc a b \<Longrightarrow> a \<le> b"
  by (induction rule: anc.induct) auto

lemma anc_par: "anc a b \<Longrightarrow> a \<noteq> b \<Longrightarrow> 0 < b \<and> anc a (par b)"
  by (auto elim: anc.cases)

lemma anc_lt_par: "anc a b \<Longrightarrow> a < b \<Longrightarrow> anc a (par b) \<and> par b < b"
  using anc_par [of a b] by auto

lemma anc_trans: "anc b c \<Longrightarrow> anc a b \<Longrightarrow> anc a c"
  by (induction rule: anc.induct) (auto intro: anc_step)

lemma anc_children: "anc a b \<Longrightarrow> anc a (Suc (2 * b))" "anc a b \<Longrightarrow> anc a (Suc (Suc (2 * b)))"
  by (auto intro: anc_step)

lemma anc_sd_path: "anc a b \<Longrightarrow> anc a (sd_path lt xs n b)"
proof (induction lt xs n b rule: sd_path.induct)
  case (1 lt xs n b)
  then show ?case
    by (subst sd_path.simps) (auto simp: Let_def anc_children)
qed

lemma sd_path_lt: "b < n \<Longrightarrow> sd_path lt xs n b < n"
proof (induction lt xs n b rule: sd_path.induct)
  case (1 lt xs n b)
  then show ?case by (subst sd_path.simps) (auto simp: Let_def)
qed

lemma anc_sd_back: "anc a b \<Longrightarrow> anc a (sd_back lt xs a b) \<and> anc (sd_back lt xs a b) b"
proof (induction lt xs a b rule: sd_back.induct)
  case (1 lt xs a b)
  then show ?case
    by (subst (1 2) sd_back.simps) (use anc_step [of b] in \<open>auto dest: anc_lt_par\<close>)
qed

lemma backtrack_off_index:
  assumes "addressable es n"
  shows "anc a b \<Longrightarrow> b < n \<Longrightarrow>
    backtrack_off lt es data (a * es) (b * es) = Some (sd_back lt data a b * es)"
proof (induction lt data a b rule: sd_back.induct)
  case (1 lt data a b)
  have es: "0 < es" using assms by (simp add: addressable_def)
  have "b * es \<noteq> a * es \<longleftrightarrow> a < b" using es anc_le [OF 1(2)] by auto
  with 1 addressableD [OF assms, of b] anc_lt_par [of a b] show ?case
    by (subst backtrack_off.simps, subst sd_back.simps) (auto simp: elem_at_index [OF es])
qed

lemma shift_off_index:
  assumes "addressable es n"
  shows "anc a b \<Longrightarrow> b < n \<Longrightarrow>
    shift_off es (a * es) (c * es) (b * es) data = Some (sd_shift a c b data)"
proof (induction a c b data rule: sd_shift.induct)
  case (1 a c b data)
  have es: "0 < es" using assms by (simp add: addressable_def)
  have "b * es \<noteq> a * es \<longleftrightarrow> a < b" using es anc_le [OF 1(2)] by auto
  with 1 addressableD [OF assms, of b] anc_lt_par [of a b] show ?case
    by (subst shift_off.simps, subst sd_shift.simps) (auto simp: do_swap_index [OF es])
qed

theorem sift_down_inline_index:
  assumes "addressable es n" "pos < n"
  shows "sift_down_inline lt es n data pos = Some (sift_down lt n data pos)"
proof -
  have es: "0 < es" using assms by (simp add: addressable_def)
  let ?b = "sd_path lt data n pos"
  have "anc pos ?b" by (simp add: anc_sd_path)
  moreover have "?b < n" using assms(2) by (rule sd_path_lt)
  moreover from calculation have "anc pos (sd_back lt data pos ?b)" "sd_back lt data pos ?b < n"
    using anc_sd_back [of pos ?b lt data] anc_le [of _ ?b] by (auto intro: le_less_trans)
  ultimately show ?thesis
    by (simp add: sift_down_inline_def Let_def sift_path_off_index [OF es] sift_down_def
        backtrack_off_index [OF assms(1)] shift_off_index [OF assms(1)])
qed

theorem sift_up_inline_index:
  assumes "addressable es n"
  shows "idx < n \<Longrightarrow> sift_up_inline lt es data idx = Some (sift_up lt data idx)"
proof (induction lt data idx rule: sift_up.induct)
  case (1 lt data idx)
  have es: "0 < es" using assms by (simp add: addressable_def)
  show ?case
  proof (cases "idx = 0")
    case True
    then show ?thesis by (simp add: sift_up_inline_def sift_up_off.simps sift_up.simps)
  next
    case False
    with 1 addressableD [OF assms, of idx] es show ?thesis
      unfolding sift_up_inline_def
      by (subst sift_up_off.simps, subst sift_up.simps)
        (auto simp: Let_def elem_at_index [OF es] do_swap_index [OF es])
  qed
qed

section \<open>Sifting along a path\<close>

lemma anc_linear: "anc a c \<Longrightarrow> anc b c \<Longrightarrow> anc a b \<or> anc b a"
proof (induction rule: anc.induct)
  case (anc_step c a)
  show ?case
  proof (cases "b = c")
    case True
    then show ?thesis using anc_step by (auto intro: anc.anc_step)
  next
    case False
    with anc_step show ?thesis using anc_par [of b c] by blast
  qed
qed auto

lemma anc_siblings:
  assumes "anc i c" "anc k c" "0 < i" "0 < k" "par i = par k"
  shows "i = k"
proof (rule ccontr)
  assume "i \<noteq> k"
  with anc_linear [OF assms(1,2)] assms(5) have "anc i (par k) \<or> anc k (par i)"
    using anc_par by metis
  with assms anc_le [of i "par k"] anc_le [of k "par i"] show False by auto
qed

lemma par_lt: "0 < j \<Longrightarrow> par j < j"
  by auto

lemma chain_child: "anc p c \<Longrightarrow> p \<noteq> c \<Longrightarrow> \<exists>k. anc k c \<and> par k = p \<and> 0 < k"
proof (induction rule: anc.induct)
  case (anc_step c p)
  show ?case
  proof (cases "p = par c")
    case True
    with anc_step(1) show ?thesis by auto
  next
    case False
    with anc_step obtain k where "anc k (par c)" "par k = p" "0 < k" by blast
    with anc_step(1) show ?thesis by (blast intro: anc.anc_step)
  qed
qed auto

lemma length_sd_shift [simp]: "length (sd_shift a c b xs) = length xs"
  by (induction a c b xs rule: sd_shift.induct) (subst sd_shift.simps, simp)

lemma mset_take_sd_shift:
  "anc a b \<Longrightarrow> b \<le> c \<Longrightarrow> c < n \<Longrightarrow> n \<le> length xs \<Longrightarrow>
   mset (take n (sd_shift a c b xs)) = mset (take n xs)"
proof (induction a c b xs rule: sd_shift.induct)
  case (1 a c b xs)
  then show ?case
    by (subst sd_shift.simps) (auto simp: take_swap_nth_mset dest: anc_lt_par)
qed

lemma drop_sd_shift:
  "anc a b \<Longrightarrow> b \<le> c \<Longrightarrow> c < n \<Longrightarrow> drop n (sd_shift a c b xs) = drop n xs"
proof (induction a c b xs rule: sd_shift.induct)
  case (1 a c b xs)
  then show ?case
    by (subst sd_shift.simps) (auto dest: anc_lt_par)
qed

text \<open>
  What the shift loop leaves behind: the path from \<open>a\<close> to \<open>b\<close> moved up by one, with the
  value at \<open>c\<close> entering at the bottom and the value at \<open>a\<close> ending at \<open>c\<close>.
\<close>

lemma sd_shift_nth:
  assumes "anc a b" "anc b c" "c < length xs"
  shows "a = b \<Longrightarrow> sd_shift a c b xs = xs"
    and "a < b \<Longrightarrow> sd_shift a c b xs ! par b = xs ! c"
    and "a < b \<Longrightarrow> sd_shift a c b xs ! c = xs ! a"
    and "anc k b \<Longrightarrow> k \<noteq> b \<Longrightarrow> anc a k \<Longrightarrow> k \<noteq> a \<Longrightarrow> sd_shift a c b xs ! par k = xs ! k"
    and "i < length xs \<Longrightarrow> i \<noteq> c \<Longrightarrow> \<not> (anc a i \<and> anc i b \<and> i \<noteq> b) \<Longrightarrow> sd_shift a c b xs ! i = xs ! i"
proof -
  have "(a = b \<longrightarrow> sd_shift a c b xs = xs) \<and>
    (a < b \<longrightarrow> sd_shift a c b xs ! par b = xs ! c) \<and>
    (a < b \<longrightarrow> sd_shift a c b xs ! c = xs ! a) \<and>
    (\<forall>k. anc k b \<longrightarrow> k \<noteq> b \<longrightarrow> anc a k \<longrightarrow> k \<noteq> a \<longrightarrow> sd_shift a c b xs ! par k = xs ! k) \<and>
    (\<forall>i. i < length xs \<longrightarrow> i \<noteq> c \<longrightarrow> \<not> (anc a i \<and> anc i b \<and> i \<noteq> b) \<longrightarrow> sd_shift a c b xs ! i = xs ! i)"
    using assms
  proof (induction a c b xs rule: sd_shift.induct)
    case (1 a c b xs)
    show ?case
    proof (cases "a < b")
      case False
      with 1 anc_le [of a b] have "a = b" by simp
      moreover have "sd_shift a c b xs = xs" using False by (simp add: sd_shift.simps)
      moreover have "anc k b \<Longrightarrow> anc b k \<Longrightarrow> k = b" for k
        using anc_le by (meson le_antisym)
      ultimately show ?thesis by auto
    next
      case True
      let ?p = "par b" and ?ys = "swap_nth xs (par b) c"
      have p: "anc a ?p" "?p < b" "0 < b" using anc_lt_par [OF 1(2) True] by auto
      have bc: "b \<le> c" using 1(3) by (rule anc_le)
      have pc: "anc ?p c" using 1(3) p anc_trans anc_step by blast
      have len: "?p < length xs" "c < length ?ys" using p bc 1(4) by auto
      have a_le: "a \<le> ?p" using p(1) by (rule anc_le)
      have eq: "sd_shift a c b xs = sd_shift a c ?p ?ys" using True by (subst sd_shift.simps) simp
      note IH = 1(1) [OF True p(1) pc len(2)]
      note IH1 = IH [THEN conjunct1] and IH2 = IH [THEN conjunct2, THEN conjunct1]
        and IH3 = IH [THEN conjunct2, THEN conjunct2, THEN conjunct1]
        and IH4 = IH [THEN conjunct2, THEN conjunct2, THEN conjunct2, THEN conjunct1]
      have IH5: "i < length xs \<Longrightarrow> i \<noteq> c \<Longrightarrow> \<not> (anc a i \<and> anc i ?p \<and> i \<noteq> ?p) \<Longrightarrow>
        sd_shift a c ?p ?ys ! i = ?ys ! i" for i
        using IH [THEN conjunct2, THEN conjunct2, THEN conjunct2, THEN conjunct2] by simp
      have ys: "\<And>k. k < length xs \<Longrightarrow> ?ys ! k = (if k = c then xs ! ?p else if k = ?p then xs ! c else xs ! k)"
        using len 1(4) by simp
      have g1: "sd_shift a c b xs ! ?p = xs ! c"
        using IH1 IH5 [of ?p] ys [of ?p] len p bc eq by (cases "a = ?p") simp_all
      have g2: "sd_shift a c b xs ! c = xs ! a"
        using IH1 IH3 ys [of c] ys [of a] 1(4) p bc eq a_le by (cases "a = ?p") simp_all
      have g3: "sd_shift a c b xs ! par k = xs ! k"
        if k: "anc k b" "k \<noteq> b" "anc a k" "k \<noteq> a" for k
      proof (cases "k = ?p")
        case True
        then have "a < ?p" using k a_le by simp
        then show ?thesis using IH2 eq True ys [of c] 1(4) by simp
      next
        case False
        have "anc k ?p" using k anc_par by blast
        then have "k \<le> ?p" by (rule anc_le)
        then have "?ys ! k = xs ! k" using False p bc 1(4) ys [of k] by simp
        then show ?thesis using IH4 eq \<open>anc k ?p\<close> False k by metis
      qed
      have g4: "sd_shift a c b xs ! i = xs ! i"
        if i: "i < length xs" "i \<noteq> c" "\<not> (anc a i \<and> anc i b \<and> i \<noteq> b)" for i
      proof -
        have "anc ?p b" using p by (auto intro: anc_step)
        then have "i \<noteq> ?p" using i(3) p by auto
        moreover have "\<not> (anc a i \<and> anc i ?p \<and> i \<noteq> ?p)"
          using i(3) p anc_step [of b i] anc_le [of i ?p] by auto
        ultimately have "sd_shift a c ?p ?ys ! i = ?ys ! i" "?ys ! i = xs ! i"
          using IH5 i ys [of i] by (blast, simp)
        then show ?thesis using eq by simp
      qed
      show ?thesis using True g1 g2 g3 g4 by auto
    qed
  qed
  then show "a = b \<Longrightarrow> sd_shift a c b xs = xs"
    and "a < b \<Longrightarrow> sd_shift a c b xs ! par b = xs ! c"
    and "a < b \<Longrightarrow> sd_shift a c b xs ! c = xs ! a"
    and "anc k b \<Longrightarrow> k \<noteq> b \<Longrightarrow> anc a k \<Longrightarrow> k \<noteq> a \<Longrightarrow> sd_shift a c b xs ! par k = xs ! k"
    and "i < length xs \<Longrightarrow> i \<noteq> c \<Longrightarrow> \<not> (anc a i \<and> anc i b \<and> i \<noteq> b) \<Longrightarrow> sd_shift a c b xs ! i = xs ! i"
    by blast+
qed

lemma sd_path_two:
  "2 * b + 2 < n \<Longrightarrow> sd_path lt xs n b =
   sd_path lt xs n (if lt (xs ! (2 * b + 1)) (xs ! (2 * b + 2)) then 2 * b + 1 else 2 * b + 2)"
  by (subst sd_path.simps) (simp add: Let_def)

lemma sd_path_one: "2 * b + 2 = n \<Longrightarrow> sd_path lt xs n b = 2 * b + 1"
  by (subst sd_path.simps) (simp add: Let_def)

lemma sd_path_none: "n < 2 * b + 2 \<Longrightarrow> sd_path lt xs n b = b"
  by (subst sd_path.simps) (simp add: Let_def)

lemma sd_back_stop: "\<not> (a < b \<and> lt (xs ! a) (xs ! b)) \<Longrightarrow> sd_back lt xs a b = b"
  by (subst sd_back.simps) (rule if_not_P)

lemma sd_back_go: "a < b \<and> lt (xs ! a) (xs ! b) \<Longrightarrow> sd_back lt xs a b = sd_back lt xs a (par b)"
  by (subst sd_back.simps) (rule if_P)

lemma length_sift_down [simp]: "length (sift_down lt n xs a) = length xs"
  by (simp add: sift_down_def Let_def)

lemma sift_down_perm:
  assumes "a < n" "n \<le> length xs"
  shows "mset (take n (sift_down lt n xs a)) = mset (take n xs)"
    and "drop n (sift_down lt n xs a) = drop n xs"
proof -
  let ?L = "sd_path lt xs n a"
  have "anc a (sd_back lt xs a ?L)" "anc (sd_back lt xs a ?L) ?L" "?L < n"
    using anc_sd_back [OF anc_sd_path [OF anc_refl, of a lt xs n], of lt xs] sd_path_lt [OF assms(1), of lt xs]
    by simp_all
  with anc_le [of "sd_back lt xs a ?L" ?L] assms(2)
  show "mset (take n (sift_down lt n xs a)) = mset (take n xs)"
    and "drop n (sift_down lt n xs a) = drop n xs"
    by (simp_all add: sift_down_def Let_def mset_take_sd_shift drop_sd_shift)
qed

lemma sift_down_empty [simp]: "sift_down lt 0 xs 0 = xs"
  by (simp add: sift_down_def Let_def sd_path_none sd_back_stop sd_shift.simps)

lemma heapify_from_perm:
  "k \<le> n \<Longrightarrow> n \<le> length xs \<Longrightarrow>
   length (heapify_from lt n xs k) = length xs \<and>
   mset (take n (heapify_from lt n xs k)) = mset (take n xs)"
  by (induction k arbitrary: xs) (simp_all add: sift_down_perm)

lemma length_sift_up [simp]: "length (sift_up lt xs a) = length xs"
  by (induction lt xs a rule: sift_up.induct) (subst sift_up.simps, simp)

lemma mset_take_sift_up:
  "a < n \<Longrightarrow> n \<le> length xs \<Longrightarrow> mset (take n (sift_up lt xs a)) = mset (take n xs)"
proof (induction lt xs a rule: sift_up.induct)
  case (1 lt xs a)
  then show ?case by (subst sift_up.simps) (auto simp: take_swap_nth_mset)
qed

text \<open>Positions above the one that is sifted up keep their values.\<close>

lemma sift_up_above: "a < i \<Longrightarrow> i < length xs \<Longrightarrow> sift_up lt xs a ! i = xs ! i"
proof (induction lt xs a rule: sift_up.induct)
  case (1 lt xs a)
  then show ?case by (subst sift_up.simps) auto
qed

locale heap_order =
  fixes lt :: "'a \<Rightarrow> 'a \<Rightarrow> bool"
  assumes asym: "lt x y \<Longrightarrow> \<not> lt y x"
    and neg_trans: "\<not> lt x y \<Longrightarrow> \<not> lt y z \<Longrightarrow> \<not> lt x z"
begin

lemma irrefl: "\<not> lt x x"
  using asym by blast

lemma children_cases: "0 < i \<Longrightarrow> par i = b \<Longrightarrow> i = 2 * b + 1 \<or> i = 2 * b + 2"
  by presburger

lemma sd_path_leaf: "b < n \<Longrightarrow> n \<le> 2 * sd_path lt xs n b + 1"
proof (induction "n - b" arbitrary: b rule: less_induct)
  case less
  show ?case
  proof (cases "2 * b + 2 < n")
    case True
    let ?b = "if lt (xs ! (2 * b + 1)) (xs ! (2 * b + 2)) then 2 * b + 1 else 2 * b + 2"
    have "n \<le> 2 * sd_path lt xs n ?b + 1" using True less by (intro less(1)) auto
    then show ?thesis by (simp only: sd_path_two [OF True])
  next
    case False
    then show ?thesis using sd_path_one [of b n lt xs] sd_path_none [of n b lt xs] by (cases "2 * b + 2 = n") auto
  qed
qed

text \<open>The path to a leaf follows the smaller child.\<close>

lemma sd_path_sibling:
  "b < n \<Longrightarrow> anc k (sd_path lt xs n b) \<Longrightarrow> anc b k \<Longrightarrow> k \<noteq> b \<Longrightarrow>
   0 < i \<Longrightarrow> i < n \<Longrightarrow> par i = par k \<Longrightarrow> \<not> lt (xs ! i) (xs ! k)"
proof (induction "n - b" arbitrary: b rule: less_induct)
  case less
  let ?c = "2 * b + 1" and ?d = "2 * b + 2"
  consider (two) "?d < n" | (one) "?d = n" | (none) "n < ?d" by linarith
  then show ?case
  proof cases
    case two
    let ?b = "if lt (xs ! ?c) (xs ! ?d) then ?c else ?d"
    have eq: "sd_path lt xs n b = sd_path lt xs n ?b"
      by (rule sd_path_two [OF two])
    have pb: "par ?b = b" "0 < ?b" by auto
    have "anc k ?b \<or> anc ?b k"
      using less.prems(2) eq anc_linear anc_sd_path [OF anc_refl] by metis
    moreover have "anc k ?b \<Longrightarrow> k \<noteq> ?b \<Longrightarrow> k = b"
      using anc_par [of k ?b] pb less.prems(3) anc_le le_antisym by metis
    ultimately consider "k = ?b" | "anc ?b k" "k \<noteq> ?b" using less.prems(4) by blast
    then show ?thesis
    proof cases
      case 1
      have "par i = b" using less.prems(7) pb(1) 1 by simp
      with less.prems(5) have "i = ?c \<or> i = ?d" by (rule children_cases)
      with 1 show ?thesis using asym irrefl by auto
    next
      case 2
      have h: "n - ?b < n - b" "?b < n" using two less.prems(1) by auto
      show ?thesis
        by (rule less.hyps [OF h less.prems(2) [unfolded eq] 2 less.prems(5,6,7)])
    qed
  next
    case one
    then have "sd_path lt xs n b = ?c" by (rule sd_path_one)
    then have "anc k ?c" using less.prems(2) by simp
    moreover have "anc k ?c \<Longrightarrow> k \<noteq> ?c \<Longrightarrow> k = b"
      using anc_par [of k ?c] less.prems(3) anc_le [of k b] anc_le [of b k] by simp
    ultimately have k: "k = ?c" using less.prems(4) by blast
    then have "par i = b" using less.prems(7) by simp
    with less.prems(5) have "i = ?c \<or> i = ?d" by (rule children_cases)
    with k one less.prems(6) show ?thesis using irrefl by auto
  next
    case none
    then have "sd_path lt xs n b = b" by (rule sd_path_none)
    with less.prems(2-4) show ?thesis using anc_le le_antisym by metis
  qed
qed

text \<open>Backtracking stops at a position where the element fits.\<close>

lemma sd_back_fits:
  assumes sib: "\<And>k i. anc k b \<Longrightarrow> anc a k \<Longrightarrow> k \<noteq> a \<Longrightarrow> 0 < i \<Longrightarrow> i < n \<Longrightarrow> par i = par k \<Longrightarrow>
      \<not> lt (xs ! i) (xs ! k)"
    and "anc a b"
    and "\<And>i. 0 < i \<Longrightarrow> i < n \<Longrightarrow> par i = b \<Longrightarrow> \<not> lt (xs ! i) (xs ! a)"
  shows "(sd_back lt xs a b = a \<or> \<not> lt (xs ! a) (xs ! sd_back lt xs a b)) \<and>
    (\<forall>i. 0 < i \<longrightarrow> i < n \<longrightarrow> par i = sd_back lt xs a b \<longrightarrow> \<not> lt (xs ! i) (xs ! a))"
  using assms
proof (induction b rule: less_induct)
  case (less b)
  show ?case
  proof (cases "a < b \<and> lt (xs ! a) (xs ! b)")
    case False
    then have "sd_back lt xs a b = b" by (rule sd_back_stop)
    with False less.prems(2,3) anc_le [of a b] show ?thesis by auto
  next
    case True
    then have eq: "sd_back lt xs a b = sd_back lt xs a (par b)" by (rule sd_back_go)
    have p: "anc a (par b)" "par b < b" "0 < b" using anc_lt_par less.prems(2) True by auto
    have "\<not> lt (xs ! i) (xs ! a)" if "0 < i" "i < n" "par i = par b" for i
      using less.prems(1) [of b i] less.prems(2) True that asym neg_trans by blast
    moreover have "anc k b" if "anc k (par b)" for k
      using that p(3) by (auto intro: anc_step)
    ultimately show ?thesis
      unfolding eq using p(1,2) less.prems(1) by (intro less.IH) blast+
  qed
qed

text \<open>
  Sifting down repairs a heap whose only defect is below \<open>a\<close>; LO is the lowest
  position at which the order is required (0 for a whole heap).
\<close>

theorem sift_down_heap:
  assumes a: "a < n" "n \<le> length xs"
    and ord: "\<And>i. 0 < i \<Longrightarrow> i < n \<Longrightarrow> lo \<le> par i \<Longrightarrow> par i \<noteq> a \<Longrightarrow> \<not> lt (xs ! i) (xs ! par i)"
    and up: "\<And>i. 0 < a \<Longrightarrow> lo \<le> par a \<Longrightarrow> 0 < i \<Longrightarrow> i < n \<Longrightarrow> par i = a \<Longrightarrow> \<not> lt (xs ! i) (xs ! par a)"
    and lo: "lo \<le> a"
  shows "heap_ok lt lo n (sift_down lt n xs a)"
proof -
  let ?L = "sd_path lt xs n a"
  define c where "c = sd_back lt xs a ?L"
  define ys where "ys = sd_shift a c c xs"
  have L: "anc a ?L" "?L < n" "n \<le> 2 * ?L + 1"
    using anc_sd_path [OF anc_refl] sd_path_lt [OF a(1)] sd_path_leaf [OF a(1)] by simp_all
  have c: "anc a c" "anc c ?L" unfolding c_def using anc_sd_back [OF L(1)] by auto
  have cn: "c < n" using anc_le [OF c(2)] L(2) by simp
  have sib: "\<not> lt (xs ! i) (xs ! k)"
    if "anc k c" "anc a k" "k \<noteq> a" "0 < i" "i < n" "par i = par k" for i k
    using sd_path_sibling [OF a(1)] that c(2) anc_trans by metis
  have fits: "(c = a \<or> \<not> lt (xs ! a) (xs ! c)) \<and>
    (\<forall>i. 0 < i \<longrightarrow> i < n \<longrightarrow> par i = c \<longrightarrow> \<not> lt (xs ! i) (xs ! a))"
    unfolding c_def
  proof (rule sd_back_fits)
    show "\<not> lt (xs ! i) (xs ! k)" if "anc k ?L" "anc a k" "k \<noteq> a" "0 < i" "i < n" "par i = par k" for k i
      using sd_path_sibling [OF a(1)] that by blast
    show "\<not> lt (xs ! i) (xs ! a)" if "0 < i" "i < n" "par i = ?L" for i
      using children_cases [OF that(1,3)] that(2) L(3) by linarith
  qed (rule L(1))
  have len: "c < length xs" using cn a(2) by simp
  note nth = sd_shift_nth [OF c(1) anc_refl len, folded ys_def]
  have "\<not> lt (ys ! i) (ys ! par i)" if i: "0 < i" "i < n" "lo \<le> par i" for i
  proof -
    let ?p = "par i"
    have p: "?p < i" "?p < length xs" "i < length xs" using i a(2) by auto
    consider (above) "anc a ?p" "anc ?p c" "?p \<noteq> c" | (at) "?p = c" | (off) "?p \<noteq> c" "\<not> (anc a ?p \<and> anc ?p c)"
      by blast
    then show ?thesis
    proof cases
      case above
      obtain k where k: "anc k c" "par k = ?p" "0 < k"
        using chain_child [OF above(2,3)] by blast
      have ak: "anc a k" "a \<noteq> k"
        using above(1) k anc_step [of k a] anc_le [of a ?p] by auto
      have kup: "ys ! par k = xs ! k" if "anc k c" "anc a k" "a \<noteq> k" for k
        using nth(2) nth(4) [of k] that anc_le [of a k] by (cases "k = c") auto
      have yp: "ys ! ?p = xs ! k" using kup [OF k(1) ak] k(2) by simp
      show ?thesis
      proof (cases "i = k")
        case False
        then have "\<not> anc i c" using anc_siblings k i(1) by metis
        then have "ys ! i = xs ! i" using nth(5) [of i] p(3) by auto
        then show ?thesis using sib [of k i] yp k ak i by simp
      next
        case True
        show ?thesis
        proof (cases "k = c")
          case True
          then have "ys ! i = xs ! a" using \<open>i = k\<close> nth(3) ak anc_le [of a k] by auto
          then show ?thesis using fits yp True ak by auto
        next
          case False
          then obtain k' where k': "anc k' c" "par k' = k" "0 < k'" using chain_child k(1) by blast
          have "anc a k'" "a \<noteq> k'" "k' < n"
            using k' ak anc_step [of k' a] anc_le [of a k] anc_le [of k' c] cn by auto
          then have "ys ! k = xs ! k'" using kup [OF k'(1)] k'(2) by simp
          moreover have "\<not> lt (xs ! k') (xs ! k)"
            using ord [of k'] k' \<open>k' < n\<close> ak i(3) p(1) True by auto
          ultimately show ?thesis using yp True by simp
        qed
      qed
    next
      case at
      then have "ys ! ?p = xs ! a" using nth(1,3) anc_le [OF c(1)] by (cases "a = c") auto
      moreover have "ys ! i = xs ! i"
        using nth(5) [of i] p at anc_le [of i c] by auto
      ultimately show ?thesis using fits i at by auto
    next
      case off
      then have yp: "ys ! ?p = xs ! ?p" using nth(5) [of ?p] p by auto
      have pa: "?p \<noteq> a" using off(2) c(1) by auto
      have pbase: "anc a i \<and> anc i c \<Longrightarrow> i = a" using off anc_par [of a i] anc_trans anc_step [of i ?p] i(1) by blast
      show ?thesis
      proof (cases "i = a")
        case False
        then have "ys ! i = xs ! i" using nth(5) [of i] pbase c(1) p(3) by auto
        then show ?thesis using ord [OF i pa] yp by simp
      next
        case True
        show ?thesis
        proof (cases "a = c")
          case True
          then show ?thesis using nth(1) ord [OF i pa] by simp
        next
          case False
          then obtain k where k: "anc k c" "par k = a" "0 < k" using chain_child c(1) by blast
          then have "anc a k" "k \<noteq> a" using anc_step [of k a] by auto
          then have "ys ! a = xs ! k" using nth(2) nth(4) [of k] k False anc_le [OF c(1)] by (cases "k = c") auto
          moreover have "k < n" using anc_le [OF k(1)] cn by simp
          ultimately show ?thesis using up [of k] k True i yp by auto
        qed
      qed
    qed
  qed
  then show ?thesis by (simp add: heap_ok_def sift_down_def Let_def flip: c_def ys_def)
qed


lemma heapify_from_heap:
  "k \<le> n \<Longrightarrow> n \<le> length xs \<Longrightarrow> heap_ok lt k n xs \<Longrightarrow> heap_ok lt 0 n (heapify_from lt n xs k)"
proof (induction k arbitrary: xs)
  case (Suc k)
  have "heap_ok lt k n (sift_down lt n xs k)"
  proof (rule sift_down_heap)
    show "\<not> lt (xs ! i) (xs ! par i)" if "0 < i" "i < n" "k \<le> par i" "par i \<noteq> k" for i
      using Suc.prems(3) that by (auto simp: heap_ok_def)
  qed (use Suc.prems in auto)
  then show ?case using Suc by simp
qed simp

lemma heap_ok_half: "heap_ok lt (n div 2) n xs"
  by (auto simp: heap_ok_def)

lemma min_heapify_all_heap:
  "heap_wf h \<Longrightarrow> heap_ok lt 0 (nr h) (hdata (min_heapify_all lt h))"
  by (simp add: min_heapify_all_def heapify_from_heap heap_ok_half heap_wf_def)

text \<open>The root is a least element.\<close>

lemma heap_root_least:
  "heap_ok lt 0 n xs \<Longrightarrow> i < n \<Longrightarrow> \<not> lt (xs ! i) (xs ! 0)"
proof (induction i rule: less_induct)
  case (less i)
  show ?case
  proof (cases "i = 0")
    case True
    then show ?thesis using irrefl by simp
  next
    case False
    then have "par i < i" by auto
    with less have "\<not> lt (xs ! par i) (xs ! 0)" by simp
    moreover have "\<not> lt (xs ! i) (xs ! par i)" using less False by (auto simp: heap_ok_def)
    ultimately show ?thesis using neg_trans by blast
  qed
qed

text \<open>Sifting up repairs a heap whose only defect is at \<open>a\<close> towards its parent.\<close>

lemma sift_up_heap:
  "a < n \<Longrightarrow> n \<le> length xs \<Longrightarrow>
   (\<And>i. 0 < i \<Longrightarrow> i < n \<Longrightarrow> i \<noteq> a \<Longrightarrow> \<not> lt (xs ! i) (xs ! par i)) \<Longrightarrow>
   (\<And>i. 0 < a \<Longrightarrow> 0 < i \<Longrightarrow> i < n \<Longrightarrow> par i = a \<Longrightarrow> \<not> lt (xs ! i) (xs ! par a)) \<Longrightarrow>
   heap_ok lt 0 n (sift_up lt xs a)"
proof (induction a arbitrary: xs rule: less_induct)
  case (less a)
  consider (root) "a = 0" | (stop) "0 < a" "lt (xs ! par a) (xs ! a)" | (go) "0 < a" "\<not> lt (xs ! par a) (xs ! a)"
    by auto
  then show ?case
  proof cases
    case root
    then show ?thesis using less.prems(3) by (simp add: sift_up.simps heap_ok_def)
  next
    case stop
    then have "sift_up lt xs a = xs" by (simp add: sift_up.simps)
    moreover have "\<not> lt (xs ! a) (xs ! par a)" using stop asym by blast
    ultimately show ?thesis using less.prems(3) unfolding heap_ok_def by metis
  next
    case go
    let ?p = "par a" and ?ys = "swap_nth xs a (par a)"
    have p: "?p < a" "?p < n" "?p < length xs" "a < length xs" using go less.prems(1,2) by auto
    have eq: "sift_up lt xs a = sift_up lt ?ys ?p" using go by (subst sift_up.simps) simp
    have ys: "\<And>k. k < n \<Longrightarrow> ?ys ! k = (if k = ?p then xs ! a else if k = a then xs ! ?p else xs ! k)"
      using p less.prems(2) by simp
    have "heap_ok lt 0 n (sift_up lt ?ys ?p)"
    proof (rule less.IH)
      show "\<not> lt (?ys ! i) (?ys ! par i)" if i: "0 < i" "i < n" "i \<noteq> ?p" for i
      proof -
        have "par i < n" using i by auto
        consider "i = a" | "i \<noteq> a" "par i = a" | "i \<noteq> a" "par i = ?p" | "i \<noteq> a" "par i \<noteq> a" "par i \<noteq> ?p" by blast
        then show ?thesis
        proof cases
          case 1
          then show ?thesis using go ys [of a] ys [of ?p] less.prems(1) p by simp
        next
          case 2
          then show ?thesis using less.prems(4) [of i] go i ys [of i] ys [of a] less.prems(1) p by simp
        next
          case 3
          have "\<not> lt (xs ! i) (xs ! ?p)" using less.prems(3) [of i] 3 i by simp
          then have "\<not> lt (xs ! i) (xs ! a)" using go neg_trans by blast
          then show ?thesis using 3 i ys [of i] ys [of ?p] p by simp
        next
          case 4
          then show ?thesis using less.prems(3) [of i] i ys [of i] ys [of "par i"] \<open>par i < n\<close> by simp
        qed
      qed
      show "\<not> lt (?ys ! i) (?ys ! par ?p)" if i: "0 < ?p" "0 < i" "i < n" "par i = ?p" for i
      proof -
        have "par ?p < ?p" using i(1) by (rule par_lt)
        then have pp: "par ?p < n" "par ?p \<noteq> ?p" "par ?p \<noteq> a" using p by linarith+
        have up: "\<not> lt (xs ! ?p) (xs ! par ?p)" using less.prems(3) [of ?p] i p by simp
        have ypp: "?ys ! par ?p = xs ! par ?p" using ys [OF pp(1)] pp(2,3) by (simp only: if_False)
        show ?thesis
        proof (cases "i = a")
          case True
          have "?ys ! a = xs ! ?p" using ys [OF less.prems(1)] p(1) by (simp only: if_True split: if_splits) simp
          then show ?thesis using up ypp True by (simp only: not_False_eq_True)
        next
          case False
          have "\<not> lt (xs ! i) (xs ! ?p)" using less.prems(3) [OF i(2,3) False] i(4) by (simp only: not_False_eq_True)
          with up have "\<not> lt (xs ! i) (xs ! par ?p)" using neg_trans by blast
          moreover have "i \<noteq> ?p" using par_lt [OF i(2)] i(4) by linarith
          ultimately show ?thesis using False ys [OF i(3)] ypp by (simp only: if_False not_False_eq_True)
        qed
      qed
    qed (use p less.prems(2) in auto)
    then show ?thesis by (simp only: eq)
  qed
qed

subsection \<open>The heap operations\<close>

text \<open>Popping does not look at the root: the order is only needed below it.\<close>

lemma pop_root_correct:
  assumes "heap_wf h"
    and "\<And>i. 0 < i \<Longrightarrow> i < nr h \<Longrightarrow> par i \<noteq> 0 \<Longrightarrow> \<not> lt (hdata h ! i) (hdata h ! par i)"
    and "0 < nr h" "min_heap_pop lt h = (ok, h')"
  shows "ok \<and> heap_wf h' \<and> heap_ok lt 0 (nr h') (hdata h') \<and> nr h' = nr h - 1 \<and> hsize h' = hsize h \<and>
    heap_elems h = add_mset (hdata h ! 0) (heap_elems h')"
proof -
  define n where "n = nr h - 1"
  define xs where "xs = (hdata h)[0 := hdata h ! n]"
  have nr: "nr h = Suc n" using assms(3) by (simp add: n_def)
  have len: "Suc n \<le> length (hdata h)" "length xs = length (hdata h)"
    using assms(1) nr by (auto simp: heap_wf_def xs_def)
  have h': "ok" "h' = h\<lparr>nr := n, hdata := sift_down lt n xs 0\<rparr>"
    using assms(3,4) by (auto simp: min_heap_pop_def Let_def n_def xs_def)
  have ord: "heap_ok lt 0 n (sift_down lt n xs 0)"
  proof (cases "n = 0")
    case False
    show ?thesis
    proof (rule sift_down_heap)
      show "\<not> lt (xs ! i) (xs ! par i)" if "0 < i" "i < n" "0 \<le> par i" "par i \<noteq> 0" for i
        using assms(2) [of i] that nr len by (auto simp: xs_def nth_list_update)
    qed (use False len in auto)
  qed (simp add: heap_ok_def)
  have "mset (take (Suc n) (hdata h)) = add_mset (hdata h ! 0) (mset (take n xs))"
  proof (cases n)
    case 0
    then show ?thesis using len by (cases "hdata h") auto
  next
    case (Suc m)
    then obtain y ys where ys: "hdata h = y # ys" using len by (cases "hdata h") auto
    have "take (Suc n) (hdata h) = take n (hdata h) @ [hdata h ! n]"
      using len by (simp add: take_Suc_conv_app_nth)
    then show ?thesis using ys Suc by (simp add: xs_def)
  qed
  moreover have "mset (take n (sift_down lt n xs 0)) = mset (take n xs)"
    using sift_down_perm(1) [of 0 n xs lt] len by (cases n) auto
  ultimately show ?thesis
    using h' ord len nr assms(1) by (simp add: heap_elems_def heap_wf_def)
qed

lemma pop_correct:
  assumes "heap_wf h" "heap_ok lt 0 (nr h) (hdata h)" "0 < nr h" "min_heap_pop lt h = (ok, h')"
  shows "ok \<and> heap_wf h' \<and> heap_ok lt 0 (nr h') (hdata h') \<and> nr h' = nr h - 1 \<and> hsize h' = hsize h \<and>
    heap_elems h = add_mset (hdata h ! 0) (heap_elems h')"
  by (rule pop_root_correct [OF assms(1) _ assms(3,4)]) (use assms(2) in \<open>auto simp: heap_ok_def\<close>)

lemma push_correct:
  assumes "heap_wf h" "heap_ok lt 0 (nr h) (hdata h)" "nr h < hsize h" "min_heap_push lt h x = (ok, h')"
  shows "ok \<and> heap_wf h' \<and> heap_ok lt 0 (nr h') (hdata h') \<and> nr h' = nr h + 1 \<and> hsize h' = hsize h \<and>
    heap_elems h' = add_mset x (heap_elems h)"
proof -
  let ?n = "nr h" and ?xs = "(hdata h)[nr h := x]"
  have len: "?n < length (hdata h)" using assms(1,3) by (simp add: heap_wf_def)
  have h': "ok" "h' = h\<lparr>nr := Suc ?n, hdata := sift_up lt ?xs ?n\<rparr>"
    using assms(3,4) by (auto simp: min_heap_push_def Let_def)
  have "heap_ok lt 0 (Suc ?n) (sift_up lt ?xs ?n)"
  proof (rule sift_up_heap)
    show "\<not> lt (?xs ! i) (?xs ! par i)" if "0 < i" "i < Suc ?n" "i \<noteq> ?n" for i
    proof -
      have "i < ?n" "par i < ?n" using that by auto
      then show ?thesis using assms(2) that(1) len by (simp add: heap_ok_def)
    qed
    show "\<not> lt (?xs ! i) (?xs ! par ?n)" if "0 < ?n" "0 < i" "i < Suc ?n" "par i = ?n" for i
      using par_lt [OF that(2)] that by linarith
  qed (use len in auto)
  moreover have "mset (take (Suc ?n) (sift_up lt ?xs ?n)) = add_mset x (mset (take ?n (hdata h)))"
    using mset_take_sift_up [of ?n "Suc ?n" ?xs lt] len by (simp add: take_Suc_conv_app_nth)
  ultimately show ?thesis
    using h' assms(1,3) by (simp add: heap_elems_def heap_wf_def)
qed

lemma pop_push_correct:
  assumes "heap_wf h" "heap_ok lt 0 (nr h) (hdata h)" "0 < nr h"
  shows "heap_wf (min_heap_pop_push lt h x) \<and>
    heap_ok lt 0 (nr h) (hdata (min_heap_pop_push lt h x)) \<and>
    add_mset (hdata h ! 0) (heap_elems (min_heap_pop_push lt h x)) = add_mset x (heap_elems h)"
proof -
  let ?n = "nr h" and ?xs = "(hdata h)[0 := x]"
  have len: "?n \<le> length (hdata h)" using assms(1) by (simp add: heap_wf_def)
  have "heap_ok lt 0 ?n (sift_down lt ?n ?xs 0)"
  proof (rule sift_down_heap)
    show "\<not> lt (?xs ! i) (?xs ! par i)" if "0 < i" "i < ?n" "0 \<le> par i" "par i \<noteq> 0" for i
      using assms(2) that by (simp add: heap_ok_def)
  qed (use assms(3) len in auto)
  moreover have "add_mset (hdata h ! 0) (mset (take ?n ?xs)) = add_mset x (mset (take ?n (hdata h)))"
    using len assms(3) by (cases "hdata h"; cases ?n) auto
  ultimately show ?thesis
    using sift_down_perm(1) [of 0 ?n ?xs lt] len assms(1,3)
    by (simp add: min_heap_pop_push_def heap_elems_def heap_wf_def)
qed

text \<open>
  Deletion puts the last element at \<open>idx\<close> and sifts it up, then down: whichever
  direction it has to move, the other sift finds a heap.
\<close>

lemma sift_both_heap:
  assumes a: "a < n" "n \<le> length xs"
    and ord: "\<And>i. 0 < i \<Longrightarrow> i < n \<Longrightarrow> i \<noteq> a \<Longrightarrow> par i \<noteq> a \<Longrightarrow> \<not> lt (xs ! i) (xs ! par i)"
    and up: "\<And>i. 0 < a \<Longrightarrow> 0 < i \<Longrightarrow> i < n \<Longrightarrow> par i = a \<Longrightarrow> \<not> lt (xs ! i) (xs ! par a)"
  shows "heap_ok lt 0 n (sift_down lt n (sift_up lt xs a) a)"
proof (cases "0 < a \<and> \<not> lt (xs ! par a) (xs ! a)")
  case False
  then have "sift_up lt xs a = xs" by (subst sift_up.simps) auto
  moreover have "heap_ok lt 0 n (sift_down lt n xs a)"
  proof (rule sift_down_heap [OF a])
    show "\<not> lt (xs ! i) (xs ! par i)" if "0 < i" "i < n" "0 \<le> par i" "par i \<noteq> a" for i
      using ord that False asym by (cases "i = a") blast+
  qed (use up in auto)
  ultimately show ?thesis by simp
next
  case True
  let ?ys = "sift_up lt xs a"
  have ys: "heap_ok lt 0 n ?ys"
  proof (rule sift_up_heap [OF a])
    show "\<not> lt (xs ! i) (xs ! par i)" if "0 < i" "i < n" "i \<noteq> a" for i
    proof (cases "par i = a")
      case True
      with up [of i] that \<open>0 < a \<and> _\<close> have "\<not> lt (xs ! i) (xs ! par a)" by blast
      with \<open>0 < a \<and> _\<close> True show ?thesis using neg_trans by metis
    qed (use ord that in blast)
  qed (use up in blast)
  show ?thesis
  proof (rule sift_down_heap)
    show "\<not> lt (?ys ! i) (?ys ! par a)" if "0 < a" "0 < i" "i < n" "par i = a" for i
    proof -
      have "\<not> lt (?ys ! i) (?ys ! a)" using ys that unfolding heap_ok_def by blast
      moreover have "\<not> lt (?ys ! a) (?ys ! par a)" using ys that a unfolding heap_ok_def by blast
      ultimately show ?thesis using neg_trans by blast
    qed
  qed (use ys a in \<open>auto simp: heap_ok_def\<close>)
qed

lemma del_correct:
  assumes "heap_wf h" "heap_ok lt 0 (nr h) (hdata h)" "idx < nr h" "min_heap_del lt h idx = (ok, h')"
  shows "ok \<and> heap_wf h' \<and> heap_ok lt 0 (nr h') (hdata h') \<and> nr h' = nr h - 1 \<and>
    heap_elems h = add_mset (hdata h ! idx) (heap_elems h')"
proof -
  obtain n where nr: "nr h = Suc n" using assms(3) by (cases "nr h") auto
  let ?d = "hdata h"
  have len: "n < length ?d" using assms(1) nr by (simp add: heap_wf_def)
  have last: "take (Suc n) ?d = take n ?d @ [?d ! n]" using len by (simp add: take_Suc_conv_app_nth)
  have old: "\<not> lt (?d ! i) (?d ! par i)" if "0 < i" "i < Suc n" for i
    using assms(2) nr that by (simp add: heap_ok_def)
  show ?thesis
  proof (cases "idx = n")
    case True
    then have "ok" "h' = h\<lparr>nr := n\<rparr>" using assms(4) nr by (auto simp: min_heap_del_def Let_def)
    then show ?thesis using True nr last old assms(1) by (simp add: heap_elems_def heap_wf_def heap_ok_def)
  next
    case False
    then have idx: "idx < n" using assms(3) nr by simp
    let ?xs = "swap_nth ?d idx n"
    have h': "ok" "h' = h\<lparr>nr := n, hdata := sift_down lt n (sift_up lt ?xs idx) idx\<rparr>"
      using assms(4) nr False by (auto simp: min_heap_del_def Let_def)
    have xs: "\<And>i. i < n \<Longrightarrow> i \<noteq> idx \<Longrightarrow> ?xs ! i = ?d ! i" using idx len by simp
    have "heap_ok lt 0 n (sift_down lt n (sift_up lt ?xs idx) idx)"
    proof (rule sift_both_heap)
      show "\<not> lt (?xs ! i) (?xs ! par i)" if i: "0 < i" "i < n" "i \<noteq> idx" "par i \<noteq> idx" for i
      proof -
        have "par i < n" using par_lt [OF i(1)] i(2) by linarith
        then show ?thesis using old [of i] xs [of i] xs [of "par i"] i by simp
      qed
      show "\<not> lt (?xs ! i) (?xs ! par idx)" if i: "0 < idx" "0 < i" "i < n" "par i = idx" for i
      proof -
        have ne: "i \<noteq> idx" "par idx < n" "par idx \<noteq> idx"
          using par_lt [OF i(2)] par_lt [OF i(1)] i(4) idx by linarith+
        have "\<not> lt (?d ! i) (?d ! idx)" using old [OF i(2)] i(3,4) by auto
        moreover have "\<not> lt (?d ! idx) (?d ! par idx)" using old [OF i(1)] idx by simp
        ultimately have "\<not> lt (?d ! i) (?d ! par idx)" using neg_trans by blast
        then show ?thesis using xs [OF i(3) ne(1)] xs [OF ne(2,3)] by simp
      qed
    qed (use idx len in auto)
    moreover have "add_mset (?d ! idx) (mset (take n ?xs)) = mset (take (Suc n) ?d)"
    proof -
      have "take n ?xs = (take n ?d)[idx := ?d ! n]"
        using idx len by (simp add: swap_nth_def take_update_swap list_update_beyond)
      moreover have "?d ! idx \<in># mset (take n ?d)"
        using idx len by (auto simp: in_set_conv_nth intro!: exI [of _ idx])
      ultimately show ?thesis using idx len last by (simp add: mset_update)
    qed
    ultimately show ?thesis
      using h' nr len idx assms(1) sift_down_perm(1) [of idx n "sift_up lt ?xs idx" lt]
        mset_take_sift_up [of idx n ?xs lt]
      by (simp add: heap_elems_def heap_wf_def)
  qed
qed

lemma heapify_correct:
  assumes "heap_wf h"
  shows "heap_wf (min_heapify_all lt h) \<and> heap_ok lt 0 (nr h) (hdata (min_heapify_all lt h)) \<and>
    heap_elems (min_heapify_all lt h) = heap_elems h"
  using assms min_heapify_all_heap [OF assms] heapify_from_perm [of "nr h div 2" "nr h" "hdata h" lt]
  by (simp add: min_heapify_all_def heap_elems_def heap_wf_def)

text \<open>A heap whose root alone has grown is repaired by one sift from the root.\<close>

lemma sift_root_correct:
  assumes "heap_wf h" "0 < nr h"
    and "\<And>i. 0 < i \<Longrightarrow> i < nr h \<Longrightarrow> par i \<noteq> 0 \<Longrightarrow> \<not> lt (hdata h ! i) (hdata h ! par i)"
  shows "heap_wf (min_heap_sift_down lt h 0) \<and>
    heap_ok lt 0 (nr h) (hdata (min_heap_sift_down lt h 0)) \<and>
    heap_elems (min_heap_sift_down lt h 0) = heap_elems h"
proof -
  have len: "nr h \<le> length (hdata h)" using assms(1) by (simp add: heap_wf_def)
  have "heap_ok lt 0 (nr h) (sift_down lt (nr h) (hdata h) 0)"
    by (rule sift_down_heap) (use assms len in auto)
  then show ?thesis
    using sift_down_perm(1) [OF assms(2) len, of lt] assms(1)
    by (simp add: min_heap_sift_down_def heap_elems_def heap_wf_def)
qed

lemma peek_least:
  assumes "heap_wf h" "heap_ok lt 0 (nr h) (hdata h)" "min_heap_peek h = Some x"
  shows "x \<in># heap_elems h \<and> (\<forall>y \<in># heap_elems h. \<not> lt y x)"
proof -
  have nr: "0 < nr h" "x = hdata h ! 0" using assms(3) by (auto simp: min_heap_peek_def split: if_splits)
  have len: "nr h \<le> length (hdata h)" using assms(1) by (simp add: heap_wf_def)
  have "x \<in># heap_elems h" using nr len by (auto simp: heap_elems_def in_set_conv_nth intro!: exI [of _ 0])
  moreover have "\<not> lt y x" if "y \<in># heap_elems h" for y
    using that nr len heap_root_least [OF assms(2)] by (auto simp: heap_elems_def in_set_conv_nth)
  ultimately show ?thesis by blast
qed

text \<open>Emptying a heap from the root.\<close>

lemma pop_all_correct:
  "heap_wf h \<Longrightarrow> heap_ok lt 0 (nr h) (hdata h) \<Longrightarrow> n = nr h \<Longrightarrow>
   mset (pop_all lt n h) = heap_elems h \<and> sorted_wrt (\<lambda>x y. \<not> lt y x) (pop_all lt n h)"
proof (induction n arbitrary: h)
  case 0
  then show ?case by (simp add: heap_elems_def)
next
  case (Suc n)
  obtain ok h' where p: "min_heap_pop lt h = (ok, h')" by fastforce
  have c: "heap_wf h'" "heap_ok lt 0 (nr h') (hdata h')" "n = nr h'"
    "heap_elems h = add_mset (hdata h ! 0) (heap_elems h')"
    using pop_correct [OF Suc.prems(1,2) _ p] Suc.prems(3) by linarith+
  have IH: "mset (pop_all lt n h') = heap_elems h'" "sorted_wrt (\<lambda>x y. \<not> lt y x) (pop_all lt n h')"
    using Suc.IH [OF c(1,2,3)] by auto
  have "min_heap_peek h = Some (hdata h ! 0)" using Suc.prems(3) by (simp add: min_heap_peek_def)
  then have "\<forall>y \<in># heap_elems h. \<not> lt y (hdata h ! 0)" using peek_least Suc.prems(1,2) by blast
  then have "\<forall>y \<in> set (pop_all lt n h'). \<not> lt y (hdata h ! 0)"
    using c(4) IH(1) by (metis insert_iff set_mset_add_mset_insert set_mset_mset)
  then show ?case using IH c(4) p by simp
qed

end

interpretation key_heap: heap_order "\<lambda>x y. f x < (f y :: 'b::linorder)" for f
  by unfold_locales auto

section \<open>Properties\<close>

definition ex_heap :: "nat min_heap" where
  "ex_heap = \<lparr>nr = 5, hsize = 6, hdata = [5, 3, 8, 1, 4, 0]\<rparr>"

lemma ex_heap_wf: "heap_wf ex_heap"
  by (simp add: heap_wf_def ex_heap_def)

lemma ex_heap_ok: "heap_ok (\<lambda>x y. id x < id y) 0 (nr ex_heap) (hdata (min_heapify_all (\<lambda>x y. id x < id y) ex_heap))"
  using key_heap.heapify_correct [OF ex_heap_wf, of id] by blast

text \<open>
  C24. Building a heap from arbitrary contents and popping it until it is empty yields
  exactly the contents, in ascending order of the key.
\<close>

theorem heapsort_correct:
  assumes "heap_wf h"
  shows "mset (pop_all (\<lambda>x y. f x < f y) (nr h) (min_heapify_all (\<lambda>x y. f x < f y) h)) = heap_elems h \<and>
         sorted (map (f :: 'a \<Rightarrow> 'b::linorder)
           (pop_all (\<lambda>x y. f x < f y) (nr h) (min_heapify_all (\<lambda>x y. f x < f y) h)))"
proof -
  let ?lt = "\<lambda>x y. f x < f y" and ?h = "min_heapify_all (\<lambda>x y. f x < f y) h"
  have c: "heap_wf ?h" "heap_ok ?lt 0 (nr ?h) (hdata ?h)" "heap_elems ?h = heap_elems h" "nr h = nr ?h"
    using key_heap.heapify_correct [OF assms, of f] by (auto simp: min_heapify_all_def)
  show ?thesis
    using key_heap.pop_all_correct [OF c(1,2,4)] c(3) by (simp add: sorted_wrt_map not_less)
qed

theorem heapsort_correct_witness:
  "mset (pop_all (\<lambda>x y. id x < id y) 5 (min_heapify_all (\<lambda>x y. id x < id y) ex_heap)) = {#1, 3, 4, 5, 8#} \<and>
   sorted (map id (pop_all (\<lambda>x y. id x < id y) 5 (min_heapify_all (\<lambda>x y. id x < id y) ex_heap)))"
  using heapsort_correct [OF ex_heap_wf, of id] by (simp add: ex_heap_def heap_elems_def)

text \<open>
  On a heap with room, \<open>min_heap_push\<close> succeeds, keeps the heap order and adds exactly
  the new element; on a full heap it reports failure and changes nothing.
\<close>

theorem push_keeps_heap:
  assumes "heap_wf h" "heap_ok (\<lambda>x y. f x < (f y :: 'b::linorder)) 0 (nr h) (hdata h)"
    and "min_heap_push (\<lambda>x y. f x < f y) h x = (ok, h')"
  shows "if nr h < hsize h
         then ok \<and> heap_wf h' \<and> heap_ok (\<lambda>x y. f x < f y) 0 (nr h') (hdata h') \<and>
              heap_elems h' = add_mset x (heap_elems h)
         else \<not> ok \<and> h' = h"
proof (cases "nr h < hsize h")
  case True
  then show ?thesis unfolding if_P [OF True]
    using key_heap.push_correct [OF assms(1,2) True assms(3)] by blast
next
  case False
  then show ?thesis using assms(3) by (auto simp: min_heap_push_def)
qed

text \<open>
  Deleting the element at any valid position keeps the heap order and removes exactly
  that element, whichever way the element moved into its place has to travel.
\<close>

theorem del_removes_one:
  assumes "heap_wf h" "heap_ok (\<lambda>x y. f x < (f y :: 'b::linorder)) 0 (nr h) (hdata h)" "idx < nr h"
    and "min_heap_del (\<lambda>x y. f x < f y) h idx = (ok, h')"
  shows "ok \<and> heap_wf h' \<and> heap_ok (\<lambda>x y. f x < f y) 0 (nr h') (hdata h') \<and> nr h' = nr h - 1 \<and>
         heap_elems h = add_mset (hdata h ! idx) (heap_elems h')"
  by (rule key_heap.del_correct [OF assms])

text \<open>
  C25. The sift-down of the header file, which works on byte offsets and finds parents with
  the branch-free formula on the lowest set bit of the element size, computes the same array
  as the textbook sift-down on indices, for every element size and every heap the machine
  can address, and always returns.
\<close>

theorem sift_down_bytes_refines_index:
  assumes "0 < es" "es < 2 ^ 32" "n * es < 2 ^ 64" "pos < n"
  shows "sift_down_inline lt es n data pos = Some (sift_down lt n data pos)"
  using assms by (intro sift_down_inline_index) (auto simp: addressable_def)

theorem sift_down_bytes_refines_index_witness:
  "sift_down_inline (<) 24 5 [5, 3, 8, 1, 4::nat] 0 = Some (sift_down (<) 5 [5, 3, 8, 1, 4] 0)"
  by (rule sift_down_bytes_refines_index) simp_all

end
