(* ===== verification/Perf_Mmap.thy ===== *)
theory Perf_Mmap
  imports Prelude
begin

text \<open>
  The ring buffer of a \<open>perf_event\<close>, \<open>src/lib/perf/mmap.c\<close>: the kernel appends
  records at \<open>data_head\<close>, the program reads them one by one and publishes how far it
  has consumed them in \<open>data_tail\<close>. The state is \<open>struct perf_mmap\<close> together with the
  shared control page; bytes are words of 8 bits, positions are 64-bit words, and the
  ring has \<open>mmask + 1\<close> bytes. A pointer to an event is modelled by the bytes it shows
  and by whether it points into \<open>event_copy\<close> (the \<open>writable\<close> result).
\<close>

section \<open>State\<close>

record mmap_page =
  data_head :: u64
  data_tail :: u64
  aux_size :: u64
  ring :: "u8 list"

record perf_mmap =
  page :: mmap_page
  mapped :: bool
  mmask :: nat
  fd :: int
  refcnt :: u32
  prev :: u64
  start :: u64
  endp :: u64
  overwrite :: bool
  flush :: u64
  event_copy :: "u8 list"

text \<open>An event as seen through the pointer that \<open>perf_mmap__read_event\<close> returns.\<close>

record perf_event =
  ev_bytes :: "u8 list"
  ev_in_copy :: bool

section \<open>Record headers\<close>

definition hdr_type :: "u8 list \<Rightarrow> nat" where
  "hdr_type bs = le_nat (take 4 bs)"

definition hdr_size :: "u8 list \<Rightarrow> nat" where
  "hdr_size bs = le_nat (take 2 (drop 6 bs))"

definition sizeof_header :: nat where
  "sizeof_header = 8"

text \<open>
  \<open>sizeof(union perf_event)\<close>: the largest member is \<open>perf_record_mmap2\<close>, with a header
  of 8 bytes, 64 bytes of fields and \<open>filename[PATH_MAX]\<close>.
\<close>

definition sizeof_perf_event :: nat where
  "sizeof_perf_event = 8 + 64 + 4096"

definition PERF_SAMPLE_MAX_SIZE :: nat where
  "PERF_SAMPLE_MAX_SIZE = 65536"

section \<open>Operations\<close>

definition page_size :: nat where
  "page_size = 4096"

definition perf_mmap__init :: "perf_mmap \<Rightarrow> bool \<Rightarrow> perf_mmap" where
  "perf_mmap__init mp ovw = mp\<lparr>fd := -1, overwrite := ovw, refcnt := 0\<rparr>"

definition perf_mmap__mmap_len :: "perf_mmap \<Rightarrow> nat" where
  "perf_mmap__mmap_len mp = mmask mp + 1 + page_size"

text \<open>
  The system call \<open>mmap\<close> is a parameter: it maps a file descriptor and a length to the
  pages the kernel shares, or fails.
\<close>

definition perf_mmap__mmap ::
  "(int \<Rightarrow> nat \<Rightarrow> mmap_page option) \<Rightarrow> perf_mmap \<Rightarrow> nat \<Rightarrow> int \<Rightarrow> int \<times> perf_mmap" where
  "perf_mmap__mmap sys_mmap mp msk fdn =
     (let mp1 = mp\<lparr>prev := 0, mmask := msk\<rparr>
      in case sys_mmap fdn (perf_mmap__mmap_len mp1) of
           None \<Rightarrow> (-1, mp1\<lparr>mapped := False\<rparr>)
         | Some pg \<Rightarrow> (0, mp1\<lparr>page := pg, mapped := True, fd := fdn\<rparr>))"

definition perf_mmap__read_head :: "perf_mmap \<Rightarrow> u64" where
  "perf_mmap__read_head mp = data_head (page mp)"

definition perf_mmap__write_tail :: "perf_mmap \<Rightarrow> u64 \<Rightarrow> perf_mmap" where
  "perf_mmap__write_tail md tail = md\<lparr>page := (page md)\<lparr>data_tail := tail\<rparr>\<rparr>"

definition perf_mmap__empty :: "perf_mmap \<Rightarrow> bool" where
  "perf_mmap__empty mp \<longleftrightarrow> perf_mmap__read_head mp = prev mp \<and> aux_size (page mp) = 0"

definition perf_mmap__munmap :: "perf_mmap \<Rightarrow> perf_mmap" where
  "perf_mmap__munmap mp =
     (if mapped mp then mp\<lparr>mapped := False, fd := -1, refcnt := 0\<rparr> else mp)"

text \<open>
  \<open>refcount_inc\<close> does nothing on a count of zero and saturates at the largest value;
  \<open>refcount_dec_and_test\<close> leaves a saturated count alone and refuses to go below zero.
\<close>

definition perf_mmap__get :: "perf_mmap \<Rightarrow> perf_mmap" where
  "perf_mmap__get mp =
     (if refcnt mp = 0 \<or> refcnt mp + 1 = 0 then mp else mp\<lparr>refcnt := refcnt mp + 1\<rparr>)"

text \<open>The condition of the \<open>BUG_ON\<close> at the start of \<open>perf_mmap__put\<close>.\<close>

definition perf_mmap__put_bug :: "perf_mmap \<Rightarrow> bool" where
  "perf_mmap__put_bug mp \<longleftrightarrow> mapped mp \<and> refcnt mp = 0"

definition perf_mmap__put :: "perf_mmap \<Rightarrow> perf_mmap" where
  "perf_mmap__put mp =
     (if refcnt mp = - 1 \<or> refcnt mp = 0 then mp
      else let mp' = mp\<lparr>refcnt := refcnt mp - 1\<rparr>
           in if refcnt mp' = 0 then perf_mmap__munmap mp' else mp')"

definition perf_mmap__consume :: "perf_mmap \<Rightarrow> perf_mmap" where
  "perf_mmap__consume mp =
     (let mp1 = (if overwrite mp then mp else perf_mmap__write_tail mp (prev mp))
      in if refcnt mp1 = 1 \<and> perf_mmap__empty mp1 then perf_mmap__put mp1 else mp1)"

definition ring_at :: "perf_mmap \<Rightarrow> nat \<Rightarrow> u8 list" where
  "ring_at mp off = drop off (ring (page mp))"

text \<open>
  \<open>overwrite_rb_find_range\<close>: walk the headers from \<open>start\<close> until the ring is used up
  or an empty header is found. \<open>sz\<close> is the size of the last header read.
\<close>

partial_function (option) find_range_loop ::
  "perf_mmap \<Rightarrow> u64 \<Rightarrow> u64 \<Rightarrow> nat \<Rightarrow> u64 option" where
  "find_range_loop mp st evt_head sz =
     (if unat (evt_head - st) \<ge> mmask mp + 1 then
        Some (if unat (evt_head - st) > mmask mp + 1 then evt_head - of_nat sz else evt_head)
      else
        let sz' = hdr_size (ring_at mp (unat evt_head AND mmask mp)) in
        if sz' = 0 then Some evt_head
        else find_range_loop mp st (evt_head + of_nat sz') sz')"

declare find_range_loop.simps [code]

definition overwrite_rb_find_range :: "perf_mmap \<Rightarrow> u64 \<Rightarrow> u64 option" where
  "overwrite_rb_find_range mp st =
     find_range_loop mp st st (hdr_size (ring_at mp (unat st AND mmask mp)))"

datatype read_init_result = Ready | EAGAIN | EINVAL | ENOENT

definition perf_mmap__read_init_locked :: "perf_mmap \<Rightarrow> (read_init_result \<times> perf_mmap) option" where
  "perf_mmap__read_init_locked md =
     (let head = perf_mmap__read_head md;
          old = prev md;
          md1 = md\<lparr>start := (if overwrite md then head else old),
                   endp := (if overwrite md then old else head)\<rparr>
      in if endp md1 - start md1 < flush md1 then Some (EAGAIN, md1)
         else if unat (endp md1 - start md1) > mmask md1 + 1 then
           if \<not> overwrite md1 then Some (EAGAIN, perf_mmap__consume (md1\<lparr>prev := head\<rparr>))
           else Option.bind (overwrite_rb_find_range md1 (start md1))
                  (\<lambda>e. Some (Ready, md1\<lparr>endp := e\<rparr>))
         else Some (Ready, md1))"

definition perf_mmap__read_init :: "perf_mmap \<Rightarrow> (read_init_result \<times> perf_mmap) option" where
  "perf_mmap__read_init mp =
     (if refcnt mp = 0 then Some (ENOENT, mp) else perf_mmap__read_init_locked mp)"

definition perf_mmap__read_done :: "perf_mmap \<Rightarrow> perf_mmap" where
  "perf_mmap__read_done mp =
     (if refcnt mp = 0 then mp
      else if overwrite mp then mp\<lparr>prev := perf_mmap__read_head mp\<rparr>
      else if prev mp \<noteq> endp mp then mp\<lparr>prev := endp mp\<rparr> else mp)"

text \<open>\<open>memcpy(dst, src, n)\<close> into a byte array at index \<open>dst\<close>.\<close>

definition memcpy_at :: "u8 list \<Rightarrow> nat \<Rightarrow> u8 list \<Rightarrow> nat \<Rightarrow> u8 list" where
  "memcpy_at buf dst src n = take dst buf @ take n src @ drop (dst + n) buf"

text \<open>The do-while loop that copies an event across the end of the ring.\<close>

function copy_straddle :: "u8 list \<Rightarrow> nat \<Rightarrow> nat \<Rightarrow> nat \<Rightarrow> nat \<Rightarrow> u8 list \<Rightarrow> u8 list" where
  "copy_straddle data msk offset dst len buf =
     (let cpy = min (msk + 1 - (offset AND msk)) len;
          buf' = memcpy_at buf dst (drop (offset AND msk) data) cpy;
          len' = len - cpy
      in if 0 < len' \<and> 0 < cpy
         then copy_straddle data msk ((offset + cpy) mod 2 ^ 32) (dst + cpy) len' buf'
         else buf')"
  by pat_completeness auto
termination
  by (relation "measure (\<lambda>(data, msk, offset, dst, len, buf). len)") (auto simp: Let_def)

declare copy_straddle.simps [simp del]

text \<open>\<open>int diff = end - *startp\<close>: the difference truncated to a signed 32-bit integer.\<close>

definition diff32 :: "u64 \<Rightarrow> u64 \<Rightarrow> int" where
  "diff32 e s = sint (ucast (e - s) :: u32)"

definition perf_mmap__read :: "perf_mmap \<Rightarrow> u64 \<Rightarrow> u64 \<Rightarrow> perf_event option \<times> u64 \<times> perf_mmap" where
  "perf_mmap__read mp startp e =
     (let diff = diff32 e startp in
      if diff \<ge> int sizeof_header then
        let off = unat startp AND mmask mp;
            sz = hdr_size (ring_at mp off)
        in if sz < sizeof_header \<or> diff < int sz then (None, startp, mp)
           else
             let straddle = (off + sz \<noteq> (unat (startp + of_nat sz) AND mmask mp));
                 mp' = (if straddle
                    then mp\<lparr>event_copy := copy_straddle (ring (page mp)) (mmask mp)
                           (unat startp mod 2 ^ 32) 0 (min sizeof_perf_event sz) (event_copy mp)\<rparr>
                    else mp);
                 event = \<lparr>ev_bytes = take sz (if straddle then event_copy mp' else ring_at mp off),
                          ev_in_copy = straddle\<rparr>;
                 startp' = startp + of_nat sz
             in if overwrite mp' \<and> unat (startp' - perf_mmap__read_head mp') > mmask mp' + 1
                then (None, startp', mp')
                else (Some event, startp', mp')
      else (None, startp, mp))"

definition perf_mmap__read_event :: "perf_mmap \<Rightarrow> perf_event option \<times> perf_mmap" where
  "perf_mmap__read_event mp =
     (if refcnt mp = 0 then (None, mp)
      else
        let mp1 = (if overwrite mp then mp else mp\<lparr>endp := perf_mmap__read_head mp\<rparr>);
            (event, startp, mp2) = perf_mmap__read mp1 (start mp1) (endp mp1);
            mp3 = mp2\<lparr>start := startp\<rparr>
        in (event, if overwrite mp3 then mp3 else mp3\<lparr>prev := start mp3\<rparr>))"

definition perf_mmap__unread_event :: "perf_mmap \<Rightarrow> perf_event option \<Rightarrow> perf_mmap" where
  "perf_mmap__unread_event mp event =
     (case event of
        None \<Rightarrow> mp
      | Some ev \<Rightarrow>
          if refcnt mp = 0 then mp
          else let mp1 = mp\<lparr>start := start mp - of_nat (hdr_size (ev_bytes ev))\<rparr>
               in if overwrite mp1 then mp1 else mp1\<lparr>prev := start mp1\<rparr>)"

text \<open>\<open>CIRC_CNT\<close> and \<open>CIRC_SPACE\<close> of \<open>circ_buf.h\<close>, on 64-bit positions.\<close>

definition CIRC_CNT :: "u64 \<Rightarrow> u64 \<Rightarrow> nat \<Rightarrow> nat" where
  "CIRC_CNT head tail sz = unat ((head - tail) AND of_nat (sz - 1))"

definition CIRC_SPACE :: "u64 \<Rightarrow> u64 \<Rightarrow> nat \<Rightarrow> nat" where
  "CIRC_SPACE head tail sz = CIRC_CNT tail (head + 1) sz"

definition perf_mmap_has_space :: "perf_mmap \<Rightarrow> nat \<Rightarrow> bool" where
  "perf_mmap_has_space mp sz \<longleftrightarrow> CIRC_SPACE (endp mp) (start mp) (mmask mp + 1) \<ge> sz"

section \<open>The ring as an array of positions\<close>

text \<open>
  The shape every mapping has: a power of two of data bytes that fits a C \<open>int\<close>, at
  least one header, and a full-sized \<open>event_copy\<close>.
\<close>

definition ring_wf :: "perf_mmap \<Rightarrow> bool" where
  "ring_wf mp \<longleftrightarrow>
     (\<exists>k\<le>30. 3 \<le> k \<and> mmask mp + 1 = 2 ^ k) \<and>
     length (ring (page mp)) = mmask mp + 1 \<and>
     length (event_copy mp) = PERF_SAMPLE_MAX_SIZE"

text \<open>The \<open>n\<close> bytes from position \<open>p\<close> on, each found at its position modulo the ring.\<close>

definition ring_bytes :: "u8 list \<Rightarrow> nat \<Rightarrow> nat \<Rightarrow> u8 list" where
  "ring_bytes data p n = map (\<lambda>i. data ! ((p + i) mod length data)) [0..<n]"

lemma length_ring_bytes [simp]: "length (ring_bytes data p n) = n"
  by (simp add: ring_bytes_def)

lemma ring_bytes_mod [simp]: "ring_bytes data (p mod length data) n = ring_bytes data p n"
  by (simp add: ring_bytes_def mod_add_left_eq)

lemma ring_bytes_0 [simp]: "ring_bytes data p 0 = []"
  by (simp add: ring_bytes_def)

lemma ring_bytes_add:
  "ring_bytes data p (m + n) = ring_bytes data p m @ ring_bytes data (p + m) n"
  by (rule nth_equalityI) (auto simp: ring_bytes_def nth_append add.assoc)

lemma take_ring_bytes [simp]: "n \<le> m \<Longrightarrow> take n (ring_bytes data p m) = ring_bytes data p n"
  by (simp add: ring_bytes_def take_map)

lemma ring_bytes_contiguous:
  assumes "p mod length data + n \<le> length data"
  shows "ring_bytes data p n = take n (drop (p mod length data) data)"
proof (rule nth_equalityI)
  fix i assume "i < length (ring_bytes data p n)"
  then have i: "i < n" by simp
  have "(p + i) mod length data = (p mod length data + i) mod length data"
    by (simp add: mod_add_left_eq)
  also have "\<dots> = p mod length data + i" using assms i by (intro mod_less) linarith
  finally show "ring_bytes data p n ! i = take n (drop (p mod length data) data) ! i"
    using assms i by (simp add: ring_bytes_def)
qed (use assms in auto)

lemma and_mask_mod:
  assumes "m + 1 = 2 ^ k" shows "(x::nat) AND m = x mod (m + 1)"
proof -
  have "m = 2 ^ k - 1" using assms by simp
  then have "m = Bit_Operations.mask k" by (simp add: mask_eq_exp_minus_1)
  then have "x AND m = take_bit k x" by (simp add: take_bit_eq_mask)
  then show ?thesis by (simp only: take_bit_eq_mod assms)
qed

lemma ring_wf_and:
  "ring_wf mp \<Longrightarrow> x AND mmask mp = x mod (mmask mp + 1)"
  unfolding ring_wf_def using and_mask_mod by blast

lemma mod_pow_mod: "k \<le> l \<Longrightarrow> (x mod 2 ^ l) mod 2 ^ k = x mod (2 ^ k :: nat)"
  by (simp add: mod_mod_cancel le_imp_power_dvd)

lemma copy_straddle_ring:
  assumes "msk + 1 = 2 ^ k" "k \<le> 32" "length data = msk + 1" "dst + len \<le> length buf"
  shows "copy_straddle data msk offset dst len buf =
         take dst buf @ ring_bytes data offset len @ drop (dst + len) buf"
  using assms(4)
proof (induction len arbitrary: offset dst buf rule: less_induct)
  case (less len)
  have land: "offset AND msk = offset mod (msk + 1)" using and_mask_mod assms(1) by blast
  define o1 where "o1 = offset mod (msk + 1)"
  define cpy where "cpy = min (msk + 1 - o1) len"
  have o1: "o1 < msk + 1" unfolding o1_def by simp
  have cpy: "cpy \<le> len" "o1 + cpy \<le> msk + 1" unfolding cpy_def using o1 by auto
  define buf' where "buf' = memcpy_at buf dst (drop o1 data) cpy"
  have chunk: "take cpy (drop o1 data) = ring_bytes data offset cpy"
    using ring_bytes_contiguous [of offset data cpy] cpy assms(3) by (simp add: o1_def)
  have buf': "buf' = take dst buf @ ring_bytes data offset cpy @ drop (dst + cpy) buf"
    unfolding buf'_def memcpy_at_def chunk ..
  have step: "copy_straddle data msk offset dst len buf =
     (if 0 < len - cpy \<and> 0 < cpy
      then copy_straddle data msk ((offset + cpy) mod 2 ^ 32) (dst + cpy) (len - cpy) buf'
      else buf')"
    by (subst copy_straddle.simps) (simp only: Let_def land flip: o1_def cpy_def buf'_def)
  show ?case
  proof (cases "len = cpy")
    case True then show ?thesis using step buf' by simp
  next
    case False
    then have pos: "0 < cpy" "cpy < len" using cpy o1 unfolding cpy_def by auto
    have per: "ring_bytes data ((offset + cpy) mod 2 ^ 32) n = ring_bytes data (offset + cpy) n" for n
    proof -
      have "((offset + cpy) mod 2 ^ 32) mod length data = (offset + cpy) mod length data"
        unfolding assms(3,1) using mod_pow_mod [OF assms(2)] .
      then show ?thesis by (metis ring_bytes_mod)
    qed
    have tk: "take (dst + cpy) buf' = take dst buf @ ring_bytes data offset cpy"
      using less.prems pos by (simp add: buf')
    have dr: "drop (dst + len) buf' = drop (dst + len) buf"
      using less.prems pos by (simp add: buf' add.commute)
    have "copy_straddle data msk offset dst len buf =
        take (dst + cpy) buf' @ ring_bytes data (offset + cpy) (len - cpy) @
        drop (dst + cpy + (len - cpy)) buf'"
      unfolding step using pos less.prems
      by (subst less.IH) (auto simp: buf' per [simplified])
    also have "\<dots> = take dst buf @ ring_bytes data offset (cpy + (len - cpy)) @ drop (dst + len) buf"
      unfolding ring_bytes_add using tk dr pos by simp
    finally show ?thesis using pos by simp
  qed
qed

text \<open>
  A record of the ring: the size field of its header is its length, a multiple of eight
  of at least one header.
\<close>

definition record_ok :: "u8 list \<Rightarrow> bool" where
  "record_ok r \<longleftrightarrow> sizeof_header \<le> length r \<and> 8 dvd length r \<and> hdr_size r = length r"

fun ring_holds :: "u8 list \<Rightarrow> nat \<Rightarrow> u8 list list \<Rightarrow> bool" where
  "ring_holds data p [] \<longleftrightarrow> True"
| "ring_holds data p (r # rs) \<longleftrightarrow>
     record_ok r \<and> ring_bytes data p (length r) = r \<and> ring_holds data (p + length r) rs"

definition bytes_of :: "u8 list list \<Rightarrow> nat" where
  "bytes_of q = sum_list (map length q)"

lemma bytes_of_simps [simp]:
  "bytes_of [] = 0" "bytes_of (r # q) = length r + bytes_of q"
  "bytes_of (q @ q') = bytes_of q + bytes_of q'"
  by (simp_all add: bytes_of_def)

lemma ring_holds_append:
  "ring_holds data p (q @ q') \<longleftrightarrow> ring_holds data p q \<and> ring_holds data (p + bytes_of q) q'"
  by (induction q arbitrary: p) (auto simp: add.assoc)

lemma ring_holds_cong:
  assumes "\<And>i. i < bytes_of q \<Longrightarrow> data' ! ((p' + i) mod length data') = data ! ((p + i) mod length data)"
  shows "ring_holds data' p' q = ring_holds data p q"
  using assms
proof (induction q arbitrary: p p')
  case (Cons r q)
  have "ring_bytes data' p' (length r) = ring_bytes data p (length r)"
    unfolding ring_bytes_def using Cons.prems by simp
  moreover have "ring_holds data' (p' + length r) q = ring_holds data (p + length r) q"
  proof (rule Cons.IH)
    fix i assume "i < bytes_of q"
    then show "data' ! ((p' + length r + i) mod length data') = data ! ((p + length r + i) mod length data)"
      using Cons.prems [of "length r + i"] by (simp add: add.assoc)
  qed
  ultimately show ?case by simp
qed simp

lemma ring_holds_mod:
  "length data dvd m \<Longrightarrow> ring_holds data (p mod m) q = ring_holds data p q"
  by (rule ring_holds_cong) (metis mod_add_left_eq mod_mod_cancel)

text \<open>
  \<open>ring_rel mp q\<close>: the mapping is live and forward, and the bytes from \<open>start\<close> to
  \<open>data_head\<close> are the records \<open>q\<close>, of any size the 16 bits of a header can give.
  The kernel never runs into the bytes behind \<open>data_tail\<close>.
\<close>

definition ring_rel :: "perf_mmap \<Rightarrow> u8 list list \<Rightarrow> bool" where
  "ring_rel mp q \<longleftrightarrow>
     ring_wf mp \<and> \<not> overwrite mp \<and> refcnt mp \<noteq> 0 \<and> mapped mp \<and>
     8 dvd unat (start mp) \<and> prev mp = start mp \<and>
     unat (data_head (page mp) - start mp) = bytes_of q \<and>
     unat (start mp - data_tail (page mp)) + bytes_of q \<le> mmask mp + 1 \<and>
     ring_holds (ring (page mp)) (unat (start mp)) q"

lemma sint_ucast_small:
  fixes x :: u64 assumes "unat x < 2 ^ 31" shows "sint (ucast x :: u32) = int (unat x)"
proof -
  have "int (unat x) < int (2 ^ 31)" using assms by (simp only: of_nat_less_iff)
  then have lt: "uint x < 2 ^ 31" unfolding uint_nat by (simp only: of_nat_power of_nat_numeral)
  have "uint (ucast x :: u32) = take_bit 32 (uint x)" by (simp add: unsigned_ucast_eq)
  also have "\<dots> = uint x" using lt by (intro take_bit_int_eq_self) auto
  finally have u: "uint (ucast x :: u32) = uint x" .
  have "sint (ucast x :: u32) = signed_take_bit 31 (uint x)" unfolding sint_uint u by simp
  also have "\<dots> = uint x" using lt uint_ge_0 [of x] by (intro signed_take_bit_int_eq_self) linarith+
  finally show ?thesis by simp
qed

lemma diff32_small: "unat (e - s) < 2 ^ 31 \<Longrightarrow> diff32 e s = int (unat (e - s))"
  unfolding diff32_def by (rule sint_ucast_small)

lemma hdr_size_take: "8 \<le> n \<Longrightarrow> hdr_size (take n bs) = hdr_size bs"
  by (simp add: hdr_size_def drop_take min_def)

lemma hdr_size_bound: "hdr_size bs < 2 ^ 16"
proof -
  from le_nat_bound [of "take 2 (drop 6 bs)"] have "hdr_size bs < 256 ^ length (take 2 (drop 6 bs))"
    by (simp add: hdr_size_def)
  also have "\<dots> \<le> 256 ^ 2" by (intro power_increasing) auto
  finally show ?thesis by simp
qed

lemma unat_add_mod:
  assumes "k \<le> 64" shows "unat (s + of_nat n :: u64) mod 2 ^ k = (unat s + n) mod 2 ^ k"
proof -
  have "unat (s + of_nat n) = (unat s + n) mod 2 ^ 64"
    by (simp add: unat_word_ariths unat_of_nat mod_add_right_eq)
  then show ?thesis using mod_pow_mod [OF assms] by metis
qed

lemma ring_wf_len:
  assumes "ring_wf mp"
  obtains k where "3 \<le> k" "k \<le> 30" "mmask mp + 1 = 2 ^ k" "length (ring (page mp)) = 2 ^ k"
    "length (event_copy mp) = PERF_SAMPLE_MAX_SIZE"
  using assms unfolding ring_wf_def by auto

lemma ring_len_dvd:
  assumes "ring_wf mp" shows "length (ring (page mp)) dvd 2 ^ 64"
proof -
  obtain k where k: "k \<le> 30" "length (ring (page mp)) = 2 ^ k" using ring_wf_len [OF assms] by metis
  then have "k \<le> 64" by simp
  then show ?thesis unfolding k(2) by (rule le_imp_power_dvd)
qed

lemma header_inside:
  assumes "ring_wf mp" "8 dvd p"
  shows "p mod (mmask mp + 1) + 8 \<le> mmask mp + 1"
proof -
  obtain k where k: "3 \<le> k" "mmask mp + 1 = 2 ^ k" using ring_wf_len [OF assms(1)] by metis
  have "(2::nat) ^ 3 dvd 2 ^ k" using k by (intro le_imp_power_dvd)
  then have d: "8 dvd mmask mp + 1" unfolding k by simp
  then have "8 dvd p mod (mmask mp + 1)" using assms(2) by (simp only: dvd_mod_iff)
  then obtain a b where ab: "p mod (mmask mp + 1) = 8 * a" "mmask mp + 1 = 8 * b" using d by (meson dvdE)
  moreover have "p mod (mmask mp + 1) < mmask mp + 1" by simp
  ultimately have "a < b" by linarith
  then show ?thesis unfolding ab(1) unfolding ab(2) by linarith
qed

lemma read_header:
  assumes wf: "ring_wf mp" and al: "8 dvd p" and n: "8 \<le> n"
  shows "hdr_size (ring_at mp (p AND mmask mp)) = hdr_size (ring_bytes (ring (page mp)) p n)"
proof -
  have len: "length (ring (page mp)) = mmask mp + 1" using wf by (simp add: ring_wf_def)
  have "ring_bytes (ring (page mp)) p 8 = take 8 (drop (p mod (mmask mp + 1)) (ring (page mp)))"
    using ring_bytes_contiguous [of p "ring (page mp)" 8] header_inside [OF wf al] unfolding len .
  then have "hdr_size (ring_bytes (ring (page mp)) p 8) = hdr_size (ring_at mp (p AND mmask mp))"
    unfolding ring_wf_and [OF wf] ring_at_def by (simp only: hdr_size_take order_refl)
  moreover have "hdr_size (ring_bytes (ring (page mp)) p 8) = hdr_size (ring_bytes (ring (page mp)) p n)"
    using hdr_size_take [of 8 "ring_bytes (ring (page mp)) p n"] n by simp
  ultimately show ?thesis by simp
qed

text \<open>
  How the bytes \<open>g\<close> that the program sees stand for the record \<open>r\<close> at position \<open>p\<close> of a ring of
  \<open>n\<close> bytes. They have its length and agree with it on the first \<open>sizeof(union perf_event)\<close>
  bytes, the size in the header included. They can differ only when the record is longer
  than that and reaches the end of the ring: the copy stops at
  \<open>min(sizeof(*event), size)\<close>.
\<close>

definition read_as :: "nat \<Rightarrow> nat \<Rightarrow> u8 list \<Rightarrow> u8 list \<Rightarrow> bool" where
  "read_as n p g r \<longleftrightarrow>
     length g = length r \<and> take sizeof_perf_event g = take sizeof_perf_event r \<and>
     (g \<noteq> r \<longrightarrow> sizeof_perf_event < length r \<and> n \<le> p mod n + length r)"

fun reads_as :: "nat \<Rightarrow> nat \<Rightarrow> u8 list list \<Rightarrow> u8 list list \<Rightarrow> bool" where
  "reads_as n p (g # gs) (r # rs) \<longleftrightarrow> read_as n p g r \<and> reads_as n (p + length r) gs rs"
| "reads_as n p gs rs \<longleftrightarrow> gs = [] \<and> rs = []"

lemma read_as_refl [simp]: "read_as n p r r"
  by (simp add: read_as_def)

lemma read_as_mod: "p mod n = p' mod n \<Longrightarrow> read_as n p g r = read_as n p' g r"
  by (simp add: read_as_def)

lemma read_as_small: "read_as n p g r \<Longrightarrow> length r \<le> sizeof_perf_event \<Longrightarrow> g = r"
  by (auto simp: read_as_def)

lemma read_as_hdr_size: "read_as n p g r \<Longrightarrow> hdr_size g = hdr_size r"
  unfolding read_as_def
  by (metis hdr_size_take sizeof_perf_event_def le_add1 add.assoc)

lemma reads_as_snoc:
  "length gs = length rs \<Longrightarrow>
   reads_as n p (gs @ [g]) (rs @ [r]) \<longleftrightarrow> reads_as n p gs rs \<and> read_as n (p + bytes_of rs) g r"
  by (induction gs rs arbitrary: p rule: list_induct2) (auto simp: add.assoc)

lemma reads_as_small:
  "reads_as n p gs rs \<Longrightarrow> \<forall>r\<in>set rs. length r \<le> sizeof_perf_event \<Longrightarrow> gs = rs"
  by (induction n p gs rs rule: reads_as.induct) (auto dest: read_as_small)

lemma reads_as_length: "reads_as n p gs rs \<Longrightarrow> length gs = length rs"
  by (induction n p gs rs rule: reads_as.induct) auto

lemma straddle_copy:
  fixes s :: u64
  assumes wf: "ring_wf mp" and sz: "n \<le> PERF_SAMPLE_MAX_SIZE"
  defines "m \<equiv> min sizeof_perf_event n"
  shows "copy_straddle (ring (page mp)) (mmask mp) (unat s mod 2 ^ 32) 0 m (event_copy mp) =
         ring_bytes (ring (page mp)) (unat s) m @ drop m (event_copy mp)"
    and "m \<le> length (event_copy mp)"
proof -
  obtain k where k: "k \<le> 30" "mmask mp + 1 = 2 ^ k" "length (ring (page mp)) = 2 ^ k"
    "length (event_copy mp) = PERF_SAMPLE_MAX_SIZE"
    using ring_wf_len [OF wf] by metis
  show n: "m \<le> length (event_copy mp)" using sz unfolding m_def k(4) by simp
  have "k \<le> 32" using k(1) by simp
  then have "(unat s mod 2 ^ 32) mod length (ring (page mp)) = unat s mod length (ring (page mp))"
    unfolding k(3) by (rule mod_pow_mod)
  then have "ring_bytes (ring (page mp)) (unat s mod 2 ^ 32) m = ring_bytes (ring (page mp)) (unat s) m"
    by (metis ring_bytes_mod)
  moreover have "copy_straddle (ring (page mp)) (mmask mp) (unat s mod 2 ^ 32) 0 m (event_copy mp) =
      take 0 (event_copy mp) @ ring_bytes (ring (page mp)) (unat s mod 2 ^ 32) m @ drop (0 + m) (event_copy mp)"
    using k n by (intro copy_straddle_ring [where k = k]) auto
  ultimately show "copy_straddle (ring (page mp)) (mmask mp) (unat s mod 2 ^ 32) 0 m (event_copy mp) =
         ring_bytes (ring (page mp)) (unat s) m @ drop m (event_copy mp)" by simp
qed

text \<open>
  The two ways of presenting the bytes: a record that does not reach the end of the ring
  is shown in place, one that does is assembled in \<open>event_copy\<close>.
\<close>

lemma present_record:
  fixes s :: u64
  assumes wf: "ring_wf mp" and sz: "n \<le> PERF_SAMPLE_MAX_SIZE"
  defines "off \<equiv> unat s AND mmask mp"
  defines "str \<equiv> off + n \<noteq> (unat (s + of_nat n) AND mmask mp)"
  defines "cp \<equiv> copy_straddle (ring (page mp)) (mmask mp) (unat s mod 2 ^ 32) 0
                  (min sizeof_perf_event n) (event_copy mp)"
  shows "read_as (mmask mp + 1) (unat s) (take n (if str then cp else ring_at mp off))
           (ring_bytes (ring (page mp)) (unat s) n)"
    and "length cp = PERF_SAMPLE_MAX_SIZE"
proof -
  let ?r = "ring_bytes (ring (page mp)) (unat s) n"
  obtain k where k: "k \<le> 30" "mmask mp + 1 = 2 ^ k" "length (ring (page mp)) = 2 ^ k"
    "length (event_copy mp) = PERF_SAMPLE_MAX_SIZE"
    using ring_wf_len [OF wf] by metis
  define m where "m = min sizeof_perf_event n"
  have cp: "cp = ring_bytes (ring (page mp)) (unat s) m @ drop m (event_copy mp)"
    and m: "m \<le> length (event_copy mp)"
    unfolding cp_def m_def using straddle_copy [OF wf sz] by simp_all
  show len: "length cp = PERF_SAMPLE_MAX_SIZE" using cp m k(4) by simp
  have at: "unat s mod (mmask mp + 1) = off" unfolding off_def ring_wf_and [OF wf] ..
  show "read_as (mmask mp + 1) (unat s) (take n (if str then cp else ring_at mp off)) ?r"
  proof (cases str)
    case True
    have past: "mmask mp + 1 \<le> off + n"
    proof (rule ccontr)
      assume "\<not> mmask mp + 1 \<le> off + n"
      then have "(off + n) mod (mmask mp + 1) = off + n" by (intro mod_less) linarith
      moreover have "(off + n) mod (mmask mp + 1) = unat (s + of_nat n) mod (mmask mp + 1)"
        unfolding at [symmetric] mod_add_left_eq k(2) using unat_add_mod [of k s n] k(1) by simp
      ultimately show False using True unfolding str_def ring_wf_and [OF wf] by simp
    qed
    have tk: "take sizeof_perf_event (take n cp) = ring_bytes (ring (page mp)) (unat s) m"
      unfolding cp m_def by (cases "sizeof_perf_event \<le> n") (simp_all add: min_def take_take)
    moreover have "take sizeof_perf_event ?r = ring_bytes (ring (page mp)) (unat s) m"
      unfolding m_def by (cases "sizeof_perf_event \<le> n") (simp_all add: min_def)
    moreover have "take n cp = ?r" if "n \<le> sizeof_perf_event"
      using that unfolding cp m_def by (simp add: min_def)
    ultimately show ?thesis using True past at len sz unfolding read_as_def
      by (auto simp flip: not_le)
  next
    case False
    then have "off + n < 2 ^ k" unfolding str_def ring_wf_and [OF wf] k(2)
      by (metis mod_less_divisor zero_less_numeral zero_less_power)
    then have "take n (ring_at mp off) = ?r"
      unfolding ring_at_def off_def ring_wf_and [OF wf] k(2)
      using ring_bytes_contiguous [of "unat s" "ring (page mp)" n] k by simp
    then show ?thesis using False by simp
  qed
qed

lemma perf_mmap__read_record:
  assumes wf: "ring_wf mp" and ow: "\<not> overwrite mp" and al: "8 dvd unat s"
    and hold: "ring_holds (ring (page mp)) (unat s) (r # q)"
    and e: "unat (e - s) = bytes_of (r # q)" "bytes_of (r # q) \<le> mmask mp + 1"
  obtains g b cp where "length cp = PERF_SAMPLE_MAX_SIZE" "read_as (mmask mp + 1) (unat s) g r"
    "perf_mmap__read mp s e =
       (Some \<lparr>ev_bytes = g, ev_in_copy = b\<rparr>, s + of_nat (length r), mp\<lparr>event_copy := cp\<rparr>)"
proof -
  define off where "off = unat s AND mmask mp"
  define str where "str \<longleftrightarrow> off + length r \<noteq> (unat (s + of_nat (length r)) AND mmask mp)"
  define cp where "cp = copy_straddle (ring (page mp)) (mmask mp) (unat s mod 2 ^ 32) 0
                  (min sizeof_perf_event (length r)) (event_copy mp)"
  have r: "8 \<le> length r" "hdr_size r = length r" "ring_bytes (ring (page mp)) (unat s) (length r) = r"
    using hold by (auto simp: record_ok_def sizeof_header_def)
  have sz: "length r \<le> PERF_SAMPLE_MAX_SIZE"
    using hdr_size_bound [of r] r(2) by (simp add: PERF_SAMPLE_MAX_SIZE_def)
  have size: "hdr_size (ring_at mp off) = length r"
    using read_header [OF wf al r(1)] r unfolding off_def by simp
  have "mmask mp + 1 \<le> 2 ^ 30" using ring_wf_len [OF wf] by (metis one_le_numeral power_increasing)
  then have "unat (e - s) < 2 ^ 31" unfolding e(1) using e(2) by simp
  then have diff: "diff32 e s = int (bytes_of (r # q))" unfolding e(1) [symmetric] by (rule diff32_small)
  define cp' where "cp' = (if str then cp else event_copy mp)"
  define g where "g = take (length r) (if str then cp else ring_at mp off)"
  have data: "read_as (mmask mp + 1) (unat s) g r"
    using present_record(1) [OF wf sz, of s] r(3) unfolding g_def str_def cp_def off_def by simp
  have len: "length cp' = PERF_SAMPLE_MAX_SIZE"
    using present_record(2) [OF wf sz, of s] wf unfolding cp'_def cp_def by (simp add: ring_wf_def)
  have "perf_mmap__read mp s e =
     (Some \<lparr>ev_bytes = g, ev_in_copy = str\<rparr>, s + of_nat (length r), mp\<lparr>event_copy := cp'\<rparr>)"
    using ow r(1) unfolding perf_mmap__read_def Let_def diff sizeof_header_def g_def
    by (simp add: size cp'_def cp_def split: if_splits flip: off_def str_def)
  then show thesis using that len data by blast
qed

section \<open>The ring as a queue of records\<close>

lemma unat_minus_add:
  fixes h s :: u64 assumes "unat (h - s) = n + m"
  shows "unat (h - (s + of_nat n)) = m"
proof -
  have le: "of_nat n \<le> h - s"
    using assms unsigned_less [of "h - s", where ?'a = nat]
    by (simp add: word_le_nat_alt unat_of_nat)
  have "h - (s + of_nat n) = (h - s) - of_nat n" by simp
  then have "unat (h - (s + of_nat n)) = unat (h - s) - unat (of_nat n :: u64)"
    using unat_sub [OF le] by (simp only:)
  moreover have "unat (of_nat n :: u64) = n"
    using assms unsigned_less [of "h - s", where ?'a = nat] by (simp add: unat_of_nat)
  ultimately show ?thesis using assms by simp
qed

lemma unat_plus_minus:
  fixes s t :: u64 assumes "unat (s - t) + n < 2 ^ 64"
  shows "unat (s + of_nat n - t) = unat (s - t) + n"
proof -
  have "s + of_nat n - t = (s - t) + of_nat n" by simp
  then have "unat (s + of_nat n - t) = (unat (s - t) + n) mod 2 ^ 64"
    by (simp only: unat_word_ariths unat_of_nat mod_add_right_eq) simp
  then show ?thesis using assms by simp
qed

lemma ring_rel_size: "ring_rel mp q \<Longrightarrow> mmask mp + 1 \<le> 2 ^ 30"
  unfolding ring_rel_def using ring_wf_len by (metis one_le_numeral power_increasing)

text \<open>The state after reading \<open>r\<close>: only the cursor and the scratch buffer move.\<close>

lemma ring_rel_advance:
  assumes rel: "ring_rel mp (r # q)" and cp: "length cp = PERF_SAMPLE_MAX_SIZE"
  defines "s' \<equiv> start mp + of_nat (length r)"
  shows "ring_rel (mp\<lparr>start := s', endp := e, prev := s', event_copy := cp\<rparr>) q"
proof -
  have len: "unat (data_head (page mp) - start mp) = length r + bytes_of q"
    "unat (start mp - data_tail (page mp)) + (length r + bytes_of q) \<le> mmask mp + 1"
    and hold: "record_ok r" "ring_holds (ring (page mp)) (unat (start mp) + length r) q"
    and al: "8 dvd unat (start mp)" and wf: "ring_wf mp"
    using rel by (auto simp: ring_rel_def)
  have tail: "unat (s' - data_tail (page mp)) = unat (start mp - data_tail (page mp)) + length r"
    unfolding s'_def using len(2) ring_rel_size [OF rel] by (intro unat_plus_minus) simp
  have "unat s' = (unat (start mp) + length r) mod 2 ^ 64"
    unfolding s'_def by (simp add: unat_word_ariths unat_of_nat mod_add_right_eq)
  moreover have "length (ring (page mp)) dvd 2 ^ 64"
    by (rule ring_len_dvd [OF wf])
  ultimately have hold': "ring_holds (ring (page mp)) (unat s') q" and "8 dvd unat s'"
    using hold al ring_holds_mod by (auto simp: record_ok_def intro: dvd_mod)
  then show ?thesis
    using rel cp unat_minus_add [OF len(1)] len(2) tail
    unfolding ring_rel_def ring_wf_def by (simp flip: s'_def)
qed

lemma read_event_cons:
  assumes rel: "ring_rel mp (r # q)"
  obtains g b mp' where
    "perf_mmap__read_event mp = (Some \<lparr>ev_bytes = g, ev_in_copy = b\<rparr>, mp')"
    "read_as (mmask mp + 1) (unat (start mp)) g r"
    "ring_rel mp' q" "start mp' = start mp + of_nat (length r)" "page mp' = page mp"
    "refcnt mp' = refcnt mp" "mmask mp' = mmask mp"
proof -
  define mp1 where "mp1 = mp\<lparr>endp := data_head (page mp)\<rparr>"
  have f: "ring_wf mp1" "\<not> overwrite mp1" "8 dvd unat (start mp)"
    "ring_holds (ring (page mp1)) (unat (start mp)) (r # q)"
    "unat (data_head (page mp) - start mp) = bytes_of (r # q)"
    "bytes_of (r # q) \<le> mmask mp1 + 1"
    using rel by (auto simp: ring_rel_def ring_wf_def mp1_def)
  obtain g b cp where cp: "length cp = PERF_SAMPLE_MAX_SIZE"
    and g: "read_as (mmask mp1 + 1) (unat (start mp)) g r"
    and rd: "perf_mmap__read mp1 (start mp) (data_head (page mp)) =
       (Some \<lparr>ev_bytes = g, ev_in_copy = b\<rparr>, start mp + of_nat (length r), mp1\<lparr>event_copy := cp\<rparr>)"
    by (rule perf_mmap__read_record [OF f])
  let ?s' = "start mp + of_nat (length r)"
  let ?mp' = "mp\<lparr>start := ?s', endp := data_head (page mp), prev := ?s', event_copy := cp\<rparr>"
  have "perf_mmap__read_event mp = (Some \<lparr>ev_bytes = g, ev_in_copy = b\<rparr>, ?mp')"
    using rel rd unfolding perf_mmap__read_event_def perf_mmap__read_head_def ring_rel_def
    by (simp add: mp1_def)
  then show thesis using that ring_rel_advance [OF rel cp] g by (simp add: mp1_def)
qed

lemma read_event_nil:
  assumes rel: "ring_rel mp []"
  shows "perf_mmap__read_event mp = (None, mp\<lparr>endp := data_head (page mp)\<rparr>)"
proof -
  have "unat (data_head (page mp) - start mp) = 0" using rel by (simp add: ring_rel_def)
  then have "diff32 (data_head (page mp)) (start mp) = 0" by (simp add: diff32_def unat_eq_zero)
  then show ?thesis
    using rel unfolding perf_mmap__read_event_def perf_mmap__read_head_def ring_rel_def
    by (simp add: perf_mmap__read_def sizeof_header_def)
qed

lemma ring_rel_endp [simp]: "ring_rel (mp\<lparr>endp := e\<rparr>) q = ring_rel mp q"
  by (simp add: ring_rel_def ring_wf_def)

lemma unread_event_rel:
  assumes rel: "ring_rel mp (r # q)" and rd: "perf_mmap__read_event mp = (Some ev, mp')"
  shows "ring_rel (perf_mmap__unread_event mp' (Some ev)) (r # q)"
    and "start (perf_mmap__unread_event mp' (Some ev)) = start mp"
    and "mmask (perf_mmap__unread_event mp' (Some ev)) = mmask mp"
proof -
  obtain g b where ev: "ev = \<lparr>ev_bytes = g, ev_in_copy = b\<rparr>"
    and g: "read_as (mmask mp + 1) (unat (start mp)) g r" and mp': "ring_rel mp' q"
    "start mp' = start mp + of_nat (length r)" "page mp' = page mp" "mmask mp' = mmask mp"
    using read_event_cons [OF rel] rd by (metis Pair_inject option.inject)
  have r: "hdr_size g = length r"
    using rel read_as_hdr_size [OF g] by (simp add: ring_rel_def record_ok_def)
  have un: "perf_mmap__unread_event mp' (Some ev) = mp'\<lparr>start := start mp, prev := start mp\<rparr>"
    using mp' r unfolding perf_mmap__unread_event_def ev ring_rel_def by simp
  then show "start (perf_mmap__unread_event mp' (Some ev)) = start mp"
    "mmask (perf_mmap__unread_event mp' (Some ev)) = mmask mp" using mp'(4) by simp_all
  show "ring_rel (perf_mmap__unread_event mp' (Some ev)) (r # q)"
    using rel mp' unfolding un ring_rel_def ring_wf_def by simp
qed

lemma consume_rel:
  assumes rel: "ring_rel mp q" and live: "refcnt mp \<noteq> 1 \<or> q \<noteq> [] \<or> aux_size (page mp) \<noteq> 0"
  shows "perf_mmap__consume mp = perf_mmap__write_tail mp (start mp)"
    and "ring_rel (perf_mmap__consume mp) q"
proof -
  have "bytes_of q \<noteq> 0" if "q \<noteq> []"
    using that rel unfolding ring_rel_def by (cases q) (auto simp: record_ok_def sizeof_header_def)
  then have "\<not> (refcnt mp = 1 \<and> perf_mmap__empty (perf_mmap__write_tail mp (start mp)))"
    using rel live by (auto simp: ring_rel_def perf_mmap__empty_def perf_mmap__read_head_def
        perf_mmap__write_tail_def)
  then show c: "perf_mmap__consume mp = perf_mmap__write_tail mp (start mp)"
    using rel by (auto simp: perf_mmap__consume_def ring_rel_def perf_mmap__write_tail_def Let_def)
  show "ring_rel (perf_mmap__consume mp) q"
    using rel unfolding c by (auto simp: ring_rel_def ring_wf_def perf_mmap__write_tail_def)
qed

section \<open>The kernel as producer\<close>

text \<open>
  What the kernel promises when it appends a record: its header gives its size, which is
  less than \<open>2 ^ 16\<close> since the field has 16 bits, there is room for it between
  \<open>data_head\<close> and \<open>data_tail\<close>, it lands at \<open>data_head\<close>, the bytes that are not yet
  consumed stay, and nothing but the shared pages changes.
\<close>

definition kernel_appends :: "perf_mmap \<Rightarrow> u8 list \<Rightarrow> perf_mmap \<Rightarrow> bool" where
  "kernel_appends mp r mp' \<longleftrightarrow>
     (let pg = page mp; pg' = page mp'; used = unat (data_head pg - data_tail pg) in
      mp' = mp\<lparr>page := pg'\<rparr> \<and> record_ok r \<and>
      used + length r \<le> mmask mp + 1 \<and>
      data_head pg' = data_head pg + of_nat (length r) \<and> data_tail pg' = data_tail pg \<and>
      length (ring pg') = length (ring pg) \<and>
      ring_bytes (ring pg') (unat (data_tail pg)) used = ring_bytes (ring pg) (unat (data_tail pg)) used \<and>
      ring_bytes (ring pg') (unat (data_head pg)) (length r) = r)"

lemma unat_split_mod:
  fixes s t :: u64 shows "unat s = (unat t + unat (s - t)) mod 2 ^ 64"
  using unat_word_ariths(1) [of t "s - t"] by simp

lemma ring_bytes_eq_nth:
  "ring_bytes d p n = ring_bytes d' p n \<Longrightarrow> i < n \<Longrightarrow>
   d ! ((p + i) mod length d) = d' ! ((p + i) mod length d')"
  unfolding ring_bytes_def by (auto simp: list_eq_iff_nth_eq)

lemma mod_offset:
  fixes s t :: u64 assumes "L dvd 2 ^ 64"
  shows "(unat s + i) mod L = (unat t + (unat (s - t) + i)) mod L"
proof -
  have "unat s mod L = (unat t + unat (s - t)) mod L"
    using unat_split_mod [of s t] mod_mod_cancel [OF assms] by metis
  then show ?thesis by (metis add.assoc mod_add_left_eq)
qed

lemma kernel_appends_rel:
  assumes rel: "ring_rel mp q" and k: "kernel_appends mp r mp'"
  shows "ring_rel mp' (q @ [r])"
proof -
  let ?h = "data_head (page mp)" and ?t = "data_tail (page mp)" and ?s = "start mp"
  let ?d = "ring (page mp)" and ?d' = "ring (page mp')"
  have wf: "ring_wf mp" and bq: "unat (?h - ?s) = bytes_of q"
    and sum: "unat (?s - ?t) + bytes_of q \<le> mmask mp + 1"
    and hold: "ring_holds ?d (unat ?s) q" using rel by (auto simp: ring_rel_def)
  have mp': "mp' = mp\<lparr>page := page mp'\<rparr>" "length ?d' = length ?d"
    "data_head (page mp') = ?h + of_nat (length r)" "data_tail (page mp') = ?t"
    and r: "record_ok r" "ring_bytes ?d' (unat ?h) (length r) = r"
    and room: "unat (?h - ?t) + length r \<le> mmask mp + 1"
    and kept: "ring_bytes ?d' (unat ?t) (unat (?h - ?t)) = ring_bytes ?d (unat ?t) (unat (?h - ?t))"
    using k by (auto simp: kernel_appends_def Let_def)
  have L: "length ?d dvd 2 ^ 64" by (rule ring_len_dvd [OF wf])
  have sz: "mmask mp + 1 \<le> 2 ^ 30" by (rule ring_rel_size [OF rel])
  have "?h - ?s = of_nat (bytes_of q)" unfolding bq [symmetric] by simp
  then have "?h = ?s + of_nat (bytes_of q)" by (simp add: diff_eq_eq add.commute)
  then have ht: "unat (?h - ?t) = unat (?s - ?t) + bytes_of q"
    using unat_plus_minus [of ?s ?t "bytes_of q"] sum sz by simp
  have "ring_holds ?d' (unat ?s) q = ring_holds ?d (unat ?s) q"
  proof (rule ring_holds_cong)
    fix i assume "i < bytes_of q"
    then have i: "unat (?s - ?t) + i < unat (?h - ?t)" using ht by simp
    show "?d' ! ((unat ?s + i) mod length ?d') = ?d ! ((unat ?s + i) mod length ?d)"
      using ring_bytes_eq_nth [OF kept i] unfolding mp'(2) mod_offset [OF L, of ?s i ?t] .
  qed
  moreover have "ring_holds ?d' (unat ?s + bytes_of q) [r]"
  proof -
    have "ring_bytes ?d' (unat ?s + bytes_of q) (length r) = ring_bytes ?d' (unat ?h) (length r)"
      using mod_offset [OF L, of ?h 0 ?s] bq ring_bytes_mod [of ?d'] mp'(2)
      by (metis add.right_neutral)
    then show ?thesis using r by simp
  qed
  ultimately have hold': "ring_holds ?d' (unat ?s) (q @ [r])" using hold by (simp add: ring_holds_append)
  have "unat (?h + of_nat (length r) - ?s) = bytes_of q + length r"
    using unat_plus_minus [of ?h ?s "length r"] bq room ht sz by simp
  moreover obtain pg' where pg: "mp' = mp\<lparr>page := pg'\<rparr>" using mp'(1) by blast
  ultimately show ?thesis
    using rel mp'(2-) hold' room ht unfolding pg ring_rel_def ring_wf_def by simp
qed

section \<open>The reader's interface\<close>

text \<open>
  What the clients of a ring rely on: reading takes the first pending record, an empty
  ring gives nothing, and a record that was read can be put back. \<open>shown m e r\<close> says how the
  event \<open>e\<close> read in state \<open>m\<close> stands for the record \<open>r\<close>.
\<close>

locale event_queue =
  fixes rel :: "'m \<Rightarrow> 'r list \<Rightarrow> bool"
    and read :: "'m \<Rightarrow> 'e option \<times> 'm"
    and unread :: "'m \<Rightarrow> 'e option \<Rightarrow> 'm"
    and shown :: "'m \<Rightarrow> 'e \<Rightarrow> 'r \<Rightarrow> bool"
  assumes read_cons: "rel m (r # q) \<Longrightarrow> \<exists>e m'. read m = (Some e, m') \<and> shown m e r \<and> rel m' q"
    and read_nil: "rel m [] \<Longrightarrow> \<exists>m'. read m = (None, m') \<and> rel m' []"
    and unread_read: "rel m (r # q) \<Longrightarrow> read m = (Some e, m') \<Longrightarrow> rel (unread m' (Some e)) (r # q)"
begin

lemma read_Some:
  assumes "rel m q" "read m = (Some e, m')"
  obtains r q' where "q = r # q'" "shown m e r" "rel m' q'"
proof (cases q)
  case Nil then show ?thesis using assms read_nil by fastforce
next
  case (Cons r q') then show ?thesis using assms read_cons that by fastforce
qed

lemma read_None:
  assumes "rel m q" "read m = (None, m')" shows "q = [] \<and> rel m' []"
proof (cases q)
  case Nil then show ?thesis using assms read_nil by fastforce
next
  case (Cons r q') then show ?thesis using assms read_cons by fastforce
qed

lemma unread_restores:
  assumes "rel m q" "read m = (Some e, m')" shows "rel (unread m' (Some e)) q"
  using assms read_Some unread_read by metis

end

definition ring_shows :: "perf_mmap \<Rightarrow> perf_event \<Rightarrow> u8 list \<Rightarrow> bool" where
  "ring_shows mp e r \<longleftrightarrow> read_as (mmask mp + 1) (unat (start mp)) (ev_bytes e) r"

interpretation ring_queue: event_queue ring_rel perf_mmap__read_event perf_mmap__unread_event ring_shows
proof unfold_locales
  fix m r q assume "ring_rel m (r # q)"
  then show "\<exists>e m'. perf_mmap__read_event m = (Some e, m') \<and> ring_shows m e r \<and> ring_rel m' q"
    unfolding ring_shows_def using read_event_cons by (metis perf_event.select_convs(1))
next
  fix m assume "ring_rel m []"
  then show "\<exists>m'. perf_mmap__read_event m = (None, m') \<and> ring_rel m' []"
    using read_event_nil by simp
qed (rule unread_event_rel(1))

section \<open>Runs of kernel and reader\<close>

text \<open>
  One step of the system made of a ring, the records read so far and the records the
  kernel has written so far. The kernel may append between any two steps of the reader.
\<close>

inductive ring_step ::
  "perf_mmap \<times> u8 list list \<times> u8 list list \<Rightarrow> perf_mmap \<times> u8 list list \<times> u8 list list \<Rightarrow> bool" where
  Append: "kernel_appends mp r mp' \<Longrightarrow> ring_step (mp, got, sent) (mp', got, sent @ [r])"
| Read: "perf_mmap__read_event mp = (Some ev, mp') \<Longrightarrow>
         ring_step (mp, got, sent) (mp', got @ [ev_bytes ev], sent)"
| Empty: "perf_mmap__read_event mp = (None, mp') \<Longrightarrow> ring_step (mp, got, sent) (mp', got, sent)"
| Consume: "refcnt mp \<noteq> 1 \<Longrightarrow> ring_step (mp, got, sent) (perf_mmap__consume mp, got, sent)"
| Peek: "perf_mmap__read_event mp = (Some ev, mp') \<Longrightarrow>
         ring_step (mp, got, sent) (perf_mmap__unread_event mp' (Some ev), got, sent)"

inductive_cases ring_stepE: "ring_step (mp, got, sent) st'"

text \<open>
  The state of a run that started at position \<open>s\<close> of a ring of \<open>n\<close> bytes: \<open>ss\<close> are the records
  that have been read, \<open>q\<close> those still to be read.
\<close>

definition ring_inv_of ::
  "nat \<Rightarrow> u64 \<Rightarrow> u8 list list \<Rightarrow> u8 list list \<Rightarrow> perf_mmap \<times> u8 list list \<times> u8 list list \<Rightarrow> bool" where
  "ring_inv_of n s ss q st \<longleftrightarrow>
     (case st of (mp, got, sent) \<Rightarrow>
        ring_rel mp q \<and> sent = ss @ q \<and> reads_as n (unat s) got ss \<and>
        mmask mp + 1 = n \<and> start mp = s + of_nat (bytes_of ss))"

definition ring_inv :: "nat \<Rightarrow> u64 \<Rightarrow> perf_mmap \<times> u8 list list \<times> u8 list list \<Rightarrow> bool" where
  "ring_inv n s st \<longleftrightarrow> (\<exists>ss q. ring_inv_of n s ss q st)"

lemma ring_inv_read:
  assumes inv: "ring_inv_of n s ss q (mp, got, sent)" and rd: "perf_mmap__read_event mp = (Some ev, mp')"
  shows "\<exists>r q'. ring_inv_of n s (ss @ [r]) q' (mp', got @ [ev_bytes ev], sent)"
proof -
  have rel: "ring_rel mp q" and sent: "sent = ss @ q" and ra: "reads_as n (unat s) got ss"
    and n: "mmask mp + 1 = n" and st: "start mp = s + of_nat (bytes_of ss)"
    using inv by (simp_all add: ring_inv_of_def)
  obtain r q' where q: "q = r # q'" using ring_queue.read_Some [OF rel rd] by metis
  obtain g b where ev: "ev = \<lparr>ev_bytes = g, ev_in_copy = b\<rparr>"
    and g: "read_as n (unat (start mp)) g r" and mp': "ring_rel mp' q'"
    "start mp' = start mp + of_nat (length r)" "mmask mp' = mmask mp"
    using read_event_cons [OF rel [unfolded q]] rd n by (metis Pair_inject option.inject)
  obtain k where k: "k \<le> 30" "n = 2 ^ k"
    using ring_wf_len [of mp] rel n unfolding ring_rel_def by metis
  have "unat (start mp) mod n = (unat s + bytes_of ss) mod n"
    unfolding st k(2) using k(1) by (intro unat_add_mod) simp
  then have "read_as n (unat s + bytes_of ss) g r" using g read_as_mod by blast
  then have "ring_inv_of n s (ss @ [r]) q' (mp', got @ [ev_bytes ev], sent)"
    using mp' sent q ra n st ev reads_as_snoc [OF reads_as_length [OF ra]]
    by (simp add: ring_inv_of_def)
  then show ?thesis by blast
qed

lemma ring_inv_step:
  assumes "ring_step st st'" "ring_inv n s st" shows "ring_inv n s st'"
  using assms
proof cases
  case (Append mp r mp' got sent)
  then have "mmask mp' = mmask mp" "start mp' = start mp"
    unfolding kernel_appends_def Let_def by (metis perf_mmap.ext_inject perf_mmap.surjective perf_mmap.update_convs(1))+
  then show ?thesis using Append assms(2) kernel_appends_rel unfolding ring_inv_def ring_inv_of_def by fastforce
next
  case (Read mp ev mp' got sent)
  then show ?thesis using assms(2) ring_inv_read unfolding ring_inv_def by metis
next
  case (Empty mp mp' got sent)
  obtain ss q where inv: "ring_inv_of n s ss q st" using assms(2) unfolding ring_inv_def by blast
  then have "q = []" using ring_queue.read_None Empty unfolding ring_inv_of_def by fastforce
  then have "mp' = mp\<lparr>endp := data_head (page mp)\<rparr>"
    using Empty read_event_nil [of mp] inv unfolding ring_inv_of_def by simp
  then have "ring_inv_of n s ss q st'" using inv Empty by (simp add: ring_inv_of_def)
  then show ?thesis unfolding ring_inv_def by blast
next
  case (Consume mp got sent)
  obtain ss q where inv: "ring_inv_of n s ss q st" using assms(2) unfolding ring_inv_def by blast
  then have "perf_mmap__consume mp = perf_mmap__write_tail mp (start mp)" "ring_rel (perf_mmap__consume mp) q"
    using Consume consume_rel [of mp q] by (simp_all add: ring_inv_of_def)
  then have "ring_inv_of n s ss q st'"
    using inv Consume by (simp add: ring_inv_of_def) (simp add: perf_mmap__write_tail_def)
  then show ?thesis unfolding ring_inv_def by blast
next
  case (Peek mp ev mp' got sent)
  obtain ss q where inv: "ring_inv_of n s ss q st" using assms(2) unfolding ring_inv_def by blast
  then have rel: "ring_rel mp q" using Peek by (simp add: ring_inv_of_def)
  obtain r q' where "q = r # q'" using ring_queue.read_Some [OF rel] Peek by metis
  note un = unread_event_rel [OF rel [unfolded this] Peek(3), folded this]
  then have "ring_inv_of n s ss q st'" using inv Peek by (simp add: ring_inv_of_def)
  then show ?thesis unfolding ring_inv_def by blast
qed

lemma ring_inv_run: "ring_step\<^sup>*\<^sup>* st st' \<Longrightarrow> ring_inv n s st \<Longrightarrow> ring_inv n s st'"
  by (induction rule: rtranclp_induct) (auto intro: ring_inv_step)

section \<open>Backward rings\<close>

lemma find_range_loop_ends:
  assumes small: "mmask mp + 1 \<le> 2 ^ 30" and e: "unat (evt - st) < mmask mp + 1 \<or>
     sz \<le> unat (evt - st) \<and> unat (evt - st) - sz < mmask mp + 1 \<and> sz < 2 ^ 16"
  shows "\<exists>e. find_range_loop mp st evt sz = Some e \<and> unat (e - st) \<le> mmask mp + 1"
  using e
proof (induction "mmask mp + 1 - unat (evt - st)" arbitrary: evt sz rule: less_induct)
  case less
  show ?case
  proof (cases "unat (evt - st) \<ge> mmask mp + 1")
    case True
    show ?thesis
    proof (cases "unat (evt - st) > mmask mp + 1")
      case gt: True
      then have "sz \<le> unat (evt - st)" "unat (evt - st) - sz < mmask mp + 1" "sz < 2 ^ 16"
        using less.prems True by auto
      moreover have "unat (evt - of_nat sz - st) = unat (evt - st) - sz"
      proof -
        have "evt - of_nat sz - st = (evt - st) - of_nat sz" by simp
        moreover have "unat (of_nat sz :: u64) = sz" using \<open>sz < 2 ^ 16\<close> by (simp add: unat_of_nat)
        ultimately show ?thesis using unat_sub [of "of_nat sz" "evt - st"] \<open>sz \<le> _\<close>
          by (simp only: word_le_nat_alt)
      qed
      ultimately show ?thesis using True gt by (subst find_range_loop.simps) auto
    next
      case False
      then show ?thesis using True by (subst find_range_loop.simps) auto
    qed
  next
    case False
    define sz' where "sz' = hdr_size (ring_at mp (unat evt AND mmask mp))"
    have b: "sz' < 2 ^ 16" unfolding sz'_def by (rule hdr_size_bound)
    have adv: "unat (evt + of_nat sz' - st) = unat (evt - st) + sz'"
      using False small b by (intro unat_plus_minus) simp
    have "\<exists>e. find_range_loop mp st (evt + of_nat sz') sz' = Some e \<and> unat (e - st) \<le> mmask mp + 1"
      if "sz' \<noteq> 0"
      using that False b adv by (intro less.hyps) auto
    then show ?thesis using False by (subst find_range_loop.simps) (auto simp: Let_def simp flip: sz'_def)
  qed
qed

lemma ring_wf_small: "ring_wf mp \<Longrightarrow> mmask mp + 1 \<le> 2 ^ 30"
  using ring_wf_len by (metis one_le_numeral power_increasing)

lemma read_init_returns:
  assumes "mmask mp + 1 \<le> 2 ^ 30" shows "\<exists>res mp'. perf_mmap__read_init mp = Some (res, mp')"
proof -
  define mp1 where "mp1 = mp\<lparr>start := (if overwrite mp then perf_mmap__read_head mp else prev mp),
                           endp := (if overwrite mp then prev mp else perf_mmap__read_head mp)\<rparr>"
  obtain e where fr: "overwrite_rb_find_range mp1 (start mp1) = Some e"
    unfolding overwrite_rb_find_range_def using find_range_loop_ends [of mp1 "start mp1" "start mp1"] assms
    by (auto simp: mp1_def)
  have "perf_mmap__read_init mp \<noteq> None"
    unfolding perf_mmap__read_init_def perf_mmap__read_init_locked_def Let_def mp1_def [symmetric] fr
    by (simp only: bind.simps split: if_splits) simp
  then show ?thesis by (cases "perf_mmap__read_init mp") auto
qed

section \<open>Concrete rings\<close>

text \<open>A ring of 16 bytes with one record that starts in its second half and wraps around.\<close>

definition ex_record :: "u8 list" where
  "ex_record = [9, 0, 0, 0, 0, 0, 16, 0, 1, 2, 3, 4, 5, 6, 7, 8]"

definition ex_ring :: perf_mmap where
  "ex_ring = \<lparr>page = \<lparr>data_head = 24, data_tail = 8, aux_size = 0,
                     ring = drop 8 ex_record @ take 8 ex_record\<rparr>,
     mapped = True, mmask = 15, fd = 3, refcnt = 2, prev = 8, start = 8, endp = 8,
     overwrite = False, flush = 0, event_copy = replicate PERF_SAMPLE_MAX_SIZE 0\<rparr>"

lemma ex_ring_wf: "ring_wf ex_ring"
  unfolding ring_wf_def ex_ring_def ex_record_def
  by (simp add: PERF_SAMPLE_MAX_SIZE_def) (rule exI [of _ 4], simp)

lemma ex_ring_rel: "ring_rel ex_ring [ex_record]"
proof -
  have "ring_holds (drop 8 ex_record @ take 8 ex_record) (unat (8::u64)) [ex_record]" by code_simp
  then have "ring_holds (ring (page ex_ring)) (unat (start ex_ring)) [ex_record]"
    by (simp add: ex_ring_def)
  moreover have "bytes_of [ex_record] = 16" by (simp add: ex_record_def)
  ultimately show ?thesis
    unfolding ring_rel_def using ex_ring_wf
    by simp (simp add: ex_ring_def ex_record_def)
qed

section \<open>Properties\<close>

text \<open>
  C3. Whatever the interleaving of the kernel appending records, of any size that the 16 bits of
  a header can give, with the program reading, putting back and consuming them, the records read
  so far followed by the records still pending in the ring are the records the kernel has
  written, in order: none is lost, repeated or reordered. What the program sees of a record has
  its length and its first \<open>sizeof(union perf_event)\<close> bytes (4168); it is the whole
  record, unless the record is longer than that and reaches the end of the ring, where
  \<open>perf_mmap__read\<close> copies no more than these bytes.
\<close>

theorem ring_run_fifo:
  assumes "ring_rel mp q" "ring_step\<^sup>*\<^sup>* (mp, [], q) (mp', got, sent)"
  shows "\<exists>ss q'. sent = ss @ q' \<and> ring_rel mp' q' \<and>
           reads_as (mmask mp + 1) (unat (start mp)) got ss \<and>
           ((\<forall>r\<in>set sent. length r \<le> sizeof_perf_event) \<longrightarrow> got = ss)"
proof -
  have "ring_inv_of (mmask mp + 1) (start mp) [] q (mp, [], q)" using assms(1) by (simp add: ring_inv_of_def)
  then have "ring_inv (mmask mp + 1) (start mp) (mp', got, sent)"
    using ring_inv_run [OF assms(2)] unfolding ring_inv_def by blast
  then show ?thesis using reads_as_small unfolding ring_inv_def ring_inv_of_def by fastforce
qed

theorem ring_run_fifo_witness:
  "\<exists>ss q'. [ex_record] = ss @ q' \<and> ring_rel (snd (perf_mmap__read_event ex_ring)) q' \<and> [ex_record] = ss"
proof -
  obtain g b mp' where rd: "perf_mmap__read_event ex_ring = (Some \<lparr>ev_bytes = g, ev_in_copy = b\<rparr>, mp')"
    and g: "read_as (mmask ex_ring + 1) (unat (start ex_ring)) g ex_record"
    using read_event_cons [OF ex_ring_rel] by blast
  have g: "g = ex_record" using read_as_small [OF g] by (simp add: ex_record_def sizeof_perf_event_def)
  have "ring_step (ex_ring, [], [ex_record]) (mp', [] @ [ev_bytes \<lparr>ev_bytes = g, ev_in_copy = b\<rparr>], [ex_record])"
    by (rule ring_step.Read [OF rd])
  moreover have "length ex_record \<le> sizeof_perf_event" by (simp add: ex_record_def sizeof_perf_event_def)
  ultimately show ?thesis
    using ring_run_fifo [OF ex_ring_rel, of mp' "[ex_record]" "[ex_record]"] rd unfolding g by auto
qed

text \<open>
  Reading from a ring whose first pending record is \<open>r\<close> returns the bytes of \<open>r\<close>, in place or
  assembled across the end of the ring, and moves the cursor by its size without
  publishing anything to the kernel.
\<close>

theorem read_event_first:
  assumes "ring_rel mp (r # q)"
  shows "\<exists>ev mp'. perf_mmap__read_event mp = (Some ev, mp') \<and>
           read_as (mmask mp + 1) (unat (start mp)) (ev_bytes ev) r \<and> ring_rel mp' q \<and>
           start mp' = start mp + of_nat (length r) \<and> page mp' = page mp"
  using read_event_cons [OF assms] by (metis perf_event.select_convs(1))

text \<open>
  Consuming publishes the cursor as \<open>data_tail\<close> and keeps the pending records; the
  mapping goes away only when this was its last reference and nothing is pending.
\<close>

theorem consume_publishes:
  assumes "ring_rel mp q"
  shows "data_tail (page (perf_mmap__consume mp)) = start mp \<and>
         (if refcnt mp = 1 \<and> q = [] \<and> aux_size (page mp) = 0
          then \<not> mapped (perf_mmap__consume mp) \<and> refcnt (perf_mmap__consume mp) = 0
          else ring_rel (perf_mmap__consume mp) q)"
proof (cases "refcnt mp = 1 \<and> q = [] \<and> aux_size (page mp) = 0")
  case True
  then have "data_head (page mp) = start mp" using assms by (simp add: ring_rel_def unat_eq_zero)
  then show ?thesis using True assms
    by (simp add: perf_mmap__consume_def perf_mmap__empty_def perf_mmap__read_head_def ring_rel_def
        perf_mmap__write_tail_def perf_mmap__put_def perf_mmap__munmap_def Let_def)
next
  case False
  then show ?thesis using consume_rel [OF assms] by (auto simp: perf_mmap__write_tail_def)
qed

text \<open>
  The walk that finds the readable range of a full backward ring ends on every ring,
  even one with garbage headers, and never reports more than one ring of bytes.
\<close>

theorem overwrite_range_found:
  assumes "ring_wf mp"
  shows "\<exists>e. overwrite_rb_find_range mp st = Some e \<and> unat (e - st) \<le> mmask mp + 1"
  unfolding overwrite_rb_find_range_def by (rule find_range_loop_ends [OF ring_wf_small [OF assms]]) simp

text \<open>
  A record larger than \<open>union perf_event\<close> that crosses the end of the ring is not
  returned intact: only its first \<open>sizeof(union perf_event)\<close> bytes come from the ring, the
  rest of what the caller sees are the old contents of \<open>event_copy\<close>.
\<close>

theorem straddle_truncates:
  assumes "ring_wf mp" "sizeof_perf_event < n" "n \<le> PERF_SAMPLE_MAX_SIZE"
  shows "take n (copy_straddle (ring (page mp)) (mmask mp) p 0 (min sizeof_perf_event n) (event_copy mp)) =
         ring_bytes (ring (page mp)) p sizeof_perf_event @
         take (n - sizeof_perf_event) (drop sizeof_perf_event (event_copy mp))"
proof -
  obtain k where k: "k \<le> 30" "mmask mp + 1 = 2 ^ k" "length (ring (page mp)) = 2 ^ k"
    "length (event_copy mp) = PERF_SAMPLE_MAX_SIZE"
    using ring_wf_len [OF assms(1)] by metis
  then show ?thesis using assms
    by (subst copy_straddle_ring [where k = k]) (auto simp: min_def)
qed

end
