(* ===== verification/Clock_Convert.thy ===== *)
theory Clock_Convert
  imports Perf_Mmap
begin

text \<open>
  Clocks, \<open>src/convert.c\<close>: event times are recorded in the kernel's \<open>perfclock\<close> and
  may be converted to the TSC, to a guest's kvmclock, or shifted by an offset. The
  arithmetic is that of \<open>src/include/linux/math64.h\<close> and
  \<open>src/arch/x86/include/asm/pvclock.h\<close> on x86-64. Divisions by zero and quotients that do not fit
  raise a hardware fault in the program; \<open>conv_faults\<close> says when.
\<close>

section \<open>State\<close>

datatype convert_to = CONVERT_NONE | CONVERT_TO_TSC | CONVERT_TO_KVMCLOCK | CONVERT_ADD_OFFSET

record tsc_conversion =
  time_shift :: u16
  time_mult :: u32
  time_zero :: u64
  cap_user_time_zero :: bool

record pvti =
  version :: u32
  tsc_timestamp :: u64
  system_time :: u64
  tsc_to_system_mul :: u32
  tsc_shift :: int
  pvti_flags :: u8

record vcpu_data =
  tsc_offset :: u64
  tsc_scaling_ratio :: u64
  vcpu_pvti :: pvti

record convert_ctx =
  need_conv :: convert_to
  need_fixed :: bool
  tsc_conv :: tsc_conversion
  tsc_conv_fixed :: tsc_conversion
  vcpu0 :: vcpu_data
  clock_offset :: u64
  frac_bits :: nat
  default_ratio :: u64

section \<open>Wide multiplication\<close>

definition mul_u64_u32_shr :: "u64 \<Rightarrow> u32 \<Rightarrow> nat \<Rightarrow> u64" where
  "mul_u64_u32_shr a b shift = ucast (drop_bit shift (ucast a * ucast b :: 128 word))"

definition mul_u64_u64_shr :: "u64 \<Rightarrow> u64 \<Rightarrow> nat \<Rightarrow> u64" where
  "mul_u64_u64_shr a m shift = ucast (drop_bit shift (ucast a * ucast m :: 128 word))"

definition mul_u64_u64_div64 :: "u64 \<Rightarrow> u64 \<Rightarrow> u64 \<Rightarrow> u64" where
  "mul_u64_u64_div64 a b c = ucast ((ucast a * ucast b :: 128 word) div ucast c)"

text \<open>\<open>divq\<close> faults on a zero divisor and on a quotient of more than 64 bits.\<close>

definition div64_faults :: "u64 \<Rightarrow> u64 \<Rightarrow> u64 \<Rightarrow> bool" where
  "div64_faults a b c \<longleftrightarrow> c = 0 \<or> 2 ^ 64 \<le> (unat a * unat b) div unat c"

definition pvclock_scale_delta :: "u64 \<Rightarrow> u32 \<Rightarrow> int \<Rightarrow> u64" where
  "pvclock_scale_delta delta mul_frac shift =
     (let d = (if shift < 0 then drop_bit (nat (- shift)) delta else push_bit (nat shift) delta)
      in ucast (drop_bit 32 (ucast d * ucast mul_frac :: 128 word)))"

definition pvclock_read_cycles :: "pvti \<Rightarrow> u64 \<Rightarrow> u64" where
  "pvclock_read_cycles src tsc =
     (let delta = tsc - tsc_timestamp src;
          offset = pvclock_scale_delta delta (tsc_to_system_mul src) (tsc_shift src)
      in system_time src + offset)"

section \<open>Conversions between clocks\<close>

definition perfclock_to_tsc :: "convert_ctx \<Rightarrow> u64 \<Rightarrow> u64" where
  "perfclock_to_tsc c ns =
     (let tc = tsc_conv c;
          t = ns - time_zero tc;
          m = ucast (time_mult tc);
          quot = t div m;
          rem = t mod m;
          sh = unat (time_shift tc)
      in push_bit sh quot + push_bit sh rem div m)"

definition tsc_to_perfclock :: "convert_ctx \<Rightarrow> u64 \<Rightarrow> u64" where
  "tsc_to_perfclock c tsc =
     (let tc = tsc_conv c
      in mul_u64_u32_shr tsc (time_mult tc) (unat (time_shift tc)) + time_zero tc)"

definition tsc_to_fixed_perfclock :: "convert_ctx \<Rightarrow> u64 \<Rightarrow> u64" where
  "tsc_to_fixed_perfclock c tsc =
     (let tc = tsc_conv_fixed c
      in mul_u64_u32_shr tsc (time_mult tc) (unat (time_shift tc)) + time_zero tc)"

definition scale_tsc :: "convert_ctx \<Rightarrow> u64 \<Rightarrow> u64 \<Rightarrow> u64" where
  "scale_tsc c ratio tsc = mul_u64_u64_shr tsc ratio (frac_bits c)"

definition kvm_scale_tsc :: "convert_ctx \<Rightarrow> u64 \<Rightarrow> u64" where
  "kvm_scale_tsc c tsc =
     (let ratio = tsc_scaling_ratio (vcpu0 c)
      in if ratio \<noteq> default_ratio c then scale_tsc c ratio tsc else tsc)"

definition kvm_read_l1_tsc :: "convert_ctx \<Rightarrow> u64 \<Rightarrow> u64" where
  "kvm_read_l1_tsc c host_tsc = tsc_offset (vcpu0 c) + kvm_scale_tsc c host_tsc"

definition host_tsc_to_kvmclock :: "convert_ctx \<Rightarrow> u64 \<Rightarrow> u64" where
  "host_tsc_to_kvmclock c host_tsc =
     pvclock_read_cycles (vcpu_pvti (vcpu0 c)) (kvm_read_l1_tsc c host_tsc)"

definition perfclock_to_kvmclock :: "convert_ctx \<Rightarrow> u64 \<Rightarrow> u64" where
  "perfclock_to_kvmclock c time = host_tsc_to_kvmclock c (perfclock_to_tsc c time)"

text \<open>The scaled branch starts again from \<open>guest_tsc\<close>, not from the difference.\<close>

definition kvmclock_to_perfclock :: "convert_ctx \<Rightarrow> u64 \<Rightarrow> u64" where
  "kvmclock_to_perfclock c time =
     (let v0 = vcpu0 c; pv = vcpu_pvti v0;
          sh0 = tsc_shift pv - 32;
          sh = (if sh0 < 0 then - sh0 else sh0);
          offset = time - system_time pv;
          delta = mul_u64_u64_div64 offset (push_bit (nat sh) 1) (ucast (tsc_to_system_mul pv));
          guest_tsc = delta + tsc_timestamp pv;
          host_tsc = guest_tsc - tsc_offset v0;
          host_tsc' = (if tsc_scaling_ratio v0 \<noteq> default_ratio c
                       then mul_u64_u64_div64 guest_tsc (default_ratio c) (tsc_scaling_ratio v0)
                       else host_tsc)
      in tsc_to_perfclock c host_tsc')"

definition perfclock_to_evclock' :: "convert_ctx \<Rightarrow> u64 \<Rightarrow> u64" where
  "perfclock_to_evclock' c time =
     (let ev = (case need_conv c of
                  CONVERT_TO_TSC \<Rightarrow> perfclock_to_tsc c time
                | CONVERT_TO_KVMCLOCK \<Rightarrow> perfclock_to_kvmclock c time
                | _ \<Rightarrow> time)
      in ev + clock_offset c)"

definition perfclock_to_evclock :: "convert_ctx \<Rightarrow> u64 \<Rightarrow> u64" where
  "perfclock_to_evclock c time =
     (if need_conv c = CONVERT_NONE then time else perfclock_to_evclock' c time)"

definition evclock_to_perfclock :: "convert_ctx \<Rightarrow> u64 \<Rightarrow> u64" where
  "evclock_to_perfclock c time =
     (if need_conv c = CONVERT_NONE then time
      else let t = time - clock_offset c in
        case need_conv c of
          CONVERT_TO_TSC \<Rightarrow> tsc_to_perfclock c t
        | CONVERT_TO_KVMCLOCK \<Rightarrow> kvmclock_to_perfclock c t
        | _ \<Rightarrow> t)"

definition real_ns_none :: "convert_ctx \<Rightarrow> u64 \<Rightarrow> u64" where
  "real_ns_none c time =
     (if need_fixed c then tsc_to_fixed_perfclock c (perfclock_to_tsc c time) else time)"

definition evclock_to_real_ns :: "convert_ctx \<Rightarrow> u64 \<Rightarrow> u64" where
  "evclock_to_real_ns c time =
     (if need_conv c = CONVERT_NONE then real_ns_none c time
      else let t = time - clock_offset c in
        case need_conv c of
          CONVERT_TO_TSC \<Rightarrow> if need_fixed c then tsc_to_fixed_perfclock c t else tsc_to_perfclock c t
        | CONVERT_TO_KVMCLOCK \<Rightarrow> t
        | _ \<Rightarrow> real_ns_none c t)"

text \<open>When \<open>perfclock_to_evclock\<close> of a context faults: a zero multiplier to divide by.\<close>

definition conv_faults :: "convert_ctx \<Rightarrow> bool" where
  "conv_faults c \<longleftrightarrow>
     (need_conv c = CONVERT_TO_TSC \<or> need_conv c = CONVERT_TO_KVMCLOCK) \<and> time_mult (tsc_conv c) = 0"

section \<open>Reading the kernel's conversion factors\<close>

text \<open>
  The conversion factors stand in the first page of the ring, which the kernel rewrites
  while the program reads it. \<open>page_at\<close> is the page at each moment and \<open>load_time\<close> the
  moment at which each access of the program takes effect: access \<open>p\<close> of attempt \<open>i\<close> is
  number \<open>8 * i + p\<close>. An attempt is the list of its accesses in program order.
\<close>

record tsc_page =
  pc_lock :: u32
  pc_time_mult :: u32
  pc_time_shift :: u16
  pc_time_zero :: u64
  pc_cap_user_time_zero :: bool

record page_reads =
  page_at :: "nat \<Rightarrow> tsc_page"
  load_time :: "nat \<Rightarrow> nat"

datatype pc_access =
    Load_lock
  | Rmb
  | Load_time_mult
  | Load_time_shift
  | Load_time_zero
  | Load_cap_user_time_zero

definition seqlock_attempt :: "pc_access list" where
  "seqlock_attempt =
     [Load_lock, Rmb, Load_time_mult, Load_time_shift, Load_time_zero, Load_cap_user_time_zero, Rmb, Load_lock]"

text \<open>The values of the lock that were read, and the caller's structure.\<close>

fun do_accesses ::
  "(nat \<Rightarrow> tsc_page) \<Rightarrow> pc_access list \<Rightarrow> u32 list \<times> tsc_conversion \<Rightarrow> u32 list \<times> tsc_conversion" where
  "do_accesses pg [] st = st"
| "do_accesses pg (a # as) (locks, tc) =
     do_accesses (\<lambda>p. pg (Suc p)) as
       (case a of
          Load_lock \<Rightarrow> (locks @ [pc_lock (pg 0)], tc)
        | Rmb \<Rightarrow> (locks, tc)
        | Load_time_mult \<Rightarrow> (locks, tc\<lparr>time_mult := pc_time_mult (pg 0)\<rparr>)
        | Load_time_shift \<Rightarrow> (locks, tc\<lparr>time_shift := pc_time_shift (pg 0)\<rparr>)
        | Load_time_zero \<Rightarrow> (locks, tc\<lparr>time_zero := pc_time_zero (pg 0)\<rparr>)
        | Load_cap_user_time_zero \<Rightarrow> (locks, tc\<lparr>cap_user_time_zero := pc_cap_user_time_zero (pg 0)\<rparr>))"

datatype tsc_read_result = TscOk | TscEINVAL | TscEOPNOTSUPP

function read_tsc_loop :: "page_reads \<Rightarrow> nat \<Rightarrow> tsc_conversion \<Rightarrow> bool \<times> tsc_conversion" where
  "read_tsc_loop pr i tc =
     (let (locks, tc') = do_accesses (\<lambda>p. page_at pr (load_time pr (8 * i + p))) seqlock_attempt ([], tc);
          seq = hd locks
      in if last locks = seq \<and> seq AND 1 = 0 then (True, tc')
         else if i + 1 > 10000 then (False, tc')
         else read_tsc_loop pr (i + 1) tc')"
  by pat_completeness auto
termination by (relation "measure (\<lambda>(pr, i, tc). 10001 - i)") auto

declare read_tsc_loop.simps [simp del]

definition perf_mmap__read_tsc_conversion ::
  "page_reads \<Rightarrow> tsc_conversion \<Rightarrow> tsc_read_result \<times> tsc_conversion" where
  "perf_mmap__read_tsc_conversion pr tc0 =
     (case read_tsc_loop pr 0 tc0 of (ok, tc) \<Rightarrow>
        (if \<not> ok then TscEINVAL else if \<not> cap_user_time_zero tc then TscEOPNOTSUPP else TscOk, tc))"

definition perf_event_convert_read_tsc_conversion ::
  "bool \<Rightarrow> page_reads \<Rightarrow> convert_ctx \<Rightarrow> convert_ctx" where
  "perf_event_convert_read_tsc_conversion clocksource_is_tsc pr c =
     (if need_conv c = CONVERT_TO_TSC \<or> need_conv c = CONVERT_TO_KVMCLOCK then
        case perf_mmap__read_tsc_conversion pr (tsc_conv c) of (res, tc) \<Rightarrow>
          let c' = c\<lparr>tsc_conv := tc\<rparr> in
          if res = TscEOPNOTSUPP \<or> \<not> clocksource_is_tsc
          then c'\<lparr>clock_offset := 0, need_conv := CONVERT_NONE\<rparr> else c'
      else c)"

section \<open>Positions of the sample fields\<close>

abbreviation "PERF_SAMPLE_IP \<equiv> (0x1 :: u64)"
abbreviation "PERF_SAMPLE_TID \<equiv> (0x2 :: u64)"
abbreviation "PERF_SAMPLE_TIME \<equiv> (0x4 :: u64)"
abbreviation "PERF_SAMPLE_ADDR \<equiv> (0x8 :: u64)"
abbreviation "PERF_SAMPLE_READ \<equiv> (0x10 :: u64)"
abbreviation "PERF_SAMPLE_CALLCHAIN \<equiv> (0x20 :: u64)"
abbreviation "PERF_SAMPLE_ID \<equiv> (0x40 :: u64)"
abbreviation "PERF_SAMPLE_CPU \<equiv> (0x80 :: u64)"
abbreviation "PERF_SAMPLE_PERIOD \<equiv> (0x100 :: u64)"
abbreviation "PERF_SAMPLE_STREAM_ID \<equiv> (0x200 :: u64)"
abbreviation "PERF_SAMPLE_RAW \<equiv> (0x400 :: u64)"
abbreviation "PERF_SAMPLE_REGS_USER \<equiv> (0x1000 :: u64)"
abbreviation "PERF_SAMPLE_WEIGHT \<equiv> (0x4000 :: u64)"
abbreviation "PERF_SAMPLE_DATA_SRC \<equiv> (0x8000 :: u64)"
abbreviation "PERF_SAMPLE_IDENTIFIER \<equiv> (0x10000 :: u64)"
abbreviation "PERF_SAMPLE_TRANSACTION \<equiv> (0x20000 :: u64)"
abbreviation "PERF_SAMPLE_REGS_INTR \<equiv> (0x40000 :: u64)"
abbreviation "PERF_SAMPLE_PHYS_ADDR \<equiv> (0x80000 :: u64)"

record sample_attr =
  sample_period :: u64
  sample_type :: u64

record sample_pos =
  pos_type :: u64
  tid_pos :: int
  time_pos :: int
  id_pos :: int
  cpu_pos :: int

abbreviation has_flag :: "u64 \<Rightarrow> u64 \<Rightarrow> bool" where
  "has_flag st f \<equiv> st AND f \<noteq> 0"

definition is_sampling_event :: "sample_attr \<Rightarrow> bool" where
  "is_sampling_event attr \<longleftrightarrow> sample_period attr \<noteq> 0"

definition pos_mask :: u64 where
  "pos_mask = PERF_SAMPLE_IDENTIFIER OR PERF_SAMPLE_IP OR PERF_SAMPLE_TID OR PERF_SAMPLE_TIME OR
     PERF_SAMPLE_ADDR OR PERF_SAMPLE_ID OR PERF_SAMPLE_STREAM_ID OR PERF_SAMPLE_CPU"

text \<open>The loop over the event selectors: the common masked sample type, or a mismatch.\<close>

fun common_sample_type :: "sample_attr list \<Rightarrow> u64 \<Rightarrow> u64 option" where
  "common_sample_type [] st = Some st"
| "common_sample_type (a # as) st =
     (if is_sampling_event a then
        if st = 0 then common_sample_type as (sample_type a AND pos_mask)
        else if st \<noteq> (sample_type a AND pos_mask) then None
        else common_sample_type as st
      else common_sample_type as st)"

definition perf_sample_pos_init :: "sample_attr list \<Rightarrow> sample_pos option" where
  "perf_sample_pos_init evlist =
     (case common_sample_type evlist 0 of
        None \<Rightarrow> None
      | Some st \<Rightarrow>
         (let p0 = 0;
              p1 = (if has_flag st PERF_SAMPLE_IDENTIFIER then p0 + 8 else p0);
              p2 = (if has_flag st PERF_SAMPLE_IP then p1 + 8 else p1);
              p3 = (if has_flag st PERF_SAMPLE_TID then p2 + 8 else p2);
              p4 = (if has_flag st PERF_SAMPLE_TIME then p3 + 8 else p3);
              p5 = (if has_flag st PERF_SAMPLE_ADDR then p4 + 8 else p4);
              p6 = (if has_flag st PERF_SAMPLE_ID then p5 + 8 else p5);
              p7 = (if has_flag st PERF_SAMPLE_STREAM_ID then p6 + 8 else p6)
          in Some \<lparr>pos_type = st,
                tid_pos = (if has_flag st PERF_SAMPLE_TID then p2 else -1),
                time_pos = (if has_flag st PERF_SAMPLE_TIME then p3 else -1),
                id_pos = (if has_flag st PERF_SAMPLE_ID then p5 else -1),
                cpu_pos = (if has_flag st PERF_SAMPLE_CPU then p7 else -1)\<rparr>))"

definition perf_sample_forward_init :: "sample_attr list \<Rightarrow> (sample_pos \<times> nat) option" where
  "perf_sample_forward_init evlist =
     (case perf_sample_pos_init evlist of
        None \<Rightarrow> None
      | Some pos \<Rightarrow>
         let m = PERF_SAMPLE_TID OR PERF_SAMPLE_TIME OR PERF_SAMPLE_CPU in
         if pos_type pos \<noteq> 0 \<and> pos_type pos AND m \<noteq> m then None else Some (pos, 4 + 4))"

text \<open>The second component is \<open>time_ctx.last_evtime\<close>.\<close>

definition perf_sample_time_init :: "sample_attr list \<Rightarrow> (sample_pos \<times> u64) option" where
  "perf_sample_time_init evlist =
     (case perf_sample_pos_init evlist of
        None \<Rightarrow> None
      | Some pos \<Rightarrow>
         if pos_type pos \<noteq> 0 \<and> \<not> has_flag (pos_type pos) PERF_SAMPLE_TIME then None
         else Some (pos, -1))"

text \<open>
  \<open>perf_event_convert_init\<close>: which conversion a device gets from the options \<open>--tsc\<close>,
  \<open>--kvmclock\<close> and \<open>--clock-offset\<close>. \<open>kvm_init\<close> is the outcome of attaching to the guest,
  \<open>alloc\<close> that of allocating the event buffer. The result holds the option \<open>--tsc\<close> as it is
  left in the environment; None is the error return.
\<close>

definition perf_event_convert_init ::
  "bool \<Rightarrow> bool \<Rightarrow> bool \<Rightarrow> bool \<Rightarrow> sample_attr list \<Rightarrow> convert_ctx \<Rightarrow> (bool \<times> convert_ctx) option" where
  "perf_event_convert_init tsc kvmclock kvm_init alloc evlist c =
     (let err = perf_sample_time_init evlist in
      if \<not> tsc \<and> \<not> kvmclock \<and> clock_offset c = 0 then Some (tsc, c\<lparr>need_conv := CONVERT_NONE\<rparr>)
      else case err of
        None \<Rightarrow> None
      | Some (pos, _) \<Rightarrow>
          if has_flag (pos_type pos) PERF_SAMPLE_TIME then
            if tsc then (if alloc then Some (True, c\<lparr>need_conv := CONVERT_TO_TSC\<rparr>) else None)
            else if kvmclock then
              (if \<not> kvm_init then None
               else if alloc then Some (tsc, c\<lparr>need_conv := CONVERT_TO_KVMCLOCK\<rparr>) else None)
            else if alloc then Some (tsc, c\<lparr>need_conv := CONVERT_ADD_OFFSET\<rparr>) else None
          else Some (False, c\<lparr>clock_offset := 0, need_conv := CONVERT_NONE\<rparr>))"

section \<open>Converting an event in place\<close>

text \<open>
  \<open>event->sample.array\<close> starts right after the header. The result is the bytes of the
  event the caller goes on with; a read-only event is copied first, so that the bytes of
  the ring are left alone.
\<close>

definition perf_event_convert :: "convert_ctx \<Rightarrow> nat \<Rightarrow> u8 list \<Rightarrow> u8 list" where
  "perf_event_convert c tpos ev =
     (if need_conv c = CONVERT_NONE then ev
      else let off = sizeof_header + tpos
           in put_u64 ev off (perfclock_to_evclock' c (u64_at ev off)))"

section \<open>Scale factors\<close>

function shift_acc :: "u64 \<Rightarrow> nat \<Rightarrow> nat" where
  "shift_acc tmp acc = (if tmp = 0 then acc else shift_acc (drop_bit 1 tmp) (acc - 1))"
  by pat_completeness auto
termination
proof (relation "measure (\<lambda>(tmp, acc). unat tmp)")
  fix tmp :: u64 assume "tmp \<noteq> 0"
  then have "unat tmp div 2 < unat tmp" by (simp add: unat_gt_0)
  then show "((drop_bit 1 tmp, acc - 1), (tmp, acc)) \<in> measure (\<lambda>(tmp, acc). unat tmp)" for acc
    by (simp add: drop_bit_eq_div unat_div)
qed simp

declare shift_acc.simps [simp del]

text \<open>
  The second loop: \<open>sft\<close> counts down from 32, \<open>tmp\<close> is the value of the last round. The
  first argument of the result is \<open>tmp\<close>, the second \<open>sft\<close>.
\<close>

fun mult_shift_loop :: "nat \<Rightarrow> u64 \<Rightarrow> u32 \<Rightarrow> u32 \<Rightarrow> nat \<Rightarrow> u64 \<times> nat" where
  "mult_shift_loop sftacc tmp frm to 0 = (tmp, 0)"
| "mult_shift_loop sftacc tmp frm to (Suc n) =
     (let sft = Suc n;
          t = (push_bit sft (ucast to) + ucast (frm div 2)) div (ucast frm :: u64)
      in if drop_bit sftacc t = 0 then (t, sft) else mult_shift_loop sftacc t frm to n)"

definition clocks_calc_mult_shift :: "u32 \<Rightarrow> u32 \<Rightarrow> u32 \<Rightarrow> u32 \<times> u16" where
  "clocks_calc_mult_shift frm to maxsec =
     (let tmp = drop_bit 32 (ucast maxsec * ucast frm :: u64);
          sftacc = shift_acc tmp 32;
          (t, sft) = mult_shift_loop sftacc 0 frm to 32
      in (ucast t, of_nat sft))"

text \<open>\<open>tsc_khz\<close> is what \<open>get_tsc_khz\<close> found, \<open>old_kernel\<close> whether the release is before 4.12.\<close>

definition tsc_conv_fixed_init :: "bool \<Rightarrow> int \<Rightarrow> convert_ctx \<Rightarrow> convert_ctx" where
  "tsc_conv_fixed_init old_kernel tsc_khz c =
     (if old_kernel then
        let c1 = c\<lparr>need_fixed := tsc_khz > 0\<rparr> in
        if need_fixed c1 then
          let (m, s) = clocks_calc_mult_shift (of_int tsc_khz) 1000000 0;
              tc = (tsc_conv c1)\<lparr>time_mult := m, time_shift := s\<rparr>;
              tc' = (if time_shift tc = 32 then tc\<lparr>time_shift := 31, time_mult := drop_bit 1 (time_mult tc)\<rparr>
                     else tc)
          in c1\<lparr>tsc_conv_fixed := tc'\<rparr>
        else c1
      else c)"

section \<open>Guest clock updates\<close>

text \<open>\<open>adjust_vmx_controls\<close>: allowed-one and must-be-one bits of a VMX control MSR.\<close>

definition adjust_vmx_controls :: "u64 \<Rightarrow> u32" where
  "adjust_vmx_controls msr =
     ((- 1 AND ucast (drop_bit 32 msr)) OR ucast msr)"

datatype cpu_vendor = X86_VENDOR_INTEL | X86_VENDOR_AMD | X86_VENDOR_OTHER

text \<open>
  \<open>tsc_scaling_setup\<close> after the vendor is known; \<open>rdmsr\<close> and \<open>cpuid\<close> are the machine's
  answers. The result is \<open>once\<close> with the fraction bits and default ratio.
\<close>

definition tsc_scaling_setup ::
  "cpu_vendor \<Rightarrow> (u32 \<Rightarrow> u64 option) \<Rightarrow> (u32 \<Rightarrow> u32 \<times> u32) \<Rightarrow> convert_ctx \<Rightarrow> int \<times> convert_ctx" where
  "tsc_scaling_setup vendor rdmsr cpuid c =
     (case vendor of
        X86_VENDOR_INTEL \<Rightarrow>
          (case rdmsr 0x482 of
             None \<Rightarrow> (-1, c)
           | Some v1 \<Rightarrow>
               if adjust_vmx_controls v1 AND 0x80000000 = 0 then (-1, c)
               else case rdmsr 0x48b of
                      None \<Rightarrow> (-1, c)
                    | Some v2 \<Rightarrow>
                        if adjust_vmx_controls v2 AND 0x02000000 = 0 then (-1, c)
                        else (1, c\<lparr>frac_bits := 48, default_ratio := push_bit 48 1\<rparr>))
      | X86_VENDOR_AMD \<Rightarrow>
          if fst (cpuid 0x80000000) \<ge> 0x8000000a then
            if snd (cpuid 0x8000000a) AND 0x8 \<noteq> 0
            then (1, c\<lparr>frac_bits := 32, default_ratio := push_bit 32 1\<rparr>) else (-1, c)
          else (-1, c)
      | X86_VENDOR_OTHER \<Rightarrow> (-1, c))"

datatype kvm_event =
    Kvm_pvclock_update pvti
  | Kvm_write_tsc_offset nat u64 u64

text \<open>The tracepoint handler: the guest republished its clock, or its TSC offset moved.\<close>

definition kvm_pvclock_update :: "kvm_event \<Rightarrow> vcpu_data \<Rightarrow> vcpu_data" where
  "kvm_pvclock_update e v =
     (case e of
        Kvm_pvclock_update p \<Rightarrow> v\<lparr>vcpu_pvti := p\<rparr>
      | Kvm_write_tsc_offset vcpu_id prv nxt \<Rightarrow>
          if vcpu_id = 0 \<and> prv = tsc_offset v then v\<lparr>tsc_offset := nxt\<rparr> else v)"

section \<open>Arithmetic of the conversions\<close>

lemma div_split_scale:
  fixes t m s :: nat assumes "0 < m"
  shows "t div m * s + t mod m * s div m = t * s div m"
proof -
  have "t * s = (t div m * m + t mod m) * s" by simp
  also have "\<dots> = t mod m * s + m * (t div m * s)" by (simp only: algebra_simps)
  finally have e: "t * s = t mod m * s + m * (t div m * s)" .
  have "t * s div m = t div m * s + t mod m * s div m"
    unfolding e using assms by (simp only: div_mult_self2 mult.commute)
  then show ?thesis by simp
qed

lemma unat_push_bit:
  fixes x :: u64 assumes "unat x * 2 ^ n < 2 ^ 64" shows "unat (push_bit n x) = unat x * 2 ^ n"
proof -
  have "unat (push_bit n x) = take_bit 64 (push_bit n (unat x))" by (simp add: unsigned_push_bit_eq)
  also have "\<dots> = unat x * 2 ^ n"
    using assms by (simp only: push_bit_eq_mult take_bit_eq_mod mod_less)
  finally show ?thesis .
qed

lemma unat_ucast_u32: "unat (ucast (x::u32) :: u64) = unat x"
  by (rule unat_ucast_wide) simp

lemma unat_add_no_wrap:
  fixes x y :: u64 assumes "unat x + unat y < 2 ^ 64" shows "unat (x + y) = unat x + unat y"
  using assms by (simp add: unat_word_ariths)

text \<open>The relative time of a perfclock reading and the exact value of its TSC.\<close>

definition rel_ns :: "convert_ctx \<Rightarrow> u64 \<Rightarrow> nat" where
  "rel_ns c ns = unat (ns - time_zero (tsc_conv c))"

definition tsc_of :: "convert_ctx \<Rightarrow> u64 \<Rightarrow> nat" where
  "tsc_of c ns = rel_ns c ns * 2 ^ unat (time_shift (tsc_conv c)) div unat (time_mult (tsc_conv c))"

definition conv_ok :: "convert_ctx \<Rightarrow> bool" where
  "conv_ok c \<longleftrightarrow> time_mult (tsc_conv c) \<noteq> 0 \<and> unat (time_shift (tsc_conv c)) \<le> 32"

lemma perfclock_to_tsc_value:
  assumes "conv_ok c" "tsc_of c ns < 2 ^ 64"
  shows "unat (perfclock_to_tsc c ns) = tsc_of c ns"
proof -
  define t where "t = ns - time_zero (tsc_conv c)"
  define m :: u64 where "m = ucast (time_mult (tsc_conv c))"
  define sh where "sh = unat (time_shift (tsc_conv c))"
  have m: "unat m = unat (time_mult (tsc_conv c))" unfolding m_def by (rule unat_ucast_u32)
  have m0: "0 < unat m" using assms(1) unfolding m conv_ok_def by (simp add: unat_gt_0)
  have m32: "unat m < 2 ^ 32" unfolding m using unsigned_less [of "time_mult (tsc_conv c)", where ?'a = nat] by simp
  have sh: "sh \<le> 32" using assms(1) by (simp add: conv_ok_def sh_def)
  have T: "tsc_of c ns = unat t * 2 ^ sh div unat m"
    by (simp only: tsc_of_def rel_ns_def t_def sh_def m)
  have sum: "unat t div unat m * 2 ^ sh + unat t mod unat m * 2 ^ sh div unat m = tsc_of c ns"
    unfolding T by (rule div_split_scale [OF m0])
  have q: "unat (push_bit sh (t div m)) = unat t div unat m * 2 ^ sh"
    using unat_push_bit [of "t div m" sh] sum assms(2) by (simp only: unat_div)
  have "unat t mod unat m * 2 ^ sh < 2 ^ 32 * 2 ^ 32"
  proof -
    have "unat t mod unat m < 2 ^ 32" using m0 m32 by (meson mod_less_divisor order_less_trans)
    moreover have "(2::nat) ^ sh \<le> 2 ^ 32" using sh by (intro power_increasing) auto
    ultimately show ?thesis by (intro mult_less_le_imp_less) auto
  qed
  then have r: "unat (push_bit sh (t mod m)) = unat t mod unat m * 2 ^ sh"
    using unat_push_bit [of "t mod m" sh] by (simp only: unat_mod) simp
  have "perfclock_to_tsc c ns = push_bit sh (t div m) + push_bit sh (t mod m) div m"
    by (simp only: perfclock_to_tsc_def Let_def t_def m_def sh_def)
  moreover have "unat (push_bit sh (t div m) + push_bit sh (t mod m) div m) =
      unat (push_bit sh (t div m)) + unat (push_bit sh (t mod m) div m)"
    using sum assms(2) by (intro unat_add_no_wrap) (simp only: q r unat_div)
  ultimately show ?thesis using sum by (simp only: q r unat_div)
qed

lemma mul_u64_u32_shr_value:
  assumes "unat a * unat b div 2 ^ n < 2 ^ 64"
  shows "unat (mul_u64_u32_shr a b n) = unat a * unat b div 2 ^ n"
proof -
  have "unat a < 2 ^ 64" "unat b < 2 ^ 32"
    using unsigned_less [of a, where ?'a = nat] unsigned_less [of b, where ?'a = nat] by simp_all
  then have "unat a * unat b < 2 ^ 64 * 2 ^ 32" by (intro mult_strict_mono) auto
  then have lt: "unat a * unat b < 2 ^ 128" by simp
  have "unat (ucast a * ucast b :: 128 word) = unat a * unat b mod 2 ^ 128"
    by (simp add: unat_word_ariths unat_ucast_wide)
  then have "unat (ucast a * ucast b :: 128 word) = unat a * unat b" using lt by simp
  then have "unat (drop_bit n (ucast a * ucast b :: 128 word)) = unat a * unat b div 2 ^ n"
    by (simp only: unat_drop_bit)
  then show ?thesis using assms
    unfolding mul_u64_u32_shr_def by (simp add: unsigned_ucast_eq take_bit_eq_mod)
qed

lemma floor_round_trip:
  fixes t m s :: nat assumes "0 < m" "m \<le> s"
  shows "t * s div m * m div s \<le> t" and "t \<le> t * s div m * m div s + 1"
proof -
  have s: "0 < s" using assms by simp
  have le: "t * s div m * m \<le> t * s" by (rule div_times_less_eq_dividend)
  have "t * s div s = t" using s by (intro nonzero_mult_div_cancel_right) blast
  then show "t * s div m * m div s \<le> t" using div_le_mono [OF le, of s] by metis
  have "t * s < t * s div m * m + m" 
    using dividend_less_div_times [OF assms(1), of "t * s"] by (simp only: add.commute)
  then have "t * s < t * s div m * m + s" using assms(2) by linarith
  also have "t * s div m * m < t * s div m * m div s * s + s" 
    using dividend_less_div_times [OF s, of "t * s div m * m"] by (simp only: add.commute)
  finally have "t * s < (t * s div m * m div s + 2) * s" by (simp add: algebra_simps)
  then have "t < t * s div m * m div s + 2" using mult_less_cancel2 by blast
  then show "t \<le> t * s div m * m div s + 1" by simp
qed

lemma tsc_to_perfclock_value:
  assumes "unat tsc * unat (time_mult (tsc_conv c)) div 2 ^ unat (time_shift (tsc_conv c)) < 2 ^ 64"
  shows "rel_ns c (tsc_to_perfclock c tsc) =
         unat tsc * unat (time_mult (tsc_conv c)) div 2 ^ unat (time_shift (tsc_conv c))"
  using mul_u64_u32_shr_value [OF assms] by (simp add: rel_ns_def tsc_to_perfclock_def Let_def)

lemma shift_acc_least: "shift_acc tmp acc < acc \<Longrightarrow> 2 ^ (acc - shift_acc tmp acc - 1) \<le> unat tmp"
proof (induction tmp acc rule: shift_acc.induct)
  case (1 tmp acc)
  show ?case
  proof (cases "tmp = 0")
    case True then show ?thesis using "1.prems" by (subst (asm) shift_acc.simps) simp
  next
    case False
    then have e: "shift_acc tmp acc = shift_acc (drop_bit 1 tmp) (acc - 1)"
      by (subst shift_acc.simps) (simp only: if_False)
    have d: "unat (drop_bit 1 tmp) = unat tmp div 2" by (simp only: unat_drop_bit) simp
    show ?thesis
    proof (cases "shift_acc tmp acc < acc - 1")
      case True
      then have "2 ^ (acc - 1 - shift_acc tmp acc - 1) \<le> unat tmp div 2" using "1.IH" False e d by metis
      then have "2 * 2 ^ (acc - 1 - shift_acc tmp acc - 1) \<le> unat tmp" by simp
      moreover have "acc - shift_acc tmp acc - 1 = Suc (acc - 1 - shift_acc tmp acc - 1)" using True by simp
      ultimately show ?thesis by (simp only: power_Suc)
    next
      case le: False
      then have "acc - shift_acc tmp acc - 1 = 0" by simp
      moreover have "1 \<le> unat tmp" using False by (simp add: Suc_le_eq unat_gt_0)
      ultimately show ?thesis by (simp only: power_0)
    qed
  qed
qed

lemma shift_acc_bound:
  "unat tmp < 2 ^ acc \<Longrightarrow> shift_acc tmp acc \<le> acc \<and> unat tmp < 2 ^ (acc - shift_acc tmp acc)"
proof (induction tmp acc rule: shift_acc.induct)
  case (1 tmp acc)
  show ?case
  proof (cases "tmp = 0")
    case True then show ?thesis by (subst (1 2) shift_acc.simps) simp
  next
    case False
    then have pos: "0 < unat tmp" by (simp add: unat_gt_0)
    then obtain a where a: "acc = Suc a" using "1.prems" by (cases acc) auto
    have d: "unat (drop_bit 1 tmp) = unat tmp div 2" by (simp only: unat_drop_bit) simp
    then have "unat (drop_bit 1 tmp) < 2 ^ (acc - 1)" using "1.prems" a by simp
    then have IH: "shift_acc (drop_bit 1 tmp) (acc - 1) \<le> acc - 1"
      "unat tmp div 2 < 2 ^ (acc - 1 - shift_acc (drop_bit 1 tmp) (acc - 1))"
      using "1.IH" False d by metis+
    have e: "shift_acc tmp acc = shift_acc (drop_bit 1 tmp) (acc - 1)"
      using False by (subst shift_acc.simps) (simp only: if_False)
    have "unat tmp < 2 * 2 ^ (acc - 1 - shift_acc tmp acc)" using IH(2) unfolding e by linarith
    also have "\<dots> = 2 ^ (acc - shift_acc tmp acc)" using IH(1) a unfolding e by (simp add: Suc_diff_le)
    finally show ?thesis using IH(1) e by simp
  qed
qed

lemma scaled_quotient:
  fixes frm to :: u32 assumes "n \<le> 32" "frm \<noteq> 0"
  shows "unat ((push_bit n (ucast to) + ucast (frm div 2)) div (ucast frm :: u64)) =
         (unat to * 2 ^ n + unat frm div 2) div unat frm"
proof -
  have to: "unat (ucast to :: u64) = unat to" by (rule unat_ucast_u32)
  have b: "unat to \<le> 2 ^ 32 - 1" "unat frm < 2 ^ 32"
    using unsigned_less [of to, where ?'a = nat] unsigned_less [of frm, where ?'a = nat] by simp_all
  have "(2::nat) ^ n \<le> 2 ^ 32" using assms(1) by (intro power_increasing) auto
  with b(1) have le: "unat to * 2 ^ n \<le> (2 ^ 32 - 1) * 2 ^ 32" by (intro mult_le_mono)
  then have p: "unat (push_bit n (ucast to :: u64)) = unat to * 2 ^ n"
    using unat_push_bit [of "ucast to" n] unfolding to by simp
  have h: "unat (ucast (frm div 2) :: u64) = unat frm div 2"
    unfolding unat_ucast_u32 unat_div by simp
  have "unat (push_bit n (ucast to) + ucast (frm div 2) :: u64) = unat to * 2 ^ n + unat frm div 2"
    using le b(2) p h by (subst unat_add_no_wrap) simp_all
  then show ?thesis by (simp only: unat_div unat_ucast_u32)
qed

text \<open>The scaled quotient for a shift, rounded to the nearest integer.\<close>

definition scaled_mult :: "u32 \<Rightarrow> u32 \<Rightarrow> nat \<Rightarrow> nat" where
  "scaled_mult frm to k = (unat to * 2 ^ k + unat frm div 2) div unat frm"

text \<open>
  The loop ends with the largest shift whose quotient passes the test; when none does it
  ends with shift 0 and the quotient of shift 1.
\<close>

lemma mult_shift_loop_found:
  assumes "frm \<noteq> 0" "n \<le> 32" "mult_shift_loop acc tmp frm to n = (t, sft)"
  shows "sft \<le> n \<and> (\<forall>k. sft < k \<and> k \<le> n \<longrightarrow> 2 ^ acc \<le> scaled_mult frm to k) \<and>
         (sft \<noteq> 0 \<longrightarrow> unat t = scaled_mult frm to sft \<and> unat t < 2 ^ acc) \<and>
         (sft = 0 \<longrightarrow> (if n = 0 then t = tmp else unat t = scaled_mult frm to 1))"
  using assms(2-)
proof (induction n arbitrary: tmp)
  case (Suc n)
  define q where "q = (push_bit (Suc n) (ucast to) + ucast (frm div 2)) div (ucast frm :: u64)"
  have q: "unat q = scaled_mult frm to (Suc n)"
    using scaled_quotient [OF Suc.prems(1) assms(1)] unfolding q_def scaled_mult_def .
  show ?case
  proof (cases "drop_bit acc q = 0")
    case True
    then have "unat q div 2 ^ acc = 0" using unat_drop_bit [of acc q] by simp
    then have lt: "unat q < 2 ^ acc" by (simp add: div_eq_0_iff)
    have "t = q" "sft = Suc n" using Suc.prems(2) True
      by (simp_all only: mult_shift_loop.simps Let_def simp_thms if_True prod.inject flip: q_def)
    then show ?thesis using q lt by simp
  next
    case False
    have "2 ^ acc \<le> unat q"
    proof (rule ccontr)
      assume "\<not> 2 ^ acc \<le> unat q"
      then have "unat (drop_bit acc q) = 0" by (simp add: unat_drop_bit)
      then show False using False by (simp add: unat_eq_zero)
    qed
    then have ge: "2 ^ acc \<le> scaled_mult frm to (Suc n)" using q by simp
    have r: "mult_shift_loop acc q frm to n = (t, sft)"
      using Suc.prems(2) False by (simp only: mult_shift_loop.simps Let_def if_False flip: q_def)
    have "n \<le> 32" using Suc.prems(1) by simp
    note IH = Suc.IH [OF this r]
    have "2 ^ acc \<le> scaled_mult frm to k" if "sft < k" "k \<le> Suc n" for k
      using IH ge that by (cases "k = Suc n") auto
    moreover have "sft = 0 \<longrightarrow> unat t = scaled_mult frm to 1" using IH q by (cases "n = 0") auto
    ultimately show ?thesis using IH by auto
  qed
qed simp

text \<open>
  A multiplier fits the range when, for some \<open>l\<close>, the number of source ticks in \<open>maxsec\<close> seconds
  is below \<open>2 ^ (32 + l)\<close> and the multiplier below \<open>2 ^ (32 - l)\<close>, so that their product is below
  \<open>2 ^ 64\<close>. This is the test of the loop.
\<close>

definition range_fits :: "u32 \<Rightarrow> u32 \<Rightarrow> nat \<Rightarrow> bool" where
  "range_fits frm maxsec q \<longleftrightarrow>
     (\<exists>l\<le>32. unat maxsec * unat frm < 2 ^ (32 + l) \<and> q < 2 ^ (32 - l))"

lemma range_fits_no_overflow:
  assumes "range_fits frm maxsec q" shows "unat maxsec * unat frm * q < 2 ^ 64"
proof -
  obtain l where l: "l \<le> 32" "unat maxsec * unat frm < 2 ^ (32 + l)" "q < 2 ^ (32 - l)"
    using assms unfolding range_fits_def by blast
  have "unat maxsec * unat frm * q < 2 ^ (32 + l) * 2 ^ (32 - l)"
    using l(2,3) by (rule mult_strict_mono) simp_all
  also have "\<dots> = (2::nat) ^ 64" using l(1) by (simp flip: power_add)
  finally show ?thesis .
qed

lemma range_fits_acc:
  assumes "acc = shift_acc (drop_bit 32 (ucast maxsec * ucast (frm :: u32))) 32"
  shows "acc \<le> 32 \<and> (range_fits frm maxsec q \<longleftrightarrow> q < 2 ^ acc)"
proof -
  define tmp :: u64 where "tmp = drop_bit 32 (ucast maxsec * ucast frm)"
  have b: "unat maxsec < 2 ^ 32" "unat frm < 2 ^ 32"
    using unsigned_less [of maxsec, where ?'a = nat] unsigned_less [of frm, where ?'a = nat] by simp_all
  then have lt: "unat maxsec * unat frm < 2 ^ 32 * 2 ^ 32" by (intro mult_strict_mono) auto
  then have prod: "unat (ucast maxsec * ucast frm :: u64) = unat maxsec * unat frm"
    by (simp add: unat_word_ariths unat_ucast_u32)
  have ut: "unat tmp = unat maxsec * unat frm div 2 ^ 32" unfolding tmp_def unat_drop_bit prod ..
  have ticks: "unat maxsec * unat frm < 2 ^ (32 + l) \<longleftrightarrow> unat tmp < 2 ^ l" for l
    unfolding ut power_add by (simp add: div_less_iff_less_mult mult.commute)
  have "unat tmp < 2 ^ 32" using lt ticks [of 32] by (simp only: power_add)
  then have acc: "acc \<le> 32" "unat tmp < 2 ^ (32 - acc)"
    using shift_acc_bound [of tmp 32] unfolding assms tmp_def [symmetric] by auto
  have "range_fits frm maxsec q \<longleftrightarrow> q < 2 ^ acc"
  proof
    assume "range_fits frm maxsec q"
    then obtain l where l: "l \<le> 32" "unat tmp < 2 ^ l" "q < 2 ^ (32 - l)"
      unfolding range_fits_def ticks by blast
    have "32 - acc \<le> l"
    proof (rule ccontr)
      assume "\<not> 32 - acc \<le> l"
      then have a: "acc < 32" "l \<le> 32 - acc - 1" by simp_all
      have "2 ^ (32 - acc - 1) \<le> unat tmp"
        using shift_acc_least [of tmp 32] a(1) unfolding assms tmp_def [symmetric] by simp
      moreover have "(2::nat) ^ l \<le> 2 ^ (32 - acc - 1)" using a(2) by (intro power_increasing) auto
      ultimately show False using l(2) by linarith
    qed
    then have "(2::nat) ^ (32 - l) \<le> 2 ^ acc" by (intro power_increasing) auto
    then show "q < 2 ^ acc" using l(3) by linarith
  next
    assume "q < 2 ^ acc"
    then show "range_fits frm maxsec q" unfolding range_fits_def ticks
      using acc by (intro exI [of _ "32 - acc"]) simp
  qed
  then show ?thesis using acc(1) by simp
qed

text \<open>
  The kernel's side. Each step of it either leaves the page alone, increments the lock, or,
  while the lock is odd, rewrites the other fields; the first component counts the
  increments. A read barrier keeps an access before it from taking effect after one that
  follows it, and says nothing about two accesses on the same side.
\<close>

inductive userpage_step :: "nat \<times> tsc_page \<Rightarrow> nat \<times> tsc_page \<Rightarrow> bool" where
  Userpage_idle: "userpage_step (n, pg) (n, pg)"
| Userpage_lock: "userpage_step (n, pg) (Suc n, pg\<lparr>pc_lock := pc_lock pg + 1\<rparr>)"
| Userpage_write: "odd n \<Longrightarrow> pc_lock pg' = pc_lock pg \<Longrightarrow> userpage_step (n, pg) (n, pg')"

inductive_cases userpage_stepE: "userpage_step (n, pg) (n', pg')"

definition userpage_run :: "(nat \<Rightarrow> nat) \<Rightarrow> (nat \<Rightarrow> tsc_page) \<Rightarrow> bool" where
  "userpage_run seq pg \<longleftrightarrow>
     pc_lock (pg 0) = of_nat (seq 0) \<and> (\<forall>t. userpage_step (seq t, pg t) (seq (Suc t), pg (Suc t)))"

definition rmb_orders :: "pc_access list \<Rightarrow> (nat \<Rightarrow> nat) \<Rightarrow> bool" where
  "rmb_orders as tm \<longleftrightarrow>
     (\<forall>p b q. p < b \<and> b < q \<and> q < length as \<and> as ! b = Rmb \<longrightarrow> tm p \<le> tm q)"

definition page_conv :: "tsc_page \<Rightarrow> tsc_conversion" where
  "page_conv pg = \<lparr>time_shift = pc_time_shift pg, time_mult = pc_time_mult pg, time_zero = pc_time_zero pg,
     cap_user_time_zero = pc_cap_user_time_zero pg\<rparr>"

lemma userpage_run_lock: "userpage_run seq pg \<Longrightarrow> pc_lock (pg t) = of_nat (seq t)"
proof (induction t)
  case (Suc t)
  have "userpage_step (seq t, pg t) (seq (Suc t), pg (Suc t))" using Suc.prems by (simp add: userpage_run_def)
  then show ?case using Suc by (auto elim!: userpage_stepE simp: add.commute)
qed (simp add: userpage_run_def)

lemma userpage_run_mono: "userpage_run seq pg \<Longrightarrow> t \<le> u \<Longrightarrow> seq t \<le> seq u"
proof (induction u)
  case (Suc u)
  have "seq u \<le> seq (Suc u)"
    using Suc.prems(1) by (auto simp: userpage_run_def elim!: userpage_stepE dest!: spec [of _ u])
  then show ?case using Suc by (cases "t = Suc u") auto
qed simp

text \<open>While the number of increments stays at one even value, the page does not change.\<close>

lemma userpage_run_frozen:
  assumes run: "userpage_run seq pg" and "even (seq t)" "t \<le> u" "seq u = seq t"
  shows "pg u = pg t"
  using assms(3,4)
proof (induction u)
  case (Suc u)
  show ?case
  proof (cases "t = Suc u")
    case False
    then have le: "t \<le> u" using Suc.prems(1) by simp
    then have eq: "seq u = seq t"
      using userpage_run_mono [OF run, of t u] userpage_run_mono [OF run, of u "Suc u"] Suc.prems(2) by simp
    have "userpage_step (seq u, pg u) (seq (Suc u), pg (Suc u))" using run by (simp add: userpage_run_def)
    then have "pg (Suc u) = pg u" using eq Suc.prems(2) assms(2) by (auto elim!: userpage_stepE)
    then show ?thesis using Suc.IH [OF le eq] by simp
  qed simp
qed simp

lemma seqlock_attempt_accesses:
  "do_accesses pg seqlock_attempt ([], tc) =
     ([pc_lock (pg 0), pc_lock (pg 7)],
      \<lparr>time_shift = pc_time_shift (pg 3), time_mult = pc_time_mult (pg 2), time_zero = pc_time_zero (pg 4),
       cap_user_time_zero = pc_cap_user_time_zero (pg 5)\<rparr>)"
  by (cases tc) (simp add: seqlock_attempt_def numeral_eq_Suc)

text \<open>Every access that fills the structure stands between the two reads of the lock.\<close>

lemma seqlock_attempt_ordered:
  assumes "rmb_orders seqlock_attempt tm" "p \<in> {2, 3, 4, 5}"
  shows "tm 0 \<le> tm p" "tm p \<le> tm 7"
proof -
  have b: "seqlock_attempt ! 1 = Rmb" "seqlock_attempt ! 6 = Rmb" "length seqlock_attempt = 8"
    by (simp_all add: seqlock_attempt_def numeral_eq_Suc)
  have "0 < (1::nat)" "1 < p" "p < length seqlock_attempt" "p < 6" "6 < (7::nat)" "7 < length seqlock_attempt"
    using assms(2) b(3) by auto
  then show "tm 0 \<le> tm p" "tm p \<le> tm 7" using assms(1) b(1,2) unfolding rmb_orders_def by blast+
qed

definition attempt_conv :: "page_reads \<Rightarrow> nat \<Rightarrow> tsc_conversion" where
  "attempt_conv pr i =
     (let pg = \<lambda>p. page_at pr (load_time pr (8 * i + p)) in
      \<lparr>time_shift = pc_time_shift (pg 3), time_mult = pc_time_mult (pg 2), time_zero = pc_time_zero (pg 4),
       cap_user_time_zero = pc_cap_user_time_zero (pg 5)\<rparr>)"

definition attempt_ok :: "page_reads \<Rightarrow> nat \<Rightarrow> bool" where
  "attempt_ok pr i \<longleftrightarrow>
     (let l = \<lambda>p. pc_lock (page_at pr (load_time pr (8 * i + p))) in l 7 = l 0 \<and> l 0 AND 1 = 0)"

lemma read_tsc_loop_unfold:
  "read_tsc_loop pr i tc =
     (if attempt_ok pr i then (True, attempt_conv pr i)
      else if i + 1 > 10000 then (False, attempt_conv pr i)
      else read_tsc_loop pr (i + 1) (attempt_conv pr i))"
  by (subst read_tsc_loop.simps) (simp add: seqlock_attempt_accesses attempt_ok_def attempt_conv_def Let_def)

lemma read_tsc_loop_result:
  "read_tsc_loop pr i tc0 = (ok, tc) \<Longrightarrow> i \<le> 10000 \<Longrightarrow>
   (\<not> ok \<longrightarrow> (\<forall>j. i \<le> j \<and> j \<le> 10000 \<longrightarrow> \<not> attempt_ok pr j)) \<and>
   (ok \<longrightarrow> (\<exists>j\<le>10000. attempt_ok pr j \<and> tc = attempt_conv pr j))"
proof (induction "10000 - i" arbitrary: i tc0)
  case 0
  then have "i = 10000" by simp
  then show ?case using 0(2) by (subst (asm) read_tsc_loop_unfold) (auto split: if_splits)
next
  case (Suc n)
  show ?case
  proof (cases "attempt_ok pr i")
    case True
    then show ?thesis using Suc.prems by (subst (asm) read_tsc_loop_unfold) auto
  next
    case False
    then have r: "read_tsc_loop pr (i + 1) (attempt_conv pr i) = (ok, tc)"
      using Suc.prems(1) Suc.hyps(2) by (subst (asm) read_tsc_loop_unfold) (simp split: if_splits)
    have "n = 10000 - (i + 1)" "i + 1 \<le> 10000" using Suc.hyps(2) by simp_all
    note Suc.hyps(1) [OF this(1) r this(2)]
    then show ?thesis using False by (metis Suc_eq_plus1 le_antisym not_less_eq_eq)
  qed
qed

lemma even_of_nat_u32: "(of_nat n :: u32) AND 1 = 0 \<longleftrightarrow> even n"
proof -
  have "(of_nat n :: u32) AND 1 = of_bool (odd (of_nat n :: u32))" by (rule and_one_eq [unfolded mod_2_eq_odd])
  also have "odd (of_nat n :: u32) \<longleftrightarrow> odd n" by (simp add: even_word_iff)
  finally show ?thesis by simp
qed

lemma of_nat_u32_inj:
  assumes "a \<le> b" "b < a + 2 ^ 32" shows "(of_nat a :: u32) = of_nat b \<longleftrightarrow> a = b"
proof
  assume "(of_nat a :: u32) = of_nat b"
  then have "(of_nat (b - a) :: u32) = 0" using assms(1) by (simp add: of_nat_diff)
  then have "2 ^ 32 dvd b - a" by (simp add: word_of_nat_eq_0_iff)
  then show "a = b" using assms by (metis add_less_imp_less_left diff_is_0_eq dvd_imp_le le_add_diff_inverse le_antisym linorder_not_less neq0_conv)
qed simp

text \<open>The test at the end of an attempt says that the kernel did not touch the page meanwhile.\<close>

lemma attempt_ok_frozen:
  assumes run: "userpage_run seq (page_at pr)"
    and ord: "rmb_orders seqlock_attempt (\<lambda>p. load_time pr (8 * i + p))"
    and wrap: "seq (load_time pr (8 * i + 7)) < seq (load_time pr (8 * i)) + 2 ^ 32"
  shows "attempt_ok pr i \<longleftrightarrow>
           even (seq (load_time pr (8 * i))) \<and> seq (load_time pr (8 * i + 7)) = seq (load_time pr (8 * i))"
    and "attempt_ok pr i \<Longrightarrow> attempt_conv pr i = page_conv (page_at pr (load_time pr (8 * i)))"
proof -
  let ?t = "\<lambda>p. load_time pr (8 * i + p)"
  have le: "?t 0 \<le> ?t p" "?t p \<le> ?t 7" if "p \<in> {2, 3, 4, 5}" for p
    using seqlock_attempt_ordered [OF ord that] by simp_all
  have "seq (?t 0) \<le> seq (?t 7)" using le [of 2] by (intro userpage_run_mono [OF run]) simp
  then have "(of_nat (seq (?t 7)) :: u32) = of_nat (seq (?t 0)) \<longleftrightarrow> seq (?t 7) = seq (?t 0)"
    using wrap of_nat_u32_inj by (metis add_0_right)
  then show ok: "attempt_ok pr i \<longleftrightarrow> even (seq (load_time pr (8 * i))) \<and> seq (?t 7) = seq (load_time pr (8 * i))"
    unfolding attempt_ok_def Let_def userpage_run_lock [OF run] even_of_nat_u32 by (simp only: add_0_right) blast
  assume "attempt_ok pr i"
  then have ev: "even (seq (?t 0))" and eq: "seq (?t 7) = seq (?t 0)" using ok by simp_all
  have "page_at pr (?t p) = page_at pr (?t 0)" if p: "p \<in> {2, 3, 4, 5}" for p
  proof (rule userpage_run_frozen [OF run ev])
    show "?t 0 \<le> ?t p" using le [OF p] by simp
    show "seq (?t p) = seq (?t 0)"
      using userpage_run_mono [OF run le(1) [OF p]] userpage_run_mono [OF run le(2) [OF p]] eq by simp
  qed
  from this [of 2] this [of 3] this [of 4] this [of 5]
  show "attempt_conv pr i = page_conv (page_at pr (load_time pr (8 * i)))"
    by (simp add: attempt_conv_def page_conv_def Let_def)
qed

text \<open>
  The order in which the kernel writes the fixed fields of a sample, and where a field
  then starts.
\<close>

definition sample_layout :: "u64 list" where
  "sample_layout = [PERF_SAMPLE_IDENTIFIER, PERF_SAMPLE_IP, PERF_SAMPLE_TID, PERF_SAMPLE_TIME,
     PERF_SAMPLE_ADDR, PERF_SAMPLE_ID, PERF_SAMPLE_STREAM_ID, PERF_SAMPLE_CPU]"

definition field_pos :: "u64 \<Rightarrow> u64 \<Rightarrow> nat" where
  "field_pos st f = 8 * length (filter (\<lambda>g. has_flag st g) (takeWhile (\<lambda>g. g \<noteq> f) sample_layout))"

definition pos_of :: "u64 \<Rightarrow> u64 \<Rightarrow> int" where
  "pos_of st f = (if has_flag st f then int (field_pos st f) else -1)"

lemma common_sample_type_Some:
  "common_sample_type evs st = Some r \<Longrightarrow> (st \<noteq> 0 \<longrightarrow> r = st) \<and>
   (\<forall>a\<in>set evs. is_sampling_event a \<and> sample_type a AND pos_mask \<noteq> 0 \<longrightarrow> sample_type a AND pos_mask = r)"
  by (induction evs st rule: common_sample_type.induct) (auto split: if_splits)

lemma pos_mask_value: "pos_mask = 0x102CF"
  unfolding pos_mask_def by simp

lemma pos_mask_layout: "\<forall>f\<in>set sample_layout. pos_mask AND f = f"
  by (simp add: sample_layout_def pos_mask_value)

lemma pos_mask_and: "f \<in> set sample_layout \<Longrightarrow> (st AND pos_mask) AND f = st AND f"
proof -
  assume "f \<in> set sample_layout"
  then have "pos_mask AND f = f" using pos_mask_layout by blast
  then show ?thesis by (simp only: and.assoc)
qed

lemma takeWhile_set: "g \<in> set (takeWhile P xs) \<Longrightarrow> g \<in> set xs"
  by (meson set_takeWhileD)

lemma pos_of_mask:
  assumes "f \<in> set sample_layout" shows "pos_of (st AND pos_mask) f = pos_of st f"
proof -
  have "filter (\<lambda>g. has_flag (st AND pos_mask) g) (takeWhile (\<lambda>g. g \<noteq> f) sample_layout) =
        filter (\<lambda>g. has_flag st g) (takeWhile (\<lambda>g. g \<noteq> f) sample_layout)"
    by (rule filter_cong [OF refl]) (metis takeWhile_set pos_mask_and)
  then show ?thesis using pos_mask_and [OF assms, of st] by (simp only: pos_of_def field_pos_def)
qed

lemma length_filter_Cons:
  "length (filter P (x # xs)) = of_bool (P x) + length (filter P xs)"
  by simp

lemma add_if_of_bool: "(if b then (p::int) + 8 else p) = p + 8 * of_bool b"
  by simp

lemma field_pos_values:
  "field_pos st PERF_SAMPLE_TID = 8 * (of_bool (has_flag st PERF_SAMPLE_IDENTIFIER) + of_bool (has_flag st PERF_SAMPLE_IP))"
  "field_pos st PERF_SAMPLE_TIME = field_pos st PERF_SAMPLE_TID + 8 * of_bool (has_flag st PERF_SAMPLE_TID)"
  "field_pos st PERF_SAMPLE_ID = field_pos st PERF_SAMPLE_TIME + 8 * of_bool (has_flag st PERF_SAMPLE_TIME)
     + 8 * of_bool (has_flag st PERF_SAMPLE_ADDR)"
  "field_pos st PERF_SAMPLE_CPU = field_pos st PERF_SAMPLE_ID + 8 * of_bool (has_flag st PERF_SAMPLE_ID)
     + 8 * of_bool (has_flag st PERF_SAMPLE_STREAM_ID)"
proof -
  have tw: "takeWhile (\<lambda>g. g \<noteq> PERF_SAMPLE_TID) sample_layout = [PERF_SAMPLE_IDENTIFIER, PERF_SAMPLE_IP]"
    "takeWhile (\<lambda>g. g \<noteq> PERF_SAMPLE_TIME) sample_layout =
       [PERF_SAMPLE_IDENTIFIER, PERF_SAMPLE_IP, PERF_SAMPLE_TID]"
    "takeWhile (\<lambda>g. g \<noteq> PERF_SAMPLE_ID) sample_layout =
       [PERF_SAMPLE_IDENTIFIER, PERF_SAMPLE_IP, PERF_SAMPLE_TID, PERF_SAMPLE_TIME, PERF_SAMPLE_ADDR]"
    "takeWhile (\<lambda>g. g \<noteq> PERF_SAMPLE_CPU) sample_layout =
       [PERF_SAMPLE_IDENTIFIER, PERF_SAMPLE_IP, PERF_SAMPLE_TID, PERF_SAMPLE_TIME, PERF_SAMPLE_ADDR,
        PERF_SAMPLE_ID, PERF_SAMPLE_STREAM_ID]"
    unfolding sample_layout_def by simp_all
  note unf = field_pos_def tw length_filter_Cons filter.simps(1) list.size(3)
  show "field_pos st PERF_SAMPLE_TID = 8 * (of_bool (has_flag st PERF_SAMPLE_IDENTIFIER) + of_bool (has_flag st PERF_SAMPLE_IP))"
    "field_pos st PERF_SAMPLE_TIME = field_pos st PERF_SAMPLE_TID + 8 * of_bool (has_flag st PERF_SAMPLE_TID)"
    "field_pos st PERF_SAMPLE_ID = field_pos st PERF_SAMPLE_TIME + 8 * of_bool (has_flag st PERF_SAMPLE_TIME)
     + 8 * of_bool (has_flag st PERF_SAMPLE_ADDR)"
    "field_pos st PERF_SAMPLE_CPU = field_pos st PERF_SAMPLE_ID + 8 * of_bool (has_flag st PERF_SAMPLE_ID)
     + 8 * of_bool (has_flag st PERF_SAMPLE_STREAM_ID)"
    unfolding unf by presburger+
qed

lemma pos_init_layout:
  assumes "perf_sample_pos_init evs = Some pos"
  shows "time_pos pos = pos_of (pos_type pos) PERF_SAMPLE_TIME"
    "tid_pos pos = pos_of (pos_type pos) PERF_SAMPLE_TID"
    "id_pos pos = pos_of (pos_type pos) PERF_SAMPLE_ID"
    "cpu_pos pos = pos_of (pos_type pos) PERF_SAMPLE_CPU"
proof -
  obtain st where st: "common_sample_type evs 0 = Some st"
    using assms by (auto simp: perf_sample_pos_init_def split: option.splits)
  have pos: "pos = \<lparr>pos_type = st, tid_pos = pos_of st PERF_SAMPLE_TID, time_pos = pos_of st PERF_SAMPLE_TIME,
      id_pos = pos_of st PERF_SAMPLE_ID, cpu_pos = pos_of st PERF_SAMPLE_CPU\<rparr>"
    using assms unfolding perf_sample_pos_init_def st option.case Let_def add_if_of_bool pos_of_def
      field_pos_values option.inject of_nat_add of_nat_mult of_nat_of_bool of_nat_numeral
    by (simp only: add_0 distrib_left add.assoc)
  show "time_pos pos = pos_of (pos_type pos) PERF_SAMPLE_TIME"
    "tid_pos pos = pos_of (pos_type pos) PERF_SAMPLE_TID"
    "id_pos pos = pos_of (pos_type pos) PERF_SAMPLE_ID"
    "cpu_pos pos = pos_of (pos_type pos) PERF_SAMPLE_CPU"
    unfolding pos by simp_all
qed

section \<open>Properties of the clocks\<close>

text \<open>A 2 GHz TSC: a multiplier of one half in units of \<open>2 ^ 31\<close>.\<close>

definition ex_conv :: convert_ctx where
  "ex_conv = \<lparr>need_conv = CONVERT_TO_TSC, need_fixed = False,
     tsc_conv = \<lparr>time_shift = 31, time_mult = 1073741824, time_zero = 1000, cap_user_time_zero = True\<rparr>,
     tsc_conv_fixed = \<lparr>time_shift = 31, time_mult = 1073741824, time_zero = 1000, cap_user_time_zero = True\<rparr>,
     vcpu0 = \<lparr>tsc_offset = 5, tsc_scaling_ratio = 3, vcpu_pvti =
        \<lparr>version = 2, tsc_timestamp = 7, system_time = 11, tsc_to_system_mul = 2147483648,
         tsc_shift = 0, pvti_flags = 0\<rparr>\<rparr>,
     clock_offset = 0, frac_bits = 48, default_ratio = 281474976710656\<rparr>"

text \<open>
  C26. The split computation of \<open>perfclock_to_tsc\<close> (quotient and remainder scaled apart)
  is exactly the floor of the relative time times two to the shift over the multiplier,
  as long as that value fits 64 bits.
\<close>

theorem perfclock_to_tsc_exact:
  assumes "time_mult (tsc_conv c) \<noteq> 0" "unat (time_shift (tsc_conv c)) \<le> 32"
    and "unat (ns - time_zero (tsc_conv c)) * 2 ^ unat (time_shift (tsc_conv c))
           div unat (time_mult (tsc_conv c)) < 2 ^ 64"
  shows "unat (perfclock_to_tsc c ns) =
         unat (ns - time_zero (tsc_conv c)) * 2 ^ unat (time_shift (tsc_conv c))
           div unat (time_mult (tsc_conv c))"
  using perfclock_to_tsc_value [of c ns] assms by (simp add: conv_ok_def tsc_of_def rel_ns_def)

theorem perfclock_to_tsc_exact_witness: "unat (perfclock_to_tsc ex_conv 2000) = 2000"
  using perfclock_to_tsc_exact [of ex_conv 2000] by (simp add: ex_conv_def)

text \<open>
  C27. Converting a perfclock time to the TSC and back loses at most one nanosecond and
  never gains, when the TSC is not slower than one tick per nanosecond.
\<close>

theorem tsc_round_trip:
  assumes "time_mult (tsc_conv c) \<noteq> 0" "unat (time_shift (tsc_conv c)) \<le> 32"
    and "unat (time_mult (tsc_conv c)) \<le> 2 ^ unat (time_shift (tsc_conv c))"
    and "tsc_of c ns < 2 ^ 64"
  shows "rel_ns c (tsc_to_perfclock c (perfclock_to_tsc c ns)) \<le> rel_ns c ns \<and>
         rel_ns c ns \<le> rel_ns c (tsc_to_perfclock c (perfclock_to_tsc c ns)) + 1"
proof -
  let ?m = "unat (time_mult (tsc_conv c))" and ?s = "2 ^ unat (time_shift (tsc_conv c)) :: nat"
  let ?t = "rel_ns c ns"
  have m: "0 < ?m" using assms(1) by (simp add: unat_gt_0)
  have v: "unat (perfclock_to_tsc c ns) = ?t * ?s div ?m"
    using perfclock_to_tsc_value [of c ns] assms unfolding conv_ok_def tsc_of_def by blast
  have bk: "?t * ?s div ?m * ?m div ?s \<le> ?t" by (rule floor_round_trip(1) [OF m assms(3)])
  moreover have "?t < 2 ^ 64" unfolding rel_ns_def
    using unsigned_less [of "ns - time_zero (tsc_conv c)", where ?'a = nat] by simp
  ultimately have "rel_ns c (tsc_to_perfclock c (perfclock_to_tsc c ns)) = ?t * ?s div ?m * ?m div ?s"
    using tsc_to_perfclock_value [of "perfclock_to_tsc c ns" c] unfolding v by linarith
  then show ?thesis using floor_round_trip [OF m assms(3)] by metis
qed

theorem tsc_round_trip_witness:
  "rel_ns ex_conv (tsc_to_perfclock ex_conv (perfclock_to_tsc ex_conv 2000)) \<le> 1000 \<and>
   1000 \<le> rel_ns ex_conv (tsc_to_perfclock ex_conv (perfclock_to_tsc ex_conv 2000)) + 1"
proof -
  have c: "time_shift (tsc_conv ex_conv) = 31" "time_mult (tsc_conv ex_conv) = 1073741824"
    "rel_ns ex_conv 2000 = 1000" by (simp_all add: ex_conv_def rel_ns_def)
  show ?thesis using tsc_round_trip [of ex_conv 2000] by (simp add: c tsc_of_def)
qed

text \<open>
  On a device without a kvmclock conversion and with no TSC conversion, shifting into
  the event clock and back is the identity on every 64-bit time, wrap-around included.
\<close>

theorem evclock_offset_round_trip:
  assumes "need_conv c = CONVERT_NONE \<or> need_conv c = CONVERT_ADD_OFFSET"
  shows "evclock_to_perfclock c (perfclock_to_evclock c t) = t"
  using assms by (auto simp: evclock_to_perfclock_def perfclock_to_evclock_def perfclock_to_evclock'_def Let_def)

text \<open>
  With a scaled guest TSC the inverse conversion does not depend on the guest's TSC
  offset at all: the offset is subtracted and the difference then discarded.
\<close>

theorem kvmclock_scaled_ignores_offset:
  assumes "tsc_scaling_ratio (vcpu0 c) \<noteq> default_ratio c"
  shows "kvmclock_to_perfclock (c\<lparr>vcpu0 := (vcpu0 c)\<lparr>tsc_offset := off\<rparr>\<rparr>) t = kvmclock_to_perfclock c t"
  using assms by (simp add: kvmclock_to_perfclock_def tsc_to_perfclock_def Let_def)

text \<open>
  C28. What \<open>clocks_calc_mult_shift\<close> finds, for every source frequency other than
  zero, target frequency and range. When the shift is not zero, the multiplier is the target
  frequency scaled by two to the shift and divided by the source frequency, rounded to the
  nearest integer; converting \<open>maxsec\<close> seconds of the source clock with it does not
  overflow 64 bits; and the accuracy is the best one, since no larger shift up to 32 fits the
  range. A shift of zero is the other outcome: no shift from 1 to 32 fits, and the multiplier
  left behind is the one of shift 1, cut to 32 bits, twice what shift 0 needs; for it there is
  no guarantee against overflow, whatever the comment of the function says.
\<close>

theorem mult_shift_guarantee:
  assumes "frm \<noteq> 0" "clocks_calc_mult_shift frm to maxsec = (m, s)"
  shows "unat s \<le> 32 \<and>
         (\<forall>k. unat s < k \<and> k \<le> 32 \<longrightarrow> \<not> range_fits frm maxsec (scaled_mult frm to k)) \<and>
         (s \<noteq> 0 \<longrightarrow> unat m = scaled_mult frm to (unat s) \<and> range_fits frm maxsec (unat m) \<and>
                    unat maxsec * unat frm * unat m < 2 ^ 64) \<and>
         (s = 0 \<longrightarrow> unat m = scaled_mult frm to 1 mod 2 ^ 32)"
proof -
  define acc where "acc = shift_acc (drop_bit 32 (ucast maxsec * ucast frm)) 32"
  obtain t sft where l: "mult_shift_loop acc 0 frm to 32 = (t, sft)" by fastforce
  have ms: "m = ucast t" "s = of_nat sft"
    using assms(2) l by (simp_all add: clocks_calc_mult_shift_def Let_def acc_def)
  have fits: "acc \<le> 32" "range_fits frm maxsec q \<longleftrightarrow> q < 2 ^ acc" for q
    using range_fits_acc [OF acc_def, of q] by simp_all
  note f = mult_shift_loop_found [OF assms(1) order_refl l, simplified]
  have us: "unat s = sft" using f unfolding ms by (simp add: unat_of_nat)
  then have s0: "s = 0 \<longleftrightarrow> sft = 0" by (metis unat_eq_zero)
  have um: "unat m = unat t mod 2 ^ 32" unfolding ms by (simp add: unsigned_ucast_eq take_bit_eq_mod)
  have large: "\<not> range_fits frm maxsec (scaled_mult frm to k)" if "unat s < k" "k \<le> 32" for k
    using f that us fits(2) by (simp add: not_less)
  have found: "unat m = scaled_mult frm to (unat s) \<and> range_fits frm maxsec (unat m)" if "s \<noteq> 0"
  proof -
    have t: "unat t = scaled_mult frm to sft" "unat t < 2 ^ acc" using f that s0 by simp_all
    have "(2::nat) ^ acc \<le> 2 ^ 32" using fits(1) by (intro power_increasing) auto
    then have "unat m = unat t" using t(2) um by simp
    then show ?thesis using t us fits(2) by simp
  qed
  show ?thesis using large found range_fits_no_overflow f us um s0 by auto
qed

theorem mult_shift_guarantee_witness:
  "clocks_calc_mult_shift 2000000 1000000 10000 = (268435456, 29) \<and>
   unat (10000::u32) * unat (2000000::u32) * unat (268435456::u32) < 2 ^ 64 \<and>
   \<not> range_fits 2000000 10000 (scaled_mult 2000000 1000000 30)"
proof -
  have e: "clocks_calc_mult_shift 2000000 1000000 10000 = (268435456, 29)" by code_simp
  show ?thesis using mult_shift_guarantee [OF _ e] e by simp
qed

text \<open>
  The range of the comment of \<open>clocks_calc_mult_shift\<close> is not covered when the loop runs out:
  with a source of 1 MHz, a target of 4 GHz and the longest range the result is a shift of
  zero, twice the exact multiplier, and a product that does not fit 64 bits.
\<close>

lemma mult_shift_overflows:
  "clocks_calc_mult_shift 1000000 4000000000 4294967295 = (8000, 0) \<and>
   2 ^ 64 \<le> unat (4294967295::u32) * unat (1000000::u32) * unat (8000::u32)"
  by (rule conjI, code_simp) simp

text \<open>
  C30. The sequence-locked read of the conversion factors returns one version of them. The page
  changes under the reader as the kernel's update does it: the lock is odd while the fields are
  rewritten, at any moment between or during the reader's accesses; the two read barriers order
  the accesses on their two sides and nothing else does; and the 32-bit lock does not go round
  completely within one attempt. Then the read ends in one of two ways. Either it reports
  \<open>EINVAL\<close>, and in each of the 10001 attempts the kernel was writing or wrote
  meanwhile; or the factors returned are those the page held all at one moment, at the start of
  an attempt, with an even lock, and the result says whether they can be used.
\<close>

theorem read_tsc_consistent:
  assumes run: "userpage_run seq (page_at pr)"
    and ord: "\<And>i. rmb_orders seqlock_attempt (\<lambda>p. load_time pr (8 * i + p))"
    and wrap: "\<And>i. seq (load_time pr (8 * i + 7)) < seq (load_time pr (8 * i)) + 2 ^ 32"
    and read: "perf_mmap__read_tsc_conversion pr tc0 = (res, tc)"
  shows "if res = TscEINVAL
         then \<forall>i\<le>10000. odd (seq (load_time pr (8 * i))) \<or>
                seq (load_time pr (8 * i)) < seq (load_time pr (8 * i + 7))
         else \<exists>i\<le>10000. even (seq (load_time pr (8 * i))) \<and>
                tc = page_conv (page_at pr (load_time pr (8 * i))) \<and>
                (res = TscOk \<longleftrightarrow> cap_user_time_zero tc)"
proof -
  obtain ok where l: "read_tsc_loop pr 0 tc0 = (ok, tc)"
    and res: "res = (if \<not> ok then TscEINVAL else if \<not> cap_user_time_zero tc then TscEOPNOTSUPP else TscOk)"
    using read by (auto simp: perf_mmap__read_tsc_conversion_def split: prod.splits)
  note att = attempt_ok_frozen [OF run ord wrap]
  have mono: "seq (load_time pr (8 * i)) \<le> seq (load_time pr (8 * i + 7))" for i
  proof (rule userpage_run_mono [OF run])
    show "load_time pr (8 * i) \<le> load_time pr (8 * i + 7)"
      using seqlock_attempt_ordered [OF ord [of i], of 2] by simp
  qed
  show ?thesis
  proof (cases ok)
    case True
    then obtain i where "i \<le> 10000" "attempt_ok pr i" "tc = attempt_conv pr i"
      using read_tsc_loop_result [OF l] by auto
    then show ?thesis using True res att by auto
  next
    case False
    then have "\<forall>i\<le>10000. \<not> attempt_ok pr i" using read_tsc_loop_result [OF l] by auto
    then show ?thesis using False res att(1) mono by (simp add: order_less_le) metis
  qed
qed

text \<open>A page that the kernel rewrites during the first attempt.\<close>

definition ex_page :: "nat \<Rightarrow> tsc_page" where
  "ex_page t =
     \<lparr>pc_lock = (if t = 0 then 0 else if t < 4 then 1 else 2), pc_time_mult = (if t < 2 then 5 else 1073741824),
      pc_time_shift = (if t < 3 then 6 else 31), pc_time_zero = 1000, pc_cap_user_time_zero = True\<rparr>"

definition ex_reads :: page_reads where
  "ex_reads = \<lparr>page_at = ex_page, load_time = id\<rparr>"

definition ex_seq :: "nat \<Rightarrow> nat" where
  "ex_seq t = (if t = 0 then 0 else if t < 4 then 1 else 2)"

lemma ex_page_run: "userpage_run ex_seq ex_page"
proof -
  have "userpage_step (ex_seq t, ex_page t) (ex_seq (Suc t), ex_page (Suc t))" for t
  proof -
    consider "t = 0" | "t = 1" | "t = 2" | "t = 3" | "4 \<le> t" by linarith
    then show ?thesis
    proof cases
      case 1 then show ?thesis
        using Userpage_lock [of 0 "ex_page 0"] by (simp add: ex_page_def ex_seq_def)
    next
      case 4 then show ?thesis
        using Userpage_lock [of 1 "ex_page 3"] by (simp add: ex_page_def ex_seq_def numeral_eq_Suc)
    next
      case 5
      then have "ex_seq (Suc t) = ex_seq t" "ex_page (Suc t) = ex_page t" by (simp_all add: ex_page_def ex_seq_def)
      then show ?thesis by (simp add: Userpage_idle)
    qed (auto intro!: Userpage_write simp: ex_page_def ex_seq_def)
  qed
  then show ?thesis by (simp add: userpage_run_def ex_page_def ex_seq_def)
qed

theorem read_tsc_consistent_witness:
  "perf_mmap__read_tsc_conversion ex_reads (tsc_conv ex_conv) = (TscOk, tsc_conv ex_conv) \<and>
   (\<exists>i\<le>10000. even (ex_seq (8 * i)) \<and> tsc_conv ex_conv = page_conv (ex_page (8 * i)))"
proof -
  have e: "perf_mmap__read_tsc_conversion ex_reads (tsc_conv ex_conv) = (TscOk, tsc_conv ex_conv)"
    unfolding perf_mmap__read_tsc_conversion_def
    by (subst read_tsc_loop_unfold, subst read_tsc_loop_unfold)
      (simp add: attempt_ok_def attempt_conv_def ex_reads_def ex_page_def ex_conv_def)
  have run: "userpage_run ex_seq (page_at ex_reads)" using ex_page_run by (simp add: ex_reads_def)
  have "rmb_orders seqlock_attempt (\<lambda>p. load_time ex_reads (8 * i + p))"
    "ex_seq (load_time ex_reads (8 * i + 7)) < ex_seq (load_time ex_reads (8 * i)) + 2 ^ 32" for i
    by (auto simp: rmb_orders_def ex_reads_def ex_seq_def)
  note read_tsc_consistent [OF run this e]
  then have "\<exists>i\<le>10000. even (ex_seq (8 * i)) \<and> tsc_conv ex_conv = page_conv (ex_page (8 * i))"
    unfolding ex_reads_def by simp blast
  then show ?thesis using e by blast
qed

text \<open>
  C29. When the positions of the sample fields can be initialised, they are the positions
  at which the kernel writes the fields of every sampling event of the list.
\<close>

theorem sample_pos_matches_layout:
  assumes "perf_sample_pos_init evs = Some pos"
    and "a \<in> set evs" "is_sampling_event a" "sample_type a AND pos_mask \<noteq> 0"
  shows "time_pos pos = pos_of (sample_type a) PERF_SAMPLE_TIME \<and>
         tid_pos pos = pos_of (sample_type a) PERF_SAMPLE_TID \<and>
         id_pos pos = pos_of (sample_type a) PERF_SAMPLE_ID \<and>
         cpu_pos pos = pos_of (sample_type a) PERF_SAMPLE_CPU"
proof -
  have "common_sample_type evs 0 = Some (pos_type pos)"
    using assms(1) by (auto simp: perf_sample_pos_init_def Let_def split: option.splits)
  then have t: "pos_type pos = sample_type a AND pos_mask"
    using common_sample_type_Some assms(2-) by metis
  have "f \<in> set sample_layout" if "f \<in> {PERF_SAMPLE_TIME, PERF_SAMPLE_TID, PERF_SAMPLE_ID, PERF_SAMPLE_CPU}" for f
    using that by (auto simp: sample_layout_def)
  then show ?thesis using pos_init_layout [OF assms(1)] unfolding t by (simp only: pos_of_mask insert_iff simp_thms)
qed

definition ex_attr :: sample_attr where
  "ex_attr = \<lparr>sample_period = 1, sample_type = 134\<rparr>"

theorem sample_pos_matches_layout_witness:
  "\<exists>pos. perf_sample_pos_init [ex_attr] = Some pos \<and> time_pos pos = pos_of 134 PERF_SAMPLE_TIME \<and>
     pos_of 134 PERF_SAMPLE_TIME = 8"
proof -
  have "perf_sample_pos_init [ex_attr] =
      Some \<lparr>pos_type = 134, tid_pos = 0, time_pos = 8, id_pos = -1, cpu_pos = 16\<rparr>" by code_simp
  moreover have "pos_of 134 PERF_SAMPLE_TIME = 8" by code_simp
  ultimately show ?thesis
    using sample_pos_matches_layout [of "[ex_attr]" _ ex_attr]
    by (simp add: ex_attr_def is_sampling_event_def pos_mask_def)
qed

text \<open>
  Converting an event rewrites the eight bytes of its time field with the converted
  time and leaves its length and every other byte alone.
\<close>

theorem event_convert_time_only:
  assumes "need_conv c \<noteq> CONVERT_NONE" "sizeof_header + tpos + 8 \<le> length ev"
  shows "u64_at (perf_event_convert c tpos ev) (sizeof_header + tpos) =
           perfclock_to_evclock c (u64_at ev (sizeof_header + tpos)) \<and>
         length (perf_event_convert c tpos ev) = length ev \<and>
         (\<forall>i<length ev. i < sizeof_header + tpos \<or> sizeof_header + tpos + 8 \<le> i \<longrightarrow>
            perf_event_convert c tpos ev ! i = ev ! i)"
  using assms nth_put_u64_other by (auto simp: perf_event_convert_def perfclock_to_evclock_def Let_def)

end
