(* ===== verification/Order.thy ===== *)
theory Order
  imports Min_Heap Clock_Convert
begin

text \<open>
  Merging the event sources in time order, \<open>src/order.c\<close>. Every ring buffer and every
  registered stream is a source with at most one event in hand; a min-heap on the event
  times picks the next event to process. Sources and devices are numbered and kept in
  stores, the heap holds source numbers. Processing a record and reporting a loss append
  to a trace. The machine around the program is a parameter: what the kernel does to the
  shared pages between two looks at them, the clock, and whether memory is available.
\<close>

section \<open>State\<close>

datatype heap_type = PERF_MMAP_EVENT | STREAM_EVENT

text \<open>What the \<open>read_event\<close> callback of a stream returns when it returns an event.\<close>

record stream_item =
  si_bytes :: "u8 list"
  si_ins :: int
  si_writable :: bool
  si_converted :: bool

text \<open>
  \<open>struct heap_event\<close> with the fields of \<open>struct perf_mmap_event\<close> (\<open>me_\<close>) and of
  \<open>struct stream_event\<close> (\<open>se_\<close>). \<open>se_answers\<close> are the results the stream's callback will
  give, call by call; once they are used up it returns NULL.
\<close>

record heap_event =
  he_type :: heap_type
  he_dev :: nat
  he_event :: perf_event
  he_time :: u64
  he_ins :: int
  he_writable :: bool
  he_converted :: bool
  he_unconsumed :: bool
  me_map :: perf_mmap
  me_mono :: u64
  me_maybe_lost_end :: u64
  me_pause_start :: u64
  me_lost_pause :: bool
  se_answers :: "stream_item option list"
  se_pause_start :: u64
  se_empty_pause :: bool

record order_dev =
  od_time_pos :: nat
  od_has_lost :: bool
  od_watermark :: u64
  od_popped_time :: u64
  od_heap_size :: nat
  od_sources :: "nat list"
  od_refs :: int
  nr_unordered_events :: u64
  nr_fixed_events :: u64
  nr_lost :: u64
  nr_maybe_lost :: u64
  nr_maybe_lost_pause :: u64
  maybe_lost_pause_time :: u64
  nr_stream_pause :: u64
  stream_pause_time :: u64

datatype dev_tree = Dev nat "dev_tree list"

datatype order_break_reason =
    ORDER_BREAK_NONE | ORDER_BREAK_EMPTY | ORDER_BREAK_LOST_WAIT
  | ORDER_BREAK_TARGET_MAP | ORDER_BREAK_TARGET_TIME | ORDER_BREAK_STREAM_STOP

text \<open>
  \<open>Record dev bytes ins writable converted\<close> is a call of \<open>perf_event_process_record\<close>,
  \<open>Lost dev id n ins start end\<close> one of the profiler's \<open>lost\<close> callback.
\<close>

datatype order_output =
    Record nat "u8 list" int bool bool
  | Lost nat u64 u64 int u64 u64

record order_state =
  main :: nat
  tree :: dev_tree
  devs :: "nat \<Rightarrow> order_dev"
  srcs :: "nat \<Rightarrow> heap_event"
  heap :: "nat min_heap"
  conv :: convert_ctx
  nr_streams :: nat
  popped_ins :: int
  prev_lost_time :: u64
  inprocess :: bool
  break_reason :: order_break_reason
  trace :: "order_output list"
  ticks :: nat

text \<open>The machine: indexed by the number of looks taken so far.\<close>

record machine =
  kern :: "nat \<Rightarrow> nat \<Rightarrow> mmap_page \<Rightarrow> mmap_page"
  ktime :: "nat \<Rightarrow> u64"
  mem_ok :: "nat \<Rightarrow> bool"

abbreviation "PERF_RECORD_LOST \<equiv> 2 :: nat"
abbreviation "PERF_RECORD_SAMPLE \<equiv> 9 :: nat"
abbreviation "PERF_RECORD_ORDER_TIME \<equiv> 85 :: nat"

section \<open>Access to the stores\<close>

definition upd_src :: "nat \<Rightarrow> (heap_event \<Rightarrow> heap_event) \<Rightarrow> order_state \<Rightarrow> order_state" where
  "upd_src i f st = st\<lparr>srcs := (srcs st)(i := f (srcs st i))\<rparr>"

definition upd_dev :: "nat \<Rightarrow> (order_dev \<Rightarrow> order_dev) \<Rightarrow> order_state \<Rightarrow> order_state" where
  "upd_dev d f st = st\<lparr>devs := (devs st)(d := f (devs st d))\<rparr>"

definition emit :: "order_output \<Rightarrow> order_state \<Rightarrow> order_state" where
  "emit x st = st\<lparr>trace := trace st @ [x]\<rparr>"

definition set_map :: "nat \<Rightarrow> perf_mmap \<Rightarrow> order_state \<Rightarrow> order_state" where
  "set_map i mp = upd_src i (\<lambda>he. he\<lparr>me_map := mp\<rparr>)"

abbreviation map_of_src :: "order_state \<Rightarrow> nat \<Rightarrow> perf_mmap" where
  "map_of_src st i \<equiv> me_map (srcs st i)"

definition popped_time :: "order_state \<Rightarrow> u64" where
  "popped_time st = od_popped_time (devs st (main st))"

text \<open>Before the program looks at a ring the kernel may have moved its head and tail data.\<close>

definition sync :: "machine \<Rightarrow> nat \<Rightarrow> order_state \<Rightarrow> order_state" where
  "sync M i st =
     (let mp = map_of_src st i
      in (set_map i (mp\<lparr>page := kern M (ticks st) i (page mp)\<rparr>) st)\<lparr>ticks := ticks st + 1\<rparr>)"

definition tick :: "order_state \<Rightarrow> order_state" where
  "tick st = st\<lparr>ticks := ticks st + 1\<rparr>"

definition less_than :: "order_state \<Rightarrow> nat \<Rightarrow> nat \<Rightarrow> bool" where
  "less_than st i j \<longleftrightarrow> he_time (srcs st i) < he_time (srcs st j)"

definition consume :: "machine \<Rightarrow> nat \<Rightarrow> order_state \<Rightarrow> order_state" where
  "consume M i st = (let st1 = sync M i st in set_map i (perf_mmap__consume (map_of_src st1 i)) st1)"

definition read_next :: "machine \<Rightarrow> nat \<Rightarrow> order_state \<Rightarrow> perf_event option \<times> order_state" where
  "read_next M i st =
     (let st1 = sync M i st; (ev, mp) = perf_mmap__read_event (map_of_src st1 i)
      in (ev, set_map i mp st1))"

definition read_done :: "machine \<Rightarrow> nat \<Rightarrow> order_state \<Rightarrow> order_state" where
  "read_done M i st = (let st1 = sync M i st in set_map i (perf_mmap__read_done (map_of_src st1 i)) st1)"

definition prof_dev_get :: "nat \<Rightarrow> order_state \<Rightarrow> order_state" where
  "prof_dev_get d = upd_dev d (\<lambda>x. x\<lparr>od_refs := od_refs x + 1\<rparr>)"

definition prof_dev_put :: "nat \<Rightarrow> order_state \<Rightarrow> order_state" where
  "prof_dev_put d = upd_dev d (\<lambda>x. x\<lparr>od_refs := od_refs x - 1\<rparr>)"

section \<open>Clocks of the heap\<close>

definition heapclock :: "order_state \<Rightarrow> u64 \<Rightarrow> u64" where
  "heapclock st time =
     (if nr_streams st \<noteq> 0 \<and> need_conv (conv st) \<noteq> CONVERT_NONE
      then perfclock_to_evclock (conv st) time else time)"

definition heapclock_to_evclock :: "order_state \<Rightarrow> u64 \<Rightarrow> u64" where
  "heapclock_to_evclock st time =
     (if need_conv (conv st) = CONVERT_NONE \<or> nr_streams st \<noteq> 0 then time
      else perfclock_to_evclock (conv st) time)"

definition heapclock_to_perfclock :: "order_state \<Rightarrow> u64 \<Rightarrow> u64" where
  "heapclock_to_perfclock st time =
     (if nr_streams st \<noteq> 0 \<and> need_conv (conv st) \<noteq> CONVERT_NONE
      then evclock_to_perfclock (conv st) time else time)"

definition time_off :: "order_state \<Rightarrow> nat \<Rightarrow> nat" where
  "time_off st d = sizeof_header + od_time_pos (devs st d)"

section \<open>Ring buffer sources\<close>

text \<open>The event is rewritten in \<open>event_copy\<close>, where it may already be.\<close>

definition perf_mmap_fix_out_of_order :: "nat \<Rightarrow> u64 \<Rightarrow> order_state \<Rightarrow> order_state" where
  "perf_mmap_fix_out_of_order i popped st =
     (let he = srcs st i; d = he_dev he;
          bytes = put_u64 (ev_bytes (he_event he)) (time_off st d) (heapclock_to_perfclock st popped);
          mp = me_map he;
          mp' = mp\<lparr>event_copy := memcpy_at (event_copy mp) 0 bytes (length bytes)\<rparr>
      in upd_dev d (\<lambda>x. x\<lparr>nr_fixed_events := nr_fixed_events x + 1\<rparr>)
           (upd_src i (\<lambda>h. h\<lparr>he_event := \<lparr>ev_bytes = bytes, ev_in_copy = True\<rparr>, he_time := popped,
                              he_writable := True, me_map := mp'\<rparr>) st))"

record lost_info =
  lost_id :: u64
  lost_lost :: u64

definition no_lost :: lost_info where
  "no_lost = \<lparr>lost_id = 0, lost_lost = 0\<rparr>"

definition lost_of :: "u8 list \<Rightarrow> lost_info" where
  "lost_of bs = \<lparr>lost_id = u64_at bs 8, lost_lost = u64_at bs 16\<rparr>"

definition ev_type :: "perf_event \<Rightarrow> nat" where
  "ev_type ev = hdr_type (ev_bytes ev)"

definition count_lost :: "nat \<Rightarrow> perf_event \<Rightarrow> order_state \<Rightarrow> order_state" where
  "count_lost d ev st =
     (if ev_type ev = PERF_RECORD_LOST then upd_dev d (\<lambda>x. x\<lparr>nr_lost := nr_lost x + 1\<rparr>) st else st)"

text \<open>The sample in hand of a source: event, time and whether it may be written.\<close>

definition take_sample :: "nat \<Rightarrow> perf_event \<Rightarrow> order_state \<Rightarrow> order_state" where
  "take_sample i ev st =
     upd_src i (\<lambda>h. h\<lparr>he_event := ev,
        he_time := heapclock st (u64_at (ev_bytes ev) (time_off st (he_dev h))),
        he_writable := ev_in_copy ev\<rparr>) st"

text \<open>The \<open>retry\<close> loop: records that carry no time are processed at once.\<close>

partial_function (option) mmap_init_loop ::
  "machine \<Rightarrow> nat \<Rightarrow> lost_info \<Rightarrow> order_state \<Rightarrow> (bool \<times> lost_info \<times> order_state) option" where
  "mmap_init_loop M i lost st =
     (case read_next M i st of
        (None, st1) \<Rightarrow> Some (False, lost, read_done M i st1)
      | (Some ev, st1) \<Rightarrow>
          let he = srcs st1 i; d = he_dev he in
          if ev_type ev \<noteq> PERF_RECORD_SAMPLE then
            let st2 = count_lost d ev st1;
                keep = (ev_type ev = PERF_RECORD_LOST \<and> od_has_lost (devs st2 d));
                lost' = (if keep then lost_of (ev_bytes ev) else lost);
                st3 = (if keep then st2 else emit (Record d (ev_bytes ev) (he_ins he) (ev_in_copy ev) False) st2)
            in mmap_init_loop M i lost' (consume M i st3)
          else Some (True, lost, take_sample i ev st1))"

declare mmap_init_loop.simps [code]

definition perf_mmap_event_init :: "machine \<Rightarrow> nat \<Rightarrow> order_state \<Rightarrow> (bool \<times> order_state) option" where
  "perf_mmap_event_init M i st =
     (let st1 = sync M i st in
      case perf_mmap__read_init (map_of_src st1 i) of
        None \<Rightarrow> None
      | Some (res, mp) \<Rightarrow>
          let st2 = set_map i mp st1 in
          if res \<noteq> Ready then Some (False, st2)
          else case mmap_init_loop M i no_lost st2 of
            None \<Rightarrow> None
          | Some (False, lost, st3) \<Rightarrow> Some (False, st3)
          | Some (True, lost, st3) \<Rightarrow>
              let st4 = (if he_time (srcs st3 i) < popped_time st3
                         then perf_mmap_fix_out_of_order i (popped_time st3) st3 else st3);
                  he = srcs st4 i;
                  st5 = (if lost_lost lost \<noteq> 0
                         then emit (Lost (he_dev he) (lost_id lost) (lost_lost lost) (he_ins he)
                                (heapclock_to_evclock st4 (me_mono he)) (heapclock_to_evclock st4 (he_time he))) st4
                         else st4)
              in Some (True, st5))"

section \<open>Stream sources\<close>

fun stream_read :: "nat \<Rightarrow> stream_item option list \<Rightarrow> order_state \<Rightarrow> bool \<times> order_state" where
  "stream_read i [] st = (False, upd_src i (\<lambda>h. h\<lparr>se_answers := []\<rparr>) st)"
| "stream_read i (None # as) st = (False, upd_src i (\<lambda>h. h\<lparr>se_answers := as\<rparr>) st)"
| "stream_read i (Some it # as) st =
     (let ty = hdr_type (si_bytes it); d = he_dev (srcs st i) in
      if ty \<noteq> PERF_RECORD_SAMPLE \<and> ty \<noteq> PERF_RECORD_ORDER_TIME
      then stream_read i as (emit (Record d (si_bytes it) (si_ins it) (si_writable it) (si_converted it)) st)
      else (True, upd_src i (\<lambda>h. h\<lparr>
              he_event := \<lparr>ev_bytes = si_bytes it, ev_in_copy = False\<rparr>,
              he_time := (if ty = PERF_RECORD_ORDER_TIME then u64_at (si_bytes it) 8
                          else u64_at (si_bytes it) (time_off st d)),
              he_ins := si_ins it, he_writable := si_writable it, he_converted := si_converted it,
              se_answers := as\<rparr>) st))"

definition stream_event_init :: "nat \<Rightarrow> order_state \<Rightarrow> bool \<times> order_state" where
  "stream_event_init i st =
     (if he_unconsumed (srcs st i) then (True, upd_src i (\<lambda>h. h\<lparr>he_unconsumed := False\<rparr>) st)
      else stream_read i (se_answers (srcs st i)) st)"

text \<open>Account the event of device \<open>d\<close> at \<open>time\<close> against the time already reached.\<close>

definition pop_account :: "nat \<Rightarrow> u64 \<Rightarrow> int \<Rightarrow> order_state \<Rightarrow> order_state" where
  "pop_account d time ins st =
     (let st1 = (if d \<noteq> main st then upd_dev d (\<lambda>x. x\<lparr>od_popped_time := time\<rparr>) st else st) in
      if time < popped_time st1
      then upd_dev d (\<lambda>x. x\<lparr>nr_unordered_events := nr_unordered_events x + 1\<rparr>) st1
      else (upd_dev (main st1) (\<lambda>x. x\<lparr>od_popped_time := time\<rparr>) st1)\<lparr>popped_ins := ins\<rparr>)"

definition stream_event_process :: "machine \<Rightarrow> nat \<Rightarrow> order_state \<Rightarrow> bool \<times> order_state" where
  "stream_event_process M i st =
     (let he = srcs st i; d = he_dev he;
          st1 = pop_account d (he_time he) (he_ins he) st;
          st2 = emit (Record d (ev_bytes (he_event he)) (he_ins he) (he_writable he) (he_converted he)) st1;
          (ok, st3) = stream_event_init i st2
      in if ok then
           (True, if se_empty_pause (srcs st3 i)
                  then tick (upd_dev d (\<lambda>x. x\<lparr>stream_pause_time := stream_pause_time x +
                              (ktime M (ticks st3) - se_pause_start (srcs st3 i))\<rparr>)
                         (upd_src i (\<lambda>h. h\<lparr>se_empty_pause := False\<rparr>) st3))
                  else st3)
         else
           (False, tick (upd_dev d (\<lambda>x. x\<lparr>nr_stream_pause := nr_stream_pause x + 1\<rparr>)
                    (upd_src i (\<lambda>h. h\<lparr>se_empty_pause := True, se_pause_start := ktime M (ticks st3)\<rparr>) st3))))"

section \<open>Filling the heap\<close>

text \<open>\<open>heap->data[heap->nr++] = heap_event\<close>, after growing the array when it is full.\<close>

definition heap_append :: "machine \<Rightarrow> nat \<Rightarrow> nat \<Rightarrow> order_state \<Rightarrow> order_state option" where
  "heap_append M d i st =
     (let h = heap st in
      if nr h = hsize h \<and> \<not> mem_ok M (ticks st) then None
      else
        let grow = od_heap_size (devs st d);
            st1 = (if nr h = hsize h then
                     upd_dev (main st) (\<lambda>x. x\<lparr>od_heap_size := hsize h + grow\<rparr>)
                       (tick (st\<lparr>heap := h\<lparr>hsize := hsize h + grow, hdata := hdata h @ replicate grow 0\<rparr>\<rparr>))
                   else st);
            h1 = heap st1
        in Some (prof_dev_get (he_dev (srcs st1 i))
             (st1\<lparr>heap := h1\<lparr>nr := nr h1 + 1, hdata := (hdata h1)[nr h1 := i]\<rparr>\<rparr>)))"

text \<open>The loop over \<open>heap_event_list\<close> of one device; the integer is the value returned.\<close>

fun heap_init_list :: "machine \<Rightarrow> nat \<Rightarrow> nat list \<Rightarrow> order_state \<Rightarrow> (int \<times> order_state) option" where
  "heap_init_list M d [] st = Some (0, st)"
| "heap_init_list M d (i # is) st =
     (let next = (\<lambda>st'. case heap_append M d i st' of
                          None \<Rightarrow> Some (-1, tick st')
                        | Some st'' \<Rightarrow> heap_init_list M d is st'')
      in case he_type (srcs st i) of
           PERF_MMAP_EVENT \<Rightarrow>
             (case perf_mmap_event_init M i st of
                None \<Rightarrow> None
              | Some (False, st1) \<Rightarrow> heap_init_list M d is st1
              | Some (True, st1) \<Rightarrow> next st1)
         | STREAM_EVENT \<Rightarrow>
             (case stream_event_init i st of
                (False, st1) \<Rightarrow> Some (1, st1\<lparr>break_reason := ORDER_BREAK_STREAM_STOP\<rparr>)
              | (True, st1) \<Rightarrow> next st1))"

fun order_heap_init :: "machine \<Rightarrow> dev_tree \<Rightarrow> order_state \<Rightarrow> (int \<times> order_state) option"
  and order_heap_init_children :: "machine \<Rightarrow> dev_tree list \<Rightarrow> order_state \<Rightarrow> (int \<times> order_state) option" where
  "order_heap_init M (Dev d children) st =
     (case heap_init_list M d (od_sources (devs st d)) st of
        None \<Rightarrow> None
      | Some (ret, st1) \<Rightarrow> if ret \<noteq> 0 then Some (ret, st1) else order_heap_init_children M children st1)"
| "order_heap_init_children M [] st = Some (0, st)"
| "order_heap_init_children M (c # cs) st =
     (case order_heap_init M c st of
        None \<Rightarrow> None
      | Some (ret, st1) \<Rightarrow> if ret \<noteq> 0 then Some (ret, st1) else order_heap_init_children M cs st1)"

section \<open>Sorting\<close>

record target =
  target_map :: "nat option"
  target_end :: u64
  target_time :: u64

text \<open>
  From the label \<open>process\<close> (with an event) or \<open>consume\<close> (without one) to the end of the
  iteration: process and consume the event of source \<open>i\<close>, then read until the next sample.
  The result is \<open>need_break\<close>, the pending loss and the state.
\<close>

definition wants_consume :: "nat \<Rightarrow> order_state \<Rightarrow> bool" where
  "wants_consume i st \<longleftrightarrow>
     (let he = srcs st i in
      endp (me_map he) \<noteq> me_maybe_lost_end he \<or>
      perf_mmap_has_space (me_map he) (unat (od_watermark (devs st (he_dev he)) div 2)))"

definition report_lost :: "nat \<Rightarrow> lost_info \<Rightarrow> order_state \<Rightarrow> lost_info \<times> order_state" where
  "report_lost i lost st =
     (if lost_lost lost \<noteq> 0 then
        let he = srcs st i;
            st1 = (if me_mono he < prev_lost_time st then st else st\<lparr>prev_lost_time := me_mono he\<rparr>)
        in (lost\<lparr>lost_lost := 0\<rparr>,
            emit (Lost (he_dev he) (lost_id lost) (lost_lost lost) (he_ins he)
              (heapclock_to_evclock st1 (me_mono he)) (heapclock_to_evclock st1 (he_time he))) st1)
      else (lost, st))"

partial_function (option) advance ::
  "machine \<Rightarrow> target \<Rightarrow> nat \<Rightarrow> perf_event option \<Rightarrow> bool \<Rightarrow> lost_info \<Rightarrow> order_state \<Rightarrow>
   (bool \<times> lost_info \<times> order_state) option" where
  "advance M tg i proc need_break lost st =
     (let he = srcs st i; d = he_dev he;
          st1 = (case proc of
                   None \<Rightarrow> st
                 | Some ev \<Rightarrow> emit (Record d (ev_bytes ev) (he_ins he) (ev_in_copy ev) False) st);
          st2 = (if wants_consume i st1 then consume M i st1 else st1);
          hit = (target_map tg = Some i \<and> start (map_of_src st2 i) = target_end tg);
          st3 = (if hit then st2\<lparr>break_reason := ORDER_BREAK_TARGET_MAP\<rparr> else st2);
          nb = (need_break \<or> hit)
      in case read_next M i st3 of
           (Some ev, st4) \<Rightarrow>
             if ev_type ev \<noteq> PERF_RECORD_SAMPLE then
               let st5 = count_lost d ev st4 in
               if ev_type ev = PERF_RECORD_LOST \<and> od_has_lost (devs st5 d)
               then advance M tg i None nb (lost_of (ev_bytes ev)) st5
               else advance M tg i (Some ev) nb lost st5
             else
               let st5 = take_sample i ev st4;
                   st6 = st5\<lparr>heap := min_heap_sift_down (less_than st5) (heap st5) 0\<rparr>;
                   (lost', st7) = report_lost i lost st6
               in Some (nb, lost', st7)
         | (None, st4) \<Rightarrow>
             let st5 = read_done M i st4;
                 st6 = st5\<lparr>heap := snd (min_heap_pop (less_than st5) (heap st5))\<rparr>
             in Some (nb, lost, prof_dev_put d st6))"

declare advance.simps [code]

text \<open>
  Predicting losses: None means the sort stops here, to keep the last event in the ring
  until the kernel writes again.
\<close>

definition predict_lost :: "machine \<Rightarrow> nat \<Rightarrow> order_state \<Rightarrow> bool \<times> order_state" where
  "predict_lost M i st =
     (let he = srcs st i; d = he_dev he; mp = me_map he in
      if endp mp \<noteq> me_maybe_lost_end he then
        (True,
         if perf_mmap_has_space mp (unat (od_watermark (devs st d) + of_nat (hdr_size (ev_bytes (he_event he)))))
         then upd_src i (\<lambda>h. h\<lparr>me_maybe_lost_end := endp mp - 1\<rparr>) st
         else upd_dev d (\<lambda>x. x\<lparr>nr_maybe_lost := nr_maybe_lost x + 1\<rparr>)
                (upd_src i (\<lambda>h. h\<lparr>me_maybe_lost_end := endp mp\<rparr>) st))
      else
        let st1 = sync M i st in
        if perf_mmap__empty (map_of_src st1 i) then
          (False,
           if me_lost_pause he then st1
           else tick ((upd_dev d (\<lambda>x. x\<lparr>nr_maybe_lost_pause := nr_maybe_lost_pause x + 1\<rparr>)
                        (upd_src i (\<lambda>h. h\<lparr>me_lost_pause := True, me_pause_start := ktime M (ticks st1)\<rparr>) st1))
                      \<lparr>break_reason := ORDER_BREAK_LOST_WAIT\<rparr>))
        else (True, st1))"

definition end_pause :: "machine \<Rightarrow> nat \<Rightarrow> order_state \<Rightarrow> order_state" where
  "end_pause M i st =
     (let he = srcs st i in
      if me_lost_pause he then
        tick (upd_dev (he_dev he) (\<lambda>x. x\<lparr>maybe_lost_pause_time := maybe_lost_pause_time x +
                  (ktime M (ticks st) - me_pause_start he)\<rparr>)
               (upd_src i (\<lambda>h. h\<lparr>me_lost_pause := False\<rparr>) st))
      else st)"

text \<open>Keep the order within one ring: an event behind its predecessor takes its time.\<close>

definition keep_mono :: "nat \<Rightarrow> order_state \<Rightarrow> order_state" where
  "keep_mono i st =
     (let he = srcs st i in
      if he_time he < me_mono he then perf_mmap_fix_out_of_order i (me_mono he) st
      else upd_src i (\<lambda>h. h\<lparr>me_mono := he_time he\<rparr>) st)"

partial_function (option) order_loop ::
  "machine \<Rightarrow> target \<Rightarrow> lost_info \<Rightarrow> order_state \<Rightarrow> order_state option" where
  "order_loop M tg lost st =
     (case min_heap_peek (heap st) of
        None \<Rightarrow> Some (st\<lparr>break_reason := ORDER_BREAK_EMPTY\<rparr>)
      | Some i \<Rightarrow>
          if he_type (srcs st i) = STREAM_EVENT then
            (case stream_event_process M i st of
               (ok, st1) \<Rightarrow>
                 if ok then order_loop M tg lost (st1\<lparr>heap := min_heap_sift_down (less_than st1) (heap st1) 0\<rparr>)
                 else let st2 = st1\<lparr>heap := snd (min_heap_pop (less_than st1) (heap st1))\<rparr>
                 in Some ((prof_dev_put (he_dev (srcs st2 i)) st2)\<lparr>break_reason := ORDER_BREAK_STREAM_STOP\<rparr>))
          else if target_time tg < he_time (srcs st i) then
            Some (st\<lparr>break_reason := ORDER_BREAK_TARGET_TIME\<rparr>)
          else
            (case predict_lost M i st of
               (go, st1) \<Rightarrow>
                 if \<not> go then Some st1
                 else let st2 = keep_mono i (end_pause M i st1);
                     he = srcs st2 i;
                     st3 = pop_account (he_dev he) (he_time he) (he_ins he) st2
                 in case advance M tg i (Some ((he_event he)\<lparr>ev_in_copy := he_writable he\<rparr>)) False lost st3 of
                      None \<Rightarrow> None
                    | Some (nb, lost', st4) \<Rightarrow> if nb then Some st4 else order_loop M tg lost' st4))"

declare order_loop.simps [code]

text \<open>The label \<open>stream_stop\<close>: give back what is still in the heap.\<close>

fun order_stop :: "machine \<Rightarrow> nat \<Rightarrow> order_state \<Rightarrow> order_state" where
  "order_stop M 0 st = st"
| "order_stop M (Suc n) st =
     (let st1 = st\<lparr>heap := (heap st)\<lparr>nr := n\<rparr>\<rparr>;
          i = hdata (heap st1) ! n;
          he = srcs st1 i;
          st2 = (case he_type he of
                   PERF_MMAP_EVENT \<Rightarrow>
                     consume M i (set_map i (perf_mmap__unread_event (me_map he) (Some (he_event he))) st1)
                 | STREAM_EVENT \<Rightarrow> upd_src i (\<lambda>h. h\<lparr>he_unconsumed := True\<rparr>) st1)
      in order_stop M n (prof_dev_put (he_dev he) st2))"

definition order_finish :: "machine \<Rightarrow> order_state \<Rightarrow> order_state" where
  "order_finish M st =
     (let st1 = order_stop M (nr (heap st)) st
      in prof_dev_put (main st1) (st1\<lparr>inprocess := False\<rparr>))"

definition order_run :: "machine \<Rightarrow> target \<Rightarrow> order_state \<Rightarrow> order_state option" where
  "order_run M tg st =
     (let st0 = st\<lparr>heap := (heap st)\<lparr>nr := 0\<rparr>\<rparr> in
      case order_heap_init M (tree st0) st0 of
        None \<Rightarrow> None
      | Some (ret, st1) \<Rightarrow>
          if ret \<noteq> 0 then Some (order_finish M st1)
          else map_option (order_finish M)
                 (order_loop M tg no_lost (st1\<lparr>heap := min_heapify_all (less_than st1) (heap st1)\<rparr>)))"

text \<open>\<open>target_tm = 0\<close> stands for no target time.\<close>

definition order_process :: "machine \<Rightarrow> nat option \<Rightarrow> u64 \<Rightarrow> order_state \<Rightarrow> order_state option" where
  "order_process M tmap target_tm st =
     (if inprocess st then Some st
      else
        let begin_run = (\<lambda>tend st'.
              let st1 = (prof_dev_get (main st') st')\<lparr>inprocess := True\<rparr>
              in order_run M \<lparr>target_map = tmap, target_end = tend,
                   target_time = (if target_tm \<noteq> 0 then heapclock st1 target_tm else - 1)\<rparr> st1)
        in case tmap of
             None \<Rightarrow> begin_run 0 st
           | Some i \<Rightarrow>
               let st1 = sync M i st in
               case perf_mmap__read_init (map_of_src st1 i) of
                 None \<Rightarrow> None
               | Some (res, mp) \<Rightarrow>
                   let st2 = set_map i mp st1 in
                   if res \<noteq> Ready then Some st2
                   else let st3 = sync M i st2 in
                        if perf_mmap__empty (map_of_src st3 i) then Some st3
                        else begin_run (endp (map_of_src st3 i)) st3)"

section \<open>What the operations leave alone\<close>

text \<open>Samples of a trace and their times; \<open>tp\<close> gives the offset of the time field per device.\<close>

fun is_sample :: "order_output \<Rightarrow> bool" where
  "is_sample (Record d bs ins w c) \<longleftrightarrow> hdr_type bs = PERF_RECORD_SAMPLE"
| "is_sample (Lost d i n ins a b) \<longleftrightarrow> False"

fun out_time :: "(nat \<Rightarrow> nat) \<Rightarrow> order_output \<Rightarrow> u64" where
  "out_time tp (Record d bs ins w c) = u64_at bs (tp d)"
| "out_time tp (Lost d i n ins a b) = a"

fun out_fits :: "(nat \<Rightarrow> nat) \<Rightarrow> order_output \<Rightarrow> bool" where
  "out_fits tp (Record d bs ins w c) \<longleftrightarrow> tp d + 8 \<le> length bs"
| "out_fits tp (Lost d i n ins a b) \<longleftrightarrow> True"

definition slog :: "order_state \<Rightarrow> order_output list" where
  "slog st = filter is_sample (trace st)"

definition cfg_eq :: "order_state \<Rightarrow> order_state \<Rightarrow> bool" where
  "cfg_eq st st' \<longleftrightarrow>
     main st' = main st \<and> tree st' = tree st \<and> conv st' = conv st \<and> nr_streams st' = nr_streams st \<and>
     (\<forall>d. od_time_pos (devs st' d) = od_time_pos (devs st d) \<and>
          od_sources (devs st' d) = od_sources (devs st d) \<and>
          (0 < od_heap_size (devs st d) \<longrightarrow> 0 < od_heap_size (devs st' d)) \<and>
          nr_unordered_events (devs st' d) = nr_unordered_events (devs st d)) \<and>
     (\<forall>j. he_type (srcs st' j) = he_type (srcs st j) \<and> he_dev (srcs st' j) = he_dev (srcs st j))"

definition hands_eq :: "order_state \<Rightarrow> order_state \<Rightarrow> bool" where
  "hands_eq st st' \<longleftrightarrow>
     (\<forall>j. he_time (srcs st' j) = he_time (srcs st j) \<and> me_mono (srcs st' j) = me_mono (srcs st j) \<and>
          he_event (srcs st' j) = he_event (srcs st j))"

definition quiet :: "order_state \<Rightarrow> order_state \<Rightarrow> bool" where
  "quiet st st' \<longleftrightarrow> cfg_eq st st' \<and> hands_eq st st' \<and> heap st' = heap st \<and>
     popped_time st' = popped_time st \<and> slog st' = slog st"

lemmas quiet_defs = quiet_def cfg_eq_def hands_eq_def slog_def popped_time_def

lemma cfg_eq_refl [simp, intro]: "cfg_eq st st"
  by (simp add: cfg_eq_def)

lemma cfg_eq_trans [trans]: "cfg_eq a b \<Longrightarrow> cfg_eq b c \<Longrightarrow> cfg_eq a c"
  by (simp add: cfg_eq_def)

lemma quiet_refl [simp, intro]: "quiet st st"
  by (simp add: quiet_defs)

lemma quiet_trans [trans]: "quiet a b \<Longrightarrow> quiet b c \<Longrightarrow> quiet a c"
  unfolding quiet_def hands_eq_def by (auto intro: cfg_eq_trans)

lemma quiet_upd_src:
  "(\<And>h. he_type (f h) = he_type h \<and> he_dev (f h) = he_dev h \<and> he_time (f h) = he_time h \<and>
        me_mono (f h) = me_mono h \<and> he_event (f h) = he_event h) \<Longrightarrow> quiet st (upd_src i f st)"
  by (simp add: quiet_defs upd_src_def)

lemma quiet_upd_dev:
  "(\<And>x. od_time_pos (f x) = od_time_pos x \<and> od_sources (f x) = od_sources x \<and> od_heap_size (f x) = od_heap_size x \<and>
        nr_unordered_events (f x) = nr_unordered_events x \<and> od_popped_time (f x) = od_popped_time x) \<Longrightarrow>
   quiet st (upd_dev d f st)"
  by (simp add: quiet_defs upd_dev_def)

lemma quiet_set_map [simp, intro]: "quiet st (set_map i mp st)"
  by (simp add: quiet_defs set_map_def upd_src_def)

lemma quiet_tick [simp, intro]: "quiet st (tick st)"
  by (simp add: quiet_defs tick_def)

lemma quiet_ticks [simp, intro]: "quiet st (st\<lparr>ticks := n\<rparr>)"
  by (simp add: quiet_defs)

lemma quiet_break [simp, intro]: "quiet st (st\<lparr>break_reason := r\<rparr>)"
  by (simp add: quiet_defs)

lemma quiet_sync [simp, intro]: "quiet st (sync M i st)"
  unfolding sync_def Let_def by (rule quiet_trans [OF quiet_set_map quiet_ticks])

lemma quiet_consume [simp, intro]: "quiet st (consume M i st)"
  unfolding consume_def Let_def by (rule quiet_trans [OF quiet_sync quiet_set_map])

lemma quiet_read_done [simp, intro]: "quiet st (read_done M i st)"
  unfolding read_done_def Let_def by (rule quiet_trans [OF quiet_sync quiet_set_map])

lemma quiet_read_next: "read_next M i st = (ev, st') \<Longrightarrow> quiet st st'"
  unfolding read_next_def Let_def
  by (auto split: prod.splits intro: quiet_trans [OF quiet_sync quiet_set_map])

lemma quiet_dev_put [simp, intro]: "quiet st (prof_dev_put d st)"
  by (simp add: quiet_defs prof_dev_put_def upd_dev_def)

lemma quiet_dev_get [simp, intro]: "quiet st (prof_dev_get d st)"
  by (simp add: quiet_defs prof_dev_get_def upd_dev_def)

lemma quiet_count_lost [simp, intro]: "quiet st (count_lost d ev st)"
  by (simp add: quiet_defs count_lost_def upd_dev_def)

lemma quiet_emit: "\<not> is_sample x \<Longrightarrow> quiet st (emit x st)"
  by (simp add: quiet_defs emit_def)

lemma quiet_report_lost: "quiet st (snd (report_lost i lost st))"
  by (auto simp: quiet_defs report_lost_def Let_def emit_def)

lemma quiet_end_pause [simp, intro]: "quiet st (end_pause M i st)"
proof -
  have "quiet st (tick (upd_dev d (\<lambda>x. x\<lparr>maybe_lost_pause_time := maybe_lost_pause_time x + t\<rparr>)
      (upd_src i (\<lambda>h. h\<lparr>me_lost_pause := False\<rparr>) st)))" for d t
    by (rule quiet_trans [OF quiet_trans [OF quiet_upd_src quiet_upd_dev] quiet_tick]) simp_all
  then show ?thesis unfolding end_pause_def Let_def by simp
qed

lemma quiet_predict_lost: "predict_lost M i st = (b, st') \<Longrightarrow> quiet st st'"
proof -
  assume p: "predict_lost M i st = (b, st')"
  let ?he = "srcs st i" and ?s1 = "sync M i st"
  have s: "quiet st (upd_src i (\<lambda>h. h\<lparr>me_maybe_lost_end := e\<rparr>) st)" for e
    by (rule quiet_upd_src) simp
  have a: "quiet st (upd_dev d (\<lambda>x. x\<lparr>nr_maybe_lost := nr_maybe_lost x + 1\<rparr>)
      (upd_src i (\<lambda>h. h\<lparr>me_maybe_lost_end := e\<rparr>) st))" for d e
    by (rule quiet_trans [OF s quiet_upd_dev]) simp
  have w: "quiet st (tick ((upd_dev d (\<lambda>x. x\<lparr>nr_maybe_lost_pause := nr_maybe_lost_pause x + 1\<rparr>)
        (upd_src i (\<lambda>h. h\<lparr>me_lost_pause := True, me_pause_start := t\<rparr>) ?s1))
        \<lparr>break_reason := ORDER_BREAK_LOST_WAIT\<rparr>))" for d t
    by (rule quiet_trans [OF quiet_trans [OF quiet_trans [OF quiet_trans [OF quiet_sync quiet_upd_src] quiet_upd_dev]
          quiet_break] quiet_tick]) simp_all
  show ?thesis
  proof (cases "endp (me_map ?he) \<noteq> me_maybe_lost_end ?he")
    case True
    then have "st' = upd_src i (\<lambda>h. h\<lparr>me_maybe_lost_end := endp (me_map ?he) - 1\<rparr>) st \<or>
      st' = upd_dev (he_dev ?he) (\<lambda>x. x\<lparr>nr_maybe_lost := nr_maybe_lost x + 1\<rparr>)
      (upd_src i (\<lambda>h. h\<lparr>me_maybe_lost_end := endp (me_map ?he)\<rparr>) st)"
      using p unfolding predict_lost_def Let_def by (simp split: if_splits)
    then show ?thesis using s a by blast
  next
    case False
    then have "st' = ?s1 \<or> st' = tick ((upd_dev (he_dev ?he)
        (\<lambda>x. x\<lparr>nr_maybe_lost_pause := nr_maybe_lost_pause x + 1\<rparr>)
        (upd_src i (\<lambda>h. h\<lparr>me_lost_pause := True, me_pause_start := ktime M (ticks ?s1)\<rparr>) ?s1))
        \<lparr>break_reason := ORDER_BREAK_LOST_WAIT\<rparr>)"
      using p unfolding predict_lost_def Let_def by (simp split: if_splits)
    then show ?thesis using w quiet_sync by blast
  qed
qed

section \<open>One iteration\<close>

text \<open>
  How an iteration ends: with the next sample of source \<open>i\<close> in hand and the heap sifted
  from the root, or with the source popped.
\<close>

definition took :: "nat \<Rightarrow> order_state \<Rightarrow> order_state \<Rightarrow> bool" where
  "took i st st' \<longleftrightarrow> (\<exists>ev. ev_type ev = PERF_RECORD_SAMPLE \<and>
     quiet (let s = take_sample i ev st in s\<lparr>heap := min_heap_sift_down (less_than s) (heap s) 0\<rparr>) st')"

definition popped :: "order_state \<Rightarrow> order_state \<Rightarrow> bool" where
  "popped st st' \<longleftrightarrow> quiet (st\<lparr>heap := snd (min_heap_pop (less_than st) (heap st))\<rparr>) st'"

definition proc_emit :: "nat \<Rightarrow> perf_event option \<Rightarrow> order_state \<Rightarrow> order_state" where
  "proc_emit i proc st =
     (case proc of
        None \<Rightarrow> st
      | Some ev \<Rightarrow> emit (Record (he_dev (srcs st i)) (ev_bytes ev) (he_ins (srcs st i)) (ev_in_copy ev) False) st)"

lemma quiet_proc_emit: "ev_type ev \<noteq> PERF_RECORD_SAMPLE \<Longrightarrow> quiet st (proc_emit i (Some ev) st)"
  by (simp add: proc_emit_def ev_type_def quiet_emit)

lemmas advance_induct = advance.raw_induct [rotated, consumes 1, case_names step]

lemma advance_result:
  assumes "advance M tg i proc nb lost st = Some y"
  shows "\<exists>s. quiet (proc_emit i proc st) s \<and> (took i s (snd (snd y)) \<or> popped s (snd (snd y)))"
  using assms
proof (induction rule: advance_induct)
  case (step adv M tg i proc nb lost st y)
  obtain nb' lost' st' where y: "y = (nb', lost', st')" by (cases y) auto
  define st1 where "st1 = proc_emit i proc st"
  define st2 where "st2 = (if wants_consume i st1 then consume M i st1 else st1)"
  define hit where "hit \<longleftrightarrow> target_map tg = Some i \<and> start (map_of_src st2 i) = target_end tg"
  define st3 where "st3 = (if hit then st2\<lparr>break_reason := ORDER_BREAK_TARGET_MAP\<rparr> else st2)"
  obtain ev st4 where rd: "read_next M i st3 = (ev, st4)" by fastforce
  have q2: "quiet st1 st2" unfolding st2_def by simp
  have q3: "quiet st2 st3" unfolding st3_def by simp
  have q4: "quiet st1 st4" using q2 q3 quiet_read_next [OF rd] quiet_trans by blast
  have d: "he_dev (srcs st i) = he_dev (srcs st1 i)" "he_ins (srcs st i) = he_ins (srcs st1 i)"
    unfolding st1_def by (auto simp: proc_emit_def emit_def split: option.splits)
  have body: "(case read_next M i st3 of
           (Some ev, st4) \<Rightarrow>
             if ev_type ev \<noteq> PERF_RECORD_SAMPLE then
               let st5 = count_lost (he_dev (srcs st i)) ev st4 in
               if ev_type ev = PERF_RECORD_LOST \<and> od_has_lost (devs st5 (he_dev (srcs st i)))
               then adv M tg i None (nb \<or> hit) (lost_of (ev_bytes ev)) st5
               else adv M tg i (Some ev) (nb \<or> hit) lost st5
             else
               let st5 = take_sample i ev st4;
                   st6 = st5\<lparr>heap := min_heap_sift_down (less_than st5) (heap st5) 0\<rparr>;
                   (lost', st7) = report_lost i lost st6
               in Some (nb \<or> hit, lost', st7)
         | (None, st4) \<Rightarrow>
             let st5 = read_done M i st4;
                 st6 = st5\<lparr>heap := snd (min_heap_pop (less_than st5) (heap st5))\<rparr>
             in Some (nb \<or> hit, lost, prof_dev_put (he_dev (srcs st i)) st6)) = Some (nb', lost', st')"
    using step(2) unfolding y Let_def st1_def st2_def st3_def hit_def proc_emit_def .
  show ?case
  proof (cases ev)
    case None
    let ?s5 = "read_done M i st4"
    have "popped ?s5 st'"
      using body rd None unfolding popped_def by (auto simp: Let_def)
    moreover have "quiet st1 ?s5" using q4 quiet_read_done quiet_trans by blast
    ultimately show ?thesis unfolding st1_def y snd_conv by blast
  next
    case (Some e)
    show ?thesis
    proof (cases "ev_type e = PERF_RECORD_SAMPLE")
      case True
      define s6 where "s6 = (let s = take_sample i e st4 in s\<lparr>heap := min_heap_sift_down (less_than s) (heap s) 0\<rparr>)"
      have "st' = snd (report_lost i lost s6)"
        using body rd Some True unfolding s6_def by (auto simp: Let_def split: prod.splits)
      then have "quiet s6 st'" using quiet_report_lost by simp
      then have "took i st4 st'" unfolding took_def s6_def using True by blast
      then show ?thesis using q4 unfolding st1_def y snd_conv by blast
    next
      case False
      let ?s5 = "count_lost (he_dev (srcs st i)) e st4"
      have q5: "quiet st1 ?s5" using q4 quiet_count_lost quiet_trans by blast
      let ?keep = "ev_type e = PERF_RECORD_LOST \<and> od_has_lost (devs ?s5 (he_dev (srcs st i)))"
      define p where "p = (if ?keep then None else Some e)"
      define l where "l = (if ?keep then lost_of (ev_bytes e) else lost)"
      have p: "p = None \<or> p = Some e" unfolding p_def by simp
      have "(if ?keep then adv M tg i None (nb \<or> hit) (lost_of (ev_bytes e)) ?s5
             else adv M tg i (Some e) (nb \<or> hit) lost ?s5) = Some (nb', lost', st')"
        using body unfolding rd Some prod.case option.case Let_def if_P [OF False] .
      then have a: "adv M tg i p (nb \<or> hit) l ?s5 = Some (nb', lost', st')"
        unfolding p_def l_def by (cases ?keep) (simp_all only: simp_thms if_True if_False)
      obtain s where s: "quiet (proc_emit i p ?s5) s" "took i s st' \<or> popped s st'"
        using step(1) [OF a] unfolding snd_conv by (elim exE conjE)
      have "quiet ?s5 (proc_emit i p ?s5)"
        using p quiet_proc_emit [OF False] by (auto simp: proc_emit_def)
      then show ?thesis using q5 s quiet_trans unfolding st1_def y snd_conv by blast
    qed
  qed
qed

end
