(* ===== verification/Order_Sorted.thy ===== *)
theory Order_Sorted
  imports Order
begin

text \<open>
  The order of delivery, for \<open>src/order.c\<close> without stream sources: the samples that
  \<open>order_process\<close> hands to the profilers carry non-decreasing times, whatever the kernel
  writes into the rings meanwhile, and no event is counted as unordered.
\<close>

interpretation time_heap: heap_order "less_than st" for st
  by unfold_locales (auto simp: less_than_def)

section \<open>Invariant of the sort\<close>

definition heads :: "order_state \<Rightarrow> nat list" where
  "heads st = take (nr (heap st)) (hdata (heap st))"

text \<open>The time of the event in hand is the one its bytes carry, when they reach that far.\<close>

definition hand_ok :: "order_state \<Rightarrow> nat \<Rightarrow> bool" where
  "hand_ok st i \<longleftrightarrow>
     (let he = srcs st i; off = time_off st (he_dev he); bs = ev_bytes (he_event he)
      in off + 8 \<le> length bs \<longrightarrow> u64_at bs off = he_time he)"

definition mono_ok :: "order_state \<Rightarrow> bool" where
  "mono_ok st \<longleftrightarrow> (\<forall>j. me_mono (srcs st j) \<le> popped_time st)"

definition ahead :: "order_state \<Rightarrow> nat \<Rightarrow> bool" where
  "ahead st i \<longleftrightarrow> popped_time st \<le> he_time (srcs st i) \<or> me_mono (srcs st i) = popped_time st"

definition sort_inv :: "order_state \<Rightarrow> bool" where
  "sort_inv st \<longleftrightarrow>
     nr_streams st = 0 \<and> heap_wf (heap st) \<and> distinct (heads st) \<and> mono_ok st \<and>
     (\<forall>i\<in>set (heads st). he_type (srcs st i) = PERF_MMAP_EVENT \<and> hand_ok st i \<and> ahead st i)"

definition heap_inv :: "order_state \<Rightarrow> bool" where
  "heap_inv st \<longleftrightarrow> heap_ok (less_than st) 0 (nr (heap st)) (hdata (heap st))"

text \<open>
  The times of a log of samples, of the records that are long enough to hold one, and
  what is maintained of them.
\<close>

definition log_times :: "(nat \<Rightarrow> nat) \<Rightarrow> order_output list \<Rightarrow> u64 list" where
  "log_times tp l = map (out_time tp) (filter (out_fits tp) l)"

definition log_ok :: "(nat \<Rightarrow> nat) \<Rightarrow> u64 \<Rightarrow> u64 \<Rightarrow> order_output list \<Rightarrow> bool" where
  "log_ok tp lo hi l \<longleftrightarrow> sorted (log_times tp l) \<and> (\<forall>t\<in>set (log_times tp l). lo \<le> t \<and> t \<le> hi)"

lemma log_ok_Nil [simp]: "log_ok tp lo hi []"
  by (simp add: log_ok_def log_times_def)

lemma log_ok_append:
  assumes "log_ok tp lo hi l" "hi \<le> hi'" "lo \<le> hi'" "out_fits tp x \<longrightarrow> out_time tp x = hi'"
  shows "log_ok tp lo hi' (l @ [x])"
  using assms unfolding log_ok_def log_times_def by (auto simp: sorted_append intro: order_trans)

lemma log_ok_mono: "log_ok tp lo hi l \<Longrightarrow> hi \<le> hi' \<Longrightarrow> log_ok tp lo hi' l"
  unfolding log_ok_def by (auto intro: order_trans)

lemma quiet_time_off: "quiet st st' \<Longrightarrow> time_off st' = time_off st"
  by (simp add: quiet_def cfg_eq_def time_off_def fun_eq_iff)

lemma cfg_time_off: "cfg_eq st st' \<Longrightarrow> time_off st' = time_off st"
  by (simp add: cfg_eq_def time_off_def fun_eq_iff)

lemma quiet_fields:
  assumes "quiet st st'"
  shows "heads st' = heads st" "popped_time st' = popped_time st" "slog st' = slog st"
    "heap st' = heap st" "nr_streams st' = nr_streams st"
    "he_time (srcs st' j) = he_time (srcs st j)" "me_mono (srcs st' j) = me_mono (srcs st j)"
    "he_event (srcs st' j) = he_event (srcs st j)" "he_type (srcs st' j) = he_type (srcs st j)"
    "he_dev (srcs st' j) = he_dev (srcs st j)" "main st' = main st" "tree st' = tree st"
    "od_sources (devs st' d) = od_sources (devs st d)"
  using assms by (simp_all add: quiet_def cfg_eq_def hands_eq_def heads_def)

lemma quiet_cfg: "quiet st st' \<Longrightarrow> cfg_eq st st'"
  by (simp add: quiet_def)

lemma quiet_sort_inv: "quiet st st' \<Longrightarrow> sort_inv st \<Longrightarrow> sort_inv st'"
  by (simp add: sort_inv_def hand_ok_def mono_ok_def ahead_def quiet_fields quiet_time_off Let_def)

lemma quiet_less_than: "quiet st st' \<Longrightarrow> less_than st' = less_than st"
  by (simp add: less_than_def fun_eq_iff quiet_fields)

lemma quiet_heap_inv: "quiet st st' \<Longrightarrow> heap_inv st \<Longrightarrow> heap_inv st'"
  by (simp add: heap_inv_def quiet_less_than quiet_fields)

section \<open>Fixing a time\<close>

lemma u64_at_put_fits:
  assumes "off + 8 \<le> length (put_u64 bs off v)" shows "u64_at (put_u64 bs off v) off = v"
proof -
  have "off \<le> length bs" using assms by (auto simp: put_u64_def)
  then have "take 8 (drop off (put_u64 bs off v)) = le_bytes 8 (unat v)" by (simp add: put_u64_def)
  moreover have "unat v mod 256 ^ 8 = unat v" using unsigned_less [of v, where ?'a = nat] by simp
  ultimately show ?thesis unfolding u64_at_def by (simp only: le_nat_le_bytes) simp
qed

text \<open>What \<open>perf_mmap_fix_out_of_order\<close> and \<open>keep_mono\<close> do, in terms of the invariant.\<close>

lemma fix_fields:
  fixes st i t defines "st' \<equiv> perf_mmap_fix_out_of_order i t st"
  shows "cfg_eq st st'" "heap st' = heap st" "trace st' = trace st" "popped_time st' = popped_time st"
    "he_time (srcs st' i) = t" "me_mono (srcs st' j) = me_mono (srcs st j)"
    "j \<noteq> i \<Longrightarrow> srcs st' j = srcs st j"
  by (simp_all add: st'_def perf_mmap_fix_out_of_order_def Let_def upd_dev_def upd_src_def cfg_eq_def
      popped_time_def)

lemma fix_hand_ok:
  assumes "nr_streams st = 0" shows "hand_ok (perf_mmap_fix_out_of_order i t st) i"
proof -
  let ?st' = "perf_mmap_fix_out_of_order i t st" and ?off = "time_off st (he_dev (srcs st i))"
  have "ev_bytes (he_event (srcs ?st' i)) = put_u64 (ev_bytes (he_event (srcs st i))) ?off t"
    using assms by (simp add: perf_mmap_fix_out_of_order_def Let_def upd_dev_def upd_src_def heapclock_to_perfclock_def)
  moreover have "time_off ?st' (he_dev (srcs ?st' i)) = ?off"
    using cfg_time_off [OF fix_fields(1), of i t st] fix_fields(1) [of st i t] by (simp add: cfg_eq_def)
  ultimately show ?thesis
    unfolding hand_ok_def Let_def using u64_at_put_fits fix_fields(5) [of i t st] by simp
qed

section \<open>The heap after its root changed\<close>

text \<open>The order holds everywhere but between the root and its children.\<close>

definition below :: "order_state \<Rightarrow> bool" where
  "below st \<longleftrightarrow> (\<forall>k. 0 < k \<longrightarrow> k < nr (heap st) \<longrightarrow> par k \<noteq> 0 \<longrightarrow>
     \<not> less_than st (hdata (heap st) ! k) (hdata (heap st) ! par k))"

definition root_is :: "order_state \<Rightarrow> nat \<Rightarrow> bool" where
  "root_is st i \<longleftrightarrow> 0 < nr (heap st) \<and> hdata (heap st) ! 0 = i"

lemma heap_wf_len: "heap_wf h \<Longrightarrow> nr h \<le> length (hdata h)"
  by (simp add: heap_wf_def)

lemma root_in_heads: "root_is st i \<Longrightarrow> heap_wf (heap st) \<Longrightarrow> i \<in> set (heads st)"
  unfolding root_is_def heads_def using heap_wf_len [of "heap st"]
  by (auto simp: in_set_conv_nth intro!: exI [of _ 0])

lemma nth_in_heads: "heap_wf (heap st) \<Longrightarrow> k < nr (heap st) \<Longrightarrow> hdata (heap st) ! k \<in> set (heads st)"
  unfolding heads_def using heap_wf_len [of "heap st"] by (auto simp: in_set_conv_nth)

lemma nonroot_neq:
  assumes "root_is st i" "heap_wf (heap st)" "distinct (heads st)" "0 < k" "k < nr (heap st)"
  shows "hdata (heap st) ! k \<noteq> i"
proof -
  have "heads st ! k \<noteq> heads st ! 0"
    using assms heap_wf_len [OF assms(2)] by (subst nth_eq_iff_index_eq) (auto simp: heads_def root_is_def)
  then show ?thesis using assms by (simp add: heads_def root_is_def)
qed

lemma below_change:
  assumes "root_is st i" "heap_wf (heap st)" "distinct (heads st)" "below st" "heap st' = heap st"
    and "\<And>j. j \<noteq> i \<Longrightarrow> he_time (srcs st' j) = he_time (srcs st j)"
  shows "below st'"
  unfolding below_def
proof (intro allI impI)
  fix k assume k: "0 < k" "k < nr (heap st')" "par k \<noteq> 0"
  have "par k < nr (heap st)" using par_lt [OF k(1)] k(2) assms(5) by simp
  then have "hdata (heap st) ! k \<noteq> i" "hdata (heap st) ! par k \<noteq> i"
    using nonroot_neq [OF assms(1-3)] k assms(5) by auto
  moreover have "\<not> less_than st (hdata (heap st) ! k) (hdata (heap st) ! par k)"
    using assms(4,5) k unfolding below_def by simp
  ultimately show "\<not> less_than st' (hdata (heap st') ! k) (hdata (heap st') ! par k)"
    using assms(5,6) by (simp add: less_than_def)
qed

lemma heap_inv_below: "heap_inv st \<Longrightarrow> below st"
  by (simp add: heap_inv_def heap_ok_def below_def)

lemma quiet_below: "quiet st st' \<Longrightarrow> below st = below st'"
  by (simp add: below_def quiet_less_than quiet_fields)

lemma quiet_root: "quiet st st' \<Longrightarrow> root_is st i = root_is st' i"
  by (simp add: root_is_def quiet_fields)

lemma sift_inv:
  assumes inv: "sort_inv st" and b: "below st" and r: "root_is st i"
  defines "st' \<equiv> st\<lparr>heap := min_heap_sift_down (less_than st) (heap st) 0\<rparr>"
  shows "sort_inv st' \<and> heap_inv st' \<and> set (heads st') = set (heads st)"
proof -
  have wf: "heap_wf (heap st)" using inv by (simp add: sort_inv_def)
  have lt: "less_than st' = less_than st" by (simp add: st'_def less_than_def fun_eq_iff)
  have c: "heap_wf (heap st')" "heap_ok (less_than st) 0 (nr (heap st)) (hdata (heap st'))"
    "mset (heads st') = mset (heads st)"
    using time_heap.sift_root_correct [OF wf, of st] r b
    by (auto simp: st'_def root_is_def below_def heap_elems_def heads_def)
  have set: "set (heads st') = set (heads st)" using c(3) by (metis set_mset_mset)
  moreover have "distinct (heads st')" using inv c(3) by (metis mset_eq_imp_distinct_iff sort_inv_def)
  moreover have "nr (heap st') = nr (heap st)" by (simp add: st'_def min_heap_sift_down_def)
  ultimately show ?thesis
    using inv c(1,2) lt unfolding sort_inv_def heap_inv_def
    by (simp add: st'_def hand_ok_def mono_ok_def ahead_def time_off_def popped_time_def Let_def)
qed

lemma pop_inv:
  assumes inv: "sort_inv st" and b: "below st" and r: "root_is st i"
  defines "st' \<equiv> st\<lparr>heap := snd (min_heap_pop (less_than st) (heap st))\<rparr>"
  shows "sort_inv st' \<and> heap_inv st'"
proof -
  have wf: "heap_wf (heap st)" using inv by (simp add: sort_inv_def)
  have lt: "less_than st' = less_than st" by (simp add: st'_def less_than_def fun_eq_iff)
  obtain ok h' where p: "min_heap_pop (less_than st) (heap st) = (ok, h')" by fastforce
  have h': "heap st' = h'" by (simp add: st'_def p)
  have c: "heap_wf h'" "heap_ok (less_than st) 0 (nr h') (hdata h')"
    "heap_elems (heap st) = add_mset (hdata (heap st) ! 0) (heap_elems h')"
    using time_heap.pop_root_correct [OF wf _ _ p] r b by (auto simp: root_is_def below_def)
  have m: "mset (heads st) = add_mset (hdata (heap st) ! 0) (mset (heads st'))"
    using c(3) by (simp add: heads_def heap_elems_def h')
  have "set (heads st') \<subseteq> set (heads st)" using m by (metis set_mset_mset set_mset_add_mset_insert subset_insertI)
  moreover have "distinct (heads st')"
  proof -
    have "mset (heads st) = mset (hdata (heap st) ! 0 # heads st')" using m by simp
    then have "distinct (hdata (heap st) ! 0 # heads st')"
      using inv mset_eq_imp_distinct_iff unfolding sort_inv_def by blast
    then show ?thesis by simp
  qed
  ultimately show ?thesis
    using inv c(1,2) lt unfolding sort_inv_def heap_inv_def h'
    by (auto simp: st'_def hand_ok_def mono_ok_def ahead_def time_off_def popped_time_def Let_def)
qed

section \<open>One iteration keeps the invariant\<close>

lemma keep_mono_fields:
  fixes st i defines "st' \<equiv> keep_mono i st"
  shows "cfg_eq st st'" "heap st' = heap st" "trace st' = trace st" "popped_time st' = popped_time st"
    "me_mono (srcs st' i) = he_time (srcs st' i)"
    "he_time (srcs st' i) = max (he_time (srcs st i)) (me_mono (srcs st i))"
    "j \<noteq> i \<Longrightarrow> srcs st' j = srcs st j"
proof -
  let ?he = "srcs st i"
  have "cfg_eq st st' \<and> heap st' = heap st \<and> trace st' = trace st \<and> popped_time st' = popped_time st \<and>
    me_mono (srcs st' i) = he_time (srcs st' i) \<and> he_time (srcs st' i) = max (he_time ?he) (me_mono ?he) \<and>
    (j \<noteq> i \<longrightarrow> srcs st' j = srcs st j)"
  proof (cases "he_time ?he < me_mono ?he")
    case True
    then have "st' = perf_mmap_fix_out_of_order i (me_mono ?he) st"
      by (simp add: st'_def keep_mono_def Let_def)
    then show ?thesis using True fix_fields [where st = st and i = i and t = "me_mono ?he"] by (simp add: max_def less_imp_le)
  next
    case False
    then show ?thesis
      by (simp add: st'_def keep_mono_def Let_def upd_src_def cfg_eq_def popped_time_def max_def)
  qed
  then show "cfg_eq st st'" "heap st' = heap st" "trace st' = trace st" "popped_time st' = popped_time st"
    "me_mono (srcs st' i) = he_time (srcs st' i)"
    "he_time (srcs st' i) = max (he_time (srcs st i)) (me_mono (srcs st i))"
    "j \<noteq> i \<Longrightarrow> srcs st' j = srcs st j" by auto
qed

lemma keep_mono_hand_ok:
  assumes "nr_streams st = 0" "hand_ok st i" shows "hand_ok (keep_mono i st) i"
proof (cases "he_time (srcs st i) < me_mono (srcs st i)")
  case True
  then show ?thesis using fix_hand_ok [OF assms(1)] by (simp add: keep_mono_def Let_def)
next
  case False
  then show ?thesis using assms(2) by (simp add: keep_mono_def Let_def upd_src_def hand_ok_def time_off_def)
qed

lemma pop_account_fields:
  assumes "popped_time st \<le> t"
  shows "cfg_eq st (pop_account d t ins st)" "heap (pop_account d t ins st) = heap st"
    "trace (pop_account d t ins st) = trace st" "popped_time (pop_account d t ins st) = t"
    "srcs (pop_account d t ins st) = srcs st"
  using assms by (auto simp: pop_account_def Let_def upd_dev_def cfg_eq_def popped_time_def not_less)

lemma cfg_hand_ok: "cfg_eq st st' \<Longrightarrow> srcs st' j = srcs st j \<Longrightarrow> hand_ok st' j = hand_ok st j"
  by (simp add: hand_ok_def cfg_time_off)

text \<open>
  The event at the root is accounted: it carries a time not before the one reached, all
  other sources stay ahead of it.
\<close>

lemma account_step:
  assumes inv: "sort_inv st" "heap_inv st" and r: "root_is st i"
  defines "st2 \<equiv> keep_mono i st"
  defines "st3 \<equiv> pop_account (he_dev (srcs st2 i)) (he_time (srcs st2 i)) (he_ins (srcs st2 i)) st2"
  shows "sort_inv st3" "below st3" "root_is st3 i" "me_mono (srcs st3 i) = popped_time st3"
    "popped_time st \<le> popped_time st3" "he_time (srcs st3 i) = popped_time st3"
    "cfg_eq st st3" "trace st3 = trace st" "srcs st3 i = srcs st2 i"
proof -
  let ?t = "he_time (srcs st2 i)" and ?he = "srcs st i" and ?P = "popped_time st"
  have wf: "heap_wf (heap st)" and dis: "distinct (heads st)" and ns: "nr_streams st = 0"
    and mono: "\<And>j. me_mono (srcs st j) \<le> ?P"
    and hd: "\<And>j. j \<in> set (heads st) \<Longrightarrow> he_type (srcs st j) = PERF_MMAP_EVENT \<and> hand_ok st j \<and> ahead st j"
    using inv(1) by (auto simp: sort_inv_def mono_ok_def)
  have i: "i \<in> set (heads st)" by (rule root_in_heads [OF r wf])
  note k = keep_mono_fields [where st = st and i = i, folded st2_def]
  have P: "?P \<le> ?t"
    using hd [OF i] mono [of i] unfolding ahead_def k(6) by (auto simp: max_def)
  note a = pop_account_fields [of st2 ?t "he_dev (srcs st2 i)" "he_ins (srcs st2 i)", unfolded k(4), OF P, folded st3_def]
  show cfg: "cfg_eq st st3" using k(1) a(1) by (rule cfg_eq_trans)
  have heap: "heap st3 = heap st" "heads st3 = heads st" using k(2) a(2) by (simp_all add: heads_def)
  show "trace st3 = trace st" "srcs st3 i = srcs st2 i" using k(3) a(3,5) by simp_all
  have src: "srcs st3 j = srcs st j" if "j \<noteq> i" for j using k(7) [OF that] a(5) by simp
  show "root_is st3 i" using r heap by (simp add: root_is_def)
  show "he_time (srcs st3 i) = popped_time st3" using a(4,5) by simp
  show m: "me_mono (srcs st3 i) = popped_time st3" using a(4,5) k(5) by simp
  show P3: "?P \<le> popped_time st3" using P a(4) by simp
  show "below st3" by (rule below_change [OF r wf dis heap_inv_below [OF inv(2)] heap(1)]) (simp add: src)
  have hand: "hand_ok st3 i"
    using keep_mono_hand_ok [OF ns, of i] hd [OF i] cfg_hand_ok [OF a(1)] a(5) by (simp add: st2_def)
  have oth: "ahead st3 j" if j: "j \<in> set (heads st)" "j \<noteq> i" for j
  proof (cases "he_time ?he < me_mono ?he")
    case True
    then have "?P = popped_time st3" using hd [OF i] mono [of i] a(4) k(6) by (auto simp: ahead_def)
    then show ?thesis using hd [OF j(1)] src [OF j(2)] by (simp add: ahead_def)
  next
    case False
    obtain n where "n < nr (heap st)" "j = hdata (heap st) ! n"
      using j(1) unfolding heads_def by (auto simp: in_set_conv_nth)
    then have "\<not> less_than st j i"
      using time_heap.heap_root_least inv(2) r unfolding heap_inv_def root_is_def by metis
    then show ?thesis using False a(4) k(6) src [OF j(2)] by (simp add: less_than_def ahead_def max_def not_less)
  qed
  have "he_type (srcs st3 j) = PERF_MMAP_EVENT \<and> hand_ok st3 j \<and> ahead st3 j" if j: "j \<in> set (heads st)" for j
    using hd [OF j] oth [OF j] hand m cfg cfg_hand_ok [OF cfg src, of j] by (cases "j = i") (auto simp: ahead_def cfg_eq_def)
  moreover have "mono_ok st3"
    unfolding mono_ok_def using mono P3 src m by (metis order_refl order_trans)
  ultimately show "sort_inv st3"
    using ns wf dis cfg unfolding sort_inv_def heap by (simp add: cfg_eq_def)
qed

lemma emit_sort_inv: "sort_inv st \<Longrightarrow> sort_inv (emit x st)"
  by (simp add: sort_inv_def emit_def heads_def hand_ok_def mono_ok_def ahead_def popped_time_def time_off_def Let_def)

lemma emit_fields:
  "heap (emit x st) = heap st" "srcs (emit x st) = srcs st" "popped_time (emit x st) = popped_time st"
  "cfg_eq st (emit x st)"
  by (simp_all add: emit_def popped_time_def cfg_eq_def)

lemma emit_below: "below (emit x st) = below st"
  by (simp add: below_def emit_def less_than_def)

lemma take_sample_fields:
  fixes st i ev defines "st' \<equiv> take_sample i ev st"
  shows "cfg_eq st st'" "heap st' = heap st" "trace st' = trace st" "popped_time st' = popped_time st"
    "me_mono (srcs st' j) = me_mono (srcs st j)" "j \<noteq> i \<Longrightarrow> srcs st' j = srcs st j"
  by (simp_all add: st'_def take_sample_def upd_src_def cfg_eq_def popped_time_def)

lemma take_sample_hand_ok: "nr_streams st = 0 \<Longrightarrow> hand_ok (take_sample i ev st) i"
  by (simp add: hand_ok_def take_sample_def upd_src_def heapclock_def time_off_def Let_def)

lemma took_inv:
  assumes inv: "sort_inv st" "below st" and r: "root_is st i" and m: "me_mono (srcs st i) = popped_time st"
    and t: "took i st st'"
  shows "sort_inv st' \<and> heap_inv st' \<and> cfg_eq st st' \<and> popped_time st' = popped_time st \<and> slog st' = slog st"
proof -
  obtain ev where q: "quiet (let s = take_sample i ev st in
      s\<lparr>heap := min_heap_sift_down (less_than s) (heap s) 0\<rparr>) st'" using t by (auto simp: took_def)
  define s where "s = take_sample i ev st"
  define s' where "s' = s\<lparr>heap := min_heap_sift_down (less_than s) (heap s) 0\<rparr>"
  note f = take_sample_fields [where st = st and i = i and ev = ev, folded s_def]
  have wf: "heap_wf (heap st)" "distinct (heads st)" using inv(1) by (auto simp: sort_inv_def)
  have b: "below s" by (rule below_change [OF r wf inv(2) f(2)]) (simp add: f(6))
  have hds: "heads s = heads st" using f(2) by (simp add: heads_def)
  have "he_type (srcs s j) = PERF_MMAP_EVENT \<and> hand_ok s j \<and> ahead s j" if j: "j \<in> set (heads st)" for j
  proof (cases "j = i")
    case True
    then show ?thesis
      using inv(1) j m f(1,4,5) take_sample_hand_ok [of st i ev] unfolding s_def sort_inv_def
      by (auto simp: ahead_def cfg_eq_def)
  next
    case False
    then show ?thesis using inv(1) j f(4,6) cfg_hand_ok [OF f(1)] by (simp add: sort_inv_def ahead_def)
  qed
  then have "sort_inv s"
    using inv(1) hds f unfolding sort_inv_def by (simp add: mono_ok_def cfg_eq_def)
  moreover have "root_is s i" using r f(2) by (simp add: root_is_def)
  ultimately have "sort_inv s'" "heap_inv s'" using sift_inv b unfolding s'_def by blast+
  moreover have "quiet s' st'" using q unfolding s_def s'_def Let_def .
  moreover have "cfg_eq st s'" "popped_time s' = popped_time st" "slog s' = slog st"
    using f unfolding s'_def by (simp_all add: cfg_eq_def popped_time_def slog_def)
  ultimately show ?thesis
    using quiet_sort_inv quiet_heap_inv quiet_cfg cfg_eq_trans quiet_fields(2,3) by metis
qed

lemma popped_inv:
  assumes inv: "sort_inv st" "below st" and r: "root_is st i" and t: "popped st st'"
  shows "sort_inv st' \<and> heap_inv st' \<and> cfg_eq st st' \<and> popped_time st' = popped_time st \<and> slog st' = slog st"
proof -
  define s' where "s' = st\<lparr>heap := snd (min_heap_pop (less_than st) (heap st))\<rparr>"
  have "sort_inv s'" "heap_inv s'" using pop_inv [OF inv r] unfolding s'_def by blast+
  moreover have "quiet s' st'" using t unfolding popped_def s'_def .
  moreover have "cfg_eq st s'" "popped_time s' = popped_time st" "slog s' = slog st"
    unfolding s'_def by (simp_all add: cfg_eq_def popped_time_def slog_def)
  ultimately show ?thesis
    using quiet_sort_inv quiet_heap_inv quiet_cfg cfg_eq_trans quiet_fields(2,3) by metis
qed

text \<open>An iteration from the account on: invariant, log and configuration.\<close>

lemma iteration_inv:
  assumes inv: "sort_inv st" "heap_inv st" and r: "root_is st i" and tp: "time_off st = tp"
    and log: "log_ok tp lo (popped_time st) l" "lo \<le> popped_time st" "slog st = l0 @ l"
  defines "st2 \<equiv> keep_mono i st"
  defines "st3 \<equiv> pop_account (he_dev (srcs st2 i)) (he_time (srcs st2 i)) (he_ins (srcs st2 i)) st2"
  assumes a: "advance M tg i (Some ((he_event (srcs st2 i))\<lparr>ev_in_copy := he_writable (srcs st2 i)\<rparr>)) False lost st3 =
      Some (nb, lost', st4)"
  shows "\<exists>l'. sort_inv st4 \<and> heap_inv st4 \<and> cfg_eq st st4 \<and> slog st4 = l0 @ l' \<and>
     log_ok tp lo (popped_time st4) l' \<and> lo \<le> popped_time st4"
proof -
  note acc = account_step [OF inv r, folded st2_def, folded st3_def]
  let ?x = "Record (he_dev (srcs st3 i)) (ev_bytes (he_event (srcs st3 i))) (he_ins (srcs st3 i))
     (he_writable (srcs st2 i)) False"
  define s0 where "s0 = emit ?x st3"
  have "proc_emit i (Some ((he_event (srcs st2 i))\<lparr>ev_in_copy := he_writable (srcs st2 i)\<rparr>)) st3 = s0"
    using acc(9) by (simp add: proc_emit_def s0_def)
  then obtain s where s: "quiet s0 s" "took i s st4 \<or> popped s st4"
    using advance_result [OF a] by auto
  have s0: "sort_inv s0" "below s0" "root_is s0 i" "me_mono (srcs s0 i) = popped_time s0"
    "popped_time s0 = popped_time st3" "cfg_eq st3 s0"
    unfolding s0_def using emit_sort_inv [OF acc(1)] acc(2-4) by (simp_all add: emit_below root_is_def emit_fields)
  have si: "sort_inv s" "below s" "root_is s i" "me_mono (srcs s i) = popped_time s"
    using s0 s(1) quiet_sort_inv quiet_below quiet_root quiet_fields(2,7) by metis+
  have fin: "sort_inv st4" "heap_inv st4" "cfg_eq s st4" "popped_time st4 = popped_time s" "slog st4 = slog s"
    using s(2) took_inv [OF si] popped_inv [OF si(1-3)] by auto
  have P4: "popped_time st4 = popped_time st3" using fin(4) quiet_fields(2) [OF s(1)] s0(5) by simp
  have cfg: "cfg_eq st st4"
    using acc(7) s0(6) quiet_cfg [OF s(1)] fin(3) cfg_eq_trans by blast
  have tp3: "time_off st3 = tp" using cfg_time_off [OF acc(7)] tp by simp
  have hand: "hand_ok st3 i"
    using acc(1,3) root_in_heads unfolding sort_inv_def by blast
  define l' where "l' = (if is_sample ?x then l @ [?x] else l)"
  have "slog s0 = l0 @ l'"
    using acc(8) log(3) by (simp add: slog_def s0_def emit_def l'_def)
  then have "slog st4 = l0 @ l'" using fin(5) quiet_fields(3) [OF s(1)] by simp
  moreover have "log_ok tp lo (popped_time st4) l'"
  proof (cases "is_sample ?x")
    case True
    have "out_fits tp ?x \<longrightarrow> out_time tp ?x = popped_time st3"
      using hand tp3 acc(6) by (simp add: hand_ok_def Let_def)
    then have "log_ok tp lo (popped_time st3) (l @ [?x])"
      using log(1,2) acc(5) by (intro log_ok_append) auto
    then show ?thesis unfolding P4 l'_def if_P [OF True] .
  next
    case False
    show ?thesis unfolding P4 l'_def if_not_P [OF False] using log_ok_mono [OF log(1) acc(5)] .
  qed
  ultimately show ?thesis using fin(1,2) cfg log(2) acc(5) P4 by (metis order_trans)
qed

section \<open>The whole sort\<close>

lemmas order_loop_induct = order_loop.raw_induct [rotated, consumes 1, case_names step]

text \<open>What a run keeps, from a state \<open>st\<close> to a later one.\<close>

definition run_ok :: "u64 \<Rightarrow> order_output list \<Rightarrow> order_state \<Rightarrow> order_state \<Rightarrow> bool" where
  "run_ok lo l0 st st' \<longleftrightarrow> cfg_eq st st' \<and> mono_ok st' \<and> lo \<le> popped_time st' \<and> heap_wf (heap st') \<and>
     (\<exists>l'. slog st' = l0 @ l' \<and> log_ok (time_off st) lo (popped_time st') l')"

lemma order_loop_run:
  assumes "order_loop M tg lost st = Some st'"
    and "sort_inv st" "heap_inv st" "log_ok (time_off st) lo (popped_time st) l" "lo \<le> popped_time st"
      "slog st = l0 @ l"
  shows "run_ok lo l0 st st'"
  using assms
proof (induction arbitrary: l rule: order_loop_induct)
  case (step loop M tg lost st st')
  have here: "run_ok lo l0 st s" if "quiet st s" for s
    using that step.prems(1,3-5) quiet_cfg [OF that]
    unfolding run_ok_def sort_inv_def mono_ok_def by (auto simp: quiet_fields)
  show ?case
  proof (cases "min_heap_peek (heap st)")
    case None
    then show ?thesis using step.hyps here [OF quiet_break] by auto
  next
    case (Some i)
    then have r: "root_is st i" by (auto simp: min_heap_peek_def root_is_def split: if_splits)
    then have ty: "he_type (srcs st i) \<noteq> STREAM_EVENT"
      using step.prems(1) root_in_heads unfolding sort_inv_def by (metis heap_type.distinct(1))
    show ?thesis
    proof (cases "target_time tg < he_time (srcs st i)")
      case True
      then show ?thesis using step.hyps Some ty here [OF quiet_break] by auto
    next
      case False
      obtain go st1 where p: "predict_lost M i st = (go, st1)" by fastforce
      define s where "s = end_pause M i st1"
      have q1: "quiet st st1" by (rule quiet_predict_lost [OF p])
      then have q: "quiet st s" using quiet_trans quiet_end_pause unfolding s_def by blast
      show ?thesis
      proof (cases go)
        case False
        then show ?thesis using step.hyps Some ty \<open>\<not> target_time tg < _\<close> p here [OF q1] by simp
      next
        case go: True
        define st2 where "st2 = keep_mono i s"
        define st3 where "st3 = pop_account (he_dev (srcs st2 i)) (he_time (srcs st2 i)) (he_ins (srcs st2 i)) st2"
        define ev where "ev = (he_event (srcs st2 i))\<lparr>ev_in_copy := he_writable (srcs st2 i)\<rparr>"
        have body: "(case advance M tg i (Some ev) False lost st3 of
            None \<Rightarrow> None | Some (nb, lost', st4) \<Rightarrow> if nb then Some st4 else loop M tg lost' st4) = Some st'"
          using step.hyps Some ty False p go unfolding ev_def st3_def st2_def s_def by (simp add: Let_def)
        then obtain nb lost' st4 where a: "advance M tg i (Some ev) False lost st3 = Some (nb, lost', st4)"
          by (auto split: option.splits)
        have "\<exists>l'. sort_inv st4 \<and> heap_inv st4 \<and> cfg_eq s st4 \<and> slog st4 = l0 @ l' \<and>
            log_ok (time_off st) lo (popped_time st4) l' \<and> lo \<le> popped_time st4"
        proof (rule iteration_inv [where i = i and l = l and M = M and tg = tg])
          show "sort_inv s" "heap_inv s" "root_is s i"
            using q step.prems(1,2) r quiet_sort_inv quiet_heap_inv quiet_root by blast+
          show "time_off s = time_off st" by (rule quiet_time_off [OF q])
          show "log_ok (time_off st) lo (popped_time s) l" "lo \<le> popped_time s" "slog s = l0 @ l"
            using step.prems(3-5) q by (simp_all add: quiet_fields)
        qed (rule a [unfolded ev_def st3_def st2_def])
        then obtain l' where l': "sort_inv st4" "heap_inv st4" "cfg_eq s st4" "slog st4 = l0 @ l'"
          "log_ok (time_off st) lo (popped_time st4) l'" "lo \<le> popped_time st4" by blast
        have cfg: "cfg_eq st st4" using quiet_cfg [OF q] l'(3) cfg_eq_trans by blast
        have tp: "time_off st4 = time_off st" by (rule cfg_time_off [OF cfg])
        show ?thesis
        proof (cases nb)
          case True
          then have "st' = st4" using body a by simp
          then show ?thesis using l' cfg unfolding run_ok_def sort_inv_def by blast
        next
          case False
          then have "loop M tg lost' st4 = Some st'" using body a by simp
          then have "run_ok lo l0 st4 st'" using step.IH l' tp by metis
          then show ?thesis using cfg tp cfg_eq_trans unfolding run_ok_def by metis
        qed
      qed
    qed
  qed
qed

section \<open>Filling the heap\<close>

lemmas mmap_init_loop_induct = mmap_init_loop.raw_induct [rotated, consumes 1, case_names step]

lemma mmap_init_loop_result:
  assumes "mmap_init_loop M i lost st = Some y"
  shows "\<exists>s. quiet st s \<and> (if fst y then \<exists>ev. snd (snd y) = take_sample i ev s else snd (snd y) = s)"
  using assms
proof (induction rule: mmap_init_loop_induct)
  case (step loop M i lost st y)
  obtain ev st1 where rd: "read_next M i st = (ev, st1)" by fastforce
  have q1: "quiet st st1" by (rule quiet_read_next [OF rd])
  show ?case
  proof (cases ev)
    case None
    then have "y = (False, lost, read_done M i st1)" using step.hyps rd by simp
    then show ?thesis using quiet_trans [OF q1 quiet_read_done] by auto
  next
    case (Some e)
    show ?thesis
    proof (cases "ev_type e = PERF_RECORD_SAMPLE")
      case True
      then have "y = (True, lost, take_sample i e st1)" using step.hyps rd Some by (simp add: Let_def)
      then show ?thesis using q1 by auto
    next
      case False
      define d where "d = he_dev (srcs st1 i)"
      define st2 where "st2 = count_lost d e st1"
      define keep where "keep \<longleftrightarrow> ev_type e = PERF_RECORD_LOST \<and> od_has_lost (devs st2 d)"
      define st3 where "st3 = (if keep then st2
        else emit (Record d (ev_bytes e) (he_ins (srcs st1 i)) (ev_in_copy e) False) st2)"
      have l: "loop M i (if keep then lost_of (ev_bytes e) else lost) (consume M i st3) = Some y"
        using step.hyps unfolding rd Some prod.case option.case Let_def if_P [OF False]
          d_def st2_def keep_def st3_def .
      have q3: "quiet st2 st3" using False by (simp add: st3_def ev_type_def quiet_emit)
      have q2: "quiet st st2" unfolding st2_def by (rule quiet_trans [OF q1 quiet_count_lost])
      have qc: "quiet st (consume M i st3)"
        by (rule quiet_trans [OF quiet_trans [OF q2 q3] quiet_consume])
      obtain s where s: "quiet (consume M i st3) s"
        "if fst y then \<exists>ev. snd (snd y) = take_sample i ev s else snd (snd y) = s"
        using step.IH [OF l] by (elim exE conjE)
      show ?thesis by (intro exI [of _ s] conjI quiet_trans [OF qc s(1)] s(2))
    qed
  qed
qed

text \<open>Initialising a ring: nothing in hand, or a sample not before the time reached.\<close>

lemma mmap_event_init_result:
  assumes "perf_mmap_event_init M i st = Some (b, st')" "nr_streams st = 0"
  shows "cfg_eq st st'" "heap st' = heap st" "slog st' = slog st" "popped_time st' = popped_time st"
    "me_mono (srcs st' j) = me_mono (srcs st j)"
    "j \<noteq> i \<Longrightarrow> he_time (srcs st' j) = he_time (srcs st j) \<and> he_event (srcs st' j) = he_event (srcs st j)"
    "b \<Longrightarrow> hand_ok st' i \<and> popped_time st' \<le> he_time (srcs st' i)"
proof -
  define st1 where "st1 = sync M i st"
  obtain res mp where ri: "perf_mmap__read_init (map_of_src st1 i) = Some (res, mp)"
    using assms(1) by (auto simp: perf_mmap_event_init_def Let_def st1_def split: option.splits)
  define st2 where "st2 = set_map i mp st1"
  have q2: "quiet st st2" unfolding st2_def st1_def by (rule quiet_trans [OF quiet_sync quiet_set_map])
  have "\<exists>s. quiet st s \<and> (st' = s \<and> \<not> b \<or>
     (\<exists>ev st4. b \<and> quiet st4 st' \<and> st4 = (let t = take_sample i ev s in
         if he_time (srcs t i) < popped_time t then perf_mmap_fix_out_of_order i (popped_time t) t else t)))"
  proof (cases "res = Ready")
    case False
    then have "st' = st2" "\<not> b"
      using assms(1) ri unfolding perf_mmap_event_init_def Let_def st2_def st1_def by auto
    then show ?thesis using q2 by blast
  next
    case True
    obtain c lost st3 where l: "mmap_init_loop M i no_lost st2 = Some (c, lost, st3)"
      using assms(1) ri True unfolding perf_mmap_event_init_def Let_def st2_def st1_def
      by (auto split: option.splits)
    obtain s where s: "quiet st2 s" "if c then \<exists>ev. st3 = take_sample i ev s else st3 = s"
      using mmap_init_loop_result [OF l] unfolding fst_conv snd_conv by (elim exE conjE)
    have qs: "quiet st s" by (rule quiet_trans [OF q2 s(1)])
    show ?thesis
    proof (cases c)
      case False
      then have "st' = st3 \<and> \<not> b"
        using assms(1) ri True l unfolding perf_mmap_event_init_def Let_def st2_def st1_def by simp
      then show ?thesis using False s(2) qs by auto
    next
      case c: True
      then obtain ev where ev: "st3 = take_sample i ev s" using s(2) by auto
      define st4 where "st4 = (if he_time (srcs st3 i) < popped_time st3
         then perf_mmap_fix_out_of_order i (popped_time st3) st3 else st3)"
      have "b" "st' = (if lost_lost lost \<noteq> 0
          then emit (Lost (he_dev (srcs st4 i)) (lost_id lost) (lost_lost lost) (he_ins (srcs st4 i))
             (heapclock_to_evclock st4 (me_mono (srcs st4 i))) (heapclock_to_evclock st4 (he_time (srcs st4 i)))) st4
          else st4)"
        using assms(1) ri True l c unfolding perf_mmap_event_init_def Let_def st2_def st1_def st4_def by simp_all
      then have "b" "quiet st4 st'" by (simp_all add: quiet_emit)
      then show ?thesis using qs ev unfolding st4_def Let_def by blast
    qed
  qed
  then obtain s where s: "quiet st s" and alt: "st' = s \<and> \<not> b \<or>
     (\<exists>ev st4. b \<and> quiet st4 st' \<and> st4 = (let t = take_sample i ev s in
         if he_time (srcs t i) < popped_time t then perf_mmap_fix_out_of_order i (popped_time t) t else t))" by blast
  have "cfg_eq st st' \<and> heap st' = heap st \<and> slog st' = slog st \<and> popped_time st' = popped_time st \<and>
    (\<forall>j. me_mono (srcs st' j) = me_mono (srcs st j)) \<and>
    (\<forall>j. j \<noteq> i \<longrightarrow> he_time (srcs st' j) = he_time (srcs st j) \<and> he_event (srcs st' j) = he_event (srcs st j)) \<and>
    (b \<longrightarrow> hand_ok st' i \<and> popped_time st' \<le> he_time (srcs st' i))"
  proof (cases b)
    case False
    then show ?thesis using alt s quiet_cfg [OF s] by (auto simp: quiet_fields)
  next
    case True
    then obtain ev st4 where q4: "quiet st4 st'" and st4: "st4 = (let t = take_sample i ev s in
         if he_time (srcs t i) < popped_time t then perf_mmap_fix_out_of_order i (popped_time t) t else t)"
      using alt by blast
    define t where "t = take_sample i ev s"
    have ns: "nr_streams s = 0" using assms(2) quiet_fields(5) [OF s] by simp
    note f = take_sample_fields [where st = s and i = i and ev = ev, folded t_def]
    have nt: "nr_streams t = 0" "slog t = slog s" using ns f(1,3) by (simp_all add: cfg_eq_def slog_def)
    have ht: "hand_ok t i" using take_sample_hand_ok [OF ns] by (simp add: t_def)
    note g = fix_fields [where st = t and i = i and t = "popped_time t"]
    have 4: "cfg_eq t st4" "heap st4 = heap t" "slog st4 = slog t" "popped_time st4 = popped_time t"
      "\<And>j. me_mono (srcs st4 j) = me_mono (srcs t j)" "\<And>j. j \<noteq> i \<Longrightarrow> srcs st4 j = srcs t j"
      "hand_ok st4 i" "popped_time st4 \<le> he_time (srcs st4 i)"
      using g ht fix_hand_ok [OF nt(1)] unfolding st4 Let_def t_def [symmetric]
      by (auto simp: slog_def)
    have "hand_ok st' i" using 4(7) q4 by (simp add: hand_ok_def quiet_fields quiet_time_off Let_def)
    moreover have "cfg_eq st st'"
      using quiet_cfg [OF s] f(1) 4(1) quiet_cfg [OF q4] cfg_eq_trans by blast
    ultimately show ?thesis using True f 4 nt s q4 by (simp add: quiet_fields)
  qed
  then show "cfg_eq st st'" "heap st' = heap st" "slog st' = slog st" "popped_time st' = popped_time st"
    "me_mono (srcs st' j) = me_mono (srcs st j)"
    "j \<noteq> i \<Longrightarrow> he_time (srcs st' j) = he_time (srcs st j) \<and> he_event (srcs st' j) = he_event (srcs st j)"
    "b \<Longrightarrow> hand_ok st' i \<and> popped_time st' \<le> he_time (srcs st' i)" by blast+
qed

definition fill_inv :: "order_state \<Rightarrow> bool" where
  "fill_inv st \<longleftrightarrow>
     nr_streams st = 0 \<and> heap_wf (heap st) \<and> distinct (heads st) \<and> mono_ok st \<and>
     (\<forall>i\<in>set (heads st). he_type (srcs st i) = PERF_MMAP_EVENT \<and> hand_ok st i \<and>
        popped_time st \<le> he_time (srcs st i))"

lemma fill_sort_inv: "fill_inv st \<Longrightarrow> sort_inv st"
  by (simp add: fill_inv_def sort_inv_def ahead_def)

text \<open>What filling keeps: the configuration, the log and the time reached.\<close>

definition fill_ok :: "order_state \<Rightarrow> order_state \<Rightarrow> bool" where
  "fill_ok st st' \<longleftrightarrow> fill_inv st' \<and> cfg_eq st st' \<and> slog st' = slog st \<and> popped_time st' = popped_time st"

lemma fill_ok_refl: "fill_inv st \<Longrightarrow> fill_ok st st"
  by (simp add: fill_ok_def)

lemma fill_ok_trans: "fill_ok a b \<Longrightarrow> fill_ok b c \<Longrightarrow> fill_ok a c"
  unfolding fill_ok_def using cfg_eq_trans by metis

lemma heap_append_storage:
  assumes "heap_append M d i st = Some st'" "heap_wf (heap st)" "0 < od_heap_size (devs st d)"
  shows "heap_wf (heap st')" "heads st' = heads st @ [i]" "cfg_eq st st'" "srcs st' = srcs st"
    "trace st' = trace st" "popped_time st' = popped_time st"
proof -
  let ?h = "heap st" and ?g = "od_heap_size (devs st d)"
  define st1 where "st1 = (if nr ?h = hsize ?h then
      upd_dev (main st) (\<lambda>x. x\<lparr>od_heap_size := hsize ?h + ?g\<rparr>)
        (tick (st\<lparr>heap := ?h\<lparr>hsize := hsize ?h + ?g, hdata := hdata ?h @ replicate ?g 0\<rparr>\<rparr>)) else st)"
  have st': "st' = prof_dev_get (he_dev (srcs st1 i))
      (st1\<lparr>heap := (heap st1)\<lparr>nr := nr (heap st1) + 1, hdata := (hdata (heap st1))[nr (heap st1) := i]\<rparr>\<rparr>)"
    using assms(1) unfolding heap_append_def Let_def st1_def by (auto split: if_splits)
  have len: "nr (heap st1) = nr ?h" "nr ?h < length (hdata (heap st1))" "length (hdata (heap st1)) = hsize (heap st1)"
    "take (nr ?h) (hdata (heap st1)) = take (nr ?h) (hdata ?h)"
    using assms(2,3) by (auto simp: st1_def upd_dev_def tick_def heap_wf_def)
  have h': "heap st' = (heap st1)\<lparr>nr := nr ?h + 1, hdata := (hdata (heap st1))[nr ?h := i]\<rparr>"
    using len(1) by (simp add: st' prof_dev_get_def upd_dev_def)
  show "heap_wf (heap st')" using len by (simp add: h' heap_wf_def)
  show "heads st' = heads st @ [i]" using len by (simp add: h' heads_def take_Suc_conv_app_nth)
  show "cfg_eq st st'" "srcs st' = srcs st" "trace st' = trace st" "popped_time st' = popped_time st"
    using assms(3)
    by (auto simp: st' st1_def prof_dev_get_def upd_dev_def tick_def cfg_eq_def popped_time_def)
qed

lemma heap_append_fill:
  assumes a: "heap_append M d i st = Some st'" and g: "0 < od_heap_size (devs st d)"
    and inv: "fill_inv st" and i: "i \<notin> set (heads st)" "he_type (srcs st i) = PERF_MMAP_EVENT"
      "hand_ok st i" "popped_time st \<le> he_time (srcs st i)"
  shows "fill_ok st st'" "set (heads st') = insert i (set (heads st))"
proof -
  have wf: "heap_wf (heap st)" using inv by (simp add: fill_inv_def)
  note h = heap_append_storage [OF a wf g]
  show "set (heads st') = insert i (set (heads st))" using h(2) by simp
  have "hand_ok st' j = hand_ok st j" for j by (rule cfg_hand_ok [OF h(3)]) (simp add: h(4))
  then have "fill_inv st'"
    using inv i h unfolding fill_inv_def by (auto simp: mono_ok_def cfg_eq_def)
  then show "fill_ok st st'" using h by (simp add: fill_ok_def slog_def)
qed

lemma event_init_fill:
  assumes e: "perf_mmap_event_init M i st = Some (b, st')" and inv: "fill_inv st" and i: "i \<notin> set (heads st)"
  shows "fill_ok st st'" "heads st' = heads st" "b \<Longrightarrow> hand_ok st' i \<and> popped_time st' \<le> he_time (srcs st' i)"
proof -
  have ns: "nr_streams st = 0" using inv by (simp add: fill_inv_def)
  note r = mmap_event_init_result [OF e ns]
  show hd: "heads st' = heads st" using r(2) by (simp add: heads_def)
  have "hand_ok st' j = hand_ok st j" if "j \<noteq> i" for j
    using r(1) r(6) [OF that] cfg_time_off [OF r(1)] by (simp add: hand_ok_def cfg_eq_def Let_def)
  then have "he_type (srcs st' j) = PERF_MMAP_EVENT \<and> hand_ok st' j \<and> popped_time st' \<le> he_time (srcs st' j)"
    if "j \<in> set (heads st)" for j
    using that i inv r(1,4) r(6) [of j] by (cases "j = i") (auto simp: fill_inv_def cfg_eq_def)
  then have "fill_inv st'"
    using inv r(1,2,4,5) unfolding fill_inv_def hd by (auto simp: mono_ok_def cfg_eq_def)
  then show "fill_ok st st'" using r by (simp add: fill_ok_def)
  show "b \<Longrightarrow> hand_ok st' i \<and> popped_time st' \<le> he_time (srcs st' i)" using r(7) by blast
qed

lemma heap_init_list_fill:
  assumes "heap_init_list M d is st = Some (ret, st')" "fill_inv st" "0 < od_heap_size (devs st d)"
    and "distinct is" "set is \<inter> set (heads st) = {}" "\<forall>i\<in>set is. he_type (srcs st i) = PERF_MMAP_EVENT"
  shows "fill_ok st st' \<and> set (heads st') \<subseteq> set (heads st) \<union> set is"
  using assms
proof (induction "is" arbitrary: st)
  case Nil
  then show ?case using fill_ok_refl by simp
next
  case (Cons i "is")
  have i: "i \<notin> set (heads st)" "he_type (srcs st i) = PERF_MMAP_EVENT" using Cons.prems by auto
  obtain b st1 where e: "perf_mmap_event_init M i st = Some (b, st1)"
    using Cons.prems(1) i(2) by (auto simp: Let_def split: option.splits)
  note f = event_init_fill [OF e Cons.prems(2) i(1)]
  have f1: "fill_inv st1" "cfg_eq st st1" using f(1) by (auto simp: fill_ok_def)
  have rest: "fill_ok s st' \<and> set (heads st') \<subseteq> set (heads s) \<union> set is"
    if "heap_init_list M d is s = Some (ret, st')" "fill_ok st s" "set (heads s) \<subseteq> insert i (set (heads st))" for s
  proof (rule Cons.IH [OF that(1)])
    have s: "fill_inv s" "cfg_eq st s" using that(2) by (auto simp: fill_ok_def)
    show "fill_inv s" "0 < od_heap_size (devs s d)" using s Cons.prems(3) by (simp_all add: cfg_eq_def)
    show "distinct is" "set is \<inter> set (heads s) = {}" using Cons.prems(4,5) that(3) by auto
    show "\<forall>i\<in>set is. he_type (srcs s i) = PERF_MMAP_EVENT" using Cons.prems(6) s(2) by (simp add: cfg_eq_def)
  qed
  show ?case
  proof (cases b)
    case False
    then have "heap_init_list M d is st1 = Some (ret, st')" using Cons.prems(1) i(2) e by (simp add: Let_def)
    then have "fill_ok st1 st' \<and> set (heads st') \<subseteq> set (heads st1) \<union> set is"
      using rest [of st1] f(1,2) by auto
    then show ?thesis using fill_ok_trans [OF f(1), of st'] f(2) by auto
  next
    case True
    have g: "0 < od_heap_size (devs st1 d)" using Cons.prems(3) f1(2) by (simp add: cfg_eq_def)
    show ?thesis
    proof (cases "heap_append M d i st1")
      case None
      then have "st' = tick st1" using Cons.prems(1) i(2) e True by (simp add: Let_def)
      then have q: "quiet st1 st'" by simp
      have "hand_ok st' = hand_ok st1"
        using q by (simp add: fun_eq_iff hand_ok_def quiet_fields quiet_time_off Let_def)
      then have "fill_inv st'" using f1(1) q by (simp add: fill_inv_def mono_ok_def quiet_fields)
      then have "fill_ok st1 st'" using q quiet_cfg [OF q] by (simp add: fill_ok_def quiet_fields)
      then have "fill_ok st st'" by (rule fill_ok_trans [OF f(1)])
      then show ?thesis using f(2) q by (auto simp: quiet_fields)
    next
      case (Some s)
      have ty: "he_type (srcs st1 i) = PERF_MMAP_EVENT" "i \<notin> set (heads st1)"
        using i f1(2) f(2) by (simp_all add: cfg_eq_def)
      have a: "fill_ok st1 s" "set (heads s) = insert i (set (heads st1))"
        using heap_append_fill [OF Some g f1(1) ty(2,1)] f(3) [OF True] by auto
      have "heap_init_list M d is s = Some (ret, st')" using Cons.prems(1) i(2) e True Some by (simp add: Let_def)
      moreover have sa: "fill_ok st s" by (rule fill_ok_trans [OF f(1) a(1)])
      ultimately have "fill_ok s st' \<and> set (heads st') \<subseteq> set (heads s) \<union> set is"
        using rest [of s] a(2) f(2) by auto
      then show ?thesis using fill_ok_trans [OF sa, of st'] a(2) f(2) by auto
    qed
  qed
qed

text \<open>The devices of a tree in the order in which they are visited, and their sources.\<close>

fun tree_devs :: "dev_tree \<Rightarrow> nat list" where
  "tree_devs (Dev d cs) = d # concat (map tree_devs cs)"

definition all_sources :: "(nat \<Rightarrow> order_dev) \<Rightarrow> nat list \<Rightarrow> nat list" where
  "all_sources dv ds = concat (map (\<lambda>d. od_sources (dv d)) ds)"

definition sources_ok :: "order_state \<Rightarrow> nat list \<Rightarrow> bool" where
  "sources_ok st ds \<longleftrightarrow> distinct (all_sources (devs st) ds) \<and>
     (\<forall>i\<in>set (all_sources (devs st) ds). he_type (srcs st i) = PERF_MMAP_EVENT) \<and>
     (\<forall>d\<in>set ds. 0 < od_heap_size (devs st d))"

lemma all_sources_simps [simp]:
  "all_sources dv [] = []" "all_sources dv (d # ds) = od_sources (dv d) @ all_sources dv ds"
  "all_sources dv (ds @ ds') = all_sources dv ds @ all_sources dv ds'"
  by (simp_all add: all_sources_def)

lemma cfg_all_sources: "cfg_eq st st' \<Longrightarrow> all_sources (devs st') ds = all_sources (devs st) ds"
  by (simp add: all_sources_def cfg_eq_def)

lemma cfg_sources_ok: "cfg_eq st st' \<Longrightarrow> sources_ok st ds \<Longrightarrow> sources_ok st' ds"
  unfolding sources_ok_def by (simp add: cfg_all_sources) (simp add: cfg_eq_def)

lemma sources_ok_append:
  "sources_ok st (ds @ ds') \<longleftrightarrow> sources_ok st ds \<and> sources_ok st ds' \<and>
     set (all_sources (devs st) ds) \<inter> set (all_sources (devs st) ds') = {}"
  by (auto simp: sources_ok_def)

text \<open>The two phases of filling compose when they draw on disjoint sources.\<close>

definition fills :: "(order_state \<Rightarrow> (int \<times> order_state) option) \<Rightarrow> nat list \<Rightarrow> bool" where
  "fills f ds \<longleftrightarrow> (\<forall>st ret st'. f st = Some (ret, st') \<longrightarrow> fill_inv st \<longrightarrow> sources_ok st ds \<longrightarrow>
     set (all_sources (devs st) ds) \<inter> set (heads st) = {} \<longrightarrow>
     fill_ok st st' \<and> set (heads st') \<subseteq> set (heads st) \<union> set (all_sources (devs st) ds))"

lemma fills_seq:
  assumes f: "fills f ds" and g: "fills g ds'"
    and h: "\<And>st. h st = (case f st of None \<Rightarrow> None
              | Some (ret, st1) \<Rightarrow> if ret \<noteq> 0 then Some (ret, st1) else g st1)"
  shows "fills h (ds @ ds')"
  unfolding fills_def
proof (intro allI impI)
  fix st ret st'
  assume 1: "h st = Some (ret, st')" and inv: "fill_inv st" and ok: "sources_ok st (ds @ ds')"
    and dj: "set (all_sources (devs st) (ds @ ds')) \<inter> set (heads st) = {}"
  obtain r st1 where r: "f st = Some (r, st1)" using 1 unfolding h by (auto split: option.splits)
  have a: "fill_ok st st1" "set (heads st1) \<subseteq> set (heads st) \<union> set (all_sources (devs st) ds)"
    using f r inv ok dj unfolding fills_def sources_ok_append by (metis Int_Un_distrib2 Un_empty all_sources_simps(3) set_append)+
  have cfg: "cfg_eq st st1" using a(1) by (simp add: fill_ok_def)
  show "fill_ok st st' \<and> set (heads st') \<subseteq> set (heads st) \<union> set (all_sources (devs st) (ds @ ds'))"
  proof (cases "r = 0")
    case False
    then show ?thesis using 1 r a unfolding h by auto
  next
    case True
    then have g1: "g st1 = Some (ret, st')" using 1 r unfolding h by simp
    have "sources_ok st1 ds'" "set (all_sources (devs st1) ds') \<inter> set (heads st1) = {}"
      using ok dj a(2) cfg_sources_ok [OF cfg] cfg_all_sources [OF cfg] unfolding sources_ok_append by auto
    then have "fill_ok st1 st' \<and> set (heads st') \<subseteq> set (heads st1) \<union> set (all_sources (devs st1) ds')"
      using g g1 a(1) unfolding fills_def fill_ok_def by metis
    then show ?thesis using a fill_ok_trans cfg_all_sources [OF cfg] by auto
  qed
qed

lemma heap_init_list_fills: "fills (\<lambda>st. heap_init_list M d (od_sources (devs st d)) st) [d]"
  unfolding fills_def using heap_init_list_fill by (auto simp: sources_ok_def)

lemma order_heap_init_children_fills:
  "(\<And>t. t \<in> set ts \<Longrightarrow> fills (order_heap_init M t) (tree_devs t)) \<Longrightarrow>
   fills (order_heap_init_children M ts) (concat (map tree_devs ts))"
proof (induction ts)
  case Nil
  then show ?case by (simp add: fills_def fill_ok_refl)
next
  case (Cons t ts)
  then have "fills (order_heap_init M t) (tree_devs t)"
    "fills (order_heap_init_children M ts) (concat (map tree_devs ts))" by simp_all
  then have "fills (order_heap_init_children M (t # ts)) (tree_devs t @ concat (map tree_devs ts))"
    by (rule fills_seq) simp
  then show ?case by (simp only: list.map concat.simps)
qed

lemma order_heap_init_fills: "fills (order_heap_init M t) (tree_devs t)"
proof (induction t)
  case (Dev d cs)
  then have "fills (order_heap_init_children M cs) (concat (map tree_devs cs))"
    by (rule order_heap_init_children_fills)
  with heap_init_list_fills have "fills (order_heap_init M (Dev d cs)) ([d] @ concat (map tree_devs cs))"
    by (rule fills_seq) simp
  then show ?case by (simp only: tree_devs.simps append.simps)
qed

section \<open>Putting back and the theorem\<close>

lemma order_stop_keeps:
  "cfg_eq st (order_stop M n st) \<and> slog (order_stop M n st) = slog st \<and>
   popped_time (order_stop M n st) = popped_time st \<and>
   (\<forall>j. me_mono (srcs (order_stop M n st) j) = me_mono (srcs st j)) \<and>
   (n \<le> hsize (heap st) \<longrightarrow> heap_wf (heap st) \<longrightarrow> heap_wf (heap (order_stop M n st)))"
proof (induction n arbitrary: st)
  case (Suc n)
  define st1 where "st1 = st\<lparr>heap := (heap st)\<lparr>nr := n\<rparr>\<rparr>"
  define i where "i = hdata (heap st1) ! n"
  define st2 where "st2 = (case he_type (srcs st1 i) of
      PERF_MMAP_EVENT \<Rightarrow>
        consume M i (set_map i (perf_mmap__unread_event (me_map (srcs st1 i)) (Some (he_event (srcs st1 i)))) st1)
    | STREAM_EVENT \<Rightarrow> upd_src i (\<lambda>h. h\<lparr>he_unconsumed := True\<rparr>) st1)"
  define st3 where "st3 = prof_dev_put (he_dev (srcs st1 i)) st2"
  have e: "order_stop M (Suc n) st = order_stop M n st3"
    by (simp only: order_stop.simps Let_def st3_def st2_def i_def st1_def)
  have "quiet st1 st2"
    unfolding st2_def by (auto intro: quiet_trans [OF quiet_set_map quiet_consume] quiet_upd_src split: heap_type.split)
  then have q: "quiet st1 st3" unfolding st3_def using quiet_trans quiet_dev_put by blast
  have 1: "cfg_eq st st1" "slog st1 = slog st" "popped_time st1 = popped_time st" "srcs st1 = srcs st"
    by (simp_all add: st1_def cfg_eq_def slog_def popped_time_def)
  have 3: "cfg_eq st st3" "heap st3 = heap st1" using 1(1) quiet_cfg [OF q] cfg_eq_trans quiet_fields(4) [OF q] by auto
  have "n \<le> hsize (heap st) \<Longrightarrow> heap_wf (heap st) \<Longrightarrow> n \<le> hsize (heap st3) \<and> heap_wf (heap st3)"
    unfolding 3(2) by (simp add: st1_def heap_wf_def)
  moreover have "cfg_eq st (order_stop M n st3)" using 3(1) Suc.IH [of st3] cfg_eq_trans by blast
  ultimately show ?case
    using Suc.IH [of st3] q 1 unfolding e by (simp add: quiet_fields)
qed simp

lemma order_finish_run:
  assumes "run_ok lo l0 st0 st" shows "run_ok lo l0 st0 (order_finish M st)"
proof -
  define s where "s = order_stop M (nr (heap st)) st"
  have wf: "heap_wf (heap st)" using assms by (simp add: run_ok_def)
  then have k: "cfg_eq st s" "slog s = slog st" "popped_time s = popped_time st"
    "\<And>j. me_mono (srcs s j) = me_mono (srcs st j)" "heap_wf (heap s)"
    using order_stop_keeps [of st M "nr (heap st)"] unfolding s_def by (auto simp: heap_wf_def)
  have q: "quiet s (order_finish M st)"
    unfolding order_finish_def Let_def s_def [symmetric]
    by (rule quiet_trans [OF _ quiet_dev_put]) (simp add: quiet_defs)
  have "cfg_eq st0 (order_finish M st)"
    using assms k(1) quiet_cfg [OF q] cfg_eq_trans unfolding run_ok_def by blast
  then show ?thesis using assms k q unfolding run_ok_def mono_ok_def by (simp add: quiet_fields)
qed

text \<open>The states between two calls: no streams, disjoint ring sources, times in the past.\<close>

definition order_ok :: "order_state \<Rightarrow> bool" where
  "order_ok st \<longleftrightarrow> nr_streams st = 0 \<and> heap_wf (heap st) \<and> sources_ok st (tree_devs (tree st)) \<and>
     (\<forall>j. me_mono (srcs st j) \<le> popped_time st)"

lemma quiet_inprocess: "quiet st (st\<lparr>inprocess := b\<rparr>)"
  by (simp add: quiet_defs)

lemma order_run_ok:
  assumes run: "order_run M tg st = Some st'" and ok: "order_ok st"
  shows "run_ok (popped_time st) (slog st) st st'"
proof -
  define st0 where "st0 = st\<lparr>heap := (heap st)\<lparr>nr := 0\<rparr>\<rparr>"
  have 0: "fill_inv st0" "sources_ok st0 (tree_devs (tree st0))" "heads st0 = []"
    using ok by (auto simp: st0_def order_ok_def fill_inv_def heap_wf_def heads_def mono_ok_def
        popped_time_def sources_ok_def)
  have c0: "cfg_eq st st0" "slog st0 = slog st" "popped_time st0 = popped_time st"
    by (simp_all add: st0_def cfg_eq_def slog_def popped_time_def)
  obtain ret st1 where i: "order_heap_init M (tree st0) st0 = Some (ret, st1)"
    using run by (auto simp: order_run_def Let_def st0_def split: option.splits)
  have f: "fill_ok st0 st1" using order_heap_init_fills i 0 unfolding fills_def by fastforce
  then have 1: "fill_inv st1" "cfg_eq st st1" "slog st1 = slog st" "popped_time st1 = popped_time st"
    using c0 cfg_eq_trans by (auto simp: fill_ok_def)
  show ?thesis
  proof (cases "ret = 0")
    case False
    then have e: "st' = order_finish M st1" using run i by (simp add: order_run_def Let_def st0_def)
    have "run_ok (popped_time st) (slog st) st st1"
      using 1 unfolding run_ok_def fill_inv_def by auto
    then show ?thesis unfolding e by (rule order_finish_run)
  next
    case True
    define s where "s = st1\<lparr>heap := min_heapify_all (less_than st1) (heap st1)\<rparr>"
    obtain s2 where l: "order_loop M tg no_lost s = Some s2" and e: "st' = order_finish M s2"
      using run i True by (auto simp: order_run_def Let_def st0_def s_def)
    have wf: "heap_wf (heap st1)" using 1(1) by (simp add: fill_inv_def)
    have h: "heap_wf (heap s)" "mset (heads s) = mset (heads st1)" "less_than s = less_than st1"
      "heap_ok (less_than st1) 0 (nr (heap s)) (hdata (heap s))"
      using time_heap.heapify_correct [OF wf, of st1]
      by (auto simp: s_def heap_elems_def heads_def less_than_def fun_eq_iff min_heapify_all_def)
    have hs: "set (heads s) = set (heads st1)" "distinct (heads s) = distinct (heads st1)"
      using h(2) by (metis set_mset_mset, metis mset_eq_imp_distinct_iff)
    have si: "sort_inv s"
      using fill_sort_inv [OF 1(1)] h(1) hs unfolding sort_inv_def
      by (simp add: s_def hand_ok_def mono_ok_def ahead_def popped_time_def time_off_def)
    have hi: "heap_inv s" using h(3,4) by (simp add: heap_inv_def)
    have c: "cfg_eq st s" "slog s = slog st @ []" "popped_time s = popped_time st"
      using 1(2-4) by (simp_all add: s_def cfg_eq_def slog_def popped_time_def)
    have "run_ok (popped_time st) (slog st) s s2"
      by (rule order_loop_run [OF l si hi _ _ c(2)]) (simp_all add: c(3))
    then have "run_ok (popped_time st) (slog st) st s2"
      using c(1) cfg_eq_trans cfg_time_off [OF c(1)] unfolding run_ok_def by metis
    then show ?thesis unfolding e by (rule order_finish_run)
  qed
qed

lemma run_ok_order_ok:
  "run_ok lo l0 st st' \<Longrightarrow> order_ok st \<Longrightarrow> order_ok st'"
  unfolding run_ok_def order_ok_def mono_ok_def using cfg_sources_ok [of st st' "tree_devs (tree st)"]
  by (auto simp: cfg_eq_def)

lemma quiet_run_ok: "quiet st s \<Longrightarrow> order_ok st \<Longrightarrow> run_ok (popped_time st) (slog st) st s"
  unfolding run_ok_def order_ok_def mono_ok_def by (auto simp: quiet_fields quiet_cfg)

lemma quiet_order_ok: "quiet st s \<Longrightarrow> order_ok st \<Longrightarrow> order_ok s"
  using quiet_run_ok run_ok_order_ok by blast

lemma order_process_run:
  assumes run: "order_process M tmap tm st = Some st'" and ok: "order_ok st"
  shows "run_ok (popped_time st) (slog st) st st'"
proof -
  have start: "run_ok (popped_time st) (slog st) st st'"
    if q: "quiet st s" and r: "order_run M tg ((prof_dev_get (main s) s)\<lparr>inprocess := True\<rparr>) = Some st'" for s tg
  proof -
    let ?s = "(prof_dev_get (main s) s)\<lparr>inprocess := True\<rparr>"
    have "quiet s ?s" by (rule quiet_trans [OF quiet_dev_get quiet_inprocess])
    then have q': "quiet st ?s" by (rule quiet_trans [OF q])
    have "run_ok (popped_time ?s) (slog ?s) ?s st'" by (rule order_run_ok [OF r quiet_order_ok [OF q' ok]])
    then show ?thesis
      using q' quiet_cfg [OF q'] cfg_eq_trans quiet_time_off [OF q'] unfolding run_ok_def
      by (metis quiet_fields(2,3))
  qed
  show ?thesis
  proof (cases "inprocess st")
    case True
    then show ?thesis using run quiet_run_ok [OF quiet_refl ok] by (simp add: order_process_def)
  next
    case False
    show ?thesis
    proof (cases tmap)
      case None
      then show ?thesis using run False start [OF quiet_refl] by (simp add: order_process_def Let_def)
    next
      case (Some i)
      define st1 where "st1 = sync M i st"
      obtain res mp where ri: "perf_mmap__read_init (map_of_src st1 i) = Some (res, mp)"
        using run False Some by (auto simp: order_process_def Let_def st1_def split: option.splits)
      define st2 where "st2 = set_map i mp st1"
      define st3 where "st3 = sync M i st2"
      have q2: "quiet st st2" unfolding st2_def st1_def by (rule quiet_trans [OF quiet_sync quiet_set_map])
      have q3: "quiet st st3" unfolding st3_def by (rule quiet_trans [OF q2 quiet_sync])
      have "st' = st2 \<or> st' = st3 \<or> (\<exists>tg. order_run M tg ((prof_dev_get (main st3) st3)\<lparr>inprocess := True\<rparr>) = Some st')"
        using run False Some ri unfolding order_process_def Let_def st1_def st2_def st3_def
        by (auto split: if_splits)
      then show ?thesis using quiet_run_ok [OF q2 ok] quiet_run_ok [OF q3 ok] start [OF q3] by blast
    qed
  qed
qed

section \<open>Two rings\<close>

definition ex_sample :: "nat \<Rightarrow> u8 list" where
  "ex_sample t = [9, 0, 0, 0, 0, 0, 16, 0] @ le_bytes 8 t"

definition ex_map :: "u8 list list \<Rightarrow> perf_mmap" where
  "ex_map rs = (let bs = concat rs in
     \<lparr>page = \<lparr>data_head = of_nat (length bs), data_tail = 0, aux_size = 0,
              ring = bs @ replicate (64 - length bs) 0\<rparr>,
      mapped = True, mmask = 63, fd = 3, refcnt = 2, prev = 0, start = 0, endp = 0,
      overwrite = False, flush = 0, event_copy = []\<rparr>)"

definition ex_src :: "u8 list list \<Rightarrow> heap_event" where
  "ex_src rs = \<lparr>he_type = PERF_MMAP_EVENT, he_dev = 0, he_event = \<lparr>ev_bytes = [], ev_in_copy = False\<rparr>,
     he_time = 0, he_ins = 0, he_writable = False, he_converted = False, he_unconsumed = False,
     me_map = ex_map rs, me_mono = 0, me_maybe_lost_end = 0, me_pause_start = 0, me_lost_pause = False,
     se_answers = [], se_pause_start = 0, se_empty_pause = False\<rparr>"

definition ex_dev :: order_dev where
  "ex_dev = \<lparr>od_time_pos = 0, od_has_lost = False, od_watermark = 0, od_popped_time = 0, od_heap_size = 2,
     od_sources = [0, 1], od_refs = 1, nr_unordered_events = 0, nr_fixed_events = 0, nr_lost = 0,
     nr_maybe_lost = 0, nr_maybe_lost_pause = 0, maybe_lost_pause_time = 0, nr_stream_pause = 0,
     stream_pause_time = 0\<rparr>"

definition ex_order :: order_state where
  "ex_order = \<lparr>main = 0, tree = Dev 0 [], devs = (\<lambda>d. ex_dev),
     srcs = (\<lambda>i. ex_src (if i = 0 then [ex_sample 5, ex_sample 9] else [ex_sample 7])),
     heap = \<lparr>nr = 0, hsize = 2, hdata = [0, 0]\<rparr>, conv = ex_conv\<lparr>need_conv := CONVERT_NONE\<rparr>,
     nr_streams = 0, popped_ins = 0, prev_lost_time = 0, inprocess = False,
     break_reason = ORDER_BREAK_NONE, trace = [], ticks = 0\<rparr>"

definition ex_machine :: machine where
  "ex_machine = \<lparr>kern = (\<lambda>t i pg. pg), ktime = (\<lambda>t. 0), mem_ok = (\<lambda>t. True)\<rparr>"

end
