(* ===== verification/Order_Ends.thy ===== *)
theory Order_Ends
  imports Order_Sorted
begin

text \<open>
  \<open>order_process\<close> returns: on a machine whose kernel does not write meanwhile every run
  of the sort ends, with ring buffers and streams alike. What decreases is the number of
  bytes still to be read and of answers still to come, over the sources in the heap, and
  the number of sources in the heap.
\<close>

section \<open>Pending input\<close>

definition pend :: "perf_mmap \<Rightarrow> nat" where
  "pend mp = unat ((if overwrite mp then endp mp else data_head (page mp)) - start mp)"

lemma diff32_le: "diff32 e s \<le> int (unat (e - s))"
proof -
  define x where "x = e - s"
  define y where "y = uint (ucast x :: u32)"
  have t: "take_bit 32 y \<le> y" unfolding y_def by (simp add: take_bit_int_less_eq_self_iff)
  have "sint (ucast x :: u32) = signed_take_bit 31 y" unfolding sint_uint y_def by simp
  also have "\<dots> \<le> y" using t by (simp add: signed_take_bit_eq_take_bit_minus)
  also have "y = take_bit 32 (uint x)" unfolding y_def by (simp add: unsigned_ucast_eq)
  also have "\<dots> \<le> uint x" by (simp add: take_bit_int_less_eq_self_iff)
  finally show ?thesis unfolding diff32_def x_def by simp
qed

lemma read_pend:
  assumes "perf_mmap__read mp s e = (ev, s', mp')"
  shows "mp' = mp\<lparr>event_copy := event_copy mp'\<rparr>" "unat (e - s') \<le> unat (e - s)"
    "ev \<noteq> None \<Longrightarrow> unat (e - s') < unat (e - s)"
proof -
  have "mp' = mp\<lparr>event_copy := event_copy mp'\<rparr> \<and> unat (e - s') \<le> unat (e - s) \<and>
    (ev \<noteq> None \<longrightarrow> unat (e - s') < unat (e - s))"
  proof (cases "ev = None \<and> s' = s")
    case True
    then show ?thesis using assms unfolding perf_mmap__read_def Let_def by (auto split: if_splits)
  next
    case False
    define sz where "sz = hdr_size (ring_at mp (unat s AND mmask mp))"
    have s: "8 \<le> sz" "int sz \<le> diff32 e s" "s' = s + of_nat sz" "mp' = mp\<lparr>event_copy := event_copy mp'\<rparr>"
      using assms False unfolding perf_mmap__read_def Let_def sz_def sizeof_header_def
      by (auto split: if_splits)
    have "int sz \<le> int (unat (e - s))" using s(2) diff32_le [of e s] by linarith
    then have le: "sz \<le> unat (e - s)" by (simp only: of_nat_le_iff)
    then have "unat (e - s) = sz + (unat (e - s) - sz)" by (simp only: le_add_diff_inverse)
    then have "unat (e - s') = unat (e - s) - sz" unfolding s(3) by (rule unat_minus_add)
    then show ?thesis using s le by auto
  qed
  then show "mp' = mp\<lparr>event_copy := event_copy mp'\<rparr>" "unat (e - s') \<le> unat (e - s)"
    "ev \<noteq> None \<Longrightarrow> unat (e - s') < unat (e - s)" by blast+
qed

lemma read_event_pend:
  assumes "perf_mmap__read_event mp = (ev, mp')"
  shows "pend mp' \<le> pend mp" "ev \<noteq> None \<Longrightarrow> pend mp' < pend mp" "mmask mp' = mmask mp"
proof -
  have "pend mp' \<le> pend mp \<and> (ev \<noteq> None \<longrightarrow> pend mp' < pend mp) \<and> mmask mp' = mmask mp"
  proof (cases "refcnt mp = 0")
    case True
    then show ?thesis using assms by (auto simp: perf_mmap__read_event_def)
  next
    case False
    define mp1 where "mp1 = (if overwrite mp then mp else mp\<lparr>endp := perf_mmap__read_head mp\<rparr>)"
    obtain e s' mp2 where r: "perf_mmap__read mp1 (start mp1) (endp mp1) = (e, s', mp2)" by (metis prod_cases3)
    have f: "e = ev" "mp' = (if overwrite mp2 then mp2\<lparr>start := s'\<rparr> else mp2\<lparr>start := s', prev := s'\<rparr>)"
      using assms False r unfolding perf_mmap__read_event_def Let_def mp1_def by (auto split: if_splits)
    obtain cp where mp2: "mp2 = mp1\<lparr>event_copy := cp\<rparr>" using read_pend(1) [OF r] by blast
    have "pend mp' = unat (endp mp1 - s')" "mmask mp' = mmask mp"
      unfolding f(2) mp2 pend_def mp1_def by (simp_all add: perf_mmap__read_head_def)
    moreover have "pend mp = unat (endp mp1 - start mp1)"
      by (simp add: pend_def mp1_def perf_mmap__read_head_def)
    ultimately show ?thesis using read_pend(2,3) [OF r] f(1) by simp
  qed
  then show "pend mp' \<le> pend mp" "ev \<noteq> None \<Longrightarrow> pend mp' < pend mp" "mmask mp' = mmask mp" by blast+
qed

lemma consume_pend [simp]: "pend (perf_mmap__consume mp) = pend mp" "mmask (perf_mmap__consume mp) = mmask mp"
  by (simp_all add: pend_def perf_mmap__consume_def perf_mmap__write_tail_def perf_mmap__put_def
      perf_mmap__munmap_def Let_def)

lemma read_done_pend [simp]:
  "pend (perf_mmap__read_done mp) = pend mp" "mmask (perf_mmap__read_done mp) = mmask mp"
  by (simp_all add: perf_mmap__read_done_def pend_def)

lemma read_init_mmask: "perf_mmap__read_init mp = Some (res, mp') \<Longrightarrow> mmask mp' = mmask mp"
  by (auto simp: perf_mmap__read_init_def perf_mmap__read_init_locked_def Let_def bind_eq_Some_conv
      split: if_splits)

definition input :: "order_state \<Rightarrow> nat \<Rightarrow> nat" where
  "input st j = pend (map_of_src st j) + length (se_answers (srcs st j)) + of_bool (he_unconsumed (srcs st j))"

definition masks_ok :: "order_state \<Rightarrow> bool" where
  "masks_ok st \<longleftrightarrow> (\<forall>j. mmask (map_of_src st j) + 1 \<le> 2 ^ 30)"

text \<open>No step but the initial read positions a ring anew, so input only gets used up.\<close>

definition uses :: "order_state \<Rightarrow> order_state \<Rightarrow> bool" where
  "uses st st' \<longleftrightarrow> (\<forall>j. input st' j \<le> input st j) \<and> (masks_ok st \<longrightarrow> masks_ok st')"

definition calm :: "machine \<Rightarrow> bool" where
  "calm M \<longleftrightarrow> (\<forall>t i pg. kern M t i pg = pg)"

lemma uses_refl [simp, intro]: "uses st st"
  by (simp add: uses_def)

lemma uses_trans [trans]: "uses a b \<Longrightarrow> uses b c \<Longrightarrow> uses a c"
  unfolding uses_def using order_trans by blast

lemma uses_same_srcs: "srcs st' = srcs st \<Longrightarrow> uses st st'"
  by (simp add: uses_def input_def masks_ok_def)

lemma uses_upd_src:
  "(\<And>h. me_map (f h) = me_map h \<and> length (se_answers (f h)) \<le> length (se_answers h) \<and>
        he_unconsumed (f h) = he_unconsumed h) \<Longrightarrow> uses st (upd_src i f st)"
  by (simp add: uses_def input_def masks_ok_def upd_src_def)

lemma uses_set_map:
  "pend mp \<le> pend (map_of_src st i) \<Longrightarrow> mmask mp = mmask (map_of_src st i) \<Longrightarrow> uses st (set_map i mp st)"
  by (simp add: uses_def input_def masks_ok_def set_map_def upd_src_def)

lemma calm_sync: "calm M \<Longrightarrow> sync M i st = st\<lparr>ticks := ticks st + 1\<rparr>"
  by (simp add: calm_def sync_def set_map_def upd_src_def Let_def)

lemma uses_sync: "calm M \<Longrightarrow> uses st (sync M i st)"
  by (simp add: calm_sync uses_same_srcs)

lemma uses_consume: "calm M \<Longrightarrow> uses st (consume M i st)"
  unfolding consume_def Let_def by (simp add: calm_sync uses_def input_def masks_ok_def set_map_def upd_src_def)

lemma uses_read_done: "calm M \<Longrightarrow> uses st (read_done M i st)"
  unfolding read_done_def Let_def by (simp add: calm_sync uses_def input_def masks_ok_def set_map_def upd_src_def)

lemma uses_read_next:
  assumes c: "calm M" and r: "read_next M i st = (ev, st')"
  shows "uses st st'" "ev \<noteq> None \<Longrightarrow> input st' i < input st i"
proof -
  obtain e mp where e: "perf_mmap__read_event (map_of_src st i) = (e, mp)" by fastforce
  then have f: "ev = e" "st' = set_map i mp (st\<lparr>ticks := ticks st + 1\<rparr>)"
    using r by (simp_all add: read_next_def calm_sync [OF c])
  show "uses st st'" "ev \<noteq> None \<Longrightarrow> input st' i < input st i"
    using read_event_pend [OF e] unfolding f
    by (simp_all add: uses_def input_def masks_ok_def set_map_def upd_src_def)
qed

lemma uses_dev [simp]: "uses st (upd_dev d f st)" "uses st (prof_dev_put d st)" "uses st (prof_dev_get d st)"
  "uses st (emit x st)" "uses st (count_lost d ev st)" "uses st (tick st)"
  "uses st (pop_account d t ins st)"
  by (auto intro!: uses_same_srcs simp: upd_dev_def prof_dev_put_def prof_dev_get_def emit_def count_lost_def
      tick_def pop_account_def Let_def)

lemma uses_take_sample [simp]: "uses st (take_sample i ev st)"
  unfolding take_sample_def by (rule uses_upd_src) simp

lemma uses_fix [simp]: "uses st (perf_mmap_fix_out_of_order i t st)"
  by (simp add: perf_mmap_fix_out_of_order_def Let_def upd_dev_def uses_def input_def masks_ok_def upd_src_def pend_def)

lemma uses_keep_mono [simp]: "uses st (keep_mono i st)"
  unfolding keep_mono_def Let_def by (simp add: uses_upd_src)

lemma uses_end_pause [simp]: "uses st (end_pause M i st)"
  unfolding end_pause_def Let_def
  by (auto simp: tick_def upd_dev_def uses_def input_def masks_ok_def upd_src_def)

lemma uses_predict_lost: "calm M \<Longrightarrow> uses st (snd (predict_lost M i st))"
  unfolding predict_lost_def Let_def
  by (simp add: calm_sync) (simp add: tick_def upd_dev_def uses_def input_def masks_ok_def upd_src_def)

lemma uses_report_lost: "uses st (snd (report_lost i lost st))"
  by (auto intro!: uses_same_srcs simp: report_lost_def Let_def emit_def)

section \<open>The inner loops end\<close>

lemma mmap_init_loop_ends:
  assumes "calm M" shows "\<exists>y. mmap_init_loop M i lost st = Some y \<and> uses st (snd (snd y))"
proof (induction "input st i" arbitrary: lost st rule: less_induct)
  case less
  obtain ev st1 where rd: "read_next M i st = (ev, st1)" by fastforce
  show ?case
  proof (cases "ev = None \<or> ev_type (the ev) = PERF_RECORD_SAMPLE")
    case True
    note u = uses_read_next(1) [OF assms rd]
    show ?thesis
    proof (cases ev)
      case None
      then show ?thesis using uses_trans [OF u uses_read_done [OF assms]]
        by (subst mmap_init_loop.simps) (simp add: rd)
    next
      case (Some e)
      then show ?thesis using True uses_trans [OF u uses_take_sample]
        by (subst mmap_init_loop.simps) (simp add: rd Let_def)
    qed
  next
    case False
    then obtain e where e: "ev = Some e" "ev_type e \<noteq> PERF_RECORD_SAMPLE" by auto
    define d where "d = he_dev (srcs st1 i)"
    define st2 where "st2 = count_lost d e st1"
    define keep where "keep \<longleftrightarrow> ev_type e = PERF_RECORD_LOST \<and> od_has_lost (devs st2 d)"
    define st3 where "st3 = (if keep then st2
        else emit (Record d (ev_bytes e) (he_ins (srcs st1 i)) (ev_in_copy e) False) st2)"
    have "uses st1 st2" "uses st2 st3" by (simp_all add: st2_def st3_def)
    then have u: "uses st1 (consume M i st3)"
      by (rule uses_trans [OF uses_trans uses_consume [OF assms]])
    have u': "uses st (consume M i st3)" by (rule uses_trans [OF uses_read_next(1) [OF assms rd] u])
    have "input (consume M i st3) i < input st i"
      using u uses_read_next(2) [OF assms rd] e(1) unfolding uses_def by (metis le_less_trans option.distinct(1))
    then obtain y where y: "mmap_init_loop M i (if keep then lost_of (ev_bytes e) else lost) (consume M i st3) = Some y"
        "uses (consume M i st3) (snd (snd y))"
      using less by blast
    have "mmap_init_loop M i lost st = mmap_init_loop M i (if keep then lost_of (ev_bytes e) else lost) (consume M i st3)"
      unfolding mmap_init_loop.simps [of M i lost st] rd e(1) prod.case option.case Let_def if_P [OF e(2)]
        d_def st2_def keep_def st3_def ..
    then show ?thesis using y(1) uses_trans [OF u' y(2)] by (metis (no_types))
  qed
qed

lemma advance_ends:
  assumes c: "calm M"
  shows "\<exists>nb' lost' st'. advance M tg i proc nb lost st = Some (nb', lost', st') \<and> uses st st' \<and>
     (nr (heap st') = nr (heap st) \<and> input st' i < input st i \<or> nr (heap st') = nr (heap st) - 1)"
proof (induction "input st i" arbitrary: proc nb lost st rule: less_induct)
  case less
  define st1 where "st1 = proc_emit i proc st"
  define st2 where "st2 = (if wants_consume i st1 then consume M i st1 else st1)"
  define hit where "hit \<longleftrightarrow> target_map tg = Some i \<and> start (map_of_src st2 i) = target_end tg"
  define st3 where "st3 = (if hit then st2\<lparr>break_reason := ORDER_BREAK_TARGET_MAP\<rparr> else st2)"
  let ?d = "he_dev (srcs st i)"
  obtain ev st4 where rd: "read_next M i st3 = (ev, st4)" by fastforce
  have u1: "uses st st1" "heap st1 = heap st" by (auto simp: st1_def proc_emit_def emit_def uses_same_srcs split: option.split)
  have u2: "uses st1 st2" "heap st2 = heap st1" using uses_consume [OF c] quiet_fields(4) [OF quiet_consume] by (auto simp: st2_def)
  have u3: "uses st2 st3" "heap st3 = heap st2" by (auto simp: st3_def uses_same_srcs)
  have u4: "uses st3 st4" "ev \<noteq> None \<Longrightarrow> input st4 i < input st3 i" "heap st4 = heap st3"
    using uses_read_next [OF c rd] quiet_fields(4) [OF quiet_read_next [OF rd]] by auto
  have u: "uses st st3" by (rule uses_trans [OF uses_trans [OF u1(1) u2(1)] u3(1)])
  have ust4: "uses st st4" by (rule uses_trans [OF u u4(1)])
  have h4: "heap st4 = heap st" using u1 u2 u3 u4 by simp
  have less4: "ev \<noteq> None \<Longrightarrow> input st4 i < input st i" using u u4(2) unfolding uses_def by (metis less_le_trans)
  have body: "advance M tg i proc nb lost st = (case read_next M i st3 of
           (Some ev, st4) \<Rightarrow>
             if ev_type ev \<noteq> PERF_RECORD_SAMPLE then
               let st5 = count_lost ?d ev st4 in
               if ev_type ev = PERF_RECORD_LOST \<and> od_has_lost (devs st5 ?d)
               then advance M tg i None (nb \<or> hit) (lost_of (ev_bytes ev)) st5
               else advance M tg i (Some ev) (nb \<or> hit) lost st5
             else
               let st5 = take_sample i ev st4;
                   st6 = st5\<lparr>heap := min_heap_sift_down (less_than st5) (heap st5) 0\<rparr>;
                   (lost', st7) = report_lost i lost st6
               in Some (nb \<or> hit, lost', st7)
         | (None, st4) \<Rightarrow>
             let st5 = read_done M i st4;
                 st6 = st5\<lparr>heap := snd (min_heap_pop (less_than st5) (heap st5))\<rparr>
             in Some (nb \<or> hit, lost, prof_dev_put ?d st6))"
    unfolding advance.simps [of M tg i proc nb lost st] Let_def st1_def st2_def st3_def hit_def proc_emit_def ..
  show ?case
  proof (cases ev)
    case None
    define st5 where "st5 = read_done M i st4"
    define st6 where "st6 = st5\<lparr>heap := snd (min_heap_pop (less_than st5) (heap st5))\<rparr>"
    have "advance M tg i proc nb lost st = Some (nb \<or> hit, lost, prof_dev_put ?d st6)"
      unfolding body rd None prod.case option.case Let_def st5_def st6_def ..
    moreover have "uses st4 st5" "uses st5 st6" "uses st6 (prof_dev_put ?d st6)"
      using uses_read_done [OF c] by (simp_all add: st5_def st6_def uses_same_srcs)
    then have "uses st (prof_dev_put ?d st6)" using ust4 uses_trans by meson
    moreover have "nr (heap (prof_dev_put ?d st6)) = nr (heap st) - 1"
      using h4 quiet_fields(4) [OF quiet_dev_put] quiet_fields(4) [OF quiet_read_done]
      by (simp add: st6_def st5_def min_heap_pop_def Let_def)
    ultimately show ?thesis by blast
  next
    case (Some e)
    show ?thesis
    proof (cases "ev_type e = PERF_RECORD_SAMPLE")
      case True
      define st5 where "st5 = take_sample i e st4"
      define st6 where "st6 = st5\<lparr>heap := min_heap_sift_down (less_than st5) (heap st5) 0\<rparr>"
      have ne: "\<not> ev_type e \<noteq> PERF_RECORD_SAMPLE" using True by simp
      obtain lost' st7 where r: "report_lost i lost st6 = (lost', st7)" by fastforce
      have "advance M tg i proc nb lost st = Some (nb \<or> hit, lost', st7)"
        unfolding body rd Some prod.case option.case if_not_P [OF ne] Let_def
        using r unfolding st5_def st6_def by simp
      moreover have "uses st4 st5" "uses st5 st6" "uses st6 st7"
        using uses_report_lost [of st6 i lost] r by (simp_all add: st5_def st6_def uses_same_srcs)
      then have u7: "uses st4 st7" using uses_trans by meson
      then have "uses st st7" by (rule uses_trans [OF ust4])
      moreover have "input st7 i < input st i"
        using u7 less4 Some unfolding uses_def by (metis le_less_trans option.distinct(1))
      moreover have "nr (heap st7) = nr (heap st)"
        using quiet_fields(4) [OF quiet_report_lost, of i lost st6] r h4 take_sample_fields(2) [of i e st4]
        by (simp add: st6_def st5_def min_heap_sift_down_def)
      ultimately show ?thesis by blast
    next
      case False
      define st5 where "st5 = count_lost ?d e st4"
      let ?keep = "ev_type e = PERF_RECORD_LOST \<and> od_has_lost (devs st5 ?d)"
      define p where "p = (if ?keep then None else Some e)"
      define l where "l = (if ?keep then lost_of (ev_bytes e) else lost)"
      have "advance M tg i proc nb lost st = (if ?keep
          then advance M tg i None (nb \<or> hit) (lost_of (ev_bytes e)) st5
          else advance M tg i (Some e) (nb \<or> hit) lost st5)"
        unfolding body rd Some prod.case option.case if_P [OF False] Let_def st5_def ..
      also have "\<dots> = advance M tg i p (nb \<or> hit) l st5"
        unfolding p_def l_def by (cases ?keep) (simp_all only: simp_thms if_True if_False)
      finally have a: "advance M tg i proc nb lost st = advance M tg i p (nb \<or> hit) l st5" .
      have u45: "uses st4 st5" by (simp add: st5_def)
      have u5: "uses st st5" "input st5 i < input st i"
        using uses_trans [OF ust4 u45] u45 less4 Some unfolding uses_def by (simp, metis le_less_trans option.distinct(1))
      have h5: "heap st5 = heap st" using h4 quiet_fields(4) [OF quiet_count_lost] by (simp add: st5_def)
      obtain nb' lost' st' where y: "advance M tg i p (nb \<or> hit) l st5 = Some (nb', lost', st')" "uses st5 st'"
        "nr (heap st') = nr (heap st5) \<and> input st' i < input st5 i \<or> nr (heap st') = nr (heap st5) - 1"
        using less.hyps [OF u5(2)] by blast
      have "uses st st'" by (rule uses_trans [OF u5(1) y(2)])
      then show ?thesis using a y u5(2) h5 by auto
    qed
  qed
qed

section \<open>Streams\<close>

lemma stream_read_uses:
  "stream_read i as st = (b, st') \<Longrightarrow> length as \<le> length (se_answers (srcs st i)) \<Longrightarrow>
   uses st st' \<and> heap st' = heap st \<and> (b \<longrightarrow> input st' i < input st i)"
proof (induction i "as" st arbitrary: st' rule: stream_read.induct)
  case (3 i it as' st)
  let ?ty = "hdr_type (si_bytes it)"
  show ?case
  proof (cases "?ty \<noteq> PERF_RECORD_SAMPLE \<and> ?ty \<noteq> PERF_RECORD_ORDER_TIME")
    case True
    define s where "s = emit (Record (he_dev (srcs st i)) (si_bytes it) (si_ins it) (si_writable it) (si_converted it)) st"
    have s: "srcs s = srcs st" "heap s = heap st" by (simp_all add: s_def emit_def)
    have "stream_read i as' s = (b, st')" using 3(2) True by (simp add: Let_def s_def)
    then have "uses s st' \<and> heap st' = heap s \<and> (b \<longrightarrow> input st' i < input s i)"
      using 3(1,3) True s by (simp add: s_def)
    then show ?thesis using s by (simp add: uses_def input_def masks_ok_def)
  next
    case False
    then show ?thesis using 3(2,3)
      by (auto simp: Let_def uses_def input_def masks_ok_def upd_src_def split: if_splits)
  qed
qed (auto simp: uses_def input_def masks_ok_def upd_src_def)

lemma stream_init_uses:
  assumes "stream_event_init i st = (b, st')"
  shows "uses st st' \<and> heap st' = heap st \<and> (b \<longrightarrow> input st' i < input st i)"
proof (cases "he_unconsumed (srcs st i)")
  case True
  then show ?thesis using assms
    by (auto simp: stream_event_init_def uses_def input_def masks_ok_def upd_src_def split: if_splits)
next
  case False
  then show ?thesis using assms stream_read_uses by (simp add: stream_event_init_def)
qed

lemma stream_process_uses:
  assumes "stream_event_process M i st = (b, st')"
  shows "uses st st' \<and> heap st' = heap st \<and> (b \<longrightarrow> input st' i < input st i)"
proof -
  define st1 where "st1 = pop_account (he_dev (srcs st i)) (he_time (srcs st i)) (he_ins (srcs st i)) st"
  define st2 where "st2 = emit (Record (he_dev (srcs st i)) (ev_bytes (he_event (srcs st i))) (he_ins (srcs st i))
      (he_writable (srcs st i)) (he_converted (srcs st i))) st1"
  obtain ok st3 where i: "stream_event_init i st2 = (ok, st3)" by fastforce
  have 2: "srcs st2 = srcs st" "heap st2 = heap st"
    by (simp_all add: st2_def st1_def emit_def pop_account_def Let_def upd_dev_def)
  have 3: "uses st st3" "heap st3 = heap st" "ok \<longrightarrow> input st3 i < input st i"
    using stream_init_uses [OF i] 2 by (auto simp: uses_def input_def masks_ok_def)
  have "b = ok \<and> heap st' = heap st3 \<and> (\<forall>j. input st' j = input st3 j) \<and> masks_ok st' = masks_ok st3"
    using assms i unfolding stream_event_process_def Let_def st1_def [symmetric] st2_def [symmetric]
    by (cases ok) (auto simp: tick_def upd_dev_def upd_src_def input_def masks_ok_def split: if_splits)
  then show ?thesis using 3 by (simp add: uses_def)
qed

section \<open>The sort ends\<close>

lemma sift_heads:
  assumes "heap_wf h" "0 < nr h"
  shows "heap_wf (min_heap_sift_down lt h 0)"
    "set (take (nr h) (hdata (min_heap_sift_down lt h 0))) = set (take (nr h) (hdata h))"
  using assms sift_down_perm(1) [of 0 "nr h" "hdata h" lt]
  by (simp_all add: min_heap_sift_down_def heap_wf_def) (metis set_mset_mset)

lemma heap_wf_shrink:
  "heap_wf h \<Longrightarrow> n \<le> nr h \<Longrightarrow> length xs = length (hdata h) \<Longrightarrow> heap_wf (h\<lparr>nr := n, hdata := xs\<rparr>)"
  by (simp add: heap_wf_def)

lemma pop_heads:
  assumes "heap_wf h" "0 < nr h"
  shows "heap_wf (snd (min_heap_pop lt h))" "nr (snd (min_heap_pop lt h)) = nr h - 1"
    "set (take (nr h - 1) (hdata (snd (min_heap_pop lt h)))) \<subseteq> set (take (nr h) (hdata h))"
proof -
  let ?n = "nr h - 1" and ?xs = "(hdata h)[0 := hdata h ! (nr h - 1)]"
  have len: "nr h \<le> length (hdata h)" using assms by (simp add: heap_wf_def)
  have e: "snd (min_heap_pop lt h) = h\<lparr>nr := ?n, hdata := sift_down lt ?n ?xs 0\<rparr>"
    using assms(2) by (simp add: min_heap_pop_def Let_def)
  show "heap_wf (snd (min_heap_pop lt h))" unfolding e using assms(1) by (rule heap_wf_shrink) simp_all
  show "nr (snd (min_heap_pop lt h)) = nr h - 1" unfolding e by simp
  have "set (take ?n (sift_down lt ?n ?xs 0)) = set (take ?n ?xs)"
  proof (cases "?n = 0")
    case False
    then have "mset (take ?n (sift_down lt ?n ?xs 0)) = mset (take ?n ?xs)"
      using len by (intro sift_down_perm(1)) simp_all
    then show ?thesis by (rule mset_eq_setD)
  qed simp
  also have "\<dots> \<subseteq> insert (hdata h ! ?n) (set (take ?n (hdata h)))"
    unfolding take_update_swap by (rule set_update_subset_insert)
  also have "\<dots> \<subseteq> set (take (nr h) (hdata h))"
  proof -
    have "hdata h ! ?n \<in> set (take (nr h) (hdata h))"
      using assms(2) len by (auto simp: in_set_conv_nth intro!: exI [of _ ?n])
    moreover have "set (take ?n (hdata h)) \<subseteq> set (take (nr h) (hdata h))" by (rule set_take_subset_set_take) simp
    ultimately show ?thesis by blast
  qed
  finally show "set (take (nr h - 1) (hdata (snd (min_heap_pop lt h)))) \<subseteq> set (take (nr h) (hdata h))"
    by (simp add: e)
qed

lemma advance_heads:
  assumes a: "advance M tg i proc nb lost st = Some y" and wf: "heap_wf (heap st)" "0 < nr (heap st)"
  shows "heap_wf (heap (snd (snd y))) \<and> set (heads (snd (snd y))) \<subseteq> set (heads st)"
proof -
  obtain s where s: "quiet (proc_emit i proc st) s" "took i s (snd (snd y)) \<or> popped s (snd (snd y))"
    using advance_result [OF a] by blast
  have hs: "heap s = heap st"
    using quiet_fields(4) [OF s(1)] by (simp add: proc_emit_def emit_def split: option.splits)
  show ?thesis
  proof (cases "took i s (snd (snd y))")
    case True
    then obtain ev where "quiet (let t = take_sample i ev s in
        t\<lparr>heap := min_heap_sift_down (less_than t) (heap t) 0\<rparr>) (snd (snd y))" unfolding took_def by blast
    then have "heap (snd (snd y)) = min_heap_sift_down (less_than (take_sample i ev s)) (heap st) 0"
      using hs by (auto dest: quiet_fields(4) simp: take_sample_fields(2) Let_def)
    then show ?thesis using sift_heads [OF wf] by (simp add: heads_def min_heap_sift_down_def)
  next
    case False
    then have "heap (snd (snd y)) = snd (min_heap_pop (less_than s) (heap st))"
      using s(2) hs by (auto simp: popped_def dest: quiet_fields(4))
    then show ?thesis using pop_heads [OF wf] by (simp add: heads_def)
  qed
qed

definition work :: "nat set \<Rightarrow> order_state \<Rightarrow> nat" where
  "work S st = nr (heap st) + sum (input st) S"

lemma uses_work_less:
  assumes "finite S" "i \<in> S" "uses st st'" "input st' i < input st i" shows "sum (input st') S < sum (input st) S"
  using assms by (intro sum_strict_mono_ex1) (auto simp: uses_def)

lemma order_loop_ends:
  assumes c: "calm M" and S: "finite S" "heap_wf (heap st)" "set (heads st) \<subseteq> S"
  shows "\<exists>st'. order_loop M tg lost st = Some st'"
  using S(2,3)
proof (induction "work S st" arbitrary: lost st rule: less_induct)
  case less
  note unf = order_loop.simps [of M tg lost st]
  show ?case
  proof (cases "min_heap_peek (heap st)")
    case None
    then show ?thesis unfolding unf by simp
  next
    case (Some i)
    then have r: "root_is st i" "0 < nr (heap st)" by (auto simp: min_heap_peek_def root_is_def split: if_splits)
    have iS: "i \<in> S" using root_in_heads [OF r(1) less.prems(1)] less.prems(2) by blast
    show ?thesis
    proof (cases "he_type (srcs st i) = STREAM_EVENT")
      case True
      obtain ok st1 where p: "stream_event_process M i st = (ok, st1)" by fastforce
      note u = stream_process_uses [OF p]
      show ?thesis
      proof (cases ok)
        case False
        then show ?thesis unfolding unf using Some True p by (simp add: Let_def)
      next
        case ok: True
        define s where "s = st1\<lparr>heap := min_heap_sift_down (less_than st1) (heap st1) 0\<rparr>"
        have h: "heap st1 = heap st" "uses st st1" "input st1 i < input st i" using u ok by auto
        have hs: "heap_wf (heap s)" "set (heads s) \<subseteq> S" "nr (heap s) = nr (heap st)"
          using sift_heads [OF less.prems(1) r(2)] less.prems(2) h(1)
          by (auto simp: s_def heads_def min_heap_sift_down_def)
        have "sum (input st1) S < sum (input st) S" by (rule uses_work_less [OF S(1) iS h(2,3)])
        moreover have "input s = input st1" by (simp add: s_def input_def fun_eq_iff)
        ultimately have "work S s < work S st" using hs(3) by (simp add: work_def)
        then have "\<exists>st'. order_loop M tg lost s = Some st'" using less.hyps hs(1,2) by blast
        then show ?thesis unfolding unf using Some True p ok by (simp add: s_def)
      qed
    next
      case False
      show ?thesis
      proof (cases "target_time tg < he_time (srcs st i) \<or> \<not> fst (predict_lost M i st)")
        case True
        then show ?thesis unfolding unf using Some False by (auto split: prod.splits)
      next
        case go: False
        obtain st1 where p: "predict_lost M i st = (True, st1)" using go by (cases "predict_lost M i st") auto
        define st2 where "st2 = keep_mono i (end_pause M i st1)"
        define st3 where "st3 = pop_account (he_dev (srcs st2 i)) (he_time (srcs st2 i)) (he_ins (srcs st2 i)) st2"
        define ev where "ev = (he_event (srcs st2 i))\<lparr>ev_in_copy := he_writable (srcs st2 i)\<rparr>"
        have u1: "uses st st1" "heap st1 = heap st"
          using uses_predict_lost [OF c, of st i] quiet_fields(4) [OF quiet_predict_lost [OF p]] p by auto
        have "uses st1 (end_pause M i st1)" "uses (end_pause M i st1) st2" "uses st2 st3"
          by (simp_all add: st2_def st3_def)
        then have u3: "uses st st3" using u1(1) uses_trans by meson
        have h3: "heap st3 = heap st"
          using u1(2) keep_mono_fields(2) quiet_fields(4) [OF quiet_end_pause]
          by (simp add: st3_def st2_def pop_account_def Let_def upd_dev_def)
        obtain nb lost' st4 where a: "advance M tg i (Some ev) False lost st3 = Some (nb, lost', st4)" "uses st3 st4"
          "nr (heap st4) = nr (heap st3) \<and> input st4 i < input st3 i \<or> nr (heap st4) = nr (heap st3) - 1"
          using advance_ends [OF c] by blast
        have w4: "heap_wf (heap st4)" "set (heads st4) \<subseteq> S"
          using advance_heads [OF a(1)] h3 less.prems r(2) by (auto simp: heads_def)
        have u4: "uses st st4" by (rule uses_trans [OF u3 a(2)])
        have "work S st4 < work S st"
        proof (cases "nr (heap st4) = nr (heap st3) \<and> input st4 i < input st3 i")
          case True
          then have "input st4 i < input st i" using u3 unfolding uses_def by (metis less_le_trans)
          then show ?thesis using uses_work_less [OF S(1) iS u4] True h3 by (simp add: work_def)
        next
          case False
          have "sum (input st4) S \<le> sum (input st) S" using u4 by (intro sum_mono) (simp add: uses_def)
          moreover have "nr (heap st4) = nr (heap st) - 1" using False a(3) unfolding h3 by blast
          ultimately show ?thesis using r(2) unfolding work_def by linarith
        qed
        then have "\<exists>st'. order_loop M tg lost' st4 = Some st'" using less.hyps w4 by blast
        moreover have "order_loop M tg lost st = (if nb then Some st4 else order_loop M tg lost' st4)"
          unfolding unf using Some False go p a(1) unfolding ev_def st3_def st2_def by (simp add: Let_def)
        ultimately show ?thesis by (cases nb) auto
      qed
    qed
  qed
qed

text \<open>Filling the heap ends, and leaves a well-formed one.\<close>

definition sizes_ok :: "order_state \<Rightarrow> bool" where
  "sizes_ok st \<longleftrightarrow> masks_ok st \<and> heap_wf (heap st) \<and> (\<forall>d. 0 < od_heap_size (devs st d))"

lemma sizes_okI:
  assumes "sizes_ok st" "masks_ok st \<Longrightarrow> masks_ok st'" "heap st' = heap st" "cfg_eq st st'"
  shows "sizes_ok st'"
  using assms by (simp add: sizes_ok_def cfg_eq_def)

lemma masks_uses: "uses st st' \<Longrightarrow> masks_ok st \<Longrightarrow> masks_ok st'"
  by (simp add: uses_def)

lemma quiet_sizes: "quiet st st' \<Longrightarrow> uses st st' \<Longrightarrow> sizes_ok st \<Longrightarrow> sizes_ok st'"
  using sizes_okI masks_uses quiet_cfg quiet_fields(4) by blast

lemma read_init_sizes:
  assumes "calm M" "sizes_ok st"
  obtains res mp where "perf_mmap__read_init (map_of_src (sync M i st) i) = Some (res, mp)"
    "sizes_ok (set_map i mp (sync M i st))"
proof -
  let ?s = "sync M i st"
  have s: "sizes_ok ?s" using quiet_sizes [OF quiet_sync uses_sync [OF assms(1)] assms(2)] .
  then have "mmask (map_of_src ?s i) + 1 \<le> 2 ^ 30" by (simp add: sizes_ok_def masks_ok_def)
  then obtain res mp where r: "perf_mmap__read_init (map_of_src ?s i) = Some (res, mp)"
    using read_init_returns by blast
  have "masks_ok (set_map i mp ?s)"
    using s read_init_mmask [OF r] by (auto simp: sizes_ok_def masks_ok_def set_map_def upd_src_def)
  then have "sizes_ok (set_map i mp ?s)"
    using sizes_okI [OF s _ quiet_fields(4) [OF quiet_set_map] quiet_cfg [OF quiet_set_map]] by blast
  then show ?thesis by (rule that [OF r])
qed

lemma fix_sizes: "sizes_ok st \<Longrightarrow> sizes_ok (perf_mmap_fix_out_of_order i t st)"
  using sizes_okI [OF _ masks_uses [OF uses_fix] fix_fields(2,1)] by blast

lemma event_init_ends:
  assumes c: "calm M" and ok: "sizes_ok st"
  shows "\<exists>b st'. perf_mmap_event_init M i st = Some (b, st') \<and> sizes_ok st'"
proof -
  obtain res mp where ri: "perf_mmap__read_init (map_of_src (sync M i st) i) = Some (res, mp)"
    and s2: "sizes_ok (set_map i mp (sync M i st))" using read_init_sizes [OF c ok] .
  define st2 where "st2 = set_map i mp (sync M i st)"
  obtain b lost st3 where l: "mmap_init_loop M i no_lost st2 = Some (b, lost, st3)" and u: "uses st2 st3"
    using mmap_init_loop_ends [OF c, of i no_lost st2] by auto
  obtain s where s: "quiet st2 s" "if b then \<exists>ev. st3 = take_sample i ev s else st3 = s"
    using mmap_init_loop_result [OF l] unfolding fst_conv snd_conv by (elim exE conjE)
  have f: "heap st3 = heap st2" "cfg_eq st2 st3"
    using s quiet_fields(4) [OF s(1)] quiet_cfg [OF s(1)] cfg_eq_trans take_sample_fields
    by (auto split: if_splits)
  have s3: "sizes_ok st3" using s2 unfolding st2_def [symmetric] by (rule sizes_okI [OF _ masks_uses [OF u] f])
  define st4 where "st4 = (if he_time (srcs st3 i) < popped_time st3
       then perf_mmap_fix_out_of_order i (popped_time st3) st3 else st3)"
  have s4: "sizes_ok st4" using s3 fix_sizes by (simp add: st4_def)
  have em: "sizes_ok (emit x st4)" if "\<not> is_sample x" for x
    using quiet_sizes [OF quiet_emit [OF that] _ s4] by simp
  show ?thesis
    using s2 s3 s4 em l ri unfolding perf_mmap_event_init_def Let_def st2_def [symmetric] st4_def [symmetric]
    by (cases b) (auto simp: st2_def [symmetric] st4_def [symmetric])
qed

lemma append_sizes:
  assumes "heap_append M d i st = Some st'" "sizes_ok st" shows "sizes_ok st'"
proof -
  have wf: "heap_wf (heap st)" "0 < od_heap_size (devs st d)" using assms(2) by (simp_all add: sizes_ok_def)
  show ?thesis using heap_append_storage [OF assms(1) wf] assms(2) by (simp add: sizes_ok_def masks_ok_def cfg_eq_def)
qed

lemma stream_read_cfg: "stream_read i as st = (b, st') \<Longrightarrow> cfg_eq st st'"
proof (induction i "as" st arbitrary: st' rule: stream_read.induct)
  case (3 i it as st)
  let ?e = "emit (Record (he_dev (srcs st i)) (si_bytes it) (si_ins it) (si_writable it) (si_converted it)) st"
  let ?skip = "hdr_type (si_bytes it) \<noteq> PERF_RECORD_SAMPLE \<and> hdr_type (si_bytes it) \<noteq> PERF_RECORD_ORDER_TIME"
  show ?case
  proof (cases ?skip)
    case True
    then have "cfg_eq ?e st'" using 3 by (simp add: Let_def)
    moreover have "cfg_eq st ?e" by (simp add: cfg_eq_def emit_def)
    ultimately show ?thesis using cfg_eq_trans by blast
  next
    case False
    then show ?thesis using 3(2) by (auto simp: Let_def cfg_eq_def upd_src_def)
  qed
qed (auto simp: cfg_eq_def upd_src_def)

lemma stream_init_sizes:
  assumes "stream_event_init i st = (b, st')" "sizes_ok st" shows "sizes_ok st'"
proof (rule sizes_okI [OF assms(2)])
  show "masks_ok st \<Longrightarrow> masks_ok st'" "heap st' = heap st"
    using stream_init_uses [OF assms(1)] masks_uses by auto
  show "cfg_eq st st'"
    using assms(1) stream_read_cfg unfolding stream_event_init_def
    by (auto simp: cfg_eq_def upd_src_def split: if_splits)
qed

lemma heap_init_list_ends:
  assumes c: "calm M" and "sizes_ok st"
  shows "\<exists>ret st'. heap_init_list M d is st = Some (ret, st') \<and> sizes_ok st'"
  using assms(2)
proof (induction "is" arbitrary: st)
  case Nil
  then show ?case by simp
next
  case (Cons i "is")
  have nxt: "\<exists>ret st'. (case heap_append M d i s of None \<Rightarrow> Some (-1, tick s)
      | Some s' \<Rightarrow> heap_init_list M d is s') = Some (ret, st') \<and> sizes_ok st'" if "sizes_ok s" for s
    using that Cons.IH append_sizes quiet_sizes [OF quiet_tick _ that] by (auto split: option.split)
  show ?case
  proof (cases "he_type (srcs st i)")
    case PERF_MMAP_EVENT
    obtain b st1 where e: "perf_mmap_event_init M i st = Some (b, st1)" "sizes_ok st1"
      using event_init_ends [OF c Cons.prems] by blast
    then show ?thesis using PERF_MMAP_EVENT Cons.IH [OF e(2)] nxt [OF e(2)]
      by (cases b) (simp_all add: Let_def)
  next
    case STREAM_EVENT
    obtain b st1 where e: "stream_event_init i st = (b, st1)" by fastforce
    have s: "sizes_ok st1" by (rule stream_init_sizes [OF e Cons.prems])
    have "sizes_ok (st1\<lparr>break_reason := ORDER_BREAK_STREAM_STOP\<rparr>)"
      by (rule quiet_sizes [OF quiet_break _ s]) (simp add: uses_same_srcs)
    then show ?thesis using STREAM_EVENT e nxt [OF s] by (cases b) (simp_all add: Let_def)
  qed
qed

lemma order_heap_init_ends:
  "calm M \<Longrightarrow> sizes_ok st \<Longrightarrow> \<exists>ret st'. order_heap_init M t st = Some (ret, st') \<and> sizes_ok st'"
  "calm M \<Longrightarrow> sizes_ok st \<Longrightarrow> \<exists>ret st'. order_heap_init_children M ts st = Some (ret, st') \<and> sizes_ok st'"
proof (induction M t st and M ts st rule: order_heap_init_order_heap_init_children.induct)
  case (1 M d children st)
  obtain ret st1 where h: "heap_init_list M d (od_sources (devs st d)) st = Some (ret, st1)" "sizes_ok st1"
    using heap_init_list_ends [OF 1(2,3)] by blast
  then show ?case using 1(1) [OF h(1) refl] 1(2) by (cases "ret = 0") simp_all
next
  case (3 M c cs st)
  obtain ret st1 where h: "order_heap_init M c st = Some (ret, st1)" "sizes_ok st1" 
    using 3(1) [OF 3(3,4)] by blast
  then show ?case using 3(2) [OF h(1) refl] 3(3) by (cases "ret = 0") simp_all
qed simp

lemma heapify_all_wf:
  fixes h :: "nat min_heap" assumes "heap_wf h" shows "heap_wf (min_heapify_all lt h)"
  using assms heapify_from_perm [of "nr h div 2" "nr h" "hdata h" lt] by (simp add: heap_wf_def min_heapify_all_def)

lemma order_run_ends:
  assumes c: "calm M" and ok: "sizes_ok st" shows "\<exists>st'. order_run M tg st = Some st'"
proof -
  define st0 where "st0 = st\<lparr>heap := (heap st)\<lparr>nr := 0\<rparr>\<rparr>"
  have "sizes_ok st0" using ok by (simp add: st0_def sizes_ok_def masks_ok_def heap_wf_def)
  then obtain ret st1 where i: "order_heap_init M (tree st0) st0 = Some (ret, st1)" "sizes_ok st1"
    using order_heap_init_ends(1) [OF c] by blast
  define st2 where "st2 = st1\<lparr>heap := min_heapify_all (less_than st1) (heap st1)\<rparr>"
  have "heap_wf (heap st2)" 
    using i(2) heapify_all_wf [of "heap st1"] unfolding st2_def sizes_ok_def by simp
  then obtain st3 where "order_loop M tg no_lost st2 = Some st3"
    using order_loop_ends [OF c, of "set (heads st2)"] by blast
  then show ?thesis
    using i(1) unfolding order_run_def Let_def st0_def [symmetric] st2_def by (cases "ret = 0") auto
qed

lemma order_process_ends:
  assumes c: "calm M" and ok: "sizes_ok st"
  shows "\<exists>st'. order_process M tmap tm st = Some st'"
proof (cases "inprocess st")
  case True
  then show ?thesis by (simp add: order_process_def)
next
  case False
  have run: "\<exists>st'. order_run M tg ((prof_dev_get (main s) s)\<lparr>inprocess := True\<rparr>) = Some st'" if "sizes_ok s" for tg s
    by (rule order_run_ends [OF c quiet_sizes [OF quiet_inprocess _ quiet_sizes [OF quiet_dev_get _ that]]])
      (simp_all add: uses_same_srcs)
  show ?thesis
  proof (cases tmap)
    case None
    then show ?thesis using False run [OF ok] by (simp add: order_process_def Let_def)
  next
    case (Some i)
    obtain res mp where ri: "perf_mmap__read_init (map_of_src (sync M i st) i) = Some (res, mp)"
      and s2: "sizes_ok (set_map i mp (sync M i st))" using read_init_sizes [OF c ok] .
    define st3 where "st3 = sync M i (set_map i mp (sync M i st))"
    have "sizes_ok st3" unfolding st3_def by (rule quiet_sizes [OF quiet_sync uses_sync [OF c] s2])
    then show ?thesis using False Some ri run [of st3]
      unfolding order_process_def Let_def st3_def by auto
  qed
qed

section \<open>Properties\<close>

lemma ex_order_ok: "calm ex_machine" "sizes_ok ex_order" "order_ok ex_order"
  by (simp_all add: calm_def ex_machine_def sizes_ok_def masks_ok_def order_ok_def ex_order_def ex_src_def ex_map_def
      ex_dev_def heap_wf_def sources_ok_def popped_time_def Let_def)

text \<open>
  C2. \<open>order_process\<close> returns when the kernel writes nothing meanwhile, whatever the rings
  and the streams hold, also when memory runs out while the heap is filled, with a target
  ring, a target time or none. Rings are of at most 1 GiB.
\<close>

theorem order_process_returns:
  assumes "calm M" "sizes_ok st"
  shows "\<exists>st'. order_process M tmap tm st = Some st'"
  by (rule order_process_ends [OF assms])

theorem order_process_returns_witness:
  "\<exists>st'. order_process ex_machine (Some 1) 8 ex_order = Some st'"
  by (rule order_process_returns) (rule ex_order_ok)+

text \<open>
  C1. Whatever the kernel does meanwhile, the samples that one call of \<open>order_process\<close>
  hands on carry ascending times, none before the time reached by earlier calls and none
  after the time reached at the end; no event is counted as unordered, and the next call
  starts from a state in which the same holds. No stream is registered, every ring
  belongs to one device of the tree.
\<close>

theorem order_process_sorted:
  assumes "order_process M tmap tm st = Some st'" "order_ok st"
  shows "order_ok st' \<and> popped_time st \<le> popped_time st' \<and>
    (\<lambda>d. nr_unordered_events (devs st' d)) = (\<lambda>d. nr_unordered_events (devs st d)) \<and>
    (\<exists>l. slog st' = slog st @ l \<and> sorted (log_times (time_off st) l) \<and>
       list_all (\<lambda>t. popped_time st \<le> t \<and> t \<le> popped_time st') (log_times (time_off st) l))"
proof -
  have r: "run_ok (popped_time st) (slog st) st st'" by (rule order_process_run [OF assms])
  then obtain l where l: "slog st' = slog st @ l" "log_ok (time_off st) (popped_time st) (popped_time st') l"
    unfolding run_ok_def by blast
  have "order_ok st'" by (rule run_ok_order_ok [OF r assms(2)])
  then show ?thesis using r l by (auto simp: run_ok_def cfg_eq_def log_ok_def list_all_iff)
qed

theorem order_process_sorted_witness:
  "\<exists>st'. order_process ex_machine None 0 ex_order = Some st' \<and> order_ok st' \<and>
     (\<exists>l. slog st' = l \<and> sorted (log_times (time_off ex_order) l))"
proof -
  obtain st' where st': "order_process ex_machine None 0 ex_order = Some st'"
    using order_process_ends ex_order_ok by blast
  have "slog ex_order = []" by (simp add: slog_def ex_order_def)
  then show ?thesis using order_process_sorted [OF st' ex_order_ok(3)] st' by auto
qed

end
