(* ===== verification/Expr.thy ===== *)
theory Expr
  imports Prelude
begin

text \<open>
  The expression compiler and its virtual machine, \<open>src/expr.c\<close>: the lexer \<open>next\<close>, the
  one-pass compiler \<open>expr\<close> (primary expressions, then precedence climbing), the driver
  \<open>expr_compile\<close> with its symbol table and global variables, and \<open>expr_run\<close>.

  The globals of the compiler are the record \<open>cst\<close>. The instruction array is the list
  \<open>c_code\<close>, whose index 0 is the unused first word and whose last word is the one \<open>e\<close>
  points to; a jump operand is the address of a word. What \<open>malloc\<close> and \<open>realloc\<close> return
  (addresses, contents that the code does not initialise) is the record \<open>alloc\<close>.
  \<open>longjmp\<close> with a message is the error \<open>Synerr\<close>; reading past the end of the source text
  and writing past the 1024 words of the instruction array are errors of their own.
\<close>

unbundle bit_operations_syntax

section \<open>Tokens, opcodes, types\<close>

abbreviation (input) "Num \<equiv> 128 :: int"
abbreviation (input) "Fun \<equiv> 129 :: int"
abbreviation (input) "Sys \<equiv> 130 :: int"
abbreviation (input) "Glo \<equiv> 131 :: int"
abbreviation (input) "Loc \<equiv> 132 :: int"
abbreviation (input) "IdTok \<equiv> 133 :: int"
abbreviation (input) "IntTok \<equiv> 134 :: int"
abbreviation (input) "Sizeof \<equiv> 135 :: int"
abbreviation (input) "Assign \<equiv> 136 :: int"
abbreviation (input) "Cond \<equiv> 137 :: int"
abbreviation (input) "Lor \<equiv> 138 :: int"
abbreviation (input) "Lan \<equiv> 139 :: int"
abbreviation (input) "Or \<equiv> 140 :: int"
abbreviation (input) "Xor \<equiv> 141 :: int"
abbreviation (input) "And \<equiv> 142 :: int"
abbreviation (input) "Eq \<equiv> 143 :: int"
abbreviation (input) "Ne \<equiv> 144 :: int"
abbreviation (input) "Lt \<equiv> 145 :: int"
abbreviation (input) "Gt \<equiv> 146 :: int"
abbreviation (input) "Le \<equiv> 147 :: int"
abbreviation (input) "Ge \<equiv> 148 :: int"
abbreviation (input) "Shl \<equiv> 149 :: int"
abbreviation (input) "Shr \<equiv> 150 :: int"
abbreviation (input) "Add \<equiv> 151 :: int"
abbreviation (input) "Sub \<equiv> 152 :: int"
abbreviation (input) "Mul \<equiv> 153 :: int"
abbreviation (input) "Div \<equiv> 154 :: int"
abbreviation (input) "Mod \<equiv> 155 :: int"
abbreviation (input) "Inc \<equiv> 156 :: int"
abbreviation (input) "Dec \<equiv> 157 :: int"
abbreviation (input) "Brak \<equiv> 158 :: int"

abbreviation (input) "LEA \<equiv> 0 :: u64"
abbreviation (input) "IMM \<equiv> 1 :: u64"
abbreviation (input) "JMP \<equiv> 2 :: u64"
abbreviation (input) "JSR \<equiv> 3 :: u64"
abbreviation (input) "BZ \<equiv> 4 :: u64"
abbreviation (input) "BNZ \<equiv> 5 :: u64"
abbreviation (input) "ENT \<equiv> 6 :: u64"
abbreviation (input) "ADJ \<equiv> 7 :: u64"
abbreviation (input) "LI \<equiv> 8 :: u64"
abbreviation (input) "SI \<equiv> 9 :: u64"
abbreviation (input) "LEV \<equiv> 10 :: u64"
abbreviation (input) "PSH \<equiv> 11 :: u64"
abbreviation (input) "OR_op \<equiv> 12 :: u64"
abbreviation (input) "XOR_op \<equiv> 13 :: u64"
abbreviation (input) "AND_op \<equiv> 14 :: u64"
abbreviation (input) "EQ_op \<equiv> 15 :: u64"
abbreviation (input) "NE_op \<equiv> 16 :: u64"
abbreviation (input) "LT_op \<equiv> 17 :: u64"
abbreviation (input) "GT_op \<equiv> 18 :: u64"
abbreviation (input) "LE_op \<equiv> 19 :: u64"
abbreviation (input) "GE_op \<equiv> 20 :: u64"
abbreviation (input) "SHL_op \<equiv> 21 :: u64"
abbreviation (input) "SHR_op \<equiv> 22 :: u64"
abbreviation (input) "ADD_op \<equiv> 23 :: u64"
abbreviation (input) "SUB_op \<equiv> 24 :: u64"
abbreviation (input) "MUL_op \<equiv> 25 :: u64"
abbreviation (input) "DIV_op \<equiv> 26 :: u64"
abbreviation (input) "MOD_op \<equiv> 27 :: u64"
abbreviation (input) "PRTF \<equiv> 28 :: u64"
abbreviation (input) "KSYM \<equiv> 29 :: u64"
abbreviation (input) "NTHL \<equiv> 30 :: u64"
abbreviation (input) "NTHS \<equiv> 31 :: u64"
abbreviation (input) "STRNCMP \<equiv> 32 :: u64"
abbreviation (input) "EXIT \<equiv> 33 :: u64"

abbreviation (input) "CHAR_ty \<equiv> 0 :: int"
abbreviation (input) "SHORT_ty \<equiv> 1 :: int"
abbreviation (input) "INT_ty \<equiv> 2 :: int"
abbreviation (input) "LONG_ty \<equiv> 3 :: int"
abbreviation (input) "ARRAY \<equiv> 4 :: int"
abbreviation (input) "PTR \<equiv> 8 :: int"

section \<open>State\<close>

record sym =
  s_token :: int
  s_class :: int
  s_name :: string
  s_hash :: u64
  s_ref :: nat
  s_type :: int
  s_nr_elm :: nat
  s_value :: u64

text \<open>\<open>s_name\<close> is the text from the place where the identifier was first seen.\<close>

record cst =
  c_p :: string
  c_tk :: int
  c_ival :: u64
  c_ty :: int
  c_code :: "u64 list"
  c_symtab :: "sym list"
  c_n_syms :: nat
  c_id :: nat
  c_str :: "u8 list"

record alloc =
  insn_base :: u64
  str_base :: u64
  data_base :: u64
  fresh_sym :: "nat \<Rightarrow> sym"

datatype cerr = Synerr string | Text_overrun | Code_overrun | Bad_declare | No_fuel

type_synonym 'a res = "cerr + 'a"

definition bnd :: "'a res \<Rightarrow> ('a \<Rightarrow> 'b res) \<Rightarrow> 'b res" where
  "bnd m f = (case m of Inl e \<Rightarrow> Inl e | Inr x \<Rightarrow> f x)"

lemma bnd_simps [simp]: "bnd (Inl e) f = Inl e" "bnd (Inr x) f = f x"
  by (simp_all add: bnd_def)

definition set_tk :: "int \<Rightarrow> string \<Rightarrow> cst \<Rightarrow> cst" where
  "set_tk t cs st = st\<lparr>c_tk := t, c_p := cs\<rparr>"

section \<open>The lexer\<close>

text \<open>A C \<open>char\<close> is signed.\<close>

definition char_val :: "char \<Rightarrow> int" where
  "char_val c = (let n = int (of_char c) in if n < 128 then n else n - 256)"

definition newline :: char where
  "newline = CHR 0x0A"

definition is_lower :: "char \<Rightarrow> bool" where
  "is_lower c \<longleftrightarrow> 97 \<le> char_val c \<and> char_val c \<le> 122"

definition is_upper :: "char \<Rightarrow> bool" where
  "is_upper c \<longleftrightarrow> 65 \<le> char_val c \<and> char_val c \<le> 90"

definition is_digit :: "char \<Rightarrow> bool" where
  "is_digit c \<longleftrightarrow> 48 \<le> char_val c \<and> char_val c \<le> 57"

definition is_ident_start :: "char \<Rightarrow> bool" where
  "is_ident_start c \<longleftrightarrow> is_lower c \<or> is_upper c \<or> c = CHR ''_''"

definition is_ident :: "char \<Rightarrow> bool" where
  "is_ident c \<longleftrightarrow> is_ident_start c \<or> is_digit c"

definition is_hex :: "char \<Rightarrow> bool" where
  "is_hex c \<longleftrightarrow> is_digit c \<or> 97 \<le> char_val c \<and> char_val c \<le> 102 \<or> 65 \<le> char_val c \<and> char_val c \<le> 70"

definition is_octal :: "char \<Rightarrow> bool" where
  "is_octal c \<longleftrightarrow> 48 \<le> char_val c \<and> char_val c \<le> 55"

definition HASH :: "u64 \<Rightarrow> nat \<Rightarrow> u64" where
  "HASH t len = push_bit 6 t + of_nat len"

definition ident_hash :: "string \<Rightarrow> u64" where
  "ident_hash name =
     HASH (foldl (\<lambda>t c. t * 147 + of_int (char_val c)) (of_int (char_val (hd name))) (tl name)) (length name)"

text \<open>The walk over the symbol table: the index where it stops, and whether the name was found.\<close>

fun find_sym :: "string \<Rightarrow> u64 \<Rightarrow> sym list \<Rightarrow> nat \<Rightarrow> nat \<times> bool" where
  "find_sym name h [] i = (i, False)"
| "find_sym name h (s # ss) i =
     (if s_token s = 0 then (i, False)
      else if h = s_hash s \<and> take (length name) (s_name s) = name then (i, True)
      else find_sym name h ss (i + 1))"

definition upd_sym :: "nat \<Rightarrow> (sym \<Rightarrow> sym) \<Rightarrow> cst \<Rightarrow> cst" where
  "upd_sym i f st = st\<lparr>c_symtab := (c_symtab st)[i := f (c_symtab st ! i)]\<rparr>"

definition lex_ident :: "alloc \<Rightarrow> string \<Rightarrow> cst \<Rightarrow> cst" where
  "lex_ident al cs st =
     (let name = takeWhile is_ident cs; rest = dropWhile is_ident cs; h = ident_hash name in
      case find_sym name h (c_symtab st) 0 of
        (i, True) \<Rightarrow> st\<lparr>c_p := rest, c_id := i, c_tk := s_token (c_symtab st ! i)\<rparr>
      | (i, False) \<Rightarrow>
          let nr = length (c_symtab st);
              (tab, j) = (if i = nr then (c_symtab st @ map (fresh_sym al) [nr..<nr + 16], c_n_syms st)
                          else (c_symtab st, i))
          in upd_sym j (\<lambda>s. s\<lparr>s_name := cs, s_hash := h, s_token := IdTok\<rparr>)
               (st\<lparr>c_p := rest, c_id := j, c_tk := IdTok, c_symtab := tab, c_n_syms := c_n_syms st + 1\<rparr>))"

definition digit_val :: "char \<Rightarrow> u64" where
  "digit_val c = of_int (char_val c - 48)"

definition hex_val :: "char \<Rightarrow> u64" where
  "hex_val c = of_int (char_val c mod 16 + (if 65 \<le> char_val c then 9 else 0))"

definition lex_number :: "char \<Rightarrow> string \<Rightarrow> cst \<Rightarrow> cst" where
  "lex_number c cs st =
     (if c \<noteq> CHR ''0'' then
        st\<lparr>c_tk := Num, c_p := dropWhile is_digit cs,
           c_ival := foldl (\<lambda>v d. v * 10 + digit_val d) (digit_val c) (takeWhile is_digit cs)\<rparr>
      else if cs \<noteq> [] \<and> (hd cs = CHR ''x'' \<or> hd cs = CHR ''X'') then
        st\<lparr>c_tk := Num, c_p := dropWhile is_hex (tl cs),
           c_ival := foldl (\<lambda>v d. v * 16 + hex_val d) 0 (takeWhile is_hex (tl cs))\<rparr>
      else
        st\<lparr>c_tk := Num, c_p := dropWhile is_octal cs,
           c_ival := foldl (\<lambda>v d. v * 8 + digit_val d) 0 (takeWhile is_octal cs)\<rparr>)"

text \<open>
  The characters up to the closing quote. Without one the pointer passes the terminating
  zero byte, and the next look at the text is outside of it.
\<close>

fun quoted :: "char \<Rightarrow> string \<Rightarrow> (string \<times> string) option" where
  "quoted q [] = None"
| "quoted q (c # cs) =
     (if c = q then Some ([], cs)
      else if c = CHR 0x5C then
        (case cs of
           [] \<Rightarrow> None
         | d # ds \<Rightarrow> map_option (\<lambda>(xs, r). ((if d = CHR ''n'' then newline else d) # xs, r)) (quoted q ds))
      else map_option (\<lambda>(xs, r). (c # xs, r)) (quoted q cs))"

definition lex_quote :: "alloc \<Rightarrow> char \<Rightarrow> string \<Rightarrow> cst \<Rightarrow> cst res" where
  "lex_quote al q cs st =
     (case quoted q cs of
        None \<Rightarrow> Inl Text_overrun
      | Some (xs, rest) \<Rightarrow>
          Inr (if q = CHR 0x22
               then st\<lparr>c_tk := 34, c_p := rest, c_ival := str_base al + of_nat (length (c_str st)),
                       c_str := c_str st @ map (\<lambda>c. of_int (char_val c)) xs @ [0]\<rparr>
               else st\<lparr>c_tk := Num, c_p := rest,
                       c_ival := (if xs = [] then c_ival st else of_int (char_val (last xs))),
                       c_str := c_str st @ [0]\<rparr>))"

text \<open>\<open>c\<close> followed by one of the given characters is a token of its own, else \<open>t\<close>.\<close>

definition lex_op :: "string \<Rightarrow> (char \<times> int) list \<Rightarrow> int \<Rightarrow> cst \<Rightarrow> cst" where
  "lex_op cs two t st =
     (if cs = [] then set_tk t cs st
      else case map_of two (hd cs) of None \<Rightarrow> set_tk t cs st | Some t2 \<Rightarrow> set_tk t2 (tl cs) st)"

definition skip_line :: "string \<Rightarrow> string" where
  "skip_line cs = dropWhile (\<lambda>c. c \<noteq> newline) cs"

lemma length_skip_line [simp]: "length (skip_line cs) \<le> length cs"
  by (simp add: skip_line_def length_dropWhile_le)

function lex :: "alloc \<Rightarrow> string \<Rightarrow> cst \<Rightarrow> cst res" where
  "lex al [] st = Inr (set_tk 0 [] st)"
| "lex al (c # cs) st =
     (if c = newline then lex al cs st
      else if c = CHR ''#'' then lex al (skip_line cs) st
      else if is_ident_start c then Inr (lex_ident al (c # cs) st)
      else if is_digit c then Inr (lex_number c cs st)
      else if c = CHR ''/'' then
        if cs \<noteq> [] \<and> hd cs = CHR ''/'' then lex al (skip_line (tl cs)) st else Inr (set_tk Div cs st)
      else if c = CHR 0x27 \<or> c = CHR 0x22 then lex_quote al c cs st
      else if c = CHR ''='' then Inr (lex_op cs [(CHR ''='', Eq)] Assign st)
      else if c = CHR ''+'' then Inr (lex_op cs [(CHR ''+'', Inc)] Add st)
      else if c = CHR ''-'' then Inr (lex_op cs [(CHR ''-'', Dec)] Sub st)
      else if c = CHR ''!'' then Inr (lex_op cs [(CHR ''='', Ne)] 33 st)
      else if c = CHR ''<'' then Inr (lex_op cs [(CHR ''='', Le), (CHR ''<'', Shl)] Lt st)
      else if c = CHR ''>'' then Inr (lex_op cs [(CHR ''='', Ge), (CHR ''>'', Shr)] Gt st)
      else if c = CHR ''|'' then Inr (lex_op cs [(CHR ''|'', Lor)] Or st)
      else if c = CHR ''&'' then Inr (lex_op cs [(CHR ''&'', Lan)] And st)
      else if c = CHR ''^'' then Inr (set_tk Xor cs st)
      else if c = CHR ''%'' then Inr (set_tk Mod cs st)
      else if c = CHR ''*'' then Inr (set_tk Mul cs st)
      else if c = CHR ''['' then Inr (set_tk Brak cs st)
      else if c = CHR ''?'' then Inr (set_tk Cond cs st)
      else if c \<in> set ''~;{}()],:'' then Inr (set_tk (char_val c) cs st)
      else lex al cs st)"
  by pat_completeness auto
termination
  by (relation "measure (\<lambda>(al, cs, st). length cs)")
    (auto simp: less_Suc_eq_le intro: order_trans [OF length_skip_line])

definition next_tok :: "alloc \<Rightarrow> cst \<Rightarrow> cst res" where
  "next_tok al st = lex al (c_p st) st"

section \<open>The compiler\<close>

definition emits :: "u64 list \<Rightarrow> cst \<Rightarrow> cst res" where
  "emits ws st =
     (if length (c_code st) + length ws \<le> 1024 then Inr (st\<lparr>c_code := c_code st @ ws\<rparr>) else Inl Code_overrun)"

text \<open>\<open>*(e-1) == LI\<close>: the word before the last one, whatever it is.\<close>

definition prev_is_LI :: "cst \<Rightarrow> bool" where
  "prev_is_LI st \<longleftrightarrow> 2 \<le> length (c_code st) \<and> c_code st ! (length (c_code st) - 2) = LI"

text \<open>Size operand of a load or store, and the step of pointer arithmetic.\<close>

definition ld_size :: "int \<Rightarrow> u64" where
  "ld_size ty = (if PTR \<le> ty then 8 else 2 ^ nat ty)"

definition elem_size :: "int \<Rightarrow> u64" where
  "elem_size ty = (if PTR + PTR \<le> ty then 8 else 2 ^ nat (ty - PTR))"

definition inc_size :: "int \<Rightarrow> u64" where
  "inc_size ty = (if PTR + PTR \<le> ty then 8 else if PTR \<le> ty then 2 ^ nat (ty - PTR) else 1)"

definition set_ty :: "int \<Rightarrow> cst \<Rightarrow> cst" where
  "set_ty t st = st\<lparr>c_ty := t\<rparr>"

text \<open>\<open>*(e-1) = PSH; ++e; *e = *(e-1); *(e-1) = LI\<close>: a load becomes push and load.\<close>

definition keep_address :: "cst \<Rightarrow> cst res" where
  "keep_address st =
     (let c = c_code st; n = length c in
      if 1024 \<le> n then Inl Code_overrun
      else Inr (st\<lparr>c_code := (take (n - 2) c) @ [PSH, LI, c ! (n - 1)]\<rparr>))"

definition patch :: "alloc \<Rightarrow> nat \<Rightarrow> nat \<Rightarrow> cst \<Rightarrow> cst" where
  "patch al d target st = st\<lparr>c_code := (c_code st)[d := insn_base al + 8 * of_nat target]\<rparr>"

fun skip_stars :: "alloc \<Rightarrow> nat \<Rightarrow> int \<Rightarrow> cst \<Rightarrow> (int \<times> cst) res" where
  "skip_stars al 0 t st = Inl No_fuel"
| "skip_stars al (Suc n) t st =
     (if c_tk st = Mul then bnd (next_tok al st) (skip_stars al n (t + PTR)) else Inr (t, st))"

fun skip_strings :: "alloc \<Rightarrow> nat \<Rightarrow> cst \<Rightarrow> cst res" where
  "skip_strings al 0 st = Inl No_fuel"
| "skip_strings al (Suc n) st = (if c_tk st = 34 then bnd (next_tok al st) (skip_strings al n) else Inr st)"

definition expect :: "alloc \<Rightarrow> int \<Rightarrow> string \<Rightarrow> cst \<Rightarrow> cst res" where
  "expect al t msg st = (if c_tk st = t then next_tok al st else Inl (Synerr msg))"

text \<open>A name that is not called: a constant, or the address of a variable and a load.\<close>

definition load_name :: "nat \<Rightarrow> cst \<Rightarrow> cst res" where
  "load_name s st =
     (let sy = c_symtab st ! s in
      if s_class sy = Num then bnd (emits [IMM, s_value sy] st) (\<lambda>st. Inr (set_ty INT_ty st))
      else bnd (if s_class sy = Loc then emits [LEA, - s_value sy] (upd_sym s (\<lambda>y. y\<lparr>s_ref := s_ref y + 1\<rparr>) st)
                else if s_class sy = Glo then emits [IMM, s_value sy] (upd_sym s (\<lambda>y. y\<lparr>s_ref := s_ref y + 1\<rparr>) st)
                else Inl (Synerr ''undefined variable''))
             (\<lambda>st. if s_type sy div ARRAY mod 2 = 1
                   then Inr (set_ty (let t = s_type sy - ARRAY in if t div PTR mod 2 = 1 then t else t + PTR) st)
                   else emits [LI, ld_size (s_type sy)] (set_ty (s_type sy) st)))"

definition call_name :: "nat \<Rightarrow> nat \<Rightarrow> cst \<Rightarrow> cst res" where
  "call_name s t st =
     (let sy = c_symtab st ! s; st1 = upd_sym s (\<lambda>y. y\<lparr>s_ref := s_ref y + 1\<rparr>) st in
      bnd (if s_class sy = Sys then emits [s_value sy] st1
           else if s_class sy = Fun then emits [JSR, s_value sy] st1
           else Inl (Synerr ''bad function call''))
        (\<lambda>st. bnd (if t \<noteq> 0 then emits [ADJ, of_nat t] st else Inr st) (\<lambda>st. Inr (set_ty (s_type sy) st))))"

text \<open>Operators that push, compile the right side at a level of their own and combine.\<close>

definition simple_ops :: "(int \<times> int \<times> u64) list" where
  "simple_ops =
     [(Or, Xor, OR_op), (Xor, And, XOR_op), (And, Eq, AND_op), (Eq, Lt, EQ_op), (Ne, Lt, NE_op),
      (Lt, Shl, LT_op), (Gt, Shl, GT_op), (Le, Shl, LE_op), (Ge, Shl, GE_op), (Shl, Add, SHL_op),
      (Shr, Add, SHR_op), (Mul, Inc, MUL_op), (Div, Inc, DIV_op), (Mod, Inc, MOD_op)]"

fun expr :: "alloc \<Rightarrow> nat \<Rightarrow> int \<Rightarrow> cst \<Rightarrow> cst res"
  and primary :: "alloc \<Rightarrow> nat \<Rightarrow> cst \<Rightarrow> cst res"
  and args :: "alloc \<Rightarrow> nat \<Rightarrow> nat \<Rightarrow> cst \<Rightarrow> (nat \<times> cst) res"
  and climb :: "alloc \<Rightarrow> nat \<Rightarrow> int \<Rightarrow> cst \<Rightarrow> cst res"
  and binary :: "alloc \<Rightarrow> nat \<Rightarrow> cst \<Rightarrow> cst res" where
  "expr al 0 lev st = Inl No_fuel"
| "expr al (Suc n) lev st = bnd (primary al n st) (climb al n lev)"
| "primary al 0 st = Inl No_fuel"
| "primary al (Suc n) st =
     (if c_tk st = 0 then Inl (Synerr ''unexpected eof in expression'')
      else if c_tk st = Num then
        bnd (emits [IMM, c_ival st] st) (\<lambda>st. bnd (next_tok al st) (\<lambda>st. Inr (set_ty INT_ty st)))
      else if c_tk st = 34 then
        bnd (emits [IMM, c_ival st] st) (\<lambda>st. bnd (next_tok al st) (\<lambda>st.
        bnd (skip_strings al n st) (\<lambda>st. Inr (set_ty PTR st))))
      else if c_tk st = Sizeof then
        bnd (next_tok al st) (\<lambda>st. bnd (expect al 40 ''open paren expected in sizeof'' st) (\<lambda>st.
        if c_tk st = IntTok then
          let t = s_type (c_symtab st ! c_id st) in
          bnd (next_tok al st) (\<lambda>st. bnd (skip_stars al n t st) (\<lambda>(t, st).
          bnd (expect al 41 ''close paren expected in sizeof'' st) (\<lambda>st.
          bnd (emits [IMM, ld_size t] st) (\<lambda>st. Inr (set_ty INT_ty st)))))
        else Inl (Synerr ''wrong type'')))
      else if c_tk st = IdTok then
        let s = c_id st in
        bnd (next_tok al st) (\<lambda>st.
        if c_tk st = 40 then
          bnd (next_tok al st) (\<lambda>st. bnd (args al n 0 st) (\<lambda>(t, st).
          bnd (next_tok al st) (\<lambda>st. call_name s t st)))
        else load_name s st)
      else if c_tk st = 40 then
        bnd (next_tok al st) (\<lambda>st.
        if c_tk st = IntTok then
          let t = s_type (c_symtab st ! c_id st) in
          bnd (next_tok al st) (\<lambda>st. bnd (skip_stars al n t st) (\<lambda>(t, st).
          bnd (expect al 41 ''bad cast'' st) (\<lambda>st.
          bnd (expr al n Inc st) (\<lambda>st. Inr (set_ty t st)))))
        else bnd (expr al n Assign st) (expect al 41 ''close paren expected''))
      else if c_tk st = Mul then
        bnd (next_tok al st) (\<lambda>st. bnd (expr al n Inc st) (\<lambda>st.
        if PTR \<le> c_ty st
        then let t = c_ty st - PTR in emits [LI, ld_size t] (set_ty t st)
        else Inl (Synerr ''bad dereference'')))
      else if c_tk st = And then
        bnd (next_tok al st) (\<lambda>st. bnd (expr al n Inc st) (\<lambda>st.
        if prev_is_LI st
        then Inr (set_ty (c_ty st + PTR) (st\<lparr>c_code := take (length (c_code st) - 2) (c_code st)\<rparr>))
        else Inl (Synerr ''bad address-of'')))
      else if c_tk st = 33 then
        bnd (next_tok al st) (\<lambda>st. bnd (expr al n Inc st) (\<lambda>st.
        bnd (emits [PSH, IMM, 0, EQ_op] st) (\<lambda>st. Inr (set_ty INT_ty st))))
      else if c_tk st = 126 then
        bnd (next_tok al st) (\<lambda>st. bnd (expr al n Inc st) (\<lambda>st.
        bnd (emits [PSH, IMM, - 1, XOR_op] st) (\<lambda>st. Inr (set_ty INT_ty st))))
      else if c_tk st = Add then
        bnd (next_tok al st) (\<lambda>st. bnd (expr al n Inc st) (\<lambda>st. Inr (set_ty INT_ty st)))
      else if c_tk st = Sub then
        bnd (next_tok al st) (\<lambda>st. bnd (emits [IMM] st) (\<lambda>st.
        bnd (if c_tk st = Num then bnd (emits [- c_ival st] st) (next_tok al)
             else bnd (emits [- 1, PSH] st) (\<lambda>st. bnd (expr al n Inc st) (emits [MUL_op])))
          (\<lambda>st. Inr (set_ty INT_ty st))))
      else if c_tk st = Inc \<or> c_tk st = Dec then
        let t = c_tk st in
        bnd (next_tok al st) (\<lambda>st. bnd (expr al n Inc st) (\<lambda>st.
        if prev_is_LI st
        then bnd (keep_address st)
               (emits [PSH, IMM, inc_size (c_ty st), if t = Inc then ADD_op else SUB_op, SI, ld_size (c_ty st)])
        else Inl (Synerr ''bad lvalue in pre-increment'')))
      else Inl (Synerr ''bad expression''))"
| "args al 0 t st = Inl No_fuel"
| "args al (Suc n) t st =
     (if c_tk st = 41 then Inr (t, st)
      else bnd (expr al n Assign st) (\<lambda>st. bnd (emits [PSH] st) (\<lambda>st.
           bnd (if c_tk st = 44 then next_tok al st else Inr st) (\<lambda>st. args al n (t + 1) st))))"
| "climb al 0 lev st = Inl No_fuel"
| "climb al (Suc n) lev st =
     (if lev \<le> c_tk st then bnd (binary al n st) (climb al n lev) else Inr st)"
| "binary al 0 st = Inl No_fuel"
| "binary al (Suc n) st =
     (let t = c_ty st in
      if c_tk st = Assign then
        bnd (next_tok al st) (\<lambda>st.
        if prev_is_LI st
        then bnd (expr al n Assign (st\<lparr>c_code := take (length (c_code st) - 2) (c_code st) @ [PSH]\<rparr>)) (\<lambda>st.
             emits [SI, ld_size t] (set_ty t st))
        else Inl (Synerr ''bad lvalue in assignment''))
      else if c_tk st = Cond then
        bnd (next_tok al st) (\<lambda>st. bnd (emits [BZ, 0] st) (\<lambda>st.
        let d = length (c_code st) - 1 in
        bnd (expr al n Assign st) (\<lambda>st. bnd (expect al 58 ''conditional missing colon'' st) (\<lambda>st.
        bnd (emits [JMP, 0] (patch al d (length (c_code st) + 2) st)) (\<lambda>st.
        let d2 = length (c_code st) - 1 in
        bnd (expr al n Cond st) (\<lambda>st. Inr (patch al d2 (length (c_code st)) st)))))))
      else if c_tk st = Lor then
        bnd (next_tok al st) (\<lambda>st. bnd (emits [BNZ, 0] st) (\<lambda>st.
        let d = length (c_code st) - 1 in
        bnd (expr al n Lan st) (\<lambda>st. Inr (set_ty INT_ty (patch al d (length (c_code st)) st)))))
      else if c_tk st = Lan then
        bnd (next_tok al st) (\<lambda>st. bnd (emits [BZ, 0] st) (\<lambda>st.
        let d = length (c_code st) - 1 in
        bnd (expr al n Or st) (\<lambda>st. Inr (set_ty INT_ty (patch al d (length (c_code st)) st)))))
      else if c_tk st = Add then
        bnd (next_tok al st) (\<lambda>st. bnd (emits [PSH] st) (\<lambda>st. bnd (expr al n Mul st) (\<lambda>st.
        bnd (if PTR < t then emits [PSH, IMM, elem_size t, MUL_op] st else Inr st) (\<lambda>st.
        emits [ADD_op] (set_ty t st)))))
      else if c_tk st = Sub then
        bnd (next_tok al st) (\<lambda>st. bnd (emits [PSH] st) (\<lambda>st. bnd (expr al n Mul st) (\<lambda>st.
        if PTR < t \<and> t = c_ty st then
          bnd (emits [SUB_op, PSH, IMM, elem_size t, DIV_op] st) (\<lambda>st. Inr (set_ty INT_ty st))
        else if PTR < t then emits [PSH, IMM, elem_size t, MUL_op, SUB_op] (set_ty t st)
        else emits [SUB_op] (set_ty t st))))
      else if c_tk st = Inc \<or> c_tk st = Dec then
        if prev_is_LI st
        then bnd (keep_address st) (\<lambda>st1.
             bnd (emits [PSH, IMM, inc_size t, if c_tk st = Inc then ADD_op else SUB_op, SI, ld_size t,
                         PSH, IMM, inc_size t, if c_tk st = Inc then SUB_op else ADD_op] st1) (next_tok al))
        else Inl (Synerr ''bad lvalue in post-increment'')
      else if c_tk st = Brak then
        bnd (next_tok al st) (\<lambda>st. bnd (emits [PSH] st) (\<lambda>st. bnd (expr al n Assign st) (\<lambda>st.
        bnd (expect al 93 ''close bracket expected'' st) (\<lambda>st.
        bnd (if PTR < t then emits [PSH, IMM, elem_size t, MUL_op] st
             else if t < PTR then Inl (Synerr ''pointer type expected'') else Inr st) (\<lambda>st.
        emits [ADD_op, LI, ld_size (t - PTR)] (set_ty (t - PTR) st))))))
      else case map_of simple_ops (c_tk st) of
             Some (lev, opc) \<Rightarrow>
               bnd (next_tok al st) (\<lambda>st. bnd (emits [PSH] st) (\<lambda>st.
               bnd (expr al n lev st) (\<lambda>st. bnd (emits [opc] st) (\<lambda>st. Inr (set_ty INT_ty st)))))
           | None \<Rightarrow> Inl (Synerr ''compiler error''))"

section \<open>Declarations and the driver\<close>

text \<open>\<open>ADD_KEY\<close> and \<open>ADD_LIB\<close>: lex the name, then fill in its entry.\<close>

definition add_key :: "alloc \<Rightarrow> string \<times> int \<times> int \<Rightarrow> cst \<Rightarrow> cst res" where
  "add_key al k st =
     (case k of (name, token, type) \<Rightarrow>
        bnd (lex al name st) (\<lambda>st. Inr (upd_sym (c_id st)
          (\<lambda>s. s\<lparr>s_token := token, s_class := 0, s_type := type, s_value := 0\<rparr>) st)))"

definition add_lib :: "alloc \<Rightarrow> string \<times> int \<times> u64 \<Rightarrow> cst \<Rightarrow> cst res" where
  "add_lib al k st =
     (case k of (name, type, insn) \<Rightarrow>
        bnd (lex al name st) (\<lambda>st. Inr (upd_sym (c_id st)
          (\<lambda>s. s\<lparr>s_class := Sys, s_type := type, s_value := insn\<rparr>) st)))"

fun each :: "('a \<Rightarrow> cst \<Rightarrow> cst res) \<Rightarrow> 'a list \<Rightarrow> cst \<Rightarrow> cst res" where
  "each f [] st = Inr st"
| "each f (x # xs) st = bnd (f x st) (each f xs)"

definition key_table :: "(string \<times> int \<times> int) list" where
  "key_table = [(''char'', IntTok, CHAR_ty), (''short'', IntTok, SHORT_ty), (''int'', IntTok, INT_ty),
     (''long'', IntTok, LONG_ty), (''sizeof'', Sizeof, INT_ty)]"

definition lib_table :: "(string \<times> int \<times> u64) list" where
  "lib_table = [(''printf'', INT_ty, PRTF), (''ksymbol'', CHAR_ty + PTR, KSYM), (''ntohl'', INT_ty, NTHL),
     (''ntohs'', SHORT_ty, NTHS), (''strncmp'', INT_ty, STRNCMP)]"

record global_var_declare =
  d_name :: string
  d_offset :: nat
  d_size :: nat
  d_elementsize :: nat

definition decl_type :: "nat \<Rightarrow> int option" where
  "decl_type n = map_of [(1, CHAR_ty), (2, SHORT_ty), (4, INT_ty), (8, LONG_ty)] n"

definition declare_var :: "alloc \<Rightarrow> global_var_declare \<Rightarrow> cst \<Rightarrow> cst res" where
  "declare_var al d st =
     bnd (lex al (d_name d) st) (\<lambda>st.
     case decl_type (d_elementsize d) of
       None \<Rightarrow> Inl Bad_declare
     | Some t \<Rightarrow>
         Inr (upd_sym (c_id st) (\<lambda>s. s\<lparr>s_class := Glo,
                s_type := (if d_size d \<noteq> d_elementsize d then t + ARRAY else t),
                s_nr_elm := d_size d div d_elementsize d,
                s_value := data_base al + of_nat (d_offset d)\<rparr>) st))"

definition max_offset :: "global_var_declare list \<Rightarrow> nat" where
  "max_offset ds = foldl max 0 (map (\<lambda>d. d_offset d + d_size d) ds)"

text \<open>
  The data area grows by 256 bytes until every variable fits; each time the declarations
  are entered anew, with the new address. \<open>data_base\<close> is the last one.
\<close>

definition data_size :: "global_var_declare list \<Rightarrow> nat" where
  "data_size ds = (let m = max_offset ds in if m \<le> 256 then 256 else 256 * ((m + 255) div 256))"

definition empty_sym :: sym where
  "empty_sym = \<lparr>s_token = 0, s_class = 0, s_name = [], s_hash = 0, s_ref = 0, s_type = 0, s_nr_elm = 0, s_value = 0\<rparr>"

definition start_st :: cst where
  "start_st = \<lparr>c_p = [], c_tk = 0, c_ival = 0, c_ty = 0, c_code = [0], c_symtab = replicate 16 empty_sym,
     c_n_syms = 0, c_id = 0, c_str = []\<rparr>"

definition declared :: "alloc \<Rightarrow> global_var_declare list \<Rightarrow> cst res" where
  "declared al ds =
     bnd (each (add_key al) key_table start_st) (\<lambda>st.
     bnd (each (add_lib al) lib_table st) (each (declare_var al) ds))"

fun exprs :: "alloc \<Rightarrow> nat \<Rightarrow> cst \<Rightarrow> cst res" where
  "exprs al 0 st = Inl No_fuel"
| "exprs al (Suc n) st =
     bnd (next_tok al st) (\<lambda>st. bnd (expr al n Assign st) (\<lambda>st.
     if c_tk st = 44 then exprs al n st else emits [EXIT] st))"

record expr_prog =
  p_symtab :: "sym list"
  p_data :: "u8 list"
  p_str :: "u8 list"
  p_insn :: "u64 list"

definition fuel_for :: "string \<Rightarrow> nat" where
  "fuel_for s = 12 * length s + 24"

definition expr_compile :: "alloc \<Rightarrow> string \<Rightarrow> global_var_declare list \<Rightarrow> expr_prog res" where
  "expr_compile al text ds =
     bnd (declared al ds) (\<lambda>st.
     bnd (exprs al (fuel_for text) (st\<lparr>c_p := text\<rparr>)) (\<lambda>st.
     Inr \<lparr>p_symtab = c_symtab st,
          p_data = (if max_offset ds = 0 then [] else replicate (data_size ds) 0),
          p_str = c_str st, p_insn = c_code st\<rparr>))"

section \<open>The virtual machine\<close>

datatype vm_fault = Bad_pc | Bad_stack | Bad_address | Bad_divide | Bad_shift

datatype outcome = Returned u64 | Fault vm_fault

text \<open>
  \<open>v_sp\<close> and \<open>v_bp\<close> are indices into the stack of 512 words, \<open>v_pc\<close> one into the
  instructions; a byte of memory that is not there is \<open>None\<close>.
\<close>

type_synonym memory = "u64 \<Rightarrow> u8 option"

record vm =
  v_pc :: nat
  v_sp :: nat
  v_bp :: nat
  v_a :: u64
  v_stack :: "u64 list"
  v_mem :: memory
  v_out :: "u64 list list"

record world =
  w_insn_base :: u64
  w_stack_base :: u64
  w_printf :: "memory \<Rightarrow> u64 list \<Rightarrow> u64"
  w_ksymbol :: "u64 \<Rightarrow> u64"

text \<open>The code in the memory of the machine: address to index.\<close>

definition to_index :: "world \<Rightarrow> u64 \<Rightarrow> nat" where
  "to_index w a = unat ((a - w_insn_base w) div 8)"

fun load_bytes :: "memory \<Rightarrow> u64 \<Rightarrow> nat \<Rightarrow> u8 list option" where
  "load_bytes m a 0 = Some []"
| "load_bytes m a (Suc n) =
     (case m a of None \<Rightarrow> None | Some b \<Rightarrow> map_option ((#) b) (load_bytes m (a + 1) n))"

fun store_bytes :: "memory \<Rightarrow> u64 \<Rightarrow> u8 list \<Rightarrow> memory option" where
  "store_bytes m a [] = Some m"
| "store_bytes m a (b # bs) =
     (case m a of None \<Rightarrow> None | Some old \<Rightarrow> store_bytes (m(a := Some b)) (a + 1) bs)"

text \<open>Sign extension of \<open>n\<close> bytes.\<close>

definition sext :: "nat \<Rightarrow> u64 \<Rightarrow> u64" where
  "sext n v = of_int (signed_take_bit (8 * n - 1) (uint v))"

definition load_int :: "memory \<Rightarrow> u64 \<Rightarrow> nat \<Rightarrow> u64 option" where
  "load_int m a n = map_option (\<lambda>bs. sext n (of_nat (le_nat bs))) (load_bytes m a n)"

definition store_int :: "memory \<Rightarrow> u64 \<Rightarrow> nat \<Rightarrow> u64 \<Rightarrow> memory option" where
  "store_int m a n v = store_bytes m a (le_bytes n (unat v mod 256 ^ n))"

definition int_sizes :: "u64 list" where
  "int_sizes = [1, 2, 4, 8]"

definition of_truth :: "bool \<Rightarrow> u64" where
  "of_truth b = (if b then 1 else 0)"

text \<open>
  The two-operand instructions: \<open>x\<close> from the stack, \<open>a\<close> the register. Division by zero and
  the one overflowing division trap; a shift by 64 or more, or by a negative amount, has no
  defined result.
\<close>

definition alu :: "u64 \<Rightarrow> u64 \<Rightarrow> u64 \<Rightarrow> vm_fault + u64" where
  "alu opc x a =
     (if opc = OR_op then Inr (x OR a)
      else if opc = XOR_op then Inr (x XOR a)
      else if opc = AND_op then Inr (x AND a)
      else if opc = EQ_op then Inr (of_truth (x = a))
      else if opc = NE_op then Inr (of_truth (x \<noteq> a))
      else if opc = LT_op then Inr (of_truth (sint x < sint a))
      else if opc = GT_op then Inr (of_truth (sint x > sint a))
      else if opc = LE_op then Inr (of_truth (sint x \<le> sint a))
      else if opc = GE_op then Inr (of_truth (sint x \<ge> sint a))
      else if opc = SHL_op then
        (if uint a < 64 then Inr (push_bit (unat a) x) else Inl Bad_shift)
      else if opc = SHR_op then
        (if uint a < 64 then Inr (of_int (sint x div 2 ^ unat a)) else Inl Bad_shift)
      else if opc = ADD_op then Inr (x + a)
      else if opc = SUB_op then Inr (x - a)
      else if opc = MUL_op then Inr (x * a)
      else if a = 0 \<or> (a = - 1 \<and> sint x = - (2 ^ 63)) then Inl Bad_divide
      else if opc = DIV_op then Inr (of_int (sgn (sint x) * sgn (sint a) * (\<bar>sint x\<bar> div \<bar>sint a\<bar>)))
      else Inr (of_int (sgn (sint x) * (\<bar>sint x\<bar> mod \<bar>sint a\<bar>))))"

definition bswap32 :: "u64 \<Rightarrow> u64" where
  "bswap32 v = sext 4 (of_nat (le_nat (rev (le_bytes 4 (unat v mod 256 ^ 4)))))"

definition bswap16 :: "u64 \<Rightarrow> u64" where
  "bswap16 v = sext 2 (of_nat (le_nat (rev (le_bytes 2 (unat v mod 256 ^ 2)))))"

text \<open>\<open>strncmp\<close> of the C lib_table: the difference of the first bytes that differ.\<close>

fun c_strncmp :: "memory \<Rightarrow> u64 \<Rightarrow> u64 \<Rightarrow> nat \<Rightarrow> u64 option" where
  "c_strncmp m a b 0 = Some 0"
| "c_strncmp m a b (Suc n) =
     (case (m a, m b) of
        (Some x, Some y) \<Rightarrow>
          if x \<noteq> y then Some (of_int (uint x - uint y)) else if x = 0 then Some 0
          else c_strncmp m (a + 1) (b + 1) n
      | _ \<Rightarrow> None)"

datatype step_result = Go vm | Stop outcome

definition push :: "u64 \<Rightarrow> vm \<Rightarrow> step_result" where
  "push x v =
     (if v_sp v = 0 then Stop (Fault Bad_stack)
      else Go (v\<lparr>v_sp := v_sp v - 1, v_stack := (v_stack v)[v_sp v - 1 := x]\<rparr>))"

text \<open>The operands that \<open>t = sp + pc[1]\<close> gives: \<open>t[-1], t[-2], \<dots>\<close>.\<close>

definition operands :: "u64 list \<Rightarrow> vm \<Rightarrow> nat \<Rightarrow> u64 list option" where
  "operands insn v k =
     (if v_pc v + 1 < length insn \<and> v_sp v + unat (insn ! (v_pc v + 1)) \<le> 512 \<and>
         k \<le> v_sp v + unat (insn ! (v_pc v + 1))
      then Some (map (\<lambda>j. v_stack v ! (v_sp v + unat (insn ! (v_pc v + 1)) - 1 - j)) [0..<k])
      else None)"

text \<open>
  One instruction, after its opcode \<open>i\<close> was fetched and the pc moved behind it; \<open>x\<close> is the
  word at the pc, the operand of the instructions that have one.
\<close>

definition exec :: "world \<Rightarrow> u64 list \<Rightarrow> u64 \<Rightarrow> u64 \<Rightarrow> vm \<Rightarrow> step_result" where
  "exec w insn i x v =
     (if i = LEA then Go (v\<lparr>v_a := w_stack_base w + 8 * (of_nat (v_bp v) + x), v_pc := v_pc v + 1\<rparr>)
      else if i = IMM then Go (v\<lparr>v_a := x, v_pc := v_pc v + 1\<rparr>)
      else if i = JMP then Go (v\<lparr>v_pc := to_index w x\<rparr>)
      else if i = JSR then
        push (w_insn_base w + 8 * of_nat (v_pc v + 1)) (v\<lparr>v_pc := to_index w x\<rparr>)
      else if i = BZ then Go (v\<lparr>v_pc := (if v_a v \<noteq> 0 then v_pc v + 1 else to_index w x)\<rparr>)
      else if i = BNZ then Go (v\<lparr>v_pc := (if v_a v \<noteq> 0 then to_index w x else v_pc v + 1)\<rparr>)
      else if i = ENT then
        (case push (w_stack_base w + 8 * of_nat (v_bp v)) v of
           Go v1 \<Rightarrow> if uint x \<le> int (v_sp v1)
                    then Go (v1\<lparr>v_bp := v_sp v1, v_sp := v_sp v1 - unat x, v_pc := v_pc v1 + 1\<rparr>)
                    else Stop (Fault Bad_stack)
         | r \<Rightarrow> r)
      else if i = ADJ then
        (if uint x + int (v_sp v) \<le> 512 then Go (v\<lparr>v_sp := v_sp v + unat x, v_pc := v_pc v + 1\<rparr>)
         else Stop (Fault Bad_stack))
      else if i = LI then
        (if x \<in> set int_sizes then
           case load_int (v_mem v) (v_a v) (unat x) of
             None \<Rightarrow> Stop (Fault Bad_address)
           | Some y \<Rightarrow> Go (v\<lparr>v_a := y, v_pc := v_pc v + 1\<rparr>)
         else Stop (Returned (- 1)))
      else if i = SI then
        (if x \<in> set int_sizes then
           if 512 \<le> v_sp v then Stop (Fault Bad_stack)
           else case store_int (v_mem v) (v_stack v ! v_sp v) (unat x) (v_a v) of
                  None \<Rightarrow> Stop (Fault Bad_address)
                | Some m \<Rightarrow> Go (v\<lparr>v_mem := m, v_sp := v_sp v + 1, v_pc := v_pc v + 1\<rparr>)
         else Stop (Returned (- 1)))
      else if i = LEV then
        (if 510 < v_bp v then Stop (Fault Bad_stack)
         else Go (v\<lparr>v_sp := v_bp v + 2, v_bp := unat ((v_stack v ! v_bp v - w_stack_base w) div 8),
                    v_pc := to_index w (v_stack v ! (v_bp v + 1))\<rparr>))
      else if i = PSH then push (v_a v) v
      else if i \<le> MOD_op then
        (if 512 \<le> v_sp v then Stop (Fault Bad_stack)
         else case alu i (v_stack v ! v_sp v) (v_a v) of
                Inl f \<Rightarrow> Stop (Fault f)
              | Inr y \<Rightarrow> Go (v\<lparr>v_a := y, v_sp := v_sp v + 1\<rparr>))
      else if i = PRTF then
        (case operands insn v 7 of
           None \<Rightarrow> Stop (Fault Bad_stack)
         | Some ts \<Rightarrow> Go (v\<lparr>v_a := w_printf w (v_mem v) ts, v_out := v_out v @ [ts]\<rparr>))
      else if i = KSYM \<or> i = NTHL \<or> i = NTHS then
        (if 512 \<le> v_sp v then Stop (Fault Bad_stack)
         else let t = v_stack v ! v_sp v in
              Go (v\<lparr>v_a := (if i = KSYM then w_ksymbol w t else if i = NTHL then bswap32 t else bswap16 t)\<rparr>))
      else if i = STRNCMP then
        (case operands insn v 3 of
           None \<Rightarrow> Stop (Fault Bad_stack)
         | Some ts \<Rightarrow>
             case c_strncmp (v_mem v) (ts ! 0) (ts ! 1) (unat (ts ! 2)) of
               None \<Rightarrow> Stop (Fault Bad_address)
             | Some y \<Rightarrow> Go (v\<lparr>v_a := y\<rparr>))
      else if i = EXIT then Stop (Returned (v_a v))
      else Stop (Returned (- 1)))"

definition step :: "world \<Rightarrow> u64 list \<Rightarrow> vm \<Rightarrow> step_result" where
  "step w insn v =
     (if v_pc v < length insn then
        let i = insn ! v_pc v; v1 = v\<lparr>v_pc := v_pc v + 1\<rparr> in
        if i \<le> SI \<and> length insn \<le> v_pc v1 then Stop (Fault Bad_pc)
        else exec w insn i (if v_pc v1 < length insn then insn ! v_pc v1 else 0) v1
      else Stop (Fault Bad_pc))"

partial_function (option) run :: "world \<Rightarrow> u64 list \<Rightarrow> vm \<Rightarrow> (outcome \<times> vm) option" where
  "run w insn v =
     (case step w insn v of Stop r \<Rightarrow> Some (r, v) | Go v1 \<Rightarrow> run w insn v1)"

declare run.simps [code]

definition init_vm :: "memory \<Rightarrow> vm" where
  "init_vm m = \<lparr>v_pc = 1, v_sp = 512, v_bp = 512, v_a = 0, v_stack = replicate 512 0, v_mem = m, v_out = []\<rparr>"

definition expr_run :: "world \<Rightarrow> expr_prog \<Rightarrow> memory \<Rightarrow> (outcome \<times> vm) option" where
  "expr_run w prog m = run w (p_insn prog) (init_vm m)"

section \<open>Loading values\<close>

definition area :: "u64 \<Rightarrow> u8 list \<Rightarrow> memory" where
  "area base bs a = (if uint (a - base) < int (length bs) then Some (bs ! unat (a - base)) else None)"

text \<open>\<open>expr_load_glo\<close> searches from the end of the table; the result 0 is \<open>Some\<close>.\<close>

fun load_glo_from :: "string \<Rightarrow> u64 \<Rightarrow> sym list \<Rightarrow> memory \<Rightarrow> memory option" where
  "load_glo_from name v [] m = None"
| "load_glo_from name v (s # ss) m =
     (if s_token s = IdTok \<and> s_class s = Glo \<and>
         take (unat (s_hash s AND 63)) (s_name s) = take (unat (s_hash s AND 63)) name then
        if s_type s \<in> {CHAR_ty, SHORT_ty, INT_ty, LONG_ty}
        then store_int m (s_value s) (2 ^ nat (s_type s)) v
        else None
      else load_glo_from name v ss m)"

definition expr_load_glo :: "expr_prog \<Rightarrow> string \<Rightarrow> u64 \<Rightarrow> memory \<Rightarrow> memory option" where
  "expr_load_glo prog name v m = load_glo_from name v (rev (p_symtab prog)) m"

datatype load_result = Loaded "u8 list" | Refused | Out_of_bounds

text \<open>\<open>memcpy\<close> of \<open>size\<close> bytes, then a zero byte behind them.\<close>

definition expr_load_data :: "expr_prog \<Rightarrow> u8 list \<Rightarrow> load_result" where
  "expr_load_data prog d =
     (if length (p_data prog) < length d then Refused
      else if length d < length (p_data prog)
        then Loaded (d @ 0 # drop (length d + 1) (p_data prog))
        else Out_of_bounds)"

end
