(* ===== verification/Expr_Correct.thy ===== *)
theory Expr_Correct
  imports Expr
begin

text \<open>
  Correctness of the expression compiler: an expression over integers and scalar global
  variables, written out with parentheses, is accepted, and running the instructions
  computes its value, performs its assignments, or traps as it does.
\<close>

unbundle bit_operations_syntax

section \<open>Expressions, their text and their meaning\<close>

datatype uop = UNot | UCom | UPlus | UNeg

datatype bop =
    BOr | BXor | BAnd | BEq | BNe | BLt | BGt | BLe | BGe | BShl | BShr | BAdd | BSub | BMul | BDiv | BMod

datatype ast =
    ANum nat
  | AVar string
  | AUn uop ast
  | ABin bop ast ast
  | ALan ast ast
  | ALor ast ast
  | ACond ast ast ast
  | AAsg string ast

fun uop_text :: "uop \<Rightarrow> string" where
  "uop_text UNot = ''!''" | "uop_text UCom = ''~''" | "uop_text UPlus = ''+''" | "uop_text UNeg = ''-''"

fun bop_text :: "bop \<Rightarrow> string" where
  "bop_text BOr = ''|''" | "bop_text BXor = ''^''" | "bop_text BAnd = ''&''" | "bop_text BEq = ''==''"
| "bop_text BNe = ''!=''" | "bop_text BLt = ''<''" | "bop_text BGt = ''>''" | "bop_text BLe = ''<=''"
| "bop_text BGe = ''>=''" | "bop_text BShl = ''<<''" | "bop_text BShr = ''>>''" | "bop_text BAdd = ''+''"
| "bop_text BSub = ''-''" | "bop_text BMul = ''*''" | "bop_text BDiv = ''/''" | "bop_text BMod = ''%''"

fun bop_tk :: "bop \<Rightarrow> int" where
  "bop_tk BOr = Or" | "bop_tk BXor = Xor" | "bop_tk BAnd = And" | "bop_tk BEq = Eq"
| "bop_tk BNe = Ne" | "bop_tk BLt = Lt" | "bop_tk BGt = Gt" | "bop_tk BLe = Le"
| "bop_tk BGe = Ge" | "bop_tk BShl = Shl" | "bop_tk BShr = Shr" | "bop_tk BAdd = Add"
| "bop_tk BSub = Sub" | "bop_tk BMul = Mul" | "bop_tk BDiv = Div" | "bop_tk BMod = Mod"

fun bop_insn :: "bop \<Rightarrow> u64" where
  "bop_insn BOr = OR_op" | "bop_insn BXor = XOR_op" | "bop_insn BAnd = AND_op" | "bop_insn BEq = EQ_op"
| "bop_insn BNe = NE_op" | "bop_insn BLt = LT_op" | "bop_insn BGt = GT_op" | "bop_insn BLe = LE_op"
| "bop_insn BGe = GE_op" | "bop_insn BShl = SHL_op" | "bop_insn BShr = SHR_op" | "bop_insn BAdd = ADD_op"
| "bop_insn BSub = SUB_op" | "bop_insn BMul = MUL_op" | "bop_insn BDiv = DIV_op" | "bop_insn BMod = MOD_op"

fun digits :: "nat \<Rightarrow> string" where
  "digits n = (if n < 10 then [char_of (48 + n)] else digits (n div 10) @ [char_of (48 + n mod 10)])"

declare digits.simps [simp del]

definition sp :: string where "sp = '' ''"

fun text_of :: "ast \<Rightarrow> string" where
  "text_of (ANum n) = digits n"
| "text_of (AVar x) = x"
| "text_of (AUn u a) = uop_text u @ sp @ text_of a"
| "text_of (ABin b x y) = ''('' @ text_of x @ sp @ bop_text b @ sp @ text_of y @ '')''"
| "text_of (ALan x y) = ''('' @ text_of x @ sp @ ''&&'' @ sp @ text_of y @ '')''"
| "text_of (ALor x y) = ''('' @ text_of x @ sp @ ''||'' @ sp @ text_of y @ '')''"
| "text_of (ACond x y z) = ''('' @ text_of x @ sp @ ''?'' @ sp @ text_of y @ sp @ '':'' @ sp @ text_of z @ '')''"
| "text_of (AAsg x y) = ''('' @ x @ sp @ ''='' @ sp @ text_of y @ '')''"

text \<open>A variable has an address and a size in bytes.\<close>

type_synonym venv = "string \<Rightarrow> u64 \<times> nat"

text \<open>
  The meaning of an expression. The logical operators give the value of the operand that
  decides, an assignment the value before truncation.
\<close>

fun eval :: "venv \<Rightarrow> ast \<Rightarrow> memory \<Rightarrow> vm_fault + (u64 \<times> memory)" where
  "eval E (ANum n) m = Inr (of_nat n, m)"
| "eval E (AVar x) m =
     (case load_int m (fst (E x)) (snd (E x)) of None \<Rightarrow> Inl Bad_address | Some v \<Rightarrow> Inr (v, m))"
| "eval E (AUn u a) m =
     (case eval E a m of
        Inl f \<Rightarrow> Inl f
      | Inr (v, m1) \<Rightarrow>
          Inr (case u of UNot \<Rightarrow> of_truth (v = 0) | UCom \<Rightarrow> NOT v | UPlus \<Rightarrow> v | UNeg \<Rightarrow> - v, m1))"
| "eval E (ABin b x y) m =
     (case eval E x m of
        Inl f \<Rightarrow> Inl f
      | Inr (v, m1) \<Rightarrow>
          (case eval E y m1 of
             Inl f \<Rightarrow> Inl f
           | Inr (w, m2) \<Rightarrow> (case alu (bop_insn b) v w of Inl f \<Rightarrow> Inl f | Inr r \<Rightarrow> Inr (r, m2))))"
| "eval E (ALan x y) m =
     (case eval E x m of Inl f \<Rightarrow> Inl f | Inr (v, m1) \<Rightarrow> if v = 0 then Inr (v, m1) else eval E y m1)"
| "eval E (ALor x y) m =
     (case eval E x m of Inl f \<Rightarrow> Inl f | Inr (v, m1) \<Rightarrow> if v = 0 then eval E y m1 else Inr (v, m1))"
| "eval E (ACond x y z) m =
     (case eval E x m of Inl f \<Rightarrow> Inl f | Inr (v, m1) \<Rightarrow> if v = 0 then eval E z m1 else eval E y m1)"
| "eval E (AAsg x y) m =
     (case eval E y m of
        Inl f \<Rightarrow> Inl f
      | Inr (v, m1) \<Rightarrow>
          (case store_int m1 (fst (E x)) (snd (E x)) v of None \<Rightarrow> Inl Bad_address | Some m2 \<Rightarrow> Inr (v, m2)))"

text \<open>The instructions of an expression that start at index \<open>k\<close>.\<close>

fun gen :: "u64 \<Rightarrow> venv \<Rightarrow> ast \<Rightarrow> nat \<Rightarrow> u64 list" where
  "gen I E (ANum n) k = [IMM, of_nat n]"
| "gen I E (AVar x) k = [IMM, fst (E x), LI, of_nat (snd (E x))]"
| "gen I E (AUn u a) k =
     (case u of
        UNot \<Rightarrow> gen I E a k @ [PSH, IMM, 0, EQ_op]
      | UCom \<Rightarrow> gen I E a k @ [PSH, IMM, - 1, XOR_op]
      | UPlus \<Rightarrow> gen I E a k
      | UNeg \<Rightarrow> (case a of ANum n \<Rightarrow> [IMM, - of_nat n] | _ \<Rightarrow> [IMM, - 1, PSH] @ gen I E a (k + 3) @ [MUL_op]))"
| "gen I E (ABin b x y) k =
     (let cx = gen I E x k in cx @ [PSH] @ gen I E y (k + length cx + 1) @ [bop_insn b])"
| "gen I E (ALan x y) k =
     (let cx = gen I E x k; cy = gen I E y (k + length cx + 2)
      in cx @ [BZ, I + 8 * of_nat (k + length cx + 2 + length cy)] @ cy)"
| "gen I E (ALor x y) k =
     (let cx = gen I E x k; cy = gen I E y (k + length cx + 2)
      in cx @ [BNZ, I + 8 * of_nat (k + length cx + 2 + length cy)] @ cy)"
| "gen I E (ACond x y z) k =
     (let cx = gen I E x k; k1 = k + length cx + 2; cy = gen I E y k1;
          k2 = k1 + length cy + 2; cz = gen I E z k2
      in cx @ [BZ, I + 8 * of_nat k2] @ cy @ [JMP, I + 8 * of_nat (k2 + length cz)] @ cz)"
| "gen I E (AAsg x y) k = [IMM, fst (E x), PSH] @ gen I E y (k + 3) @ [SI, of_nat (snd (E x))]"

text \<open>How many words an expression keeps on the stack.\<close>

fun depth :: "ast \<Rightarrow> nat" where
  "depth (ANum n) = 0"
| "depth (AVar x) = 0"
| "depth (AUn u a) = depth a + 1"
| "depth (ABin b x y) = max (depth x) (depth y + 1)"
| "depth (ALan x y) = max (depth x) (depth y)"
| "depth (ALor x y) = max (depth x) (depth y)"
| "depth (ACond x y z) = max (depth x) (max (depth y) (depth z))"
| "depth (AAsg x y) = depth y + 1"

fun vars :: "ast \<Rightarrow> string list" where
  "vars (ANum n) = []"
| "vars (AVar x) = [x]"
| "vars (AUn u a) = vars a"
| "vars (ABin b x y) = vars x @ vars y"
| "vars (ALan x y) = vars x @ vars y"
| "vars (ALor x y) = vars x @ vars y"
| "vars (ACond x y z) = vars x @ vars y @ vars z"
| "vars (AAsg x y) = x # vars y"

section \<open>Running the instructions\<close>

text \<open>\<open>c\<close> stands in the program at index \<open>k\<close>.\<close>

definition at :: "u64 list \<Rightarrow> nat \<Rightarrow> u64 list \<Rightarrow> bool" where
  "at insn k c \<longleftrightarrow> (\<exists>pre post. insn = pre @ c @ post \<and> length pre = k)"

lemma at_append: "at insn k (c @ d) \<longleftrightarrow> at insn k c \<and> at insn (k + length c) d"
proof
  assume "at insn k (c @ d)"
  then obtain pre post where p: "insn = pre @ (c @ d) @ post" "length pre = k" by (auto simp: at_def)
  then have "insn = pre @ c @ (d @ post)" "insn = (pre @ c) @ d @ post" "length (pre @ c) = k + length c" by auto
  then show "at insn k c \<and> at insn (k + length c) d" unfolding at_def using p(2) by blast
next
  assume "at insn k c \<and> at insn (k + length c) d"
  then obtain p q p' q' where a: "insn = p @ c @ q" "length p = k" and b: "insn = p' @ d @ q'" "length p' = k + length c"
    unfolding at_def by blast
  have "p' = take (k + length c) insn" using b by simp
  also have "\<dots> = p @ c" using a by simp
  finally show "at insn k (c @ d)" using a(2) b(1) unfolding at_def by auto
qed

lemma at_Cons: "at insn k (x # c) \<longleftrightarrow> k < length insn \<and> insn ! k = x \<and> at insn (k + 1) c"
proof -
  have 1: "at insn k [x] \<longleftrightarrow> k < length insn \<and> insn ! k = x"
  proof
    assume "k < length insn \<and> insn ! k = x"
    then have "insn = take k insn @ [x] @ drop (Suc k) insn" "length (take k insn) = k"
      using id_take_nth_drop [of k insn] by auto
    then show "at insn k [x]" unfolding at_def by blast
  qed (auto simp: at_def)
  then show ?thesis using at_append [of insn k "[x]" c] by simp
qed

lemma plus_Sucs: "(k::nat) + 2 = Suc (Suc k)" "k + 3 = Suc (Suc (Suc k))" "k + 4 = Suc (Suc (Suc (Suc k)))"
    "2 + k = Suc (Suc k)" "3 + k = Suc (Suc (Suc k))"
  by simp_all

lemma at_empty [simp]: "at insn k [] \<longleftrightarrow> k \<le> length insn"
  unfolding at_def by (metis append.left_neutral append_take_drop_id le_add1 length_append length_take min.absorb2)

lemma at_le: "at insn k c \<Longrightarrow> k + length c \<le> length insn"
  by (auto simp: at_def)

text \<open>
  One machine state reaches another in some steps; \<open>reaches\<close> ends in a state, \<open>stops\<close> in an
  outcome.
\<close>

inductive reaches :: "world \<Rightarrow> u64 list \<Rightarrow> vm \<Rightarrow> vm \<Rightarrow> bool" for w insn where
  reaches_refl: "reaches w insn v v"
| reaches_step: "step w insn v = Go v1 \<Longrightarrow> reaches w insn v1 v2 \<Longrightarrow> reaches w insn v v2"

lemma reaches_trans: "reaches w insn a b \<Longrightarrow> reaches w insn b c \<Longrightarrow> reaches w insn a c"
  by (induction rule: reaches.induct) (auto intro: reaches_step)

lemma reaches_one: "step w insn v = Go v1 \<Longrightarrow> reaches w insn v v1"
  by (blast intro: reaches.intros)

lemma reaches_run: "reaches w insn v v1 \<Longrightarrow> run w insn v = run w insn v1"
  by (induction rule: reaches.induct) (simp_all add: run.simps [of w insn])

definition stops :: "world \<Rightarrow> u64 list \<Rightarrow> vm \<Rightarrow> outcome \<Rightarrow> bool" where
  "stops w insn v r \<longleftrightarrow> (\<exists>v1. reaches w insn v v1 \<and> step w insn v1 = Stop r)"

lemma reaches_stops: "reaches w insn v v1 \<Longrightarrow> stops w insn v1 r \<Longrightarrow> stops w insn v r"
  unfolding stops_def using reaches_trans by blast

lemma stops_run: "stops w insn v r \<Longrightarrow> \<exists>v1. run w insn v = Some (r, v1)"
proof -
  assume "stops w insn v r"
  then obtain v1 where v1: "reaches w insn v v1" "step w insn v1 = Stop r" by (auto simp: stops_def)
  then have "run w insn v1 = Some (r, v1)" by (simp add: run.simps [of w insn v1])
  then show ?thesis using reaches_run [OF v1(1)] by simp
qed

text \<open>Single instructions.\<close>

lemma step_IMM: "at insn (v_pc v) [IMM, x] \<Longrightarrow> step w insn v = Go (v\<lparr>v_pc := v_pc v + 2, v_a := x\<rparr>)"
  by (simp add: at_Cons step_def exec_def Let_def)

lemma step_PSH:
  "at insn (v_pc v) [PSH] \<Longrightarrow> 0 < v_sp v \<Longrightarrow>
   step w insn v = Go (v\<lparr>v_pc := v_pc v + 1, v_sp := v_sp v - 1, v_stack := (v_stack v)[v_sp v - 1 := v_a v]\<rparr>)"
  by (simp add: at_Cons step_def exec_def push_def Let_def)

lemma step_JMP: "at insn (v_pc v) [JMP, x] \<Longrightarrow> step w insn v = Go (v\<lparr>v_pc := to_index w x\<rparr>)"
  by (simp add: at_Cons step_def exec_def Let_def)

lemma step_BZ:
  "at insn (v_pc v) [BZ, x] \<Longrightarrow>
   step w insn v = Go (v\<lparr>v_pc := if v_a v \<noteq> 0 then v_pc v + 2 else to_index w x\<rparr>)"
  by (simp add: at_Cons step_def exec_def Let_def)

lemma step_BNZ:
  "at insn (v_pc v) [BNZ, x] \<Longrightarrow>
   step w insn v = Go (v\<lparr>v_pc := if v_a v \<noteq> 0 then to_index w x else v_pc v + 2\<rparr>)"
  by (simp add: at_Cons step_def exec_def Let_def)

lemma step_EXIT: "at insn (v_pc v) [EXIT] \<Longrightarrow> step w insn v = Stop (Returned (v_a v))"
  by (simp add: at_Cons step_def exec_def Let_def)

definition int_size :: "nat \<Rightarrow> bool" where
  "int_size n \<longleftrightarrow> n = 1 \<or> n = 2 \<or> n = 4 \<or> n = 8"

lemma int_size_word: "int_size n \<Longrightarrow> (of_nat n :: u64) \<in> set int_sizes \<and> unat (of_nat n :: u64) = n"
  by (auto simp: int_size_def int_sizes_def)

lemma step_LI:
  assumes "at insn (v_pc v) [LI, of_nat n]" "int_size n"
  shows "step w insn v = (case load_int (v_mem v) (v_a v) n of
     None \<Rightarrow> Stop (Fault Bad_address) | Some y \<Rightarrow> Go (v\<lparr>v_pc := v_pc v + 2, v_a := y\<rparr>))"
  using assms int_size_word [OF assms(2)] by (simp add: at_Cons step_def exec_def Let_def split: option.split)

lemma step_SI:
  assumes "at insn (v_pc v) [SI, of_nat n]" "int_size n" "v_sp v < 512"
  shows "step w insn v = (case store_int (v_mem v) (v_stack v ! v_sp v) n (v_a v) of
     None \<Rightarrow> Stop (Fault Bad_address)
   | Some m \<Rightarrow> Go (v\<lparr>v_pc := v_pc v + 2, v_sp := v_sp v + 1, v_mem := m\<rparr>))"
  using assms int_size_word [OF assms(2)] by (simp add: at_Cons step_def exec_def Let_def split: option.split)

lemma step_alu:
  assumes "at insn (v_pc v) [bop_insn b]" "v_sp v < 512"
  shows "step w insn v = (case alu (bop_insn b) (v_stack v ! v_sp v) (v_a v) of
     Inl f \<Rightarrow> Stop (Fault f) | Inr y \<Rightarrow> Go (v\<lparr>v_pc := v_pc v + 1, v_sp := v_sp v + 1, v_a := y\<rparr>))"
proof -
  define i where "i = bop_insn b"
  have i: "i \<le> MOD_op" "\<not> i \<le> SI"
    "i \<noteq> LEA \<and> i \<noteq> IMM \<and> i \<noteq> JMP \<and> i \<noteq> JSR \<and> i \<noteq> BZ \<and> i \<noteq> BNZ \<and> i \<noteq> ENT \<and> i \<noteq> ADJ \<and>
     i \<noteq> LI \<and> i \<noteq> SI \<and> i \<noteq> LEV \<and> i \<noteq> PSH"
    unfolding i_def by (cases b; simp)+
  have "insn ! v_pc v = i" "v_pc v < length insn" using assms(1) by (simp_all add: at_Cons i_def)
  then show ?thesis using i assms(2) unfolding i_def [symmetric] step_def exec_def Let_def
    by (simp split: sum.split)
qed

text \<open>
  From \<open>v\<close> the machine arrives at index \<open>k\<close> with the result in the register and the stack
  as it was from the stack pointer on, or it traps.
\<close>

definition runs :: "world \<Rightarrow> u64 list \<Rightarrow> vm \<Rightarrow> nat \<Rightarrow> vm_fault + (u64 \<times> memory) \<Rightarrow> bool" where
  "runs w insn v k res \<longleftrightarrow>
     (case res of
        Inl f \<Rightarrow> stops w insn v (Fault f)
      | Inr (y, m) \<Rightarrow>
          \<exists>stk. length stk = length (v_stack v) \<and> drop (v_sp v) stk = drop (v_sp v) (v_stack v) \<and>
            reaches w insn v (v\<lparr>v_pc := k, v_a := y, v_mem := m, v_stack := stk\<rparr>))"

lemma runs_Inr: "reaches w insn v (v\<lparr>v_pc := k, v_a := y, v_mem := m, v_stack := stk\<rparr>) \<Longrightarrow>
    length stk = length (v_stack v) \<Longrightarrow> drop (v_sp v) stk = drop (v_sp v) (v_stack v) \<Longrightarrow> runs w insn v k (Inr (y, m))"
  by (auto simp: runs_def)

text \<open>Sequencing: first one result, then what follows from it.\<close>

lemma runs_seq:
  assumes "runs w insn v k1 r1"
    and "\<And>y m stk. r1 = Inr (y, m) \<Longrightarrow> length stk = length (v_stack v) \<Longrightarrow>
          drop (v_sp v) stk = drop (v_sp v) (v_stack v) \<Longrightarrow>
          runs w insn (v\<lparr>v_pc := k1, v_a := y, v_mem := m, v_stack := stk\<rparr>) k2 (g (y, m))"
  shows "runs w insn v k2 (case r1 of Inl f \<Rightarrow> Inl f | Inr ym \<Rightarrow> g ym)"
proof (cases r1)
  case (Inl f)
  then show ?thesis using assms(1) by (simp add: runs_def)
next
  case (Inr ym)
  obtain y m where ym: "ym = (y, m)" by (cases ym)
  obtain stk where stk: "length stk = length (v_stack v)" "drop (v_sp v) stk = drop (v_sp v) (v_stack v)"
    "reaches w insn v (v\<lparr>v_pc := k1, v_a := y, v_mem := m, v_stack := stk\<rparr>)"
    using assms(1) Inr ym by (auto simp: runs_def)
  have "runs w insn (v\<lparr>v_pc := k1, v_a := y, v_mem := m, v_stack := stk\<rparr>) k2 (g (y, m))"
    using assms(2) Inr ym stk by blast
  then show ?thesis using stk Inr ym unfolding runs_def
    by (auto split: sum.splits intro: reaches_stops reaches_trans)
qed

lemma runs_step:
  assumes "step w insn v = Go (v\<lparr>v_pc := p, v_a := a\<rparr>)" "runs w insn (v\<lparr>v_pc := p, v_a := a\<rparr>) k r"
  shows "runs w insn v k r"
  using assms unfolding runs_def
  by (auto split: sum.splits intro: reaches_stops [OF reaches_one] reaches_step)

text \<open>Push the register, compute another value, and combine the two by a popping instruction.\<close>

lemma runs_pushed:
  assumes psh: "at insn (v_pc v) [PSH]" and s: "0 < v_sp v" "v_sp v \<le> 512" "length (v_stack v) = 512"
    and sub: "runs w insn (v\<lparr>v_pc := v_pc v + 1, v_sp := v_sp v - 1, v_stack := (v_stack v)[v_sp v - 1 := v_a v]\<rparr>) k1 r1"
    and pop: "\<And>v1 y m. r1 = Inr (y, m) \<Longrightarrow> v_pc v1 = k1 \<Longrightarrow> v_sp v1 = v_sp v - 1 \<Longrightarrow> v_a v1 = y \<Longrightarrow> v_mem v1 = m \<Longrightarrow>
        v_stack v1 ! (v_sp v - 1) = v_a v \<Longrightarrow>
        step w insn v1 = (case g (y, m) of Inl f \<Rightarrow> Stop (Fault f)
          | Inr (z, m2) \<Rightarrow> Go (v1\<lparr>v_pc := k2, v_sp := v_sp v, v_a := z, v_mem := m2\<rparr>))"
  shows "runs w insn v k2 (case r1 of Inl f \<Rightarrow> Inl f | Inr ym \<Rightarrow> g ym)"
proof -
  define u where "u = v\<lparr>v_pc := v_pc v + 1, v_sp := v_sp v - 1, v_stack := (v_stack v)[v_sp v - 1 := v_a v]\<rparr>"
  have 1: "reaches w insn v u" unfolding u_def by (rule reaches_one [OF step_PSH [OF psh s(1)]])
  show ?thesis
  proof (cases r1)
    case (Inl f)
    then show ?thesis using sub reaches_stops [OF 1] by (simp add: runs_def u_def)
  next
    case (Inr ym)
    obtain y m where ym: "ym = (y, m)" by (cases ym)
    obtain stk where stk: "length stk = 512" "drop (v_sp v - 1) stk = drop (v_sp v - 1) (v_stack u)"
      "reaches w insn u (u\<lparr>v_pc := k1, v_a := y, v_mem := m, v_stack := stk\<rparr>)"
      using sub Inr ym s unfolding runs_def u_def by auto
    let ?v1 = "u\<lparr>v_pc := k1, v_a := y, v_mem := m, v_stack := stk\<rparr>"
    have top: "stk ! (v_sp v - 1) = v_a v"
      using stk(1,2) s hd_drop_conv_nth [of "v_sp v - 1" stk] hd_drop_conv_nth [of "v_sp v - 1" "v_stack u"]
      by (simp add: u_def)
    have "drop 1 (drop (v_sp v - 1) stk) = drop 1 (drop (v_sp v - 1) (v_stack u))" using stk(2) by simp
    then have rest: "drop (v_sp v) stk = drop (v_sp v) (v_stack v)" using s(1) by (simp add: u_def)
    have st: "step w insn ?v1 = (case g (y, m) of Inl f \<Rightarrow> Stop (Fault f)
          | Inr (z, m2) \<Rightarrow> Go (?v1\<lparr>v_pc := k2, v_sp := v_sp v, v_a := z, v_mem := m2\<rparr>))"
      by (rule pop) (use top in \<open>simp_all add: Inr ym u_def\<close>)
    have 2: "reaches w insn v ?v1" by (rule reaches_trans [OF 1 stk(3)])
    show ?thesis
    proof (cases "g (y, m)")
      case (Inl f)
      then show ?thesis using st 2 Inr ym by (auto simp: runs_def stops_def)
    next
      case g: (Inr zm)
      obtain z m2 where zm: "zm = (z, m2)" by (cases zm)
      have "step w insn ?v1 = Go (v\<lparr>v_pc := k2, v_a := z, v_mem := m2, v_stack := stk\<rparr>)"
        using st g zm by (simp add: u_def)
      then have "reaches w insn v (v\<lparr>v_pc := k2, v_a := z, v_mem := m2, v_stack := stk\<rparr>)"
        using reaches_trans [OF 2 reaches_one] by blast
      then show ?thesis using runs_Inr [where k = k2 and y = z and m = m2 and stk = stk] Inr ym g zm stk(1) rest s(3) by simp
    qed
  qed
qed

lemma runs_alu:
  assumes "at insn (v_pc v) [PSH]" "0 < v_sp v" "v_sp v \<le> 512" "length (v_stack v) = 512"
    and "runs w insn (v\<lparr>v_pc := v_pc v + 1, v_sp := v_sp v - 1, v_stack := (v_stack v)[v_sp v - 1 := v_a v]\<rparr>) k1 r1"
    and at: "at insn k1 [bop_insn b]"
  shows "runs w insn v (k1 + 1) (case r1 of Inl f \<Rightarrow> Inl f
      | Inr ym \<Rightarrow> (case alu (bop_insn b) (v_a v) (fst ym) of Inl f \<Rightarrow> Inl f | Inr z \<Rightarrow> Inr (z, snd ym)))"
proof (rule runs_pushed [OF assms(1-5)])
  fix v1 :: vm and y m
  assume v1: "v_pc v1 = k1" "v_sp v1 = v_sp v - 1" "v_a v1 = y" "v_mem v1 = m" "v_stack v1 ! (v_sp v - 1) = v_a v"
  have "step w insn v1 = (case alu (bop_insn b) (v_stack v1 ! v_sp v1) (v_a v1) of
     Inl f \<Rightarrow> Stop (Fault f) | Inr y \<Rightarrow> Go (v1\<lparr>v_pc := v_pc v1 + 1, v_sp := v_sp v1 + 1, v_a := y\<rparr>))"
    using at v1(1,2) assms(2,3) by (intro step_alu) auto
  also have "\<dots> = (case (case alu (bop_insn b) (v_a v) (fst (y, m)) of Inl f \<Rightarrow> Inl f | Inr z \<Rightarrow> Inr (z, snd (y, m)))
      of Inl f \<Rightarrow> Stop (Fault f) | Inr (z, m2) \<Rightarrow> Go (v1\<lparr>v_pc := k1 + 1, v_sp := v_sp v, v_a := z, v_mem := m2\<rparr>))"
    using v1 assms(2) by (simp split: sum.split)
  finally show "step w insn v1 = (case (case alu (bop_insn b) (v_a v) (fst (y, m)) of Inl f \<Rightarrow> Inl f | Inr z \<Rightarrow> Inr (z, snd (y, m)))
      of Inl f \<Rightarrow> Stop (Fault f) | Inr (z, m2) \<Rightarrow> Go (v1\<lparr>v_pc := k1 + 1, v_sp := v_sp v, v_a := z, v_mem := m2\<rparr>))" .
qed

definition code_max :: nat where
  "code_max = 2 ^ 32"

lemma to_index_word:
  assumes "n < code_max" shows "to_index w (w_insn_base w + 8 * of_nat n) = n"
proof -
  have "(8 * of_nat n :: u64) = of_nat (8 * n)" by simp
  moreover have "unat (of_nat (8 * n) :: u64) = 8 * n" 
    using assms unfolding code_max_def by (simp only: unsigned_of_nat) (simp add: take_bit_nat_eq_self)
  ultimately show ?thesis by (simp add: to_index_def unat_div)
qed

lemma imm_runs: "at insn (v_pc v) [IMM, x] \<Longrightarrow> runs w insn v (v_pc v + 2) (Inr (x, v_mem v))"
  using reaches_one [OF step_IMM, of insn v x w]
    runs_Inr [where k = "v_pc v + 2" and y = x and m = "v_mem v" and stk = "v_stack v" and v = v] by simp

lemma var_runs:
  assumes "at insn (v_pc v) [IMM, a, LI, of_nat n]" "int_size n"
  shows "runs w insn v (v_pc v + 4)
    (case load_int (v_mem v) a n of None \<Rightarrow> Inl Bad_address | Some y \<Rightarrow> Inr (y, v_mem v))"
proof -
  have at: "at insn (v_pc v) [IMM, a]" "at insn (v_pc v + 2) [LI, of_nat n]"
    using assms(1) by (simp_all add: at_Cons)
  define v1 where "v1 = v\<lparr>v_pc := v_pc v + 2, v_a := a\<rparr>"
  have r: "reaches w insn v v1" unfolding v1_def by (rule reaches_one [OF step_IMM [OF at(1)]])
  have st: "step w insn v1 = (case load_int (v_mem v) a n of
     None \<Rightarrow> Stop (Fault Bad_address) | Some z \<Rightarrow> Go (v1\<lparr>v_pc := v_pc v + 4, v_a := z\<rparr>))"
    using step_LI [of insn v1 n w] at(2) assms(2) by (simp add: v1_def split: option.split)
  show ?thesis
  proof (cases "load_int (v_mem v) a n")
    case None
    then show ?thesis using st r by (auto simp: runs_def stops_def)
  next
    case (Some z)
    then have "reaches w insn v (v\<lparr>v_pc := v_pc v + 4, v_a := z\<rparr>)"
      using reaches_trans [OF r reaches_one, of "v1\<lparr>v_pc := v_pc v + 4, v_a := z\<rparr>"] st by (simp add: v1_def)
    then show ?thesis
      using Some runs_Inr [where k = "v_pc v + 4" and y = z and m = "v_mem v" and stk = "v_stack v" and v = v] by simp
  qed
qed

definition pushed :: "vm \<Rightarrow> vm" where
  "pushed v = v\<lparr>v_pc := v_pc v + 1, v_sp := v_sp v - 1, v_stack := (v_stack v)[v_sp v - 1 := v_a v]\<rparr>"

text \<open>The machine is at the start of an expression with room on its stack.\<close>

definition ready :: "nat \<Rightarrow> nat \<Rightarrow> vm \<Rightarrow> bool" where
  "ready k d v \<longleftrightarrow> v_pc v = k \<and> d \<le> v_sp v \<and> v_sp v \<le> 512 \<and> length (v_stack v) = 512"

text \<open>What the induction gives for a part of an expression.\<close>

definition part_ok :: "world \<Rightarrow> u64 list \<Rightarrow> nat \<Rightarrow> nat \<Rightarrow> nat \<Rightarrow> (memory \<Rightarrow> vm_fault + (u64 \<times> memory)) \<Rightarrow> bool" where
  "part_ok w insn k k' d f \<longleftrightarrow> (\<forall>v. ready k d v \<longrightarrow> runs w insn v k' (f (v_mem v)))"

lemma part_okD: "part_ok w insn k k' d f \<Longrightarrow> ready k d v \<Longrightarrow> runs w insn v k' (f (v_mem v))"
  by (simp add: part_ok_def)

lemma asg_runs:
  assumes part: "part_ok w insn (k + 3) k1 d f"
    and at: "at insn k [IMM, a, PSH]" "at insn k1 [SI, of_nat n]" "int_size n"
  shows "part_ok w insn k (k1 + 2) (d + 1) (\<lambda>m. case f m of Inl e \<Rightarrow> Inl e
      | Inr ym \<Rightarrow> (case store_int (snd ym) a n (fst ym) of None \<Rightarrow> Inl Bad_address | Some m2 \<Rightarrow> Inr (fst ym, m2)))"
  unfolding part_ok_def
proof (intro allI impI)
  fix v assume r: "ready k (d + 1) v"
  define v1 where "v1 = v\<lparr>v_pc := k + 2, v_a := a\<rparr>"
  have at': "at insn k [IMM, a]" "at insn (k + 2) [PSH]" using at(1) by (simp_all add: at_Cons)
  have s1: "step w insn v = Go v1" unfolding v1_def using step_IMM [of insn v a w] at'(1) r
    by (simp add: ready_def)
  have "ready (k + 3) d (pushed v1)" using r by (auto simp: ready_def v1_def pushed_def)
  then have sub: "runs w insn (pushed v1) k1 (f (v_mem v))"
    using part_okD [OF part, of "pushed v1"] by (simp add: v1_def pushed_def)
  have "runs w insn v1 (k1 + 2) (case f (v_mem v) of Inl e \<Rightarrow> Inl e
      | Inr ym \<Rightarrow> (case store_int (snd ym) a n (fst ym) of None \<Rightarrow> Inl Bad_address | Some m2 \<Rightarrow> Inr (fst ym, m2)))"
  proof (rule runs_pushed [OF _ _ _ _ sub [unfolded pushed_def]])
    show "at insn (v_pc v1) [PSH]" "0 < v_sp v1" "v_sp v1 \<le> 512" "length (v_stack v1) = 512"
      using at'(2) r by (simp_all add: v1_def ready_def)
    fix u :: vm and z m
    assume u: "v_pc u = k1" "v_sp u = v_sp v1 - 1" "v_a u = z" "v_mem u = m" "v_stack u ! (v_sp v1 - 1) = v_a v1"
    have "step w insn u = (case store_int (v_mem u) (v_stack u ! v_sp u) n (v_a u) of
     None \<Rightarrow> Stop (Fault Bad_address)
   | Some m \<Rightarrow> Go (u\<lparr>v_pc := v_pc u + 2, v_sp := v_sp u + 1, v_mem := m\<rparr>))"
      using at(2,3) r u(1,2) by (intro step_SI) (auto simp: v1_def ready_def)
    moreover have "v_sp u + 1 = v_sp v1" using u(2) r by (simp add: v1_def ready_def)
    ultimately show "step w insn u = (case (case store_int (snd (z, m)) a n (fst (z, m)) of
          None \<Rightarrow> Inl Bad_address | Some m2 \<Rightarrow> Inr (fst (z, m), m2)) of Inl f \<Rightarrow> Stop (Fault f)
          | Inr (z, m2) \<Rightarrow> Go (u\<lparr>v_pc := k1 + 2, v_sp := v_sp v1, v_a := z, v_mem := m2\<rparr>))"
      using u by (simp add: v1_def split: option.split)
  qed
  then show "runs w insn v (k1 + 2) (case f (v_mem v) of Inl e \<Rightarrow> Inl e
      | Inr ym \<Rightarrow> (case store_int (snd ym) a n (fst ym) of None \<Rightarrow> Inl Bad_address | Some m2 \<Rightarrow> Inr (fst ym, m2)))"
    using runs_step [where w = w and insn = insn and v = v and p = "k + 2" and a = a] s1 unfolding v1_def by blast
qed

lemma ready_after:
  "ready k d v \<Longrightarrow> d' \<le> d \<Longrightarrow> length stk = length (v_stack v) \<Longrightarrow>
   ready k1 d' (v\<lparr>v_pc := k1, v_a := y, v_mem := m, v_stack := stk\<rparr>)"
  by (simp add: ready_def)

lemma bin_runs:
  assumes x: "part_ok w insn k k1 dx f" and y: "part_ok w insn (k1 + 1) k2 dy g"
    and at: "at insn k1 [PSH]" "at insn k2 [bop_insn b]"
  shows "part_ok w insn k (k2 + 1) (max dx (dy + 1)) (\<lambda>m. case f m of Inl e \<Rightarrow> Inl e
    | Inr ym \<Rightarrow> (case g (snd ym) of Inl e \<Rightarrow> Inl e
      | Inr zm \<Rightarrow> (case alu (bop_insn b) (fst ym) (fst zm) of Inl e \<Rightarrow> Inl e | Inr r \<Rightarrow> Inr (r, snd zm))))"
  unfolding part_ok_def
proof (intro allI impI, rule runs_seq)
  fix v assume r: "ready k (max dx (dy + 1)) v"
  then show "runs w insn v k1 (f (v_mem v))" using part_okD [OF x, of v] by (simp add: ready_def)
  fix z m and stk :: "u64 list"
  assume stk: "length stk = length (v_stack v)"
  let ?v = "v\<lparr>v_pc := k1, v_a := z, v_mem := m, v_stack := stk\<rparr>"
  have "ready (k1 + 1) dy (pushed ?v)" using r stk by (auto simp: ready_def pushed_def)
  then have "runs w insn (pushed ?v) k2 (g m)"
    using part_okD [OF y, of "pushed ?v"] by (simp add: pushed_def)
  then show "runs w insn ?v (k2 + 1) (case g (snd (z, m)) of Inl e \<Rightarrow> Inl e
      | Inr zm \<Rightarrow> (case alu (bop_insn b) (fst (z, m)) (fst zm) of Inl e \<Rightarrow> Inl e | Inr r \<Rightarrow> Inr (r, snd zm)))"
    using runs_alu [of insn ?v w k2 "g m" b] at r stk by (simp add: ready_def pushed_def cong: sum.case_cong)
qed

text \<open>A branch behind the first part: on its value either one of two continuations is run.\<close>

lemma branch_runs:
  assumes x: "part_ok w insn k k1 dx f"
    and st: "\<And>v. v_pc v = k1 \<Longrightarrow> step w insn v = Go (v\<lparr>v_pc := if v_a v = 0 then kz else kn\<rparr>)"
    and z: "\<And>v. ready kz dz v \<Longrightarrow> runs w insn v k3 (gz (v_a v) (v_mem v))"
    and n: "\<And>v. ready kn dn v \<Longrightarrow> runs w insn v k3 (gn (v_a v) (v_mem v))"
    and d: "dx \<le> d" "dz \<le> d" "dn \<le> d"
  shows "part_ok w insn k k3 d (\<lambda>m. case f m of Inl e \<Rightarrow> Inl e
    | Inr ym \<Rightarrow> (if fst ym = 0 then gz (fst ym) (snd ym) else gn (fst ym) (snd ym)))"
  unfolding part_ok_def
proof (intro allI impI, rule runs_seq)
  fix v assume r: "ready k d v"
  then show "runs w insn v k1 (f (v_mem v))" using part_okD [OF x, of v] d(1) by (simp add: ready_def)
  fix y m and stk :: "u64 list"
  assume stk: "length stk = length (v_stack v)"
  let ?v = "v\<lparr>v_pc := k1, v_a := y, v_mem := m, v_stack := stk\<rparr>"
  let ?u = "?v\<lparr>v_pc := (if y = 0 then kz else kn), v_a := y\<rparr>"
  have "ready (if y = 0 then kz else kn) (if y = 0 then dz else dn) ?u" using r stk d by (auto simp: ready_def)
  then have "runs w insn ?u k3 (if y = 0 then gz y m else gn y m)"
    using z [of ?u] n [of ?u] by (cases "y = 0") simp_all
  moreover have "step w insn ?v = Go ?u" using st [of ?v] by simp
  ultimately show "runs w insn ?v k3 (if fst (y, m) = 0 then gz (fst (y, m)) (snd (y, m)) else gn (fst (y, m)) (snd (y, m)))"
    unfolding fst_conv snd_conv by (rule runs_step [rotated])
qed

lemma stay_runs:
  assumes "v_pc v = k" shows "runs w insn v k (Inr (v_a v, v_mem v))"
proof -
  have "v\<lparr>v_pc := k, v_a := v_a v, v_mem := v_mem v, v_stack := v_stack v\<rparr> = v" using assms by simp
  then show ?thesis using reaches_refl [of w insn v] unfolding runs_def by auto
qed

lemma jump_runs:
  assumes "part_ok w insn k k1 d f" "at insn k1 [JMP, w_insn_base w + 8 * of_nat k2]" "k2 < code_max"
  shows "part_ok w insn k k2 d f"
  unfolding part_ok_def
proof (intro allI impI)
  fix v assume r: "ready k d v"
  have "runs w insn v k2 (case f (v_mem v) of Inl e \<Rightarrow> Inl e | Inr ym \<Rightarrow> Inr ym)"
  proof (rule runs_seq [OF part_okD [OF assms(1) r]])
    fix y m and stk :: "u64 list"
    let ?v = "v\<lparr>v_pc := k1, v_a := y, v_mem := m, v_stack := stk\<rparr>"
    have st: "step w insn ?v = Go (?v\<lparr>v_pc := k2, v_a := y\<rparr>)"
      using step_JMP [of insn ?v _ w] assms(2) to_index_word [OF assms(3)] by simp
    show "runs w insn ?v k2 (Inr (y, m))"
      using runs_step [OF st] stay_runs [of "?v\<lparr>v_pc := k2, v_a := y\<rparr>" k2 w insn] by simp
  qed
  then show "runs w insn v k2 (f (v_mem v))" by (simp split: sum.splits)
qed

lemma imm_part: "at insn k [IMM, c] \<Longrightarrow> part_ok w insn k (k + 2) 0 (\<lambda>m. Inr (c, m))"
  unfolding part_ok_def ready_def using imm_runs by blast

lemma var_part:
  "at insn k [IMM, a, LI, of_nat n] \<Longrightarrow> int_size n \<Longrightarrow>
   part_ok w insn k (k + 4) 0 (\<lambda>m. case load_int m a n of None \<Rightarrow> Inl Bad_address | Some y \<Rightarrow> Inr (y, m))"
  unfolding part_ok_def ready_def using var_runs by blast

text \<open>Every variable is of one of the four sizes, the program of a size that addresses can tell apart.\<close>

definition sized :: "venv \<Rightarrow> ast \<Rightarrow> bool" where
  "sized E x \<longleftrightarrow> list_all (\<lambda>y. int_size (snd (E y))) (vars x)"

lemma un_runs:
  assumes x: "part_ok w insn k k1 d f"
    and at: "at insn k1 [PSH, IMM, c, bop_insn b]" and h: "\<And>y. alu (bop_insn b) y c = Inr (h y)"
  shows "part_ok w insn k (k1 + 4) (d + 1) (\<lambda>m. case f m of Inl e \<Rightarrow> Inl e | Inr ym \<Rightarrow> Inr (h (fst ym), snd ym))"
proof -
  have at': "at insn k1 [PSH]" "at insn (k1 + 1) [IMM, c]" "at insn (k1 + 3) [bop_insn b]"
    using at by (simp_all add: at_Cons plus_Sucs)
  have "part_ok w insn (k1 + 1) (k1 + 3) 0 (\<lambda>m. Inr (c, m))"
    using imm_part [OF at'(2), of w] by (simp add: plus_Sucs)
  from bin_runs [OF x this at'(1,3)] show ?thesis
    by (simp add: h part_ok_def ready_def plus_Sucs cong: sum.case_cong)
qed

lemma neg_runs:
  assumes x: "part_ok w insn (k + 3) k1 d f" and at: "at insn k [IMM, - 1, PSH]" "at insn k1 [MUL_op]"
  shows "part_ok w insn k (k1 + 1) (d + 1) (\<lambda>m. case f m of Inl e \<Rightarrow> Inl e | Inr ym \<Rightarrow> Inr (- fst ym, snd ym))"
proof -
  have at': "at insn k [IMM, - 1]" "at insn (k + 2) [PSH]" "at insn k1 [bop_insn BMul]"
    using at by (simp_all add: at_Cons plus_Sucs)
  have i: "part_ok w insn k (k + 2) 0 (\<lambda>m. Inr (- 1, m))"
    using imm_part [OF at'(1), of w] by simp
  have "alu MUL_op (- 1) y = Inr (- y)" for y by (simp add: alu_def)
  then show ?thesis using bin_runs [OF i _ at'(2,3), of d f] x
    by (simp add: plus_Sucs part_ok_def ready_def cong: sum.case_cong)
qed

lemma part_ok_mono: "part_ok w insn k k' d f \<Longrightarrow> d \<le> d' \<Longrightarrow> part_ok w insn k k' d' f"
  by (simp add: part_ok_def ready_def)

text \<open>The unary operators; a negated literal is folded.\<close>

lemma un_case:
  assumes IH: "\<And>k. at insn k (gen (w_insn_base w) E x k) \<Longrightarrow> sized E x \<Longrightarrow> length insn < code_max \<Longrightarrow>
      part_ok w insn k (k + length (gen (w_insn_base w) E x k)) (depth x) (eval E x)"
    and at: "at insn k (gen (w_insn_base w) E (AUn u x) k)" and s: "sized E (AUn u x)" "length insn < code_max"
  shows "part_ok w insn k (k + length (gen (w_insn_base w) E (AUn u x) k)) (depth (AUn u x)) (eval E (AUn u x))"
proof -
  let ?c = "gen (w_insn_base w) E x k"
  have sx: "sized E x" using s(1) by (simp add: sized_def)
  have ev: "eval E (AUn u x) = (\<lambda>m. case eval E x m of Inl f \<Rightarrow> Inl f | Inr ym \<Rightarrow>
      Inr (case u of UNot \<Rightarrow> of_truth (fst ym = 0) | UCom \<Rightarrow> NOT (fst ym) | UPlus \<Rightarrow> fst ym | UNeg \<Rightarrow> - fst ym, snd ym))"
    by (cases u) (simp_all add: fun_eq_iff split: sum.split)
  show ?thesis
  proof (cases u)
    case UNot
    have a: "at insn k ?c" "at insn (k + length ?c) [PSH, IMM, 0, bop_insn BEq]" using at UNot by (simp_all add: at_append)
    have "alu (bop_insn BEq) y 0 = Inr (of_truth (y = 0))" for y by (simp add: alu_def)
    from un_runs [OF IH [OF a(1) sx s(2)] a(2) this] UNot show ?thesis by (simp add: ev [unfolded UNot uop.case] plus_Sucs)
  next
    case UCom
    have a: "at insn k ?c" "at insn (k + length ?c) [PSH, IMM, - 1, bop_insn BXor]" using at UCom by (simp_all add: at_append)
    have "alu (bop_insn BXor) y (- 1) = Inr (NOT y)" for y by (simp add: alu_def)
    from un_runs [OF IH [OF a(1) sx s(2)] a(2) this] UCom show ?thesis by (simp add: ev [unfolded UCom uop.case] plus_Sucs)
  next
    case UPlus
    then have "part_ok w insn k (k + length ?c) (depth x) (eval E x)" using IH at sx s(2) by simp
    moreover have "eval E (AUn u x) = eval E x" using UPlus by (simp add: ev [unfolded UPlus uop.case] fun_eq_iff split: sum.split)
    ultimately show ?thesis using UPlus part_ok_mono [of w insn k _ "depth x"] by simp
  next
    case UNeg
    show ?thesis
    proof (cases "\<exists>n. x = ANum n")
      case True
      then obtain n where n: "x = ANum n" by blast
      then have "at insn k [IMM, - of_nat n]" using at UNeg by simp
      then show ?thesis using imm_part [of insn k "- of_nat n" w] n UNeg part_ok_mono
        by (simp add: plus_Sucs part_ok_def ready_def)
    next
      case False
      let ?d = "gen (w_insn_base w) E x (k + 3)"
      have g: "gen (w_insn_base w) E (AUn u x) k = [IMM, - 1, PSH] @ ?d @ [MUL_op]"
        using UNeg False by (cases x) simp_all
      then have a: "at insn k [IMM, - 1, PSH]" "at insn (k + 3) ?d" "at insn (k + 3 + length ?d) [MUL_op]"
        using at unfolding g by (simp_all add: at_append at_Cons plus_Sucs)
      show ?thesis using neg_runs [OF IH [OF a(2) sx s(2)] a(1,3)] UNeg unfolding g by (simp add: ev [unfolded UNeg uop.case] plus_Sucs)
    qed
  qed
qed

lemma gen_runs:
  assumes "at insn k (gen (w_insn_base w) E x k)" "sized E x" "length insn < code_max"
  shows "part_ok w insn k (k + length (gen (w_insn_base w) E x k)) (depth x) (eval E x)"
  using assms
proof (induction x arbitrary: k)
  case (ANum n)
  then show ?case using imm_part [of insn k "of_nat n" w] by (simp add: plus_Sucs)
next
  case (AVar y)
  then show ?case using var_part [of insn k "fst (E y)" "snd (E y)" w]
    by (simp add: sized_def plus_Sucs fun_eq_iff)
next
  case (AAsg y x)
  let ?c = "gen (w_insn_base w) E x (k + 3)"
  have at: "at insn k [IMM, fst (E y), PSH]" "at insn (k + 3) ?c" "at insn (k + 3 + length ?c) [SI, of_nat (snd (E y))]"
    using AAsg.prems(1) by (simp_all add: at_Cons at_append plus_Sucs)
  have p: "part_ok w insn (k + 3) (k + 3 + length ?c) (depth x) (eval E x)"
    using AAsg.IH [OF at(2)] AAsg.prems by (simp add: sized_def)
  have "eval E (AAsg y x) = (\<lambda>m. case eval E x m of Inl e \<Rightarrow> Inl e | Inr ym \<Rightarrow>
      (case store_int (snd ym) (fst (E y)) (snd (E y)) (fst ym) of None \<Rightarrow> Inl Bad_address | Some m2 \<Rightarrow> Inr (fst ym, m2)))"
    by (simp add: fun_eq_iff split: sum.split option.split)
  then show ?case using asg_runs [OF p at(1,3)] AAsg.prems(2) by (simp add: sized_def plus_Sucs add.commute)
next
  case (ABin b x y)
  let ?cx = "gen (w_insn_base w) E x k"
  let ?k1 = "k + length ?cx"
  let ?cy = "gen (w_insn_base w) E y (?k1 + 1)"
  have at: "at insn k ?cx" "at insn ?k1 [PSH]" "at insn (?k1 + 1) ?cy" "at insn (?k1 + 1 + length ?cy) [bop_insn b]"
    using ABin.prems(1) by (simp_all add: at_Cons at_append Let_def)
  have p: "part_ok w insn k ?k1 (depth x) (eval E x)" "part_ok w insn (?k1 + 1) (?k1 + 1 + length ?cy) (depth y) (eval E y)"
    using ABin.IH(1) [OF at(1)] ABin.IH(2) [OF at(3)] ABin.prems(2,3) by (simp_all add: sized_def)
  have "eval E (ABin b x y) = (\<lambda>m. case eval E x m of Inl e \<Rightarrow> Inl e | Inr ym \<Rightarrow> (case eval E y (snd ym) of Inl e \<Rightarrow> Inl e
      | Inr zm \<Rightarrow> (case alu (bop_insn b) (fst ym) (fst zm) of Inl e \<Rightarrow> Inl e | Inr r \<Rightarrow> Inr (r, snd zm))))"
    by (simp add: fun_eq_iff split: sum.split)
  then show ?case using bin_runs [OF p at(2,4)] by (simp add: Let_def add.assoc)
next
  case (ALan x y)
  let ?cx = "gen (w_insn_base w) E x k"
  let ?k1 = "k + length ?cx"
  let ?cy = "gen (w_insn_base w) E y (?k1 + 2)"
  let ?k2 = "?k1 + 2 + length ?cy"
  have at: "at insn k ?cx" "at insn ?k1 [BZ, w_insn_base w + 8 * of_nat ?k2]" "at insn (?k1 + 2) ?cy"
    using ALan.prems(1) by (simp_all add: at_Cons at_append Let_def plus_Sucs)
  have p: "part_ok w insn k ?k1 (depth x) (eval E x)" "part_ok w insn (?k1 + 2) ?k2 (depth y) (eval E y)"
    using ALan.IH(1) [OF at(1)] ALan.IH(2) [OF at(3)] ALan.prems(2,3) by (simp_all add: sized_def)
  have k2: "to_index w (w_insn_base w + 8 * of_nat ?k2) = ?k2"
    using at_le [OF at(3)] ALan.prems(3) by (intro to_index_word) simp
  have "part_ok w insn k ?k2 (max (depth x) (depth y)) (\<lambda>m. case eval E x m of Inl e \<Rightarrow> Inl e
    | Inr ym \<Rightarrow> (if fst ym = 0 then Inr (fst ym, snd ym) else eval E y (snd ym)))"
  proof (rule branch_runs [OF p(1), where kz = ?k2 and kn = "?k1 + 2" and dz = 0 and dn = "depth y"])
    show "step w insn v = Go (v\<lparr>v_pc := if v_a v = 0 then ?k2 else ?k1 + 2\<rparr>)" if "v_pc v = ?k1" for v
      using step_BZ [of insn v _ w] at(2) that k2 by simp
  qed (use part_okD [OF p(2)] stay_runs in \<open>auto simp: ready_def\<close>)
  moreover have "eval E (ALan x y) = (\<lambda>m. case eval E x m of Inl e \<Rightarrow> Inl e
    | Inr ym \<Rightarrow> (if fst ym = 0 then Inr (fst ym, snd ym) else eval E y (snd ym)))"
    by (simp add: fun_eq_iff split: sum.split)
  ultimately show ?case by (simp add: Let_def add.assoc)
next
  case (ALor x y)
  let ?cx = "gen (w_insn_base w) E x k"
  let ?k1 = "k + length ?cx"
  let ?cy = "gen (w_insn_base w) E y (?k1 + 2)"
  let ?k2 = "?k1 + 2 + length ?cy"
  have at: "at insn k ?cx" "at insn ?k1 [BNZ, w_insn_base w + 8 * of_nat ?k2]" "at insn (?k1 + 2) ?cy"
    using ALor.prems(1) by (simp_all add: at_Cons at_append Let_def plus_Sucs)
  have p: "part_ok w insn k ?k1 (depth x) (eval E x)" "part_ok w insn (?k1 + 2) ?k2 (depth y) (eval E y)"
    using ALor.IH(1) [OF at(1)] ALor.IH(2) [OF at(3)] ALor.prems(2,3) by (simp_all add: sized_def)
  have k2: "to_index w (w_insn_base w + 8 * of_nat ?k2) = ?k2"
    using at_le [OF at(3)] ALor.prems(3) by (intro to_index_word) simp
  have "part_ok w insn k ?k2 (max (depth x) (depth y)) (\<lambda>m. case eval E x m of Inl e \<Rightarrow> Inl e
    | Inr ym \<Rightarrow> (if fst ym = 0 then eval E y (snd ym) else Inr (fst ym, snd ym)))"
  proof (rule branch_runs [OF p(1), where kn = ?k2 and kz = "?k1 + 2" and dn = 0 and dz = "depth y"])
    show "step w insn v = Go (v\<lparr>v_pc := if v_a v = 0 then ?k1 + 2 else ?k2\<rparr>)" if "v_pc v = ?k1" for v
      using step_BNZ [of insn v _ w] at(2) that k2 by simp
  qed (use part_okD [OF p(2)] stay_runs in \<open>auto simp: ready_def\<close>)
  moreover have "eval E (ALor x y) = (\<lambda>m. case eval E x m of Inl e \<Rightarrow> Inl e
    | Inr ym \<Rightarrow> (if fst ym = 0 then eval E y (snd ym) else Inr (fst ym, snd ym)))"
    by (simp add: fun_eq_iff split: sum.split)
  ultimately show ?case by (simp add: Let_def add.assoc)
next
  case (ACond x y z)
  let ?I = "w_insn_base w"
  let ?cx = "gen ?I E x k"
  let ?k1 = "k + length ?cx"
  let ?cy = "gen ?I E y (?k1 + 2)"
  let ?k2 = "?k1 + 2 + length ?cy"
  let ?cz = "gen ?I E z (?k2 + 2)"
  let ?k3 = "?k2 + 2 + length ?cz"
  have at: "at insn k ?cx" "at insn ?k1 [BZ, ?I + 8 * of_nat (?k2 + 2)]" "at insn (?k1 + 2) ?cy"
     "at insn ?k2 [JMP, ?I + 8 * of_nat ?k3]" "at insn (?k2 + 2) ?cz"
    using ACond.prems(1) by (simp_all add: at_Cons at_append Let_def plus_Sucs)
  have le: "?k3 < code_max" using at_le [OF at(5)] ACond.prems(3) by simp
  have p: "part_ok w insn k ?k1 (depth x) (eval E x)" "part_ok w insn (?k1 + 2) ?k2 (depth y) (eval E y)"
     "part_ok w insn (?k2 + 2) ?k3 (depth z) (eval E z)"
    using ACond.IH(1) [OF at(1)] ACond.IH(2) [OF at(3)] ACond.IH(3) [OF at(5)] ACond.prems(2,3)
    by (simp_all add: sized_def)
  have k2: "to_index w (?I + 8 * of_nat (?k2 + 2)) = ?k2 + 2" using le by (intro to_index_word) simp
  note py = jump_runs [OF p(2) at(4) le]
  have "part_ok w insn k ?k3 (max (depth x) (max (depth y) (depth z))) (\<lambda>m. case eval E x m of Inl e \<Rightarrow> Inl e
    | Inr ym \<Rightarrow> (if fst ym = 0 then eval E z (snd ym) else eval E y (snd ym)))"
  proof (rule branch_runs [OF p(1), where kz = "?k2 + 2" and kn = "?k1 + 2" and dz = "depth z" and dn = "depth y"])
    show "step w insn v = Go (v\<lparr>v_pc := if v_a v = 0 then ?k2 + 2 else ?k1 + 2\<rparr>)" if "v_pc v = ?k1" for v
      using step_BZ [of insn v _ w] at(2) that k2 by simp
  qed (use part_okD [OF p(3)] part_okD [OF py] in \<open>auto simp: ready_def\<close>)
  moreover have "eval E (ACond x y z) = (\<lambda>m. case eval E x m of Inl e \<Rightarrow> Inl e
    | Inr ym \<Rightarrow> (if fst ym = 0 then eval E z (snd ym) else eval E y (snd ym)))"
    by (simp add: fun_eq_iff split: sum.split)
  ultimately show ?case by (simp add: Let_def add.assoc)
next
  case (AUn u x)
  show ?case by (rule un_case [OF AUn.IH AUn.prems]) (use AUn.prems in \<open>simp_all add: sized_def\<close>)
qed

end
