(* ===== verification/Expr_Parse.thy ===== *)
theory Expr_Parse
  imports Expr_Correct
begin

text \<open>
  The compiler on the text of an expression: it emits exactly the instructions \<open>gen\<close>, so
  that with the previous theory compiling and running computes the value.
\<close>

section \<open>Lexing\<close>

text \<open>Characters and what they are.\<close>

lemmas char_defs = char_val_def newline_def is_lower_def is_upper_def is_digit_def is_ident_start_def is_ident_def
  is_hex_def is_octal_def

declare lex.simps(2) [simp del] primary.simps(2) [simp del] binary.simps(2) [simp del] expr.simps(2) [simp del]

lemmas lex_unfold = char_defs lex.simps(2)

lemma char_of_48: "char_of (48 :: nat) = CHR ''0''"
proof -
  have "(of_char (CHR ''0'') :: nat) = 48" by simp
  then show ?thesis by (metis char_of_char)
qed

definition boundary :: "string \<Rightarrow> bool" where
  "boundary r \<longleftrightarrow> r = [] \<or> hd r = CHR '' '' \<or> hd r = CHR '')''"

text \<open>A text that starts with a token which only sets the token and the position.\<close>

definition punct :: "string \<Rightarrow> int \<Rightarrow> string \<Rightarrow> bool" where
  "punct r t r' \<longleftrightarrow> (\<forall>al st. lex al r st = Inr (set_tk t r' st))"

lemma punctD: "punct r t r' \<Longrightarrow> lex al r st = Inr (set_tk t r' st)"
  by (simp add: punct_def)

lemma lex_space [simp]: "lex al (CHR '' '' # cs) st = lex al cs st"
  by (simp add: lex_unfold)

lemma punct_space [simp]: "punct (CHR '' '' # cs) t r' \<longleftrightarrow> punct cs t r'"
  by (simp only: punct_def lex_space)

lemma punct_sp [simp]: "punct (sp @ cs) t r' \<longleftrightarrow> punct cs t r'"
  by (simp add: sp_def)

lemma punct_Nil: "punct [] 0 []"
  by (simp add: punct_def)

lemma punct_close: "punct (CHR '')'' # cs) 41 cs"
  by (simp add: punct_def lex_unfold)

lemma punct_open: "punct (CHR ''('' # cs) 40 cs"
  by (simp add: punct_def lex_unfold)

lemma punct_colon: "punct ('':'' @ sp @ cs) 58 (sp @ cs)"
  by (simp add: punct_def lex_unfold)

lemma punct_bop: "punct (bop_text b @ sp @ cs) (bop_tk b) (sp @ cs)"
  by (cases b) (simp_all add: punct_def lex_unfold lex_op_def sp_def)

lemma punct_lan: "punct (''&&'' @ sp @ cs) 139 (sp @ cs)"
  by (simp add: punct_def lex_unfold lex_op_def sp_def)

lemma punct_lor: "punct (''||'' @ sp @ cs) 138 (sp @ cs)"
  by (simp add: punct_def lex_unfold lex_op_def sp_def)

lemma punct_cond: "punct (''?'' @ sp @ cs) 137 (sp @ cs)"
  by (simp add: punct_def lex_unfold sp_def)

lemma punct_asg: "punct (''='' @ sp @ cs) 136 (sp @ cs)"
  by (simp add: punct_def lex_unfold lex_op_def sp_def)

definition uop_tk :: "uop \<Rightarrow> int" where
  "uop_tk u = (case u of UNot \<Rightarrow> 33 | UCom \<Rightarrow> 126 | UPlus \<Rightarrow> 151 | UNeg \<Rightarrow> 152)"

lemma punct_uop: "punct (uop_text u @ sp @ cs) (uop_tk u) (sp @ cs)"
  by (cases u) (simp_all add: punct_def lex_unfold lex_op_def sp_def uop_tk_def)

lemma boundary_simps [simp]: "boundary []" "boundary (CHR '' '' # cs)" "boundary (CHR '')'' # cs)" "boundary (sp @ cs)"
  by (simp_all add: boundary_def sp_def)

lemma boundary_takeWhile:
  assumes "boundary r" "\<not> f (CHR '' '')" "\<not> f (CHR '')'')" "list_all f xs"
  shows "takeWhile f (xs @ r) = xs" "dropWhile f (xs @ r) = r"
  using assms by (induction xs) (cases r; auto simp: boundary_def)+

text \<open>Numbers.\<close>

lemma digit_char [simp]: "n < 10 \<Longrightarrow> char_val (char_of (48 + n :: nat)) = 48 + int n"
  by (simp add: char_val_def of_char_of)

lemma digit_is: "n < 10 \<Longrightarrow> is_digit (char_of (48 + n :: nat))"
  by (simp add: is_digit_def)

lemma digit_value: "n < 10 \<Longrightarrow> digit_val (char_of (48 + n :: nat)) = of_nat n"
  by (simp add: digit_val_def)

lemma digits_all: "list_all is_digit (digits n)"
  by (induction n rule: digits.induct) (subst digits.simps, simp add: digit_is)

lemma digits_Cons:
  "\<exists>c cs. digits n = c # cs \<and> is_digit c \<and> list_all is_digit cs \<and> (0 < n \<longrightarrow> c \<noteq> CHR ''0'') \<and>
     foldl (\<lambda>v d. v * 10 + digit_val d) (digit_val c) cs = of_nat n"
proof (induction n rule: digits.induct)
  case (1 n)
  show ?case
  proof (cases "n < 10")
    case True
    have "char_val (CHR ''0'') = 48" by (simp add: char_val_def)
    then have "0 < n \<longrightarrow> char_of (48 + n) \<noteq> CHR ''0''" using digit_char [OF True] by auto
    then show ?thesis using True by (subst digits.simps) (simp add: digit_is digit_value)
  next
    case False
    then obtain c cs where c: "digits (n div 10) = c # cs" "is_digit c" "list_all is_digit cs" "c \<noteq> CHR ''0''"
      "foldl (\<lambda>v d. v * 10 + digit_val d) (digit_val c) cs = of_nat (n div 10)" using 1 by auto
    have d: "digits n = c # cs @ [char_of (48 + n mod 10)]" using False c(1) by (subst digits.simps) simp
    have "(of_nat (n div 10) * 10 + of_nat (n mod 10) :: u64) = of_nat (n div 10 * 10 + n mod 10)"
      by (simp only: of_nat_add of_nat_mult) simp
    then show ?thesis unfolding d using c by (simp add: digit_is digit_value)
  qed
qed

lemma is_digit_not: "is_digit c \<Longrightarrow> c \<noteq> newline \<and> c \<noteq> CHR ''#'' \<and> \<not> is_ident_start c"
  by (auto simp: char_defs)

lemma lex_num:
  assumes "boundary r"
  shows "lex al (digits n @ r) st = Inr (st\<lparr>c_p := r, c_tk := Num, c_ival := of_nat n\<rparr>)"
proof -
  obtain c cs where c: "digits n = c # cs" "is_digit c" "list_all is_digit cs" "0 < n \<longrightarrow> c \<noteq> CHR ''0''"
    "foldl (\<lambda>v d. v * 10 + digit_val d) (digit_val c) cs = of_nat n" using digits_Cons [of n] by blast
  have 1: "lex al (digits n @ r) st = Inr (lex_number c (cs @ r) st)"
    using c(1,2) is_digit_not [OF c(2)] by (simp add: lex.simps(2))
  have b: "takeWhile is_digit (cs @ r) = cs" "dropWhile is_digit (cs @ r) = r"
    using boundary_takeWhile [OF assms _ _ c(3)] by (simp_all add: char_defs)
  show ?thesis
  proof (cases "c = CHR ''0''")
    case False
    then show ?thesis unfolding 1 using b c(5) by (simp add: lex_number_def)
  next
    case True
    then have n: "n = 0" "digits n = [CHR ''0'']" using c(4) by (auto simp: digits.simps char_of_48)
    then have "cs = []" using c(1) by simp
    then show ?thesis unfolding 1 using assms True n
      by (cases r) (auto simp: lex_number_def boundary_def char_defs)
  qed
qed

text \<open>Identifiers that are in the table.\<close>

definition ident :: "string \<Rightarrow> bool" where
  "ident x \<longleftrightarrow> x \<noteq> [] \<and> is_ident_start (hd x) \<and> list_all is_ident x"

lemma ident_start_not: "is_ident_start c \<Longrightarrow> c \<noteq> newline \<and> c \<noteq> CHR ''#''"
  by (auto simp: char_defs)

lemma lex_known:
  assumes "boundary r" "ident x" "find_sym x (ident_hash x) (c_symtab st) 0 = (i, True)"
  shows "lex al (x @ r) st = Inr (st\<lparr>c_p := r, c_tk := s_token (c_symtab st ! i), c_id := i\<rparr>)"
proof -
  obtain c cs where x: "x = c # cs" using assms(2) by (cases x) (auto simp: ident_def)
  have b: "takeWhile is_ident (x @ r) = x" "dropWhile is_ident (x @ r) = r"
    using boundary_takeWhile [OF assms(1), of is_ident x] assms(2) by (simp_all add: ident_def char_defs)
  have "lex al (x @ r) st = Inr (lex_ident al (x @ r) st)"
    using assms(2) ident_start_not [of c] unfolding x by (simp add: ident_def lex.simps(2))
  then show ?thesis using b assms(3) by (simp add: lex_ident_def)
qed

text \<open>The lexer neither reads nor writes the instructions.\<close>

lemma set_tk_code: "set_tk t cs (st\<lparr>c_code := c\<rparr>) = (set_tk t cs st)\<lparr>c_code := c\<rparr>"
  by (simp add: set_tk_def)

lemma lex_op_code: "lex_op cs two t (st\<lparr>c_code := c\<rparr>) = (lex_op cs two t st)\<lparr>c_code := c\<rparr>"
  by (simp add: lex_op_def set_tk_code split: option.split)

lemma lex_number_code: "lex_number d cs (st\<lparr>c_code := c\<rparr>) = (lex_number d cs st)\<lparr>c_code := c\<rparr>"
  by (simp add: lex_number_def)

lemma lex_ident_code: "lex_ident al cs (st\<lparr>c_code := c\<rparr>) = (lex_ident al cs st)\<lparr>c_code := c\<rparr>"
  by (simp add: lex_ident_def Let_def upd_sym_def split: prod.split bool.split)

lemma lex_quote_code:
  "lex_quote al q cs (st\<lparr>c_code := c\<rparr>) = bnd (lex_quote al q cs st) (\<lambda>s. Inr (s\<lparr>c_code := c\<rparr>))"
  by (simp add: lex_quote_def split: option.split prod.split)

lemma lex_code: "lex al cs (st\<lparr>c_code := c\<rparr>) = bnd (lex al cs st) (\<lambda>s. Inr (s\<lparr>c_code := c\<rparr>))"
proof (induction al cs st rule: lex.induct)
  case (1 al st)
  then show ?case by (simp add: set_tk_code)
next
  case (2 al c cs st)
  then show ?case
    by (simp add: lex.simps(2) set_tk_code lex_op_code lex_number_code lex_ident_code lex_quote_code)
qed

lemma emits_ok: "length (c_code st) + length ws \<le> 1024 \<Longrightarrow> emits ws st = Inr (st\<lparr>c_code := c_code st @ ws\<rparr>)"
  by (simp add: emits_def)

section \<open>Symbols\<close>

definition env_eq :: "cst \<Rightarrow> cst \<Rightarrow> bool" where
  "env_eq st st' \<longleftrightarrow> map (\<lambda>s. s\<lparr>s_ref := 0\<rparr>) (c_symtab st') = map (\<lambda>s. s\<lparr>s_ref := 0\<rparr>) (c_symtab st)"

lemma env_eq_refl [simp]: "env_eq st st"
  by (simp add: env_eq_def)

lemma env_eq_trans: "env_eq a b \<Longrightarrow> env_eq b c \<Longrightarrow> env_eq a c"
  by (simp add: env_eq_def)

lemma find_sym_ref: "find_sym x h (map (\<lambda>s. s\<lparr>s_ref := 0\<rparr>) ss) i = find_sym x h ss i"
  by (induction ss arbitrary: i) simp_all

lemma find_sym_bound: "find_sym x h ss i = (j, True) \<Longrightarrow> i \<le> j \<and> j < i + length ss"
  by (induction ss arbitrary: i) (fastforce split: if_splits)+

definition scalar :: "int \<Rightarrow> bool" where
  "scalar t \<longleftrightarrow> t \<in> {0, 1, 2, 3}"

lemma scalar_simps [simp]: "scalar 0" "scalar 1" "scalar 2" "scalar 3"
  by (simp_all add: scalar_def)

definition sym_of :: "cst \<Rightarrow> string \<Rightarrow> sym" where
  "sym_of st x = c_symtab st ! fst (find_sym x (ident_hash x) (c_symtab st) 0)"

definition known :: "cst \<Rightarrow> string \<Rightarrow> bool" where
  "known st x \<longleftrightarrow> ident x \<and> snd (find_sym x (ident_hash x) (c_symtab st) 0) \<and>
     s_token (sym_of st x) = IdTok \<and> s_class (sym_of st x) = Glo \<and> scalar (s_type (sym_of st x))"

definition env_of :: "cst \<Rightarrow> venv" where
  "env_of st x = (s_value (sym_of st x), 2 ^ nat (s_type (sym_of st x)))"

lemma env_eq_sym:
  assumes "env_eq st st'"
  shows "find_sym x h (c_symtab st') 0 = find_sym x h (c_symtab st) 0"
    and "snd (find_sym x (ident_hash x) (c_symtab st) 0) \<Longrightarrow> (sym_of st' x)\<lparr>s_ref := 0\<rparr> = (sym_of st x)\<lparr>s_ref := 0\<rparr>"
proof -
  show f: "find_sym x h (c_symtab st') 0 = find_sym x h (c_symtab st) 0" for h
    using assms find_sym_ref unfolding env_eq_def by metis
  assume s: "snd (find_sym x (ident_hash x) (c_symtab st) 0)"
  define i where "i = fst (find_sym x (ident_hash x) (c_symtab st) 0)"
  have "i < length (c_symtab st)" using find_sym_bound [of x "ident_hash x" "c_symtab st" 0 i] s
    by (metis add_0 i_def prod.collapse)
  moreover have "length (c_symtab st') = length (c_symtab st)" using assms unfolding env_eq_def by (metis length_map)
  ultimately have "(c_symtab st' ! i)\<lparr>s_ref := 0\<rparr> = (c_symtab st ! i)\<lparr>s_ref := 0\<rparr>"
    using assms unfolding env_eq_def by (metis nth_map)
  then show "(sym_of st' x)\<lparr>s_ref := 0\<rparr> = (sym_of st x)\<lparr>s_ref := 0\<rparr>"
    unfolding sym_of_def f i_def .
qed

lemma sym_fields:
  assumes "s\<lparr>s_ref := 0\<rparr> = s'\<lparr>s_ref := 0\<rparr>"
  shows "s_token s = s_token s'" "s_class s = s_class s'" "s_type s = s_type s'" "s_value s = s_value s'"
  using assms by (cases s; cases s'; simp)+

lemma env_eq_known:
  assumes "env_eq st st'" "known st x" shows "known st' x" "env_of st' x = env_of st x"
proof -
  have s: "(sym_of st' x)\<lparr>s_ref := 0\<rparr> = (sym_of st x)\<lparr>s_ref := 0\<rparr>"
    using env_eq_sym(2) [OF assms(1)] assms(2) by (simp add: known_def)
  show "known st' x" "env_of st' x = env_of st x"
    using assms(2) sym_fields [OF s] env_eq_sym(1) [OF assms(1)] by (simp_all add: known_def env_of_def)
qed

lemma gen_neg: "\<not> (\<exists>n. x = ANum n) \<Longrightarrow> gen I E (AUn UNeg x) k = [IMM, - 1, PSH] @ gen I E x (k + 3) @ [MUL_op]"
  by (cases x) simp_all

lemma gen_cong: "list_all (\<lambda>y. E' y = E y) (vars x) \<Longrightarrow> gen I E' x k = gen I E x k"
proof (induction x arbitrary: k)
  case (AUn u x)
  then have g: "gen I E' x k = gen I E x k" for k by simp
  show ?case
  proof (cases u)
    case UNeg
    then show ?thesis using gen_neg [of x I E k] gen_neg [of x I E' k] g by (cases "\<exists>n. x = ANum n") auto
  qed (simp_all add: g)
qed (simp_all add: Let_def)

section \<open>Parsing the text of an expression\<close>

definition extends :: "cst \<Rightarrow> u64 list \<Rightarrow> cst \<Rightarrow> bool" where
  "extends st c st' \<longleftrightarrow> c_code st' = c_code st @ c \<and> env_eq st st'"

abbreviation emitted :: "alloc \<Rightarrow> cst \<Rightarrow> ast \<Rightarrow> u64 list" where
  "emitted al st x \<equiv> gen (insn_base al) (env_of st) x (length (c_code st))"

text \<open>A token that can follow: of a level below the postfix operators, and no call.\<close>

definition follows :: "int \<Rightarrow> bool" where
  "follows t \<longleftrightarrow> t < Inc \<and> t \<noteq> 40"

text \<open>The type register: an integer type, the one of the variable for a variable.\<close>

definition ty_ok :: "cst \<Rightarrow> ast \<Rightarrow> int \<Rightarrow> bool" where
  "ty_ok st x t \<longleftrightarrow> scalar t \<and> (\<forall>v. x = AVar v \<longrightarrow> ld_size t = of_nat (snd (env_of st v)))"

definition parses :: "alloc \<Rightarrow> cst \<Rightarrow> ast \<Rightarrow> nat \<Rightarrow> bool" where
  "parses al st x n \<longleftrightarrow>
     (\<forall>r t r'. punct r t r' \<longrightarrow> boundary r \<longrightarrow> follows t \<longrightarrow>
        (\<exists>st1 st2. lex al (text_of x @ r) st = Inr st1 \<and> primary al n st1 = Inr st2 \<and>
           c_tk st1 \<noteq> IntTok \<and> (c_tk st1 = Num \<longleftrightarrow> (\<exists>m. x = ANum m)) \<and>
           extends st (emitted al st x) st2 \<and> c_tk st2 = t \<and> c_p st2 = r' \<and> ty_ok st x (c_ty st2)))"

lemma parsesE:
  assumes "parses al st x n" "punct r t r'" "boundary r" "follows t"
  obtains st1 st2 where "lex al (text_of x @ r) st = Inr st1" "primary al n st1 = Inr st2"
    "c_tk st1 \<noteq> IntTok" "c_tk st1 = Num \<longleftrightarrow> (\<exists>m. x = ANum m)"
    "extends st (emitted al st x) st2" "c_tk st2 = t" "c_p st2 = r'" "ty_ok st x (c_ty st2)"
  using assms unfolding parses_def by blast

text \<open>A whole expression, at a level above the token that follows.\<close>

lemma parses_expr:
  assumes "parses al st x n" "punct r t r'" "boundary r" "follows t" "t < lev" "0 < n"
  obtains st1 st2 where "lex al (text_of x @ r) st = Inr st1" "expr al (Suc n) lev st1 = Inr st2"
    "c_tk st1 \<noteq> IntTok" "c_tk st1 = Num \<longleftrightarrow> (\<exists>m. x = ANum m)"
    "extends st (emitted al st x) st2" "c_tk st2 = t" "c_p st2 = r'" "ty_ok st x (c_ty st2)"
proof -
  obtain m where n: "n = Suc m" using assms(6) gr0_implies_Suc by blast
  obtain st1 st2 where s: "lex al (text_of x @ r) st = Inr st1" "primary al n st1 = Inr st2"
    "c_tk st1 \<noteq> IntTok" "c_tk st1 = Num \<longleftrightarrow> (\<exists>m. x = ANum m)"
    "extends st (emitted al st x) st2" "c_tk st2 = t" "c_p st2 = r'" "ty_ok st x (c_ty st2)"
    using parsesE [OF assms(1-4)] .
  have "climb al n lev st2 = Inr st2" using s(6) assms(5) unfolding n by simp
  then have "expr al (Suc n) lev st1 = Inr st2" using s(2) by (simp add: expr.simps(2))
  then show ?thesis using that s by blast
qed

lemma extends_env: "extends st c st' \<Longrightarrow> list_all (known st) xs \<Longrightarrow> list_all (known st') xs"
  unfolding extends_def list_all_iff using env_eq_known(1) by blast

lemma extends_gen:
  assumes "extends st c st'" "list_all (known st) (vars x)"
  shows "gen I (env_of st') x k = gen I (env_of st) x k"
  using assms env_eq_known(2) by (intro gen_cong) (auto simp: list_all_iff extends_def)

lemma extends_trans: "extends a c b \<Longrightarrow> extends b d e \<Longrightarrow> extends a (c @ d) e"
  unfolding extends_def using env_eq_trans by auto

lemma extends_fields:
  "extends st c (st'\<lparr>c_ty := t\<rparr>) \<longleftrightarrow> extends st c st'" "extends st c (set_ty t st') \<longleftrightarrow> extends st c st'"
  "extends (st\<lparr>c_p := cs\<rparr>) c st' \<longleftrightarrow> extends st c st'" "extends (set_tk tk cs st) c st' \<longleftrightarrow> extends st c st'"
  by (simp_all add: extends_def env_eq_def set_tk_def set_ty_def)

lemma env_fields [simp]: "env_of (set_tk t cs st) = env_of st" "known (set_tk t cs st) = known st"
    "c_code (set_tk t cs st) = c_code st" "c_tk (set_tk t cs st) = t" "c_p (set_tk t cs st) = cs"
  by (simp_all add: fun_eq_iff env_of_def known_def sym_of_def set_tk_def)

lemma env_code [simp]: "env_of (st\<lparr>c_code := c\<rparr>) = env_of st" "known (st\<lparr>c_code := c\<rparr>) = known st"
  by (simp_all add: fun_eq_iff env_of_def known_def sym_of_def)

lemma set_ty_fields [simp]: "c_code (set_ty t st) = c_code st" "c_tk (set_ty t st) = c_tk st" "c_p (set_ty t st) = c_p st"
    "c_ty (set_ty t st) = t"
  by (simp_all add: set_ty_def)

lemma parses_num: "length (c_code st) + 2 \<le> 1024 \<Longrightarrow> parses al st (ANum m) (Suc n)"
  unfolding parses_def
  by (intro allI impI)
    (simp add: primary.simps(2) lex_num emits_def next_tok_def punctD extends_def env_eq_def set_tk_def set_ty_def ty_ok_def)

lemma upd_ref_env: "env_eq st (upd_sym i (\<lambda>y. y\<lparr>s_ref := s_ref y + 1\<rparr>) st)"
  by (cases "i < length (c_symtab st)") (auto simp: env_eq_def upd_sym_def map_update intro!: nth_equalityI simp: nth_list_update)

lemma lex_var:
  assumes "known st x" "boundary r"
  shows "\<exists>i. lex al (x @ r) st = Inr (st\<lparr>c_p := r, c_tk := IdTok, c_id := i\<rparr>) \<and> c_symtab st ! i = sym_of st x"
proof -
  obtain i where i: "find_sym x (ident_hash x) (c_symtab st) 0 = (i, True)"
    using assms(1) by (cases "find_sym x (ident_hash x) (c_symtab st) 0") (simp add: known_def)
  then show ?thesis using lex_known [OF assms(2) _ i] assms(1) by (auto simp: known_def sym_of_def)
qed

lemma parses_var:
  assumes "known st x" "length (c_code st) + 4 \<le> 1024" shows "parses al st (AVar x) (Suc n)"
  unfolding parses_def
proof (intro allI impI)
  fix r t r' assume r: "punct r t r'" "boundary r" "follows t"
  obtain i where i: "lex al (x @ r) st = Inr (st\<lparr>c_p := r, c_tk := IdTok, c_id := i\<rparr>)" "c_symtab st ! i = sym_of st x"
    using lex_var [OF assms(1) r(2)] by blast
  let ?s = "sym_of st x"
  let ?st1 = "st\<lparr>c_p := r, c_tk := IdTok, c_id := i\<rparr>"
  have k: "s_class ?s = Glo" "scalar (s_type ?s)" "s_type ?s div 4 mod 2 \<noteq> 1"
    using assms(1) by (auto simp: known_def scalar_def)
  have ld: "ld_size (s_type ?s) = of_nat (2 ^ nat (s_type ?s))" using k(2) by (auto simp: ld_size_def scalar_def)
  define st2 where "st2 = (set_ty (s_type ?s) (upd_sym i (\<lambda>y. y\<lparr>s_ref := s_ref y + 1\<rparr>) (set_tk t r' ?st1)))
      \<lparr>c_code := c_code st @ [IMM, s_value ?s, LI, ld_size (s_type ?s)]\<rparr>"
  have nt: "t \<noteq> 40" using r(3) by (simp add: follows_def)
  have "load_name i (set_tk t r' ?st1) = Inr st2"
    using k assms(2) i(2) by (simp add: load_name_def Let_def emits_def set_tk_def set_ty_def upd_sym_def st2_def)
  then have "primary al (Suc n) ?st1 = Inr st2"
    using punctD [OF r(1)] nt by (simp add: primary.simps(2) next_tok_def Let_def)
  moreover have "extends st (emitted al st (AVar x)) st2"
    using upd_ref_env [of st i] ld unfolding st2_def extends_def env_eq_def
    by (simp add: set_ty_def set_tk_def upd_sym_def env_of_def)
  moreover have "c_tk st2 = t" "c_p st2 = r'" "ty_ok st (AVar x) (c_ty st2)"
    using k(2) ld by (simp_all add: st2_def upd_sym_def ty_ok_def env_of_def)
  ultimately show "\<exists>st1 st2. lex al (text_of (AVar x) @ r) st = Inr st1 \<and> primary al (Suc n) st1 = Inr st2 \<and>
           c_tk st1 \<noteq> IntTok \<and> (c_tk st1 = Num \<longleftrightarrow> (\<exists>m. AVar x = ANum m)) \<and>
           extends st (emitted al st (AVar x)) st2 \<and> c_tk st2 = t \<and> c_p st2 = r' \<and> ty_ok st (AVar x) (c_ty st2)"
    using i(1) by auto
qed

text \<open>The lexer overwrites token and position whatever they were.\<close>

lemma lex_set_tk: "lex al cs (set_tk t q st) = lex al cs st"
proof (induction al cs st rule: lex.induct)
  case (1 al st)
  then show ?case by (simp add: set_tk_def)
next
  case (2 al c cs st)
  have "lex_ident al cs' (set_tk t q s) = lex_ident al cs' s" for cs' s
    by (simp add: lex_ident_def set_tk_def Let_def upd_sym_def split: prod.split bool.split)
  moreover have "lex_number d cs' (set_tk t q s) = lex_number d cs' s" for d cs' s
    by (simp add: lex_number_def set_tk_def)
  moreover have "lex_quote al d cs' (set_tk t q s) = lex_quote al d cs' s" for d cs' s
    by (simp add: lex_quote_def set_tk_def split: option.split prod.split)
  moreover have "lex_op cs' two t' (set_tk t q s) = lex_op cs' two t' s" for cs' two t' s
    by (simp add: lex_op_def set_tk_def split: option.split)
  moreover have "set_tk t' cs' (set_tk t q s) = set_tk t' cs' s" for t' cs' s by (simp add: set_tk_def)
  ultimately show ?case using 2 by (simp add: lex.simps(2))
qed

lemma paren_parses:
  assumes px: "parses al st x (Suc (Suc n))" and tx: "\<And>r. text_of X @ r = CHR ''('' # text_of x @ sp @ mid r"
    and tk: "\<And>r. punct (mid r) t (tail r)" "136 \<le> t" "t < 156" and X: "\<And>m. X \<noteq> ANum m" "\<And>v. X \<noteq> AVar v"
    and bin: "\<And>r st2. extends st (emitted al st x) st2 \<Longrightarrow> c_tk st2 = t \<Longrightarrow> c_p st2 = tail r \<Longrightarrow> ty_ok st x (c_ty st2) \<Longrightarrow>
       \<exists>st3. binary al (Suc n) st2 = Inr st3 \<and> extends st (emitted al st X) st3 \<and> c_tk st3 = 41 \<and> c_p st3 = r \<and>
         scalar (c_ty st3)"
  shows "parses al st X (Suc (Suc (Suc (Suc n))))"
  unfolding parses_def
proof (intro allI impI)
  fix r t2 r' assume r: "punct r t2 r'" "boundary r" "follows t2"
  have mid: "punct (sp @ mid r) t (tail r)" "boundary (sp @ mid r)" "follows t" using tk by (simp_all add: follows_def)
  obtain st1 st2 where s: "lex al (text_of x @ sp @ mid r) st = Inr st1" "primary al (Suc (Suc n)) st1 = Inr st2"
    "c_tk st1 \<noteq> IntTok" "c_tk st1 = Num \<longleftrightarrow> (\<exists>m. x = ANum m)"
    "extends st (emitted al st x) st2" "c_tk st2 = t" "c_p st2 = tail r" "ty_ok st x (c_ty st2)"
    using parsesE [OF px mid] .
  obtain st3 where b: "binary al (Suc n) st2 = Inr st3" "extends st (emitted al st X) st3" "c_tk st3 = 41" "c_p st3 = r"
      "scalar (c_ty st3)" using bin [OF s(5-8)] by blast
  let ?s = "set_tk 40 (text_of x @ sp @ mid r) st"
  have l: "lex al (text_of X @ r) st = Inr ?s" unfolding tx by (rule punctD [OF punct_open])
  have "climb al (Suc (Suc n)) 136 st2 = Inr st3" using b(1,3) s(6) tk(2) by simp
  then have "expr al (Suc (Suc (Suc n))) 136 st1 = Inr st3" using s(2) by (simp add: expr.simps(2))
  then have "primary al (Suc (Suc (Suc (Suc n)))) ?s = expect al 41 ''close paren expected'' st3"
    using s(1,3) by (simp add: primary.simps(2) next_tok_def lex_set_tk Let_def)
  also have "\<dots> = Inr (set_tk t2 r' st3)" using b(3,4) punctD [OF r(1)] by (simp add: expect_def next_tok_def)
  finally have p: "primary al (Suc (Suc (Suc (Suc n)))) ?s = Inr (set_tk t2 r' st3)" .
  have e: "extends st (emitted al st X) (set_tk t2 r' st3)" using b(2) by (simp add: extends_def env_eq_def set_tk_def)
  have "ty_ok st X (c_ty (set_tk t2 r' st3))" using b(5) X(2) by (simp add: set_tk_def ty_ok_def)
  then show "\<exists>st1 st2. lex al (text_of X @ r) st = Inr st1 \<and> primary al (Suc (Suc (Suc (Suc n)))) st1 = Inr st2 \<and>
           c_tk st1 \<noteq> IntTok \<and> (c_tk st1 = Num \<longleftrightarrow> (\<exists>m. X = ANum m)) \<and>
           extends st (emitted al st X) st2 \<and> c_tk st2 = t2 \<and> c_p st2 = r' \<and> ty_ok st X (c_ty st2)"
    using l p e X by (intro exI [of _ ?s] exI [of _ "set_tk t2 r' st3"]) auto
qed

text \<open>Reading on with the right operand, after the instructions were changed.\<close>

lemma lex_Inr_code:
  assumes "lex al cs st = Inr s"
  shows "c_code s = c_code st" "lex al cs (st\<lparr>c_code := c\<rparr>) = Inr (s\<lparr>c_code := c\<rparr>)"
proof -
  have "lex al cs (st\<lparr>c_code := c_code st\<rparr>) = Inr (s\<lparr>c_code := c_code st\<rparr>)" using assms by (simp only: lex_code) simp
  then have "s = s\<lparr>c_code := c_code st\<rparr>" using assms by simp
  then show "c_code s = c_code st" by (metis cst.select_convs(5) cst.surjective cst.update_convs(5))
  show "lex al cs (st\<lparr>c_code := c\<rparr>) = Inr (s\<lparr>c_code := c\<rparr>)" using assms by (simp add: lex_code)
qed

lemma operand:
  assumes py: "parses al (st0\<lparr>c_code := c\<rparr>) y (Suc n)" and p: "c_p st0 = sp @ text_of y @ q"
    and q: "punct q t q'" "boundary q" "follows t" "t < lev"
  obtains s st2 where "next_tok al st0 = Inr s" "c_code s = c_code st0" "expr al (Suc (Suc n)) lev (s\<lparr>c_code := c\<rparr>) = Inr st2"
    "extends (st0\<lparr>c_code := c\<rparr>) (emitted al (st0\<lparr>c_code := c\<rparr>) y) st2" "c_tk st2 = t" "c_p st2 = q'" "scalar (c_ty st2)"
proof -
  obtain st1 st2 where s: "lex al (text_of y @ q) (st0\<lparr>c_code := c\<rparr>) = Inr st1" "expr al (Suc (Suc n)) lev st1 = Inr st2"
    "c_tk st1 \<noteq> IntTok" "c_tk st1 = Num \<longleftrightarrow> (\<exists>m. y = ANum m)"
    "extends (st0\<lparr>c_code := c\<rparr>) (emitted al (st0\<lparr>c_code := c\<rparr>) y) st2" "c_tk st2 = t" "c_p st2 = q'" "ty_ok (st0\<lparr>c_code := c\<rparr>) y (c_ty st2)"
    using parses_expr [OF py q] by blast
  have l: "lex al (text_of y @ q) st0 = Inr (st1\<lparr>c_code := c_code st0\<rparr>)"
    using lex_Inr_code(2) [OF s(1), of "c_code st0"] by simp
  have "st1\<lparr>c_code := c\<rparr> = st1" using lex_Inr_code(1) [OF s(1)] by simp
  then show ?thesis using that [of "st1\<lparr>c_code := c_code st0\<rparr>" st2] s l p by (simp add: next_tok_def sp_def ty_ok_def)
qed

lemma binary_bop:
  assumes "c_tk st = bop_tk b" "scalar (c_ty st)"
  obtains lev f where "41 < lev"
    "binary al (Suc n) st = bnd (next_tok al st) (\<lambda>s. bnd (emits [PSH] s) (\<lambda>s. bnd (expr al n lev s) f))"
    "\<And>s. length (c_code s) + 1 \<le> 1024 \<Longrightarrow>
       \<exists>ty. scalar ty \<and> f s = Inr (set_ty ty (s\<lparr>c_code := c_code s @ [bop_insn b]\<rparr>))"
proof (cases "b = BAdd \<or> b = BSub")
  case False
  obtain lev where l: "map_of simple_ops (bop_tk b) = Some (lev, bop_insn b)" "41 < lev"
    "bop_tk b \<notin> {136, 137, 138, 139, 151, 152, 156, 157, 158}"
    using False by (cases b) (auto simp: simple_ops_def)
  have "binary al (Suc n) st = bnd (next_tok al st) (\<lambda>s. bnd (emits [PSH] s) (\<lambda>s. bnd (expr al n lev s)
      (\<lambda>s. bnd (emits [bop_insn b] s) (\<lambda>s. Inr (set_ty INT_ty s)))))"
    using assms(1) l(1,3) by (simp add: binary.simps(2) Let_def)
  then show ?thesis by (rule that [OF l(2)]) (auto simp: emits_def intro!: exI [of _ 2])
next
  case True
  have t: "\<not> 8 < c_ty st" using assms(2) by (auto simp: scalar_def)
  have "binary al (Suc n) st = bnd (next_tok al st) (\<lambda>s. bnd (emits [PSH] s) (\<lambda>s. bnd (expr al n Mul s)
      (\<lambda>s. emits [bop_insn b] (set_ty (c_ty st) s))))"
    using assms(1) True t by (auto simp: binary.simps(2) Let_def)
  then show ?thesis by (rule that [rotated]) (use assms(2) in \<open>auto simp: emits_def set_ty_def intro!: exI [of _ "c_ty st"]\<close>)
qed

lemma extends_snoc:
  "extends st c s \<Longrightarrow> extends st (c @ d) (set_ty t (s\<lparr>c_code := c_code s @ d\<rparr>))"
  by (simp add: extends_def env_eq_def set_ty_def)

lemma extends_code: "extends st c st2 \<Longrightarrow> extends st d (st2\<lparr>c_code := c_code st @ d\<rparr>)"
  by (simp add: extends_def env_eq_def)

lemma close_follows: "punct (CHR '')'' # r) 41 r" "boundary (CHR '')'' # r)" "follows 41"
  using punct_close by (simp_all add: follows_def)

lemma parses_bin:
  assumes px: "parses al st x (Suc (Suc (Suc (Suc n))))"
    and py: "\<And>st'. extends st (emitted al st x @ [PSH]) st' \<Longrightarrow> parses al st' y (Suc n)"
    and kn: "list_all (known st) (vars y)" and len: "length (c_code st) + length (emitted al st (ABin b x y)) \<le> 1024"
  shows "parses al st (ABin b x y) (Suc (Suc (Suc (Suc (Suc (Suc n))))))"
proof (rule paren_parses [OF px, where mid = "\<lambda>r. bop_text b @ sp @ text_of y @ CHR '')'' # r" and t = "bop_tk b"
      and tail = "\<lambda>r. sp @ text_of y @ CHR '')'' # r"])
  fix r st2
  assume st2: "extends st (emitted al st x) st2" "c_tk st2 = bop_tk b" "c_p st2 = sp @ text_of y @ CHR '')'' # r"
    "ty_ok st x (c_ty st2)"
  obtain lev f where f: "41 < lev"
    "binary al (Suc (Suc (Suc n))) st2 = bnd (next_tok al st2) (\<lambda>s. bnd (emits [PSH] s) (\<lambda>s. bnd (expr al (Suc (Suc n)) lev s) f))"
    "\<And>s. length (c_code s) + 1 \<le> 1024 \<Longrightarrow>
       \<exists>ty. scalar ty \<and> f s = Inr (set_ty ty (s\<lparr>c_code := c_code s @ [bop_insn b]\<rparr>))"
    using binary_bop [of st2 b al "Suc (Suc n)"] st2(2,4) unfolding ty_ok_def by blast
  define c where "c = c_code st2 @ [PSH]"
  have es: "extends st (emitted al st x @ [PSH]) (st2\<lparr>c_code := c\<rparr>)"
    using extends_code [OF st2(1)] st2(1) by (simp add: c_def extends_def)
  obtain s st3 where s: "next_tok al st2 = Inr s" "c_code s = c_code st2" "expr al (Suc (Suc n)) lev (s\<lparr>c_code := c\<rparr>) = Inr st3"
    "extends (st2\<lparr>c_code := c\<rparr>) (emitted al (st2\<lparr>c_code := c\<rparr>) y) st3" "c_tk st3 = 41" "c_p st3 = r" "scalar (c_ty st3)"
    using operand [OF py [OF es] st2(3) close_follows f(1)] .
  have gy: "emitted al (st2\<lparr>c_code := c\<rparr>) y =
      gen (insn_base al) (env_of st) y (length (c_code st) + length (emitted al st x) + 1)"
    using extends_gen [OF es kn] es by (simp add: extends_def)
  have e3: "extends st ((emitted al st x @ [PSH]) @ emitted al (st2\<lparr>c_code := c\<rparr>) y) st3" by (rule extends_trans [OF es s(4)])
  have ln: "length (c_code st2) + 1 \<le> 1024" "length (c_code st3) + 1 \<le> 1024"
    using len st2(1) e3 gy by (simp_all add: extends_def Let_def)
  then obtain ty where ty: "scalar ty" "f st3 = Inr (set_ty ty (st3\<lparr>c_code := c_code st3 @ [bop_insn b]\<rparr>))" using f(3) by blast
  have "binary al (Suc (Suc (Suc n))) st2 = Inr (set_ty ty (st3\<lparr>c_code := c_code st3 @ [bop_insn b]\<rparr>))"
    using f(2) s(1-3) ln(1) ty(2) by (simp add: emits_def c_def)
  moreover have "extends st (emitted al st (ABin b x y)) (set_ty ty (st3\<lparr>c_code := c_code st3 @ [bop_insn b]\<rparr>))"
    using extends_snoc [OF e3, of "[bop_insn b]" ty] gy by (simp add: Let_def)
  ultimately show "\<exists>st3. binary al (Suc (Suc (Suc n))) st2 = Inr st3 \<and> extends st (emitted al st (ABin b x y)) st3 \<and>
       c_tk st3 = 41 \<and> c_p st3 = r \<and> scalar (c_ty st3)"
    using s(5,6) ty(1) by (intro exI [of _ "set_ty ty (st3\<lparr>c_code := c_code st3 @ [bop_insn b]\<rparr>)"]) auto
qed (use punct_bop in \<open>simp_all\<close>, (cases b; simp)+)

text \<open>Filling in a jump operand that was left open.\<close>

lemma patch_open:
  assumes "c_code st = a @ [i, z] @ b" "d = length a + 1"
  shows "patch al d k st = st\<lparr>c_code := a @ [i, insn_base al + 8 * of_nat k] @ b\<rparr>"
  using assms by (simp add: patch_def list_update_append)

lemma parses_short:
  assumes px: "parses al st x (Suc (Suc (Suc (Suc n))))"
    and py: "\<And>st' z. extends st (emitted al st x @ [i, z]) st' \<Longrightarrow> parses al st' y (Suc n)"
    and kn: "list_all (known st) (vars y)" and len: "length (c_code st) + length (emitted al st X) \<le> 1024"
    and X: "X = ALan x y \<and> i = BZ \<and> t = Lan \<and> optxt = ''&&'' \<or> X = ALor x y \<and> i = BNZ \<and> t = Lor \<and> optxt = ''||''"
  shows "parses al st X (Suc (Suc (Suc (Suc (Suc (Suc n))))))"
proof (rule paren_parses [OF px, where mid = "\<lambda>r. optxt @ sp @ text_of y @ CHR '')'' # r" and t = t
      and tail = "\<lambda>r. sp @ text_of y @ CHR '')'' # r"])
  fix r st2
  assume st2: "extends st (emitted al st x) st2" "c_tk st2 = t" "c_p st2 = sp @ text_of y @ CHR '')'' # r" "ty_ok st x (c_ty st2)"
  define c where "c = c_code st2 @ [i, 0]"
  have es: "extends st (emitted al st x @ [i, 0]) (st2\<lparr>c_code := c\<rparr>)"
    using extends_code [OF st2(1)] st2(1) by (simp add: c_def extends_def)
  obtain lev where lev: "41 < lev" "binary al (Suc (Suc (Suc n))) st2 = bnd (next_tok al st2) (\<lambda>s. bnd (emits [i, 0] s) (\<lambda>s.
        bnd (expr al (Suc (Suc n)) lev s) (\<lambda>s2. Inr (set_ty INT_ty (patch al (length (c_code s) - 1) (length (c_code s2)) s2)))))"
    using that [of 139] that [of 140] X st2(2) by (auto simp: binary.simps(2) Let_def)
  obtain s st3 where s: "next_tok al st2 = Inr s" "c_code s = c_code st2" "expr al (Suc (Suc n)) lev (s\<lparr>c_code := c\<rparr>) = Inr st3"
    "extends (st2\<lparr>c_code := c\<rparr>) (emitted al (st2\<lparr>c_code := c\<rparr>) y) st3" "c_tk st3 = 41" "c_p st3 = r" "scalar (c_ty st3)"
    using operand [OF py [OF es] st2(3) close_follows lev(1)] .
  have gy: "emitted al (st2\<lparr>c_code := c\<rparr>) y =
      gen (insn_base al) (env_of st) y (length (c_code st) + length (emitted al st x) + 2)"
    using extends_gen [OF es kn] es by (simp add: extends_def)
  have cd: "c_code st3 = c_code st2 @ [i, 0] @ emitted al (st2\<lparr>c_code := c\<rparr>) y" using s(4) by (simp add: extends_def c_def)
  have l2: "length (c_code st2) + 2 \<le> 1024" using len st2(1) X by (auto simp: extends_def Let_def)
  define st4 where "st4 = set_ty INT_ty (st3\<lparr>c_code := c_code st2 @ [i, insn_base al + 8 * of_nat (length (c_code st3))] @
      emitted al (st2\<lparr>c_code := c\<rparr>) y\<rparr>)"
  have "binary al (Suc (Suc (Suc n))) st2 = Inr st4"
    using lev(2) s(1-3) l2 patch_open [OF cd, of "length (c_code st2) + 1"] by (simp add: emits_def c_def st4_def)
  moreover have "extends st (emitted al st X) st4"
  proof -
    have "env_eq st st3" using extends_trans [OF es s(4)] by (simp add: extends_def)
    moreover have "length (c_code st3) = length (c_code st) + length (emitted al st x) + 2 + length (emitted al (st2\<lparr>c_code := c\<rparr>) y)"
      using cd st2(1) by (simp add: extends_def)
    ultimately show ?thesis using X gy st2(1) by (auto simp: extends_def st4_def env_eq_def set_ty_def Let_def)
  qed
  ultimately show "\<exists>st3. binary al (Suc (Suc (Suc n))) st2 = Inr st3 \<and> extends st (emitted al st X) st3 \<and>
       c_tk st3 = 41 \<and> c_p st3 = r \<and> scalar (c_ty st3)"
    using s(5,6) by (intro exI [of _ st4]) (simp add: st4_def)
qed (use X punct_lan punct_lor in \<open>auto\<close>)

lemma parses_cond:
  assumes px: "parses al st x (Suc (Suc (Suc (Suc n))))"
    and py: "\<And>st' k. extends st (emitted al st x @ [BZ, k]) st' \<Longrightarrow> parses al st' y (Suc n)"
    and pz: "\<And>st' c. extends st c st' \<Longrightarrow> length c = length (emitted al st x) + 2 +
        length (gen (insn_base al) (env_of st) y (length (c_code st) + length (emitted al st x) + 2)) + 2 \<Longrightarrow> parses al st' z (Suc n)"
    and kn: "list_all (known st) (vars y)" "list_all (known st) (vars z)"
    and len: "length (c_code st) + length (emitted al st (ACond x y z)) \<le> 1024"
  shows "parses al st (ACond x y z) (Suc (Suc (Suc (Suc (Suc (Suc n))))))"
proof (rule paren_parses [OF px, where mid = "\<lambda>r. ''?'' @ sp @ text_of y @ sp @ '':'' @ sp @ text_of z @ CHR '')'' # r" and t = 137
      and tail = "\<lambda>r. sp @ text_of y @ sp @ '':'' @ sp @ text_of z @ CHR '')'' # r"])
  fix r st2
  let ?q = "sp @ '':'' @ sp @ text_of z @ CHR '')'' # r"
  assume st2: "extends st (emitted al st x) st2" "c_tk st2 = 137" "c_p st2 = sp @ text_of y @ ?q" "ty_ok st x (c_ty st2)"
  let ?I = "insn_base al" and ?E = "env_of st"
  define k1 where "k1 = length (c_code st) + length (emitted al st x) + 2"
  define cy where "cy = gen ?I ?E y k1"
  define k2 where "k2 = k1 + length cy + 2"
  define cz where "cz = gen ?I ?E z k2"
  have g: "emitted al st (ACond x y z) =
      emitted al st x @ [BZ, ?I + 8 * of_nat k2] @ cy @ [JMP, ?I + 8 * of_nat (k2 + length cz)] @ cz"
    by (simp add: Let_def k1_def cy_def k2_def cz_def)
  define c where "c = c_code st2 @ [BZ, 0]"
  have es: "extends st (emitted al st x @ [BZ, 0]) (st2\<lparr>c_code := c\<rparr>)"
    using extends_code [OF st2(1)] st2(1) by (simp add: c_def extends_def)
  have q: "punct ?q 58 (sp @ text_of z @ CHR '')'' # r)" "boundary ?q" "follows 58" "(58::int) < 136"
    using punct_colon by (simp_all add: follows_def)
  obtain s st3 where s: "next_tok al st2 = Inr s" "c_code s = c_code st2" "expr al (Suc (Suc n)) 136 (s\<lparr>c_code := c\<rparr>) = Inr st3"
    "extends (st2\<lparr>c_code := c\<rparr>) (emitted al (st2\<lparr>c_code := c\<rparr>) y) st3" "c_tk st3 = 58"
    "c_p st3 = sp @ text_of z @ CHR '')'' # r" "scalar (c_ty st3)"
    using operand [OF py [OF es] st2(3) q] .
  have gy: "emitted al (st2\<lparr>c_code := c\<rparr>) y = cy"
    using extends_gen [OF es kn(1)] es by (simp add: extends_def cy_def k1_def)
  have cd: "c_code st3 = c_code st2 @ [BZ, 0] @ cy" using s(4) gy by (simp add: extends_def c_def)
  define c' where "c' = (c_code st2 @ [BZ, ?I + 8 * of_nat k2] @ cy) @ [JMP, 0]"
  have e3: "env_eq st st3" using extends_trans [OF es s(4)] by (simp add: extends_def)
  have es': "extends st (emitted al st x @ [BZ, ?I + 8 * of_nat k2] @ cy @ [JMP, 0]) (st3\<lparr>c_code := c'\<rparr>)"
    using e3 st2(1) by (simp add: extends_def c'_def env_eq_def)
  have pz': "parses al (st3\<lparr>c_code := c'\<rparr>) z (Suc n)" by (rule pz [OF es']) (simp add: cy_def k1_def)
  obtain s' st4 where s': "next_tok al st3 = Inr s'" "c_code s' = c_code st3" "expr al (Suc (Suc n)) 137 (s'\<lparr>c_code := c'\<rparr>) = Inr st4"
    "extends (st3\<lparr>c_code := c'\<rparr>) (emitted al (st3\<lparr>c_code := c'\<rparr>) z) st4" "c_tk st4 = 41" "c_p st4 = r" "scalar (c_ty st4)"
    using operand [OF pz' s(6) close_follows, of 137] by auto
  have gz: "emitted al (st3\<lparr>c_code := c'\<rparr>) z = cz"
    using extends_gen [OF es' kn(2)] st2(1) by (simp add: extends_def cz_def k2_def k1_def c'_def add.assoc)
  have cd': "c_code st4 = (c_code st2 @ [BZ, ?I + 8 * of_nat k2] @ cy) @ [JMP, 0] @ cz"
    using s'(4) gz by (simp add: extends_def c'_def)
  have ln: "length (c_code st2) = k1 - 2" "2 \<le> k1" using st2(1) by (simp_all add: extends_def k1_def)
  have cap: "length (c_code st2) + 2 \<le> 1024" "length (c_code st2) + 2 + length cy + 2 \<le> 1024"
    using len st2(1) unfolding g by (simp_all add: extends_def)
  have l3: "length (c_code st3) + 2 = k2" "length (c_code st4) = k2 + length cz"
    using cd cd' ln by (simp_all add: k2_def)
  define st5 where "st5 = st4\<lparr>c_code := (c_code st2 @ [BZ, ?I + 8 * of_nat k2] @ cy) @ [JMP, ?I + 8 * of_nat (k2 + length cz)] @ cz\<rparr>"
  have p1: "patch al (length c - 1) (length (c_code s') + 2) s' = s'\<lparr>c_code := c_code st2 @ [BZ, ?I + 8 * of_nat k2] @ cy\<rparr>"
    using patch_open [of s' "c_code st2" BZ 0 cy] s'(2) cd l3(1) by (simp add: c_def)
  have p2: "patch al (length c' - 1) (length (c_code st4)) st4 = st5"
    using patch_open [OF cd', of "length c' - 1"] l3(2) by (simp add: c'_def st5_def)
  have "binary al (Suc (Suc (Suc n))) st2 = Inr st5"
    using st2(2) s(1-3,5) s'(1,3) cap p1 p2 by (simp add: binary.simps(2) Let_def emits_def expect_def c_def c'_def)
  moreover have "extends st (emitted al st (ACond x y z)) st5"
  proof -
    have "env_eq st st4" using extends_trans [OF es' s'(4)] by (simp add: extends_def)
    then show ?thesis unfolding g using st2(1) by (simp add: extends_def st5_def env_eq_def)
  qed
  ultimately show "\<exists>st3. binary al (Suc (Suc (Suc n))) st2 = Inr st3 \<and> extends st (emitted al st (ACond x y z)) st3 \<and>
       c_tk st3 = 41 \<and> c_p st3 = r \<and> scalar (c_ty st3)"
    using s'(5-7) by (intro exI [of _ st5]) (simp add: st5_def)
qed (use punct_cond in \<open>simp_all\<close>)

lemma parses_asg:
  assumes kn: "known st v" and len: "length (c_code st) + length (emitted al st (AAsg v y)) \<le> 1024"
    and ky: "list_all (known st) (vars y)"
    and py: "\<And>st'. extends st [IMM, fst (env_of st v), PSH] st' \<Longrightarrow> parses al st' y (Suc n)"
  shows "parses al st (AAsg v y) (Suc (Suc (Suc (Suc (Suc (Suc n))))))"
proof (rule paren_parses [where x = "AVar v" and mid = "\<lambda>r. ''='' @ sp @ text_of y @ CHR '')'' # r" and t = 136
      and tail = "\<lambda>r. sp @ text_of y @ CHR '')'' # r"])
  show "parses al st (AVar v) (Suc (Suc (Suc (Suc n))))" using len by (intro parses_var [OF kn]) simp
  fix r st2
  assume st2: "extends st (emitted al st (AVar v)) st2" "c_tk st2 = 136" "c_p st2 = sp @ text_of y @ CHR '')'' # r"
    "ty_ok st (AVar v) (c_ty st2)"
  let ?a = "fst (env_of st v)" and ?n = "of_nat (snd (env_of st v)) :: u64"
  define c where "c = c_code st @ [IMM, ?a, PSH]"
  have c2: "c_code st2 = c_code st @ [IMM, ?a, LI, ?n]" using st2(1) by (simp add: extends_def)
  have ld: "ld_size (c_ty st2) = ?n" "scalar (c_ty st2)" using st2(4) by (simp_all add: ty_ok_def)
  have es: "extends st [IMM, ?a, PSH] (st2\<lparr>c_code := c\<rparr>)" using extends_code [OF st2(1)] by (simp add: c_def)
  obtain s st3 where s: "next_tok al st2 = Inr s" "c_code s = c_code st2" "expr al (Suc (Suc n)) 136 (s\<lparr>c_code := c\<rparr>) = Inr st3"
    "extends (st2\<lparr>c_code := c\<rparr>) (emitted al (st2\<lparr>c_code := c\<rparr>) y) st3" "c_tk st3 = 41" "c_p st3 = r" "scalar (c_ty st3)"
    using operand [OF py [OF es] st2(3) close_follows, of 136] by auto
  have gy: "emitted al (st2\<lparr>c_code := c\<rparr>) y = gen (insn_base al) (env_of st) y (length (c_code st) + 3)"
    using extends_gen [OF es ky] by (simp add: c_def plus_Sucs)
  have e3: "extends st ([IMM, ?a, PSH] @ emitted al (st2\<lparr>c_code := c\<rparr>) y) st3" by (rule extends_trans [OF es s(4)])
  have LI: "prev_is_LI s" "take (length (c_code s) - 2) (c_code s) @ [PSH] = c"
    using s(2) c2 by (simp_all add: prev_is_LI_def c_def nth_append)
  have l3: "length (c_code st3) + 2 \<le> 1024" using e3 gy len by (simp add: extends_def)
  define st4 where "st4 = set_ty (c_ty st2) (st3\<lparr>c_code := c_code st3 @ [SI, ?n]\<rparr>)"
  have "binary al (Suc (Suc (Suc n))) st2 = Inr st4"
    using st2(2) s(1,3) LI l3 ld by (simp add: binary.simps(2) Let_def emits_def st4_def set_ty_def)
  moreover have "extends st (emitted al st (AAsg v y)) st4"
    using extends_snoc [OF e3, of "[SI, ?n]" "c_ty st2"] gy by (simp add: st4_def)
  ultimately show "\<exists>st3. binary al (Suc (Suc (Suc n))) st2 = Inr st3 \<and> extends st (emitted al st (AAsg v y)) st3 \<and>
       c_tk st3 = 41 \<and> c_p st3 = r \<and> scalar (c_ty st3)"
    using s(5,6) ld(2) by (intro exI [of _ st4]) (simp add: st4_def)
qed (use punct_asg in \<open>simp_all\<close>)

lemma un_finish:
  assumes l: "lex al (text_of a @ r) st = Inr st1" "expr al (Suc n) 156 st1 = Inr st2" and u: "u \<noteq> UNeg"
    and e: "extends st (emitted al st a) st2" "c_tk st2 = t" "c_p st2 = r'"
    and len: "length (c_code st) + length (emitted al st (AUn u a)) \<le> 1024"
  shows "\<exists>st3. primary al (Suc (Suc n)) (set_tk (uop_tk u) (sp @ text_of a @ r) st) = Inr st3 \<and>
      extends st (emitted al st (AUn u a)) st3 \<and> c_tk st3 = t \<and> c_p st3 = r' \<and> scalar (c_ty st3)"
proof -
  define ws where "ws = (case u of UNot \<Rightarrow> [PSH, IMM, 0, EQ_op] | UCom \<Rightarrow> [PSH, IMM, - 1, XOR_op] | _ \<Rightarrow> [])"
  define st3 where "st3 = set_ty INT_ty (st2\<lparr>c_code := c_code st2 @ ws\<rparr>)"
  have g: "emitted al st (AUn u a) = emitted al st a @ ws" using u by (cases u) (simp_all add: ws_def)
  have "length (c_code st2) + length ws \<le> 1024" using len e(1) unfolding g by (simp add: extends_def)
  moreover have "next_tok al (set_tk (uop_tk u) (sp @ text_of a @ r) st) = Inr st1"
    using l(1) by (simp add: next_tok_def lex_set_tk sp_def)
  ultimately have "primary al (Suc (Suc n)) (set_tk (uop_tk u) (sp @ text_of a @ r) st) = Inr st3"
    using l(2) u by (cases u) (simp_all add: primary.simps(2) uop_tk_def ws_def st3_def emits_def)
  moreover have "extends st (emitted al st (AUn u a)) st3" unfolding g st3_def by (rule extends_snoc [OF e(1)])
  ultimately show ?thesis using e by (intro exI [of _ st3]) (simp add: st3_def)
qed

lemma neg_finish:
  assumes pa: "\<And>st'. extends st [IMM, - 1, PSH] st' \<Longrightarrow> parses al st' a (Suc n)" and kn: "list_all (known st) (vars a)"
    and a: "\<not> (\<exists>m. a = ANum m)" and r: "punct r t r'" "boundary r" "follows t"
    and len: "length (c_code st) + length (emitted al st (AUn UNeg a)) \<le> 1024"
  shows "\<exists>st3. primary al (Suc (Suc (Suc n))) (set_tk 152 (sp @ text_of a @ r) st) = Inr st3 \<and>
      extends st (emitted al st (AUn UNeg a)) st3 \<and> c_tk st3 = t \<and> c_p st3 = r' \<and> scalar (c_ty st3)"
proof -
  define c where "c = c_code st @ [IMM, - 1, PSH]"
  have es: "extends st [IMM, - 1, PSH] (st\<lparr>c_code := c\<rparr>)" by (simp add: extends_def env_eq_def c_def)
  have t: "t < 156" using r(3) by (simp add: follows_def)
  obtain st1 st2 where s: "lex al (text_of a @ r) (st\<lparr>c_code := c\<rparr>) = Inr st1" "expr al (Suc (Suc n)) 156 st1 = Inr st2"
    "c_tk st1 \<noteq> IntTok" "c_tk st1 = Num \<longleftrightarrow> (\<exists>m. a = ANum m)"
    "extends (st\<lparr>c_code := c\<rparr>) (emitted al (st\<lparr>c_code := c\<rparr>) a) st2" "c_tk st2 = t" "c_p st2 = r'"
      "ty_ok (st\<lparr>c_code := c\<rparr>) a (c_ty st2)"
    using parses_expr [OF pa [OF es] r t] by blast
  have l: "lex al (text_of a @ r) st = Inr (st1\<lparr>c_code := c_code st\<rparr>)"
    using lex_Inr_code(2) [OF s(1), of "c_code st"] by simp
  have s1: "st1\<lparr>c_code := c\<rparr> = st1" using lex_Inr_code(1) [OF s(1)] by simp
  have g: "emitted al st (AUn UNeg a) = [IMM, - 1, PSH] @ emitted al (st\<lparr>c_code := c\<rparr>) a @ [MUL_op]"
    using gen_neg [OF a] by (simp add: c_def plus_Sucs)
  have e2: "extends st ([IMM, - 1, PSH] @ emitted al (st\<lparr>c_code := c\<rparr>) a) st2" by (rule extends_trans [OF es s(5)])
  have cap: "length (c_code st) + 3 \<le> 1024" "length (c_code st2) + 1 \<le> 1024"
    using len e2 unfolding g by (simp_all add: extends_def)
  have "next_tok al (set_tk 152 (sp @ text_of a @ r) st) = Inr (st1\<lparr>c_code := c_code st\<rparr>)"
    using l by (simp add: next_tok_def lex_set_tk sp_def)
  then have "primary al (Suc (Suc (Suc n))) (set_tk 152 (sp @ text_of a @ r) st) = Inr (set_ty INT_ty (st2\<lparr>c_code := c_code st2 @ [MUL_op]\<rparr>))"
    using s(2,4) a cap s1 by (simp add: primary.simps(2) emits_def c_def)
  moreover have "extends st (emitted al st (AUn UNeg a)) (set_ty INT_ty (st2\<lparr>c_code := c_code st2 @ [MUL_op]\<rparr>))"
    unfolding g using extends_snoc [OF e2, of "[MUL_op]" 2] by simp
  ultimately show ?thesis using s(6,7) by (intro exI conjI) (assumption, assumption, simp_all)
qed

lemma neg_num_finish:
  assumes r: "punct r t r'" "boundary r" and len: "length (c_code st) + 2 \<le> 1024"
  shows "\<exists>st3. primary al (Suc n) (set_tk 152 (sp @ text_of (ANum m) @ r) st) = Inr st3 \<and>
      extends st (emitted al st (AUn UNeg (ANum m))) st3 \<and> c_tk st3 = t \<and> c_p st3 = r' \<and> scalar (c_ty st3)"
proof -
  have "next_tok al (set_tk 152 (sp @ text_of (ANum m) @ r) st) = Inr (st\<lparr>c_p := r, c_tk := Num, c_ival := of_nat m\<rparr>)"
    using lex_num [OF r(2)] by (simp add: next_tok_def lex_set_tk sp_def)
  then show ?thesis using len punctD [OF r(1)]
    by (simp add: primary.simps(2) emits_def next_tok_def extends_def env_eq_def set_tk_def set_ty_def)
qed

text \<open>Fuel that is enough.\<close>

fun fu :: "ast \<Rightarrow> nat" where
  "fu (ANum n) = 1"
| "fu (AVar x) = 1"
| "fu (AUn u a) = fu a + 2"
| "fu (ABin b x y) = max (fu x) (fu y) + 6"
| "fu (ALan x y) = max (fu x) (fu y) + 6"
| "fu (ALor x y) = max (fu x) (fu y) + 6"
| "fu (ACond x y z) = max (fu x) (max (fu y) (fu z)) + 6"
| "fu (AAsg x y) = fu y + 6"

lemma fu_pos: "1 \<le> fu a"
  by (cases a) simp_all

lemma parses_un:
  assumes IH: "\<And>st n. list_all (known st) (vars a) \<Longrightarrow> length (c_code st) + length (emitted al st a) \<le> 1024 \<Longrightarrow>
      fu a \<le> n \<Longrightarrow> parses al st a n"
    and kn: "list_all (known st) (vars a)" and len: "length (c_code st) + length (emitted al st (AUn u a)) \<le> 1024"
    and n: "fu a + 2 \<le> n"
  shows "parses al st (AUn u a) n"
  unfolding parses_def
proof (intro allI impI)
  fix r t r' assume r: "punct r t r'" "boundary r" "follows t"
  define k where "k = n - 3"
  have k: "n = Suc (Suc (Suc k))" "fu a \<le> Suc k" using n fu_pos [of a] by (simp_all add: k_def)
  have lx: "lex al (text_of (AUn u a) @ r) st = Inr (set_tk (uop_tk u) (sp @ text_of a @ r) st)"
    using punctD [OF punct_uop] by simp
  have "\<exists>st3. primary al n (set_tk (uop_tk u) (sp @ text_of a @ r) st) = Inr st3 \<and>
      extends st (emitted al st (AUn u a)) st3 \<and> c_tk st3 = t \<and> c_p st3 = r' \<and> scalar (c_ty st3)"
  proof (cases "u = UNeg")
    case False
    then have l: "length (c_code st) + length (emitted al st a) \<le> 1024" using len by (cases u) simp_all
    have t: "t < 156" using r(3) by (simp add: follows_def)
    obtain st1 st2 where s: "lex al (text_of a @ r) st = Inr st1" "expr al (Suc (Suc k)) 156 st1 = Inr st2"
      "c_tk st1 \<noteq> IntTok" "c_tk st1 = Num \<longleftrightarrow> (\<exists>m. a = ANum m)" "extends st (emitted al st a) st2"
      "c_tk st2 = t" "c_p st2 = r'" "ty_ok st a (c_ty st2)"
      using parses_expr [OF IH [OF kn l k(2)] r t] by blast
    show ?thesis using un_finish [OF s(1,2) False s(5-7) len] k(1) by simp
  next
    case True
    show ?thesis
    proof (cases "\<exists>m. a = ANum m")
      case num: True
      then obtain m where m: "a = ANum m" by blast
      show ?thesis using neg_num_finish [OF r(1,2), of st al _ m] len k(1) unfolding True m by (simp add: uop_tk_def)
    next
      case False
      have "parses al st' a (Suc k)" if "extends st [IMM, - 1, PSH] st'" for st'
      proof (rule IH [OF extends_env [OF that kn] _ k(2)])
        show "length (c_code st') + length (emitted al st' a) \<le> 1024"
          using len extends_gen [OF that kn] that unfolding True gen_neg [OF False] by (simp add: extends_def plus_Sucs)
      qed
      then show ?thesis using neg_finish [OF _ kn False r] len k(1) unfolding True by (simp add: uop_tk_def)
    qed
  qed
  then obtain st3 where "primary al n (set_tk (uop_tk u) (sp @ text_of a @ r) st) = Inr st3"
      "extends st (emitted al st (AUn u a)) st3" "c_tk st3 = t" "c_p st3 = r'" "scalar (c_ty st3)" by blast
  then show "\<exists>st1 st2. lex al (text_of (AUn u a) @ r) st = Inr st1 \<and> primary al n st1 = Inr st2 \<and>
           c_tk st1 \<noteq> IntTok \<and> (c_tk st1 = Num \<longleftrightarrow> (\<exists>m. AUn u a = ANum m)) \<and>
           extends st (emitted al st (AUn u a)) st2 \<and> c_tk st2 = t \<and> c_p st2 = r' \<and> ty_ok st (AUn u a) (c_ty st2)"
    using lx by (intro exI [of _ "set_tk (uop_tk u) (sp @ text_of a @ r) st"] exI [of _ st3])
      (cases u; simp add: ty_ok_def uop_tk_def)
qed

lemma text_parses:
  "list_all (known st) (vars x) \<Longrightarrow> length (c_code st) + length (emitted al st x) \<le> 1024 \<Longrightarrow> fu x \<le> n \<Longrightarrow>
   parses al st x n"
proof (induction x arbitrary: st n)
  case (ANum m)
  then show ?case using parses_num [of st al m "n - 1"] by simp
next
  case (AVar x)
  then show ?case using parses_var [of st x al "n - 1"] by simp
next
  case (AUn u a)
  then show ?case using parses_un [of a al st u n] by simp
next
  case (ABin b x y)
  define k where "k = n - 6"
  have n: "n = Suc (Suc (Suc (Suc (Suc (Suc k)))))" "fu x \<le> Suc (Suc (Suc (Suc k)))" "fu y \<le> Suc k"
    using ABin.prems(3) fu_pos [of y] by (simp_all add: k_def)
  show ?case unfolding n(1)
  proof (rule parses_bin [OF ABin.IH(1) _ _ ABin.prems(2)])
    fix st' assume e: "extends st (emitted al st x @ [PSH]) st'"
    have kn: "list_all (known st) (vars y)" using ABin.prems(1) by simp
    show "parses al st' y (Suc k)"
      using ABin.IH(2) [OF extends_env [OF e kn] _ n(3)] extends_gen [OF e kn] e ABin.prems(2)
      by (simp add: extends_def Let_def)
  qed (use ABin.prems(1,2) n in \<open>simp_all add: Let_def\<close>)
next
  case (ALan x y)
  define k where "k = n - 6"
  have n: "n = Suc (Suc (Suc (Suc (Suc (Suc k)))))" "fu x \<le> Suc (Suc (Suc (Suc k)))" "fu y \<le> Suc k"
    using ALan.prems(3) fu_pos [of y] by (simp_all add: k_def)
  show ?case unfolding n(1)
  proof (rule parses_short [OF ALan.IH(1), where i = BZ and t = Lan and optxt = "''&&''" and y = y])
    fix st' z assume e: "extends st (emitted al st x @ [BZ, z]) st'"
    have kn: "list_all (known st) (vars y)" using ALan.prems(1) by simp
    show "parses al st' y (Suc k)"
      using ALan.IH(2) [OF extends_env [OF e kn] _ n(3)] extends_gen [OF e kn] e ALan.prems(2)
      by (simp add: extends_def Let_def)
  qed (use ALan.prems(1,2) n in \<open>simp_all add: Let_def\<close>)
next
  case (ALor x y)
  define k where "k = n - 6"
  have n: "n = Suc (Suc (Suc (Suc (Suc (Suc k)))))" "fu x \<le> Suc (Suc (Suc (Suc k)))" "fu y \<le> Suc k"
    using ALor.prems(3) fu_pos [of y] by (simp_all add: k_def)
  show ?case unfolding n(1)
  proof (rule parses_short [OF ALor.IH(1), where i = BNZ and t = Lor and optxt = "''||''" and y = y])
    fix st' z assume e: "extends st (emitted al st x @ [BNZ, z]) st'"
    have kn: "list_all (known st) (vars y)" using ALor.prems(1) by simp
    show "parses al st' y (Suc k)"
      using ALor.IH(2) [OF extends_env [OF e kn] _ n(3)] extends_gen [OF e kn] e ALor.prems(2)
      by (simp add: extends_def Let_def)
  qed (use ALor.prems(1,2) n in \<open>simp_all add: Let_def\<close>)
next
  case (ACond x y z)
  define k where "k = n - 6"
  have n: "n = Suc (Suc (Suc (Suc (Suc (Suc k)))))" "fu x \<le> Suc (Suc (Suc (Suc k)))" "fu y \<le> Suc k" "fu z \<le> Suc k"
    using ACond.prems(3) fu_pos [of y] by (simp_all add: k_def)
  have kn: "list_all (known st) (vars y)" "list_all (known st) (vars z)" using ACond.prems(1) by simp_all
  show ?case unfolding n(1)
  proof (rule parses_cond [OF ACond.IH(1) _ _ kn ACond.prems(2)])
    show "parses al st' y (Suc k)" if e: "extends st (emitted al st x @ [BZ, j]) st'" for st' j
      using ACond.IH(2) [OF extends_env [OF e kn(1)] _ n(3)] extends_gen [OF e kn(1)] e ACond.prems(2)
      by (simp add: extends_def Let_def)
    show "parses al st' z (Suc k)" if e: "extends st c st'" and l: "length c = length (emitted al st x) + 2 +
        length (gen (insn_base al) (env_of st) y (length (c_code st) + length (emitted al st x) + 2)) + 2" for st' c
      using ACond.IH(3) [OF extends_env [OF e kn(2)] _ n(4)] extends_gen [OF e kn(2)] e l ACond.prems(2)
      by (simp add: extends_def Let_def add.assoc)
  qed (use ACond.prems(1,2) n in \<open>simp_all add: Let_def\<close>)
next
  case (AAsg v y)
  define k where "k = n - 6"
  have n: "n = Suc (Suc (Suc (Suc (Suc (Suc k)))))" "fu y \<le> Suc k"
    using AAsg.prems(3) fu_pos [of y] by (simp_all add: k_def)
  have kn: "known st v" "list_all (known st) (vars y)" using AAsg.prems(1) by simp_all
  show ?case unfolding n(1)
  proof (rule parses_asg [OF kn(1) AAsg.prems(2) kn(2)])
    show "parses al st' y (Suc k)" if e: "extends st [IMM, fst (env_of st v), PSH] st'" for st'
      using AAsg.IH [OF extends_env [OF e kn(2)] _ n(2)] extends_gen [OF e kn(2)] e AAsg.prems(2)
      by (simp add: extends_def plus_Sucs)
  qed
qed

section \<open>Bounds by the length of the text\<close>

lemma digits_pos: "1 \<le> length (digits n)"
  using digits_Cons [of n] by auto

lemma text_bounds:
  assumes "list_all (\<lambda>v. v \<noteq> []) (vars x)"
  shows "length (gen I E x k) \<le> 4 * length (text_of x)" "depth x \<le> length (text_of x)" "fu x \<le> 6 * length (text_of x)"
proof -
  have "length (gen I E x k) \<le> 4 * length (text_of x) \<and> depth x \<le> length (text_of x) \<and> fu x \<le> 6 * length (text_of x)"
    using assms
  proof (induction x arbitrary: k)
    case (ANum n)
    then show ?case using digits_pos [of n] by simp
  next
    case (AVar v)
    then show ?case by (cases v) simp_all
  next
    case (AUn u a)
    have g: "length (gen I E (AUn u a) k) \<le> length (gen I E a k) + 4 \<or> length (gen I E (AUn u a) k) \<le> length (gen I E a (k + 3)) + 4"
    proof (cases u)
      case UNeg
      then show ?thesis using gen_neg [of a I E k] by (cases "\<exists>n. a = ANum n") auto
    qed simp_all
    then show ?case using AUn.IH [of k] AUn.IH [of "k + 3"] AUn.prems by (cases u) (auto simp: sp_def)
  next
    case (ABin b x y)
    have "1 \<le> length (bop_text b)" by (cases b) simp_all
    then show ?case using ABin.IH(1) [of k] ABin.IH(2) [of "k + length (gen I E x k) + 1"] ABin.prems
      by (simp add: Let_def sp_def)
  next
    case (ALan x y)
    show ?case using ALan.IH(1) [of k] ALan.IH(2) [of "k + length (gen I E x k) + 2"] ALan.prems by (simp add: Let_def sp_def)
  next
    case (ALor x y)
    show ?case using ALor.IH(1) [of k] ALor.IH(2) [of "k + length (gen I E x k) + 2"] ALor.prems by (simp add: Let_def sp_def)
  next
    case (ACond x y z)
    let ?k1 = "k + length (gen I E x k) + 2"
    let ?k2 = "?k1 + length (gen I E y ?k1) + 2"
    show ?case using ACond.IH(1) [of k] ACond.IH(2) [of ?k1] ACond.IH(3) [of ?k2] ACond.prems by (simp add: Let_def sp_def)
  next
    case (AAsg v y)
    show ?case using AAsg.IH [of "k + 3"] AAsg.prems by (cases v) (auto simp: sp_def plus_Sucs)
  qed
  then show "length (gen I E x k) \<le> 4 * length (text_of x)" "depth x \<le> length (text_of x)" "fu x \<le> 6 * length (text_of x)"
    by blast+
qed

section \<open>Compiling and running\<close>

lemma each_code:
  assumes "\<And>x st st'. f x st = Inr st' \<Longrightarrow> c_code st' = c_code st"
  shows "each f xs st = Inr st' \<Longrightarrow> c_code st' = c_code st"
  using assms by (induction xs arbitrary: st) (auto simp: bnd_def split: sum.splits)

lemma upd_sym_code [simp]: "c_code (upd_sym i f st) = c_code st"
  by (simp add: upd_sym_def)

lemma declared_code: "declared al ds = Inr st \<Longrightarrow> c_code st = [0]"
proof -
  assume d: "declared al ds = Inr st"
  obtain st1 st2 where s: "each (add_key al) key_table start_st = Inr st1" "each (add_lib al) lib_table st1 = Inr st2"
    "each (declare_var al) ds st2 = Inr st"
    using d unfolding declared_def by (auto simp: bnd_def split: sum.splits)
  have k: "c_code st' = c_code st" if "add_key al k st = Inr st'" for k st st'
  proof (cases "lex al (fst k) st")
    case (Inr s)
    then show ?thesis using that lex_Inr_code(1) [OF Inr] by (auto simp: add_key_def split: prod.splits)
  qed (use that in \<open>simp add: add_key_def split: prod.splits\<close>)
  have l: "c_code st' = c_code st" if "add_lib al k st = Inr st'" for k st st'
  proof (cases "lex al (fst k) st")
    case (Inr s)
    then show ?thesis using that lex_Inr_code(1) [OF Inr] by (auto simp: add_lib_def split: prod.splits)
  qed (use that in \<open>simp add: add_lib_def split: prod.splits\<close>)
  have v: "c_code st' = c_code st" if "declare_var al k st = Inr st'" for k st st'
  proof (cases "lex al (d_name k) st")
    case (Inr s)
    then show ?thesis using that lex_Inr_code(1) [OF Inr] by (auto simp: declare_var_def split: option.splits)
  qed (use that in \<open>simp add: declare_var_def\<close>)
  have "c_code st = c_code start_st"
    using each_code [OF k s(1)] each_code [OF l s(2)] each_code [OF v s(3)] by simp
  then show ?thesis by (simp add: start_st_def)
qed

lemma compile_text:
  assumes d: "declared al ds = Inr st0" and kn: "list_all (known st0) (vars x)" and len: "length (text_of x) \<le> 255"
  shows "\<exists>prog. expr_compile al (text_of x) ds = Inr prog \<and> p_insn prog = [0] @ gen (insn_base al) (env_of st0) x 1 @ [EXIT]"
proof -
  define st where "st = st0\<lparr>c_p := text_of x\<rparr>"
  have ne: "list_all (\<lambda>v. v \<noteq> []) (vars x)" using kn by (auto simp: list_all_iff known_def ident_def)
  have c: "c_code st = [0]" using declared_code [OF d] by (simp add: st_def)
  have e: "env_of st = env_of st0" "known st = known st0"
    by (simp_all add: st_def fun_eq_iff env_of_def known_def sym_of_def)
  have cap: "length (gen (insn_base al) (env_of st0) x 1) \<le> 1020" 
    using text_bounds(1) [OF ne, of "insn_base al" "env_of st0" 1] len by linarith
  define n where "n = fuel_for (text_of x) - 2"
  have n: "fuel_for (text_of x) = Suc (Suc n)" "fu x \<le> n" "0 < n"
    using text_bounds(3) [OF ne] by (simp_all add: n_def fuel_for_def)
  have p: "parses al st x n"
    by (rule text_parses) (use kn e c cap n(2) in simp_all)
  obtain st1 st2 where s: "lex al (text_of x @ []) st = Inr st1" "expr al (Suc n) 136 st1 = Inr st2"
    "c_tk st1 \<noteq> IntTok" "c_tk st1 = Num \<longleftrightarrow> (\<exists>m. x = ANum m)"
    "extends st (emitted al st x) st2" "c_tk st2 = 0" "c_p st2 = []" "ty_ok st x (c_ty st2)"
    by (rule parses_expr [OF p punct_Nil _ _ _ n(3), of 136]) (auto simp: follows_def)
  have c2: "c_code st2 = [0] @ gen (insn_base al) (env_of st0) x 1" using s(5) c e by (simp add: extends_def)
  have "exprs al (fuel_for (text_of x)) st = Inr (st2\<lparr>c_code := c_code st2 @ [EXIT]\<rparr>)"
    using s(1,2,6) cap c2 unfolding n(1) by (simp add: next_tok_def st_def emits_def)
  then show ?thesis using d c2 by (simp add: expr_compile_def st_def)
qed

lemma known_sized: "list_all (known st) (vars x) \<Longrightarrow> sized (env_of st) x"
  by (auto simp: sized_def list_all_iff known_def env_of_def int_size_def scalar_def)

lemma run_text:
  assumes i: "p_insn prog = [0] @ gen (insn_base al) E x 1 @ [EXIT]" and w: "w_insn_base w = insn_base al"
    and s: "sized E x" "depth x \<le> 512" "length (p_insn prog) < code_max"
  shows "\<exists>r v. expr_run w prog m = Some (r, v) \<and>
    (case eval E x m of Inl f \<Rightarrow> r = Fault f | Inr (y, m') \<Rightarrow> r = Returned y \<and> v_mem v = m')"
proof -
  let ?c = "gen (w_insn_base w) E x 1"
  have at: "at (p_insn prog) 1 ?c" "at (p_insn prog) (1 + length ?c) [EXIT]"
  proof -
    have "at (p_insn prog) 1 (?c @ [EXIT])" unfolding at_def i w by (rule exI [of _ "[0]"]) simp
    then show "at (p_insn prog) 1 ?c" "at (p_insn prog) (1 + length ?c) [EXIT]" by (simp_all add: at_append)
  qed
  have rd: "ready 1 (depth x) (init_vm m)" using s(2) by (simp add: ready_def init_vm_def)
  have r: "runs w (p_insn prog) (init_vm m) (1 + length ?c) (eval E x m)"
    using part_okD [OF gen_runs [OF at(1) s(1,3)] rd] by (simp add: init_vm_def)
  show ?thesis
  proof (cases "eval E x m")
    case (Inl f)
    then have "stops w (p_insn prog) (init_vm m) (Fault f)" using r by (simp add: runs_def)
    then show ?thesis using Inl stops_run unfolding expr_run_def by fastforce
  next
    case (Inr ym)
    obtain y m' where ym: "ym = (y, m')" by (cases ym)
    obtain stk where stk: "reaches w (p_insn prog) (init_vm m)
        ((init_vm m)\<lparr>v_pc := 1 + length ?c, v_a := y, v_mem := m', v_stack := stk\<rparr>)"
      using r Inr ym by (auto simp: runs_def)
    let ?v = "(init_vm m)\<lparr>v_pc := 1 + length ?c, v_a := y, v_mem := m', v_stack := stk\<rparr>"
    have "run w (p_insn prog) ?v = Some (Returned y, ?v)"
      using step_EXIT [of "p_insn prog" ?v w] at(2) by (subst run.simps) simp
    then have "expr_run w prog m = Some (Returned y, ?v)" using reaches_run [OF stk] by (simp add: expr_run_def)
    then show ?thesis using Inr ym by simp
  qed
qed

end
