(* ===== verification/Expr_Decl.thy ===== *)
theory Expr_Decl
  imports Expr_Parse
begin

text \<open>
  The symbol table: keywords, library functions and declared variables are entered once
  each and found again by their names, also after the table has grown. With it the
  correctness of compiling and running is stated for the declarations of a program.
\<close>

section \<open>Names and hashes\<close>

lemma hash_mod: "length x < 64 \<Longrightarrow> unat (ident_hash x) mod 64 = length x"
proof -
  assume l: "length x < 64"
  have "unat (push_bit 6 a + of_nat (length x) :: u64) mod 64 = length x" for a
  proof -
    have "unat (push_bit 6 a + of_nat (length x) :: u64) mod 64 =
        ((unat a * 64) mod 2 ^ 64 + length x) mod 2 ^ 64 mod 64"
      using l by (simp add: push_bit_eq_mult unat_word_ariths unsigned_of_nat take_bit_nat_eq_self)
    also have "\<dots> = ((unat a * 64) mod 2 ^ 64 + length x) mod 64" by (rule mod_mod_cancel) simp
    also have "\<dots> = ((unat a * 64) mod 2 ^ 64 mod 64 + length x) mod 64" by (simp add: mod_add_left_eq)
    also have "(unat a * 64) mod 2 ^ 64 mod 64 = (unat a * 64) mod 64" by (rule mod_mod_cancel) simp
    finally show ?thesis using l by simp
  qed
  then show ?thesis unfolding ident_hash_def HASH_def .
qed

text \<open>Of two short names with one hash, one is not a proper prefix of the other.\<close>

lemma hash_prefix:
  assumes "ident_hash x = ident_hash y" "length x < 64" "length y < 64" "take (length x) y = x" shows "x = y"
proof -
  have "length x = length y" using hash_mod [OF assms(2)] hash_mod [OF assms(3)] unfolding assms(1) by (rule trans [OF sym])
  then show ?thesis using assms(4) by (metis order_refl take_all)
qed

section \<open>The table\<close>

definition entry_ok :: "sym \<Rightarrow> bool" where
  "entry_ok s \<longleftrightarrow> s_token s \<noteq> 0 \<and> s_hash s = ident_hash (s_name s) \<and> length (s_name s) < 64"

text \<open>
  The used entries \<open>us\<close>, and behind them entries whose token is zero, from \<open>calloc\<close> or as \<open>realloc\<close>
  left them.
\<close>

definition table :: "cst \<Rightarrow> sym list \<Rightarrow> bool" where
  "table st us \<longleftrightarrow>
     (\<exists>rest. c_symtab st = us @ rest \<and> list_all (\<lambda>s. s_token s = 0) rest) \<and> 16 \<le> length (c_symtab st) \<and>
     c_n_syms st = length us \<and> list_all entry_ok us \<and> c_code st = [0]"

text \<open>There is room for another entry: in the first table, or because the entries that \<open>realloc\<close> adds read as unused.\<close>

definition room :: "alloc \<Rightarrow> nat \<Rightarrow> bool" where
  "room al n \<longleftrightarrow> n \<le> 16 \<or> (\<forall>i. s_token (fresh_sym al i) = 0)"

lemma find_present:
  assumes "list_all entry_ok us" "i < length us" "s_name (us ! i) = x" "\<And>j. j < i \<Longrightarrow> s_name (us ! j) \<noteq> x"
  shows "find_sym x (ident_hash x) (us @ rest) k = (k + i, True)"
  using assms
proof (induction us arbitrary: i k)
  case (Cons u us)
  have u: "s_token u \<noteq> 0" "s_hash u = ident_hash (s_name u)" "length (s_name u) < 64"
    using Cons.prems(1) by (simp_all add: entry_ok_def)
  show ?case
  proof (cases i)
    case 0
    then show ?thesis using Cons.prems(3) u by simp
  next
    case (Suc j)
    have "(us ! j) \<in> set us" using Cons.prems(2) Suc by simp
    then have "length x < 64" using Cons.prems(1,3) Suc by (auto simp: list_all_iff entry_ok_def)
    then have "\<not> (ident_hash x = s_hash u \<and> take (length x) (s_name u) = x)"
      using hash_prefix [of x "s_name u"] u Cons.prems(4) [of 0] Suc by auto
    moreover have "s_name (us ! l) \<noteq> x" if "l < j" for l using Cons.prems(4) [of "Suc l"] that Suc by simp
    then have "find_sym x (ident_hash x) (us @ rest) (Suc k) = (Suc k + j, True)"
      using Cons.IH [of j "Suc k"] Cons.prems(1-3) Suc by simp
    ultimately show ?thesis using u(1) Suc by simp
  qed
qed simp

lemma find_absent:
  assumes "list_all entry_ok us" "length x < 64" "x \<notin> set (map s_name us)" "list_all (\<lambda>s. s_token s = 0) rest"
  shows "find_sym x (ident_hash x) (us @ rest) k = (k + length us, False)"
  using assms
proof (induction us arbitrary: k)
  case Nil
  then show ?case by (cases rest) simp_all
next
  case (Cons u us)
  then have "\<not> (ident_hash x = s_hash u \<and> take (length x) (s_name u) = x)"
    using hash_prefix [of x "s_name u"] by (auto simp: entry_ok_def)
  then show ?case using Cons by (simp add: entry_ok_def)
qed

text \<open>An entry as \<open>next\<close> leaves it for a new name; the other fields are those that were there.\<close>

definition new_sym :: "string \<Rightarrow> sym \<Rightarrow> bool" where
  "new_sym x s \<longleftrightarrow> s_name s = x \<and> s_hash s = ident_hash x \<and> s_token s = IdTok"

lemma lex_ident_name:
  assumes "ident x" shows "lex al x st = Inr (lex_ident al x st)" "takeWhile is_ident x = x" "dropWhile is_ident x = []"
proof -
  obtain c cs where x: "x = c # cs" using assms by (cases x) (auto simp: ident_def)
  show "takeWhile is_ident x = x" "dropWhile is_ident x = []"
    using boundary_takeWhile [of "[]" is_ident x] assms by (simp_all add: ident_def char_defs)
  show "lex al x st = Inr (lex_ident al x st)"
    using assms ident_start_not [of c] unfolding x by (simp add: ident_def lex.simps(2))
qed

lemma lex_new:
  assumes "table st us" "room al (length us + 1)" "ident x" "length x < 64" "x \<notin> set (map s_name us)"
  shows "\<exists>st' s. lex al x st = Inr st' \<and> table st' (us @ [s]) \<and> c_id st' = length us \<and> new_sym x s"
proof -
  obtain rest where t: "c_symtab st = us @ rest" "list_all (\<lambda>s. s_token s = 0) rest" "list_all entry_ok us"
    "16 \<le> length (c_symtab st)" "c_n_syms st = length us" "c_code st = [0]"
    using assms(1) by (auto simp: table_def)
  have f: "find_sym x (ident_hash x) (c_symtab st) 0 = (length us, False)"
    using find_absent [OF t(3) assms(4,5) t(2)] t(1) by simp
  let ?new = "\<lambda>s. s\<lparr>s_name := x, s_hash := ident_hash x, s_token := IdTok\<rparr>"
  obtain r rs where rs: "(if rest = [] then map (fresh_sym al) [length us..<length us + 16] else rest) = r # rs"
      "list_all (\<lambda>s. s_token s = 0) rs"
  proof (cases rest)
    case Nil
    then have "\<forall>i. s_token (fresh_sym al i) = 0" using assms(2) t(1,4) by (auto simp: room_def)
    then have "list_all (\<lambda>s. s_token s = 0) (map (fresh_sym al) [Suc (length us)..<length us + 16])" by (simp add: list_all_iff)
    moreover have "[length us..<length us + 16] = length us # [Suc (length us)..<length us + 16]" by (rule upt_conv_Cons) simp
    ultimately show ?thesis using that Nil by (simp only: if_True simp_thms list.map)
  qed (use that t(2) in auto)
  have "lex al x st = Inr (st\<lparr>c_p := [], c_id := length us, c_tk := IdTok, c_symtab := us @ ?new r # rs, c_n_syms := c_n_syms st + 1\<rparr>)"
    using lex_ident_name [OF assms(3)] f t(1,5) rs
    by (cases rest) (simp_all del: upt_Suc add: lex_ident_def Let_def upd_sym_def list_update_append nth_append)
  moreover have "length us + Suc (length rs) \<ge> 16" using rs t(1,4) by (cases rest) auto
  moreover have "entry_ok (?new r)" using assms(4) by (simp add: entry_ok_def)
  ultimately show ?thesis using rs(2) t(3,5,6)
    by (intro exI [of _ "st\<lparr>c_p := [], c_id := length us, c_tk := IdTok, c_symtab := us @ ?new r # rs, c_n_syms := c_n_syms st + 1\<rparr>"]
        exI [of _ "?new r"]) (auto simp: table_def new_sym_def)
qed

text \<open>Filling in the last entry.\<close>

lemma table_last:
  assumes "table st (us @ [s])" "c_id st = length us" "entry_ok (f s)"
  shows "table (upd_sym (c_id st) f st) (us @ [f s])"
  using assms by (auto simp: table_def upd_sym_def list_update_append nth_append)

definition key_sym :: "string \<times> int \<times> int \<Rightarrow> sym \<Rightarrow> bool" where
  "key_sym k s \<longleftrightarrow> s_name s = fst k"

definition lib_sym :: "string \<times> int \<times> u64 \<Rightarrow> sym \<Rightarrow> bool" where
  "lib_sym k s \<longleftrightarrow> s_name s = fst k"

definition var_sym :: "alloc \<Rightarrow> global_var_declare \<Rightarrow> sym \<Rightarrow> bool" where
  "var_sym al d s \<longleftrightarrow> s_name s = d_name d \<and> s_token s = IdTok \<and> s_class s = Glo \<and>
     s_type s = (if d_size d \<noteq> d_elementsize d then the (decl_type (d_elementsize d)) + ARRAY else the (decl_type (d_elementsize d))) \<and>
     s_value s = data_base al + of_nat (d_offset d)"

definition fresh_name :: "alloc \<Rightarrow> sym list \<Rightarrow> string \<Rightarrow> bool" where
  "fresh_name al us x \<longleftrightarrow> ident x \<and> length x < 64 \<and> x \<notin> set (map s_name us) \<and> room al (length us + 1)"

lemma add_key_table:
  assumes "table st us" "fresh_name al us (fst k)" "fst (snd k) \<noteq> 0"
  shows "\<exists>st' s. add_key al k st = Inr st' \<and> table st' (us @ [s]) \<and> key_sym k s"
proof -
  obtain st1 s where s: "lex al (fst k) st = Inr st1" "table st1 (us @ [s])" "c_id st1 = length us" "new_sym (fst k) s"
    using lex_new [OF assms(1)] assms(2) unfolding fresh_name_def by blast
  let ?f = "\<lambda>s. s\<lparr>s_token := fst (snd k), s_class := 0, s_type := snd (snd k), s_value := 0\<rparr>"
  have "entry_ok (?f s)" using assms(2,3) s(4) by (simp add: entry_ok_def new_sym_def fresh_name_def)
  then have "table (upd_sym (c_id st1) ?f st1) (us @ [?f s])" by (rule table_last [OF s(2,3)])
  moreover have "add_key al k st = Inr (upd_sym (c_id st1) ?f st1)" using s(1) by (cases k) (simp add: add_key_def)
  moreover have "key_sym k (?f s)" using s(4) by (simp add: key_sym_def new_sym_def)
  ultimately show ?thesis by blast
qed

lemma add_lib_table:
  assumes "table st us" "fresh_name al us (fst k)"
  shows "\<exists>st' s. add_lib al k st = Inr st' \<and> table st' (us @ [s]) \<and> lib_sym k s"
proof -
  obtain st1 s where s: "lex al (fst k) st = Inr st1" "table st1 (us @ [s])" "c_id st1 = length us" "new_sym (fst k) s"
    using lex_new [OF assms(1)] assms(2) unfolding fresh_name_def by blast
  let ?f = "\<lambda>s. s\<lparr>s_class := Sys, s_type := fst (snd k), s_value := snd (snd k)\<rparr>"
  have "entry_ok (?f s)" using assms(2) s(4) by (simp add: entry_ok_def new_sym_def fresh_name_def)
  then have "table (upd_sym (c_id st1) ?f st1) (us @ [?f s])" by (rule table_last [OF s(2,3)])
  moreover have "add_lib al k st = Inr (upd_sym (c_id st1) ?f st1)" using s(1) by (cases k) (simp add: add_lib_def)
  moreover have "lib_sym k (?f s)" using s(4) by (simp add: lib_sym_def new_sym_def)
  ultimately show ?thesis by blast
qed

text \<open>The elements of a variable have 1, 2, 4 or 8 bytes; an array has several of them.\<close>

definition decl_ok :: "global_var_declare \<Rightarrow> bool" where
  "decl_ok d \<longleftrightarrow> d_elementsize d \<in> {1, 2, 4, 8}"

lemma decl_ok_type: "decl_ok d \<longleftrightarrow> decl_type (d_elementsize d) \<noteq> None"
  by (auto simp: decl_ok_def decl_type_def split: if_splits)

lemma declare_var_table:
  assumes "table st us" "fresh_name al us (d_name d)" "decl_ok d"
  shows "\<exists>st' s. declare_var al d st = Inr st' \<and> table st' (us @ [s]) \<and> var_sym al d s"
proof -
  obtain st1 s where s: "lex al (d_name d) st = Inr st1" "table st1 (us @ [s])" "c_id st1 = length us" "new_sym (d_name d) s"
    using lex_new [OF assms(1)] assms(2) unfolding fresh_name_def by blast
  obtain t where t: "decl_type (d_elementsize d) = Some t" using assms(3) by (auto simp: decl_ok_type)
  let ?f = "\<lambda>s. s\<lparr>s_class := Glo, s_type := (if d_size d \<noteq> d_elementsize d then t + ARRAY else t),
    s_nr_elm := d_size d div d_elementsize d, s_value := data_base al + of_nat (d_offset d)\<rparr>"
  have "declare_var al d st = Inr (upd_sym (c_id st1) ?f st1)" using s(1) t by (simp add: declare_var_def)
  moreover have "entry_ok (?f s)" using assms(2) s(4) by (simp add: entry_ok_def new_sym_def fresh_name_def)
  then have "table (upd_sym (c_id st1) ?f st1) (us @ [?f s])" by (rule table_last [OF s(2,3)])
  moreover have "var_sym al d (?f s)" using s(4) t by (simp add: var_sym_def new_sym_def)
  ultimately show ?thesis by blast
qed

lemma each_table:
  assumes "table st us" "\<And>st us x. table st us \<Longrightarrow> fresh_name al us (nm x) \<Longrightarrow> ok x \<Longrightarrow> \<exists>st' s. f x st = Inr st' \<and> table st' (us @ [s]) \<and> R x s"
    and nm: "\<And>x s. R x s \<Longrightarrow> s_name s = nm x" and "list_all ok xs" "list_all (\<lambda>x. ident (nm x) \<and> length (nm x) < 64) xs"
    "distinct (map s_name us @ map nm xs)" "room al (length us + length xs)"
  shows "\<exists>st' ss. each f xs st = Inr st' \<and> table st' (us @ ss) \<and> list_all2 R xs ss"
  using assms(1,4-7)
proof (induction xs arbitrary: st us)
  case Nil
  then show ?case by auto
next
  case (Cons x xs)
  have fr: "fresh_name al us (nm x)" "ok x" using Cons.prems by (auto simp: fresh_name_def room_def)
  obtain st1 s where s: "f x st = Inr st1" "table st1 (us @ [s])" "R x s" using assms(2) [OF Cons.prems(1) fr] by blast
  obtain st' ss where "each f xs st1 = Inr st'" "table st' ((us @ [s]) @ ss)" "list_all2 R xs ss"
    using Cons.IH [OF s(2)] Cons.prems nm [OF s(3)] by auto
  then show ?case using s(1,3) by (intro exI [of _ st'] exI [of _ "s # ss"]) simp
qed

lemma names_of:
  assumes "list_all2 R xs ss" "\<And>x s. R x s \<Longrightarrow> s_name s = nm x" shows "map s_name ss = map nm xs"
  using assms(1) by (induction rule: list_all2_induct) (simp_all add: assms(2))

definition reserved :: "string list" where
  "reserved = map fst key_table @ map fst lib_table"

text \<open>
  Declarations under which names are found again: distinct C identifiers of less than 64
  characters that are not reserved. The first table has room for six of them besides the reserved
  names; from the seventh on it grows by \<open>realloc\<close>, which clears nothing, and the added
  entries have to read as unused.
\<close>

definition decls_ok :: "alloc \<Rightarrow> global_var_declare list \<Rightarrow> bool" where
  "decls_ok al ds \<longleftrightarrow> (length ds \<le> 6 \<or> (\<forall>i. s_token (fresh_sym al i) = 0)) \<and> list_all decl_ok ds \<and> distinct (map d_name ds) \<and>
     list_all (\<lambda>d. ident (d_name d) \<and> length (d_name d) < 64 \<and> d_name d \<notin> set reserved) ds"

lemma reserved_ident:
  "list_all (\<lambda>k. ident (fst k) \<and> length (fst k) < 64) key_table"
  "list_all (\<lambda>k. ident (fst k) \<and> length (fst k) < 64) lib_table"
  by (simp_all add: key_table_def lib_table_def ident_def char_defs)

lemma reserved_distinct: "distinct reserved" "list_all (\<lambda>k. fst (snd k) \<noteq> 0) key_table"
  by (simp_all add: reserved_def key_table_def lib_table_def)

lemma names_distinct: "decls_ok al ds \<Longrightarrow> distinct (reserved @ map d_name ds)"
  using reserved_distinct(1) by (auto simp: decls_ok_def list_all_iff)

text \<open>The entries are those of the reserved names and of the declarations, in this order.\<close>

definition table_of :: "alloc \<Rightarrow> global_var_declare list \<Rightarrow> sym list \<Rightarrow> bool" where
  "table_of al ds us \<longleftrightarrow> (\<exists>rs vs. us = rs @ vs \<and> map s_name rs = reserved \<and> list_all2 (var_sym al) ds vs)"

lemma sym_names: "key_sym k s \<Longrightarrow> s_name s = fst k" "lib_sym l s \<Longrightarrow> s_name s = fst l" "var_sym al d s \<Longrightarrow> s_name s = d_name d"
  by (simp_all add: key_sym_def lib_sym_def var_sym_def)

lemma declared_table:
  assumes "decls_ok al ds" shows "\<exists>st us. declared al ds = Inr st \<and> table st us \<and> table_of al ds us"
proof -
  have lens: "length key_table = 5" "length lib_table = 5" by (simp_all add: key_table_def lib_table_def)
  have 0: "table start_st []" by (simp add: table_def start_st_def empty_sym_def list_all_iff)
  obtain st1 ks where 1: "each (add_key al) key_table start_st = Inr st1" "table st1 ([] @ ks)" "list_all2 key_sym key_table ks"
    using each_table [OF 0, of al fst "\<lambda>k. fst (snd k) \<noteq> 0" "add_key al" key_sym key_table] add_key_table sym_names(1)
      reserved_ident(1) reserved_distinct lens by (auto simp: reserved_def room_def)
  have ks: "map s_name ks = map fst key_table" "length ks = 5" using names_of [OF 1(3) sym_names(1)] lens list_all2_lengthD [OF 1(3)] by simp_all
  obtain st2 ls where 2: "each (add_lib al) lib_table st1 = Inr st2" "table st2 (([] @ ks) @ ls)" "list_all2 lib_sym lib_table ls"
    using each_table [OF 1(2), of al fst "\<lambda>k. True" "add_lib al" lib_sym lib_table] add_lib_table sym_names(2)
      reserved_ident(2) reserved_distinct(1) lens ks by (auto simp: reserved_def comp_def list_all_iff room_def)
  have ls: "map s_name ls = map fst lib_table" "length ls = 5" using names_of [OF 2(3) sym_names(2)] lens list_all2_lengthD [OF 2(3)] by simp_all
  have dist: "distinct (map s_name (([] @ ks) @ ls) @ map d_name ds)"
    using names_distinct [OF assms] unfolding map_append ks(1) ls(1) reserved_def by simp
  have rm: "room al (length (([] @ ks) @ ls) + length ds)" using assms ks ls by (auto simp: decls_ok_def room_def)
  obtain st3 vs where 3: "each (declare_var al) ds st2 = Inr st3" "table st3 ((([] @ ks) @ ls) @ vs)" "list_all2 (var_sym al) ds vs"
    using each_table [OF 2(2), of al d_name decl_ok "declare_var al" "var_sym al" ds, OF declare_var_table _ _ _ dist rm] sym_names(3)
      assms by (auto simp: decls_ok_def list_all_iff)
  have "table_of al ds ((([] @ ks) @ ls) @ vs)"
    unfolding table_of_def using ks(1) ls(1) 3(3) by (intro exI [of _ "([] @ ks) @ ls"] exI [of _ vs]) (simp add: reserved_def)
  then show ?thesis using 1(1) 2(1) 3(1,2) by (auto simp: declared_def)
qed

text \<open>Address and size of a declared variable.\<close>

definition decl_env :: "global_var_declare list \<Rightarrow> alloc \<Rightarrow> venv" where
  "decl_env ds al x =
     (case find (\<lambda>d. d_name d = x) ds of
        None \<Rightarrow> (0, 0)
      | Some d \<Rightarrow> (data_base al + of_nat (d_offset d), d_elementsize d))"

lemma find_distinct: "distinct (map d_name ds) \<Longrightarrow> d \<in> set ds \<Longrightarrow> find (\<lambda>e. d_name e = d_name d) ds = Some d"
  by (induction ds) (auto simp: image_iff)

lemma decl_type_size: "decl_type n = Some t \<Longrightarrow> scalar t \<and> 2 ^ nat t = n"
  by (auto simp: decl_type_def scalar_def split: if_splits)

lemma declared_known:
  assumes ok: "decls_ok al ds" and t: "table st us" "table_of al ds us" and d: "d \<in> set ds" "d_size d = d_elementsize d"
  shows "known st (d_name d)" "env_of st (d_name d) = decl_env ds al (d_name d)"
proof -
  let ?x = "d_name d"
  obtain rs vs where v: "us = rs @ vs" "map s_name rs = reserved" "list_all2 (var_sym al) ds vs"
    using t(2) by (auto simp: table_of_def)
  have us: "map s_name us = reserved @ map d_name ds" using v names_of [OF v(3) sym_names(3)] by simp
  have dist: "distinct (map s_name us)" unfolding us by (rule names_distinct [OF ok])
  obtain k where k: "k < length ds" "ds ! k = d" using d(1) by (metis in_set_conv_nth)
  define i where "i = length rs + k"
  have i: "i < length us" "var_sym al d (us ! i)"
    using list_all2_nthD [OF v(3) k(1)] list_all2_lengthD [OF v(3)] k v(1) by (simp_all add: i_def nth_append)
  have first: "s_name (us ! j) \<noteq> ?x" if "j < i" for j
    using dist i that nth_eq_iff_index_eq [OF dist, of j i] sym_names(3) [OF i(2)] by (metis length_map less_trans nat_neq_iff nth_map)
  obtain rest where rest: "c_symtab st = us @ rest" "list_all entry_ok us" using t(1) by (auto simp: table_def)
  have f: "find_sym ?x (ident_hash ?x) (c_symtab st) 0 = (i, True)"
    using find_present [OF rest(2) i(1) sym_names(3) [OF i(2)] first, of rest 0] rest(1) by simp
  have s: "var_sym al d (sym_of st ?x)" unfolding sym_of_def f using rest(1) i by (simp add: nth_append)
  obtain ty where ty: "decl_type (d_elementsize d) = Some ty" using ok d by (auto simp: decls_ok_def decl_ok_type list_all_iff)
  have id: "ident ?x" using ok d by (auto simp: decls_ok_def list_all_iff)
  show "known st ?x" unfolding known_def f using s id ty decl_type_size [OF ty] d(2) by (simp add: var_sym_def)
  show "env_of st ?x = decl_env ds al ?x"
    unfolding env_of_def decl_env_def using s find_distinct [of ds d] ok d ty decl_type_size [OF ty]
    by (simp add: var_sym_def decls_ok_def)
qed

lemma eval_cong: "list_all (\<lambda>y. E' y = E y) (vars x) \<Longrightarrow> eval E' x m = eval E x m"
  by (induction x arbitrary: m) (simp_all split: sum.splits)

section \<open>Properties\<close>

definition scalar_of :: "global_var_declare list \<Rightarrow> string \<Rightarrow> bool" where
  "scalar_of ds v \<longleftrightarrow> (\<exists>d\<in>set ds. d_name d = v \<and> d_size d = d_elementsize d)"

lemma compile_and_run:
  assumes "decls_ok al ds" "list_all (scalar_of ds) (vars x)" "length (text_of x) \<le> 255"
    "w_insn_base w = insn_base al"
  shows "\<exists>prog r v. expr_compile al (text_of x) ds = Inr prog \<and> expr_run w prog m = Some (r, v) \<and>
    (case eval (decl_env ds al) x m of Inl f \<Rightarrow> r = Fault f | Inr (y, m') \<Rightarrow> r = Returned y \<and> v_mem v = m')"
proof -
  obtain st us where st: "declared al ds = Inr st" "table st us" "table_of al ds us" using declared_table [OF assms(1)] by blast
  have kn: "list_all (known st) (vars x)" "list_all (\<lambda>y. env_of st y = decl_env ds al y) (vars x)"
    using assms(2) declared_known [OF assms(1) st(2,3)] by (auto simp: list_all_iff scalar_of_def)
  obtain prog where p: "expr_compile al (text_of x) ds = Inr prog" "p_insn prog = [0] @ gen (insn_base al) (env_of st) x 1 @ [EXIT]"
    using compile_text [OF st(1) kn(1) assms(3)] by blast
  have ne: "list_all (\<lambda>v. v \<noteq> []) (vars x)" using kn(1) by (auto simp: list_all_iff known_def ident_def)
  have "length (p_insn prog) \<le> 1022" unfolding p(2)
    using text_bounds(1) [OF ne, of "insn_base al" "env_of st" 1] assms(3) by simp
  then have b: "length (p_insn prog) < code_max" "depth x \<le> 512"
    using text_bounds(2) [OF ne] assms(3) by (simp_all add: code_max_def)
  show ?thesis using run_text [OF p(2) assms(4) known_sized [OF kn(1)] b(2,1), of m] p(1)
    unfolding eval_cong [OF kn(2)] by blast
qed

text \<open>
  C4. Compiling the text of an expression over declared scalar variables succeeds, and running
  the instructions on any memory computes what the expression means: its value is returned and
  its assignments are in memory, or the run traps where the expression does. Any number of
  variables may be declared, arrays among them, with distinct identifiers that are not reserved;
  if there are more than six, the symbol table grows, and the entries that
  \<open>realloc\<close> adds without clearing them have to read as unused. The text has at most
  255 characters, and the instruction array has not moved between compiling and running.
\<close>

theorem expr_compile_correct:
  assumes "decls_ok al ds" "list_all (scalar_of ds) (vars x)" "length (text_of x) \<le> 255"
    "w_insn_base w = insn_base al"
  shows "\<exists>prog r v. expr_compile al (text_of x) ds = Inr prog \<and> expr_run w prog m = Some (r, v) \<and>
    (case eval (decl_env ds al) x m of Inl f \<Rightarrow> r = Fault f | Inr (y, m') \<Rightarrow> r = Returned y \<and> v_mem v = m')"
  by (rule compile_and_run [OF assms])

definition ex_al :: alloc where
  "ex_al = \<lparr>insn_base = 0x1000, str_base = 0x5000, data_base = 0x9000, fresh_sym = (\<lambda>i. empty_sym)\<rparr>"

definition ex_world :: world where
  "ex_world = \<lparr>w_insn_base = 0x1000, w_stack_base = 0x100000, w_printf = (\<lambda>m ts. 0), w_ksymbol = (\<lambda>a. a)\<rparr>"

definition ex_decls :: "global_var_declare list" where
  "ex_decls = [\<lparr>d_name = ''pid'', d_offset = 0, d_size = 1, d_elementsize = 1\<rparr>]"

lemma ex_decls_ok: "decls_ok al ex_decls"
  by (simp add: decls_ok_def ex_decls_def decl_ok_def ident_def char_defs reserved_def key_table_def lib_table_def)

theorem expr_compile_correct_witness:
  "\<exists>prog v. expr_compile ex_al (text_of (ABin BMul (AAsg ''pid'' (ANum 6)) (ANum 7))) ex_decls = Inr prog \<and>
     expr_run ex_world prog (area 0x9000 [0]) = Some (Returned 42, v)"
proof -
  let ?x = "ABin BMul (AAsg ''pid'' (ANum 6)) (ANum 7)"
  have "\<exists>m. eval (decl_env ex_decls ex_al) ?x (area 0x9000 [0]) = Inr (42, m)"
    by (simp add: decl_env_def ex_decls_def ex_al_def store_int_def area_def alu_def)
  moreover have "length (text_of ?x) \<le> 255" by (simp add: digits.simps sp_def)
  moreover have "\<exists>prog r v. expr_compile ex_al (text_of ?x) ex_decls = Inr prog \<and>
      expr_run ex_world prog (area 0x9000 [0]) = Some (r, v) \<and>
      (case eval (decl_env ex_decls ex_al) ?x (area 0x9000 [0]) of Inl f \<Rightarrow> r = Fault f
       | Inr (y, m') \<Rightarrow> r = Returned y \<and> v_mem v = m')"
    by (rule expr_compile_correct [OF ex_decls_ok])
      (simp_all add: scalar_of_def ex_decls_def digits.simps sp_def ex_world_def ex_al_def)
  ultimately show ?thesis by auto
qed

end
