(* ===== verification/Expr_Load.thy ===== *)
theory Expr_Load
  imports Expr_Decl
begin

text \<open>
  Loading a sample into the data area, \<open>expr_load_data\<close>, and what the compiled expression
  reads from it.
\<close>

lemma area_byte: "k < length bs \<Longrightarrow> length bs < 2 ^ 64 \<Longrightarrow> area base bs (base + of_nat k) = Some (bs ! k)"
  by (simp add: area_def uint_nat unat_of_nat)

lemma area_bytes:
  "k + n \<le> length bs \<Longrightarrow> length bs < 2 ^ 64 \<Longrightarrow>
   load_bytes (area base bs) (base + of_nat k) n = Some (take n (drop k bs))"
proof (induction n arbitrary: k)
  case (Suc n)
  have "load_bytes (area base bs) (base + of_nat (k + 1)) n = Some (take n (drop (k + 1) bs))"
    using Suc.prems by (intro Suc.IH) simp_all
  moreover have "take (Suc n) (drop k bs) = bs ! k # take n (drop (k + 1) bs)"
    using Suc.prems by (simp add: Cons_nth_drop_Suc [symmetric])
  moreover have "area base bs (base + of_nat k) = Some (bs ! k)" using Suc.prems by (intro area_byte) simp_all
  moreover have "base + of_nat k + 1 = base + of_nat (k + 1)" by simp
  ultimately show ?case by (simp only: load_bytes.simps option.case option.map)
qed simp

lemma loaded_bytes:
  assumes "expr_load_data prog d = Loaded bs" "k + n \<le> length d"
  shows "take n (drop k bs) = take n (drop k d)" "length bs = length (p_data prog)"
  using assms by (auto simp: expr_load_data_def split: if_splits)

lemma compiled_data:
  "expr_compile al t ds = Inr prog \<Longrightarrow> p_data prog = (if max_offset ds = 0 then [] else replicate (data_size ds) 0)"
  by (auto simp: expr_compile_def bnd_def split: sum.splits)

text \<open>
  C31. The guard of \<open>expr_load_data\<close> is off by one. A record as long as the data area of a
  compiled program (for a program over variables that reach no further than byte 256: 256
  bytes) passes the test \<open>size > datasize\<close>, and the zero byte is written behind the area. One
  byte less is loaded whole, one byte more is refused.
\<close>

theorem expr_load_data_off_by_one:
  assumes "expr_compile al t ds = Inr prog" "0 < max_offset ds"
  shows "\<exists>n. length (p_data prog) = n \<and> 256 \<le> n \<and> expr_load_data prog (replicate n x) = Out_of_bounds \<and>
    expr_load_data prog (replicate (n + 1) x) = Refused \<and>
    expr_load_data prog (replicate (n - 1) x) = Loaded (replicate (n - 1) x @ [0])"
proof -
  have "length (p_data prog) = data_size ds" using compiled_data [OF assms(1)] assms(2) by simp
  moreover have "256 \<le> data_size ds"
    using div_le_mono [of 256 "max_offset ds + 255" 256] by (auto simp: data_size_def Let_def)
  ultimately show ?thesis by (auto simp: expr_load_data_def)
qed

theorem expr_load_data_off_by_one_witness:
  "\<exists>prog. expr_compile ex_al ''pid'' ex_decls = Inr prog \<and> expr_load_data prog (replicate 256 0) = Out_of_bounds"
proof -
  obtain prog where p: "expr_compile ex_al ''pid'' ex_decls = Inr prog"
    using compile_and_run [OF ex_decls_ok, of "AVar ''pid''" ex_world ex_al "area 0 []"]
    by (auto simp: scalar_of_def ex_decls_def ex_world_def ex_al_def)
  have n: "length (p_data prog) = 256" "0 < max_offset ex_decls"
    using compiled_data [OF p] by (simp_all add: max_offset_def data_size_def ex_decls_def)
  then show ?thesis using expr_load_data_off_by_one [OF p n(2), of 0] p by auto
qed

section \<open>A literal taken for a load\<close>

lemma eight_compiles:
  "c_code st = [0] \<Longrightarrow>
   \<exists>s. exprs al (Suc (Suc (Suc (Suc (Suc (Suc (Suc (Suc (Suc (Suc (Suc (Suc n)))))))))))) (st\<lparr>c_p := ''1+8=5''\<rparr>) = Inr s \<and>
     c_code s = [0, 1, 1, 11, 1, 11, 1, 5, 9, 4, 33]"
  by (simp add: lex_unfold expr.simps primary.simps(2) binary.simps(2) next_tok_def emits_def lex_number_def
      lex_op_def digit_val_def prev_is_LI_def set_tk_def set_ty_def ld_size_def)

lemma no_store: "0 < n \<Longrightarrow> store_bytes (\<lambda>a. None) a (le_bytes n v) = None"
  by (cases n) simp_all

lemma eight_runs:
  "\<exists>v. run w [0, 1, 1, 11, 1, 11, 1, 5, 9, 4, 33] (init_vm (\<lambda>a. None)) = Some (Fault Bad_address, v)"
  by (rule exI, (subst run.simps,
        simp add: init_vm_def step_def exec_def push_def int_sizes_def store_int_def no_store Let_def)+)

text \<open>
  The test for an lvalue, \<open>*(e-1) == LI\<close>, looks at the word before the last one whatever
  it is. A literal equal to the opcode of \<open>LI\<close> passes: \<open>1+8=5\<close> is compiled without an error,
  and its program overwrites the operand 8, pushes 1 and stores 5 at the address 1, which
  faults when nothing is mapped there.
\<close>

theorem expr_literal_lvalue:
  "\<exists>prog. expr_compile al ''1+8=5'' [] = Inr prog \<and>
     (\<exists>v. expr_run w prog (\<lambda>a. None) = Some (Fault Bad_address, v))"
proof -
  have ok: "decls_ok al []" by (simp add: decls_ok_def)
  obtain st where st: "declared al [] = Inr st" using declared_table [OF ok] by blast
  have f: "fuel_for ''1+8=5'' = Suc (Suc (Suc (Suc (Suc (Suc (Suc (Suc (Suc (Suc (Suc (Suc 72)))))))))))"
    by (simp add: fuel_for_def)
  obtain s where "exprs al (fuel_for ''1+8=5'') (st\<lparr>c_p := ''1+8=5''\<rparr>) = Inr s"
      "c_code s = [0, 1, 1, 11, 1, 11, 1, 5, 9, 4, 33]"
    unfolding f using eight_compiles [OF declared_code [OF st], of al 72] by blast
  then show ?thesis using st eight_runs [of w] by (simp add: expr_compile_def expr_run_def)
qed

end
