(* ===== verification/Expr_Ends.thy ===== *)
theory Expr_Ends
  imports Expr_Decl
begin

text \<open>
  The compiler ends on every text: its recursion is bounded by the tokens that are left.
\<close>

section \<open>What is left to read\<close>

definition left :: "cst \<Rightarrow> nat" where
  "left st = 2 * length (c_p st) + (if c_tk st = 0 then 0 else 1)"

text \<open>A result that is not for lack of fuel and leaves at most \<open>b\<close> to read.\<close>

definition safe :: "nat \<Rightarrow> cst res \<Rightarrow> bool" where
  "safe b r \<longleftrightarrow> (case r of Inl e \<Rightarrow> e \<noteq> No_fuel | Inr st \<Rightarrow> left st \<le> b)"

definition safe2 :: "nat \<Rightarrow> ('a \<times> cst) res \<Rightarrow> bool" where
  "safe2 b r \<longleftrightarrow> (case r of Inl e \<Rightarrow> e \<noteq> No_fuel | Inr x \<Rightarrow> left (snd x) \<le> b)"

lemma safe_simps [simp]: "safe b (Inr st) \<longleftrightarrow> left st \<le> b" "safe b (Inl e) \<longleftrightarrow> e \<noteq> No_fuel"
    "safe2 b (Inr x) \<longleftrightarrow> left (snd x) \<le> b" "safe2 b (Inl e) \<longleftrightarrow> e \<noteq> No_fuel"
  by (simp_all add: safe_def safe2_def)

lemma safe_bnd: "safe b m \<Longrightarrow> (\<And>st. left st \<le> b \<Longrightarrow> safe c (f st)) \<Longrightarrow> safe c (bnd m f)"
  by (cases m) simp_all

lemma safe_bnd2: "safe2 b m \<Longrightarrow> (\<And>t st. left st \<le> b \<Longrightarrow> safe c (f (t, st))) \<Longrightarrow> safe c (bnd m f)"
  by (cases m) auto

lemma safe2_bnd: "safe b m \<Longrightarrow> (\<And>st. left st \<le> b \<Longrightarrow> safe2 c (f st)) \<Longrightarrow> safe2 c (bnd m f)"
  by (cases m) simp_all

lemma safe_mono: "safe b m \<Longrightarrow> b \<le> c \<Longrightarrow> safe c m"
  by (cases m) auto

lemma left_simps [simp]: "left (set_ty t st) = left st" "left (st\<lparr>c_code := c\<rparr>) = left st" "left (upd_sym i f st) = left st"
    "left (patch al d k st) = left st" "left (st\<lparr>c_ty := t\<rparr>) = left st"
  by (simp_all add: left_def set_ty_def upd_sym_def patch_def)

lemma dropWhile_le: "length (dropWhile f xs) \<le> length xs"
  by (rule length_dropWhile_le)

lemma quoted_le: "quoted q cs = Some (xs, r) \<Longrightarrow> length r < length cs"
  by (induction q cs arbitrary: xs r rule: quoted.induct) (fastforce split: if_splits list.splits)+

lemma left_lex_op: "left (lex_op cs two t st) \<le> 2 * length cs + 1"
  by (cases cs) (auto simp: lex_op_def left_def set_tk_def split: option.split)

lemma left_set_tk: "left (set_tk t cs st) \<le> 2 * length cs + 1"
  by (simp add: left_def set_tk_def)

lemma safe_if: "(c \<Longrightarrow> safe b x) \<Longrightarrow> safe b y \<Longrightarrow> safe b (if c then x else y)"
  by simp

lemma lex_safe: "safe (2 * length cs - (if cs = [] then 0 else 1)) (lex al cs st)"
proof (induction cs rule: length_induct)
  case (1 cs)
  show ?case
  proof (cases cs)
    case Nil
    then show ?thesis by (simp add: left_def set_tk_def)
  next
    case (Cons c ds)
    let ?b = "2 * length ds + 1"
    have m: "safe ?b (lex al xs st)" if "length xs \<le> length ds" for xs
    proof -
      have "safe (2 * length xs - (if xs = [] then 0 else 1)) (lex al xs st)" using 1 that Cons by simp
      then show ?thesis by (rule safe_mono) (use that in simp)
    qed
    have i: "safe ?b (Inr (lex_ident al (c # ds) st))" if "is_ident_start c"
    proof -
      have "c_p (lex_ident al (c # ds) st) = dropWhile is_ident (c # ds)"
        by (simp add: lex_ident_def Let_def upd_sym_def split: prod.split bool.split)
      then show ?thesis using that dropWhile_le [of is_ident ds] by (simp add: left_def is_ident_def)
    qed
    have n: "safe ?b (Inr (lex_number c ds st))"
      using dropWhile_le [of is_digit ds] dropWhile_le [of is_octal ds] dropWhile_le [of is_hex "tl ds"]
      by (auto simp: lex_number_def left_def)
    have q: "safe ?b (lex_quote al c ds st)"
      using quoted_le [of c ds] by (auto simp: lex_quote_def left_def split: option.split)
    have s: "length (skip_line ds) \<le> length ds" "length (skip_line (tl ds)) \<le> length ds"
      using length_skip_line [of "tl ds"] by simp_all
    have o: "safe ?b (Inr (lex_op ds two t st))" "safe ?b (Inr (set_tk t ds st))" for two t
      using left_lex_op [of ds two t st] left_set_tk [of t ds st] by simp_all
    have "safe ?b (lex al (c # ds) st)"
      unfolding lex.simps(2) by (intro safe_if m i n q o s order_refl)
    then show ?thesis using Cons by simp
  qed
qed

lemma next_safe: "safe (left st) (next_tok al st)" "c_tk st \<noteq> 0 \<Longrightarrow> safe (left st - 1) (next_tok al st)"
  using lex_safe [of "c_p st" al st] unfolding next_tok_def left_def by (auto elim: safe_mono)

lemma emits_safe: "safe (left st) (emits ws st)"
  by (simp add: emits_def)

lemma expect_safe: "t \<noteq> 0 \<Longrightarrow> safe (left st - 1) (expect al t msg st)"
  using next_safe(2) by (simp add: expect_def)

lemma left_pos: "c_tk st \<noteq> 0 \<Longrightarrow> 1 \<le> left st"
  by (simp add: left_def)

lemma stars_safe: "left st < n \<Longrightarrow> safe2 (left st) (skip_stars al n t st)"
proof (induction n arbitrary: t st)
  case (Suc n)
  show ?case
  proof (cases "c_tk st = 153")
    case True
    have "safe2 (left st) (bnd (next_tok al st) (skip_stars al n (t + 8)))"
    proof (rule safe2_bnd [OF next_safe(2)])
      show "c_tk st \<noteq> 0" using True by simp
      fix s assume s: "left s \<le> left st - 1"
      have "left s < n" using s Suc.prems left_pos [of st] True by linarith
      from Suc.IH [OF this, of "t + 8"] show "safe2 (left st) (skip_stars al n (t + 8) s)"
        using s by (cases "skip_stars al n (t + 8) s") auto
    qed
    then show ?thesis using True by simp
  qed simp
qed simp

lemma strings_safe: "left st < n \<Longrightarrow> safe (left st) (skip_strings al n st)"
proof (induction n arbitrary: st)
  case (Suc n)
  show ?case
  proof (cases "c_tk st = 34")
    case True
    have "safe (left st) (bnd (next_tok al st) (skip_strings al n))"
    proof (rule safe_bnd [OF next_safe(2)])
      show "c_tk st \<noteq> 0" using True by simp
      fix s assume s: "left s \<le> left st - 1"
      have "left s < n" using s Suc.prems left_pos [of st] True by linarith
      from Suc.IH [OF this] show "safe (left st) (skip_strings al n s)" by (rule safe_mono) (use s in linarith)
    qed
    then show ?thesis using True by simp
  qed simp
qed simp

lemma load_name_safe: "safe (left st) (load_name s st)"
  by (simp add: load_name_def Let_def emits_def bnd_def)

lemma call_name_safe: "safe (left st) (call_name s t st)"
  by (simp add: call_name_def Let_def emits_def bnd_def)

lemma keep_safe: "safe (left st) (keep_address st)"
  by (simp add: keep_address_def Let_def)

section \<open>Enough fuel\<close>

text \<open>What holds of the five functions with fuel \<open>n\<close>.\<close>

definition enough :: "alloc \<Rightarrow> nat \<Rightarrow> bool" where
  "enough al n \<longleftrightarrow>
     (\<forall>st lev. 4 * left st + 4 \<le> n \<longrightarrow> 0 < lev \<longrightarrow> safe (left st - 1) (expr al n lev st)) \<and>
     (\<forall>st. 4 * left st + 3 \<le> n \<longrightarrow> safe (left st - 1) (primary al n st)) \<and>
     (\<forall>st t. 4 * left st + 5 \<le> n \<longrightarrow> safe2 (left st) (args al n t st)) \<and>
     (\<forall>st lev. 4 * left st + 2 \<le> n \<longrightarrow> 0 < lev \<longrightarrow> safe (left st) (climb al n lev st)) \<and>
     (\<forall>st. 4 * left st + 1 \<le> n \<longrightarrow> c_tk st \<noteq> 0 \<longrightarrow> safe (left st - 1) (binary al n st))"

lemma enoughD:
  assumes "enough al n"
  shows "4 * left st + 4 \<le> n \<Longrightarrow> 0 < lev \<Longrightarrow> safe (left st - 1) (expr al n lev st)"
    "4 * left st + 3 \<le> n \<Longrightarrow> safe (left st - 1) (primary al n st)"
    "4 * left st + 5 \<le> n \<Longrightarrow> safe2 (left st) (args al n t st)"
    "4 * left st + 2 \<le> n \<Longrightarrow> 0 < lev \<Longrightarrow> safe (left st) (climb al n lev st)"
    "4 * left st + 1 \<le> n \<Longrightarrow> c_tk st \<noteq> 0 \<Longrightarrow> safe (left st - 1) (binary al n st)"
  using assms by (simp_all add: enough_def)

text \<open>Sequences: each step leaves no more than before.\<close>

lemma seq_next: "c_tk st \<noteq> 0 \<Longrightarrow> (\<And>s. left s \<le> left st - 1 \<Longrightarrow> safe c (f s)) \<Longrightarrow> safe c (bnd (next_tok al st) f)"
  by (rule safe_bnd [OF next_safe(2)])

lemma seq_next': "left st \<le> b \<Longrightarrow> (\<And>s. left s \<le> b \<Longrightarrow> safe c (f s)) \<Longrightarrow> safe c (bnd (next_tok al st) f)"
  by (rule safe_bnd [OF safe_mono [OF next_safe(1)]])

lemma seq_emits: "left st \<le> b \<Longrightarrow> (\<And>s. left s \<le> b \<Longrightarrow> safe c (f s)) \<Longrightarrow> safe c (bnd (emits ws st) f)"
  by (rule safe_bnd [OF safe_mono [OF emits_safe]])

lemma seq_expect: "t \<noteq> 0 \<Longrightarrow> left st \<le> b \<Longrightarrow> (\<And>s. left s \<le> b \<Longrightarrow> safe c (f s)) \<Longrightarrow> safe c (bnd (expect al t msg st) f)"
  by (rule safe_bnd [OF safe_mono [OF expect_safe]]) auto

lemma seq_expr:
  "enough al n \<Longrightarrow> 0 < lev \<Longrightarrow> left st \<le> b \<Longrightarrow> 4 * b + 4 \<le> n \<Longrightarrow> (\<And>s. left s \<le> b \<Longrightarrow> safe c (f s)) \<Longrightarrow> safe c (bnd (expr al n lev st) f)"
  by (rule safe_bnd [OF safe_mono [OF enoughD(1)]]) auto

lemma seq_stars:
  "left st \<le> b \<Longrightarrow> b < n \<Longrightarrow> (\<And>t s. left s \<le> b \<Longrightarrow> safe c (f t s)) \<Longrightarrow>
   safe c (bnd (skip_stars al n t st) (\<lambda>(t, s). f t s))"
proof (rule safe_bnd2 [where b = b])
  assume "left st \<le> b" "b < n"
  then have "safe2 (left st) (skip_stars al n t st)" by (intro stars_safe) simp
  then show "safe2 b (skip_stars al n t st)" using \<open>left st \<le> b\<close> by (cases "skip_stars al n t st") auto
qed auto

lemma seq_args:
  "enough al n \<Longrightarrow> left st \<le> b \<Longrightarrow> 4 * b + 5 \<le> n \<Longrightarrow> (\<And>t s. left s \<le> b \<Longrightarrow> safe c (f t s)) \<Longrightarrow>
   safe c (bnd (args al n t st) (\<lambda>(t, s). f t s))"
proof (rule safe_bnd2 [where b = b])
  assume "enough al n" "left st \<le> b" "4 * b + 5 \<le> n"
  then have "safe2 (left st) (args al n t st)" by (intro enoughD(3)) linarith+
  then show "safe2 b (args al n t st)" using \<open>left st \<le> b\<close> by (cases "args al n t st") auto
qed auto

lemma seq_strings:
  "left st \<le> b \<Longrightarrow> b < n \<Longrightarrow> (\<And>s. left s \<le> b \<Longrightarrow> safe c (f s)) \<Longrightarrow> safe c (bnd (skip_strings al n st) f)"
  by (rule safe_bnd [OF safe_mono [OF strings_safe]]) auto

lemma seq_keep: "left st \<le> b \<Longrightarrow> (\<And>s. left s \<le> b \<Longrightarrow> safe c (f s)) \<Longrightarrow> safe c (bnd (keep_address st) f)"
  by (rule safe_bnd [OF safe_mono [OF keep_safe]])

lemma seq_if:
  "(P \<Longrightarrow> safe c (bnd m f)) \<Longrightarrow> (\<not> P \<Longrightarrow> safe c (bnd k f)) \<Longrightarrow> safe c (bnd (if P then m else k) f)"
  by simp

lemma seq_step: "safe b m \<Longrightarrow> (\<And>s. left s \<le> b \<Longrightarrow> safe c (f s)) \<Longrightarrow> safe c (bnd m f)"
  by (rule safe_bnd)

lemma safe_ifs: "(P \<Longrightarrow> safe c m) \<Longrightarrow> (\<not> P \<Longrightarrow> safe c k) \<Longrightarrow> safe c (if P then m else k)"
  by simp

lemma end_emits: "left st \<le> b \<Longrightarrow> safe b (emits ws st)"
  by (rule safe_mono [OF emits_safe])

lemma end_inr: "left st \<le> b \<Longrightarrow> safe b (Inr st)"
  by simp

lemma end_inl: "e \<noteq> No_fuel \<Longrightarrow> safe b (Inl e)" "e \<noteq> No_fuel \<Longrightarrow> safe b (bnd (Inl e) f)"
  by simp_all

lemma end_next: "left st \<le> b \<Longrightarrow> safe b (next_tok al st)"
  by (rule safe_mono [OF next_safe(1)])

lemma end_expect: "t \<noteq> 0 \<Longrightarrow> left st \<le> b \<Longrightarrow> safe b (expect al t msg st)"
  by (rule safe_mono [OF expect_safe]) auto

lemma end_names: "left st \<le> b \<Longrightarrow> safe b (call_name k t st)" "left st \<le> b \<Longrightarrow> safe b (load_name k st)"
  by (auto intro: safe_mono [OF call_name_safe] safe_mono [OF load_name_safe])

lemma seq_inr: "safe c (f s) \<Longrightarrow> safe c (bnd (Inr s) f)"
  by simp

lemma seq_assoc: "safe c (bnd m (\<lambda>x. bnd (g x) f)) \<Longrightarrow> safe c (bnd (bnd m g) f)"
  by (cases m) simp_all

lemmas seqs = seq_next' seq_emits seq_expect seq_stars seq_strings seq_keep

lemmas ends = end_emits end_inr end_inl end_next end_expect end_names

lemma primary_safe:
  assumes "enough al n" "4 * left st + 3 \<le> Suc n"
  shows "safe (left st - 1) (primary al (Suc n) st)"
proof (cases "c_tk st = 0")
  case False
  have p: "1 \<le> left st" using left_pos [OF False] .
  define b where "b = left st - 1"
  have b: "4 * b + 5 \<le> n" "4 * b + 4 \<le> n" "b < n" using assms p by (auto simp: b_def)
  have nx: "safe b (bnd (next_tok al s) f)" if "left s = left st" "c_tk s \<noteq> 0" "\<And>s. left s \<le> b \<Longrightarrow> safe b (f s)" for s f
    using that by (intro seq_next) (auto simp: b_def)
  have em: "safe b (bnd (emits ws st) (\<lambda>st. bnd (next_tok al st) f))" if "\<And>s. left s \<le> b \<Longrightarrow> safe b (f s)" for ws f
    using that False by (auto simp: emits_def intro!: nx)
  show ?thesis
    unfolding primary.simps(2) Let_def b_def [symmetric]
    by (intro safe_ifs; ((rule nx, rule refl, rule False) | rule em)?;
        (intro safe_ifs seq_if seq_inr seq_assoc seq_expr [OF assms(1), where b = b]
            seq_args [OF assms(1), where b = b] seqs [where b = b] ends)?)
      (simp_all add: b False)
qed (simp add: primary.simps)

lemma simple_ops_pos: "map_of simple_ops t = Some (lev, opc) \<Longrightarrow> 0 < lev"
  by (auto simp: simple_ops_def split: if_splits)

lemma binary_safe:
  assumes "enough al n" "4 * left st + 1 \<le> Suc n" "c_tk st \<noteq> 0"
  shows "safe (left st - 1) (binary al (Suc n) st)"
proof -
  have p: "1 \<le> left st" using left_pos [OF assms(3)] .
  define b where "b = left st - 1"
  have b: "4 * b + 4 \<le> n" using assms p by (auto simp: b_def)
  have nx: "safe b (bnd (next_tok al st) f)" if "\<And>s. left s \<le> b \<Longrightarrow> safe b (f s)" for f
    using that assms(3) by (intro seq_next) (auto simp: b_def)
  have kp: "safe b (bnd (keep_address st) (\<lambda>s. bnd (emits ws s) (next_tok al)))" for ws
    using next_safe(2) [of "st\<lparr>c_code := c\<rparr>" al for c] assms(3)
    by (simp add: keep_address_def emits_def Let_def b_def)
  have op: "safe b (case map_of simple_ops (c_tk st) of Some (lev, opc) \<Rightarrow>
               bnd (next_tok al st) (\<lambda>st. bnd (emits [11] st) (\<lambda>st.
               bnd (expr al n lev st) (\<lambda>st. bnd (emits [opc] st) (\<lambda>st. Inr (set_ty 2 st)))))
           | None \<Rightarrow> Inl (Synerr ''compiler error''))"
    using simple_ops_pos [of "c_tk st"]
    by (auto split: option.split intro!: nx seq_expr [OF assms(1), where b = b] seqs [where b = b] ends simp: b)
  show ?thesis
    unfolding binary.simps(2) Let_def b_def [symmetric]
    by (intro safe_ifs; (rule nx | rule kp | rule op)?;
        (intro safe_ifs seq_if seq_inr seq_expr [OF assms(1), where b = b] seqs [where b = b] ends)?)
      (simp_all add: b)
qed

lemma climb_safe:
  assumes "enough al n" "4 * left st + 2 \<le> Suc n" "0 < lev"
  shows "safe (left st) (climb al (Suc n) lev st)"
proof (cases "lev \<le> c_tk st")
  case True
  then have t: "c_tk st \<noteq> 0" using assms by simp
  have "safe (left st) (bnd (binary al n st) (climb al n lev))"
  proof (rule safe_bnd [OF enoughD(5) [OF assms(1)]])
    fix s assume s: "left s \<le> left st - 1"
    then have "4 * left s + 2 \<le> n" using assms left_pos [OF t] by simp
    then show "safe (left st) (climb al n lev s)"
      using s by (intro safe_mono [OF enoughD(4) [OF assms(1)]]) (simp_all add: assms)
  qed (use assms t in simp_all)
  then show ?thesis using True by (simp add: climb.simps)
qed (simp add: climb.simps)

lemma expr_safe:
  assumes "enough al n" "4 * left st + 4 \<le> Suc n" "0 < lev"
  shows "safe (left st - 1) (expr al (Suc n) lev st)"
proof -
  have "safe (left st - 1) (bnd (primary al n st) (climb al n lev))"
  proof (rule safe_bnd [OF enoughD(2) [OF assms(1)]])
    fix s assume s: "left s \<le> left st - 1"
    then have "4 * left s + 2 \<le> n" using assms by simp
    then show "safe (left st - 1) (climb al n lev s)"
      using s by (intro safe_mono [OF enoughD(4) [OF assms(1)]]) (simp_all add: assms)
  qed (use assms in simp)
  then show ?thesis by (simp add: expr.simps)
qed

lemma safe2_step: "safe b m \<Longrightarrow> (\<And>s. left s \<le> b \<Longrightarrow> safe2 c (f s)) \<Longrightarrow> safe2 c (bnd m f)"
  by (rule safe2_bnd)

lemma expr_eof: "c_tk st = 0 \<Longrightarrow> 2 \<le> n \<Longrightarrow> expr al n lev st = Inl (Synerr ''unexpected eof in expression'')"
  by (cases n; cases "n - 1") (simp_all add: expr.simps primary.simps)

lemma args_safe:
  assumes "enough al n" "4 * left st + 5 \<le> Suc n"
  shows "safe2 (left st) (args al (Suc n) t st)"
proof (cases "c_tk st = 0")
  case True
  then show ?thesis using assms(2) by (simp add: args.simps expr_eof)
next
  case False
  note p = left_pos [OF False]
  have r: "safe2 (left st) (args al n (t + 1) s)" if "left s \<le> left st - 1" for s
  proof -
    have "safe2 (left s) (args al n (t + 1) s)" using that assms p by (intro enoughD(3)) simp_all
    then show ?thesis using that by (cases "args al n (t + 1) s") auto
  qed
  have "safe2 (left st) (bnd (expr al n 136 st) (\<lambda>st. bnd (emits [11] st) (\<lambda>st.
           bnd (if c_tk st = 44 then next_tok al st else Inr st) (\<lambda>st. args al n (t + 1) st))))"
  proof (rule safe2_bnd [OF enoughD(1) [OF assms(1)]])
    fix s assume s: "left s \<le> left st - 1"
    show "safe2 (left st) (bnd (emits [11] s) (\<lambda>st. bnd (if c_tk st = 44 then next_tok al st else Inr st) (\<lambda>st. args al n (t + 1) st)))"
    proof (rule safe2_bnd [OF emits_safe])
      fix u assume u: "left u \<le> left s"
      have "safe (left u) (if c_tk u = 44 then next_tok al u else Inr u)" using next_safe(1) by simp
      then show "safe2 (left st) (bnd (if c_tk u = 44 then next_tok al u else Inr u) (\<lambda>st. args al n (t + 1) st))"
        by (rule safe2_bnd) (rule r, use s u in linarith)
    qed
  qed (use assms in simp_all)
  then show ?thesis by simp
qed

lemma fuel_enough: "enough al n"
proof (induction n)
  case 0
  then show ?case by (simp add: enough_def left_def)
next
  case (Suc n)
  show ?case
    unfolding enough_def
    using expr_safe [OF Suc] primary_safe [OF Suc] args_safe [OF Suc] climb_safe [OF Suc] binary_safe [OF Suc] by blast
qed

section \<open>The driver\<close>

lemma exprs_safe: "4 * left st + 5 \<le> n \<Longrightarrow> safe (left st) (exprs al n st)"
proof (induction n arbitrary: st)
  case (Suc n)
  have "safe (left st) (bnd (next_tok al st) (\<lambda>st. bnd (expr al n 136 st) (\<lambda>st.
     if c_tk st = 44 then exprs al n st else emits [33] st)))"
  proof (rule seq_next' [OF order_refl])
    fix s assume s: "left s \<le> left st"
    show "safe (left st) (bnd (expr al n 136 s) (\<lambda>st. if c_tk st = 44 then exprs al n st else emits [33] st))"
    proof (cases "c_tk s = 0")
      case True
      then show ?thesis using Suc.prems by (simp add: expr_eof)
    next
      case False
      note p = left_pos [OF False]
      show ?thesis
      proof (rule safe_bnd [OF enoughD(1) [OF fuel_enough]])
        fix u assume u: "left u \<le> left s - 1"
        have "safe (left st) (exprs al n u)"
          by (rule safe_mono [OF Suc.IH]) (use u s p Suc.prems in linarith)+
        then show "safe (left st) (if c_tk u = 44 then exprs al n u else emits [33] u)"
          using u s by (auto intro: end_emits)
      qed (use s Suc.prems in simp_all)
    qed
  qed
  then show ?case by simp
qed simp

lemma each_safe: "(\<And>x st. f x st \<noteq> Inl No_fuel) \<Longrightarrow> each f xs st \<noteq> Inl No_fuel"
  by (induction xs arbitrary: st) (auto simp: bnd_def split: sum.split)

lemma bnd_fuel: "m \<noteq> Inl No_fuel \<Longrightarrow> (\<And>x. f x \<noteq> Inl No_fuel) \<Longrightarrow> bnd m f \<noteq> Inl No_fuel"
  by (cases m) auto

lemma declared_safe: "declared al ds \<noteq> Inl No_fuel"
proof -
  have l: "lex al cs st \<noteq> Inl No_fuel" for cs st using lex_safe [of cs al st] by auto
  show ?thesis
    unfolding declared_def
    by (intro bnd_fuel each_safe)
      (simp_all add: add_key_def add_lib_def declare_var_def l bnd_fuel split: prod.split option.split)
qed

text \<open>
  C5. The compiler ends: on every text and every list of declarations \<open>expr_compile\<close> returns a
  program or one of the errors of the code, never for lack of fuel. The fuel, 12 times the
  length of the text plus 24, is enough for the recursion of \<open>expr\<close> and its loops on any
  input, however the tokens nest.
\<close>

theorem expr_compile_returns: "expr_compile al txt ds \<noteq> Inl No_fuel"
proof -
  have "safe (2 * length txt + 1) (exprs al (fuel_for txt) (st\<lparr>c_p := txt\<rparr>))" for st
    by (rule safe_mono [OF exprs_safe]) (auto simp: fuel_for_def left_def)
  then have "exprs al (fuel_for txt) (st\<lparr>c_p := txt\<rparr>) \<noteq> Inl No_fuel" for st
    by (metis safe_simps(2))
  then show ?thesis
    unfolding expr_compile_def by (intro bnd_fuel declared_safe) simp_all
qed

end
