(* ===== verification/Hweight.thy ===== *)
theory Hweight
  imports Prelude
begin

text \<open>
  Hamming weights, \<open>src/lib/hweight.c\<close>: the parallel sums over pairs, nibbles and bytes, in
  the variant without a fast multiplier and in the one with it, and that they count the bits
  of the word. The 8- and 16-bit functions of the file have no caller in the program.
\<close>

unbundle bit_operations_syntax

section \<open>The code\<close>

definition sw_hweight32 :: "u32 \<Rightarrow> u32" where
  "sw_hweight32 w =
     (let res = w - (drop_bit 1 w AND 0x55555555);
          res = (res AND 0x33333333) + (drop_bit 2 res AND 0x33333333);
          res = (res + drop_bit 4 res) AND 0x0F0F0F0F;
          res = res + drop_bit 8 res
      in (res + drop_bit 16 res) AND 0x000000FF)"

definition sw_hweight32_mult :: "u32 \<Rightarrow> u32" where
  "sw_hweight32_mult w =
     (let w = w - (drop_bit 1 w AND 0x55555555);
          w = (w AND 0x33333333) + (drop_bit 2 w AND 0x33333333);
          w = (w + drop_bit 4 w) AND 0x0F0F0F0F
      in drop_bit 24 (w * 0x01010101))"

definition sw_hweight64 :: "u64 \<Rightarrow> u64" where
  "sw_hweight64 w =
     (let res = w - (drop_bit 1 w AND 0x5555555555555555);
          res = (res AND 0x3333333333333333) + (drop_bit 2 res AND 0x3333333333333333);
          res = (res + drop_bit 4 res) AND 0x0F0F0F0F0F0F0F0F;
          res = res + drop_bit 8 res;
          res = res + drop_bit 16 res
      in (res + drop_bit 32 res) AND 0x00000000000000FF)"

definition sw_hweight64_mult :: "u64 \<Rightarrow> u64" where
  "sw_hweight64_mult w =
     (let w = w - (drop_bit 1 w AND 0x5555555555555555);
          w = (w AND 0x3333333333333333) + (drop_bit 2 w AND 0x3333333333333333);
          w = (w + drop_bit 4 w) AND 0x0F0F0F0F0F0F0F0F
      in drop_bit 56 (w * 0x0101010101010101))"

section \<open>Byte by byte\<close>

text \<open>The first three steps on a number of \<open>n\<close> bytes; \<open>rep n c\<close> repeats the byte \<open>c\<close>.\<close>

fun rep :: "nat \<Rightarrow> int \<Rightarrow> int" where
  "rep 0 c = 0"
| "rep (Suc n) c = c + 256 * rep n c"

definition pairs :: "nat \<Rightarrow> int \<Rightarrow> int" where
  "pairs n w = w - (w div 2 AND rep n 0x55)"

definition nibbles :: "nat \<Rightarrow> int \<Rightarrow> int" where
  "nibbles n w = (w AND rep n 0x33) + (w div 4 AND rep n 0x33)"

definition bytes :: "nat \<Rightarrow> int \<Rightarrow> int" where
  "bytes n w = (w + w div 16) AND rep n 0x0F"

text \<open>How many of the lowest \<open>n\<close> bits are set.\<close>

fun weight :: "nat \<Rightarrow> int \<Rightarrow> int" where
  "weight 0 w = 0"
| "weight (Suc n) w = w mod 2 + weight n (w div 2)"

lemma and_byte:
  assumes "0 \<le> c" "c < 256"
  shows "(x :: int) AND (c + 256 * m) = (x mod 256 AND c) + 256 * (x div 256 AND m)"
proof -
  have t: "take_bit 8 (c + 256 * m) = c" using assms by (simp add: take_bit_eq_mod)
  have d: "drop_bit 8 (c + 256 * m) = m" using assms by (simp add: drop_bit_eq_div)
  have "x AND (c + 256 * m) = take_bit 8 (x AND (c + 256 * m)) + 256 * drop_bit 8 (x AND (c + 256 * m))"
    by (simp add: take_bit_eq_mod drop_bit_eq_div)
  also have "\<dots> = (take_bit 8 x AND c) + 256 * (drop_bit 8 x AND m)"
    by (simp only: take_bit_and drop_bit_and t d)
  finally show ?thesis by (simp add: take_bit_eq_mod drop_bit_eq_div)
qed

lemma and_low: "take_bit k c = c \<Longrightarrow> (x :: int) AND c = take_bit k x AND c"
  by (metis and.assoc and.commute take_bit_eq_mask)

lemma div_low: "0 \<le> l \<Longrightarrow> l < k \<Longrightarrow> (l + k * x) div k = (x :: int)"
  by simp

lemma pairs_byte:
  assumes "0 \<le> b" "b < 256"
  shows "pairs (Suc n) (b + 256 * w) = (b - (b div 2 AND 0x55)) + 256 * pairs n w"
proof -
  have h: "(b + 256 * w) div 2 = b div 2 + 128 * w" by simp
  have lo: "(b div 2 + 128 * w) mod 256 AND 0x55 = b div 2 AND 0x55"
    using and_low [of 7 "0x55" "(b div 2 + 128 * w) mod 256"] assms
    by (simp add: take_bit_eq_mod mod_mod_cancel)
  have hi: "(b div 2 + 128 * w) div 256 = w div 2" using assms by linarith
  show ?thesis by (simp add: pairs_def h and_byte lo hi)
qed

lemma nibbles_byte:
  assumes "0 \<le> b" "b < 256"
  shows "nibbles (Suc n) (b + 256 * w) = ((b AND 0x33) + (b div 4 AND 0x33)) + 256 * nibbles n w"
proof -
  have h: "(b + 256 * w) div 4 = b div 4 + 64 * w" by simp
  have lo: "(b div 4 + 64 * w) mod 256 AND 0x33 = b div 4 AND 0x33"
    using and_low [of 6 "0x33" "(b div 4 + 64 * w) mod 256"] assms
    by (simp add: take_bit_eq_mod mod_mod_cancel)
  have hi: "(b div 4 + 64 * w) div 256 = w div 4" using assms by linarith
  show ?thesis using assms by (simp add: nibbles_def h and_byte lo hi)
qed

lemma bytes_byte:
  assumes "0 \<le> b" "b \<le> 0x44" "w mod 16 \<le> 4"
  shows "bytes (Suc n) (b + 256 * w) = ((b + b div 16) AND 0x0F) + 256 * bytes n w"
proof -
  have m: "(272 * w + x) mod 16 = x mod 16" for x
    using mod_mult_self4 [of 16 "17 * w" x] by simp
  have h: "b + 256 * w + (b + 256 * w) div 16 = b + b div 16 + 16 * w + 256 * w" by simp
  have lo: "(b + b div 16 + 16 * w + 256 * w) mod 256 AND 0x0F = (b + b div 16) AND 0x0F"
    using and_low [of 4 "0x0F" "(b + b div 16 + 16 * w + 256 * w) mod 256"] and_low [of 4 "0x0F" "b + b div 16"]
      m [of "b + b div 16"] by (simp add: take_bit_eq_mod mod_mod_cancel)
  have hi: "(b + b div 16 + 16 * w + 256 * w) div 256 = w + w div 16"
  proof -
    let ?l = "b + b div 16 + 16 * (w mod 16)"
    have l: "0 \<le> ?l" "?l < 256" using assms by auto
    have "b + b div 16 + 16 * w + 256 * w = ?l + 256 * (w + w div 16)"
    proof -
      define q r where "q = w div 16" and "r = w mod 16"
      have "w = 16 * q + r" by (simp add: q_def r_def)
      then show ?thesis unfolding q_def [symmetric] r_def [symmetric] by (simp add: algebra_simps)
    qed
    then show ?thesis by (simp only: div_low [OF l])
  qed
  have "(b + b div 16 + 16 * w + 256 * w) AND (0x0F + 256 * rep n 0x0F) =
      ((b + b div 16) AND 0x0F) + 256 * ((w + w div 16) AND rep n 0x0F)"
    by (subst and_byte; (simp only: lo hi)?; simp)
  then show ?thesis by (simp only: bytes_def rep.simps h)
qed

text \<open>The 256 values of a byte.\<close>

lemma byte_table:
  "list_all (\<lambda>b. let p = b - (b div 2 AND 0x55); q = (p AND 0x33) + (p div 4 AND 0x33)
     in 0 \<le> p \<and> p < 256 \<and> 0 \<le> q \<and> q \<le> 0x44 \<and> q mod 16 \<le> 4 \<and> ((q + q div 16) AND 0x0F) = weight 8 b) [0..255]"
  by code_simp

lemma sums_byte:
  assumes "0 \<le> b" "b < 256" "nibbles n (pairs n w) mod 16 \<le> 4"
  shows "bytes (Suc n) (nibbles (Suc n) (pairs (Suc n) (b + 256 * w))) = weight 8 b + 256 * bytes n (nibbles n (pairs n w))"
    "nibbles (Suc n) (pairs (Suc n) (b + 256 * w)) mod 16 \<le> 4"
proof -
  define p where "p = b - (b div 2 AND 0x55)"
  define q where "q = (p AND 0x33) + (p div 4 AND 0x33)"
  have "b \<in> set [0..255]" using assms by simp
  then have t: "0 \<le> p" "p < 256" "0 \<le> q" "q \<le> 0x44" "q mod 16 \<le> 4" "((q + q div 16) AND 0x0F) = weight 8 b"
    using byte_table unfolding list_all_iff Let_def q_def p_def by blast+
  have 1: "pairs (Suc n) (b + 256 * w) = p + 256 * pairs n w" unfolding p_def by (rule pairs_byte) fact+
  have 2: "nibbles (Suc n) (p + 256 * pairs n w) = q + 256 * nibbles n (pairs n w)"
    unfolding q_def by (rule nibbles_byte) fact+
  have "bytes (Suc n) (q + 256 * nibbles n (pairs n w)) = weight 8 b + 256 * bytes n (nibbles n (pairs n w))"
    using bytes_byte [OF t(3,4) assms(3)] t(6) by simp
  then show "bytes (Suc n) (nibbles (Suc n) (pairs (Suc n) (b + 256 * w))) = weight 8 b + 256 * bytes n (nibbles n (pairs n w))"
    unfolding 1 2 .
  show "nibbles (Suc n) (pairs (Suc n) (b + 256 * w)) mod 16 \<le> 4"
    unfolding 1 2 using t(5) mod_mult_self2 [of q 16 "16 * nibbles n (pairs n w)"] by simp
qed

text \<open>After three steps each byte holds the weight of the byte that was there.\<close>

fun byte_list :: "nat \<Rightarrow> int \<Rightarrow> int list" where
  "byte_list 0 w = []"
| "byte_list (Suc n) w = weight 8 (w mod 256) # byte_list n (w div 256)"

fun horner :: "int list \<Rightarrow> int" where
  "horner [] = 0"
| "horner (p # ps) = p + 256 * horner ps"

lemma three_steps:
  "0 \<le> w \<Longrightarrow> w < 256 ^ n \<Longrightarrow> bytes n (nibbles n (pairs n w)) = horner (byte_list n w) \<and> nibbles n (pairs n w) mod 16 \<le> 4"
proof (induction n arbitrary: w)
  case 0
  then show ?case by (simp add: bytes_def nibbles_def pairs_def)
next
  case (Suc n)
  have "0 \<le> w div 256" using Suc.prems by simp
  moreover have "w div 256 < 256 ^ n" using Suc.prems by simp
  ultimately have i: "bytes n (nibbles n (pairs n (w div 256))) = horner (byte_list n (w div 256))"
      "nibbles n (pairs n (w div 256)) mod 16 \<le> 4" using Suc.IH by auto
  have "w mod 256 + 256 * (w div 256) = w" by simp
  then show ?case using sums_byte [of "w mod 256" n "w div 256", OF _ _ i(2)] i(1) by simp
qed

section \<open>Adding up the bytes\<close>

lemma weight_bounds: "0 \<le> weight n w" "weight n w \<le> int n"
proof -
  show "0 \<le> weight n w" by (induction n arbitrary: w) (simp_all add: add_nonneg_nonneg)
  show "weight n w \<le> int n"
  proof (induction n arbitrary: w)
    case (Suc n)
    have "w mod 2 \<le> 1" by presburger
    then show ?case using Suc [of "w div 2"] by simp
  qed simp
qed

lemma weight_add: "weight (m + n) w = weight m w + weight n (w div 2 ^ m)"
proof (induction m arbitrary: w)
  case (Suc m)
  then show ?case using zdiv_zmult2_eq [of "2 ^ m" w 2] by (simp add: power_commutes mult.commute)
qed simp

lemma weight_mod: "weight n (w mod 2 ^ n) = weight n w"
proof (induction n arbitrary: w)
  case (Suc n)
  have "w mod 2 ^ Suc n mod 2 = w mod 2" by (simp add: mod_mod_cancel)
  moreover have "w mod 2 ^ Suc n div 2 = w div 2 mod 2 ^ n" by (simp add: zmod_zmult2_eq)
  ultimately show ?case using Suc [of "w div 2"] by simp
qed simp

lemma byte_weight_add: "weight (8 + n) w = weight 8 (w mod 256) + weight n (w div 256)"
  using weight_mod [of 8 w] by (simp add: weight_add)

lemma weight_card_int: "weight n x = int (card {i. i < n \<and> bit x i})"
proof (induction n arbitrary: x)
  case (Suc n)
  let ?S = "{i. i < n \<and> bit (x div 2) i}"
  have "{i. i < Suc n \<and> bit x i} = (if odd x then {0} else {}) \<union> Suc ` ?S"
    by (auto simp: bit_0 bit_Suc image_iff less_Suc_eq_0_disj split: if_splits)
  moreover have "card ((if odd x then {0} else {}) \<union> Suc ` ?S) = of_bool (odd x) + card ?S"
    by (subst card_Un_disjoint) (auto simp: card_image)
  ultimately show ?case using Suc [of "x div 2"] by (simp add: mod_2_eq_odd)
qed simp

text \<open>The Hamming weight of a word: how many of its bits are set.\<close>

definition hamming :: "'a::len word \<Rightarrow> nat" where
  "hamming w = card {i. bit w i}"

lemma hamming_weight: "int (hamming (w :: 'a::len word)) = weight (LENGTH('a)) (uint w)"
proof -
  have "{i. i < LENGTH('a) \<and> bit (uint w) i} = {i. bit w i}"
    using bit_imp_le_length [of w] by (auto simp: bit_uint_iff)
  then show ?thesis by (simp add: hamming_def weight_card_int)
qed

lemma byte_list_facts: "length (byte_list n w) = n" "\<forall>p\<in>set (byte_list n w). 0 \<le> p \<and> p \<le> 8"
    "weight (8 * n) w = sum_list (byte_list n w)"
proof -
  show "length (byte_list n w) = n" by (induction n arbitrary: w) simp_all
  show "\<forall>p\<in>set (byte_list n w). 0 \<le> p \<and> p \<le> 8"
    using weight_bounds [of 8] by (induction n arbitrary: w) simp_all
  show "weight (8 * n) w = sum_list (byte_list n w)"
  proof (induction n arbitrary: w)
    case (Suc n)
    then show ?case using byte_weight_add [of "8 * n" w] by simp
  qed simp
qed

section \<open>The words\<close>

lemma uint_sub_le: "uint b \<le> uint (a :: 'a::len word) \<Longrightarrow> uint (a - b) = uint a - uint b"
  by (simp add: uint_sub_if')

lemma uint_add_less: "uint a + uint b < 2 ^ LENGTH('a) \<Longrightarrow> uint (a + b :: 'a::len word) = uint a + uint b"
  by (simp add: uint_add_lem)

lemma uint_and_drop: "uint (drop_bit k w) = uint (w :: 'a::len word) div 2 ^ k"
  using unat_drop_bit [of k w] by (simp only: uint_nat zdiv_int of_nat_power of_nat_numeral)

lemma rep_vals:
  "rep 4 0x55 = 0x55555555" "rep 4 0x33 = 0x33333333" "rep 4 0x0F = 0x0F0F0F0F"
  "rep 8 0x55 = 0x5555555555555555" "rep 8 0x33 = 0x3333333333333333" "rep 8 0x0F = 0x0F0F0F0F0F0F0F0F"
  by (simp_all add: numeral_eq_Suc)

lemma steps64:
  fixes w :: u64
  defines "a \<equiv> w - (drop_bit 1 w AND 0x5555555555555555)"
  defines "b \<equiv> (a AND 0x3333333333333333) + (drop_bit 2 a AND 0x3333333333333333)"
  shows "uint ((b + drop_bit 4 b) AND 0x0F0F0F0F0F0F0F0F) = horner (byte_list 8 (uint w))"
proof -
  have a: "uint a = pairs 8 (uint w)"
  proof -
    have "uint (drop_bit 1 w AND 0x5555555555555555) = (uint w div 2 AND rep 8 0x55)"
      by (simp add: uint_and rep_vals uint_and_drop)
    moreover have "(uint w div 2 AND rep 8 0x55) \<le> uint w"
      using AND_upper1 [of "uint w div 2" "rep 8 0x55"] zdiv_mono2 [of "uint w" 1 2] by simp
    ultimately show ?thesis unfolding a_def pairs_def by (simp add: uint_sub_le)
  qed
  have b: "uint b = nibbles 8 (uint a)" "uint b \<le> 0x6666666666666666"
  proof -
    have "uint (a AND 0x3333333333333333) = (uint a AND rep 8 0x33)"
      "uint (drop_bit 2 a AND 0x3333333333333333) = (uint a div 4 AND rep 8 0x33)"
      by (simp_all add: uint_and rep_vals uint_and_drop)
    moreover have "(uint a AND rep 8 0x33) \<le> 0x3333333333333333" "(uint a div 4 AND rep 8 0x33) \<le> 0x3333333333333333"
      unfolding rep_vals by (rule AND_upper2; simp)+
    ultimately show "uint b = nibbles 8 (uint a)" "uint b \<le> 0x6666666666666666"
      unfolding b_def nibbles_def by (simp_all add: uint_add_less)
  qed
  have "uint ((b + drop_bit 4 b) AND 0x0F0F0F0F0F0F0F0F) = bytes 8 (uint b)"
    using b(2) by (simp add: uint_and bytes_def rep_vals uint_add_less uint_and_drop)
  also have "\<dots> = horner (byte_list 8 (uint w))"
    using three_steps [of "uint w" 8] uint_bounded [of w] unfolding a b by simp
  finally show ?thesis .
qed

lemma fold64:
  assumes "length ps = 8" "\<forall>p\<in>set ps. 0 \<le> p \<and> p \<le> 8" "uint (r :: u64) = horner ps"
  defines "r1 \<equiv> r + drop_bit 8 r" defines "r2 \<equiv> r1 + drop_bit 16 r1"
  shows "uint ((r2 + drop_bit 32 r2) AND 0xFF) = sum_list ps" "uint (drop_bit 56 (r * 0x0101010101010101)) = sum_list ps"
proof -
  obtain a b c d e f g h where ps: "ps = [a, b, c, d, e, f, g, h]" using assms(1) by (auto simp: numeral_eq_Suc length_Suc_conv)
  have bd: "0 \<le> a" "a \<le> 8" "0 \<le> b" "b \<le> 8" "0 \<le> c" "c \<le> 8" "0 \<le> d" "d \<le> 8" "0 \<le> e" "e \<le> 8" "0 \<le> f" "f \<le> 8"
      "0 \<le> g" "g \<le> 8" "0 \<le> h" "h \<le> 8"
    using assms(2) ps by auto
  let ?K = "256 :: int"
  have r: "uint r = a + ?K * (b + ?K * (c + ?K * (d + ?K * (e + ?K * (f + ?K * (g + ?K * h))))))"
    using assms(3) ps by simp
  have d1: "uint r div 256 = b + ?K * (c + ?K * (d + ?K * (e + ?K * (f + ?K * (g + ?K * h)))))"
    unfolding r by (rule div_low) (use bd in auto)
  have r1: "uint r1 = (a + b) + ?K * ((b + c) + ?K * ((c + d) + ?K * ((d + e) + ?K * ((e + f) + ?K * ((f + g) + ?K * ((g + h) + ?K * h))))))"
    unfolding r1_def using r d1 bd by (subst uint_add_less) (simp_all add: uint_and_drop)
  have d2: "uint r1 div 65536 = (c + d) + ?K * ((d + e) + ?K * ((e + f) + ?K * ((f + g) + ?K * ((g + h) + ?K * h))))"
    using div_low [of "(a + b) + ?K * (b + c)" 65536 "(c + d) + ?K * ((d + e) + ?K * ((e + f) + ?K * ((f + g) + ?K * ((g + h) + ?K * h))))"] bd
    unfolding r1 by (simp add: algebra_simps)
  have r2: "uint r2 = (a + b + c + d) + ?K * ((b + c + d + e) + ?K * ((c + d + e + f) + ?K * ((d + e + f + g) + ?K * ((e + f + g + h) + ?K * ((f + g + h) + ?K * ((g + h) + ?K * h))))))"
    unfolding r2_def using r1 d2 bd by (subst uint_add_less) (simp_all add: uint_and_drop)
  have d3: "uint r2 div 4294967296 = (e + f + g + h) + ?K * ((f + g + h) + ?K * ((g + h) + ?K * h))"
    using div_low [of "(a + b + c + d) + ?K * ((b + c + d + e) + ?K * ((c + d + e + f) + ?K * (d + e + f + g)))" 4294967296
        "(e + f + g + h) + ?K * ((f + g + h) + ?K * ((g + h) + ?K * h))"] bd
    unfolding r2 by (simp add: algebra_simps)
  have r3: "uint (r2 + drop_bit 32 r2) = uint r2 + uint r2 div 4294967296"
    using bd by (subst uint_add_less) (simp_all add: uint_and_drop d3 r2)
  have "uint ((r2 + drop_bit 32 r2) AND 0xFF) = uint (r2 + drop_bit 32 r2) mod 256"
    using take_bit_eq_mask [of 8 "uint (r2 + drop_bit 32 r2)"] by (simp add: uint_and take_bit_eq_mod mask_numeral)
  also have "\<dots> = (a + b + c + d + e + f + g + h) mod 256"
  proof -
    let ?X = "(b + c + d + e) + ?K * ((c + d + e + f) + ?K * ((d + e + f + g) + ?K * ((e + f + g + h) + ?K * ((f + g + h) + ?K * ((g + h) + ?K * h)))))"
    let ?Y = "(f + g + h) + ?K * ((g + h) + ?K * h)"
    have "uint r2 + uint r2 div 4294967296 = (a + b + c + d + e + f + g + h) + ?K * (?X + ?Y)"
      unfolding d3 by (simp only: r2 distrib_left ac_simps)
    then show ?thesis unfolding r3 by (simp only: mod_mult_self2)
  qed
  finally show "uint ((r2 + drop_bit 32 r2) AND 0xFF) = sum_list ps" using bd ps by simp
  let ?S = "a + b + c + d + e + f + g + h"
  let ?L = "a + ?K * ((a + b) + ?K * ((a + b + c) + ?K * ((a + b + c + d) + ?K * ((a + b + c + d + e) + ?K * ((a + b + c + d + e + f) + ?K * (a + b + c + d + e + f + g))))))"
  let ?H = "(b + c + d + e + f + g + h) + ?K * ((c + d + e + f + g + h) + ?K * ((d + e + f + g + h) + ?K * ((e + f + g + h) + ?K * ((f + g + h) + ?K * ((g + h) + ?K * h)))))"
  have L: "0 \<le> ?L" "?L < 2 ^ 56" using bd by auto
  have m: "uint r * 0x0101010101010101 = (?L + 2 ^ 56 * ?S) + 2 ^ 64 * ?H"
    unfolding r by (simp add: algebra_simps)
  have u: "uint (r * 0x0101010101010101) = (uint r * 0x0101010101010101) mod 2 ^ 64"
    by (simp add: uint_word_ariths)
  have "(?L + 2 ^ 56 * ?S) mod 2 ^ 64 = ?L + 2 ^ 56 * ?S" using L bd by (intro mod_pos_pos_trivial) auto
  then have "uint (r * 0x0101010101010101) = ?L + 2 ^ 56 * ?S"
    using mod_mult_self2 [of "?L + 2 ^ 56 * ?S" "2 ^ 64" ?H] u unfolding m by (simp only:)
  then have "uint (drop_bit 56 (r * 0x0101010101010101)) = (?L + 2 ^ 56 * ?S) div 2 ^ 56"
    by (simp only: uint_and_drop)
  also have "\<dots> = ?S" by (rule div_low [OF L])
  finally show "uint (drop_bit 56 (r * 0x0101010101010101)) = sum_list ps" using ps by simp
qed

lemma steps32:
  fixes w :: u32
  defines "a \<equiv> w - (drop_bit 1 w AND 0x55555555)"
  defines "b \<equiv> (a AND 0x33333333) + (drop_bit 2 a AND 0x33333333)"
  shows "uint ((b + drop_bit 4 b) AND 0x0F0F0F0F) = horner (byte_list 4 (uint w))"
proof -
  have a: "uint a = pairs 4 (uint w)"
  proof -
    have "uint (drop_bit 1 w AND 0x55555555) = (uint w div 2 AND rep 4 0x55)"
      by (simp add: uint_and rep_vals uint_and_drop)
    moreover have "(uint w div 2 AND rep 4 0x55) \<le> uint w"
      using AND_upper1 [of "uint w div 2" "rep 4 0x55"] zdiv_mono2 [of "uint w" 1 2] by simp
    ultimately show ?thesis unfolding a_def pairs_def by (simp add: uint_sub_le)
  qed
  have b: "uint b = nibbles 4 (uint a)" "uint b \<le> 0x66666666"
  proof -
    have "uint (a AND 0x33333333) = (uint a AND rep 4 0x33)"
      "uint (drop_bit 2 a AND 0x33333333) = (uint a div 4 AND rep 4 0x33)"
      by (simp_all add: uint_and rep_vals uint_and_drop)
    moreover have "(uint a AND rep 4 0x33) \<le> 0x33333333" "(uint a div 4 AND rep 4 0x33) \<le> 0x33333333"
      unfolding rep_vals by (rule AND_upper2; simp)+
    ultimately show "uint b = nibbles 4 (uint a)" "uint b \<le> 0x66666666"
      unfolding b_def nibbles_def by (simp_all add: uint_add_less)
  qed
  have "uint ((b + drop_bit 4 b) AND 0x0F0F0F0F) = bytes 4 (uint b)"
    using b(2) by (simp add: uint_and bytes_def rep_vals uint_add_less uint_and_drop)
  also have "\<dots> = horner (byte_list 4 (uint w))"
    using three_steps [of "uint w" 4] uint_bounded [of w] unfolding a b by simp
  finally show ?thesis .
qed

lemma fold32:
  assumes "length ps = 4" "\<forall>p\<in>set ps. 0 \<le> p \<and> p \<le> 8" "uint (r :: u32) = horner ps"
  defines "r1 \<equiv> r + drop_bit 8 r"
  shows "uint ((r1 + drop_bit 16 r1) AND 0xFF) = sum_list ps" "uint (drop_bit 24 (r * 0x01010101)) = sum_list ps"
proof -
  obtain a b c d where ps: "ps = [a, b, c, d]" using assms(1) by (auto simp: numeral_eq_Suc length_Suc_conv)
  have bd: "0 \<le> a" "a \<le> 8" "0 \<le> b" "b \<le> 8" "0 \<le> c" "c \<le> 8" "0 \<le> d" "d \<le> 8" using assms(2) ps by auto
  let ?K = "256 :: int"
  have r: "uint r = a + ?K * (b + ?K * (c + ?K * d))" using assms(3) ps by simp
  have d1: "uint r div 256 = b + ?K * (c + ?K * d)" unfolding r by (rule div_low) (use bd in auto)
  have r1: "uint r1 = (a + b) + ?K * ((b + c) + ?K * ((c + d) + ?K * d))"
    unfolding r1_def using r d1 bd by (subst uint_add_less) (simp_all add: uint_and_drop)
  have d2: "uint r1 div 65536 = (c + d) + ?K * d"
    using div_low [of "(a + b) + ?K * (b + c)" 65536 "(c + d) + ?K * d"] bd unfolding r1 by (simp add: algebra_simps)
  have r2: "uint (r1 + drop_bit 16 r1) = uint r1 + uint r1 div 65536"
    using bd by (subst uint_add_less) (simp_all add: uint_and_drop d2 r1)
  have "uint ((r1 + drop_bit 16 r1) AND 0xFF) = uint (r1 + drop_bit 16 r1) mod 256"
    using take_bit_eq_mask [of 8 "uint (r1 + drop_bit 16 r1)"] by (simp add: uint_and take_bit_eq_mod mask_numeral)
  also have "\<dots> = (a + b + c + d) mod 256"
  proof -
    have "uint r1 + uint r1 div 65536 = (a + b + c + d) + ?K * (((b + c) + ?K * ((c + d) + ?K * d)) + d)"
      unfolding d2 by (simp only: r1 distrib_left ac_simps)
    then show ?thesis unfolding r2 by (simp only: mod_mult_self2)
  qed
  finally show "uint ((r1 + drop_bit 16 r1) AND 0xFF) = sum_list ps" using bd ps by simp
  let ?S = "a + b + c + d" and ?L = "a + ?K * ((a + b) + ?K * (a + b + c))" and ?H = "(b + c + d) + ?K * ((c + d) + ?K * d)"
  have L: "0 \<le> ?L" "?L < 2 ^ 24" using bd by auto
  have m: "uint r * 0x01010101 = (?L + 2 ^ 24 * ?S) + 2 ^ 32 * ?H" unfolding r by (simp add: algebra_simps)
  have u: "uint (r * 0x01010101) = (uint r * 0x01010101) mod 2 ^ 32" by (simp add: uint_word_ariths)
  have "(?L + 2 ^ 24 * ?S) mod 2 ^ 32 = ?L + 2 ^ 24 * ?S" using L bd by (intro mod_pos_pos_trivial) auto
  then have "uint (r * 0x01010101) = ?L + 2 ^ 24 * ?S"
    using mod_mult_self2 [of "?L + 2 ^ 24 * ?S" "2 ^ 32" ?H] u unfolding m by (simp only:)
  then have "uint (drop_bit 24 (r * 0x01010101)) = (?L + 2 ^ 24 * ?S) div 2 ^ 24" by (simp only: uint_and_drop)
  also have "\<dots> = ?S" by (rule div_low [OF L])
  finally show "uint (drop_bit 24 (r * 0x01010101)) = sum_list ps" using ps by simp
qed

text \<open>
  C34. \<open>__sw_hweight64\<close> counts: its parallel sums over pairs, nibbles and bytes give the number
  of bits that are set in the word, for all 2^64 words, and so does the variant that adds up
  the bytes with one multiplication.
\<close>

theorem sw_hweight64_counts:
  "unat (sw_hweight64 w) = hamming w \<and> unat (sw_hweight64_mult w) = hamming w"
proof -
  note f = byte_list_facts [of 8 "uint w"]
  have s: "sum_list (byte_list 8 (uint w)) = int (hamming w)"
    using f(3) hamming_weight [of w] by simp
  have "uint (sw_hweight64 w) = int (hamming w)" "uint (sw_hweight64_mult w) = int (hamming w)"
    unfolding sw_hweight64_def sw_hweight64_mult_def Let_def s [symmetric]
    by (rule fold64 [OF f(1,2) steps64])+
  then show ?thesis by (simp add: unat_eq_nat_uint)
qed

text \<open>
  \<open>__sw_hweight32\<close> counts the bits that are set in a 32-bit word, in both variants.
\<close>

theorem sw_hweight32_counts:
  "unat (sw_hweight32 w) = hamming w \<and> unat (sw_hweight32_mult w) = hamming w"
proof -
  note f = byte_list_facts [of 4 "uint w"]
  have s: "sum_list (byte_list 4 (uint w)) = int (hamming w)"
    using f(3) hamming_weight [of w] by simp
  have "uint (sw_hweight32 w) = int (hamming w)" "uint (sw_hweight32_mult w) = int (hamming w)"
    unfolding sw_hweight32_def sw_hweight32_mult_def Let_def s [symmetric]
    by (rule fold32 [OF f(1,2) steps32])+
  then show ?thesis by (simp add: unat_eq_nat_uint)
qed

end
