(* ===== verification/Order_Setup.thy ===== *)
theory Order_Setup
  imports Clock_Convert Hweight
begin

text \<open>
  The other half of \<open>src/order.c\<close>: how large a sample can be, when the kernel wakes the
  program up, and how devices, their forwarding sources and streams enter and leave the
  list of event queues that \<open>order_process\<close> merges.
\<close>

unbundle bit_operations_syntax

section \<open>Attributes\<close>

text \<open>
  \<open>at_wakeup\<close> is the union of \<open>wakeup_events\<close> and \<open>wakeup_watermark\<close>; \<open>at_nr_members\<close> is the
  size of the event's group.
\<close>

record event_attr =
  at_sample :: sample_attr
  at_type :: u32
  at_config :: u64
  at_read_format :: u64
  at_nr_members :: nat
  at_max_stack :: nat
  at_regs_user :: u64
  at_regs_intr :: u64
  at_watermark :: bool
  at_wakeup :: u32
  at_use_clockid :: bool
  at_clockid :: int

abbreviation at_sample_type :: "event_attr \<Rightarrow> u64" where
  "at_sample_type a \<equiv> sample_type (at_sample a)"

text \<open>
  What the program reads from the system: the two limits on call chains, the types of the
  probe pmus, and the fields (offset and size) of a trace event, which the format files give.
\<close>

record sys_info =
  perf_event_max_stack :: nat
  perf_event_max_contexts_per_stack :: nat
  kprobe_type :: u32
  uprobe_type :: u32
  event_fields :: "int \<Rightarrow> (int \<times> int) list option"

section \<open>Sizes\<close>

definition perf_evsel__read_size :: "event_attr \<Rightarrow> nat" where
  "perf_evsel__read_size a =
     (let f = at_read_format a;
          s0 = 0;
          s1 = (if has_flag f 1 then s0 + 8 else s0);
          s2 = (if has_flag f 2 then s1 + 8 else s1);
          entry = (if has_flag f 4 then 8 + 8 else 8);
          (nr, s3) = (if has_flag f 8 then (at_nr_members a, s2 + 8) else (1, s2))
      in s3 + entry * nr)"

abbreviation "KPROBE \<equiv> 65536 :: int"
abbreviation "KRETPROBE \<equiv> 65537 :: int"
abbreviation "UPROBE \<equiv> 65538 :: int"
abbreviation "URETPROBE \<equiv> 65539 :: int"

definition tep__event_size :: "sys_info \<Rightarrow> int \<Rightarrow> int" where
  "tep__event_size sys i =
     (if i = KPROBE \<or> i = UPROBE then 16
      else if i = KRETPROBE \<or> i = URETPROBE then 24
      else case event_fields sys i of
             None \<Rightarrow> - 1
           | Some fs \<Rightarrow> foldl (\<lambda>size (off, sz). if off + sz > size then off + sz else size) (- 1) fs)"

text \<open>The raw size; the second probe test looks at the type the first one may have changed.\<close>

definition raw_size :: "sys_info \<Rightarrow> event_attr \<Rightarrow> int" where
  "raw_size sys a =
     (let ret = (at_config a AND 1 \<noteq> 0); type0 = uint (at_type a) in
      if at_type a = 2 then tep__event_size sys (sint (ucast (at_config a) :: 32 word))
      else if at_type a = kprobe_type sys \<or> at_type a = uprobe_type sys then
        (let type1 = (if type0 = uint (kprobe_type sys) then if ret then KRETPROBE else KPROBE else type0);
             type2 = (if type1 = uint (uprobe_type sys) then if ret then URETPROBE else UPROBE else type1)
         in tep__event_size sys type2)
      else - 1)"

definition round_up8 :: "nat \<Rightarrow> nat" where
  "round_up8 x = 8 * ((x + 7) div 8)"

abbreviation hweight64 :: "u64 \<Rightarrow> nat" where
  "hweight64 w \<equiv> unat (sw_hweight64 w)"

definition perf_sample_max_size :: "sys_info \<Rightarrow> event_attr \<Rightarrow> nat" where
  "perf_sample_max_size sys a =
     (let t = at_sample_type a;
          fixed = (\<lambda>f. if has_flag t f then 8 else 0)
      in fixed PERF_SAMPLE_IDENTIFIER + fixed PERF_SAMPLE_IP + fixed PERF_SAMPLE_TID
         + fixed PERF_SAMPLE_TIME + fixed PERF_SAMPLE_ADDR + fixed PERF_SAMPLE_ID
         + fixed PERF_SAMPLE_STREAM_ID + fixed PERF_SAMPLE_CPU + fixed PERF_SAMPLE_PERIOD
         + (if has_flag t PERF_SAMPLE_READ then perf_evsel__read_size a else 0)
         + (if has_flag t PERF_SAMPLE_CALLCHAIN then
              8 + (if at_max_stack a \<noteq> 0 then 8 * at_max_stack a
                   else 8 * (perf_event_max_stack sys + perf_event_max_contexts_per_stack sys))
            else 0)
         + (if has_flag t PERF_SAMPLE_RAW then
              if raw_size sys a < 0 then 8 else round_up8 (nat (raw_size sys a) + 4)
            else 0)
         + (if has_flag t PERF_SAMPLE_REGS_USER then 8 + hweight64 (at_regs_user a) * 8 else 0)
         + fixed PERF_SAMPLE_WEIGHT + fixed PERF_SAMPLE_DATA_SRC + fixed PERF_SAMPLE_TRANSACTION
         + (if has_flag t PERF_SAMPLE_REGS_INTR then 8 + hweight64 (at_regs_intr a) * 8 else 0)
         + fixed PERF_SAMPLE_PHYS_ADDR)"

text \<open>The product of the number of events and the size is computed in 32 bits.\<close>

definition evsel_watermark :: "sys_info \<Rightarrow> event_attr \<Rightarrow> u64" where
  "evsel_watermark sys a =
     (if at_watermark a then ucast (at_wakeup a)
      else ucast (at_wakeup a * of_nat (perf_sample_max_size sys a)))"

fun perf_sample_watermark :: "sys_info \<Rightarrow> event_attr list \<Rightarrow> u64 \<Rightarrow> u64" where
  "perf_sample_watermark sys [] lo = lo"
| "perf_sample_watermark sys (a # as) lo =
     (if sample_period (at_sample a) = 0 then perf_sample_watermark sys as lo
      else perf_sample_watermark sys as (let w = evsel_watermark sys a in if w < lo then w else lo))"

section \<open>Wake-ups\<close>

record wake_env =
  we_watermark :: int
  we_watermark_set :: bool
  we_monotonic :: bool

text \<open>The products are those of \<open>u32\<close> and \<open>int\<close>: 32 bits, unsigned.\<close>

definition pages_watermark :: "nat \<Rightarrow> int \<Rightarrow> u32" where
  "pages_watermark pages pct = (push_bit 12 (of_nat pages) * of_int pct) div 100"

definition reduce_wakeup_times :: "nat \<Rightarrow> bool \<Rightarrow> wake_env \<Rightarrow> event_attr \<Rightarrow> event_attr" where
  "reduce_wakeup_times pages has_parent env a =
     (if pages = 0 then a
      else if sample_period (at_sample a) = 0 then a
      else
        let (watermark, wakeup_watermark, wakeup_events) =
          (if we_watermark_set env then (we_watermark env, 0, 0)
           else if \<not> at_watermark a then
             if has_parent then (50, 0, 0) else (0, 0, at_wakeup a)
           else (50, at_wakeup a, 0))
        in if watermark = 0
           then a\<lparr>at_watermark := False, at_wakeup := (if wakeup_events \<noteq> 0 then wakeup_events else 1)\<rparr>
           else a\<lparr>at_watermark := True,
                  at_wakeup := (if wakeup_watermark = 0 then pages_watermark pages watermark else wakeup_watermark)\<rparr>)"

definition prof_dev_env2attr :: "nat \<Rightarrow> bool \<Rightarrow> wake_env \<Rightarrow> event_attr \<Rightarrow> event_attr" where
  "prof_dev_env2attr pages has_parent env a =
     (let a1 = reduce_wakeup_times pages has_parent env a
      in if we_monotonic env then a1\<lparr>at_use_clockid := True, at_clockid := 1\<rparr> else a1)"

section \<open>Devices and their event queues\<close>

text \<open>
  An entry of \<open>heap_event_list\<close>: the ring \<open>idx\<close> of a device, or a stream registered for a
  device.
\<close>

datatype queue = Ring nat nat | Strm nat nat

text \<open>
  A device with its \<open>order_ctx\<close>: \<open>od_evlist\<close> its events, \<open>od_rings\<close> how many rings they are
  mapped to, \<open>od_data\<close> the size of the heap array when there is one, \<open>od_permap\<close> that the
  array of ring entries exists.
\<close>

record setup_dev =
  sd_parent :: "nat option"
  sd_evlist :: "event_attr list"
  sd_rings :: nat
  sd_pos :: sample_pos
  sd_last_evtime :: u64
  sd_convert :: convert_ctx
  so_enabled :: bool
  so_heap_size :: nat
  so_nr_mmaps :: nat
  so_nr_streams :: nat
  so_data :: "nat option"
  so_permap :: bool
  so_popped_time :: u64
  so_watermark :: u64
  so_list :: "queue list"

type_synonym odevs = "nat \<Rightarrow> setup_dev"

text \<open>
  What the system answers: whether an allocation of so many entries succeeds, and what
  reading the conversion parameters of the first ring sees.
\<close>

record setup_sys =
  ss_info :: sys_info
  ss_data_ok :: "nat \<Rightarrow> bool"
  ss_permap_ok :: "nat \<Rightarrow> bool"
  ss_stream_ok :: bool
  ss_clocksource_tsc :: bool
  ss_ring0 :: page_reads

definition upd :: "nat \<Rightarrow> (setup_dev \<Rightarrow> setup_dev) \<Rightarrow> odevs \<Rightarrow> odevs" where
  "upd d f S = S(d := f (S d))"

text \<open>Devices are numbered in the order they are opened: a parent comes before its children.\<close>

function order_main_dev :: "odevs \<Rightarrow> nat \<Rightarrow> nat" where
  "order_main_dev S d =
     (case sd_parent (S d) of
        None \<Rightarrow> d
      | Some p \<Rightarrow> if p < d \<and> so_enabled (S p) then order_main_dev S p else d)"
  by pat_completeness auto
termination by (relation "measure snd") auto

declare order_main_dev.simps [simp del]

text \<open>
  \<open>order_deinit\<close>. An entry is taken off the list it is on, which is that of another device
  when it was spliced there. Without the array of ring entries the first loop goes through
  a null pointer: None.
\<close>

definition order_deinit :: "nat \<Rightarrow> odevs \<Rightarrow> odevs option" where
  "order_deinit d S =
     (if \<not> so_permap (S d) \<and> 0 < so_nr_mmaps (S d) then None
      else
        let S1 = (\<lambda>e. (S e)\<lparr>so_list := filter (\<lambda>q. q \<notin> set (map (Ring d) [0..<so_nr_mmaps (S d)])) (so_list (S e))\<rparr>)
        in Some (upd d (\<lambda>x. x\<lparr>so_list := [], so_data := None, so_permap := False\<rparr>) S1))"

text \<open>A device and the devices that forward their events to it.\<close>

datatype src_tree = Src nat "src_tree list"

fun root_of :: "src_tree \<Rightarrow> nat" where
  "root_of (Src d ts) = d"

text \<open>The list entries of the rings of a device, in the order of the rings.\<close>

definition own_rings :: "nat \<Rightarrow> odevs \<Rightarrow> queue list" where
  "own_rings d S = map (Ring d) [0..<sd_rings (S d)]"

text \<open>\<open>list_splice_tail_init\<close> of each source in turn.\<close>

definition splice :: "nat \<Rightarrow> nat \<Rightarrow> odevs \<Rightarrow> odevs" where
  "splice d s S =
     (let S1 = upd d (\<lambda>x. x\<lparr>so_list := so_list x @ so_list (S s)\<rparr>) S
      in upd s (\<lambda>x. x\<lparr>so_list := []\<rparr>) S1)"

text \<open>The part of \<open>order_init\<close> after the sources were initialised.\<close>

definition order_fill :: "setup_sys \<Rightarrow> nat \<Rightarrow> nat list \<Rightarrow> nat \<Rightarrow> odevs \<Rightarrow> (int \<times> odevs) option" where
  "order_fill sys d srcs from_srcs S =
     (let nr = sd_rings (S d);
          size = from_srcs + nr + so_nr_streams (S d);
          S1 = upd d (\<lambda>x. x\<lparr>so_heap_size := size\<rparr>) S
      in if \<not> ss_data_ok sys size then Some (- 1, upd d (\<lambda>x. x\<lparr>so_data := None\<rparr>) S1)
         else
           let S2 = upd d (\<lambda>x. x\<lparr>so_data := Some size, so_nr_mmaps := nr, so_popped_time := 0,
                                 so_watermark := perf_sample_watermark (ss_info sys) (sd_evlist x) (- 1),
                                 so_permap := ss_permap_ok sys nr\<rparr>) S1
           in if \<not> ss_permap_ok sys nr then map_option (\<lambda>S3. (- 1, S3)) (order_deinit d S2)
              else
                let S3 = upd d (\<lambda>x. x\<lparr>sd_convert := (if 0 < nr
                           then perf_event_convert_read_tsc_conversion (ss_clocksource_tsc sys) (ss_ring0 sys) (sd_convert x)
                           else sd_convert x), so_list := so_list x @ own_rings d S2\<rparr>) S2;
                    S4 = foldl (\<lambda>S s. splice d s S) S3 srcs
                in Some (0, upd d (\<lambda>x. x\<lparr>so_enabled := True\<rparr>) S4))"

fun order_init :: "setup_sys \<Rightarrow> src_tree \<Rightarrow> odevs \<Rightarrow> (int \<times> odevs) option"
  and init_sources :: "setup_sys \<Rightarrow> src_tree list \<Rightarrow> nat \<Rightarrow> odevs \<Rightarrow> (nat \<times> odevs) option" where
  "order_init sys (Src d ts) S =
     (if so_enabled (S d) then Some (0, S)
      else let evs = map at_sample (sd_evlist (S d)) in
        case perf_sample_pos_init evs of
          None \<Rightarrow> Some (- 1, S)
        | Some pos \<Rightarrow>
            let S0 = upd d (\<lambda>x. x\<lparr>sd_pos := pos\<rparr>) S in
            case perf_sample_time_init evs of
              None \<Rightarrow> Some (- 1, S0)
            | Some (_, last_evtime) \<Rightarrow>
                let S1 = upd d (\<lambda>x. x\<lparr>sd_last_evtime := last_evtime\<rparr>) S0 in
                if \<not> has_flag (pos_type pos) PERF_SAMPLE_TIME then Some (- 1, S1)
                else case init_sources sys ts 0 S1 of
                  None \<Rightarrow> None
                | Some (n, S2) \<Rightarrow> order_fill sys d (map root_of ts) n S2)"
| "init_sources sys [] n S = Some (n, S)"
| "init_sources sys (t # ts) n S =
     (case order_init sys t S of
        None \<Rightarrow> None
      | Some (r, S1) \<Rightarrow> init_sources sys ts (n + so_nr_mmaps (S1 (root_of t))) S1)"

section \<open>Streams\<close>

text \<open>The first queue of a stream is put in front of the list; the heap array is replaced.\<close>

definition order_register :: "setup_sys \<Rightarrow> nat \<Rightarrow> nat \<Rightarrow> odevs \<Rightarrow> int \<times> odevs" where
  "order_register sys d stream S =
     (let m = order_main_dev S d in
      if \<not> ss_stream_ok sys then (- 1, S)
      else if so_enabled (S m) \<and> \<not> ss_data_ok sys (so_heap_size (S m) + 1) then (- 1, S)
      else
        let S1 = (if so_enabled (S m)
                  then upd m (\<lambda>x. x\<lparr>so_heap_size := so_heap_size x + 1, so_data := Some (so_heap_size x + 1)\<rparr>) S
                  else S)
        in (0, upd m (\<lambda>x. x\<lparr>so_nr_streams := so_nr_streams x + 1, so_list := Strm d stream # so_list x\<rparr>) S1))"

fun is_stream :: "nat \<Rightarrow> queue \<Rightarrow> bool" where
  "is_stream k (Strm d i) = (i = k)"
| "is_stream k (Ring d i) = False"

fun drop_first :: "('a \<Rightarrow> bool) \<Rightarrow> 'a list \<Rightarrow> 'a list option" where
  "drop_first P [] = None"
| "drop_first P (x # xs) = (if P x then Some xs else map_option ((#) x) (drop_first P xs))"

definition order_unregister :: "nat \<Rightarrow> nat \<Rightarrow> odevs \<Rightarrow> odevs" where
  "order_unregister d stream S =
     (let m = order_main_dev S d in
      case drop_first (is_stream stream) (so_list (S m)) of
        None \<Rightarrow> S
      | Some qs \<Rightarrow> upd m (\<lambda>x. x\<lparr>so_list := qs, so_nr_streams := so_nr_streams x - 1\<rparr>) S)"

section \<open>Gathering the queues\<close>

lemma upd_simps [simp]: "upd d f S d = f (S d)" "e \<noteq> d \<Longrightarrow> upd d f S e = S e"
  by (simp_all add: upd_def)

lemma splices:
  "d \<notin> set srcs \<Longrightarrow> distinct srcs \<Longrightarrow>
   foldl (\<lambda>S s. splice d s S) S srcs =
     (\<lambda>e. if e = d then (S d)\<lparr>so_list := so_list (S d) @ concat (map (\<lambda>s. so_list (S s)) srcs)\<rparr>
          else if e \<in> set srcs then (S e)\<lparr>so_list := []\<rparr> else S e)"
proof (induction srcs arbitrary: S)
  case (Cons s srcs)
  have m: "map (\<lambda>r. so_list (splice d s S r)) srcs = map (\<lambda>r. so_list (S r)) srcs"
    using Cons.prems by (auto simp: splice_def upd_def)
  show ?case
    unfolding foldl_Cons using Cons.prems by (subst Cons.IH) (auto simp: fun_eq_iff m, auto simp: splice_def upd_def)
qed auto

text \<open>Everything the allocations can refuse is granted.\<close>

definition grants :: "setup_sys \<Rightarrow> bool" where
  "grants sys \<longleftrightarrow> (\<forall>n. ss_data_ok sys n) \<and> (\<forall>n. ss_permap_ok sys n)"

lemma order_fill_ok:
  assumes "grants sys" "d \<notin> set srcs" "distinct srcs"
  shows "\<exists>S'. order_fill sys d srcs n S = Some (0, S') \<and>
    so_list (S' d) = so_list (S d) @ own_rings d S @ concat (map (\<lambda>s. so_list (S s)) srcs) \<and>
    so_enabled (S' d) \<and> so_nr_mmaps (S' d) = sd_rings (S d) \<and> sd_rings (S' d) = sd_rings (S d) \<and>
    so_heap_size (S' d) = n + sd_rings (S d) + so_nr_streams (S d) \<and>
    (\<forall>e\<in>set srcs. S' e = (S e)\<lparr>so_list := []\<rparr>) \<and> (\<forall>e. e \<noteq> d \<longrightarrow> e \<notin> set srcs \<longrightarrow> S' e = S e)"
proof -
  have g: "ss_data_ok sys k" "ss_permap_ok sys k" for k using assms(1) by (simp_all add: grants_def)
  have ne: "e \<in> set srcs \<Longrightarrow> e \<noteq> d" for e using assms(2) by auto
  have m: "map (\<lambda>s. so_list (upd d f T s)) srcs = map (\<lambda>s. so_list (T s)) srcs" for f and T :: odevs
    using assms(2) by (auto simp: upd_def)
  have o: "own_rings d (upd d f T) = map (Ring d) [0..<sd_rings (f (T d))]" for f and T :: odevs
    by (simp add: own_rings_def)
  show ?thesis
    unfolding order_fill_def Let_def splices [OF assms(2,3)]
    using assms(2) by (auto simp: g m o own_rings_def ne)
qed

fun nodes :: "src_tree \<Rightarrow> nat list" where
  "nodes (Src d ts) = d # concat (map nodes ts)"

text \<open>The queues of a tree: those on the list of the device, its rings, then its sources.\<close>

fun gathered :: "odevs \<Rightarrow> src_tree \<Rightarrow> queue list" where
  "gathered S (Src d ts) = so_list (S d) @ own_rings d S @ concat (map (gathered S) ts)"

text \<open>A device that can be ordered: its samples carry the time, and it is not enabled yet.\<close>

definition orderable :: "setup_dev \<Rightarrow> bool" where
  "orderable x \<longleftrightarrow> \<not> so_enabled x \<and>
     (case perf_sample_pos_init (map at_sample (sd_evlist x)) of
        None \<Rightarrow> False | Some pos \<Rightarrow> has_flag (pos_type pos) PERF_SAMPLE_TIME)"

lemma order_init_step:
  assumes "orderable (S d)"
  shows "\<exists>pos l. order_init sys (Src d ts) S =
    (case init_sources sys ts 0 (upd d (\<lambda>x. x\<lparr>sd_last_evtime := l\<rparr>) (upd d (\<lambda>x. x\<lparr>sd_pos := pos\<rparr>) S)) of
       None \<Rightarrow> None | Some (n, S2) \<Rightarrow> order_fill sys d (map root_of ts) n S2)"
proof -
  obtain pos where "perf_sample_pos_init (map at_sample (sd_evlist (S d))) = Some pos"
      "has_flag (pos_type pos) PERF_SAMPLE_TIME" "\<not> so_enabled (S d)"
    using assms by (auto simp: orderable_def split: option.splits)
  then show ?thesis
    by (intro exI [of _ pos] exI [of _ "- 1"]) (simp add: perf_sample_time_init_def Let_def)
qed

lemma gathered_cong: "(\<And>e. e \<in> set (nodes t) \<Longrightarrow> so_list (S e) = so_list (T e) \<and> sd_rings (S e) = sd_rings (T e)) \<Longrightarrow>
    gathered S t = gathered T t"
proof (induction t)
  case (Src d ts)
  have "gathered S t = gathered T t" if "t \<in> set ts" for t using that Src.prems by (intro Src.IH) auto
  then have "concat (map (gathered S) ts) = concat (map (gathered T) ts)" by (metis map_eq_conv)
  then show ?case using Src.prems [of d] by (simp add: own_rings_def)
qed

lemma root_in_nodes: "root_of t \<in> set (nodes t)"
  by (cases t) simp

lemma distinct_roots: "distinct (concat (map nodes ts)) \<Longrightarrow> distinct (map root_of ts)"
proof (induction ts)
  case (Cons t ts)
  have "root_of t \<noteq> root_of u" if "u \<in> set ts" for u
    using Cons.prems that root_in_nodes [of t] root_in_nodes [of u] by auto
  then show ?case using Cons by auto
qed simp

definition inits :: "setup_sys \<Rightarrow> src_tree \<Rightarrow> bool" where
  "inits sys t \<longleftrightarrow> (\<forall>S. (\<forall>e\<in>set (nodes t). orderable (S e)) \<longrightarrow>
     (\<exists>S'. order_init sys t S = Some (0, S') \<and> so_list (S' (root_of t)) = gathered S t \<and>
       (\<forall>e\<in>set (nodes t) - {root_of t}. so_list (S' e) = []) \<and>
       (\<forall>e\<in>set (nodes t). so_enabled (S' e) \<and> so_nr_mmaps (S' e) = sd_rings (S e) \<and> sd_rings (S' e) = sd_rings (S e)) \<and>
       (\<forall>e. e \<notin> set (nodes t) \<longrightarrow> S' e = S e)))"

lemma init_sources_ok:
  assumes "\<forall>t\<in>set ts. inits sys t" "distinct (concat (map nodes ts))" "\<forall>e\<in>set (concat (map nodes ts)). orderable (S e)"
  shows "\<exists>S'. init_sources sys ts n S = Some (n + sum_list (map (\<lambda>t. sd_rings (S (root_of t))) ts), S') \<and>
    (\<forall>t\<in>set ts. so_list (S' (root_of t)) = gathered S t \<and> (\<forall>e\<in>set (nodes t) - {root_of t}. so_list (S' e) = [])) \<and>
    (\<forall>e\<in>set (concat (map nodes ts)). so_enabled (S' e) \<and> so_nr_mmaps (S' e) = sd_rings (S e) \<and> sd_rings (S' e) = sd_rings (S e)) \<and>
    (\<forall>e. e \<notin> set (concat (map nodes ts)) \<longrightarrow> S' e = S e)"
  using assms
proof (induction ts arbitrary: n S)
  case (Cons t ts)
  have t: "inits sys t" using Cons.prems(1) by simp
  have "\<forall>e\<in>set (nodes t). orderable (S e)" using Cons.prems(3) by simp
  then obtain S1 where 1: "order_init sys t S = Some (0, S1)" "so_list (S1 (root_of t)) = gathered S t"
      "\<forall>e\<in>set (nodes t) - {root_of t}. so_list (S1 e) = []"
      "\<forall>e\<in>set (nodes t). so_enabled (S1 e) \<and> so_nr_mmaps (S1 e) = sd_rings (S e) \<and> sd_rings (S1 e) = sd_rings (S e)"
      "\<forall>e. e \<notin> set (nodes t) \<longrightarrow> S1 e = S e"
    using t unfolding inits_def by blast
  have dj: "set (nodes t) \<inter> set (concat (map nodes ts)) = {}" using Cons.prems(2) by auto
  have same: "S1 e = S e" if "e \<in> set (nodes u)" "u \<in> set ts" for e u using that dj 1(5) by fastforce
  have "\<forall>e\<in>set (concat (map nodes ts)). orderable (S1 e)" using Cons.prems(3) same by auto
  then obtain S2 where 2: "init_sources sys ts (n + sd_rings (S (root_of t))) S1 =
        Some (n + sd_rings (S (root_of t)) + sum_list (map (\<lambda>t. sd_rings (S1 (root_of t))) ts), S2)"
      "\<forall>t\<in>set ts. so_list (S2 (root_of t)) = gathered S1 t \<and> (\<forall>e\<in>set (nodes t) - {root_of t}. so_list (S2 e) = [])"
      "\<forall>e\<in>set (concat (map nodes ts)). so_enabled (S2 e) \<and> so_nr_mmaps (S2 e) = sd_rings (S1 e) \<and> sd_rings (S2 e) = sd_rings (S1 e)"
      "\<forall>e. e \<notin> set (concat (map nodes ts)) \<longrightarrow> S2 e = S1 e"
    using Cons.IH [of S1 "n + sd_rings (S (root_of t))"] Cons.prems(1,2) by auto
  have g: "gathered S1 u = gathered S u" if "u \<in> set ts" for u using same that by (intro gathered_cong) auto
  have m: "map (\<lambda>t. sd_rings (S1 (root_of t))) ts = map (\<lambda>t. sd_rings (S (root_of t))) ts"
    using same [OF root_in_nodes] by simp
  have r: "so_nr_mmaps (S1 (root_of t)) = sd_rings (S (root_of t))" using 1(4) root_in_nodes by blast
  have k: "S2 e = S1 e" if "e \<in> set (nodes t)" for e using that dj 2(4) by blast
  have i: "init_sources sys (t # ts) n S = Some (n + sum_list (map (\<lambda>t. sd_rings (S (root_of t))) (t # ts)), S2)"
    using 1(1) 2(1) by (simp add: r m add.assoc)
  have q: "so_list (S2 (root_of u)) = gathered S u \<and> (\<forall>e\<in>set (nodes u) - {root_of u}. so_list (S2 e) = [])"
    if "u \<in> set (t # ts)" for u
    using that 1(2,3) 2(2) g k root_in_nodes [of t] by (cases "u = t") auto
  have f: "so_enabled (S2 e) \<and> so_nr_mmaps (S2 e) = sd_rings (S e) \<and> sd_rings (S2 e) = sd_rings (S e)"
    if "e \<in> set (concat (map nodes (t # ts)))" for e
  proof (cases "e \<in> set (nodes t)")
    case True
    then show ?thesis using 1(4) k by simp
  next
    case False
    then have "e \<in> set (concat (map nodes ts))" using that by simp
    moreover have "S1 e = S e" using 1(5) False by simp
    ultimately show ?thesis using 2(3) by metis
  qed
  have o: "S2 e = S e" if "e \<notin> set (concat (map nodes (t # ts)))" for e
    using that 1(5) 2(4) by simp
  show ?case using i q f o by blast
qed auto

lemma init_ok:
  assumes "grants sys" "distinct (nodes t)"
  shows "inits sys t"
  using assms(2)
proof (induction t)
  case (Src d ts)
  have sub: "inits sys t" if "t \<in> set ts" for t
    using that Src by (intro Src.IH) (auto simp: distinct_concat_iff)
  have dist: "distinct (concat (map nodes ts))" "d \<notin> set (concat (map nodes ts))" using Src.prems by auto
  have roots: "distinct (map root_of ts)" "d \<notin> set (map root_of ts)"
  proof -
    show "d \<notin> set (map root_of ts)" using dist(2) root_in_nodes by auto
    show "distinct (map root_of ts)" by (rule distinct_roots [OF dist(1)])
  qed
  show ?case unfolding inits_def
  proof (intro allI impI)
    fix S :: odevs assume o: "\<forall>e\<in>set (nodes (Src d ts)). orderable (S e)"
    obtain pos l where st: "order_init sys (Src d ts) S =
      (case init_sources sys ts 0 (upd d (\<lambda>x. x\<lparr>sd_last_evtime := l\<rparr>) (upd d (\<lambda>x. x\<lparr>sd_pos := pos\<rparr>) S)) of
         None \<Rightarrow> None | Some (n, S2) \<Rightarrow> order_fill sys d (map root_of ts) n S2)"
      using order_init_step [of S d sys ts] o by auto
    define T where "T = upd d (\<lambda>x. x\<lparr>sd_last_evtime := l\<rparr>) (upd d (\<lambda>x. x\<lparr>sd_pos := pos\<rparr>) S)"
    have T: "T e = S e" if "e \<noteq> d" for e using that by (simp add: T_def)
    have Td: "so_list (T d) = so_list (S d)" "sd_rings (T d) = sd_rings (S d)" by (simp_all add: T_def)
    have ne: "e \<noteq> d" if "e \<in> set (concat (map nodes ts))" for e using that dist(2) by auto
    have "\<forall>e\<in>set (concat (map nodes ts)). orderable (T e)" using o T ne by auto
    from init_sources_ok [OF _ dist(1) this, of sys 0] sub obtain n S2 where
      2: "init_sources sys ts 0 T = Some (n, S2)"
        "\<forall>t\<in>set ts. so_list (S2 (root_of t)) = gathered T t \<and> (\<forall>e\<in>set (nodes t) - {root_of t}. so_list (S2 e) = [])"
        "\<forall>e\<in>set (concat (map nodes ts)). so_enabled (S2 e) \<and> so_nr_mmaps (S2 e) = sd_rings (T e) \<and> sd_rings (S2 e) = sd_rings (T e)"
        "\<forall>e. e \<notin> set (concat (map nodes ts)) \<longrightarrow> S2 e = T e" by blast
    obtain S3 where 3: "order_fill sys d (map root_of ts) n S2 = Some (0, S3)"
        "so_list (S3 d) = so_list (S2 d) @ own_rings d S2 @ concat (map (\<lambda>s. so_list (S2 s)) (map root_of ts))"
        "so_enabled (S3 d)" "so_nr_mmaps (S3 d) = sd_rings (S2 d)"
        "\<forall>e\<in>set (map root_of ts). S3 e = (S2 e)\<lparr>so_list := []\<rparr>"
        "\<forall>e. e \<noteq> d \<longrightarrow> e \<notin> set (map root_of ts) \<longrightarrow> S3 e = S2 e" "sd_rings (S3 d) = sd_rings (S2 d)"
      using order_fill_ok [OF assms(1) roots(2,1), of n S2] by blast
    have S2d: "S2 d = T d" using 2(4) dist(2) by blast
    have g: "gathered T t = gathered S t" if "t \<in> set ts" for t
    proof (rule gathered_cong)
      fix e assume "e \<in> set (nodes t)"
      then have "T e = S e" using that ne T by auto
      then show "so_list (T e) = so_list (S e) \<and> sd_rings (T e) = sd_rings (S e)" by simp
    qed
    have "concat (map (\<lambda>s. so_list (S2 s)) (map root_of ts)) = concat (map (gathered S) ts)"
      using 2(2) g by (simp add: comp_def cong: map_cong)
    then have l: "so_list (S3 d) = gathered S (Src d ts)" using 3(2) S2d Td by (simp add: own_rings_def)
    have r: "sd_rings (S3 e) = sd_rings (S2 e) \<and> so_enabled (S3 e) = so_enabled (S2 e) \<and> so_nr_mmaps (S3 e) = so_nr_mmaps (S2 e)"
      if "e \<noteq> d" for e using 3(5,6) that by (cases "e \<in> set (map root_of ts)") auto
    show "\<exists>S'. order_init sys (Src d ts) S = Some (0, S') \<and> so_list (S' (root_of (Src d ts))) = gathered S (Src d ts) \<and>
       (\<forall>e\<in>set (nodes (Src d ts)) - {root_of (Src d ts)}. so_list (S' e) = []) \<and>
       (\<forall>e\<in>set (nodes (Src d ts)). so_enabled (S' e) \<and> so_nr_mmaps (S' e) = sd_rings (S e) \<and> sd_rings (S' e) = sd_rings (S e)) \<and>
       (\<forall>e. e \<notin> set (nodes (Src d ts)) \<longrightarrow> S' e = S e)"
    proof (intro exI [of _ S3] conjI ballI allI impI)
      show "order_init sys (Src d ts) S = Some (0, S3)" using st 2(1) 3(1) by (simp add: T_def)
      show "so_list (S3 (root_of (Src d ts))) = gathered S (Src d ts)" using l by simp
      fix e
      show "so_list (S3 e) = []" if e: "e \<in> set (nodes (Src d ts)) - {root_of (Src d ts)}"
      proof -
        obtain t where t: "t \<in> set ts" "e \<in> set (nodes t)" "e \<noteq> d" using e by auto
        show ?thesis
        proof (cases "e \<in> set (map root_of ts)")
          case False
          then have "e \<noteq> root_of t" using t by auto
          then show ?thesis using False t 2(2) 3(6) by auto
        qed (use 3(5) in auto)
      qed
      show "S3 e = S e" if "e \<notin> set (nodes (Src d ts))"
      proof -
        have "e \<noteq> d" "e \<notin> set (concat (map nodes ts))" "e \<notin> set (map root_of ts)"
          using that root_in_nodes by auto
        then show ?thesis using 2(4) 3(6) T by simp
      qed
      show "so_enabled (S3 e)" "so_nr_mmaps (S3 e) = sd_rings (S e)" "sd_rings (S3 e) = sd_rings (S e)"
        if e: "e \<in> set (nodes (Src d ts))"
      proof -
        consider "e = d" | "e \<noteq> d" "e \<in> set (concat (map nodes ts))" using e by auto
        then have "so_enabled (S3 e) \<and> so_nr_mmaps (S3 e) = sd_rings (S e) \<and> sd_rings (S3 e) = sd_rings (S e)"
        proof cases
          case 1
          then show ?thesis using 3(3,4,7) S2d Td by simp
        next
          case 2
          then show ?thesis using r [of e] T [of e] \<open>\<forall>e\<in>set (concat (map nodes ts)). so_enabled (S2 e) \<and> so_nr_mmaps (S2 e) = sd_rings (T e) \<and> sd_rings (S2 e) = sd_rings (T e)\<close> by auto
        qed
        then show "so_enabled (S3 e)" "so_nr_mmaps (S3 e) = sd_rings (S e)" "sd_rings (S3 e) = sd_rings (S e)" by simp_all
      qed
    qed
  qed
qed

text \<open>
  \<open>order_init\<close> gathers the queues of a device and of everything that forwards to it, to
  any depth. When the samples of all these devices carry the time and memory lasts, it
  succeeds; the list of the device then holds the queues it had, its own rings in their
  order and those of its sources, the lists of the sources are empty, every device of the
  tree is enabled and no other device has changed.
\<close>

theorem order_init_gathers:
  assumes "grants sys" "distinct (nodes t)" "\<forall>e\<in>set (nodes t). orderable (S e)"
  shows "\<exists>S'. order_init sys t S = Some (0, S') \<and> so_list (S' (root_of t)) = gathered S t \<and>
    (\<forall>e\<in>set (nodes t) - {root_of t}. so_list (S' e) = []) \<and>
    (\<forall>e\<in>set (nodes t). so_enabled (S' e)) \<and> (\<forall>e. e \<notin> set (nodes t) \<longrightarrow> S' e = S e)"
  using init_ok [OF assms(1,2)] assms(3) unfolding inits_def by blast

definition ex_sys :: setup_sys where
  "ex_sys = \<lparr>ss_info = \<lparr>perf_event_max_stack = 127, perf_event_max_contexts_per_stack = 8, kprobe_type = 6,
       uprobe_type = 7, event_fields = (\<lambda>i. None)\<rparr>,
     ss_data_ok = (\<lambda>n. True), ss_permap_ok = (\<lambda>n. True), ss_stream_ok = True, ss_clocksource_tsc = True,
     ss_ring0 = ex_reads\<rparr>"

definition ex_event :: event_attr where
  "ex_event = \<lparr>at_sample = ex_attr, at_type = 2, at_config = 0, at_read_format = 0, at_nr_members = 0,
     at_max_stack = 0, at_regs_user = 0, at_regs_intr = 0, at_watermark = False, at_wakeup = 1,
     at_use_clockid = False, at_clockid = 0\<rparr>"

definition ex_dev :: "nat \<Rightarrow> setup_dev" where
  "ex_dev n = \<lparr>sd_parent = None, sd_evlist = [ex_event], sd_rings = n,
     sd_pos = \<lparr>pos_type = 0, tid_pos = - 1, time_pos = - 1, id_pos = - 1, cpu_pos = - 1\<rparr>, sd_last_evtime = 0,
     sd_convert = ex_conv, so_enabled = False, so_heap_size = 0, so_nr_mmaps = 0, so_nr_streams = 0,
     so_data = None, so_permap = False, so_popped_time = 0, so_watermark = 0, so_list = []\<rparr>"

lemma ex_orderable: "orderable (ex_dev n)"
proof -
  have "perf_sample_pos_init [ex_attr] =
      Some \<lparr>pos_type = 134, tid_pos = 0, time_pos = 8, id_pos = -1, cpu_pos = 16\<rparr>" by code_simp
  then show ?thesis by (simp add: orderable_def ex_dev_def ex_event_def)
qed

text \<open>
  C33. A failure that ends in a crash: when the array of ring entries cannot be allocated,
  \<open>order_init\<close> goes to its failure path with \<open>nr_mmaps\<close> already set, and \<open>order_deinit\<close> unlinks
  that many entries of an array that does not exist.
\<close>

theorem order_init_failure_crashes:
  assumes "orderable (S d)" "0 < sd_rings (S d)" "\<forall>n. ss_data_ok sys n" "\<not> ss_permap_ok sys (sd_rings (S d))"
  shows "order_init sys (Src d []) S = None"
proof -
  obtain pos l where "order_init sys (Src d []) S =
      order_fill sys d [] 0 (upd d (\<lambda>x. x\<lparr>sd_last_evtime := l\<rparr>) (upd d (\<lambda>x. x\<lparr>sd_pos := pos\<rparr>) S))"
    using order_init_step [of S d sys "[]"] assms(1) by auto
  then show ?thesis using assms(2-4) by (simp add: order_fill_def Let_def order_deinit_def)
qed

theorem order_init_failure_crashes_witness:
  "order_init (ex_sys\<lparr>ss_permap_ok := \<lambda>n. False\<rparr>) (Src 0 []) (\<lambda>d. ex_dev 1) = None"
  by (rule order_init_failure_crashes [of "\<lambda>d. ex_dev 1" 0])
    (simp_all add: ex_orderable, simp_all add: ex_dev_def ex_sys_def)

section \<open>Registering and unregistering\<close>

lemma order_main_dev_cong:
  "(\<And>e. sd_parent (S e) = sd_parent (T e) \<and> so_enabled (S e) = so_enabled (T e)) \<Longrightarrow> order_main_dev S d = order_main_dev T d"
proof (induction S d rule: order_main_dev.induct)
  case (1 S d)
  show ?case
    unfolding order_main_dev.simps [of S d] order_main_dev.simps [of T d]
    using 1 by (auto split: option.split)
qed

text \<open>
  C32. A stream that is registered and unregistered again leaves every list of queues and
  every count of streams as it was; when the main device is enabled its heap keeps the room
  it gained. Registering puts the new queue in front, so that it is found first although the
  same stream may have been registered before.
\<close>

theorem register_unregister:
  assumes "order_register sys d k S = (0, S1)"
  shows "(let m = order_main_dev S d; S2 = order_unregister d k S1 in
    so_list (S1 m) = Strm d k # so_list (S m) \<and> so_nr_streams (S1 m) = so_nr_streams (S m) + 1 \<and>
    (\<forall>e. so_list (S2 e) = so_list (S e) \<and> so_nr_streams (S2 e) = so_nr_streams (S e) \<and>
         so_heap_size (S2 e) = so_heap_size (S e) + (if e = m \<and> so_enabled (S m) then 1 else 0)))"
proof -
  define m where "m = order_main_dev S d"
  define S0 where "S0 = (if so_enabled (S m)
    then upd m (\<lambda>x. x\<lparr>so_heap_size := so_heap_size x + 1, so_data := Some (so_heap_size x + 1)\<rparr>) S else S)"
  have 1: "S1 = upd m (\<lambda>x. x\<lparr>so_nr_streams := so_nr_streams x + 1, so_list := Strm d k # so_list x\<rparr>) S0"
    using assms by (auto simp: order_register_def Let_def m_def S0_def split: if_splits)
  have e: "sd_parent (S1 e) = sd_parent (S e) \<and> so_enabled (S1 e) = so_enabled (S e)" for e
    by (simp add: 1 S0_def upd_def)
  have m1: "order_main_dev S1 d = m" unfolding m_def by (rule order_main_dev_cong) (rule e)
  have l: "so_list (S0 e) = so_list (S e) \<and> so_nr_streams (S0 e) = so_nr_streams (S e) \<and>
      so_heap_size (S0 e) = so_heap_size (S e) + (if e = m \<and> so_enabled (S m) then 1 else 0)" for e
    by (simp add: S0_def upd_def)
  have 2: "order_unregister d k S1 = upd m (\<lambda>x. x\<lparr>so_list := so_list (S m), so_nr_streams := so_nr_streams x - 1\<rparr>) S1"
    unfolding order_unregister_def m1 Let_def using l [of m] by (simp add: 1)
  show ?thesis unfolding m_def [symmetric] Let_def 2 using l by (simp add: 1 upd_def)
qed

theorem register_unregister_witness:
  "\<exists>S1. order_register ex_sys 0 9 (\<lambda>d. ex_dev 1) = (0, S1) \<and> so_list (order_unregister 0 9 S1 0) = []"
proof -
  obtain S1 where "order_register ex_sys 0 9 (\<lambda>d. ex_dev 1) = (0, S1)"
    by (auto simp: order_register_def ex_sys_def Let_def ex_dev_def)
  then show ?thesis using register_unregister [of ex_sys 0 9 "\<lambda>d. ex_dev 1" S1] by (auto simp: ex_dev_def Let_def)
qed

section \<open>Sizes and wake-ups\<close>

lemma filter_words: "8 * length (filter P xs) = sum_list (map (\<lambda>g. if P g then 8 else 0) xs)"
  by (induction xs) simp_all

lemma read_size_dvd: "8 dvd perf_evsel__read_size a"
  by (simp add: perf_evsel__read_size_def Let_def)

text \<open>
  The size that a sample can have is a whole number of words and covers the fixed
  fields: wherever the kernel puts one of the fields the program looks up by position (the
  time, the thread, the id, the cpu), the field ends within that size.
\<close>

theorem sample_size_covers_fields:
  assumes "f \<in> set sample_layout" "has_flag (at_sample_type a) f"
  shows "8 dvd perf_sample_max_size sys a \<and>
    pos_of (at_sample_type a) f + 8 \<le> int (perf_sample_max_size sys a)"
proof
  show "8 dvd perf_sample_max_size sys a"
    using read_size_dvd [of a] by (simp add: perf_sample_max_size_def Let_def round_up8_def)
  let ?t = "at_sample_type a"
  have sum: "8 * length (filter (has_flag ?t) sample_layout) \<le> perf_sample_max_size sys a"
    unfolding perf_sample_max_size_def Let_def sample_layout_def filter_words by (simp split del: if_split)
  have "Suc (length (filter (has_flag ?t) (takeWhile (\<lambda>g. g \<noteq> f) sample_layout))) \<le>
      length (filter (has_flag ?t) sample_layout)"
  proof -
    obtain ys zs where l: "sample_layout = ys @ f # zs" "f \<notin> set ys" using split_list_first [OF assms(1)] by blast
    have "takeWhile (\<lambda>g. g \<noteq> f) (ys @ f # zs) = ys" using l(2) by (induction ys) auto
    then show ?thesis unfolding l(1) using assms(2) by simp
  qed
  then show "pos_of ?t f + 8 \<le> int (perf_sample_max_size sys a)"
    using sum assms(2) by (simp add: pos_of_def field_pos_def)
qed

text \<open>
  The watermark of a device is the least one of its sampling events: no sampling event
  has a lower one, and one of them has it, or there is none and it is the largest value.
\<close>

lemma watermark_least:
  "perf_sample_watermark sys as lo \<le> lo \<and>
   (\<forall>a\<in>set as. sample_period (at_sample a) \<noteq> 0 \<longrightarrow> perf_sample_watermark sys as lo \<le> evsel_watermark sys a) \<and>
   (perf_sample_watermark sys as lo = lo \<or>
    (\<exists>a\<in>set as. sample_period (at_sample a) \<noteq> 0 \<and> perf_sample_watermark sys as lo = evsel_watermark sys a))"
proof (induction sys as lo rule: perf_sample_watermark.induct)
  case (2 sys a as lo)
  show ?case
  proof (cases "sample_period (at_sample a) = 0")
    case True
    then show ?thesis using 2(1) by auto
  next
    case False
    then show ?thesis using 2(2) [OF False] by (auto simp: Let_def split: if_splits)
  qed
qed simp

text \<open>
  What \<open>reduce_wakeup_times\<close> asks the kernel for, on a sampling event of a device with
  rings and an explicit \<open>--watermark\<close>: zero means one wake-up per event, otherwise the
  given percentage of the ring, as long as the product stays below 2^32.
\<close>

theorem wakeup_share_of_ring:
  assumes "0 < pages" "sample_period (at_sample a) \<noteq> 0" "we_watermark_set env"
    "0 \<le> we_watermark env" "we_watermark env \<le> 100" "4096 * int pages * we_watermark env < 2 ^ 32"
  shows "(let b = reduce_wakeup_times pages has_parent env a in
    if we_watermark env = 0 then \<not> at_watermark b \<and> at_wakeup b = 1
    else at_watermark b \<and> uint (at_wakeup b) = 4096 * int pages * we_watermark env div 100)"
proof -
  let ?p = "we_watermark env"
  have "uint (pages_watermark pages ?p) = 4096 * int pages * ?p div 100" if "?p \<noteq> 0"
  proof -
    have "1 \<le> ?p" using that assms(4) by simp
    then have "4096 * int pages \<le> 4096 * int pages * ?p"
      using mult_left_mono [of 1 ?p "4096 * int pages"] by simp
    then have "4096 * int pages < 2 ^ 32" using assms(6) by linarith
    then have r: "0 \<le> 4096 * int pages" "4096 * int pages < 2 ^ LENGTH(32)" by simp_all
    have "push_bit 12 (of_nat pages :: u32) = word_of_int (4096 * int pages)"
      by (simp add: push_bit_eq_mult)
    then have s: "uint (push_bit 12 (of_nat pages :: u32)) = 4096 * int pages"
      using word_of_int_inverse [OF refl r] by simp
    have "uint (of_int ?p :: u32) = ?p" using assms(4,5) by (simp add: word_of_int_inverse)
    then have "uint (push_bit 12 (of_nat pages) * of_int ?p :: u32) = 4096 * int pages * ?p"
      using uint_mult_lem [of "push_bit 12 (of_nat pages) :: u32" "of_int ?p"] assms(6) s by simp
    then show ?thesis by (simp add: pages_watermark_def uint_div)
  qed
  then show ?thesis using assms(1-3) by (simp add: reduce_wakeup_times_def Let_def)
qed

definition ex_env :: "int \<Rightarrow> wake_env" where
  "ex_env p = \<lparr>we_watermark = p, we_watermark_set = True, we_monotonic = False\<rparr>"

text \<open>
  Above that the 32-bit product wraps around: half of a ring of 32768 pages (128 MB) is
  67108864 bytes, but the watermark that is set is 24159191, about a sixth of the ring.
\<close>

theorem wakeup_share_overflows:
  "at_wakeup (reduce_wakeup_times 32768 has_parent (ex_env 50) ex_event) = 24159191"
  by (simp add: reduce_wakeup_times_def ex_env_def ex_event_def ex_attr_def Let_def pages_watermark_def push_bit_eq_mult)

end
