(* ===== verification/Rbtree.thy ===== *)
theory Rbtree
  imports Prelude
begin

text \<open>
  Red-black trees, \<open>src/lib/rbtree.c\<close> and \<open>src/include/linux/rbtree_augmented.h\<close>, which hold
  the tables of the profilers.

  A node that the code holds a pointer to is a place in the tree: the subtree below it and
  the path of its ancestors, nearest first, which is what the parent pointers give. A frame
  of the path says on which side of the ancestor the place lies. The pointer writes of a
  rotation are the one new subtree they leave behind; following a null pointer is None.
\<close>

datatype color = Red | Black

datatype 'a rb = Lf | Nd color "'a rb" 'a "'a rb"

datatype 'a frame = InL color 'a "'a rb" | InR color "'a rb" 'a

type_synonym 'a path = "'a frame list"

type_synonym 'a place = "'a rb \<times> 'a path"

fun inorder :: "'a rb \<Rightarrow> 'a list" where
  "inorder Lf = []"
| "inorder (Nd c l a r) = inorder l @ a # inorder r"

fun close :: "'a rb \<Rightarrow> 'a frame \<Rightarrow> 'a rb" where
  "close t (InL c a r) = Nd c t a r"
| "close t (InR c l a) = Nd c l a t"

fun plug :: "'a rb \<Rightarrow> 'a path \<Rightarrow> 'a rb" where
  "plug t [] = t"
| "plug t (f # fs) = plug (close t f) fs"

fun rb_color :: "'a rb \<Rightarrow> color" where
  "rb_color Lf = Black"
| "rb_color (Nd c l a r) = c"

fun set_color :: "color \<Rightarrow> 'a rb \<Rightarrow> 'a rb" where
  "set_color c Lf = Lf"
| "set_color c (Nd d l a r) = Nd c l a r"

abbreviation blacken :: "'a rb \<Rightarrow> 'a rb" where
  "blacken \<equiv> set_color Black"

section \<open>Insertion\<close>

text \<open>
  \<open>__rb_insert\<close>: the loop from a red node upwards. In the last two equations the node is
  the inner grandchild; cases 2 and 3 follow each other there.
\<close>

fun rb_insert_loop :: "'a rb \<Rightarrow> 'a path \<Rightarrow> 'a rb option" where
  "rb_insert_loop n [] = Some (blacken n)"
| "rb_insert_loop n (InL Black p s # fs) = Some (plug (Nd Black n p s) fs)"
| "rb_insert_loop n (InR Black s p # fs) = Some (plug (Nd Black s p n) fs)"
| "rb_insert_loop n [InL Red p s] = None"
| "rb_insert_loop n [InR Red s p] = None"
| "rb_insert_loop n (InL Red p s # InL gc g u # fs) =
     (if rb_color u = Red then rb_insert_loop (Nd Red (Nd Black n p s) g (blacken u)) fs
      else Some (plug (Nd gc n p (Nd Red (blacken s) g u)) fs))"
| "rb_insert_loop n (InR Red s p # InL gc g u # fs) =
     (if rb_color u = Red then rb_insert_loop (Nd Red (Nd Black s p n) g (blacken u)) fs
      else case n of
             Lf \<Rightarrow> None
           | Nd c nl na nr \<Rightarrow> Some (plug (Nd gc (Nd Red s p (blacken nl)) na (Nd Red (blacken nr) g u)) fs))"
| "rb_insert_loop n (InR Red s p # InR gc u g # fs) =
     (if rb_color u = Red then rb_insert_loop (Nd Red (blacken u) g (Nd Black s p n)) fs
      else Some (plug (Nd gc (Nd Red u g (blacken s)) p n) fs))"
| "rb_insert_loop n (InL Red p s # InR gc u g # fs) =
     (if rb_color u = Red then rb_insert_loop (Nd Red (blacken u) g (Nd Black n p s)) fs
      else case n of
             Lf \<Rightarrow> None
           | Nd c nl na nr \<Rightarrow> Some (plug (Nd gc (Nd Red u g (blacken nl)) na (Nd Red (blacken nr) p s)) fs))"

text \<open>\<open>rb_link_node\<close> makes a red node without children at the end of the path.\<close>

definition rb_link_node :: "'a \<Rightarrow> 'a rb" where
  "rb_link_node x = Nd Red Lf x Lf"

definition rb_insert_color :: "'a \<Rightarrow> 'a path \<Rightarrow> 'a rb option" where
  "rb_insert_color x fs = rb_insert_loop (rb_link_node x) fs"

section \<open>Removal\<close>

text \<open>
  Cases 2 to 4 of \<open>____rb_erase_color\<close> at a place on the left of its parent: the subtree of
  the parent is in order again, or it lacks one black node and the loop goes on above it.
\<close>

datatype 'a fixed = Done "'a rb" | Higher "'a rb" | Null

fun fix_left :: "'a rb \<Rightarrow> color \<Rightarrow> 'a \<Rightarrow> 'a rb \<Rightarrow> 'a fixed" where
  "fix_left n pc p Lf = Null"
| "fix_left n pc p (Nd sc l x r) =
     (if rb_color r = Black then
        case l of
          Nd Red ll lx lr \<Rightarrow> Done (Nd pc (Nd Black n p ll) lx (Nd Black (blacken lr) x r))
        | _ \<Rightarrow> if pc = Red then Done (Nd Black n p (Nd Red l x r)) else Higher (Nd pc n p (Nd Red l x r))
      else Done (Nd pc (Nd Black n p l) x (blacken r)))"

fun fix_right :: "'a rb \<Rightarrow> color \<Rightarrow> 'a \<Rightarrow> 'a rb \<Rightarrow> 'a fixed" where
  "fix_right n pc p Lf = Null"
| "fix_right n pc p (Nd sc l x r) =
     (if rb_color l = Black then
        case r of
          Nd Red rl rx rr \<Rightarrow> Done (Nd pc (Nd Black l x (blacken rl)) rx (Nd Black rr p n))
        | _ \<Rightarrow> if pc = Red then Done (Nd Black (Nd Red l x r) p n) else Higher (Nd pc (Nd Red l x r) p n)
      else Done (Nd pc (blacken l) x (Nd Black r p n)))"

text \<open>
  The loop. A red sibling is first rotated above the parent (case 1); the parent is red then
  and the other cases end the loop.
\<close>

fun rb_erase_color :: "'a rb \<Rightarrow> 'a path \<Rightarrow> 'a rb option" where
  "rb_erase_color n [] = Some n"
| "rb_erase_color n (InL pc p s # fs) =
     (case s of
        Nd Red sl sa sr \<Rightarrow>
          (case fix_left n Red p (blacken sl) of
             Done t \<Rightarrow> Some (plug (Nd pc t sa sr) fs)
           | _ \<Rightarrow> None)
      | _ \<Rightarrow>
          (case fix_left n pc p s of
             Done t \<Rightarrow> Some (plug t fs) | Higher t \<Rightarrow> rb_erase_color t fs | Null \<Rightarrow> None))"
| "rb_erase_color n (InR pc s p # fs) =
     (case s of
        Nd Red sl sa sr \<Rightarrow>
          (case fix_right n Red p (blacken sr) of
             Done t \<Rightarrow> Some (plug (Nd pc sl sa t) fs)
           | _ \<Rightarrow> None)
      | _ \<Rightarrow>
          (case fix_right n pc p s of
             Done t \<Rightarrow> Some (plug t fs) | Higher t \<Rightarrow> rb_erase_color t fs | Null \<Rightarrow> None))"

text \<open>The leftmost place below a node.\<close>

fun leftmost :: "'a rb \<Rightarrow> 'a path \<Rightarrow> 'a place" where
  "leftmost Lf fs = (Lf, fs)"
| "leftmost (Nd c l a r) fs = (if l = Lf then (Nd c l a r, fs) else leftmost l (InL c a r # fs))"

text \<open>
  \<open>__rb_erase_augmented\<close> and \<open>rb_erase\<close>: a node with one child is replaced by it, a node with
  two by its successor, which leaves its own place to its right child. When no child moves up
  and a black node is gone, the loop above repairs the tree from there.
\<close>

definition rb_erase :: "'a place \<Rightarrow> 'a rb option" where
  "rb_erase z =
     (case z of
        (Lf, fs) \<Rightarrow> None
      | (Nd c Lf a r, fs) \<Rightarrow>
          if r \<noteq> Lf then Some (plug (set_color c r) fs)
          else if c = Black then rb_erase_color Lf fs else Some (plug Lf fs)
      | (Nd c l a Lf, fs) \<Rightarrow> Some (plug (set_color c l) fs)
      | (Nd c l a r, fs) \<Rightarrow>
          (case leftmost r [] of
             (Lf, _) \<Rightarrow> None
           | (Nd sc _ sa sr, up) \<Rightarrow>
               let fs' = up @ InR c l sa # fs in
               if sr \<noteq> Lf then Some (plug (blacken sr) fs')
               else if sc = Black then rb_erase_color Lf fs' else Some (plug Lf fs')))"

section \<open>Walking\<close>

fun rightmost :: "'a rb \<Rightarrow> 'a path \<Rightarrow> 'a place" where
  "rightmost Lf fs = (Lf, fs)"
| "rightmost (Nd c l a r) fs = (if r = Lf then (Nd c l a r, fs) else rightmost r (InR c l a # fs))"

definition rb_first :: "'a rb \<Rightarrow> 'a place option" where
  "rb_first t = (if t = Lf then None else Some (leftmost t []))"

definition rb_last :: "'a rb \<Rightarrow> 'a place option" where
  "rb_last t = (if t = Lf then None else Some (rightmost t []))"

text \<open>Up while the place is on the right, then the parent.\<close>

fun up_right :: "'a rb \<Rightarrow> 'a path \<Rightarrow> 'a place option" where
  "up_right t [] = None"
| "up_right t (InR c l a # fs) = up_right (Nd c l a t) fs"
| "up_right t (InL c a r # fs) = Some (Nd c t a r, fs)"

fun up_left :: "'a rb \<Rightarrow> 'a path \<Rightarrow> 'a place option" where
  "up_left t [] = None"
| "up_left t (InL c a r # fs) = up_left (Nd c t a r) fs"
| "up_left t (InR c l a # fs) = Some (Nd c l a t, fs)"

fun rb_next :: "'a place \<Rightarrow> 'a place option" where
  "rb_next (Lf, fs) = None"
| "rb_next (Nd c l a r, fs) = (if r \<noteq> Lf then Some (leftmost r (InR c l a # fs)) else up_right (Nd c l a r) fs)"

fun rb_prev :: "'a place \<Rightarrow> 'a place option" where
  "rb_prev (Lf, fs) = None"
| "rb_prev (Nd c l a r, fs) = (if l \<noteq> Lf then Some (rightmost l (InL c a r # fs)) else up_left (Nd c l a r) fs)"

definition rb_replace_node :: "'a place \<Rightarrow> 'a \<Rightarrow> 'a rb" where
  "rb_replace_node z b = (case z of (Lf, fs) \<Rightarrow> plug Lf fs | (Nd c l a r, fs) \<Rightarrow> plug (Nd c l b r) fs)"

section \<open>Order\<close>

fun before :: "'a path \<Rightarrow> 'a list" where
  "before [] = []"
| "before (InL c a r # fs) = before fs"
| "before (InR c l a # fs) = before fs @ inorder l @ [a]"

fun after :: "'a path \<Rightarrow> 'a list" where
  "after [] = []"
| "after (InL c a r # fs) = a # inorder r @ after fs"
| "after (InR c l a # fs) = after fs"

lemma inorder_plug [simp]: "inorder (plug t fs) = before fs @ inorder t @ after fs"
  by (induction t fs rule: plug.induct) (simp, case_tac f, simp_all)

lemma inorder_set_color [simp]: "inorder (set_color c t) = inorder t"
  by (cases t) simp_all

lemma before_append [simp]: "before (fs @ gs) = before gs @ before fs"
  by (induction fs rule: before.induct) simp_all

lemma after_append [simp]: "after (fs @ gs) = after fs @ after gs"
  by (induction fs rule: after.induct) simp_all

lemma insert_loop_inorder: "rb_insert_loop n fs = Some t \<Longrightarrow> inorder t = before fs @ inorder n @ after fs"
  by (induction n fs arbitrary: t rule: rb_insert_loop.induct) (auto split: if_splits rb.splits)

lemma fix_left_inorder:
  "fix_left n pc p s = Done t \<or> fix_left n pc p s = Higher t \<Longrightarrow> inorder t = inorder n @ p # inorder s"
  by (cases s) (auto split: if_splits rb.splits color.splits)

lemma fix_right_inorder:
  "fix_right n pc p s = Done t \<or> fix_right n pc p s = Higher t \<Longrightarrow> inorder t = inorder s @ p # inorder n"
  by (cases s) (auto split: if_splits rb.splits color.splits)

declare fix_left.simps [simp del] fix_right.simps [simp del]

lemma erase_color_inorder: "rb_erase_color n fs = Some t \<Longrightarrow> inorder t = before fs @ inorder n @ after fs"
proof (induction n fs arbitrary: t rule: rb_erase_color.induct)
  case (2 n pc p s fs)
  show ?case
  proof (cases "rb_color s")
    case Red
    then obtain sl sa sr where s: "s = Nd Red sl sa sr" by (cases s) auto
    then obtain u where u: "fix_left n Red p (blacken sl) = Done u" "t = plug (Nd pc u sa sr) fs"
      using "2.prems" by (auto split: fixed.splits)
    show ?thesis using fix_left_inorder [of n Red p "blacken sl" u] u s by simp
  next
    case Black
    then have "rb_erase_color n (InL pc p s # fs) =
        (case fix_left n pc p s of Done t \<Rightarrow> Some (plug t fs) | Higher t \<Rightarrow> rb_erase_color t fs | Null \<Rightarrow> None)"
      by (cases s) auto
    then show ?thesis using 2 Black fix_left_inorder [of n pc p s]
      by (cases s) (auto split: fixed.splits color.splits)
  qed
next
  case (3 n pc s p fs)
  show ?case
  proof (cases "rb_color s")
    case Red
    then obtain sl sa sr where s: "s = Nd Red sl sa sr" by (cases s) auto
    then obtain u where u: "fix_right n Red p (blacken sr) = Done u" "t = plug (Nd pc sl sa u) fs"
      using "3.prems" by (auto split: fixed.splits)
    show ?thesis using fix_right_inorder [of n Red p "blacken sr" u] u s by simp
  next
    case Black
    then have "rb_erase_color n (InR pc s p # fs) =
        (case fix_right n pc p s of Done t \<Rightarrow> Some (plug t fs) | Higher t \<Rightarrow> rb_erase_color t fs | Null \<Rightarrow> None)"
      by (cases s) auto
    then show ?thesis using 3 Black fix_right_inorder [of n pc p s]
      by (cases s) (auto split: fixed.splits color.splits)
  qed
qed simp

section \<open>Balance\<close>

fun bh :: "'a rb \<Rightarrow> nat" where
  "bh Lf = 0"
| "bh (Nd c l a r) = bh l + (if c = Black then 1 else 0)"

fun invc :: "'a rb \<Rightarrow> bool" where
  "invc Lf = True"
| "invc (Nd c l a r) = (invc l \<and> invc r \<and> (c = Red \<longrightarrow> rb_color l = Black \<and> rb_color r = Black))"

fun invh :: "'a rb \<Rightarrow> bool" where
  "invh Lf = True"
| "invh (Nd c l a r) = (invh l \<and> invh r \<and> bh l = bh r)"

text \<open>
  The five properties of the header comment of \<open>rbtree.c\<close>: the root is black, a red node has
  black children, and every path to a leaf has the same number of black nodes.
\<close>

definition rbt :: "'a rb \<Rightarrow> bool" where
  "rbt t \<longleftrightarrow> invc t \<and> invh t \<and> rb_color t = Black"

text \<open>
  A path into which a subtree of black height \<open>k\<close> fits; the subtree must be black where
  \<open>top_red\<close> says so.
\<close>

fun top_red :: "'a path \<Rightarrow> bool" where
  "top_red [] = True"
| "top_red (InL c a r # fs) = (c = Red)"
| "top_red (InR c l a # fs) = (c = Red)"

fun fits :: "nat \<Rightarrow> 'a path \<Rightarrow> bool" where
  "fits k [] = True"
| "fits k (InL c a r # fs) =
     (invc r \<and> invh r \<and> bh r = k \<and> (c = Red \<longrightarrow> rb_color r = Black \<and> \<not> top_red fs) \<and>
      fits (k + (if c = Black then 1 else 0)) fs)"
| "fits k (InR c l a # fs) =
     (invc l \<and> invh l \<and> bh l = k \<and> (c = Red \<longrightarrow> rb_color l = Black \<and> \<not> top_red fs) \<and>
      fits (k + (if c = Black then 1 else 0)) fs)"

lemma color_simps [simp]: "c \<noteq> Red \<longleftrightarrow> c = Black" "c \<noteq> Black \<longleftrightarrow> c = Red"
  by (cases c; simp)+

lemma rbt_plug:
  "rbt (plug t fs) \<longleftrightarrow> invc t \<and> invh t \<and> fits (bh t) fs \<and> (top_red fs \<longrightarrow> rb_color t = Black)"
proof (induction t fs rule: plug.induct)
  case (2 t f fs)
  then show ?case by (cases f) (auto simp: add.commute)
qed (auto simp: rbt_def)

lemma blacken_inv [simp]: "invh (set_color c t) = invh t" "invc t \<Longrightarrow> invc (blacken t)" "rb_color (blacken t) = Black"
  by (cases t; simp)+

lemma bh_blacken: "rb_color t = Red \<Longrightarrow> bh (blacken t) = bh t + 1" "rb_color t = Black \<Longrightarrow> blacken t = t"
  by (cases t; simp)+

lemma insert_loop_rbt:
  "invc n \<Longrightarrow> invh n \<Longrightarrow> rb_color n = Red \<Longrightarrow> fits (bh n) fs \<Longrightarrow> \<exists>t. rb_insert_loop n fs = Some t \<and> rbt t"
proof (induction n fs rule: rb_insert_loop.induct)
  case (1 n)
  then show ?case by (simp add: rbt_def)
next
  case (7 n s p gc g u fs)
  then show ?case
    by (cases n) (auto simp: rbt_plug bh_blacken)
next
  case (9 n p s gc u g fs)
  then show ?case
    by (cases n) (auto simp: rbt_plug bh_blacken)
qed (auto simp: rbt_plug bh_blacken)

text \<open>What the cases 2 to 4 of the removal leave behind.\<close>

definition mended :: "nat \<Rightarrow> color \<Rightarrow> 'a fixed \<Rightarrow> bool" where
  "mended k pc f \<longleftrightarrow>
     (case f of
        Null \<Rightarrow> False
      | Done t \<Rightarrow> invc t \<and> invh t \<and> bh t = Suc k + (if pc = Black then 1 else 0) \<and> (pc = Black \<longrightarrow> rb_color t = Black)
      | Higher t \<Rightarrow> pc = Black \<and> invc t \<and> invh t \<and> bh t = Suc k \<and> rb_color t = Black)"

lemma fix_left_mends:
  assumes "invc n" "invh n" "rb_color n = Black" "bh n = k" "invc s" "invh s" "rb_color s = Black" "bh s = Suc k"
  shows "mended k pc (fix_left n pc p s)"
proof (cases s)
  case Lf
  then show ?thesis using assms by simp
next
  case (Nd c l x r)
  then show ?thesis
    using assms by (cases l) (auto simp: mended_def fix_left.simps bh_blacken split: color.splits)
qed

lemma fix_right_mends:
  assumes "invc n" "invh n" "rb_color n = Black" "bh n = k" "invc s" "invh s" "rb_color s = Black" "bh s = Suc k"
  shows "mended k pc (fix_right n pc p s)"
proof (cases s)
  case Lf
  then show ?thesis using assms by simp
next
  case (Nd c l x r)
  then show ?thesis
    using assms by (cases r) (auto simp: mended_def fix_right.simps bh_blacken split: color.splits)
qed

lemma erase_color_rbt:
  "invc n \<Longrightarrow> invh n \<Longrightarrow> rb_color n = Black \<Longrightarrow> fits (Suc (bh n)) fs \<Longrightarrow> \<exists>t. rb_erase_color n fs = Some t \<and> rbt t"
proof (induction n fs rule: rb_erase_color.induct)
  case (1 n)
  then show ?case by (simp add: rbt_def)
next
  case (2 n pc p s fs)
  show ?case
  proof (cases "rb_color s")
    case Red
    then obtain sl sa sr where s: "s = Nd Red sl sa sr" by (cases s) auto
    then have "mended (bh n) Red (fix_left n Red p (blacken sl))"
      using 2 by (intro fix_left_mends) (auto simp: bh_blacken)
    then show ?thesis using 2 s by (auto simp: mended_def rbt_plug bh_blacken split: fixed.splits)
  next
    case Black
    then have e: "rb_erase_color n (InL pc p s # fs) =
        (case fix_left n pc p s of Done t \<Rightarrow> Some (plug t fs) | Higher t \<Rightarrow> rb_erase_color t fs | Null \<Rightarrow> None)"
      by (cases s) auto
    have m: "mended (bh n) pc (fix_left n pc p s)" using 2 Black by (intro fix_left_mends) auto
    have ih: "\<exists>t. rb_erase_color u fs = Some t \<and> rbt t"
      if "fix_left n pc p s = Higher u" "invc u" "invh u" "rb_color u = Black" "fits (Suc (bh u)) fs" for u
      using 2(1,2) that Black by (cases s) auto
    show ?thesis unfolding e using m 2 ih
      by (cases "fix_left n pc p s") (auto simp: mended_def rbt_plug)
  qed
next
  case (3 n pc s p fs)
  show ?case
  proof (cases "rb_color s")
    case Red
    then obtain sl sa sr where s: "s = Nd Red sl sa sr" by (cases s) auto
    then have "mended (bh n) Red (fix_right n Red p (blacken sr))"
      using 3 by (intro fix_right_mends) (auto simp: bh_blacken)
    then show ?thesis using 3 s by (auto simp: mended_def rbt_plug bh_blacken split: fixed.splits)
  next
    case Black
    then have e: "rb_erase_color n (InR pc s p # fs) =
        (case fix_right n pc p s of Done t \<Rightarrow> Some (plug t fs) | Higher t \<Rightarrow> rb_erase_color t fs | Null \<Rightarrow> None)"
      by (cases s) auto
    have m: "mended (bh n) pc (fix_right n pc p s)" using 3 Black by (intro fix_right_mends) auto
    have ih: "\<exists>t. rb_erase_color u fs = Some t \<and> rbt t"
      if "fix_right n pc p s = Higher u" "invc u" "invh u" "rb_color u = Black" "fits (Suc (bh u)) fs" for u
      using 3(1,2) that Black by (cases s) auto
    show ?thesis unfolding e using m 3 ih
      by (cases "fix_right n pc p s") (auto simp: mended_def rbt_plug)
  qed
qed

lemma leftmost_spec:
  "t \<noteq> Lf \<Longrightarrow> \<exists>c a r up. leftmost t fs = (Nd c Lf a r, up @ fs) \<and> leftmost t [] = (Nd c Lf a r, up) \<and>
     (\<forall>gs. plug t gs = plug (Nd c Lf a r) (up @ gs)) \<and> before up = [] \<and> a # inorder r @ after up = inorder t"
proof (induction t arbitrary: fs)
  case (Nd c l a r)
  show ?case
  proof (cases "l = Lf")
    case False
    obtain c1 a1 r1 up where 1: "leftmost l (InL c a r # fs) = (Nd c1 Lf a1 r1, up @ InL c a r # fs)"
      "leftmost l [] = (Nd c1 Lf a1 r1, up)" "\<forall>gs. plug l gs = plug (Nd c1 Lf a1 r1) (up @ gs)"
      "before up = []" "a1 # inorder r1 @ after up = inorder l" using Nd(1) [OF False] by blast
    obtain up2 where 2: "leftmost l [InL c a r] = (Nd c1 Lf a1 r1, up2 @ [InL c a r])" "leftmost l [] = (Nd c1 Lf a1 r1, up2)"
      using Nd(1) [OF False, of "[InL c a r]"] 1(2) by auto
    have 3: "plug (Nd c l a r) gs = plug (Nd c1 Lf a1 r1) ((up @ [InL c a r]) @ gs)" for gs
      using 1(3) [rule_format, of "InL c a r # gs"] by simp
    show ?thesis using False 1 2 3
      by (intro exI [of _ c1] exI [of _ a1] exI [of _ r1] exI [of _ "up @ [InL c a r]"]) auto
  qed simp
qed simp

lemma fits_value: "fits k (up @ InR c l a # fs) = fits k (up @ InR c l b # fs)"
proof (induction k up rule: fits.induct)
  case (2 k c a r gs)
  then show ?case by (cases gs; cases "hd gs") auto
next
  case (3 k c l a gs)
  then show ?case by (cases gs; cases "hd gs") auto
qed simp

lemma top_red_value: "top_red (up @ InR c l a # fs) = top_red (up @ InR c l b # fs)"
  by (cases up; cases "hd up") auto

lemma bh_0: "bh t = 0 \<Longrightarrow> t \<noteq> Lf \<Longrightarrow> rb_color t = Red"
  by (cases t) (auto split: if_splits)

text \<open>Removing a node that has no left child, where all the cases of the code end.\<close>

definition drop_node :: "color \<Rightarrow> 'a rb \<Rightarrow> 'a path \<Rightarrow> 'a rb option" where
  "drop_node c r fs =
     (if r \<noteq> Lf then Some (plug (blacken r) fs)
      else if c = Black then rb_erase_color Lf fs else Some (plug Lf fs))"

lemma drop_node_rbt:
  assumes "rbt (plug (Nd c Lf a r) fs)"
  shows "\<exists>t. drop_node c r fs = Some t \<and> rbt t \<and> inorder t = before fs @ inorder r @ after fs"
proof -
  have i: "invc r" "invh r" "bh r = 0" "c = Red \<longrightarrow> rb_color r = Black" "fits (if c = Black then 1 else 0) fs"
    using assms by (auto simp: rbt_plug split: if_splits)
  show ?thesis
  proof (cases "r = Lf")
    case False
    then have "rb_color r = Red" using i(3) bh_0 by blast
    then have "rb_color r = Red" "c = Black" using i(4) by (cases c; simp)+
    then show ?thesis using False i by (simp add: drop_node_def rbt_plug bh_blacken)
  next
    case True
    show ?thesis
    proof (cases c)
      case Red
      then show ?thesis using True assms by (simp add: drop_node_def rbt_plug)
    next
      case Black
      then obtain t where "rb_erase_color Lf fs = Some t" "rbt t" using erase_color_rbt [of Lf fs] i by auto
      then show ?thesis using True Black erase_color_inorder [of Lf fs t] by (simp add: drop_node_def)
    qed
  qed
qed

lemma erase_rbt:
  assumes "rbt (plug (Nd c l a r) fs)"
  shows "\<exists>t. rb_erase (Nd c l a r, fs) = Some t \<and> rbt t \<and> inorder t = before fs @ inorder l @ inorder r @ after fs"
proof (cases "l = Lf")
  case True
  have "rb_erase (Nd c l a r, fs) = drop_node c r fs"
  proof (cases "r = Lf")
    case False
    have "invc r" "bh r = 0" "c = Red \<longrightarrow> rb_color r = Black" using assms True by (auto simp: rbt_plug split: if_splits)
    moreover have "rb_color r = Red" using calculation False bh_0 by blast
    ultimately have "c = Black" by (cases c) auto
    then show ?thesis using True False by (cases r) (simp_all add: rb_erase_def drop_node_def)
  qed (simp add: rb_erase_def drop_node_def True)
  then show ?thesis using drop_node_rbt [of c a r fs] assms True by simp
next
  case l: False
  show ?thesis
  proof (cases "r = Lf")
    case True
    have i: "invc l" "invh l" "bh l = 0" "c = Red \<longrightarrow> rb_color l = Black" "fits (if c = Black then 1 else 0) fs"
      using assms True by (auto simp: rbt_plug split: if_splits)
    have "rb_color l = Red" using i(3) bh_0 l by blast
    then have "rb_color l = Red" "c = Black" using i(4) by (cases c; simp)+
    moreover have "rb_erase (Nd c l a r, fs) = Some (plug (set_color c l) fs)"
      using l True by (cases l) (simp_all add: rb_erase_def)
    ultimately show ?thesis using i True by (simp add: rbt_plug bh_blacken)
  next
    case False
    obtain sc sa sr up where s: "leftmost r [] = (Nd sc Lf sa sr, up)" "\<forall>gs. plug r gs = plug (Nd sc Lf sa sr) (up @ gs)"
        "before up = []" "sa # inorder sr @ after up = inorder r" using leftmost_spec [OF False, of "[]"] by auto
    have "rb_erase (Nd c l a r, fs) = drop_node sc sr (up @ InR c l sa # fs)"
      using l False s(1) by (cases l; cases r) (simp_all add: rb_erase_def drop_node_def Let_def)
    moreover have "rbt (plug (Nd sc Lf sa sr) (up @ InR c l sa # fs))"
    proof -
      have "rbt (plug r (InR c l a # fs))" using assms by simp
      then have "rbt (plug (Nd sc Lf sa sr) (up @ InR c l a # fs))" by (metis s(2))
      then show ?thesis unfolding rbt_plug fits_value [of _ up c l a fs sa] top_red_value [of up c l a fs sa] .
    qed
    ultimately show ?thesis using drop_node_rbt [of sc sa sr "up @ InR c l sa # fs"] s(3,4) by auto
  qed
qed

lemma insert_rbt:
  assumes "rbt (plug Lf fs)"
  shows "\<exists>t. rb_insert_color x fs = Some t \<and> rbt t \<and> inorder t = before fs @ x # after fs"
proof -
  have "fits 0 fs" using assms by (simp add: rbt_plug)
  then obtain t where "rb_insert_color x fs = Some t" "rbt t"
    using insert_loop_rbt [of "rb_link_node x" fs] by (auto simp: rb_insert_color_def rb_link_node_def)
  then show ?thesis
    using insert_loop_inorder [of "rb_link_node x" fs t] by (simp add: rb_insert_color_def rb_link_node_def)
qed

section \<open>What the operations promise\<close>

text \<open>
  C35. \<open>rb_insert_color\<close> keeps red-black trees: a node linked at an empty place of a balanced
  tree (black root, no red node below a red one, equal black heights) leaves a balanced tree,
  the loop follows no null pointer, and the new element stands at its place in the order.
\<close>

theorem rb_insert_balanced:
  assumes "rbt (plug Lf fs)"
  shows "\<exists>t. rb_insert_color x fs = Some t \<and> rbt t \<and> inorder t = before fs @ x # after fs"
  using insert_rbt [OF assms] .

theorem rb_insert_balanced_witness:
  "\<exists>t. rb_insert_color 3 [InR Red Lf 2, InR Black (Nd Red Lf 0 Lf) (1 :: nat)] = Some t \<and> rbt t \<and>
     inorder t = [0, 1, 2, 3]"
  using rb_insert_balanced [of "[InR Red Lf 2, InR Black (Nd Red Lf 0 Lf) (1 :: nat)]" 3] by (simp add: rbt_def)

text \<open>
  C36. \<open>rb_erase\<close> keeps red-black trees: removing any node of a balanced tree leaves a balanced
  tree without that one element, the others in the same order, and no null pointer is
  followed on the way.
\<close>

theorem rb_erase_balanced:
  assumes "rbt (plug (Nd c l a r) fs)"
  shows "\<exists>t. rb_erase (Nd c l a r, fs) = Some t \<and> rbt t \<and>
    inorder (plug (Nd c l a r) fs) = before fs @ inorder l @ a # inorder r @ after fs \<and>
    inorder t = before fs @ inorder l @ inorder r @ after fs"
  using erase_rbt [OF assms] by simp

theorem rb_erase_balanced_witness:
  "\<exists>t. rb_erase (Nd Black Lf (0 :: nat) Lf, [InL Black 1 (Nd Red (Nd Black Lf 2 Lf) 3 (Nd Black Lf 4 Lf))]) = Some t \<and>
     rbt t \<and> inorder t = [1, 2, 3, 4]"
  using rb_erase_balanced [of Black Lf "0 :: nat" Lf "[InL Black 1 (Nd Red (Nd Black Lf 2 Lf) 3 (Nd Black Lf 4 Lf))]"]
  by (simp add: rbt_def)

section \<open>Walking\<close>

text \<open>The loop \<open>for (node = rb_first(root); node; node = rb_next(node))\<close>, at most \<open>n\<close> times.\<close>

fun walk :: "nat \<Rightarrow> 'a place option \<Rightarrow> 'a list option" where
  "walk n None = Some []"
| "walk 0 (Some z) = None"
| "walk (Suc n) (Some z) = (case z of (Lf, fs) \<Rightarrow> None | (Nd c l a r, fs) \<Rightarrow> map_option ((#) a) (walk n (rb_next z)))"

definition at :: "'a list \<Rightarrow> 'a place option \<Rightarrow> bool" where
  "at xs z \<longleftrightarrow> (case z of None \<Rightarrow> xs = [] | Some (Lf, fs) \<Rightarrow> False | Some (Nd c l a r, fs) \<Rightarrow> xs = a # inorder r @ after fs)"

lemma up_right_at: "at (after fs) (up_right t fs)"
  by (induction t fs rule: up_right.induct) (simp_all add: at_def)

lemma leftmost_at: "t \<noteq> Lf \<Longrightarrow> at (inorder t @ after fs) (Some (leftmost t fs))"
  using leftmost_spec [of t fs] by (auto simp: at_def)

lemma at_None: "at xs None \<longleftrightarrow> xs = []"
  by (simp add: at_def)

lemma at_Some: "at xs (Some z) \<Longrightarrow> \<exists>c l a r fs. z = (Nd c l a r, fs) \<and> xs = a # inorder r @ after fs"
  by (cases z; cases "fst z") (auto simp: at_def)

lemma next_at:
  assumes "at (a # xs) (Some (Nd c l a r, fs))" shows "at xs (rb_next (Nd c l a r, fs))"
proof -
  have xs: "xs = inorder r @ after fs" using assms by (simp add: at_def)
  show ?thesis
    using leftmost_at [of r "InR c l a # fs"] up_right_at [of fs "Nd c l a r"] xs by (cases "r = Lf") simp_all
qed

lemma walk_at: "at xs z \<Longrightarrow> length xs \<le> n \<Longrightarrow> walk n z = Some xs"
proof (induction xs arbitrary: n z)
  case Nil
  then have "z = None" using at_Some by (cases z) fastforce+
  then show ?case by simp
next
  case (Cons x xs)
  obtain c l r fs where z: "z = Some (Nd c l x r, fs)" using Cons.prems(1) at_Some by (cases z) (fastforce simp: at_None)+
  obtain m where m: "n = Suc m" "length xs \<le> m" using Cons.prems(2) by (cases n) auto
  have "walk m (rb_next (Nd c l x r, fs)) = Some xs" using Cons.IH [OF next_at] Cons.prems(1) m z by blast
  then show ?case using z m by simp
qed

lemma walk_first: "walk (length (inorder t)) (rb_first t) = Some (inorder t)"
  using leftmost_at [of t "[]"] walk_at [of "inorder t" "rb_first t"]
  by (auto simp: rb_first_def at_def)

text \<open>
  Walking a tree from \<open>rb_first\<close> with \<open>rb_next\<close> visits every element exactly once, in the
  order of the tree, and ends; no step needs more than the parent pointers.
\<close>

theorem rb_walk_inorder: "walk (length (inorder t)) (rb_first t) = Some (inorder t)"
  by (rule walk_first)

lemma up_left_leftmost: "t \<noteq> Lf \<Longrightarrow> leftmost t fs = (u, gs) \<Longrightarrow> up_left u gs = up_left t fs"
  by (induction t fs rule: leftmost.induct) (auto split: if_splits)

lemma rightmost_up_right:
  "t \<noteq> Lf \<Longrightarrow> up_right t fs = Some (u, gs) \<Longrightarrow>
   \<exists>c l a r. u = Nd c l a r \<and> l \<noteq> Lf \<and> rightmost l (InL c a r # gs) = rightmost t fs"
  by (induction t fs rule: up_right.induct) auto

text \<open>
  \<open>rb_prev\<close> undoes \<open>rb_next\<close>: from the node that follows a node, the previous one is that
  node again, at its place in the tree.
\<close>

lemma rb_prev_next:
  assumes "rb_next z = Some y" shows "rb_prev y = Some z"
proof -
  obtain c l a r fs where z: "z = (Nd c l a r, fs)" using assms by (cases z; cases "fst z") auto
  show ?thesis
  proof (cases "r = Lf")
    case False
    obtain c1 a1 r1 up where 1: "leftmost r (InR c l a # fs) = (Nd c1 Lf a1 r1, up @ InR c l a # fs)"
      using leftmost_spec [OF False] by blast
    have y: "y = (Nd c1 Lf a1 r1, up @ InR c l a # fs)" using assms z False 1 by simp
    show ?thesis unfolding y using up_left_leftmost [OF False 1] z by simp
  next
    case True
    then have "up_right (Nd c l a Lf) fs = Some (fst y, snd y)" using assms z by simp
    then obtain c1 l1 a1 r1 where 1: "fst y = Nd c1 l1 a1 r1" "l1 \<noteq> Lf"
        "rightmost l1 (InL c1 a1 r1 # snd y) = rightmost (Nd c l a Lf) fs"
      using rightmost_up_right [of "Nd c l a Lf" fs "fst y" "snd y"] by auto
    have y: "y = (Nd c1 l1 a1 r1, snd y)" using 1(1) by (cases y) simp
    show ?thesis by (subst y) (use 1 z True in simp)
  qed
qed

fun height :: "'a rb \<Rightarrow> nat" where
  "height Lf = 0"
| "height (Nd c l a r) = Suc (max (height l) (height r))"

lemma bh_size: "invh t \<Longrightarrow> 2 ^ bh t \<le> Suc (length (inorder t))"
proof (induction t)
  case (Nd c l a r)
  then have "2 ^ bh l \<le> Suc (length (inorder l))" "2 ^ bh l \<le> Suc (length (inorder r))" by auto
  then show ?case by simp
qed simp

lemma height_bh: "invc t \<Longrightarrow> invh t \<Longrightarrow> height t \<le> 2 * bh t + (if rb_color t = Red then 1 else 0)"
proof (induction t)
  case (Nd c l a r)
  then have "height l \<le> 2 * bh l + (if rb_color l = Red then 1 else 0)" "height r \<le> 2 * bh l + (if rb_color r = Red then 1 else 0)"
    by auto
  then show ?case using Nd.prems by (auto split: if_splits)
qed simp

text \<open>
  A balanced tree of \<open>n\<close> elements is at most 2 log2 (n + 1) high, so a search, an insertion
  or a removal takes that many steps.
\<close>

theorem rb_height_log:
  assumes "rbt t" shows "2 ^ height t \<le> (length (inorder t) + 1) ^ 2"
proof -
  have "height t \<le> 2 * bh t" using height_bh [of t] assms by (auto simp: rbt_def)
  then have "(2 :: nat) ^ height t \<le> (2 ^ bh t) ^ 2" by (simp add: power_mult [symmetric] mult.commute power_increasing)
  also have "\<dots> \<le> (length (inorder t) + 1) ^ 2" using bh_size [of t] assms by (intro power_mono) (auto simp: rbt_def)
  finally show ?thesis .
qed

end
