(* ===== verification/Rblist.thy ===== *)
theory Rblist
  imports Rbtree
begin

text \<open>
  Sorted tables, \<open>src/lib/rblist.c\<close>: a red-black tree with a cached first node and a count,
  whose order and whose nodes come from the callbacks \<open>node_cmp\<close>, \<open>node_new\<close> and
  \<open>node_delete\<close>.

  The callbacks are arguments: \<open>node_cmp\<close> compares a node with an entry, \<open>node_new\<close> gives the
  node that is made of the entry, or None when memory is short. The cached pointer is the
  element of the first node. None as a result is a null pointer followed.
\<close>

record 'n rblist =
  rl_tree :: "'n rb"
  rl_leftmost :: "'n option"
  rl_nr_entries :: nat

definition rblist__init :: "'n rblist" where
  "rblist__init = \<lparr>rl_tree = Lf, rl_leftmost = None, rl_nr_entries = 0\<rparr>"

definition rblist__empty :: "'n rblist \<Rightarrow> bool" where
  "rblist__empty rl \<longleftrightarrow> rl_nr_entries rl = 0"

text \<open>Most callbacks compare numbers: the result of two comparisons in turn.\<close>

definition cmp_u64 :: "u64 \<Rightarrow> u64 \<Rightarrow> int" where
  "cmp_u64 a b = (if a > b then 1 else if a < b then - 1 else 0)"

section \<open>Searching and inserting\<close>

text \<open>The loop down the tree; \<open>lm\<close> is the flag \<open>leftmost\<close>.\<close>

fun descend :: "('n \<Rightarrow> int) \<Rightarrow> 'n rb \<Rightarrow> 'n path \<Rightarrow> bool \<Rightarrow> 'n place \<times> bool" where
  "descend rc Lf fs lm = ((Lf, fs), lm)"
| "descend rc (Nd c l a r) fs lm =
     (if rc a > 0 then descend rc l (InL c a r # fs) lm
      else if rc a < 0 then descend rc r (InR c l a # fs) False
      else ((Nd c l a r, fs), lm))"

definition rb_insert_color_cached :: "'n \<Rightarrow> 'n path \<Rightarrow> bool \<Rightarrow> 'n rblist \<Rightarrow> 'n rblist option" where
  "rb_insert_color_cached n fs lm rl =
     map_option (\<lambda>t. rl\<lparr>rl_leftmost := (if lm then Some n else rl_leftmost rl), rl_tree := t\<rparr>) (rb_insert_color n fs)"

abbreviation "EEXIST \<equiv> 17 :: int"
abbreviation "ENOMEM \<equiv> 12 :: int"

definition rblist__add_node :: "('n \<Rightarrow> 'e \<Rightarrow> int) \<Rightarrow> 'n option \<Rightarrow> 'e \<Rightarrow> 'n rblist \<Rightarrow> (int \<times> 'n rblist) option" where
  "rblist__add_node node_cmp node_new e rl =
     (case descend (\<lambda>n. node_cmp n e) (rl_tree rl) [] True of
        ((Nd _ _ _ _, _), _) \<Rightarrow> Some (- EEXIST, rl)
      | ((Lf, fs), lm) \<Rightarrow>
          (case node_new of
             None \<Rightarrow> Some (- ENOMEM, rl)
           | Some n \<Rightarrow>
               map_option (\<lambda>rl1. (0, rl1\<lparr>rl_nr_entries := rl_nr_entries rl1 + 1\<rparr>)) (rb_insert_color_cached n fs lm rl)))"

definition rblist__findnew ::
  "('n \<Rightarrow> 'e \<Rightarrow> int) \<Rightarrow> 'n option \<Rightarrow> 'e \<Rightarrow> bool \<Rightarrow> 'n rblist \<Rightarrow> ('n option \<times> 'n rblist) option" where
  "rblist__findnew node_cmp node_new e create rl =
     (case descend (\<lambda>n. node_cmp n e) (rl_tree rl) [] True of
        ((Nd _ _ a _, _), _) \<Rightarrow> Some (Some a, rl)
      | ((Lf, fs), lm) \<Rightarrow>
          if create then
            (case node_new of
               None \<Rightarrow> Some (None, rl)
             | Some n \<Rightarrow>
                 map_option (\<lambda>rl1. (Some n, rl1\<lparr>rl_nr_entries := rl_nr_entries rl1 + 1\<rparr>)) (rb_insert_color_cached n fs lm rl))
          else Some (None, rl))"

definition rblist__find :: "('n \<Rightarrow> 'e \<Rightarrow> int) \<Rightarrow> 'e \<Rightarrow> 'n rblist \<Rightarrow> 'n option" where
  "rblist__find node_cmp e rl = (case rblist__findnew node_cmp None e False rl of Some (r, _) \<Rightarrow> r | None \<Rightarrow> None)"

text \<open>The last node on the way down that is not before the entry.\<close>

fun match_down :: "('n \<Rightarrow> int) \<Rightarrow> 'n rb \<Rightarrow> 'n option \<Rightarrow> 'n option" where
  "match_down rc Lf m = m"
| "match_down rc (Nd c l a r) m = (if rc a \<ge> 0 then match_down rc l (Some a) else match_down rc r m)"

text \<open>The comparison with the first node comes before any test for an empty table.\<close>

definition rblist__find_first :: "('n \<Rightarrow> 'e \<Rightarrow> int) \<Rightarrow> 'e \<Rightarrow> 'n rblist \<Rightarrow> 'n option option" where
  "rblist__find_first node_cmp e rl =
     (case rl_leftmost rl of
        None \<Rightarrow> None
      | Some f \<Rightarrow> if node_cmp f e \<ge> 0 then Some (Some f)
                  else Some (match_down (\<lambda>n. node_cmp n e) (rl_tree rl) None))"

text \<open>The node with the given index; the walk stops at the last one.\<close>

fun entry_from :: "nat \<Rightarrow> 'n place option \<Rightarrow> 'n place option" where
  "entry_from i None = None"
| "entry_from 0 (Some z) = Some z"
| "entry_from (Suc i) (Some z) = entry_from i (rb_next z)"

definition rblist__entry :: "'n rblist \<Rightarrow> nat \<Rightarrow> 'n place option" where
  "rblist__entry rl idx = entry_from idx (rb_first (rl_tree rl))"

text \<open>
  Writing through the pointer to a node that the search found: the node keeps its place, and
  the cached pointer to it sees the change.
\<close>

definition write_node :: "('n \<Rightarrow> 'e \<Rightarrow> int) \<Rightarrow> 'e \<Rightarrow> ('n \<Rightarrow> 'n) \<Rightarrow> 'n rblist \<Rightarrow> 'n rblist" where
  "write_node cmp e f rl =
     (case descend (\<lambda>n. cmp n e) (rl_tree rl) [] True of
        ((Nd c l a r, fs), _) \<Rightarrow>
          rl\<lparr>rl_tree := plug (Nd c l (f a) r) fs,
             rl_leftmost := (if rl_leftmost rl = Some a then Some (f a) else rl_leftmost rl)\<rparr>
      | ((Lf, fs), _) \<Rightarrow> rl)"

section \<open>Removing\<close>

definition rb_erase_cached :: "'n place \<Rightarrow> 'n rblist \<Rightarrow> 'n rblist option" where
  "rb_erase_cached z rl =
     (case z of
        (Lf, fs) \<Rightarrow> None
      | (Nd c l a r, fs) \<Rightarrow>
          let lm = (if rl_leftmost rl = Some a
                    then (case rb_next z of Some (Nd _ _ b _, _) \<Rightarrow> Some b | _ \<Rightarrow> None) else rl_leftmost rl)
          in map_option (\<lambda>t. rl\<lparr>rl_leftmost := lm, rl_tree := t\<rparr>) (rb_erase z))"

text \<open>The node that is handed to \<open>node_delete\<close> is the element of the place.\<close>

definition rblist__remove_node :: "'n place \<Rightarrow> 'n rblist \<Rightarrow> 'n rblist option" where
  "rblist__remove_node z rl =
     map_option (\<lambda>rl1. rl1\<lparr>rl_nr_entries := rl_nr_entries rl1 - 1\<rparr>) (rb_erase_cached z rl)"

text \<open>
  \<open>rblist__exit\<close>: the first node is removed as long as there is one; the second result is
  what \<open>node_delete\<close> was called with. \<open>n\<close> bounds the number of rounds.
\<close>

fun rblist__exit :: "nat \<Rightarrow> 'n rblist \<Rightarrow> ('n rblist \<times> 'n list) option" where
  "rblist__exit n rl =
     (case rb_first (rl_tree rl) of
        None \<Rightarrow> Some (rl, [])
      | Some (Lf, _) \<Rightarrow> None
      | Some (Nd c l a r, fs) \<Rightarrow>
          (case n of
             0 \<Rightarrow> None
           | Suc k \<Rightarrow>
               (case rblist__remove_node (Nd c l a r, fs) rl of
                  None \<Rightarrow> None
                | Some rl1 \<Rightarrow> map_option (\<lambda>(rl2, ds). (rl2, a # ds)) (rblist__exit k rl1))))"

declare rblist__exit.simps [simp del]

section \<open>The promise of a table\<close>

text \<open>Balanced, strictly ascending keys, a true cache and a true count.\<close>

definition table_ok :: "('n \<Rightarrow> 'k::linorder) \<Rightarrow> 'n rblist \<Rightarrow> bool" where
  "table_ok nkey rl \<longleftrightarrow> rbt (rl_tree rl) \<and> sorted_wrt (<) (map nkey (inorder (rl_tree rl))) \<and>
     rl_leftmost rl = (case inorder (rl_tree rl) of [] \<Rightarrow> None | a # _ \<Rightarrow> Some a) \<and>
     rl_nr_entries rl = length (inorder (rl_tree rl))"

text \<open>The nodes of a table in their order.\<close>

abbreviation entries :: "'n rblist \<Rightarrow> 'n list" where
  "entries rl \<equiv> inorder (rl_tree rl)"

text \<open>The table as a map from keys to nodes.\<close>

definition table_map :: "('n \<Rightarrow> 'k) \<Rightarrow> 'n rblist \<Rightarrow> 'k \<rightharpoonup> 'n" where
  "table_map nkey rl = map_of (map (\<lambda>n. (nkey n, n)) (entries rl))"

lemma table_init_ok: "table_ok nkey rblist__init"
  by (simp add: table_ok_def rblist__init_def rbt_def)

lemma map_of_split:
  "sorted_wrt (<) (map nkey (xs @ ys)) \<Longrightarrow> \<forall>x\<in>set xs. nkey x < k \<Longrightarrow> \<forall>y\<in>set ys. k < nkey y \<Longrightarrow>
   map_of (map (\<lambda>n. (nkey n, n)) (xs @ n # ys)) = (map_of (map (\<lambda>n. (nkey n, n)) (xs @ ys)))(nkey n \<mapsto> n)"
  if "nkey n = (k :: 'k::linorder)"
  using that by (induction xs) (auto simp: fun_eq_iff)

lemma map_of_none:
  "\<forall>x\<in>set xs. nkey x \<noteq> k \<Longrightarrow> map_of (map (\<lambda>n. (nkey n, n)) xs) k = None"
  by (induction xs) auto

text \<open>A table whose comparison is the comparison of keys: \<open>nkey\<close> of a node, \<open>ekey\<close> of an entry.\<close>

locale node_order =
  fixes node_cmp :: "'n \<Rightarrow> 'e \<Rightarrow> int"
    and nkey :: "'n \<Rightarrow> 'k::linorder"
    and ekey :: "'e \<Rightarrow> 'k"
  assumes cmp_pos: "node_cmp n e > 0 \<longleftrightarrow> ekey e < nkey n"
    and cmp_neg: "node_cmp n e < 0 \<longleftrightarrow> nkey n < ekey e"
begin

lemma cmp_zero: "\<not> node_cmp n e > 0 \<Longrightarrow> \<not> node_cmp n e < 0 \<Longrightarrow> nkey n = ekey e"
  using cmp_pos cmp_neg by (meson linorder_less_linear)

definition below :: "'e \<Rightarrow> 'n path \<Rightarrow> bool" where
  "below e fs \<longleftrightarrow> (\<forall>x\<in>set (before fs). nkey x < ekey e) \<and> (\<forall>x\<in>set (after fs). ekey e < nkey x)"

lemma descend_spec:
  assumes "descend (\<lambda>n. node_cmp n e) t fs lm = ((u, gs), lm')"
    "sorted_wrt (<) (map nkey (inorder (plug t fs)))" "below e fs" "lm \<longleftrightarrow> before fs = []"
  shows "plug u gs = plug t fs \<and> below e gs \<and> (lm' \<longleftrightarrow> before gs = []) \<and> (case u of Lf \<Rightarrow> True | Nd c l a r \<Rightarrow> nkey a = ekey e)"
  using assms
proof (induction "\<lambda>n. node_cmp n e" t fs lm rule: descend.induct)
  case (2 c l a r fs lm)
  have s: "nkey x < nkey a" if "x \<in> set (inorder l)" for x using "2.prems"(2) that by (auto simp: sorted_wrt_append)
  have t: "nkey a < nkey x" if "x \<in> set (inorder r)" for x using "2.prems"(2) that by (auto simp: sorted_wrt_append)
  consider (gt) "node_cmp a e > 0" | (lt) "node_cmp a e < 0" | (eq) "\<not> node_cmp a e > 0" "\<not> node_cmp a e < 0" by linarith
  then show ?case
  proof cases
    case gt
    then have k: "ekey e < nkey a" by (simp add: cmp_pos)
    then have "below e (InL c a r # fs)" using "2.prems"(3) t by (auto simp: below_def intro: less_trans)
    then show ?thesis using gt "2.hyps"(1) "2.prems"(1,2,4) by simp
  next
    case lt
    then have k: "nkey a < ekey e" by (simp add: cmp_neg)
    then have "below e (InR c l a # fs)" using "2.prems"(3) s by (auto simp: below_def intro: less_trans)
    then show ?thesis using lt "2.hyps"(2) "2.prems"(1,2) by simp
  next
    case eq
    then show ?thesis using "2.prems" cmp_zero [OF eq] by auto
  qed
qed simp

lemma search:
  assumes "table_ok nkey rl" "descend (\<lambda>n. node_cmp n e) (rl_tree rl) [] True = ((u, gs), lm)"
  shows "plug u gs = rl_tree rl" "below e gs" "lm \<longleftrightarrow> before gs = []"
    "u = Nd c l a r \<Longrightarrow> nkey a = ekey e" "u = Lf \<Longrightarrow> table_map nkey rl (ekey e) = None"
    "u = Nd c l a r \<Longrightarrow> table_map nkey rl (ekey e) = Some a"
proof -
  have s: "sorted_wrt (<) (map nkey (inorder (plug (rl_tree rl) [])))" using assms(1) by (simp add: table_ok_def)
  have d: "plug u gs = rl_tree rl \<and> below e gs \<and> (lm \<longleftrightarrow> before gs = []) \<and> (case u of Lf \<Rightarrow> True | Nd c l a r \<Rightarrow> nkey a = ekey e)"
    using descend_spec [OF assms(2) s] by (simp add: below_def)
  then show 1: "plug u gs = rl_tree rl" "below e gs" "lm \<longleftrightarrow> before gs = []" "u = Nd c l a r \<Longrightarrow> nkey a = ekey e" by auto
  show "table_map nkey rl (ekey e) = None" if "u = Lf"
    unfolding table_map_def using 1(1,2) that by (intro map_of_none) (auto simp: below_def 1(1) [symmetric])
  show "table_map nkey rl (ekey e) = Some a" if u: "u = Nd c l a r"
  proof -
    have i: "entries rl = (before gs @ inorder l) @ a # (inorder r @ after gs)" using 1(1) u by (simp flip: 1(1))
    have "sorted_wrt (<) (map nkey (entries rl))" using assms(1) by (simp add: table_ok_def)
    then have "map_of (map (\<lambda>n. (nkey n, n)) (entries rl)) (nkey a) = Some a"
      unfolding i by (subst map_of_split [where k = "nkey a"]) (auto simp: sorted_wrt_append)
    then show ?thesis using 1(4) u by (simp add: table_map_def)
  qed
qed

lemma insert_new:
  assumes ok: "table_ok nkey rl" and d: "descend (\<lambda>n. node_cmp n e) (rl_tree rl) [] True = ((Lf, gs), lm)"
    and k: "nkey n = ekey e"
  shows "\<exists>rl1. rb_insert_color_cached n gs lm rl = Some rl1 \<and> table_ok nkey (rl1\<lparr>rl_nr_entries := rl_nr_entries rl1 + 1\<rparr>) \<and>
    table_map nkey rl1 = (table_map nkey rl)(ekey e \<mapsto> n) \<and> entries rl1 = before gs @ n # after gs \<and>
    entries rl = before gs @ after gs \<and> rl_nr_entries rl1 = rl_nr_entries rl"
proof -
  note s = search [OF ok d]
  have i: "entries rl = before gs @ after gs" using s(1) by (simp flip: s(1))
  have "rbt (plug Lf gs)" using ok s(1) by (simp add: table_ok_def)
  then obtain t where t: "rb_insert_color n gs = Some t" "rbt t" "inorder t = before gs @ n # after gs"
    using insert_rbt [of gs n] by blast
  have so: "sorted_wrt (<) (map nkey (before gs @ after gs))" using ok i by (simp add: table_ok_def)
  have "sorted_wrt (<) (map nkey (before gs @ n # after gs))"
    using so s(2) k by (auto simp: sorted_wrt_append below_def)
  moreover have "map_of (map (\<lambda>n. (nkey n, n)) (before gs @ n # after gs)) =
      (map_of (map (\<lambda>n. (nkey n, n)) (before gs @ after gs)))(ekey e \<mapsto> n)"
    using map_of_split [OF k so] s(2) k by (simp add: below_def)
  moreover have "(if lm then Some n else rl_leftmost rl) = (case before gs @ n # after gs of [] \<Rightarrow> None | a # _ \<Rightarrow> Some a)"
    using ok i s(3) by (cases "before gs") (simp_all add: table_ok_def)
  moreover have "rl_nr_entries rl = length (before gs) + length (after gs)" using ok i by (simp add: table_ok_def)
  ultimately show ?thesis
    using t i by (simp add: rb_insert_color_cached_def table_ok_def table_map_def)
qed

lemma findnew_spec:
  assumes ok: "table_ok nkey rl" and k: "\<And>n. node_new = Some n \<Longrightarrow> nkey n = ekey e"
  shows "\<exists>r rl1. rblist__findnew node_cmp node_new e create rl = Some (r, rl1) \<and> table_ok nkey rl1 \<and>
    (case table_map nkey rl (ekey e) of
       Some a \<Rightarrow> r = Some a \<and> rl1 = rl
     | None \<Rightarrow> if create \<and> node_new \<noteq> None
               then r = node_new \<and> table_map nkey rl1 = (table_map nkey rl)(ekey e := node_new) \<and>
                    rl_nr_entries rl1 = rl_nr_entries rl + 1
               else r = None \<and> rl1 = rl)"
proof -
  obtain u gs lm where d: "descend (\<lambda>n. node_cmp n e) (rl_tree rl) [] True = ((u, gs), lm)" by (metis prod.exhaust)
  note s = search [OF ok d]
  show ?thesis
  proof (cases u)
    case (Nd c l a r)
    then show ?thesis using s(6) [OF Nd] d ok by (simp add: rblist__findnew_def)
  next
    case Lf
    show ?thesis
    proof (cases "create \<and> node_new \<noteq> None")
      case True
      then obtain n where n: "node_new = Some n" by auto
      from insert_new [OF ok d [unfolded Lf] k [OF n]] obtain rl1 where
        "rb_insert_color_cached n gs lm rl = Some rl1" "table_ok nkey (rl1\<lparr>rl_nr_entries := rl_nr_entries rl1 + 1\<rparr>)"
        "table_map nkey rl1 = (table_map nkey rl)(ekey e \<mapsto> n)" "rl_nr_entries rl1 = rl_nr_entries rl" by blast
      then show ?thesis using s(5) [OF Lf] d Lf True n by (simp add: rblist__findnew_def table_map_def)
    next
      case False
      then show ?thesis using s(5) [OF Lf] d Lf ok by (auto simp: rblist__findnew_def split: option.split)
    qed
  qed
qed

lemma find_spec: "table_ok nkey rl \<Longrightarrow> rblist__find node_cmp e rl = table_map nkey rl (ekey e)"
  using findnew_spec [of rl None e False] by (auto simp: rblist__find_def split: option.splits)

lemma add_spec:
  assumes ok: "table_ok nkey rl" and k: "nkey n = ekey e"
  shows "\<exists>r rl1. rblist__add_node node_cmp (Some n) e rl = Some (r, rl1) \<and> table_ok nkey rl1 \<and>
    (if table_map nkey rl (ekey e) = None
     then r = 0 \<and> table_map nkey rl1 = (table_map nkey rl)(ekey e \<mapsto> n) \<and> mset (entries rl1) = add_mset n (mset (entries rl)) \<and>
          rl_nr_entries rl1 = rl_nr_entries rl + 1
     else r = - EEXIST \<and> rl1 = rl)"
proof -
  obtain u gs lm where d: "descend (\<lambda>n. node_cmp n e) (rl_tree rl) [] True = ((u, gs), lm)" by (metis prod.exhaust)
  note s = search [OF ok d]
  show ?thesis
  proof (cases u)
    case (Nd c l a r)
    then show ?thesis using s(6) [OF Nd] d ok by (simp add: rblist__add_node_def)
  next
    case Lf
    from insert_new [OF ok d [unfolded Lf] k] obtain rl1 where
      "rb_insert_color_cached n gs lm rl = Some rl1" "table_ok nkey (rl1\<lparr>rl_nr_entries := rl_nr_entries rl1 + 1\<rparr>)"
      "table_map nkey rl1 = (table_map nkey rl)(ekey e \<mapsto> n)" "rl_nr_entries rl1 = rl_nr_entries rl"
      "entries rl1 = before gs @ n # after gs" "entries rl = before gs @ after gs" by blast
    then show ?thesis using s(5) [OF Lf] d Lf by (simp add: rblist__add_node_def table_map_def)
  qed
qed

text \<open>Writing a node without changing its key changes the map there.\<close>

lemma write_spec:
  assumes ok: "table_ok nkey rl" and m: "table_map nkey rl (ekey e) = Some a" and k: "nkey (f a) = nkey a"
  shows "table_ok nkey (write_node node_cmp e f rl)"
    "table_map nkey (write_node node_cmp e f rl) = (table_map nkey rl)(ekey e \<mapsto> f a)"
    "rl_nr_entries (write_node node_cmp e f rl) = rl_nr_entries rl"
proof -
  obtain u gs lm where d: "descend (\<lambda>n. node_cmp n e) (rl_tree rl) [] True = ((u, gs), lm)" by (metis prod.exhaust)
  note s = search [OF ok d]
  obtain c l a' r where u': "u = Nd c l a' r" using s(5) m by (cases u) auto
  have u: "u = Nd c l a r" using s(6) [OF u'] m u' by simp
  have ke: "nkey a = ekey e" using s(4) [OF u] .
  let ?xs = "before gs @ inorder l" and ?ys = "inorder r @ after gs"
  have i: "entries rl = ?xs @ a # ?ys" using s(1) u by (simp flip: s(1))
  have so: "sorted_wrt (<) (map nkey (?xs @ a # ?ys))" using ok i by (simp add: table_ok_def)
  then have so': "sorted_wrt (<) (map nkey (?xs @ ?ys))" by (auto simp: sorted_wrt_append)
  have w: "write_node node_cmp e f rl = rl\<lparr>rl_tree := plug (Nd c l (f a) r) gs,
      rl_leftmost := (if rl_leftmost rl = Some a then Some (f a) else rl_leftmost rl)\<rparr>"
    using d u by (simp add: write_node_def)
  have "rbt (plug (Nd c l a r) gs)" using ok s(1) u by (simp add: table_ok_def)
  then have "rbt (plug (Nd c l (f a) r) gs)" by (cases c) (auto simp: rbt_plug)
  moreover have "sorted_wrt (<) (map nkey (?xs @ f a # ?ys))" using so k by (simp add: sorted_wrt_append)
  moreover have "(if rl_leftmost rl = Some a then Some (f a) else rl_leftmost rl) =
      (case ?xs @ f a # ?ys of [] \<Rightarrow> None | b # _ \<Rightarrow> Some b)"
  proof -
    have "rl_leftmost rl = (case ?xs @ a # ?ys of [] \<Rightarrow> None | b # _ \<Rightarrow> Some b)" using ok i by (simp add: table_ok_def)
    moreover have "a \<notin> set ?xs" using so by (auto simp: sorted_wrt_append)
    ultimately show ?thesis by (cases ?xs) auto
  qed
  moreover have "rl_nr_entries rl = length (?xs @ f a # ?ys)" using ok i by (simp add: table_ok_def)
  moreover have "inorder (plug (Nd c l (f a) r) gs) = ?xs @ f a # ?ys" by simp
  ultimately show "table_ok nkey (write_node node_cmp e f rl)"
    unfolding w table_ok_def by (simp del: inorder_plug map_append append_assoc length_append)
  have b: "\<forall>x\<in>set ?xs. nkey x < ekey e" "\<forall>y\<in>set ?ys. ekey e < nkey y" using so ke by (auto simp: sorted_wrt_append)
  have fk: "nkey (f a) = ekey e" using k ke by simp
  show "table_map nkey (write_node node_cmp e f rl) = (table_map nkey rl)(ekey e \<mapsto> f a)"
    using map_of_split [OF fk so' b] map_of_split [OF ke so' b] i ke fk unfolding w table_map_def by simp
  show "rl_nr_entries (write_node node_cmp e f rl) = rl_nr_entries rl" unfolding w by simp
qed

text \<open>Finding a node or making it, and then writing to it.\<close>

lemma upsert_spec:
  assumes ok: "table_ok nkey rl" and n: "nkey n = ekey e" and f: "\<And>a. nkey (f a) = nkey a"
  shows "\<exists>r rl1. rblist__findnew node_cmp (Some n) e True rl = Some (Some r, rl1) \<and>
    r = (case table_map nkey rl (ekey e) of Some a \<Rightarrow> a | None \<Rightarrow> n) \<and> table_ok nkey (write_node node_cmp e f rl1) \<and>
    table_map nkey (write_node node_cmp e f rl1) = (table_map nkey rl)(ekey e \<mapsto> f r)"
proof -
  obtain r rl1 where 1: "rblist__findnew node_cmp (Some n) e True rl = Some (r, rl1)" "table_ok nkey rl1"
    "case table_map nkey rl (ekey e) of Some a \<Rightarrow> r = Some a \<and> rl1 = rl
     | None \<Rightarrow> if True \<and> Some n \<noteq> None then r = Some n \<and> table_map nkey rl1 = (table_map nkey rl)(ekey e := Some n) \<and>
         rl_nr_entries rl1 = rl_nr_entries rl + 1 else r = None \<and> rl1 = rl"
    using findnew_spec [OF ok, of "Some n" e True] n by auto
  define a where "a = (case table_map nkey rl (ekey e) of Some a \<Rightarrow> a | None \<Rightarrow> n)"
  have r: "r = Some a" "table_map nkey rl1 (ekey e) = Some a" "(table_map nkey rl1)(ekey e \<mapsto> f a) = (table_map nkey rl)(ekey e \<mapsto> f a)"
    using 1(3) by (auto simp: a_def split: option.splits)
  note w = write_spec [OF 1(2) r(2), of f, OF f]
  show ?thesis using 1(1) r w by (auto simp: a_def)
qed

text \<open>The first node that is not before the entry.\<close>

lemma match_down_spec:
  "sorted_wrt (<) (map nkey (inorder t)) \<Longrightarrow>
   match_down (\<lambda>n. node_cmp n e) t m =
     (case filter (\<lambda>n. ekey e \<le> nkey n) (inorder t) of [] \<Rightarrow> m | a # _ \<Rightarrow> Some a)"
proof (induction "\<lambda>n. node_cmp n e" t m rule: match_down.induct)
  case (2 c l a r m)
  have s: "sorted_wrt (<) (map nkey (inorder l))" "sorted_wrt (<) (map nkey (inorder r))"
      "\<And>x. x \<in> set (inorder l) \<Longrightarrow> nkey x < nkey a"
    using "2.prems" by (auto simp: sorted_wrt_append)
  show ?case
  proof (cases "node_cmp a e \<ge> 0")
    case True
    then have "ekey e \<le> nkey a" using cmp_neg [of a e] by (meson linorder_not_le)
    then show ?thesis using True 2(1) s(1) by (auto split: list.splits)
  next
    case False
    then have k: "nkey a < ekey e" using cmp_neg [of a e] by simp
    then have "filter (\<lambda>n. ekey e \<le> nkey n) (inorder l) = []" using s(3) by (auto simp: filter_empty_conv not_le intro: less_trans)
    then show ?thesis using False k 2(2) s(2) by (auto split: list.splits)
  qed
qed simp

lemma find_first_spec:
  assumes ok: "table_ok nkey rl" and ne: "entries rl \<noteq> []"
  shows "rblist__find_first node_cmp e rl =
    Some (case filter (\<lambda>n. ekey e \<le> nkey n) (entries rl) of [] \<Rightarrow> None | a # _ \<Rightarrow> Some a)"
proof -
  obtain a xs where x: "entries rl = a # xs" using ne by (cases "entries rl") auto
  have l: "rl_leftmost rl = Some a" using ok x by (simp add: table_ok_def)
  show ?thesis
  proof (cases "node_cmp a e \<ge> 0")
    case True
    then have "ekey e \<le> nkey a" using cmp_neg [of a e] by (meson linorder_not_le)
    then show ?thesis using True l x by (simp add: rblist__find_first_def)
  next
    case False
    then have "rblist__find_first node_cmp e rl = Some (match_down (\<lambda>n. node_cmp n e) (rl_tree rl) None)"
      by (simp add: rblist__find_first_def l)
    then show ?thesis using ok match_down_spec [of "rl_tree rl" e None] by (simp add: table_ok_def)
  qed
qed

end

section \<open>Removing\<close>

lemma remove_ok:
  assumes ok: "table_ok nkey rl" and z: "plug (Nd c l a r) fs = rl_tree rl"
  shows "\<exists>rl1. rblist__remove_node (Nd c l a r, fs) rl = Some rl1 \<and> table_ok nkey rl1 \<and>
    entries rl = (before fs @ inorder l) @ a # (inorder r @ after fs) \<and>
    entries rl1 = before fs @ inorder l @ inorder r @ after fs"
proof -
  have i: "entries rl = (before fs @ inorder l) @ a # (inorder r @ after fs)" by (simp flip: z)
  have "rbt (plug (Nd c l a r) fs)" using ok z by (simp add: table_ok_def)
  then obtain t where t: "rb_erase (Nd c l a r, fs) = Some t" "rbt t"
      "inorder t = before fs @ inorder l @ inorder r @ after fs" using erase_rbt [of c l a r fs] by blast
  have so: "sorted_wrt (<) (map nkey ((before fs @ inorder l) @ a # (inorder r @ after fs)))"
    using ok i by (simp add: table_ok_def)
  then have ne: "a \<notin> set (before fs @ inorder l)" by (auto simp: sorted_wrt_append)
  have lm: "rl_leftmost rl = Some (hd (entries rl))" 
  proof -
    have "entries rl \<noteq> []" using i by simp
    then show ?thesis using ok by (cases "entries rl") (simp_all add: table_ok_def)
  qed
  have nx: "(case rb_next (Nd c l a r, fs) of Some (Nd _ _ b _, _) \<Rightarrow> Some b | _ \<Rightarrow> None) =
      (case inorder r @ after fs of [] \<Rightarrow> None | b # _ \<Rightarrow> Some b)"
  proof -
    have "at (inorder r @ after fs) (rb_next (Nd c l a r, fs))" by (rule next_at) (simp add: at_def)
    then show ?thesis
      by (cases "rb_next (Nd c l a r, fs)") (auto simp: at_None dest!: at_Some simp del: rb_next.simps)
  qed
  let ?lm = "if rl_leftmost rl = Some a
     then (case rb_next (Nd c l a r, fs) of Some (Nd _ _ b _, _) \<Rightarrow> Some b | _ \<Rightarrow> None) else rl_leftmost rl"
  have "?lm = (case (before fs @ inorder l) @ (inorder r @ after fs) of [] \<Rightarrow> None | b # _ \<Rightarrow> Some b)"
  proof (cases "before fs @ inorder l")
    case Nil
    then show ?thesis using lm i nx by simp
  next
    case (Cons b bs)
    then have "a \<noteq> b" using ne by auto
    then show ?thesis using Cons lm i by simp
  qed
  then show ?thesis
    using t i so ok by (auto simp: rblist__remove_node_def rb_erase_cached_def Let_def table_ok_def sorted_wrt_append
        simp del: rb_next.simps)
qed

lemma first_place:
  assumes "table_ok nkey rl" "entries rl \<noteq> []"
  shows "\<exists>c a r fs. rb_first (rl_tree rl) = Some (Nd c Lf a r, fs) \<and> plug (Nd c Lf a r) fs = rl_tree rl \<and>
    before fs = [] \<and> entries rl = a # inorder r @ after fs"
proof -
  have "rl_tree rl \<noteq> Lf" using assms(2) by auto
  then obtain c a r up where u: "leftmost (rl_tree rl) [] = (Nd c Lf a r, up)" "before up = []"
      "\<forall>gs. plug (rl_tree rl) gs = plug (Nd c Lf a r) (up @ gs)" "a # inorder r @ after up = entries rl"
    using leftmost_spec [of "rl_tree rl" "[]"] by auto
  then show ?thesis using u(3) [rule_format, of "[]"] \<open>rl_tree rl \<noteq> Lf\<close> by (simp add: rb_first_def)
qed

lemma exit_ok:
  "table_ok nkey rl \<Longrightarrow> length (entries rl) \<le> n \<Longrightarrow>
   \<exists>rl1. rblist__exit n rl = Some (rl1, entries rl) \<and> rl_tree rl1 = Lf \<and> rl_leftmost rl1 = None \<and> rl_nr_entries rl1 = 0"
proof (induction n arbitrary: rl)
  case 0
  then have "rl_tree rl = Lf" by (cases "rl_tree rl") auto
  then show ?case using 0 by (subst rblist__exit.simps) (simp add: rb_first_def table_ok_def)
next
  case (Suc n)
  show ?case
  proof (cases "entries rl = []")
    case True
    then have "rl_tree rl = Lf" by (cases "rl_tree rl") auto
    then show ?thesis using Suc.prems by (subst rblist__exit.simps) (simp add: rb_first_def table_ok_def)
  next
    case False
    obtain c a r fs where f: "rb_first (rl_tree rl) = Some (Nd c Lf a r, fs)" "plug (Nd c Lf a r) fs = rl_tree rl"
        "before fs = []" "entries rl = a # inorder r @ after fs" using first_place [OF Suc.prems(1) False] by blast
    obtain rl1 where 1: "rblist__remove_node (Nd c Lf a r, fs) rl = Some rl1" "table_ok nkey rl1"
        "entries rl1 = inorder r @ after fs" using remove_ok [OF Suc.prems(1) f(2)] f(3) by auto
    obtain rl2 where "rblist__exit n rl1 = Some (rl2, entries rl1)" "rl_tree rl2 = Lf" "rl_leftmost rl2 = None"
        "rl_nr_entries rl2 = 0" using Suc.IH [OF 1(2)] 1(3) Suc.prems(2) f(4) by auto
    then show ?thesis using f 1 by (subst rblist__exit.simps) simp
  qed
qed

text \<open>The entry with an index is the element at that position of the order.\<close>

lemma entry_from_spec:
  "at xs z \<Longrightarrow>
   (case entry_from i z of None \<Rightarrow> length xs \<le> i | Some (u, fs) \<Rightarrow> i < length xs \<and> (\<exists>c l r. u = Nd c l (xs ! i) r))"
proof (induction i z arbitrary: xs rule: entry_from.induct)
  case (3 i z)
  then obtain c l a r fs where z: "z = (Nd c l a r, fs)" "xs = a # inorder r @ after fs" using at_Some [of xs z] by auto
  have "at (inorder r @ after fs) (rb_next z)" unfolding z(1) by (rule next_at) (simp add: at_def)
  from "3.IH" [OF this] show ?case using z by (auto split: option.splits simp del: rb_next.simps)
qed (auto simp: at_None dest: at_Some)

section \<open>Tables as maps\<close>

lemma entries_distinct: "table_ok nkey rl \<Longrightarrow> distinct (map nkey (entries rl))"
  by (auto simp: table_ok_def strict_sorted_iff)

lemma table_map_None: "table_map nkey rl k = None \<longleftrightarrow> k \<notin> nkey ` set (entries rl)"
  by (auto simp: table_map_def map_of_eq_None_iff image_image)

lemma rblist_emptied: "rl_tree rl = Lf \<Longrightarrow> rl_leftmost rl = None \<Longrightarrow> rl_nr_entries rl = 0 \<Longrightarrow> rl = rblist__init"
  by (simp add: rblist__init_def)

lemma table_empty: "table_ok nkey rl \<Longrightarrow> rblist__empty rl \<longleftrightarrow> entries rl = []"
  by (simp add: table_ok_def rblist__empty_def)

lemma entries_ran: "table_ok nkey rl \<Longrightarrow> set (entries rl) = ran (table_map nkey rl)"
proof -
  assume a: "table_ok nkey rl"
  have "distinct (map fst (map (\<lambda>n. (nkey n, n)) (entries rl)))" using entries_distinct [OF a] by (simp add: comp_def)
  then have "ran (table_map nkey rl) = snd ` set (map (\<lambda>n. (nkey n, n)) (entries rl))" unfolding table_map_def by (rule ran_distinct)
  then show ?thesis by (simp add: image_image)
qed

lemma table_ok_cong: "(\<And>a. a \<in> set (entries rl) \<Longrightarrow> k a = k' a) \<Longrightarrow> table_ok k rl = table_ok k' rl"
  unfolding table_ok_def by (metis map_eq_conv)

lemma table_map_cong: "(\<And>a. a \<in> set (entries rl) \<Longrightarrow> k a = k' a) \<Longrightarrow> table_map k rl = table_map k' rl"
  unfolding table_map_def by (metis (mono_tags, lifting) map_eq_conv)

lemma table_map_entry: "table_map k rl x = Some a \<Longrightarrow> a \<in> set (entries rl) \<and> k a = x"
  by (auto simp: table_map_def dest!: map_of_SomeD)

lemma table_map_of: "table_ok k rl \<Longrightarrow> a \<in> set (entries rl) \<Longrightarrow> table_map k rl (k a) = Some a"
  by (auto simp: table_map_def table_ok_def strict_sorted_iff comp_def intro!: map_of_is_SomeI)

lemma table_map_remove:
  assumes "table_ok k rl" "entries rl = xs @ a # ys" "entries rl1 = xs @ ys"
  shows "table_map k rl1 = (table_map k rl)(k a := None)"
proof -
  have s: "sorted_wrt (<) (map k (xs @ a # ys))" using assms(1,2) by (simp add: table_ok_def)
  have "table_map k rl = (table_map k rl1)(k a \<mapsto> a)"
    unfolding table_map_def assms(2,3) using s by (intro map_of_split [OF refl]) (auto simp: sorted_wrt_append)
  moreover have "table_map k rl1 (k a) = None"
    unfolding table_map_def assms(3) using s by (intro map_of_none) (auto simp: sorted_wrt_append)
  ultimately show ?thesis by (simp add: fun_upd_idem)
qed

lemma descend_cong:
  "(\<And>a. a \<in> set (inorder t) \<Longrightarrow> rc a = rc' a) \<Longrightarrow> descend rc t fs lm = descend rc' t fs lm"
  by (induction t arbitrary: fs lm) simp_all

lemma findnew_cong:
  assumes "\<And>a. a \<in> set (entries rl) \<Longrightarrow> cmp a e = cmp' a e"
  shows "rblist__findnew cmp new e create rl = rblist__findnew cmp' new e create rl"
  using descend_cong [of "rl_tree rl" "\<lambda>a. cmp a e" "\<lambda>a. cmp' a e"] assms by (simp add: rblist__findnew_def)

end
