(* ===== verification/Latency.thy ===== *)
theory Latency
  imports Rblist "HOL-Library.Product_Lexorder"
begin

text \<open>
  Latency statistics, \<open>src/latency_helpers.c\<close>: one node per instance and key (or for all of
  them, as the flags say) with the least and the greatest latency, their number, their sum
  and how many exceeded a threshold. The samples that went into the digest of a node are kept
  as a list; the digest itself computes with floating-point numbers.
\<close>

record latency_node =
  ln_td :: "u64 list option"
  ln_instance :: u64
  ln_key :: u64
  ln_min :: u64
  ln_max :: u64
  ln_n :: u64
  ln_than :: u64
  ln_sum :: u64
  ln_extra :: "u8 list"

record latency_dist =
  ld_lat :: "latency_node rblist"
  ld_ref :: nat
  ld_perins :: bool
  ld_perkey :: bool
  ld_quantile :: bool
  ld_extra_size :: nat

type_synonym entry = "u64 \<times> u64"

definition latency_stat_node_cmp :: "bool \<Rightarrow> bool \<Rightarrow> latency_node \<Rightarrow> entry \<Rightarrow> int" where
  "latency_stat_node_cmp perins perkey n e =
     (let i = (if perins then cmp_u64 (ln_instance n) (fst e) else 0)
      in if i \<noteq> 0 then i else if perkey then cmp_u64 (ln_key n) (snd e) else 0)"

text \<open>\<open>latency_stat_node_new\<close>; \<open>mem\<close> says whether the allocations succeed.\<close>

definition latency_stat_node_new :: "latency_dist \<Rightarrow> bool \<Rightarrow> entry \<Rightarrow> latency_node option" where
  "latency_stat_node_new d mem e =
     (if mem then Some \<lparr>ln_td = (if ld_quantile d then Some [] else None), ln_instance = fst e, ln_key = snd e,
                        ln_min = - 1, ln_max = 0, ln_n = 0, ln_than = 0, ln_sum = 0,
                        ln_extra = replicate (ld_extra_size d) 0\<rparr>
      else None)"

definition latency_dist_new :: "bool \<Rightarrow> bool \<Rightarrow> nat \<Rightarrow> latency_dist" where
  "latency_dist_new perins perkey extra_size =
     \<lparr>ld_lat = rblist__init, ld_ref = 1, ld_perins = perins, ld_perkey = perkey, ld_quantile = False,
      ld_extra_size = extra_size\<rparr>"

definition latency_dist_new_quantile :: "bool \<Rightarrow> bool \<Rightarrow> nat \<Rightarrow> latency_dist" where
  "latency_dist_new_quantile perins perkey extra_size =
     (latency_dist_new perins perkey extra_size)\<lparr>ld_quantile := True\<rparr>"

definition latency_dist_ref :: "latency_dist \<Rightarrow> latency_dist" where
  "latency_dist_ref d = d\<lparr>ld_ref := ld_ref d + 1\<rparr>"

text \<open>\<open>refcount_dec_and_test\<close>; None when the last reference went and the nodes were deleted.\<close>

definition latency_dist_free :: "latency_dist \<Rightarrow> latency_dist option" where
  "latency_dist_free d = (if ld_ref d = 1 then None else Some (d\<lparr>ld_ref := ld_ref d - 1\<rparr>))"

text \<open>What one latency does to its node.\<close>

definition node_add :: "u64 \<Rightarrow> u64 \<Rightarrow> latency_node \<Rightarrow> latency_node" where
  "node_add lat greater_than n =
     n\<lparr>ln_td := map_option (\<lambda>xs. xs @ [lat]) (ln_td n),
       ln_min := (if lat < ln_min n then lat else ln_min n),
       ln_max := (if lat > ln_max n then lat else ln_max n),
       ln_than := (if greater_than \<noteq> 0 \<and> lat > greater_than then ln_than n + 1 else ln_than n),
       ln_n := ln_n n + 1,
       ln_sum := ln_sum n + lat\<rparr>"

text \<open>The first result says whether a node is returned.\<close>

definition latency_dist_input :: "bool \<Rightarrow> entry \<Rightarrow> u64 \<Rightarrow> u64 \<Rightarrow> latency_dist \<Rightarrow> (bool \<times> latency_dist) option" where
  "latency_dist_input mem e lat greater_than d =
     (let cmp = latency_stat_node_cmp (ld_perins d) (ld_perkey d) in
      case rblist__findnew cmp (latency_stat_node_new d mem e) e True (ld_lat d) of
        None \<Rightarrow> None
      | Some (None, rl) \<Rightarrow> Some (False, d\<lparr>ld_lat := rl\<rparr>)
      | Some (Some n, rl) \<Rightarrow> Some (True, d\<lparr>ld_lat := write_node cmp e (node_add lat greater_than) rl\<rparr>))"

definition latency_dist_greater_than :: "u64 \<Rightarrow> latency_dist \<Rightarrow> bool option" where
  "latency_dist_greater_than than d =
     (if rblist__empty (ld_lat d) then Some False
      else map_option (\<lambda>ns. \<exists>n\<in>set ns. ln_max n > than) (walk (rl_nr_entries (ld_lat d)) (rb_first (rl_tree (ld_lat d)))))"

text \<open>
  Printing removes the nodes; the second result is what was printed. The loop is that of
  \<open>rblist__exit\<close>, with \<open>printnode\<close> called before each removal.
\<close>

definition latency_dist_print :: "latency_dist \<Rightarrow> (latency_dist \<times> latency_node list) option" where
  "latency_dist_print d =
     (if rblist__empty (ld_lat d) then Some (d, [])
      else map_option (\<lambda>(rl, ns). (d\<lparr>ld_lat := rl\<rparr>, ns)) (rblist__exit (rl_nr_entries (ld_lat d)) (ld_lat d)))"

definition latency_stat__sorted_node_cmp :: "bool \<Rightarrow> bool \<Rightarrow> latency_node \<Rightarrow> latency_node \<Rightarrow> int" where
  "latency_stat__sorted_node_cmp perins perkey n e =
     (let i = (if perins then cmp_u64 (ln_instance n) (ln_instance e) else 0); s = cmp_u64 (ln_sum e) (ln_sum n)
      in if i \<noteq> 0 then i else if s \<noteq> 0 then s else if perkey then cmp_u64 (ln_key n) (ln_key e) else 0)"

text \<open>The first loop of \<open>latency_dist_print_sorted\<close>: the result of the insertion is not looked at.\<close>

fun move_sorted ::
  "(latency_node \<Rightarrow> latency_node \<Rightarrow> int) \<Rightarrow> nat \<Rightarrow> latency_node rblist \<Rightarrow> latency_node rblist \<Rightarrow>
   (latency_node rblist \<times> latency_node rblist) option" where
  "move_sorted cmp 0 lat srt = None"
| "move_sorted cmp (Suc k) lat srt =
     (case rblist__entry lat 0 of
        None \<Rightarrow> None
      | Some (Lf, _) \<Rightarrow> None
      | Some (Nd c l n r, fs) \<Rightarrow>
          (case rblist__remove_node (Nd c l n r, fs) lat of
             None \<Rightarrow> None
           | Some lat1 \<Rightarrow>
               (case rblist__add_node cmp (Some n) n srt of
                  None \<Rightarrow> None
                | Some (rc, srt1) \<Rightarrow>
                    if rblist__empty lat1 then Some (lat1, srt1) else move_sorted cmp k lat1 srt1)))"

definition latency_dist_print_sorted :: "latency_dist \<Rightarrow> (latency_dist \<times> latency_node list) option" where
  "latency_dist_print_sorted d =
     (if rblist__empty (ld_lat d) then Some (d, [])
      else case move_sorted (latency_stat__sorted_node_cmp (ld_perins d) (ld_perkey d)) (rl_nr_entries (ld_lat d))
                  (ld_lat d) rblist__init of
        None \<Rightarrow> None
      | Some (lat, srt) \<Rightarrow>
          map_option (\<lambda>(_, ns). (d\<lparr>ld_lat := lat\<rparr>, ns)) (rblist__exit (rl_nr_entries srt) srt))"

definition latency_dist_find :: "entry \<Rightarrow> latency_dist \<Rightarrow> latency_node option" where
  "latency_dist_find e d = rblist__find (latency_stat_node_cmp (ld_perins d) (ld_perkey d)) e (ld_lat d)"

definition latency_dist_empty :: "latency_dist \<Rightarrow> bool" where
  "latency_dist_empty d = rblist__empty (ld_lat d)"

definition latency_dist_reset :: "latency_dist \<Rightarrow> latency_dist option" where
  "latency_dist_reset d =
     map_option (\<lambda>(rl, _). d\<lparr>ld_lat := rl\<rparr>) (rblist__exit (rl_nr_entries (ld_lat d)) (ld_lat d))"

section \<open>The order of the nodes\<close>

definition node_key :: "bool \<Rightarrow> bool \<Rightarrow> latency_node \<Rightarrow> u64 \<times> u64" where
  "node_key perins perkey n = (if perins then ln_instance n else 0, if perkey then ln_key n else 0)"

definition entry_key :: "bool \<Rightarrow> bool \<Rightarrow> entry \<Rightarrow> u64 \<times> u64" where
  "entry_key perins perkey e = (if perins then fst e else 0, if perkey then snd e else 0)"

text \<open>Descending sums are ascending complements.\<close>

definition sorted_key :: "bool \<Rightarrow> bool \<Rightarrow> latency_node \<Rightarrow> u64 \<times> u64 \<times> u64" where
  "sorted_key perins perkey n =
     (if perins then ln_instance n else 0, - 1 - ln_sum n, if perkey then ln_key n else 0)"

lemma flip_uint: "uint (- 1 - x) = 2 ^ 64 - 1 - uint x" for x :: u64
  using uint_bounded [of x] by (simp add: uint_sub_if' unsigned_minus_1_eq_mask mask_eq_exp_minus_1)

lemma flip_order [simp]:
  fixes a b :: u64
  shows "- 1 - a < - 1 - b \<longleftrightarrow> b < a" "- 1 - a \<le> - 1 - b \<longleftrightarrow> b \<le> a"
  by (simp_all add: word_less_def word_le_def flip_uint)

interpretation lat: node_order "latency_stat_node_cmp perins perkey" "node_key perins perkey" "entry_key perins perkey"
  for perins perkey
  by unfold_locales (auto simp: latency_stat_node_cmp_def node_key_def entry_key_def Let_def cmp_u64_def)

interpretation latsort: node_order "latency_stat__sorted_node_cmp perins perkey" "sorted_key perins perkey" "sorted_key perins perkey"
  for perins perkey
  by unfold_locales (auto simp: latency_stat__sorted_node_cmp_def sorted_key_def Let_def cmp_u64_def)

definition dist_ok :: "latency_dist \<Rightarrow> bool" where
  "dist_ok d \<longleftrightarrow> table_ok (node_key (ld_perins d) (ld_perkey d)) (ld_lat d)"

abbreviation dist_map :: "latency_dist \<Rightarrow> u64 \<times> u64 \<rightharpoonup> latency_node" where
  "dist_map d \<equiv> table_map (node_key (ld_perins d) (ld_perkey d)) (ld_lat d)"

abbreviation dist_key :: "latency_dist \<Rightarrow> entry \<Rightarrow> u64 \<times> u64" where
  "dist_key d \<equiv> entry_key (ld_perins d) (ld_perkey d)"

lemma node_add_key [simp]: "node_key perins perkey (node_add l t n) = node_key perins perkey n"
  by (simp add: node_key_def node_add_def)

lemma node_new_key: "latency_stat_node_new d mem e = Some n \<Longrightarrow> node_key (ld_perins d) (ld_perkey d) n = dist_key d e"
  by (auto simp: latency_stat_node_new_def node_key_def entry_key_def split: if_splits)

lemma input_spec:
  assumes ok: "dist_ok d"
  shows "\<exists>rl. latency_dist_input mem e l t d = Some (mem \<or> dist_map d (dist_key d e) \<noteq> None, d\<lparr>ld_lat := rl\<rparr>) \<and>
    dist_ok (d\<lparr>ld_lat := rl\<rparr>) \<and>
    dist_map (d\<lparr>ld_lat := rl\<rparr>) =
      (case dist_map d (dist_key d e) of
         Some n \<Rightarrow> (dist_map d)(dist_key d e \<mapsto> node_add l t n)
       | None \<Rightarrow> (dist_map d)(dist_key d e := map_option (node_add l t) (latency_stat_node_new d mem e)))"
proof -
  let ?cmp = "latency_stat_node_cmp (ld_perins d) (ld_perkey d)" and ?k = "node_key (ld_perins d) (ld_perkey d)"
  have tok: "table_ok ?k (ld_lat d)" using ok by (simp add: dist_ok_def)
  obtain r rl where f: "rblist__findnew ?cmp (latency_stat_node_new d mem e) e True (ld_lat d) = Some (r, rl)" "table_ok ?k rl"
     "case dist_map d (dist_key d e) of
        Some a \<Rightarrow> r = Some a \<and> rl = ld_lat d
      | None \<Rightarrow> if True \<and> latency_stat_node_new d mem e \<noteq> None
                then r = latency_stat_node_new d mem e \<and>
                     table_map ?k rl = (dist_map d)(dist_key d e := latency_stat_node_new d mem e) \<and>
                     rl_nr_entries rl = rl_nr_entries (ld_lat d) + 1
                else r = None \<and> rl = ld_lat d"
    using lat.findnew_spec [OF tok, of "latency_stat_node_new d mem e" e True] node_new_key by blast
  show ?thesis
  proof (cases r)
    case None
    then have "dist_map d (dist_key d e) = None" "rl = ld_lat d" "latency_stat_node_new d mem e = None"
      using f(3) by (auto split: option.splits if_splits)
    moreover from this have "\<not> mem" by (auto simp: latency_stat_node_new_def)
    ultimately show ?thesis
      using f None by (intro exI [of _ "ld_lat d"]) (auto simp: latency_dist_input_def dist_ok_def fun_upd_idem)
  next
    case (Some n)
    have m: "table_map ?k rl (dist_key d e) = Some n" using f(3) Some by (auto split: option.splits if_splits)
    note w = lat.write_spec [OF f(2) m, of "node_add l t", OF node_add_key]
    show ?thesis
      using f Some w by (cases "dist_map d (dist_key d e)")
        (auto simp: latency_dist_input_def dist_ok_def latency_stat_node_new_def split: if_splits)
  qed
qed

section \<open>Samples and statistics\<close>

type_synonym sample = "entry \<times> u64 \<times> u64"

text \<open>A sequence of calls; every call gives memory when it needs it.\<close>

fun latency_inputs :: "sample list \<Rightarrow> latency_dist \<Rightarrow> latency_dist option" where
  "latency_inputs [] d = Some d"
| "latency_inputs ((e, l, t) # ss) d =
     (case latency_dist_input True e l t d of Some (True, d1) \<Rightarrow> latency_inputs ss d1 | _ \<Rightarrow> None)"

text \<open>The samples of one node, the latencies and thresholds alone.\<close>

definition of_key :: "latency_dist \<Rightarrow> entry \<Rightarrow> sample list \<Rightarrow> sample list" where
  "of_key d e ss = filter (\<lambda>(f, _). dist_key d f = dist_key d e) ss"

definition is_stat :: "sample list \<Rightarrow> latency_node \<Rightarrow> bool" where
  "is_stat xs n \<longleftrightarrow>
     ln_n n = of_nat (length xs) \<and> ln_sum n = sum_list (map (fst \<circ> snd) xs) \<and>
     ln_min n = Min (insert (- 1) (set (map (fst \<circ> snd) xs))) \<and> ln_max n = Max (insert 0 (set (map (fst \<circ> snd) xs))) \<and>
     ln_than n = of_nat (length (filter (\<lambda>(_, l, t). t \<noteq> 0 \<and> l > t) xs)) \<and>
     (ln_td n = None \<or> ln_td n = Some (map (fst \<circ> snd) xs))"

lemma stat_new: "latency_stat_node_new d mem e = Some n \<Longrightarrow> is_stat [] n"
  by (auto simp: latency_stat_node_new_def is_stat_def split: if_splits)

lemma min_insert_word:
  fixes l :: u64
  assumes "finite A"
  shows "Min (insert (- 1) (insert l A)) = (if l < Min (insert (- 1) A) then l else Min (insert (- 1) A))"
proof -
  have "Min (insert l (insert (- 1) A)) = min l (Min (insert (- 1) A))" using assms by (intro Min_insert) auto
  then show ?thesis by (subst insert_commute) (auto simp only: min_def split: if_splits)
qed

lemma max_insert_word:
  fixes l :: u64
  assumes "finite A"
  shows "Max (insert 0 (insert l A)) = (if l > Max (insert 0 A) then l else Max (insert 0 A))"
proof -
  have "Max (insert l (insert 0 A)) = max l (Max (insert 0 A))" using assms by (intro Max_insert) auto
  then show ?thesis by (subst insert_commute) (auto simp only: max_def split: if_splits)
qed

lemma stat_add:
  assumes "is_stat xs n" shows "is_stat (xs @ [(e, l, t)]) (node_add l t n)"
proof -
  let ?A = "set (map (fst \<circ> snd) xs)"
  have eq: "insert x (set (map (fst \<circ> snd) (xs @ [(e, l, t)]))) = insert x (insert l ?A)" for x by simp
  have "ln_min (node_add l t n) = (if l < ln_min n then l else ln_min n)" by (simp add: node_add_def)
  also have "\<dots> = Min (insert (- 1) (insert l ?A))"
    using assms unfolding is_stat_def by (simp only: min_insert_word [OF finite_set])
  finally have mn: "ln_min (node_add l t n) = Min (insert (- 1) (insert l ?A))" .
  have "ln_max (node_add l t n) = (if l > ln_max n then l else ln_max n)" by (simp add: node_add_def)
  also have "\<dots> = Max (insert 0 (insert l ?A))"
    using assms unfolding is_stat_def by (simp only: max_insert_word [OF finite_set])
  finally have mx: "ln_max (node_add l t n) = Max (insert 0 (insert l ?A))" .
  have "ln_n (node_add l t n) = of_nat (length (xs @ [(e, l, t)]))"
    "ln_sum (node_add l t n) = sum_list (map (fst \<circ> snd) (xs @ [(e, l, t)]))"
    "ln_than (node_add l t n) = of_nat (length (filter (\<lambda>(_, l, t). t \<noteq> 0 \<and> l > t) (xs @ [(e, l, t)])))"
    "ln_td (node_add l t n) = None \<or> ln_td (node_add l t n) = Some (map (fst \<circ> snd) (xs @ [(e, l, t)]))"
    using assms by (auto simp: is_stat_def node_add_def)
  then show ?thesis unfolding is_stat_def eq using mn mx by blast
qed

definition summarised :: "sample list \<Rightarrow> latency_dist \<Rightarrow> bool" where
  "summarised ss d \<longleftrightarrow> dist_ok d \<and>
     (\<forall>e. case dist_map d (dist_key d e) of None \<Rightarrow> of_key d e ss = [] | Some n \<Rightarrow> of_key d e ss \<noteq> [] \<and> is_stat (of_key d e ss) n)"

lemma summarisedD:
  "summarised ss d \<Longrightarrow>
   case dist_map d (dist_key d e) of None \<Rightarrow> of_key d e ss = [] | Some n \<Rightarrow> of_key d e ss \<noteq> [] \<and> is_stat (of_key d e ss) n"
  unfolding summarised_def by blast

lemma input_summarised:
  assumes "summarised ss d"
  shows "\<exists>rl. latency_dist_input True e l t d = Some (True, d\<lparr>ld_lat := rl\<rparr>) \<and> summarised (ss @ [(e, l, t)]) (d\<lparr>ld_lat := rl\<rparr>)"
proof -
  have ok: "dist_ok d" using assms by (simp add: summarised_def)
  obtain n0 where n0: "latency_stat_node_new d True e = Some n0" by (simp add: latency_stat_node_new_def)
  let ?n = "case dist_map d (dist_key d e) of Some n \<Rightarrow> n | None \<Rightarrow> n0"
  from input_spec [OF ok, of True e l t] obtain rl where
    i: "latency_dist_input True e l t d = Some (True, d\<lparr>ld_lat := rl\<rparr>)" "dist_ok (d\<lparr>ld_lat := rl\<rparr>)"
      "dist_map (d\<lparr>ld_lat := rl\<rparr>) = (dist_map d)(dist_key d e \<mapsto> node_add l t ?n)"
    using n0 by (auto split: option.splits)
  have "case dist_map d (dist_key d e) of None \<Rightarrow> of_key d e ss = [] | Some n \<Rightarrow> of_key d e ss \<noteq> [] \<and> is_stat (of_key d e ss) n"
    using assms by (rule summarisedD)
  then have "is_stat (of_key d e ss) ?n" using stat_new [OF n0] by (cases "dist_map d (dist_key d e)") simp_all
  then have st: "is_stat (of_key d e (ss @ [(e, l, t)])) (node_add l t ?n)" using stat_add by (simp add: of_key_def)
  have "case dist_map (d\<lparr>ld_lat := rl\<rparr>) (dist_key d f) of None \<Rightarrow> of_key d f (ss @ [(e, l, t)]) = []
    | Some n \<Rightarrow> of_key d f (ss @ [(e, l, t)]) \<noteq> [] \<and> is_stat (of_key d f (ss @ [(e, l, t)])) n" for f
  proof (cases "dist_key d f = dist_key d e")
    case True
    then have "of_key d f = of_key d e" by (auto simp: of_key_def)
    then show ?thesis using True i(3) st by (simp add: of_key_def)
  next
    case False
    then have "of_key d f (ss @ [(e, l, t)]) = of_key d f ss" by (auto simp: of_key_def)
    then show ?thesis using False i(3) summarisedD [OF assms, of f] by (simp split: option.splits)
  qed
  moreover have "of_key (d\<lparr>ld_lat := rl\<rparr>) = of_key d" by (intro ext) (simp add: of_key_def)
  ultimately have "\<forall>f. case dist_map (d\<lparr>ld_lat := rl\<rparr>) (dist_key (d\<lparr>ld_lat := rl\<rparr>) f) of
      None \<Rightarrow> of_key (d\<lparr>ld_lat := rl\<rparr>) f (ss @ [(e, l, t)]) = []
    | Some n \<Rightarrow> of_key (d\<lparr>ld_lat := rl\<rparr>) f (ss @ [(e, l, t)]) \<noteq> [] \<and> is_stat (of_key (d\<lparr>ld_lat := rl\<rparr>) f (ss @ [(e, l, t)])) n"
    by (intro allI) (simp cong: option.case_cong)
  then have "summarised (ss @ [(e, l, t)]) (d\<lparr>ld_lat := rl\<rparr>)" unfolding summarised_def using i(2) by blast
  then show ?thesis using i(1) by blast
qed

lemma inputs_summarised:
  "summarised ss d \<Longrightarrow> \<exists>rl. latency_inputs xs d = Some (d\<lparr>ld_lat := rl\<rparr>) \<and> summarised (ss @ xs) (d\<lparr>ld_lat := rl\<rparr>)"
proof (induction xs arbitrary: ss d)
  case Nil
  then show ?case by (intro exI [of _ "ld_lat d"]) simp
next
  case (Cons s xs)
  obtain e l t where s: "s = (e, l, t)" by (metis prod.exhaust)
  obtain rl where i: "latency_dist_input True e l t d = Some (True, d\<lparr>ld_lat := rl\<rparr>)"
      "summarised (ss @ [(e, l, t)]) (d\<lparr>ld_lat := rl\<rparr>)" using input_summarised [OF Cons.prems] by blast
  show ?case using Cons.IH [OF i(2)] i(1) s by simp
qed

lemma new_summarised: "summarised [] (latency_dist_new perins perkey x)" "summarised [] (latency_dist_new_quantile perins perkey x)"
  by (simp_all add: summarised_def latency_dist_new_def latency_dist_new_quantile_def dist_ok_def table_init_ok of_key_def
      table_map_def rblist__init_def table_init_ok [unfolded rblist__init_def])

lemma min_max_nonempty:
  fixes A :: "u64 set"
  assumes "finite A" "A \<noteq> {}" shows "Min (insert (- 1) A) = Min A" "Max (insert 0 A) = Max A"
  using assms by (simp_all add: min.absorb2 max.absorb2)

lemma find_map: "dist_ok d \<Longrightarrow> latency_dist_find e d = dist_map d (dist_key d e)"
  using lat.find_spec by (simp add: latency_dist_find_def dist_ok_def)

text \<open>What looking up an entry finds in a distribution that has taken the samples \<open>ss\<close>.\<close>

lemma statistics_found:
  assumes "summarised ss d"
  shows "let xs = filter (\<lambda>(f, _). (\<not> ld_perins d \<or> fst f = fst e) \<and> (\<not> ld_perkey d \<or> snd f = snd e)) ss;
             lats = map (fst \<circ> snd) xs in
    case latency_dist_find e d of
      None \<Rightarrow> xs = []
    | Some n \<Rightarrow> xs \<noteq> [] \<and> ln_n n = of_nat (length xs) \<and> ln_sum n = sum_list lats \<and> ln_min n = Min (set lats) \<and>
                ln_max n = Max (set lats) \<and> ln_than n = of_nat (length (filter (\<lambda>(_, l, t). t \<noteq> 0 \<and> l > t) xs))"
proof -
  have k: "of_key d e ss = filter (\<lambda>(f, _). (\<not> ld_perins d \<or> fst f = fst e) \<and> (\<not> ld_perkey d \<or> snd f = snd e)) ss"
    by (auto simp: of_key_def entry_key_def intro!: filter_cong)
  have "case latency_dist_find e d of None \<Rightarrow> of_key d e ss = [] | Some n \<Rightarrow> of_key d e ss \<noteq> [] \<and> is_stat (of_key d e ss) n"
    using summarisedD [OF assms, of e] find_map [of d e] assms by (simp add: summarised_def)
  then show ?thesis
    unfolding k Let_def by (cases "latency_dist_find e d") (simp_all add: is_stat_def min_max_nonempty del: set_map)
qed

text \<open>
  C37. After any sequence of inputs into a new distribution, looking up an instance and a key
  finds a node exactly when there was a sample for them (for any instance when nodes are not
  per instance, for any key when they are not per key), and its fields are the statistics of
  those samples: their number and sum modulo \<open>2 ^ 64\<close>, their minimum, their maximum and the
  number of those above their threshold.
\<close>

theorem latency_dist_statistics:
  "\<exists>d. latency_inputs ss (latency_dist_new perins perkey x) = Some d \<and>
     (\<forall>e. let xs = filter (\<lambda>(f, _). (\<not> perins \<or> fst f = fst e) \<and> (\<not> perkey \<or> snd f = snd e)) ss;
              lats = map (fst \<circ> snd) xs in
        case latency_dist_find e d of
          None \<Rightarrow> xs = []
        | Some n \<Rightarrow> xs \<noteq> [] \<and> ln_n n = of_nat (length xs) \<and> ln_sum n = sum_list lats \<and> ln_min n = Min (set lats) \<and>
                    ln_max n = Max (set lats) \<and> ln_than n = of_nat (length (filter (\<lambda>(_, l, t). t \<noteq> 0 \<and> l > t) xs)))"
proof -
  obtain rl where i: "latency_inputs ss (latency_dist_new perins perkey x) = Some ((latency_dist_new perins perkey x)\<lparr>ld_lat := rl\<rparr>)"
      "summarised ss ((latency_dist_new perins perkey x)\<lparr>ld_lat := rl\<rparr>)"
    using inputs_summarised [OF new_summarised(1)] by force
  have "ld_perins ((latency_dist_new perins perkey x)\<lparr>ld_lat := rl\<rparr>) = perins" "ld_perkey ((latency_dist_new perins perkey x)\<lparr>ld_lat := rl\<rparr>) = perkey"
    by (simp_all add: latency_dist_new_def)
  then show ?thesis using i(1) statistics_found [OF i(2)] by auto
qed

theorem latency_dist_statistics_witness:
  "\<exists>d n. latency_inputs [((1, 7), 5, 0), ((2, 7), 9, 6)] (latency_dist_new False True 0) = Some d \<and>
     latency_dist_find (0, 7) d = Some n \<and> ln_n n = 2 \<and> ln_sum n = 14 \<and> ln_min n = 5 \<and> ln_max n = 9 \<and> ln_than n = 1"
proof -
  let ?ss = "[((1, 7), 5, 0), ((2, 7), 9, 6)] :: sample list"
  obtain d where d: "latency_inputs ?ss (latency_dist_new False True 0) = Some d"
    and e: "\<forall>e. let xs = filter (\<lambda>(f, _). (\<not> False \<or> fst f = fst e) \<and> (\<not> True \<or> snd f = snd e)) ?ss;
              lats = map (fst \<circ> snd) xs in
        case latency_dist_find e d of
          None \<Rightarrow> xs = []
        | Some n \<Rightarrow> xs \<noteq> [] \<and> ln_n n = of_nat (length xs) \<and> ln_sum n = sum_list lats \<and> ln_min n = Min (set lats) \<and>
                    ln_max n = Max (set lats) \<and> ln_than n = of_nat (length (filter (\<lambda>(_, l, t). t \<noteq> 0 \<and> l > t) xs))"
    using latency_dist_statistics [of ?ss False True 0] by blast
  show ?thesis using d spec [OF e, of "(0, 7)"] by (cases "latency_dist_find (0, 7) d") (simp_all add: Let_def)
qed

section \<open>Printing\<close>

text \<open>Nodes with different keys stay apart in the other order.\<close>

lemma sorted_key_inj: "sorted_key perins perkey a = sorted_key perins perkey b \<Longrightarrow> node_key perins perkey a = node_key perins perkey b"
  by (auto simp: sorted_key_def node_key_def split: if_splits)

lemma move_sorted_spec:
  assumes "table_ok (node_key pi pk) lat" "table_ok (sorted_key pi pk) srt" "entries lat \<noteq> []" "length (entries lat) \<le> k"
    "distinct (map (node_key pi pk) (entries lat @ entries srt))"
  shows "\<exists>lat1 srt1. move_sorted (latency_stat__sorted_node_cmp pi pk) k lat srt = Some (lat1, srt1) \<and>
    table_ok (node_key pi pk) lat1 \<and> entries lat1 = [] \<and> table_ok (sorted_key pi pk) srt1 \<and>
    mset (entries srt1) = mset (entries lat) + mset (entries srt)"
  using assms
proof (induction "latency_stat__sorted_node_cmp pi pk" k lat srt rule: move_sorted.induct)
  case (2 k lat srt)
  obtain c a r fs where f: "rb_first (rl_tree lat) = Some (Nd c Lf a r, fs)" "plug (Nd c Lf a r) fs = rl_tree lat"
      "before fs = []" "entries lat = a # inorder r @ after fs" using first_place [OF "2.prems"(1,3)] by blast
  have en: "rblist__entry lat 0 = Some (Nd c Lf a r, fs)" using f(1) by (simp add: rblist__entry_def)
  obtain lat1 where l: "rblist__remove_node (Nd c Lf a r, fs) lat = Some lat1" "table_ok (node_key pi pk) lat1"
      "entries lat1 = inorder r @ after fs" using remove_ok [OF "2.prems"(1) f(2)] f(3) by auto
  have "table_map (sorted_key pi pk) srt (sorted_key pi pk a) = None"
    using "2.prems"(5) f(4) by (auto simp: table_map_None dest!: sorted_key_inj)
  then obtain srt1 where s: "rblist__add_node (latency_stat__sorted_node_cmp pi pk) (Some a) a srt = Some (0, srt1)"
      "table_ok (sorted_key pi pk) srt1" "mset (entries srt1) = add_mset a (mset (entries srt))"
    using latsort.add_spec [OF "2.prems"(2) refl, of a] by auto
  show ?case
  proof (cases "entries lat1 = []")
    case True
    then show ?thesis using en l s f(4) table_empty [OF l(2)] by simp
  next
    case False
    have d: "distinct (map (node_key pi pk) (entries lat1 @ entries srt1))"
    proof -
      have "mset (entries lat1 @ entries srt1) = mset (entries lat @ entries srt)" using l(3) s(3) f(4) by simp
      then show ?thesis using "2.prems"(5) by (metis mset_eq_imp_distinct_iff mset_map)
    qed
    have "\<not> rblist__empty lat1" using False table_empty [OF l(2)] by simp
    moreover have "length (entries lat1) \<le> k" using "2.prems"(4) f(4) l(3) by simp
    ultimately obtain lat2 srt2 where
      "move_sorted (latency_stat__sorted_node_cmp pi pk) k lat1 srt1 = Some (lat2, srt2)"
      "table_ok (node_key pi pk) lat2" "entries lat2 = []" "table_ok (sorted_key pi pk) srt2"
      "mset (entries srt2) = mset (entries lat1) + mset (entries srt1)"
      using "2.hyps" [OF en refl refl l(1) s(1) refl _ l(2) s(2) False _ d] by blast
    then show ?thesis using en l s f(4) \<open>\<not> rblist__empty lat1\<close> by simp
  qed
qed simp

definition printed_before :: "bool \<Rightarrow> bool \<Rightarrow> latency_node \<Rightarrow> latency_node \<Rightarrow> bool" where
  "printed_before perins perkey a b \<longleftrightarrow>
     perins \<and> ln_instance a < ln_instance b \<or>
     (perins \<longrightarrow> ln_instance a = ln_instance b) \<and>
       (ln_sum a > ln_sum b \<or> ln_sum a = ln_sum b \<and> perkey \<and> ln_key a < ln_key b)"

lemma printed_before_key: "sorted_key perins perkey a < sorted_key perins perkey b \<longleftrightarrow> printed_before perins perkey a b"
  by (auto simp: sorted_key_def printed_before_def)

lemma print_sorted_spec:
  assumes "dist_ok d"
  shows "\<exists>ns. latency_dist_print_sorted d = Some (d\<lparr>ld_lat := rblist__init\<rparr>, ns) \<and> mset ns = mset (entries (ld_lat d)) \<and>
    sorted_wrt (printed_before (ld_perins d) (ld_perkey d)) ns"
proof (cases "entries (ld_lat d) = []")
  case True
  then have "rl_tree (ld_lat d) = Lf" by (cases "rl_tree (ld_lat d)") auto
  then have "ld_lat d = rblist__init" using assms by (intro rblist_emptied) (auto simp: dist_ok_def table_ok_def)
  then show ?thesis using True by (intro exI [of _ "[]"]) (simp add: latency_dist_print_sorted_def rblist__empty_def rblist__init_def)
next
  case False
  let ?nk = "node_key (ld_perins d) (ld_perkey d)" and ?sk = "sorted_key (ld_perins d) (ld_perkey d)"
  have ok: "table_ok ?nk (ld_lat d)" using assms by (simp add: dist_ok_def)
  have n: "length (entries (ld_lat d)) \<le> rl_nr_entries (ld_lat d)" using ok by (simp add: table_ok_def)
  have dd: "distinct (map ?nk (entries (ld_lat d) @ entries rblist__init))"
    using entries_distinct [OF ok] by (simp add: rblist__init_def)
  obtain lat srt where m: "move_sorted (latency_stat__sorted_node_cmp (ld_perins d) (ld_perkey d)) (rl_nr_entries (ld_lat d))
      (ld_lat d) rblist__init = Some (lat, srt)" "table_ok ?nk lat" "entries lat = []" "table_ok ?sk srt"
      "mset (entries srt) = mset (entries (ld_lat d))"
    using move_sorted_spec [OF ok table_init_ok False n dd] by (auto simp: rblist__init_def)
  have "rl_tree lat = Lf" using m(3) by (cases "rl_tree lat") auto
  then have l: "lat = rblist__init" using m(2) by (intro rblist_emptied) (auto simp: table_ok_def)
  obtain srt1 where "rblist__exit (rl_nr_entries srt) srt = Some (srt1, entries srt)"
    using exit_ok [OF m(4), of "rl_nr_entries srt"] m(4) by (auto simp: table_ok_def)
  moreover have "sorted_wrt (printed_before (ld_perins d) (ld_perkey d)) (entries srt)"
    using m(4) by (simp add: table_ok_def sorted_wrt_map printed_before_key)
  ultimately show ?thesis
    using m(1,5) l False table_empty [OF ok] by (simp add: latency_dist_print_sorted_def)
qed

text \<open>
  C38. Printing a distribution in sorted order prints every node exactly once, by instance, then
  by falling sum, then by key, and leaves the distribution empty; no node is lost when it moves
  to the second table, although the result of that insertion is ignored.
\<close>

theorem latency_print_sorted_ok:
  assumes "dist_ok d"
  shows "\<exists>ns. latency_dist_print_sorted d = Some (d\<lparr>ld_lat := rblist__init\<rparr>, ns) \<and> mset ns = mset (entries (ld_lat d)) \<and>
    sorted_wrt (printed_before (ld_perins d) (ld_perkey d)) ns"
  using print_sorted_spec [OF assms] .



text \<open>A distribution per key with two nodes.\<close>

definition two_keys :: latency_dist where
  "two_keys =
     (let a = \<lparr>ln_td = None, ln_instance = 0, ln_key = 1, ln_min = 5, ln_max = 5, ln_n = 1, ln_than = 0, ln_sum = 5, ln_extra = []\<rparr>;
          b = \<lparr>ln_td = None, ln_instance = 0, ln_key = 2, ln_min = 9, ln_max = 9, ln_n = 1, ln_than = 0, ln_sum = 9, ln_extra = []\<rparr>
      in (latency_dist_new False True 0)\<lparr>ld_lat := \<lparr>rl_tree = Nd Black Lf a (Nd Red Lf b Lf), rl_leftmost = Some a, rl_nr_entries = 2\<rparr>\<rparr>)"

lemma two_keys_ok: "dist_ok two_keys"
  by (simp add: two_keys_def Let_def dist_ok_def table_ok_def rbt_def latency_dist_new_def node_key_def)

lemma two_keys_flags: "ld_perins two_keys = False" "ld_perkey two_keys = True"
  by (simp_all add: two_keys_def Let_def latency_dist_new_def)

theorem latency_print_sorted_ok_witness:
  "\<exists>ns. latency_dist_print_sorted two_keys = Some (latency_dist_new False True 0, ns) \<and> map ln_key ns = [2, 1]"
proof -
  obtain ns where n: "latency_dist_print_sorted two_keys = Some (two_keys\<lparr>ld_lat := rblist__init\<rparr>, ns)"
      "mset ns = mset (entries (ld_lat two_keys))" "sorted_wrt (printed_before False True) ns"
    using latency_print_sorted_ok [OF two_keys_ok] unfolding two_keys_flags by blast
  have "length ns = 2" using mset_eq_length [OF n(2)] by (simp add: two_keys_def Let_def)
  then obtain a b where ab: "ns = [a, b]" by (auto simp: numeral_2_eq_2 length_Suc_conv)
  have kv: "(ln_key x, ln_sum x) \<in> {(1, 5), (2, 9)}" if "x \<in> set ns" for x
    using that unfolding mset_eq_setD [OF n(2)] by (auto simp: two_keys_def Let_def)
  have "map ln_key ns = [2, 1]" using n(3) kv [of a] kv [of b] unfolding ab by (auto simp: printed_before_def)
  moreover have "two_keys\<lparr>ld_lat := rblist__init\<rparr> = latency_dist_new False True 0"
    by (simp add: two_keys_def Let_def latency_dist_new_def)
  ultimately show ?thesis using n(1) by auto
qed

text \<open>
  A distribution has a latency above a bound exactly when the greatest latency of some node
  is above it; the loop that looks for it ends.
\<close>

lemma latency_greater_than_ok:
  assumes "dist_ok d"
  shows "latency_dist_greater_than than d = Some (\<exists>n\<in>set (entries (ld_lat d)). ln_max n > than)"
proof -
  have ok: "table_ok (node_key (ld_perins d) (ld_perkey d)) (ld_lat d)" using assms by (simp add: dist_ok_def)
  have "walk (rl_nr_entries (ld_lat d)) (rb_first (rl_tree (ld_lat d))) = Some (entries (ld_lat d))"
    using walk_first [of "rl_tree (ld_lat d)"] ok by (simp add: table_ok_def)
  then show ?thesis using table_empty [OF ok] by (simp add: latency_dist_greater_than_def)
qed

end
