(* ===== verification/Count.thy ===== *)
theory Count
  imports Latency
begin

text \<open>
  Counters with a history, \<open>src/count_helpers.c\<close>: one node per instance, id and key (those of
  the three that the flags ask for) with a histogram of \<open>hist_size\<close> slots that
  \<open>count_dist_input\<close> fills in turn.

  The size is not negative. None is a null pointer followed, a write outside the histogram or a
  division by zero.
\<close>

record count_node =
  cn_ins :: u64
  cn_id :: u64
  cn_key :: u64
  cn_max :: u64
  cn_sum :: u64
  cn_hist_len :: nat
  cn_hist :: "u64 list"

record count_dist =
  cd_dist :: "count_node rblist"
  cd_ins :: bool
  cd_id :: bool
  cd_key :: bool
  cd_hist_size :: nat
  cd_max :: u64

type_synonym count_entry = "u64 \<times> u64 \<times> u64"

definition count_dist_node_cmp :: "bool \<Rightarrow> bool \<Rightarrow> bool \<Rightarrow> count_node \<Rightarrow> count_entry \<Rightarrow> int" where
  "count_dist_node_cmp ins ident key n e =
     (let i = (if ins then cmp_u64 (cn_ins n) (fst e) else 0); j = (if ident then cmp_u64 (cn_id n) (fst (snd e)) else 0)
      in if i \<noteq> 0 then i else if j \<noteq> 0 then j else if key then cmp_u64 (cn_key n) (snd (snd e)) else 0)"

definition count_dist_node_new :: "count_dist \<Rightarrow> bool \<Rightarrow> count_entry \<Rightarrow> count_node option" where
  "count_dist_node_new d mem e =
     (if mem then Some \<lparr>cn_ins = fst e, cn_id = fst (snd e), cn_key = snd (snd e), cn_max = 0, cn_sum = 0, cn_hist_len = 0,
                        cn_hist = replicate (cd_hist_size d) 0\<rparr>
      else None)"

definition count_dist_new :: "bool \<Rightarrow> bool \<Rightarrow> bool \<Rightarrow> nat \<Rightarrow> count_dist" where
  "count_dist_new ins ident key hist_size =
     \<lparr>cd_dist = rblist__init, cd_ins = ins, cd_id = ident, cd_key = key, cd_hist_size = hist_size, cd_max = 0\<rparr>"

text \<open>The entry that both kinds of input look for.\<close>

definition count_key :: "count_dist \<Rightarrow> count_entry \<Rightarrow> count_entry" where
  "count_key d e =
     (if cd_ins d then fst e else 0, if cd_id d then fst (snd e) else 0, if cd_key d then snd (snd e) else 0)"

text \<open>What both kinds of input do with slot \<open>i\<close> of a node; the second result is the slot's new value.\<close>

definition hist_add :: "nat \<Rightarrow> u64 \<Rightarrow> count_node \<Rightarrow> (count_node \<times> u64) option" where
  "hist_add i amount n =
     (if i < length (cn_hist n) then
        let v = cn_hist n ! i + amount
        in Some (n\<lparr>cn_hist := (cn_hist n)[i := v], cn_max := (if cn_max n < v then v else cn_max n),
                   cn_sum := cn_sum n + amount\<rparr>, v)
      else None)"

definition count_dist_input :: "bool \<Rightarrow> count_entry \<Rightarrow> u64 \<Rightarrow> count_dist \<Rightarrow> count_dist option" where
  "count_dist_input mem e0 amount d =
     (let e = count_key d e0; cmp = count_dist_node_cmp (cd_ins d) (cd_id d) (cd_key d) in
      case rblist__findnew cmp (count_dist_node_new d mem e) e True (cd_dist d) of
        None \<Rightarrow> None
      | Some (None, rl) \<Rightarrow> Some (d\<lparr>cd_dist := rl\<rparr>)
      | Some (Some n, rl) \<Rightarrow>
          (case hist_add (cn_hist_len n) amount n of
             None \<Rightarrow> None
           | Some (n1, v) \<Rightarrow>
               if cd_hist_size d = 0 then None
               else Some (d\<lparr>cd_dist := write_node cmp e (\<lambda>_. n1\<lparr>cn_hist_len := (cn_hist_len n1 + 1) mod cd_hist_size d\<rparr>) rl,
                            cd_max := (if cd_max d < v then v else cd_max d)\<rparr>)))"

definition count_dist_insert :: "bool \<Rightarrow> count_entry \<Rightarrow> u64 \<Rightarrow> u64 \<Rightarrow> count_dist \<Rightarrow> count_dist option" where
  "count_dist_insert mem e0 i0 amount d =
     (let e = count_key d e0; cmp = count_dist_node_cmp (cd_ins d) (cd_id d) (cd_key d) in
      case rblist__findnew cmp (count_dist_node_new d mem e) e True (cd_dist d) of
        None \<Rightarrow> None
      | Some (None, rl) \<Rightarrow> Some (d\<lparr>cd_dist := rl\<rparr>)
      | Some (Some n, rl) \<Rightarrow>
          if cd_hist_size d = 0 then None
          else let i = unat i0 mod cd_hist_size d in
            (case hist_add i amount n of
               None \<Rightarrow> None
             | Some (n1, v) \<Rightarrow>
                 Some (d\<lparr>cd_dist := write_node cmp e (\<lambda>_. n1\<lparr>cn_hist_len := (if i > cn_hist_len n1 then i else cn_hist_len n1)\<rparr>) rl,
                         cd_max := (if cd_max d < v then v else cd_max d)\<rparr>)))"

definition count_dist_print :: "count_dist \<Rightarrow> count_node list option" where
  "count_dist_print d =
     (if rblist__empty (cd_dist d) then Some [] else walk (rl_nr_entries (cd_dist d)) (rb_first (rl_tree (cd_dist d))))"

definition count_dist_max :: "count_dist \<Rightarrow> u64" where
  "count_dist_max d = cd_max d"

definition count_dist_reset :: "count_dist \<Rightarrow> count_dist option" where
  "count_dist_reset d =
     map_option (\<lambda>(rl, _). d\<lparr>cd_dist := rl, cd_max := 0\<rparr>) (rblist__exit (rl_nr_entries (cd_dist d)) (cd_dist d))"

definition count_dist_empty :: "count_dist \<Rightarrow> bool" where
  "count_dist_empty d = rblist__empty (cd_dist d)"

section \<open>The order of the nodes\<close>

definition cnode_key :: "bool \<Rightarrow> bool \<Rightarrow> bool \<Rightarrow> count_node \<Rightarrow> count_entry" where
  "cnode_key ins ident key n = (if ins then cn_ins n else 0, if ident then cn_id n else 0, if key then cn_key n else 0)"

definition centry_key :: "bool \<Rightarrow> bool \<Rightarrow> bool \<Rightarrow> count_entry \<Rightarrow> count_entry" where
  "centry_key ins ident key e = (if ins then fst e else 0, if ident then fst (snd e) else 0, if key then snd (snd e) else 0)"

interpretation cnt: node_order "count_dist_node_cmp ins ident key" "cnode_key ins ident key" "centry_key ins ident key"
  for ins ident key
  by unfold_locales (auto simp: count_dist_node_cmp_def cnode_key_def centry_key_def Let_def cmp_u64_def)

abbreviation cnkey :: "count_dist \<Rightarrow> count_node \<Rightarrow> count_entry" where
  "cnkey d \<equiv> cnode_key (cd_ins d) (cd_id d) (cd_key d)"

abbreviation cmap :: "count_dist \<Rightarrow> count_entry \<rightharpoonup> count_node" where
  "cmap d \<equiv> table_map (cnkey d) (cd_dist d)"

lemma centry_key_count_key [simp]: "centry_key (cd_ins d) (cd_id d) (cd_key d) (count_key d e) = count_key d e"
  by (simp add: centry_key_def count_key_def)

section \<open>The invariant\<close>

text \<open>
  The histograms have their size, the next slot is one of them, no slot is above the greatest
  value of its node and no node's above that of the whole.
\<close>

definition cnode_ok :: "count_dist \<Rightarrow> count_node \<Rightarrow> bool" where
  "cnode_ok d n \<longleftrightarrow> length (cn_hist n) = cd_hist_size d \<and> cn_hist_len n < cd_hist_size d \<and>
     (\<forall>h\<in>set (cn_hist n). h \<le> cn_max n) \<and> cn_max n \<le> cd_max d"

definition count_ok :: "count_dist \<Rightarrow> bool" where
  "count_ok d \<longleftrightarrow> cd_hist_size d > 0 \<and> table_ok (cnkey d) (cd_dist d) \<and> (\<forall>n\<in>set (entries (cd_dist d)). cnode_ok d n)"

text \<open>The node that an input works on: the one there is, or a new one.\<close>

definition target :: "count_dist \<Rightarrow> count_entry \<Rightarrow> count_node" where
  "target d e = (case cmap d e of Some n \<Rightarrow> n | None \<Rightarrow> the (count_dist_node_new d True e))"

lemma target_key: "cnkey d (the (count_dist_node_new d True (count_key d e))) = count_key d e"
  by (simp add: count_dist_node_new_def cnode_key_def count_key_def)

lemma target_ok:
  assumes "count_ok d" shows "cnode_ok d (target d (count_key d e))" "cnkey d (target d (count_key d e)) = count_key d e"
proof -
  have n: "cnode_ok d (the (count_dist_node_new d True (count_key d e)))"
    using assms by (simp add: count_dist_node_new_def cnode_ok_def count_ok_def)
  have ok: "table_ok (cnkey d) (cd_dist d)" using assms by (simp add: count_ok_def)
  show "cnode_ok d (target d (count_key d e))"
    using assms n table_map_entry [of "cnkey d" "cd_dist d"] by (auto simp: target_def count_ok_def split: option.splits)
  show "cnkey d (target d (count_key d e)) = count_key d e"
    using table_map_entry [of "cnkey d" "cd_dist d"] target_key by (auto simp: target_def split: option.splits)
qed

lemma findnew_count:
  assumes "count_ok d" "mem \<or> cmap d (count_key d e) \<noteq> None"
  shows "\<exists>rl. rblist__findnew (count_dist_node_cmp (cd_ins d) (cd_id d) (cd_key d)) (count_dist_node_new d mem (count_key d e))
      (count_key d e) True (cd_dist d) = Some (Some (target d (count_key d e)), rl) \<and> table_ok (cnkey d) rl \<and>
      table_map (cnkey d) rl = (cmap d)(count_key d e \<mapsto> target d (count_key d e))"
proof -
  have ok: "table_ok (cnkey d) (cd_dist d)" using assms(1) by (simp add: count_ok_def)
  have k: "cnkey d n = count_key d e" if "count_dist_node_new d mem (count_key d e) = Some n" for n
    using that by (auto simp: count_dist_node_new_def cnode_key_def count_key_def split: if_splits)
  have m: "count_dist_node_new d mem (count_key d e) = Some (the (count_dist_node_new d True (count_key d e)))" if mem
    using that by (simp add: count_dist_node_new_def)
  note f = cnt.findnew_spec [OF ok, of "count_dist_node_new d mem (count_key d e)" "count_key d e" True,
      unfolded centry_key_count_key, OF k]
  show ?thesis
  proof (cases "cmap d (count_key d e)")
    case None
    then have "count_dist_node_new d mem (count_key d e) = Some (target d (count_key d e))"
      using m assms(2) by (simp add: target_def)
    then show ?thesis using f None by auto
  next
    case (Some a)
    then show ?thesis using f by (auto simp: target_def fun_upd_idem)
  qed
qed

lemma findnew_none:
  assumes "count_ok d" "\<not> mem" "cmap d (count_key d e) = None"
  shows "rblist__findnew (count_dist_node_cmp (cd_ins d) (cd_id d) (cd_key d)) (count_dist_node_new d mem (count_key d e))
      (count_key d e) True (cd_dist d) = Some (None, cd_dist d)"
  using cnt.findnew_spec [of "cd_ins d" "cd_id d" "cd_key d" "cd_dist d" None "count_key d e" True] assms
  by (auto simp: count_ok_def count_dist_node_new_def)

text \<open>Writing a node back, with a new greatest value for the whole.\<close>

lemma write_count:
  assumes ok: "count_ok d" and rl: "table_ok (cnkey d) rl" "table_map (cnkey d) rl = (cmap d)(count_key d e \<mapsto> n)"
    and k: "cnkey d n = count_key d e" "cnkey d n1 = cnkey d n" and m: "cd_max d \<le> m" and n1: "cnode_ok (d\<lparr>cd_max := m\<rparr>) n1"
  defines "d1 \<equiv> d\<lparr>cd_dist := write_node (count_dist_node_cmp (cd_ins d) (cd_id d) (cd_key d)) (count_key d e) (\<lambda>_. n1) rl, cd_max := m\<rparr>"
  shows "count_ok d1" "cmap d1 = (cmap d)(count_key d e \<mapsto> n1)"
proof -
  have f: "table_map (cnkey d) rl (centry_key (cd_ins d) (cd_id d) (cd_key d) (count_key d e)) = Some n" using rl(2) by simp
  note w = cnt.write_spec [OF rl(1) f, of "\<lambda>_. n1", OF k(2)]
  show c: "cmap d1 = (cmap d)(count_key d e \<mapsto> n1)" using w(2) rl(2) by (simp add: d1_def)
  have t: "table_ok (cnkey d1) (cd_dist d1)" using w(1) by (simp add: d1_def)
  have "cnode_ok d1 x" if "x \<in> set (entries (cd_dist d1))" for x
  proof -
    have "x \<in> ran ((cmap d)(count_key d e \<mapsto> n1))" using that c entries_ran [OF t] by simp
    then have "x = n1 \<or> x \<in> ran (cmap d)" by (auto simp: ran_def split: if_splits)
    then show ?thesis
    proof
      assume "x = n1"
      then show ?thesis using n1 by (simp add: d1_def cnode_ok_def)
    next
      assume "x \<in> ran (cmap d)"
      then have "cnode_ok d x" using ok entries_ran [of "cnkey d" "cd_dist d"] by (simp add: count_ok_def)
      then show ?thesis using m by (auto simp: d1_def cnode_ok_def)
    qed
  qed
  then show "count_ok d1" using ok t by (simp add: count_ok_def d1_def)
qed

lemma hist_add_ok:
  fixes c :: u64
  assumes "cnode_ok d n" "i < cd_hist_size d"
  defines "v \<equiv> cn_hist n ! i + c"
  shows "\<exists>n1. hist_add i c n = Some (n1, v) \<and> cnkey d n1 = cnkey d n \<and> cn_hist_len n1 = cn_hist_len n \<and>
    cn_hist n1 = (cn_hist n)[i := v] \<and> cn_sum n1 = cn_sum n + c \<and>
    cnode_ok (d\<lparr>cd_max := (if cd_max d < v then v else cd_max d)\<rparr>) n1"
  using assms by (auto simp: hist_add_def Let_def cnode_ok_def cnode_key_def not_less dest!: subsetD [OF set_update_subset_insert])

text \<open>What both inputs share: slot \<open>i\<close> is written and \<open>j\<close> becomes the next one.\<close>

lemma slot_count:
  fixes c :: u64
  assumes ok: "count_ok d" and mem: "mem \<or> cmap d (count_key d e) \<noteq> None" and i: "i < cd_hist_size d" and j: "j < cd_hist_size d"
  defines "n \<equiv> target d (count_key d e)" and "cmp \<equiv> count_dist_node_cmp (cd_ins d) (cd_id d) (cd_key d)"
  shows "\<exists>rl n1 v d1. rblist__findnew cmp (count_dist_node_new d mem (count_key d e)) (count_key d e) True (cd_dist d) = Some (Some n, rl) \<and>
    hist_add i c n = Some (n1, v) \<and> cn_hist_len n1 = cn_hist_len n \<and> cn_hist n1 = (cn_hist n)[i := cn_hist n ! i + c] \<and>
    cn_sum n1 = cn_sum n + c \<and>
    d1 = d\<lparr>cd_dist := write_node cmp (count_key d e) (\<lambda>_. n1\<lparr>cn_hist_len := j\<rparr>) rl, cd_max := (if cd_max d < v then v else cd_max d)\<rparr> \<and>
    count_ok d1 \<and> cmap d1 = (cmap d)(count_key d e \<mapsto> n1\<lparr>cn_hist_len := j\<rparr>)"
proof -
  note t = target_ok [OF ok, of e, folded n_def]
  obtain rl where r: "rblist__findnew cmp (count_dist_node_new d mem (count_key d e)) (count_key d e) True (cd_dist d) = Some (Some n, rl)"
      "table_ok (cnkey d) rl" "table_map (cnkey d) rl = (cmap d)(count_key d e \<mapsto> n)"
    using findnew_count [OF ok mem] unfolding n_def cmp_def by blast
  define v m where "v = cn_hist n ! i + c" and "m = (if cd_max d < v then v else cd_max d)"
  obtain n1 where h: "hist_add i c n = Some (n1, v)" "cnkey d n1 = cnkey d n" "cn_hist_len n1 = cn_hist_len n"
      "cn_hist n1 = (cn_hist n)[i := v]" "cn_sum n1 = cn_sum n + c" "cnode_ok (d\<lparr>cd_max := m\<rparr>) n1"
    using hist_add_ok [OF t(1) i] unfolding v_def m_def by blast
  have n2: "cnkey d (n1\<lparr>cn_hist_len := j\<rparr>) = cnkey d n" "cnode_ok (d\<lparr>cd_max := m\<rparr>) (n1\<lparr>cn_hist_len := j\<rparr>)"
    using h(2,6) j by (auto simp: cnode_key_def cnode_ok_def)
  have "cd_max d \<le> m" by (auto simp: m_def)
  note w = write_count [OF ok r(2,3) t(2) n2(1) this n2(2), folded cmp_def, unfolded m_def]
  show ?thesis using r(1) h w unfolding v_def by blast
qed

lemma input_count:
  fixes c :: u64
  assumes ok: "count_ok d" and mem: "mem \<or> cmap d (count_key d e) \<noteq> None"
  defines "n \<equiv> target d (count_key d e)"
  shows "\<exists>rl m n1. count_dist_input mem e c d = Some (d\<lparr>cd_dist := rl, cd_max := m\<rparr>) \<and> count_ok (d\<lparr>cd_dist := rl, cd_max := m\<rparr>) \<and>
    cmap (d\<lparr>cd_dist := rl, cd_max := m\<rparr>) = (cmap d)(count_key d e \<mapsto> n1) \<and>
    cn_hist n1 = (cn_hist n)[cn_hist_len n := cn_hist n ! cn_hist_len n + c] \<and> cn_sum n1 = cn_sum n + c \<and>
    cn_hist_len n1 = (cn_hist_len n + 1) mod cd_hist_size d"
proof -
  have s: "cd_hist_size d > 0" using ok by (simp add: count_ok_def)
  have i: "cn_hist_len n < cd_hist_size d" using target_ok(1) [OF ok] by (simp add: n_def cnode_ok_def)
  let ?j = "(cn_hist_len n + 1) mod cd_hist_size d"
  have j: "?j < cd_hist_size d" using s by simp
  from slot_count [OF ok mem i [unfolded n_def] j [unfolded n_def], folded n_def, of c]
  obtain rl n1 v d1 where w:
    "rblist__findnew (count_dist_node_cmp (cd_ins d) (cd_id d) (cd_key d)) (count_dist_node_new d mem (count_key d e)) (count_key d e) True
       (cd_dist d) = Some (Some n, rl)" "hist_add (cn_hist_len n) c n = Some (n1, v)" "cn_hist_len n1 = cn_hist_len n"
    "cn_hist n1 = (cn_hist n)[cn_hist_len n := cn_hist n ! cn_hist_len n + c]" "cn_sum n1 = cn_sum n + c"
    "d1 = d\<lparr>cd_dist := write_node (count_dist_node_cmp (cd_ins d) (cd_id d) (cd_key d)) (count_key d e) (\<lambda>_. n1\<lparr>cn_hist_len := ?j\<rparr>) rl,
            cd_max := (if cd_max d < v then v else cd_max d)\<rparr>"
    "count_ok d1" "cmap d1 = (cmap d)(count_key d e \<mapsto> n1\<lparr>cn_hist_len := ?j\<rparr>)" by blast
  have "count_dist_input mem e c d = Some d1" using w(1,2,3,6) s by (simp add: count_dist_input_def Let_def)
  moreover have "d\<lparr>cd_dist := cd_dist d1, cd_max := cd_max d1\<rparr> = d1" using w(6) by simp
  ultimately show ?thesis using w(4,5,7,8)
    by (intro exI [of _ "cd_dist d1"] exI [of _ "cd_max d1"] exI [of _ "n1\<lparr>cn_hist_len := ?j\<rparr>"]) (simp add: max_def)
qed

lemma insert_count:
  fixes c i0 :: u64
  assumes ok: "count_ok d" and mem: "mem \<or> cmap d (count_key d e) \<noteq> None"
  defines "n \<equiv> target d (count_key d e)" and "i \<equiv> unat i0 mod cd_hist_size d"
  shows "\<exists>rl m n1. count_dist_insert mem e i0 c d = Some (d\<lparr>cd_dist := rl, cd_max := m\<rparr>) \<and> count_ok (d\<lparr>cd_dist := rl, cd_max := m\<rparr>) \<and>
    cmap (d\<lparr>cd_dist := rl, cd_max := m\<rparr>) = (cmap d)(count_key d e \<mapsto> n1) \<and>
    cn_hist n1 = (cn_hist n)[i := cn_hist n ! i + c] \<and> cn_sum n1 = cn_sum n + c \<and> cn_hist_len n1 = max i (cn_hist_len n)"
proof -
  have s: "cd_hist_size d > 0" using ok by (simp add: count_ok_def)
  have i: "i < cd_hist_size d" using s by (simp add: i_def)
  let ?j = "if i > cn_hist_len n then i else cn_hist_len n"
  have j: "?j < cd_hist_size d" using target_ok(1) [OF ok, of e] i by (simp add: n_def cnode_ok_def)
  from slot_count [OF ok mem i j [unfolded n_def], folded n_def, of c]
  obtain rl n1 v d1 where w:
    "rblist__findnew (count_dist_node_cmp (cd_ins d) (cd_id d) (cd_key d)) (count_dist_node_new d mem (count_key d e)) (count_key d e) True
       (cd_dist d) = Some (Some n, rl)" "hist_add i c n = Some (n1, v)" "cn_hist_len n1 = cn_hist_len n"
    "cn_hist n1 = (cn_hist n)[i := cn_hist n ! i + c]" "cn_sum n1 = cn_sum n + c"
    "d1 = d\<lparr>cd_dist := write_node (count_dist_node_cmp (cd_ins d) (cd_id d) (cd_key d)) (count_key d e) (\<lambda>_. n1\<lparr>cn_hist_len := ?j\<rparr>) rl,
            cd_max := (if cd_max d < v then v else cd_max d)\<rparr>"
    "count_ok d1" "cmap d1 = (cmap d)(count_key d e \<mapsto> n1\<lparr>cn_hist_len := ?j\<rparr>)" by blast
  have "count_dist_insert mem e i0 c d = Some d1" using w(1,2,3,6) s by (simp add: count_dist_insert_def Let_def i_def)
  moreover have "d\<lparr>cd_dist := cd_dist d1, cd_max := cd_max d1\<rparr> = d1" using w(6) by simp
  ultimately show ?thesis using w(4,5,7,8)
    by (intro exI [of _ "cd_dist d1"] exI [of _ "cd_max d1"] exI [of _ "n1\<lparr>cn_hist_len := ?j\<rparr>"]) (simp add: max_def)
qed

lemma no_memory_count:
  assumes "count_ok d" "\<not> (mem \<or> cmap d (count_key d e) \<noteq> None)"
  shows "count_dist_input mem e c d = Some d" "count_dist_insert mem e i0 c d = Some d"
  using findnew_none [OF assms(1), of mem e] assms(2) by (simp_all add: count_dist_input_def count_dist_insert_def Let_def)

lemma reset_count: "count_ok d \<Longrightarrow> count_dist_reset d = Some (d\<lparr>cd_dist := rblist__init, cd_max := 0\<rparr>)"
proof -
  assume a: "count_ok d"
  then have t: "table_ok (cnkey d) (cd_dist d)" by (simp add: count_ok_def)
  obtain rl where "rblist__exit (rl_nr_entries (cd_dist d)) (cd_dist d) = Some (rl, entries (cd_dist d))"
      "rl_tree rl = Lf" "rl_leftmost rl = None" "rl_nr_entries rl = 0"
    using exit_ok [OF t, of "rl_nr_entries (cd_dist d)"] t by (auto simp: table_ok_def)
  then show ?thesis using rblist_emptied [of rl] by (simp add: count_dist_reset_def)
qed

lemma empty_count: "cd_hist_size d > 0 \<Longrightarrow> cd_dist d = rblist__init \<Longrightarrow> count_ok d"
  by (simp add: count_ok_def table_init_ok) (simp add: rblist__init_def)

lemma print_count: "count_ok d \<Longrightarrow> count_dist_print d = Some (entries (cd_dist d))"
  using walk_first [of "rl_tree (cd_dist d)"] table_empty [of "cnkey d" "cd_dist d"]
  by (auto simp: count_dist_print_def count_ok_def table_ok_def)

section \<open>Sequences of operations\<close>

datatype count_op = Input bool count_entry u64 | Insert bool count_entry u64 u64 | Reset

fun count_step :: "count_op \<Rightarrow> count_dist \<Rightarrow> count_dist option" where
  "count_step (Input mem e c) d = count_dist_input mem e c d"
| "count_step (Insert mem e i c) d = count_dist_insert mem e i c d"
| "count_step Reset d = count_dist_reset d"

fun count_run :: "count_op list \<Rightarrow> count_dist \<Rightarrow> count_dist option" where
  "count_run [] d = Some d"
| "count_run (x # xs) d = (case count_step x d of None \<Rightarrow> None | Some d1 \<Rightarrow> count_run xs d1)"

lemma op_count: "count_ok d \<Longrightarrow> \<exists>d1. count_step x d = Some d1 \<and> count_ok d1 \<and> cd_hist_size d1 = cd_hist_size d"
proof (cases x)
  case (Input mem e c)
  then show "count_ok d \<Longrightarrow> ?thesis"
    using input_count [of d mem e c] no_memory_count(1) [of d mem e c]
    by (cases "mem \<or> cmap d (count_key d e) \<noteq> None") fastforce+
next
  case (Insert mem e i c)
  then show "count_ok d \<Longrightarrow> ?thesis"
    using insert_count [of d mem e i c] no_memory_count(2) [of d mem e i c]
    by (cases "mem \<or> cmap d (count_key d e) \<noteq> None") fastforce+
next
  case Reset
  show "?thesis" if ok: "count_ok d"
    using Reset reset_count [OF ok] empty_count [of "d\<lparr>cd_dist := rblist__init, cd_max := 0\<rparr>"] ok by (simp add: count_ok_def [of d])
qed

lemma run_count: "count_ok d \<Longrightarrow> \<exists>d1. count_run xs d = Some d1 \<and> count_ok d1 \<and> cd_hist_size d1 = cd_hist_size d"
proof (induction xs arbitrary: d)
  case (Cons x xs)
  obtain d1 where "count_step x d = Some d1" "count_ok d1" "cd_hist_size d1 = cd_hist_size d" using op_count [OF Cons.prems] by blast
  then show ?case using Cons.IH [of d1] by simp
qed simp

text \<open>
  C40. Starting from a new distribution with a positive histogram size, any sequence of inputs,
  insertions and resets, with or without memory, runs without a write outside a histogram.
  Afterwards the histograms have their size, the next slot is one of theirs, no slot exceeds the
  greatest value of its node, no node's greatest value that of the whole, and printing shows
  every node.
\<close>

theorem count_ops_safe:
  assumes "sz > 0"
  shows "\<exists>d. count_run ops (count_dist_new ins ident key sz) = Some d \<and> count_dist_print d = Some (entries (cd_dist d)) \<and>
    (\<forall>n\<in>set (entries (cd_dist d)). length (cn_hist n) = sz \<and> cn_hist_len n < sz \<and>
       (\<forall>h\<in>set (cn_hist n). h \<le> cn_max n) \<and> cn_max n \<le> count_dist_max d)"
proof -
  have "count_ok (count_dist_new ins ident key sz)" using assms by (simp add: empty_count count_dist_new_def)
  from run_count [OF this, of ops] obtain d where
    "count_run ops (count_dist_new ins ident key sz) = Some d" "count_ok d" "cd_hist_size d = sz"
    by (auto simp: count_dist_new_def)
  then show ?thesis using print_count [of d] by (auto simp: count_ok_def cnode_ok_def count_dist_max_def)
qed

theorem count_ops_safe_witness:
  "\<exists>d. count_run [Input True (1, 2, 3) 4, Insert True (1, 2, 3) 9 5, Reset, Input False (1, 2, 3) 4] (count_dist_new True True False 4) = Some d \<and>
     count_dist_print d = Some (entries (cd_dist d))"
  using count_ops_safe [of 4 "[Input True (1, 2, 3) 4, Insert True (1, 2, 3) 9 5, Reset, Input False (1, 2, 3) 4]" True True False] by auto

section \<open>The history\<close>

definition slots :: "nat \<Rightarrow> u64 list \<Rightarrow> u64 list" where
  "slots sz xs = map (\<lambda>j. sum_list (map ((!) xs) (filter (\<lambda>i. i mod sz = j) [0..<length xs]))) [0..<sz]"

lemma slots_snoc:
  assumes "sz > 0"
  shows "slots sz (xs @ [c]) = (slots sz xs)[length xs mod sz := slots sz xs ! (length xs mod sz) + c]"
proof (rule nth_equalityI)
  show "length (slots sz (xs @ [c])) = length ((slots sz xs)[length xs mod sz := slots sz xs ! (length xs mod sz) + c])"
    by (simp add: slots_def)
next
  fix j assume "j < length (slots sz (xs @ [c]))"
  then have j: "j < sz" by (simp add: slots_def)
  have "sum_list (map ((!) (xs @ [c])) (filter (\<lambda>i. i mod sz = j) [0..<length xs])) =
      sum_list (map ((!) xs) (filter (\<lambda>i. i mod sz = j) [0..<length xs]))"
    by (intro arg_cong [where f = sum_list] map_cong) (auto simp: nth_append)
  then show "slots sz (xs @ [c]) ! j = (slots sz xs)[length xs mod sz := slots sz xs ! (length xs mod sz) + c] ! j"
    using j assms by (cases "length xs mod sz = j") (auto simp: slots_def nth_append)
qed

fun count_inputs :: "(count_entry \<times> u64) list \<Rightarrow> count_dist \<Rightarrow> count_dist option" where
  "count_inputs [] d = Some d"
| "count_inputs ((e, c) # ss) d = (case count_dist_input True e c d of None \<Rightarrow> None | Some d1 \<Rightarrow> count_inputs ss d1)"

definition amounts :: "count_dist \<Rightarrow> count_entry \<Rightarrow> (count_entry \<times> u64) list \<Rightarrow> u64 list" where
  "amounts d k ss = map snd (filter (\<lambda>(f, _). count_key d f = k) ss)"

definition hist_of :: "count_dist \<Rightarrow> u64 list \<Rightarrow> count_node \<Rightarrow> bool" where
  "hist_of d xs n \<longleftrightarrow> cn_sum n = sum_list xs \<and> cn_hist n = slots (cd_hist_size d) xs \<and> cn_hist_len n = length xs mod cd_hist_size d"

definition recorded :: "(count_entry \<times> u64) list \<Rightarrow> count_dist \<Rightarrow> bool" where
  "recorded ss d \<longleftrightarrow> count_ok d \<and>
     (\<forall>k. if amounts d k ss = [] then cmap d k = None else \<exists>n. cmap d k = Some n \<and> hist_of d (amounts d k ss) n)"

lemma recordedD:
  "recorded ss d \<Longrightarrow> if amounts d k ss = [] then cmap d k = None else \<exists>n. cmap d k = Some n \<and> hist_of d (amounts d k ss) n"
  unfolding recorded_def by blast

lemma input_recorded:
  assumes "recorded ss d"
  shows "\<exists>rl m. count_dist_input True e c d = Some (d\<lparr>cd_dist := rl, cd_max := m\<rparr>) \<and> recorded (ss @ [(e, c)]) (d\<lparr>cd_dist := rl, cd_max := m\<rparr>)"
proof -
  have ok: "count_ok d" and r: "if amounts d k ss = [] then cmap d k = None else \<exists>n. cmap d k = Some n \<and> hist_of d (amounts d k ss) n" for k
    using assms recordedD [OF assms] by (simp_all add: recorded_def)
  let ?k = "count_key d e" and ?n = "target d (count_key d e)"
  have s: "cd_hist_size d > 0" using ok by (simp add: count_ok_def)
  have h: "hist_of d (amounts d ?k ss) ?n"
    using r [of ?k] by (cases "amounts d ?k ss = []")
      (auto simp: target_def count_dist_node_new_def hist_of_def slots_def map_replicate_const)
  obtain rl m n1 where i: "count_dist_input True e c d = Some (d\<lparr>cd_dist := rl, cd_max := m\<rparr>)" "count_ok (d\<lparr>cd_dist := rl, cd_max := m\<rparr>)"
      "cmap (d\<lparr>cd_dist := rl, cd_max := m\<rparr>) = (cmap d)(?k \<mapsto> n1)"
      "cn_hist n1 = (cn_hist ?n)[cn_hist_len ?n := cn_hist ?n ! cn_hist_len ?n + c]" "cn_sum n1 = cn_sum ?n + c"
      "cn_hist_len n1 = (cn_hist_len ?n + 1) mod cd_hist_size d"
    using input_count [OF ok, of True e c] by blast
  have n1: "hist_of d (amounts d ?k ss @ [c]) n1"
    using h i(4-6) slots_snoc [OF s] by (simp add: hist_of_def mod_Suc_eq)
  let ?d = "d\<lparr>cd_dist := rl, cd_max := m\<rparr>"
  have am: "amounts ?d k (ss @ [(e, c)]) = amounts d k ss @ (if k = ?k then [c] else [])" for k
    by (auto simp: amounts_def count_key_def)
  have ho: "hist_of ?d = hist_of d" by (intro ext) (simp add: hist_of_def)
  have "if amounts ?d k (ss @ [(e, c)]) = [] then cmap ?d k = None
    else \<exists>n. cmap ?d k = Some n \<and> hist_of ?d (amounts ?d k (ss @ [(e, c)])) n" for k
    using i(3) am [of k] n1 r [of k] ho by (cases "k = ?k") (auto split: if_splits)
  then show ?thesis using i(1,2) unfolding recorded_def by blast
qed

lemma inputs_recorded:
  "recorded ss d \<Longrightarrow> \<exists>rl m. count_inputs xs d = Some (d\<lparr>cd_dist := rl, cd_max := m\<rparr>) \<and> recorded (ss @ xs) (d\<lparr>cd_dist := rl, cd_max := m\<rparr>)"
proof (induction xs arbitrary: ss d)
  case Nil
  then show ?case by (intro exI [of _ "cd_dist d"] exI [of _ "cd_max d"]) simp
next
  case (Cons x xs)
  obtain e c where x: "x = (e, c)" by (cases x)
  obtain rl m where i: "count_dist_input True e c d = Some (d\<lparr>cd_dist := rl, cd_max := m\<rparr>)"
      "recorded (ss @ [(e, c)]) (d\<lparr>cd_dist := rl, cd_max := m\<rparr>)" using input_recorded [OF Cons.prems] by blast
  show ?case using Cons.IH [OF i(2)] i(1) x by simp
qed

text \<open>
  C39. After any sequence of inputs the printed nodes are those of the samples, one for each
  instance, id and key that the distribution tells apart; the sum of a node is the sum of its
  samples, and slot \<open>j\<close> of its histogram the sum of the samples whose number is \<open>j\<close> modulo the
  size.
\<close>

theorem count_input_history:
  assumes "sz > 0"
  shows "\<exists>d ns. count_inputs ss (count_dist_new ins ident key sz) = Some d \<and> count_dist_print d = Some ns \<and>
    (\<forall>n\<in>set ns. let xs = map snd (filter (\<lambda>(f, _). cnode_key ins ident key n = centry_key ins ident key f) ss) in
       xs \<noteq> [] \<and> cn_sum n = sum_list xs \<and> cn_hist_len n = length xs mod sz \<and>
       (\<forall>j < sz. cn_hist n ! j = sum_list (map ((!) xs) (filter (\<lambda>i. i mod sz = j) [0..<length xs])))) \<and>
    (\<forall>f\<in>fst ` set ss. \<exists>n\<in>set ns. cnode_key ins ident key n = centry_key ins ident key f) \<and>
    distinct (map (cnode_key ins ident key) ns)"
proof -
  let ?d0 = "count_dist_new ins ident key sz"
  have "recorded [] ?d0"
    using assms by (auto simp: recorded_def amounts_def count_dist_new_def table_map_def rblist__init_def
        intro!: empty_count [unfolded rblist__init_def])
  from inputs_recorded [OF this, of ss] obtain rl m where
    i: "count_inputs ss ?d0 = Some (?d0\<lparr>cd_dist := rl, cd_max := m\<rparr>)" "recorded ss (?d0\<lparr>cd_dist := rl, cd_max := m\<rparr>)" by auto
  let ?d = "?d0\<lparr>cd_dist := rl, cd_max := m\<rparr>" and ?nk = "cnode_key ins ident key" and ?ek = "centry_key ins ident key"
  have ok: "count_ok ?d" using i(2) by (simp add: recorded_def)
  have am: "amounts ?d k ss = map snd (filter (\<lambda>(f, _). k = ?ek f) ss)" for k
    by (auto simp: amounts_def count_key_def centry_key_def count_dist_new_def intro!: arg_cong [where f = "map snd"] filter_cong)
  have t: "table_ok ?nk rl" using ok by (simp add: count_ok_def count_dist_new_def)
  have fl: "cnkey ?d = ?nk" "cd_dist ?d = rl" by (simp_all add: count_dist_new_def)
  have r: "if amounts ?d k ss = [] then table_map ?nk rl k = None
      else \<exists>n. table_map ?nk rl k = Some n \<and> hist_of ?d (amounts ?d k ss) n" for k
    using recordedD [OF i(2), of k] unfolding fl .
  have h: "amounts ?d (?nk n) ss \<noteq> [] \<and> hist_of ?d (amounts ?d (?nk n) ss) n" if "n \<in> set (entries rl)" for n
    using r [of "?nk n"] table_map_of [OF t that] by (auto split: if_splits)
  have g: "\<exists>n\<in>set (entries rl). ?nk n = ?ek f" if "f \<in> fst ` set ss" for f
  proof -
    have "amounts ?d (?ek f) ss \<noteq> []" using that unfolding am by (force simp: filter_empty_conv)
    then show ?thesis using r [of "?ek f"] table_map_entry [of ?nk rl "?ek f"] by (auto split: if_splits)
  qed
  have hs: "hist_of ?d xs n \<Longrightarrow> cn_sum n = sum_list xs \<and> cn_hist_len n = length xs mod sz \<and>
      (\<forall>j < sz. cn_hist n ! j = sum_list (map ((!) xs) (filter (\<lambda>i. i mod sz = j) [0..<length xs])))" for xs n
    by (simp add: hist_of_def slots_def count_dist_new_def)
  have p: "count_dist_print ?d = Some (entries rl)" using print_count [OF ok] by simp
  show ?thesis
    by (intro exI [of _ ?d] exI [of _ "entries rl"] conjI ballI i(1) p entries_distinct [OF t] g; (unfold Let_def)?)
      (use h hs in \<open>unfold am, blast+\<close>)
qed

theorem count_input_history_witness:
  "\<exists>d ns. count_inputs [((1, 0, 0), 5), ((1, 0, 0), 6), ((1, 0, 0), 7)] (count_dist_new True False False 2) = Some d \<and>
     count_dist_print d = Some ns \<and> (\<forall>n\<in>set ns. cn_hist n ! 0 = 12)"
proof -
  let ?ss = "[((1, 0, 0), 5), ((1, 0, 0), 6), ((1, 0, 0), 7)] :: (count_entry \<times> u64) list"
  obtain d ns where d: "count_inputs ?ss (count_dist_new True False False 2) = Some d" "count_dist_print d = Some ns"
    "\<forall>n\<in>set ns. let xs = map snd (filter (\<lambda>(f, _). cnode_key True False False n = centry_key True False False f) ?ss) in
       xs \<noteq> [] \<and> cn_sum n = sum_list xs \<and> cn_hist_len n = length xs mod 2 \<and>
       (\<forall>j<2. cn_hist n ! j = sum_list (map ((!) xs) (filter (\<lambda>i. i mod 2 = j) [0..<length xs])))"
    using count_input_history [of 2 ?ss True False False, OF zero_less_numeral] by blast
  have "cn_hist n ! 0 = 12" if "n \<in> set ns" for n
    using bspec [OF d(3) that] by (cases "cn_ins n = 1") (auto simp: Let_def cnode_key_def centry_key_def)
  then show ?thesis using d(1,2) by blast
qed

end
