(* ===== verification/Multi_Trace.thy ===== *)
theory Multi_Trace
  imports Rblist "HOL-Library.Product_Lexorder"
begin

text \<open>
  Pairing of events, \<open>src/multi-trace.c\<close>: an event of one level is kept until an event of the
  next level with the same key comes, and the two are handed on together. With \<open>--detail\<close> all
  events are also kept on a timeline, which shares its nodes with the table of kept events.

  Nodes are addresses into an explicit heap; address 0 is the variable \<open>current\<close> of
  \<open>multi_trace_sample\<close>. The two tables and the lists hold addresses. The calls of the
  callbacks \<open>two\<close> and \<open>remaining\<close> are recorded in the order in which they happen; what
  \<open>remaining\<close> answers, which objects \<open>object_find\<close> knows, the programs that compute keys and
  roles and the scheduler's verdict on a wake-up are parameters. None is a null pointer
  followed.
\<close>

type_synonym addr = nat
type_synonym tpid = "nat \<times> nat"

record tp =
  tp_evsel :: nat
  tp_untraced :: bool
  tp_key_prog :: "(u8 list \<Rightarrow> u64) option"
  tp_role_prog :: "(u8 list \<Rightarrow> u64) option"

record timeline_node =
  tn_time :: u64
  tn_key :: u64
  tn_tp :: tpid
  tn_tp1 :: "tpid option"
  tn_unneeded :: bool
  tn_need_find_prev :: bool
  tn_need_backup :: bool
  tn_need_remove :: bool
  tn_maybe_unpaired :: bool
  tn_ins :: nat
  tn_seq :: u64
  tn_event :: "u8 list"

record timeline_stat =
  ts_new :: u64
  ts_delete :: u64
  ts_unneeded :: u64
  ts_pending :: u64
  ts_mem_bytes :: u64
  ts_unneeded_bytes :: u64
  ts_pending_bytes :: u64

record backup_stat =
  bs_new :: u64
  bs_delete :: u64
  bs_mem_bytes :: u64

record lost_node =
  lo_ins :: nat
  lo_reclaim :: bool
  lo_start :: u64
  lo_end :: u64
  lo_lost :: u64

datatype remaining_reason = NOT_REMAINING | REMAINING_LOST | REMAINING_SYSCALLS | REMAINING_EXIT

text \<open>A call \<open>two(A, B)\<close> or \<open>two(A, NULL)\<close>, a call \<open>remaining(A)\<close>, a report of lost events.\<close>

datatype call =
    Two timeline_node "timeline_node option" u64 "addr option"
  | Remaining timeline_node remaining_reason u64 "addr option"
  | Lost lost_node

text \<open>What does not change: options, and what \<open>monitor_ctx_init\<close> makes of them.\<close>

record mt_conf =
  mc_tp_list :: "tp list list"
  mc_need_timeline :: bool
  mc_nested :: bool
  mc_impl_based_on_call :: bool
  mc_cycle :: bool
  mc_before_event1 :: u64
  mc_after_event2 :: u64
  mc_greater_than :: u64
  mc_lost_ins :: bool
  mc_using_order :: bool
  mc_ins_key :: "nat \<Rightarrow> u64"
  mc_object_find :: "tpid \<Rightarrow> tpid option \<Rightarrow> bool"
  mc_remaining_break :: "timeline_node \<Rightarrow> bool"

definition tp_at :: "mt_conf \<Rightarrow> tpid \<Rightarrow> tp" where
  "tp_at cf p = mc_tp_list cf ! fst p ! snd p"

record multi_trace_ctx =
  heap :: "addr \<Rightarrow> timeline_node option"
  fresh :: addr
  backup :: "addr rblist"
  timeline :: "addr rblist"
  perins_list :: "nat \<Rightarrow> addr list"
  needed_list :: "addr list"
  pending_list :: "addr list"
  recent_time :: u64
  event_handled :: u64
  timeline_lost_list :: "lost_node list"
  perins_lost_list :: "nat \<Rightarrow> lost_node list"
  tl_stat :: timeline_stat
  backup_stat :: backup_stat
  calls :: "call list"

abbreviation node :: "multi_trace_ctx \<Rightarrow> addr \<Rightarrow> timeline_node" where
  "node st a \<equiv> the (heap st a)"

definition set_node :: "addr \<Rightarrow> (timeline_node \<Rightarrow> timeline_node) \<Rightarrow> multi_trace_ctx \<Rightarrow> multi_trace_ctx" where
  "set_node a f st = st\<lparr>heap := (heap st)(a := map_option f (heap st a))\<rparr>"

definition esize :: "timeline_node \<Rightarrow> u64" where
  "esize n = of_nat (length (tn_event n))"

section \<open>The two tables\<close>

definition perf_event_backup_node_cmp :: "timeline_node \<Rightarrow> timeline_node \<Rightarrow> int" where
  "perf_event_backup_node_cmp b e = cmp_u64 (tn_key b) (tn_key e)"

text \<open>Of the entry only the key is read.\<close>

definition perf_event_backup_node_find :: "u64 \<Rightarrow> timeline_node \<Rightarrow> int" where
  "perf_event_backup_node_find key b = cmp_u64 key (tn_key b)"

text \<open>The latest event comes first.\<close>

definition nested_perf_event_backup_node_cmp :: "timeline_node \<Rightarrow> timeline_node \<Rightarrow> int" where
  "nested_perf_event_backup_node_cmp b e =
     (let c = cmp_u64 (tn_key b) (tn_key e) in if c \<noteq> 0 then c else cmp_u64 (tn_time e) (tn_time b))"

definition timeline_node_cmp :: "timeline_node \<Rightarrow> timeline_node \<Rightarrow> int" where
  "timeline_node_cmp b e =
     (let c = cmp_u64 (tn_time b) (tn_time e); d = cmp_u64 (tn_key b) (tn_key e) in
      if c \<noteq> 0 then c else if d \<noteq> 0 then d else cmp_u64 (tn_seq b) (tn_seq e))"

definition backup_cmp :: "mt_conf \<Rightarrow> multi_trace_ctx \<Rightarrow> addr \<Rightarrow> timeline_node \<Rightarrow> int" where
  "backup_cmp cf st a e =
     (if mc_nested cf then nested_perf_event_backup_node_cmp (node st a) e else perf_event_backup_node_cmp (node st a) e)"

definition timeline_cmp :: "multi_trace_ctx \<Rightarrow> addr \<Rightarrow> timeline_node \<Rightarrow> int" where
  "timeline_cmp st a e = timeline_node_cmp (node st a) e"

text \<open>What \<open>perf_event_backup_node_new\<close> does besides returning the node \<open>b\<close> for the entry \<open>a\<close>.\<close>

definition perf_event_backup_node_new :: "mt_conf \<Rightarrow> addr \<Rightarrow> addr \<Rightarrow> multi_trace_ctx \<Rightarrow> multi_trace_ctx" where
  "perf_event_backup_node_new cf a b st =
     (if mc_need_timeline cf then st\<lparr>needed_list := needed_list st @ [a]\<rparr>
      else
        let e = node st a in
        st\<lparr>heap := (heap st)(b \<mapsto> e\<lparr>tn_unneeded := False, tn_maybe_unpaired := False\<rparr>), fresh := fresh st + 1,
           perins_list := (perins_list st)(tn_ins e := perins_list st (tn_ins e) @ [b]),
           backup_stat := (backup_stat st)\<lparr>bs_new := bs_new (backup_stat st) + 1,
                                           bs_mem_bytes := bs_mem_bytes (backup_stat st) + esize e\<rparr>\<rparr>)"

definition count_unneeded :: "timeline_node \<Rightarrow> multi_trace_ctx \<Rightarrow> multi_trace_ctx" where
  "count_unneeded n st =
     st\<lparr>tl_stat := (tl_stat st)\<lparr>ts_unneeded := ts_unneeded (tl_stat st) + 1,
                                ts_unneeded_bytes := ts_unneeded_bytes (tl_stat st) + esize n\<rparr>\<rparr>"

definition perf_event_backup_node_delete :: "mt_conf \<Rightarrow> addr \<Rightarrow> multi_trace_ctx \<Rightarrow> multi_trace_ctx" where
  "perf_event_backup_node_delete cf b st =
     (let n = node st b in
      if mc_need_timeline cf then
        count_unneeded n (set_node b (\<lambda>n. n\<lparr>tn_unneeded := True\<rparr>) (st\<lparr>needed_list := remove1 b (needed_list st)\<rparr>))
      else
        st\<lparr>perins_list := (perins_list st)(tn_ins n := remove1 b (perins_list st (tn_ins n))),
           backup_stat := (backup_stat st)\<lparr>bs_delete := bs_delete (backup_stat st) + 1,
                                           bs_mem_bytes := bs_mem_bytes (backup_stat st) - esize n\<rparr>,
           heap := (heap st)(b := None)\<rparr>)"

definition timeline_node_new :: "mt_conf \<Rightarrow> addr \<Rightarrow> addr \<Rightarrow> multi_trace_ctx \<Rightarrow> multi_trace_ctx" where
  "timeline_node_new cf a b st =
     (let e = node st a; untraced = tp_untraced (tp_at cf (tn_tp e));
          n = e\<lparr>tn_maybe_unpaired := False, tn_unneeded := (tn_unneeded e \<and> untraced)\<rparr>;
          ts = tl_stat st;
          ts1 = (if \<not> untraced then ts\<lparr>ts_pending := ts_pending ts + 1, ts_pending_bytes := ts_pending_bytes ts + esize e\<rparr> else ts);
          ts2 = ts1\<lparr>ts_new := ts_new ts1 + 1, ts_mem_bytes := ts_mem_bytes ts1 + esize e\<rparr>;
          st1 = st\<lparr>heap := (heap st)(b \<mapsto> n), fresh := fresh st + 1, tl_stat := ts2,
                   pending_list := (if \<not> untraced then pending_list st @ [b] else pending_list st)\<rparr>
      in if tn_unneeded n then count_unneeded n st1 else st1)"

definition timeline_node_delete :: "addr \<Rightarrow> multi_trace_ctx \<Rightarrow> multi_trace_ctx" where
  "timeline_node_delete b st =
     (let n = node st b; ts = tl_stat st;
          ts1 = ts\<lparr>ts_delete := ts_delete ts + 1, ts_mem_bytes := ts_mem_bytes ts - esize n\<rparr>;
          ts2 = (if tn_unneeded n
                 then ts1\<lparr>ts_unneeded := ts_unneeded ts1 - 1, ts_unneeded_bytes := ts_unneeded_bytes ts1 - esize n\<rparr> else ts1)
      in st\<lparr>pending_list := remove1 b (pending_list st), tl_stat := ts2, heap := (heap st)(b := None)\<rparr>)"

text \<open>The place of a node of a tree, which the code has as the address of its \<open>rb_node\<close>.\<close>

fun place_of :: "'a \<Rightarrow> 'a rb \<Rightarrow> 'a path \<Rightarrow> 'a place option" where
  "place_of x Lf fs = None"
| "place_of x (Nd c l a r) fs =
     (if a = x then Some (Nd c l a r, fs)
      else case place_of x l (InL c a r # fs) of Some z \<Rightarrow> Some z | None \<Rightarrow> place_of x r (InR c l a # fs))"

definition remove_backup :: "mt_conf \<Rightarrow> addr \<Rightarrow> multi_trace_ctx \<Rightarrow> multi_trace_ctx option" where
  "remove_backup cf b st =
     (case place_of b (rl_tree (backup st)) [] of
        None \<Rightarrow> None
      | Some z \<Rightarrow> map_option (\<lambda>rl. perf_event_backup_node_delete cf b (st\<lparr>backup := rl\<rparr>)) (rblist__remove_node z (backup st)))"

definition remove_timeline :: "addr \<Rightarrow> multi_trace_ctx \<Rightarrow> multi_trace_ctx option" where
  "remove_timeline b st =
     (case place_of b (rl_tree (timeline st)) [] of
        None \<Rightarrow> None
      | Some z \<Rightarrow> map_option (\<lambda>rl. timeline_node_delete b (st\<lparr>timeline := rl\<rparr>)) (rblist__remove_node z (timeline st)))"

definition exit_backup :: "mt_conf \<Rightarrow> multi_trace_ctx \<Rightarrow> multi_trace_ctx option" where
  "exit_backup cf st =
     map_option (\<lambda>(rl, ds). fold (perf_event_backup_node_delete cf) ds (st\<lparr>backup := rl\<rparr>))
       (rblist__exit (rl_nr_entries (backup st)) (backup st))"

definition exit_timeline :: "multi_trace_ctx \<Rightarrow> multi_trace_ctx option" where
  "exit_timeline st =
     map_option (\<lambda>(rl, ds). fold timeline_node_delete ds (st\<lparr>timeline := rl\<rparr>))
       (rblist__exit (rl_nr_entries (timeline st)) (timeline st))"

text \<open>\<open>rblist__findnew(&ctx->backup, tl_event)\<close>; the second result says whether a node was made.\<close>

definition findnew_backup :: "mt_conf \<Rightarrow> bool \<Rightarrow> addr \<Rightarrow> multi_trace_ctx \<Rightarrow> (addr option \<times> bool \<times> multi_trace_ctx) option" where
  "findnew_backup cf mem a st =
     (let b = (if mc_need_timeline cf then Some a else if mem then Some (fresh st) else None) in
      case rblist__findnew (backup_cmp cf st) b (node st a) True (backup st) of
        None \<Rightarrow> None
      | Some (r, rl) \<Rightarrow>
          if rl_nr_entries rl = rl_nr_entries (backup st) then Some (r, False, st\<lparr>backup := rl\<rparr>)
          else Some (r, True, perf_event_backup_node_new cf a (case b of Some b \<Rightarrow> b | None \<Rightarrow> a) (st\<lparr>backup := rl\<rparr>)))"

section \<open>Searching by key alone\<close>

text \<open>\<open>rb_find_first\<close> and \<open>rb_next_match\<close>; \<open>c\<close> is the comparison of the key with a node.\<close>

fun find_first_down :: "('a \<Rightarrow> int) \<Rightarrow> 'a rb \<Rightarrow> 'a path \<Rightarrow> 'a place option \<Rightarrow> 'a place option" where
  "find_first_down c Lf fs m = m"
| "find_first_down c (Nd k l a r) fs m =
     (if c a \<le> 0 then find_first_down c l (InL k a r # fs) (if c a = 0 then Some (Nd k l a r, fs) else m)
      else find_first_down c r (InR k l a # fs) m)"

definition rb_find_first :: "('a \<Rightarrow> int) \<Rightarrow> 'a rb \<Rightarrow> 'a place option" where
  "rb_find_first c t = find_first_down c t [] None"

definition rb_next_match :: "('a \<Rightarrow> int) \<Rightarrow> 'a place \<Rightarrow> 'a place option" where
  "rb_next_match c z =
     (case rb_next z of Some (Nd k l a r, fs) \<Rightarrow> if c a \<noteq> 0 then None else Some (Nd k l a r, fs) | _ \<Rightarrow> None)"

text \<open>The elements that \<open>rb_for_each\<close> visits, at most \<open>n\<close>.\<close>

fun matches :: "nat \<Rightarrow> ('a \<Rightarrow> int) \<Rightarrow> 'a place option \<Rightarrow> 'a list option" where
  "matches n c None = Some []"
| "matches 0 c (Some z) = None"
| "matches (Suc n) c (Some z) =
     (case z of (Lf, fs) \<Rightarrow> None | (Nd k l a r, fs) \<Rightarrow> map_option ((#) a) (matches n c (rb_next_match c z)))"

definition rb_for_each :: "multi_trace_ctx \<Rightarrow> u64 \<Rightarrow> addr list option" where
  "rb_for_each st key =
     (let c = (\<lambda>a. perf_event_backup_node_find key (node st a)) in
      matches (rl_nr_entries (backup st)) c (rb_find_first c (rl_tree (backup st))))"

section \<open>What is left without a partner\<close>

text \<open>The entry for \<open>rblist__find_first\<close>: the time \<open>before_event1\<close> earlier.\<close>

definition iter_start :: "mt_conf \<Rightarrow> addr \<Rightarrow> multi_trace_ctx \<Rightarrow> addr option option" where
  "iter_start cf a st =
     (if \<not> mc_need_timeline cf then Some None
      else if mc_before_event1 cf \<noteq> 0
      then rblist__find_first (timeline_cmp st) ((node st a)\<lparr>tn_time := tn_time (node st a) - mc_before_event1 cf, tn_seq := 0\<rparr>) (timeline st)
      else Some (Some a))"

text \<open>The first result says that the callback asked to stop.\<close>

definition multi_trace_call_remaining :: "mt_conf \<Rightarrow> addr \<Rightarrow> remaining_reason \<Rightarrow> multi_trace_ctx \<Rightarrow> (bool \<times> multi_trace_ctx) option" where
  "multi_trace_call_remaining cf left rr st =
     (let n = node st left in
      if mc_object_find cf (tn_tp n) None then
        (case iter_start cf left st of
           None \<Rightarrow> None
         | Some start \<Rightarrow>
             let st1 = (if recent_time st - tn_time n > mc_greater_than cf
                        then set_node left (\<lambda>n. n\<lparr>tn_maybe_unpaired := True\<rparr>) st else st)
             in Some (mc_remaining_break cf n, st1\<lparr>calls := calls st1 @ [Remaining n rr (recent_time st) start]\<rparr>))
      else Some (False, st))"

fun handle_remaining :: "mt_conf \<Rightarrow> remaining_reason \<Rightarrow> addr list \<Rightarrow> multi_trace_ctx \<Rightarrow> multi_trace_ctx option" where
  "handle_remaining cf rr [] st = Some st"
| "handle_remaining cf rr (left # ls) st =
     (case multi_trace_call_remaining cf left rr st of
        None \<Rightarrow> None
      | Some (True, st1) \<Rightarrow> Some st1
      | Some (False, st1) \<Rightarrow> handle_remaining cf rr ls st1)"

definition multi_trace_handle_remaining :: "mt_conf \<Rightarrow> remaining_reason \<Rightarrow> multi_trace_ctx \<Rightarrow> multi_trace_ctx option" where
  "multi_trace_handle_remaining cf rr st =
     (case walk (rl_nr_entries (backup st)) (rb_first (rl_tree (backup st))) of
        None \<Rightarrow> None
      | Some ls \<Rightarrow> handle_remaining cf rr ls st)"

text \<open>\<open>go\<close> says that no callback has asked to stop yet; every event is removed all the same.\<close>

fun reclaim_loop :: "mt_conf \<Rightarrow> remaining_reason \<Rightarrow> addr list \<Rightarrow> bool \<Rightarrow> multi_trace_ctx \<Rightarrow> multi_trace_ctx option" where
  "reclaim_loop cf rr [] go st = Some st"
| "reclaim_loop cf rr (left # ls) go st =
     (case (if go then multi_trace_call_remaining cf left rr st else Some (True, st)) of
        None \<Rightarrow> None
      | Some (stop, st1) \<Rightarrow>
          (case remove_backup cf left st1 of
             None \<Rightarrow> None
           | Some st2 \<Rightarrow> reclaim_loop cf rr ls (\<not> stop) st2))"

definition reclaim :: "mt_conf \<Rightarrow> u64 \<Rightarrow> remaining_reason \<Rightarrow> multi_trace_ctx \<Rightarrow> multi_trace_ctx option" where
  "reclaim cf key rr st = (case rb_for_each st key of None \<Rightarrow> None | Some ls \<Rightarrow> reclaim_loop cf rr ls True st)"

definition lost_reclaim :: "mt_conf \<Rightarrow> nat \<Rightarrow> multi_trace_ctx \<Rightarrow> multi_trace_ctx option" where
  "lost_reclaim cf ins st =
     (if mc_lost_ins cf then reclaim cf (mc_ins_key cf ins) REMAINING_LOST st
      else case multi_trace_handle_remaining cf REMAINING_LOST st of
             None \<Rightarrow> None
           | Some st1 \<Rightarrow> exit_backup cf st1)"

section \<open>Releasing the timeline\<close>

definition needed_first :: "multi_trace_ctx \<Rightarrow> timeline_node option" where
  "needed_first st =
     (case needed_list st of
        a # _ \<Rightarrow> Some (node st a)
      | [] \<Rightarrow>
          (case pending_list st of
             a # _ \<Rightarrow> Some (node st a)
           | [] \<Rightarrow> (case rb_last (rl_tree (timeline st)) of Some (Nd c l a r, fs) \<Rightarrow> Some (node st a) | _ \<Rightarrow> None)))"

definition unneeded_before :: "mt_conf \<Rightarrow> multi_trace_ctx \<Rightarrow> u64" where
  "unneeded_before cf st =
     (if mc_before_event1 cf \<noteq> 0 then
        (case needed_first st of
           Some n \<Rightarrow> if tn_time n > mc_before_event1 cf then tn_time n - mc_before_event1 cf else 0
         | None \<Rightarrow> 0)
      else 0)"

text \<open>
  \<open>key_node\<close> of a node that is needed is empty exactly when the node is not in the table of
  kept events: it is cleared when the node is made, and a node that leaves the table is
  unneeded from then on.
\<close>

fun free_loop :: "mt_conf \<Rightarrow> u64 \<Rightarrow> nat \<Rightarrow> multi_trace_ctx \<Rightarrow> multi_trace_ctx option" where
  "free_loop cf ub k st =
     (case rl_leftmost (timeline st) of
        None \<Rightarrow> Some st
      | Some a \<Rightarrow>
          if ub = 0 \<and> tn_unneeded (node st a) \<or> tn_time (node st a) < ub then
            (case k of
               0 \<Rightarrow> None
             | Suc k' \<Rightarrow>
                 (case (if \<not> tn_unneeded (node st a) \<and> place_of a (rl_tree (backup st)) [] \<noteq> None
                        then remove_backup cf a st else Some st) of
                    None \<Rightarrow> None
                  | Some st1 \<Rightarrow>
                      (case remove_timeline a st1 of
                         None \<Rightarrow> None
                       | Some st2 \<Rightarrow> free_loop cf ub k' st2)))
          else Some st)"

declare free_loop.simps [simp del]

definition timeline_free_unneeded :: "mt_conf \<Rightarrow> multi_trace_ctx \<Rightarrow> multi_trace_ctx option" where
  "timeline_free_unneeded cf st = free_loop cf (unneeded_before cf st) (rl_nr_entries (timeline st)) st"

section \<open>Lost events\<close>

fun insert_lost :: "lost_node \<Rightarrow> lost_node list \<Rightarrow> lost_node list" where
  "insert_lost l [] = [l]"
| "insert_lost l (p # ps) = (if lo_start p > lo_start l then l # p # ps else p # insert_lost l ps)"

definition multi_trace_lost ::
  "mt_conf \<Rightarrow> bool \<Rightarrow> nat \<Rightarrow> u64 \<Rightarrow> u64 \<Rightarrow> u64 \<Rightarrow> multi_trace_ctx \<Rightarrow> multi_trace_ctx option" where
  "multi_trace_lost cf mem ins lost_start lost_end lost st =
     (let l = \<lparr>lo_ins = ins, lo_reclaim = False, lo_start = lost_start, lo_end = lost_end, lo_lost = lost\<rparr> in
      if \<not> mc_using_order cf \<and> mc_after_event2 cf = 0 then
        (case lost_reclaim cf ins (st\<lparr>calls := calls st @ [Lost l]\<rparr>) of
           None \<Rightarrow> None
         | Some st1 \<Rightarrow> if mc_need_timeline cf then timeline_free_unneeded cf st1 else Some st1)
      else if mem then
        if mc_lost_ins cf then Some (st\<lparr>perins_lost_list := (perins_lost_list st)(ins := perins_lost_list st ins @ [l])\<rparr>)
        else Some (st\<lparr>timeline_lost_list := insert_lost l (timeline_lost_list st)\<rparr>)
      else Some st)"

text \<open>The event is neither kept nor, in the third case, paired.\<close>

definition not_kept :: "addr \<Rightarrow> multi_trace_ctx \<Rightarrow> multi_trace_ctx" where
  "not_kept a st =
     (if tn_need_backup (node st a)
      then count_unneeded (node st a) (set_node a (\<lambda>n. n\<lparr>tn_need_backup := False, tn_unneeded := True\<rparr>) st)
      else st)"

text \<open>The loop over the list of lost ranges; the first result is what is left of the list.\<close>

fun event_lost_loop :: "mt_conf \<Rightarrow> addr \<Rightarrow> lost_node list \<Rightarrow> multi_trace_ctx \<Rightarrow> (lost_node list \<times> multi_trace_ctx) option" where
  "event_lost_loop cf a [] st = Some ([], st)"
| "event_lost_loop cf a (l # ls) st =
     (let t = tn_time (node st a) in
      if t < lo_start l then Some (l # ls, st)
      else if t = lo_start l then Some (l # ls, not_kept a st)
      else
        case (if lo_reclaim l then Some st
              else map_option (\<lambda>st1. st1\<lparr>recent_time := recent_time st\<rparr>)
                     (lost_reclaim cf (tn_ins (node st a)) (st\<lparr>recent_time := lo_start l, calls := calls st @ [Lost l]\<rparr>))) of
          None \<Rightarrow> None
        | Some st1 \<Rightarrow>
            if t < lo_end l
            then Some (l\<lparr>lo_reclaim := True\<rparr> # ls, not_kept a (set_node a (\<lambda>n. n\<lparr>tn_need_find_prev := False\<rparr>) st1))
            else event_lost_loop cf a ls st1)"

definition multi_trace_event_lost :: "mt_conf \<Rightarrow> addr \<Rightarrow> multi_trace_ctx \<Rightarrow> multi_trace_ctx option" where
  "multi_trace_event_lost cf a st =
     (let ins = tn_ins (node st a) in
      if mc_lost_ins cf
      then map_option (\<lambda>(ls, st1). st1\<lparr>perins_lost_list := (perins_lost_list st1)(ins := ls)\<rparr>)
             (event_lost_loop cf a (perins_lost_list st ins) st)
      else map_option (\<lambda>(ls, st1). st1\<lparr>timeline_lost_list := ls\<rparr>) (event_lost_loop cf a (timeline_lost_list st) st))"

section \<open>Pairing and keeping\<close>

text \<open>Among the kept events with the key the first one, or the first of the wanted tracepoint.\<close>

definition multi_trace_find_prev :: "u64 \<Rightarrow> tpid option \<Rightarrow> multi_trace_ctx \<Rightarrow> addr option option" where
  "multi_trace_find_prev key tp1 st =
     map_option (\<lambda>as. case filter (\<lambda>a. tp1 = None \<or> tp1 = Some (tn_tp (node st a))) as of [] \<Rightarrow> None | a # _ \<Rightarrow> Some a)
       (rb_for_each st key)"

definition call_two :: "mt_conf \<Rightarrow> addr \<Rightarrow> addr \<Rightarrow> multi_trace_ctx \<Rightarrow> multi_trace_ctx option" where
  "call_two cf p a st =
     (if mc_object_find cf (tn_tp (node st p)) (Some (tn_tp (node st a))) \<and> tn_time (node st p) < tn_time (node st a) then
        map_option (\<lambda>start. st\<lparr>calls := calls st @ [Two (node st p) (Some (node st a)) (recent_time st) start]\<rparr>) (iter_start cf p st)
      else Some st)"

text \<open>The first result is \<open>*need_free\<close>.\<close>

definition multi_trace_tryto_call_two :: "mt_conf \<Rightarrow> addr \<Rightarrow> bool \<Rightarrow> multi_trace_ctx \<Rightarrow> (bool \<times> multi_trace_ctx) option" where
  "multi_trace_tryto_call_two cf a need_free st =
     (let n = node st a in
      if tn_need_find_prev n then
        (case multi_trace_find_prev (tn_key n) (tn_tp1 n) st of
           None \<Rightarrow> None
         | Some (Some p) \<Rightarrow>
             (case call_two cf p a (set_node p (\<lambda>n. n\<lparr>tn_maybe_unpaired := False\<rparr>) st) of
                None \<Rightarrow> None
              | Some st1 \<Rightarrow>
                  if tn_need_remove n then map_option (\<lambda>st2. (True, st2)) (remove_backup cf p st1) else Some (need_free, st1))
         | Some None \<Rightarrow>
             if mc_impl_based_on_call cf \<and> mc_object_find cf (tn_tp n) None
             then Some (need_free, st\<lparr>calls := calls st @ [Two n None 0 None]\<rparr>)
             else Some (need_free, st))
      else Some (need_free, st))"

text \<open>The label \<open>unneeded\<close>.\<close>

definition mark_unneeded :: "addr \<Rightarrow> multi_trace_ctx \<Rightarrow> multi_trace_ctx" where
  "mark_unneeded a st = count_unneeded (node st a) (set_node a (\<lambda>n. n\<lparr>tn_unneeded := True\<rparr>) st)"

fun backup_retry :: "nat \<Rightarrow> mt_conf \<Rightarrow> bool \<Rightarrow> addr \<Rightarrow> bool \<Rightarrow> multi_trace_ctx \<Rightarrow> (bool \<times> multi_trace_ctx) option" where
  "backup_retry 0 cf mem a need_free st = None"
| "backup_retry (Suc k) cf mem a need_free st =
     (case findnew_backup cf mem a st of
        None \<Rightarrow> None
      | Some (None, _, st1) \<Rightarrow> Some (True, mark_unneeded a st1)
      | Some (Some b, True, st1) \<Rightarrow> Some (need_free, st1)
      | Some (Some b, False, st1) \<Rightarrow>
          if tn_time (node st1 a) < tn_time (node st1 b) then Some (True, mark_unneeded a st1)
          else case remove_backup cf b st1 of
                 None \<Rightarrow> None
               | Some st2 \<Rightarrow> backup_retry k cf mem a True st2)"

text \<open>A round of the loop removes an event from the table, so there are at most as many as events.\<close>

definition multi_trace_tryto_backup :: "mt_conf \<Rightarrow> bool \<Rightarrow> addr \<Rightarrow> bool \<Rightarrow> multi_trace_ctx \<Rightarrow> (bool \<times> multi_trace_ctx) option" where
  "multi_trace_tryto_backup cf mem a need_free st =
     (if tn_need_backup (node st a) then backup_retry (rl_nr_entries (backup st) + 1) cf mem a need_free st
      else Some (True, st))"

definition multi_trace_first_pending :: "mt_conf \<Rightarrow> u64 option \<Rightarrow> multi_trace_ctx \<Rightarrow> (addr \<times> multi_trace_ctx) option" where
  "multi_trace_first_pending cf tail st =
     (case pending_list st of
        [] \<Rightarrow> None
      | a # as \<Rightarrow>
          let n = node st a;
              deadline = (case tail of Some t \<Rightarrow> if mc_after_event2 cf \<noteq> 0 then t - mc_after_event2 cf else - 1 | None \<Rightarrow> - 1);
              ts = tl_stat st
          in if tn_time n \<le> deadline then
               let st1 = set_node a (\<lambda>n. n\<lparr>tn_unneeded := \<not> tn_need_backup n\<rparr>)
                     (st\<lparr>pending_list := as, tl_stat := ts\<lparr>ts_pending := ts_pending ts - 1,
                                                            ts_pending_bytes := ts_pending_bytes ts - esize n\<rparr>\<rparr>)
               in Some (a, if \<not> tn_need_backup n then count_unneeded n st1 else st1)
             else None)"

text \<open>The loop over the pending events that are due.\<close>

fun pending_loop :: "nat \<Rightarrow> mt_conf \<Rightarrow> bool \<Rightarrow> u64 \<Rightarrow> bool \<Rightarrow> multi_trace_ctx \<Rightarrow> (bool \<times> multi_trace_ctx) option" where
  "pending_loop k cf mem tail need_free st =
     (case multi_trace_first_pending cf (Some tail) st of
        None \<Rightarrow> Some (need_free, st)
      | Some (a, st1) \<Rightarrow>
          (case k of
             0 \<Rightarrow> None
           | Suc k' \<Rightarrow>
               (case multi_trace_event_lost cf a st1 of
                  None \<Rightarrow> None
                | Some st2 \<Rightarrow>
                    (case multi_trace_tryto_call_two cf a need_free st2 of
                       None \<Rightarrow> None
                     | Some (nf, st3) \<Rightarrow>
                         (case multi_trace_tryto_backup cf mem a nf st3 of
                            None \<Rightarrow> None
                          | Some (nf', st4) \<Rightarrow> pending_loop k' cf mem tail nf' st4)))))"

declare pending_loop.simps [simp del]

section \<open>Events\<close>

record sample_event =
  se_time :: u64
  se_evsel :: nat
  se_ins :: nat
  se_bytes :: "u8 list"
  se_raw :: "u8 list"
  se_dev :: bool
  se_unnecessary :: bool

text \<open>The position of the tracepoint of an event, and the last traced one before it in its list.\<close>

fun find_in_list :: "nat \<Rightarrow> nat \<Rightarrow> nat \<Rightarrow> tpid option \<Rightarrow> tp list \<Rightarrow> (tpid \<times> tpid option) option" where
  "find_in_list ev i j tp1 [] = None"
| "find_in_list ev i j tp1 (t # ts) =
     (if tp_evsel t = ev then Some ((i, j), tp1)
      else find_in_list ev i (j + 1) (if \<not> tp_untraced t then Some (i, j) else tp1) ts)"

fun find_tp :: "nat \<Rightarrow> nat \<Rightarrow> tp list list \<Rightarrow> (tpid \<times> tpid option) option" where
  "find_tp ev i [] = None"
| "find_tp ev i (l # ls) = (case find_in_list ev i 0 None l of Some r \<Rightarrow> Some r | None \<Rightarrow> find_tp ev (i + 1) ls)"

text \<open>The variable \<open>current\<close> as it is filled in for an event with the tracepoint \<open>p\<close>.\<close>

definition make_current :: "mt_conf \<Rightarrow> tpid \<Rightarrow> tpid option \<Rightarrow> u64 \<Rightarrow> sample_event \<Rightarrow> timeline_node" where
  "make_current cf p tp1 seq e =
     (let t = tp_at cf p; i = fst p;
          unnecessary = (\<not> se_dev e \<and> se_unnecessary e);
          role = (case tp_role_prog t of Some f \<Rightarrow> if se_dev e then 3 else f (se_raw e) | None \<Rightarrow> 3);
          last = (i = length (mc_tp_list cf) - 1);
          find_prev = (if mc_nested cf then mc_impl_based_on_call cf \<or> tp1 \<noteq> None
                       else (i \<noteq> 0 \<or> mc_cycle cf) \<and> bit role 1);
          need_backup = (if mc_nested cf then tp1 = None
                         else (if \<not> last then \<not> unnecessary else mc_cycle cf) \<and> bit role 0);
          key = (case tp_key_prog t of Some f \<Rightarrow> f (se_raw e) | None \<Rightarrow> mc_ins_key cf (se_ins e))
      in \<lparr>tn_time = se_time e, tn_key = key, tn_tp = p, tn_tp1 = (if mc_nested cf then tp1 else None),
          tn_unneeded = (\<not> need_backup \<or> tp_untraced t), tn_need_find_prev = find_prev, tn_need_backup = need_backup,
          tn_need_remove = (if mc_nested cf then tp1 \<noteq> None else True), tn_maybe_unpaired = False,
          tn_ins = se_ins e, tn_seq = seq, tn_event = se_bytes e\<rparr>)"

text \<open>With a timeline: the event goes onto it, then the events that are due are handled.\<close>

definition sample_timeline :: "mt_conf \<Rightarrow> bool \<Rightarrow> multi_trace_ctx \<Rightarrow> multi_trace_ctx option" where
  "sample_timeline cf mem st =
     (let n = node st 0 in
      if rblist__empty (timeline st) \<and> tn_unneeded n \<and> mc_before_event1 cf = 0 \<and> mc_after_event2 cf = 0 then Some st
      else
        case rblist__add_node (timeline_cmp st) (if mem then Some (fresh st) else None) n (timeline st) of
          None \<Rightarrow> None
        | Some (ret, rl) \<Rightarrow>
            if ret \<noteq> 0 then Some st
            else
              let st1 = timeline_node_new cf 0 (fresh st) (st\<lparr>timeline := rl\<rparr>) in
              case pending_loop (length (pending_list st1)) cf mem (tn_time n) (tn_unneeded n) st1 of
                None \<Rightarrow> None
              | Some (need_free, st2) \<Rightarrow> if need_free then timeline_free_unneeded cf st2 else Some st2)"

definition sample_direct :: "mt_conf \<Rightarrow> bool \<Rightarrow> multi_trace_ctx \<Rightarrow> multi_trace_ctx option" where
  "sample_direct cf mem st =
     (if tp_untraced (tp_at cf (tn_tp (node st 0))) then Some st
      else
        case multi_trace_event_lost cf 0 st of
          None \<Rightarrow> None
        | Some st1 \<Rightarrow>
            (case multi_trace_tryto_call_two cf 0 False st1 of
               None \<Rightarrow> None
             | Some (_, st2) \<Rightarrow> map_option snd (multi_trace_tryto_backup cf mem 0 False st2)))"

text \<open>The events of \<open>extra_evsel\<close> and the printing on a trigger are left out.\<close>

definition multi_trace_sample :: "mt_conf \<Rightarrow> bool \<Rightarrow> sample_event \<Rightarrow> multi_trace_ctx \<Rightarrow> multi_trace_ctx option" where
  "multi_trace_sample cf mem e st =
     (let st0 = (if se_time e > recent_time st then st\<lparr>recent_time := se_time e\<rparr> else st) in
      case find_tp (se_evsel e) 0 (mc_tp_list cf) of
        None \<Rightarrow> Some st0
      | Some (p, tp1) \<Rightarrow>
          let n = make_current cf p tp1 (event_handled st0) e;
              st1 = st0\<lparr>event_handled := event_handled st0 + 1, heap := (heap st0)(0 \<mapsto> n)\<rparr>
          in map_option (\<lambda>st2. st2\<lparr>heap := (heap st2)(0 := None)\<rparr>)
               (if mc_need_timeline cf then sample_timeline cf mem st1 else sample_direct cf mem st1))"

definition multi_trace_init :: multi_trace_ctx where
  "multi_trace_init =
     \<lparr>heap = (\<lambda>_. None), fresh = 1, backup = rblist__init, timeline = rblist__init, perins_list = (\<lambda>_. []), needed_list = [],
      pending_list = [], recent_time = 0, event_handled = 0, timeline_lost_list = [], perins_lost_list = (\<lambda>_. []),
      tl_stat = \<lparr>ts_new = 0, ts_delete = 0, ts_unneeded = 0, ts_pending = 0, ts_mem_bytes = 0, ts_unneeded_bytes = 0, ts_pending_bytes = 0\<rparr>,
      backup_stat = \<lparr>bs_new = 0, bs_delete = 0, bs_mem_bytes = 0\<rparr>, calls = []\<rparr>"

fun drain_pending :: "nat \<Rightarrow> mt_conf \<Rightarrow> multi_trace_ctx \<Rightarrow> multi_trace_ctx option" where
  "drain_pending k cf st =
     (case multi_trace_first_pending cf None st of
        None \<Rightarrow> Some st
      | Some (a, st1) \<Rightarrow> (case k of 0 \<Rightarrow> None | Suc k' \<Rightarrow> drain_pending k' cf st1))"

declare drain_pending.simps [simp del]

text \<open>\<open>multi_trace_flush\<close> with \<open>PROF_DEV_FLUSH_FINAL\<close>.\<close>

definition multi_trace_flush :: "mt_conf \<Rightarrow> multi_trace_ctx \<Rightarrow> multi_trace_ctx option" where
  "multi_trace_flush cf st =
     (case multi_trace_handle_remaining cf REMAINING_EXIT st of
        None \<Rightarrow> None
      | Some st1 \<Rightarrow>
          (case drain_pending (length (pending_list st1)) cf st1 of
             None \<Rightarrow> None
           | Some st2 \<Rightarrow> (case exit_backup cf st2 of None \<Rightarrow> None | Some st3 \<Rightarrow> exit_timeline st3)))"

end
