(* ===== verification/Multi_Find.thy ===== *)
theory Multi_Find
  imports Multi_Trace
begin

text \<open>
  The tables of \<open>src/multi-trace.c\<close>: searching by key alone, removing by address, and what
  changes of the heap leave of a table.
\<close>

section \<open>Searching\<close>

text \<open>The first element that is not before the key, when it has the key.\<close>

lemma find_first_down_spec:
  assumes "sorted_wrt (\<lambda>x y. c y \<le> c x) (inorder t)"
  shows "case dropWhile (\<lambda>a. c a > 0) (inorder t) of
      [] \<Rightarrow> find_first_down c t fs m = m
    | a # as \<Rightarrow> if c a = 0 then at (a # as @ after fs) (find_first_down c t fs m) else find_first_down c t fs m = m"
  using assms
proof (induction c t fs m rule: find_first_down.induct)
  case (2 c k l a r fs m)
  have s: "sorted_wrt (\<lambda>x y. c y \<le> c x) (inorder l)" "sorted_wrt (\<lambda>x y. c y \<le> c x) (inorder r)"
    "\<And>x. x \<in> set (inorder l) \<Longrightarrow> c a \<le> c x"
    using "2.prems" by (auto simp: sorted_wrt_append)
  show ?case
  proof (cases "c a \<le> 0")
    case True
    let ?m = "if c a = 0 then Some (Nd k l a r, fs) else m"
    note ih = "2.IH"(1) [OF True s(1)]
    show ?thesis
    proof (cases "dropWhile (\<lambda>a. c a > 0) (inorder l)")
      case Nil
      then have "\<forall>x\<in>set (inorder l). c x > 0" by (simp add: dropWhile_eq_Nil_conv)
      then have "dropWhile (\<lambda>a. c a > 0) (inorder (Nd k l a r)) = a # inorder r"
        using True by (simp add: dropWhile_append3)
      then show ?thesis using ih Nil True by (cases "c a = 0") (simp_all add: at_def)
    next
      case (Cons x xs)
      then have x: "x \<in> set (inorder l)" "\<not> c x > 0" by (metis list.set_intros(1) set_dropWhileD, metis hd_dropWhile list.discI list.sel(1))
      then have d: "dropWhile (\<lambda>a. c a > 0) (inorder (Nd k l a r)) = x # xs @ a # inorder r"
        using Cons by (simp add: dropWhile_append1)
      show ?thesis
      proof (cases "c x = 0")
        case True
        then show ?thesis using ih Cons d \<open>c a \<le> 0\<close> by simp
      next
        case False
        then have "c x < 0" using x(2) by simp
        then have "c a \<noteq> 0" using s(3) [OF x(1)] by simp
        then show ?thesis using ih Cons d False \<open>c a \<le> 0\<close> by simp
      qed
    qed
  next
    case False
    then have "\<forall>x\<in>set (inorder l). c x > 0" using s(3) by (meson less_le_trans not_le)
    then have d: "dropWhile (\<lambda>a. c a > 0) (inorder (Nd k l a r)) = dropWhile (\<lambda>a. c a > 0) (inorder r)"
      using False by (simp add: dropWhile_append3)
    have e: "find_first_down c (Nd k l a r) fs m = find_first_down c r (InR k l a # fs) m" "after (InR k l a # fs) = after fs"
      using False by simp_all
    show ?thesis unfolding d e(1) using "2.IH"(2) [OF False s(2), unfolded e(2)] .
  qed
qed simp

lemma next_match_at:
  assumes "at (a # xs) (Some z)"
  shows "(case xs of [] \<Rightarrow> rb_next_match c z = None
    | b # bs \<Rightarrow> if c b = 0 then at xs (rb_next_match c z) else rb_next_match c z = None)"
proof -
  obtain k l r fs where z: "z = (Nd k l a r, fs)" using at_Some [OF assms] by auto
  have n: "at xs (rb_next z)" using assms unfolding z by (rule next_at)
  show ?thesis
  proof (cases xs)
    case Nil
    then have "rb_next z = None" using n at_Some by (cases "rb_next z") fastforce+
    then show ?thesis using Nil by (simp add: rb_next_match_def)
  next
    case (Cons b bs)
    then obtain k' l' r' gs where w: "rb_next z = Some (Nd k' l' b r', gs)"
      using n at_Some by (cases "rb_next z") (fastforce simp: at_None)+
    then show ?thesis using n Cons by (simp add: rb_next_match_def)
  qed
qed

lemma matches_at:
  "at xs z \<Longrightarrow> z \<noteq> None \<Longrightarrow> c (hd xs) = 0 \<Longrightarrow> length xs \<le> n \<Longrightarrow> matches n c z = Some (takeWhile (\<lambda>a. c a = 0) xs)"
proof (induction xs arbitrary: n z)
  case Nil
  then show ?case using at_Some by fastforce
next
  case (Cons x xs)
  obtain k l r fs where z: "z = Some (Nd k l x r, fs)" using Cons.prems(1,2) at_Some by fastforce
  obtain m where m: "n = Suc m" "length xs \<le> m" using Cons.prems(4) by (cases n) auto
  note nm = next_match_at [of x xs "(Nd k l x r, fs)" c, folded z, OF Cons.prems(1)]
  show ?case
  proof (cases xs)
    case Nil
    then show ?thesis using nm z m Cons.prems(3) by simp
  next
    case (Cons b bs)
    show ?thesis
    proof (cases "c b = 0")
      case True
      then have a: "at xs (rb_next_match c (Nd k l x r, fs))" using nm Cons by simp
      then have "rb_next_match c (Nd k l x r, fs) \<noteq> None"
        using Cons by (cases "rb_next_match c (Nd k l x r, fs)") (auto simp: at_None)
      then have "matches m c (rb_next_match c (Nd k l x r, fs)) = Some (takeWhile (\<lambda>a. c a = 0) xs)"
        using Cons.IH [OF a _ _ m(2)] True Cons by simp
      then show ?thesis using z m Cons.prems(3) by simp
    next
      case False
      then show ?thesis using nm z m Cons.prems(3) Cons by simp
    qed
  qed
qed

lemma takeWhile_zero:
  fixes c :: "'a \<Rightarrow> int"
  shows "sorted_wrt (\<lambda>x y. c y \<le> c x) xs \<Longrightarrow> \<forall>x\<in>set xs. c x \<le> 0 \<Longrightarrow>
    takeWhile (\<lambda>a. c a = 0) xs = filter (\<lambda>a. c a = 0) xs"
proof (induction xs)
  case (Cons x xs)
  show ?case
  proof (cases "c x = 0")
    case False
    then have "\<forall>y\<in>set xs. c y \<noteq> 0" using Cons.prems by fastforce
    then show ?thesis using False by (simp add: filter_empty_conv)
  qed (use Cons in simp)
qed simp

text \<open>\<open>rb_for_each\<close> visits exactly the elements with the key.\<close>

lemma matches_all:
  assumes "sorted_wrt (\<lambda>x y. c y \<le> c x) (inorder t)" "length (inorder t) \<le> n"
  shows "matches n c (rb_find_first c t) = Some (filter (\<lambda>a. c a = 0) (inorder t))"
proof -
  let ?d = "dropWhile (\<lambda>a. c a > 0) (inorder t)"
  note f = find_first_down_spec [OF assms(1), of "[]" None, folded rb_find_first_def]
  have i: "inorder t = takeWhile (\<lambda>a. c a > 0) (inorder t) @ ?d" by simp
  have p: "filter (\<lambda>a. c a = 0) (takeWhile (\<lambda>a. c a > 0) (inorder t)) = []"
    by (auto simp: filter_empty_conv dest: set_takeWhileD)
  have e: "filter (\<lambda>a. c a = 0) (inorder t) = filter (\<lambda>a. c a = 0) ?d" using i p by (metis append_Nil filter_append)
  have s: "sorted_wrt (\<lambda>x y. c y \<le> c x) ?d" using assms(1) i by (metis sorted_wrt_append)
  have l: "length ?d \<le> n" using assms(2) length_dropWhile_le le_trans by blast
  show ?thesis
  proof (cases ?d)
    case Nil
    then show ?thesis using f [unfolded Nil] e [unfolded Nil] by simp
  next
    case (Cons a as)
    have na: "\<not> c a > 0" using Cons hd_dropWhile [of "\<lambda>a. c a > 0" "inorder t"] by auto
    show ?thesis
    proof (cases "c a = 0")
      case True
      have le: "c x \<le> 0" if "x \<in> set ?d" for x using s that Cons True by auto
      then have t: "takeWhile (\<lambda>a. c a = 0) ?d = filter (\<lambda>a. c a = 0) ?d" by (intro takeWhile_zero s) simp
      have "at ?d (rb_find_first c t)" using f True unfolding Cons by simp
      moreover from this have "rb_find_first c t \<noteq> None" using Cons by (cases "rb_find_first c t") (auto simp: at_None)
      ultimately show ?thesis using matches_at [of ?d "rb_find_first c t" c n] l t e True unfolding Cons by simp
    next
      case False
      then have "\<forall>x\<in>set ?d. c x \<noteq> 0" using s na Cons by auto
      then have "filter (\<lambda>a. c a = 0) ?d = []" by (simp add: filter_empty_conv)
      then show ?thesis using f e Cons False by simp
    qed
  qed
qed

end
