(* ===== verification/Multi_Pairs.thy ===== *)
theory Multi_Pairs
  imports Multi_Find
begin

text \<open>
  Which events \<open>src/multi-trace.c\<close> pairs: the table of kept events, in both ways of keeping them,
  is a map from keys to events, and the calls of \<open>two\<close> are those of the map.
\<close>

section \<open>Tables of addresses\<close>

lemma place_of_sound:
  "place_of x t fs = Some z \<Longrightarrow> \<exists>c l r gs. z = (Nd c l x r, gs) \<and> plug (Nd c l x r) gs = plug t fs"
proof (induction x t fs rule: place_of.induct)
  case (2 x c l a r fs)
  show ?case
  proof (cases "a = x")
    case False
    show ?thesis
    proof (cases "place_of x l (InL c a r # fs)")
      case None
      then show ?thesis using "2.IH"(2) [OF False None] "2.prems" False by simp
    next
      case (Some y)
      then show ?thesis using "2.IH"(1) [OF False] "2.prems" False by simp
    qed
  qed (use 2 in auto)
qed simp

lemma place_of_complete: "x \<in> set (inorder t) \<Longrightarrow> place_of x t fs \<noteq> None"
  by (induction x t fs rule: place_of.induct) (auto split: option.splits)

lemma remove_by_address:
  assumes "table_ok k rl" "a \<in> set (entries rl)"
  shows "\<exists>z rl1. place_of a (rl_tree rl) [] = Some z \<and> rblist__remove_node z rl = Some rl1 \<and> table_ok k rl1 \<and>
    table_map k rl1 = (table_map k rl)(k a := None) \<and> set (entries rl1) = set (entries rl) - {a} \<and>
    (\<exists>xs ys. entries rl = xs @ a # ys \<and> entries rl1 = xs @ ys)"
proof -
  obtain z where z: "place_of a (rl_tree rl) [] = Some z" using place_of_complete [OF assms(2), of "[]"] by auto
  then obtain c l r gs where g: "z = (Nd c l a r, gs)" "plug (Nd c l a r) gs = rl_tree rl" using place_of_sound [OF z] by auto
  obtain rl1 where r: "rblist__remove_node z rl = Some rl1" "table_ok k rl1"
      "entries rl = (before gs @ inorder l) @ a # (inorder r @ after gs)" "entries rl1 = (before gs @ inorder l) @ (inorder r @ after gs)"
    using remove_ok [OF assms(1) g(2)] g(1) by auto
  have "distinct (entries rl)" using assms(1) by (auto simp: table_ok_def strict_sorted_iff distinct_map)
  then have "set (entries rl1) = set (entries rl) - {a}" using r(3,4) by auto
  then show ?thesis using z r table_map_remove [OF assms(1) r(3,4)] by blast
qed

section \<open>The order of the tables\<close>

abbreviation bkey :: "multi_trace_ctx \<Rightarrow> addr \<Rightarrow> u64" where
  "bkey st a \<equiv> tn_key (node st a)"

definition tkey :: "timeline_node \<Rightarrow> u64 \<times> u64 \<times> u64" where
  "tkey n = (tn_time n, tn_key n, tn_seq n)"

interpretation bk: node_order "\<lambda>a. perf_event_backup_node_cmp (node st a)" "bkey st" tn_key for st
  by unfold_locales (auto simp: perf_event_backup_node_cmp_def cmp_u64_def)

interpretation tl: node_order "timeline_cmp st" "\<lambda>a. tkey (node st a)" tkey for st
  by unfold_locales (auto simp: timeline_cmp_def timeline_node_cmp_def tkey_def Let_def cmp_u64_def)

lemma backup_cmp_plain: "\<not> mc_nested cf \<Longrightarrow> backup_cmp cf st = (\<lambda>a. perf_event_backup_node_cmp (node st a))"
  by (intro ext) (simp add: backup_cmp_def)

lemma rb_for_each_plain:
  assumes "table_ok (bkey st) (backup st)"
  shows "rb_for_each st key = Some (case table_map (bkey st) (backup st) key of None \<Rightarrow> [] | Some a \<Rightarrow> [a])"
proof -
  let ?c = "\<lambda>a. perf_event_backup_node_find key (node st a)" and ?es = "entries (backup st)"
  have so: "sorted_wrt (<) (map (bkey st) ?es)" and n: "rl_nr_entries (backup st) = length ?es"
    using assms by (simp_all add: table_ok_def)
  have "sorted_wrt (\<lambda>x y. ?c y \<le> ?c x) ?es"
    using so unfolding sorted_wrt_map
    by (rule sorted_wrt_mono_rel [rotated]) (auto simp: perf_event_backup_node_find_def cmp_u64_def)
  then have m: "rb_for_each st key = Some (filter (\<lambda>a. bkey st a = key) ?es)"
    using matches_all [of ?c "rl_tree (backup st)" "rl_nr_entries (backup st)"] n
    by (auto simp: rb_for_each_def Let_def perf_event_backup_node_find_def cmp_u64_def intro!: filter_cong)
  show ?thesis
  proof (cases "table_map (bkey st) (backup st) key")
    case None
    then have "filter (\<lambda>a. bkey st a = key) ?es = []"
      by (auto simp: filter_empty_conv table_map_def map_of_eq_None_iff image_image)
    then show ?thesis using m None by simp
  next
    case (Some a)
    note e = table_map_entry [OF Some]
    then obtain xs ys where x: "?es = xs @ a # ys" by (meson split_list)
    have "filter (\<lambda>a. bkey st a = key) xs = []" "filter (\<lambda>a. bkey st a = key) ys = []"
      using so e unfolding x by (auto simp: filter_empty_conv sorted_wrt_append)
    then have "filter (\<lambda>a. bkey st a = key) (xs @ a # ys) = [a]" using e by simp
    then show ?thesis using m Some x by simp
  qed
qed

section \<open>What the operations leave alone\<close>

lemma set_node_frame [simp]:
  "heap (set_node a f st) = (heap st)(a := map_option f (heap st a))"
  "fresh (set_node a f st) = fresh st" "backup (set_node a f st) = backup st" "timeline (set_node a f st) = timeline st"
  "pending_list (set_node a f st) = pending_list st" "recent_time (set_node a f st) = recent_time st"
  "event_handled (set_node a f st) = event_handled st" "timeline_lost_list (set_node a f st) = timeline_lost_list st"
  "perins_lost_list (set_node a f st) = perins_lost_list st" "calls (set_node a f st) = calls st"
  by (simp_all add: set_node_def)

lemma count_unneeded_frame [simp]:
  "heap (count_unneeded n st) = heap st" "fresh (count_unneeded n st) = fresh st" "backup (count_unneeded n st) = backup st"
  "timeline (count_unneeded n st) = timeline st" "pending_list (count_unneeded n st) = pending_list st"
  "recent_time (count_unneeded n st) = recent_time st" "event_handled (count_unneeded n st) = event_handled st"
  "timeline_lost_list (count_unneeded n st) = timeline_lost_list st" "perins_lost_list (count_unneeded n st) = perins_lost_list st"
  "calls (count_unneeded n st) = calls st"
  by (simp_all add: count_unneeded_def)

lemma backup_delete_frame [simp]:
  "heap (perf_event_backup_node_delete cf b st) =
     (if mc_need_timeline cf then (heap st)(b := map_option (\<lambda>n. n\<lparr>tn_unneeded := True\<rparr>) (heap st b)) else (heap st)(b := None))"
  "fresh (perf_event_backup_node_delete cf b st) = fresh st" "backup (perf_event_backup_node_delete cf b st) = backup st"
  "timeline (perf_event_backup_node_delete cf b st) = timeline st"
  "pending_list (perf_event_backup_node_delete cf b st) = pending_list st"
  "recent_time (perf_event_backup_node_delete cf b st) = recent_time st"
  "event_handled (perf_event_backup_node_delete cf b st) = event_handled st"
  "timeline_lost_list (perf_event_backup_node_delete cf b st) = timeline_lost_list st"
  "perins_lost_list (perf_event_backup_node_delete cf b st) = perins_lost_list st"
  "calls (perf_event_backup_node_delete cf b st) = calls st"
  by (simp_all add: perf_event_backup_node_delete_def Let_def)

lemma backup_new_frame [simp]:
  "heap (perf_event_backup_node_new cf a b st) =
     (if mc_need_timeline cf then heap st
      else (heap st)(b \<mapsto> (node st a)\<lparr>tn_unneeded := False, tn_maybe_unpaired := False\<rparr>))"
  "fresh (perf_event_backup_node_new cf a b st) = (if mc_need_timeline cf then fresh st else fresh st + 1)"
  "backup (perf_event_backup_node_new cf a b st) = backup st" "timeline (perf_event_backup_node_new cf a b st) = timeline st"
  "pending_list (perf_event_backup_node_new cf a b st) = pending_list st"
  "recent_time (perf_event_backup_node_new cf a b st) = recent_time st"
  "event_handled (perf_event_backup_node_new cf a b st) = event_handled st"
  "timeline_lost_list (perf_event_backup_node_new cf a b st) = timeline_lost_list st"
  "perins_lost_list (perf_event_backup_node_new cf a b st) = perins_lost_list st"
  "calls (perf_event_backup_node_new cf a b st) = calls st"
  by (simp_all add: perf_event_backup_node_new_def Let_def)

section \<open>The state of kept events\<close>

text \<open>The event of a node without the marks that change while it is kept.\<close>

definition norm :: "timeline_node \<Rightarrow> timeline_node" where
  "norm n = n\<lparr>tn_unneeded := False, tn_maybe_unpaired := False\<rparr>"

lemma norm_simps [simp]:
  "norm (n\<lparr>tn_unneeded := b\<rparr>) = norm n" "norm (n\<lparr>tn_maybe_unpaired := b\<rparr>) = norm n" "norm (norm n) = norm n"
  "tn_key (norm n) = tn_key n" "tn_time (norm n) = tn_time n" "tn_seq (norm n) = tn_seq n" "tn_tp (norm n) = tn_tp n"
  "tkey (norm n) = tkey n"
  by (simp_all add: norm_def tkey_def)

lemma norm_eqD: "norm n = norm m \<Longrightarrow> tn_key n = tn_key m \<and> tkey n = tkey m \<and> tn_time n = tn_time m \<and> tn_tp n = tn_tp m"
  by (metis norm_simps(4-8))

text \<open>The kept event of a key.\<close>

definition kept :: "multi_trace_ctx \<Rightarrow> u64 \<rightharpoonup> timeline_node" where
  "kept st k = map_option (\<lambda>a. norm (node st a)) (table_map (bkey st) (backup st) k)"

lemma kept_cong:
  assumes b: "backup st1 = backup st" and n: "\<And>x. x \<in> set (entries (backup st)) \<Longrightarrow> norm (node st1 x) = norm (node st x)"
  shows "kept st1 = kept st" "table_ok (bkey st1) (backup st1) = table_ok (bkey st) (backup st)"
proof -
  have k: "bkey st1 x = bkey st x" if "x \<in> set (entries (backup st))" for x using norm_eqD [OF n [OF that]] by blast
  have m: "table_map (bkey st1) (backup st) = table_map (bkey st) (backup st)" using k by (rule table_map_cong)
  have "kept st1 x = kept st x" for x
  proof (cases "table_map (bkey st) (backup st) x")
    case (Some y)
    then have "norm (node st1 y) = norm (node st y)" using table_map_entry [OF Some] n by blast
    then show ?thesis using Some m b by (simp add: kept_def)
  qed (use m b in \<open>simp add: kept_def\<close>)
  then show "kept st1 = kept st" by (rule ext)
  show "table_ok (bkey st1) (backup st1) = table_ok (bkey st) (backup st)" using table_ok_cong [OF k] b by simp
qed

definition base_ok :: "multi_trace_ctx \<Rightarrow> bool" where
  "base_ok st \<longleftrightarrow> table_ok (bkey st) (backup st) \<and> 0 \<notin> set (entries (backup st)) \<and> (\<forall>a\<in>dom (heap st). a < fresh st) \<and>
     timeline_lost_list st = [] \<and> perins_lost_list st = (\<lambda>_. []) \<and> 0 < fresh st"

text \<open>
  With a timeline the nodes that are allocated are those of the timeline, and those of them that
  are not kept are marked as unneeded, except for \<open>X\<close>; their numbers are below that of the next.
\<close>

definition timeline_ok :: "addr set \<Rightarrow> multi_trace_ctx \<Rightarrow> bool" where
  "timeline_ok X st \<longleftrightarrow> table_ok (\<lambda>a. tkey (node st a)) (timeline st) \<and> set (entries (timeline st)) = dom (heap st) - {0} \<and>
     set (entries (backup st)) \<subseteq> set (entries (timeline st)) \<and>
     (\<forall>a\<in>set (entries (timeline st)) - X. tn_unneeded (node st a) \<longleftrightarrow> a \<notin> set (entries (backup st))) \<and>
     (\<forall>a\<in>set (entries (timeline st)). snd (snd (tkey (node st a))) < event_handled st)"

text \<open>Without one they are the kept ones.\<close>

definition own_ok :: "multi_trace_ctx \<Rightarrow> bool" where
  "own_ok st \<longleftrightarrow> set (entries (backup st)) = dom (heap st) - {0}"

definition ctx_ok :: "mt_conf \<Rightarrow> addr set \<Rightarrow> multi_trace_ctx \<Rightarrow> bool" where
  "ctx_ok cf X st \<longleftrightarrow> base_ok st \<and> (if mc_need_timeline cf then timeline_ok X st else own_ok st)"

lemma kept_alive: "ctx_ok cf X st \<Longrightarrow> set (entries (backup st)) \<subseteq> dom (heap st) - {0}"
  by (auto simp: ctx_ok_def timeline_ok_def own_ok_def base_ok_def split: if_splits)

lemma timeline_okI:
  "table_ok (\<lambda>a. tkey (node st a)) (timeline st) \<Longrightarrow> set (entries (timeline st)) = dom (heap st) - {0} \<Longrightarrow>
   set (entries (backup st)) \<subseteq> set (entries (timeline st)) \<Longrightarrow>
   (\<And>a. a \<in> set (entries (timeline st)) \<Longrightarrow> a \<notin> X \<Longrightarrow> tn_unneeded (node st a) \<longleftrightarrow> a \<notin> set (entries (backup st))) \<Longrightarrow>
   (\<And>a. a \<in> set (entries (timeline st)) \<Longrightarrow> snd (snd (tkey (node st a))) < event_handled st) \<Longrightarrow> timeline_ok X st"
  by (simp add: timeline_ok_def)

lemma timeline_okD:
  assumes "timeline_ok X st"
  shows "table_ok (\<lambda>a. tkey (node st a)) (timeline st)" "set (entries (timeline st)) = dom (heap st) - {0}"
    "set (entries (backup st)) \<subseteq> set (entries (timeline st))"
    "a \<in> set (entries (timeline st)) \<Longrightarrow> a \<notin> X \<Longrightarrow> tn_unneeded (node st a) \<longleftrightarrow> a \<notin> set (entries (backup st))"
    "a \<in> set (entries (timeline st)) \<Longrightarrow> snd (snd (tkey (node st a))) < event_handled st"
  using assms unfolding timeline_ok_def by blast+

lemma timeline_ok_done:
  "timeline_ok {a} st \<Longrightarrow> tn_unneeded (node st a) \<longleftrightarrow> a \<notin> set (entries (backup st)) \<Longrightarrow> timeline_ok {} st"
  unfolding timeline_ok_def by blast

text \<open>Removing a kept event.\<close>

lemma remove_backup_ok:
  assumes ok: "ctx_ok cf X st" and b: "b \<in> set (entries (backup st))"
  shows "\<exists>st1. remove_backup cf b st = Some st1 \<and> ctx_ok cf X st1 \<and> kept st1 = (kept st)(bkey st b := None) \<and>
    set (entries (backup st1)) = set (entries (backup st)) - {b} \<and> (\<forall>a. a \<noteq> b \<longrightarrow> heap st1 a = heap st a) \<and>
    timeline st1 = timeline st \<and> pending_list st1 = pending_list st \<and> calls st1 = calls st \<and> event_handled st1 = event_handled st \<and>
    rl_nr_entries (backup st) = Suc (rl_nr_entries (backup st1)) \<and> recent_time st1 = recent_time st"
proof -
  have t: "table_ok (bkey st) (backup st)" using ok by (simp add: ctx_ok_def base_ok_def)
  obtain z rl where r: "place_of b (rl_tree (backup st)) [] = Some z" "rblist__remove_node z (backup st) = Some rl"
      "table_ok (bkey st) rl" "table_map (bkey st) rl = (table_map (bkey st) (backup st))(bkey st b := None)"
      "set (entries rl) = set (entries (backup st)) - {b}" "\<exists>xs ys. entries (backup st) = xs @ b # ys \<and> entries rl = xs @ ys"
    using remove_by_address [OF t b] by blast
  define st1 where "st1 = perf_event_backup_node_delete cf b (st\<lparr>backup := rl\<rparr>)"
  have e: "remove_backup cf b st = Some st1" using r(1,2) by (simp add: remove_backup_def st1_def)
  have h: "heap st1 a = heap st a" if "a \<noteq> b" for a using that by (simp add: st1_def)
  have n: "norm (node st1 a) = norm (node st a)" if "mc_need_timeline cf" for a
    using that kept_alive [OF ok] b by (cases "a = b") (auto simp: st1_def)
  have bk: "bkey st1 a = bkey st a" if "a \<in> set (entries rl)" for a using that r(5) h by auto
  have t1: "table_ok (bkey st1) rl" using r(3) bk table_ok_cong [of rl "bkey st1" "bkey st"] by simp
  have m1: "table_map (bkey st1) rl = table_map (bkey st) rl" using bk by (rule table_map_cong)
  have nr: "rl_nr_entries (backup st) = Suc (rl_nr_entries rl)" using t r(3,6) by (auto simp: table_ok_def)
  have fr: "backup st1 = rl" "fresh st1 = fresh st" "timeline st1 = timeline st" "timeline_lost_list st1 = timeline_lost_list st"
      "perins_lost_list st1 = perins_lost_list st" "event_handled st1 = event_handled st" by (simp_all add: st1_def)
  have k: "kept st1 x = ((kept st)(bkey st b := None)) x" for x
  proof (cases "table_map (bkey st) rl x")
    case None
    then have "x = bkey st b \<or> table_map (bkey st) (backup st) x = None" using fun_cong [OF r(4), of x] by (auto split: if_splits)
    then show ?thesis using None m1 by (auto simp: kept_def fr)
  next
    case (Some a)
    have "a \<noteq> b" using table_map_entry [OF Some] r(5) by blast
    moreover have "x \<noteq> bkey st b" using Some r(4) by (metis fun_upd_same option.distinct(1))
    moreover from this have "table_map (bkey st) (backup st) x = Some a" using Some fun_cong [OF r(4), of x] by simp
    ultimately show ?thesis using Some m1 h by (simp add: kept_def fr)
  qed
  have d: "dom (heap st1) = (if mc_need_timeline cf then dom (heap st) else dom (heap st) - {b})"
    using kept_alive [OF ok] b by (auto simp: st1_def)
  have "dom (heap st1) \<subseteq> dom (heap st)" by (simp add: d)
  then have lt: "\<forall>a\<in>dom (heap st1). a < fresh st" using ok by (auto simp: ctx_ok_def base_ok_def)
  have "0 \<notin> set (entries rl)" using ok r(5) by (simp add: ctx_ok_def base_ok_def)
  then have "base_ok st1" unfolding base_ok_def fr using t1 lt ok by (simp add: ctx_ok_def base_ok_def)
  moreover have "timeline_ok X st1" if "mc_need_timeline cf"
  proof -
    have o: "timeline_ok X st" using ok that by (simp add: ctx_ok_def)
    have tk: "tkey (node st1 a) = tkey (node st a)" for a using norm_eqD [OF n [OF that]] by blast
    show ?thesis
    proof (rule timeline_okI, unfold fr)
      show "table_ok (\<lambda>a. tkey (node st1 a)) (timeline st)" using timeline_okD(1) [OF o] tk by simp
      show "set (entries (timeline st)) = dom (heap st1) - {0}" using timeline_okD(2) [OF o] d that by simp
      show "set (entries rl) \<subseteq> set (entries (timeline st))" using timeline_okD(3) [OF o] r(5) by blast
      show "tn_unneeded (node st1 a) \<longleftrightarrow> a \<notin> set (entries rl)" if "a \<in> set (entries (timeline st))" "a \<notin> X" for a
        using timeline_okD(4) [OF o that] r(5) kept_alive [OF ok] b \<open>mc_need_timeline cf\<close> by (cases "a = b") (auto simp: st1_def)
      show "snd (snd (tkey (node st1 a))) < event_handled st" if "a \<in> set (entries (timeline st))" for a
        using timeline_okD(5) [OF o that] tk by simp
    qed
  qed
  moreover have "own_ok st1" if "\<not> mc_need_timeline cf"
    using ok r(5) d that unfolding ctx_ok_def own_ok_def fr by auto
  ultimately have "ctx_ok cf X st1" by (simp add: ctx_ok_def)
  moreover have "kept st1 = (kept st)(bkey st b := None)" using k by (rule ext)
  ultimately show ?thesis using e r(5) h nr by (auto simp: st1_def)
qed

section \<open>One event\<close>

text \<open>What one event does to the map of kept events, and the pair it makes.\<close>

definition prev_of :: "timeline_node \<Rightarrow> (u64 \<rightharpoonup> timeline_node) \<Rightarrow> timeline_node option" where
  "prev_of n m = (if tn_need_find_prev n then m (tn_key n) else None)"

definition spec_pairs :: "mt_conf \<Rightarrow> timeline_node \<Rightarrow> (u64 \<rightharpoonup> timeline_node) \<Rightarrow> (timeline_node \<times> timeline_node) list" where
  "spec_pairs cf n m =
     (case prev_of n m of
        Some p \<Rightarrow> if mc_object_find cf (tn_tp p) (Some (tn_tp n)) \<and> tn_time p < tn_time n then [(p, norm n)] else []
      | None \<Rightarrow> [])"

definition after_pair :: "timeline_node \<Rightarrow> (u64 \<rightharpoonup> timeline_node) \<Rightarrow> u64 \<rightharpoonup> timeline_node" where
  "after_pair n m = (if prev_of n m \<noteq> None then m(tn_key n := None) else m)"

definition after_keep :: "timeline_node \<Rightarrow> (u64 \<rightharpoonup> timeline_node) \<Rightarrow> u64 \<rightharpoonup> timeline_node" where
  "after_keep n m =
     (if tn_need_backup n then
        (case m (tn_key n) of
           Some x \<Rightarrow> if tn_time n < tn_time x then m else m(tn_key n \<mapsto> norm n)
         | None \<Rightarrow> m(tn_key n \<mapsto> norm n))
      else m)"

definition pairs :: "call list \<Rightarrow> (timeline_node \<times> timeline_node) list" where
  "pairs cs = concat (map (\<lambda>c. case c of Two p (Some e) _ _ \<Rightarrow> [(norm p, norm e)] | _ \<Rightarrow> []) cs)"

lemma pairs_simps [simp]:
  "pairs [] = []" "pairs (cs @ ds) = pairs cs @ pairs ds" "pairs [Two p (Some e) t s] = [(norm p, norm e)]" "pairs [Two p None t s] = []"
  by (simp_all add: pairs_def)

text \<open>Marks that do not touch the event.\<close>

lemma mark_ok:
  assumes ok: "ctx_ok cf X st" and f: "\<And>n. norm (f n) = norm n" and u: "a \<in> X \<or> (\<forall>n. tn_unneeded (f n) = tn_unneeded n)"
  shows "ctx_ok cf X (set_node a f st)" "kept (set_node a f st) = kept st"
proof -
  let ?s = "set_node a f st"
  have n: "norm (node ?s x) = norm (node st x)" if "x \<in> dom (heap st)" for x using f that by (cases "heap st x") auto
  have d: "dom (heap ?s) = dom (heap st)" by auto
  have "norm (node ?s x) = norm (node st x)" if "x \<in> set (entries (backup st))" for x using n kept_alive [OF ok] that by blast
  note k = kept_cong [OF set_node_frame(3) this]
  have "base_ok ?s" using ok k(2) d unfolding ctx_ok_def base_ok_def by simp
  moreover have "timeline_ok X ?s" if "mc_need_timeline cf"
  proof -
    have o: "timeline_ok X st" using ok that by (simp add: ctx_ok_def)
    have tk: "tkey (node ?s x) = tkey (node st x)" if "x \<in> set (entries (timeline st))" for x
      using norm_eqD [OF n [of x]] timeline_okD(2) [OF o] that by blast
    show ?thesis
    proof (rule timeline_okI, unfold set_node_frame(3,4,7) d)
      show "table_ok (\<lambda>x. tkey (node ?s x)) (timeline st)"
        using timeline_okD(1) [OF o] table_ok_cong [of "timeline st" "\<lambda>x. tkey (node ?s x)" "\<lambda>x. tkey (node st x)", OF tk] by simp
      show "tn_unneeded (node ?s x) \<longleftrightarrow> x \<notin> set (entries (backup st))" if "x \<in> set (entries (timeline st))" "x \<notin> X" for x
        using timeline_okD(4) [OF o that] u that timeline_okD(2) [OF o] by (cases "heap st x") auto
      show "snd (snd (tkey (node ?s x))) < event_handled st" if "x \<in> set (entries (timeline st))" for x
        using timeline_okD(5) [OF o that] tk [OF that] by simp
    qed (use timeline_okD(2,3) [OF o] in simp_all)
  qed
  moreover have "own_ok ?s" if "\<not> mc_need_timeline cf" using ok d that by (simp add: ctx_ok_def own_ok_def)
  ultimately show "ctx_ok cf X ?s" by (simp add: ctx_ok_def)
  show "kept ?s = kept st" by (rule k(1))
qed

lemma log_ok [simp]: "ctx_ok cf X (st\<lparr>calls := cs\<rparr>) = ctx_ok cf X st" "kept (st\<lparr>calls := cs\<rparr>) = kept st"
  by (simp_all add: ctx_ok_def base_ok_def timeline_ok_def own_ok_def kept_def [abs_def])

lemma find_prev_plain:
  assumes "ctx_ok cf X st"
  shows "multi_trace_find_prev key None st = Some (table_map (bkey st) (backup st) key)"
  using rb_for_each_plain [of st key] assms
  by (cases "table_map (bkey st) (backup st) key") (simp_all add: multi_trace_find_prev_def ctx_ok_def base_ok_def)

lemma call_two_ok:
  assumes b0: "mc_before_event1 cf = 0" and ok: "ctx_ok cf {a} st" and n: "heap st a = Some n" "tn_tp1 n = None" "tn_need_remove n"
    and a: "a \<notin> set (entries (backup st))"
  shows "\<exists>nf st1. multi_trace_tryto_call_two cf a nf0 st = Some (nf, st1) \<and> ctx_ok cf {a} st1 \<and> heap st1 a = Some n \<and>
    set (entries (backup st1)) \<subseteq> set (entries (backup st)) \<and> kept st1 = after_pair n (kept st) \<and>
    pairs (calls st1) = pairs (calls st) @ spec_pairs cf n (kept st) \<and> timeline st1 = timeline st \<and> pending_list st1 = pending_list st \<and>
    event_handled st1 = event_handled st \<and> (nf \<or> \<not> nf0 \<and> (\<forall>x. tn_unneeded (node st1 x) = tn_unneeded (node st x)))"
proof (cases "prev_of n (kept st)")
  case None
  then show ?thesis
  proof (cases "tn_need_find_prev n")
    case True
    then have "table_map (bkey st) (backup st) (tn_key n) = None" using None by (simp add: prev_of_def kept_def)
    then have f: "multi_trace_find_prev (tn_key n) (tn_tp1 n) st = Some None" using find_prev_plain [OF ok] n by simp
    show ?thesis
      using ok n None True f
      by (cases "mc_impl_based_on_call cf \<and> mc_object_find cf (tn_tp n) None")
        (auto simp: multi_trace_tryto_call_two_def spec_pairs_def after_pair_def)
  next
    case False
    then show ?thesis using ok n None by (auto simp: multi_trace_tryto_call_two_def spec_pairs_def after_pair_def)
  qed
next
  case (Some p)
  then have fp: "tn_need_find_prev n" and "kept st (tn_key n) = Some p" by (auto simp: prev_of_def split: if_splits)
  then obtain q where q: "table_map (bkey st) (backup st) (tn_key n) = Some q" "p = norm (node st q)" by (auto simp: kept_def)
  have qe: "q \<in> set (entries (backup st))" "bkey st q = tn_key n" using table_map_entry [OF q(1)] by auto
  then have qa: "q \<noteq> a" and qd: "q \<in> dom (heap st)" using a kept_alive [OF ok] by auto
  have f: "multi_trace_find_prev (tn_key n) (tn_tp1 n) st = Some (Some q)" using find_prev_plain [OF ok] n q(1) by simp
  define s0 where "s0 = set_node q (\<lambda>n. n\<lparr>tn_maybe_unpaired := False\<rparr>) st"
  have s0: "ctx_ok cf {a} s0" "kept s0 = kept st" using mark_ok [OF ok, of "\<lambda>n. n\<lparr>tn_maybe_unpaired := False\<rparr>" q] by (simp_all add: s0_def)
  have n0: "norm (node s0 q) = p" "heap s0 a = Some n" "bkey s0 q = tn_key n" "tn_time (node s0 q) = tn_time p" "tn_tp (node s0 q) = tn_tp p"
    using q(2) qe qa qd n by (auto simp: s0_def)
  obtain start where st: "iter_start cf q s0 = Some start" using b0 by (cases "mc_need_timeline cf") (simp_all add: iter_start_def)
  define s1 where "s1 = (if mc_object_find cf (tn_tp p) (Some (tn_tp n)) \<and> tn_time p < tn_time n
     then s0\<lparr>calls := calls s0 @ [Two (node s0 q) (Some n) (recent_time s0) start]\<rparr> else s0)"
  have c: "call_two cf q a s0 = Some s1" using st n0 by (simp add: call_two_def s1_def)
  have s1: "ctx_ok cf {a} s1" "kept s1 = kept st" "backup s1 = backup st" "bkey s1 q = tn_key n" "timeline s1 = timeline st"
      "pending_list s1 = pending_list st" "event_handled s1 = event_handled st" "heap s1 a = Some n"
      "pairs (calls s1) = pairs (calls st) @ spec_pairs cf n (kept st)"
    using s0 n0 Some by (auto simp: s1_def s0_def spec_pairs_def)
  obtain s2 where s2: "remove_backup cf q s1 = Some s2" "ctx_ok cf {a} s2" "kept s2 = (kept s1)(bkey s1 q := None)"
      "set (entries (backup s2)) = set (entries (backup s1)) - {q}" "\<forall>x. x \<noteq> q \<longrightarrow> heap s2 x = heap s1 x" "timeline s2 = timeline s1"
      "pending_list s2 = pending_list s1" "calls s2 = calls s1" "event_handled s2 = event_handled s1"
    using remove_backup_ok [OF s1(1), of q] qe s1(3) by auto
  have "multi_trace_tryto_call_two cf a nf0 st = Some (True, s2)"
    using fp f c s2(1) n by (simp add: multi_trace_tryto_call_two_def s0_def [symmetric])
  then show ?thesis using s1 s2 qa Some by (auto simp: after_pair_def)
qed

text \<open>A node \<open>b\<close> for the event \<open>n\<close> enters the table of kept events.\<close>

lemma findnew_new:
  assumes pl: "\<not> mc_nested cf" and ok: "ctx_ok cf {a} st" and n: "heap st a = Some n" and new: "kept st (tn_key n) = None"
    and md: "if mc_need_timeline cf then a \<in> set (entries (timeline st)) \<and> \<not> tn_unneeded n \<and> a \<notin> set (entries (backup st)) else a = 0 \<and> mem"
  shows "\<exists>b st1. findnew_backup cf mem a st = Some (Some b, True, st1) \<and> ctx_ok cf {} st1 \<and>
    kept st1 = (kept st)(tn_key n \<mapsto> norm n) \<and> timeline st1 = timeline st \<and> pending_list st1 = pending_list st \<and>
    event_handled st1 = event_handled st \<and> calls st1 = calls st \<and> (\<forall>x\<in>dom (heap st). heap st1 x = heap st x)"
proof -
  let ?tl = "mc_need_timeline cf"
  define b where "b = (if ?tl then a else fresh st)"
  define h where "h = (if ?tl then heap st else (heap st)(b \<mapsto> norm n))"
  have base: "base_ok st" using ok by (simp add: ctx_ok_def)
  have fr: "fresh st \<notin> dom (heap st)" and f0: "fresh st \<noteq> 0" if "\<not> ?tl"
    using base md n that by (auto simp: base_ok_def dom_def split: if_splits)
  have hb: "h b = Some n \<or> h b = Some (norm n)" using n by (simp add: h_def b_def)
  have bb: "b \<notin> set (entries (backup st))" using md fr kept_alive [OF ok] by (auto simp: b_def split: if_splits)
  have hs: "h x = heap st x" if "x \<in> dom (heap st)" for x using that fr by (auto simp: h_def b_def)
  have ea: "heap st x = h x" if "x \<in> set (entries (backup st))" for x using hs kept_alive [OF ok] that by (metis DiffD1 subsetD)
  let ?s = "st\<lparr>heap := h\<rparr>"
  have kc: "bkey ?s x = bkey st x" if "x \<in> set (entries (backup st))" for x using ea [OF that] by simp
  have t: "table_ok (bkey ?s) (backup st)"
    using table_ok_cong [of "backup st" "bkey ?s" "bkey st", OF kc] base by (simp add: base_ok_def)
  have m: "table_map (bkey ?s) (backup st) = table_map (bkey st) (backup st)" using kc by (rule table_map_cong)
  have kb: "bkey ?s b = tn_key n" using hb by auto
  have no: "table_map (bkey ?s) (backup st) (tn_key n) = None" using new m by (simp add: kept_def)
  obtain rl where r: "rblist__findnew (\<lambda>a. perf_event_backup_node_cmp (node ?s a)) (Some b) n True (backup st) = Some (Some b, rl)"
      "table_ok (bkey ?s) rl" "table_map (bkey ?s) rl = (table_map (bkey ?s) (backup st))(tn_key n \<mapsto> b)"
      "rl_nr_entries rl = rl_nr_entries (backup st) + 1"
    using bk.findnew_spec [OF t, of "Some b" n True] kb no by auto
  have "rblist__findnew (backup_cmp cf st) (Some b) n True (backup st) = Some (Some b, rl)"
    using r(1) findnew_cong [of "backup st" "backup_cmp cf st" n "\<lambda>a. perf_event_backup_node_cmp (node ?s a)"] ea
    by (simp add: backup_cmp_plain [OF pl])
  then have e: "findnew_backup cf mem a st = Some (Some b, True, perf_event_backup_node_new cf a b (st\<lparr>backup := rl\<rparr>))"
    using n md r(4) by (auto simp: findnew_backup_def b_def Let_def split: if_splits)
  define st1 where "st1 = perf_event_backup_node_new cf a b (st\<lparr>backup := rl\<rparr>)"
  have h1: "heap st1 = h" using n by (simp add: st1_def h_def norm_def)
  have fs: "backup st1 = rl" "timeline st1 = timeline st" "pending_list st1 = pending_list st" "event_handled st1 = event_handled st"
    "calls st1 = calls st" "timeline_lost_list st1 = timeline_lost_list st" "perins_lost_list st1 = perins_lost_list st"
    "fresh st1 = (if ?tl then fresh st else fresh st + 1)" by (simp_all add: st1_def)
  have es: "set (entries rl) = insert b (set (entries (backup st)))"
    using r(2,3) t no by (simp add: entries_ran)
  have b0: "b \<noteq> 0"
  proof (cases ?tl)
    case True
    then show ?thesis using ok md by (auto simp: ctx_ok_def timeline_ok_def b_def)
  qed (use f0 in \<open>simp add: b_def\<close>)
  have be: "base_ok st1"
  proof -
    have "0 \<notin> set (entries rl)" using es base b0 by (auto simp: base_ok_def)
    moreover have "\<forall>x\<in>dom h. x < fresh st1" using base by (auto simp: h_def fs b_def base_ok_def less_Suc_eq split: if_splits)
    ultimately show ?thesis using base r(2) h1 fs by (simp add: base_ok_def)
  qed
  moreover have "timeline_ok {} st1" if ?tl
  proof -
    have o: "timeline_ok {a} st" and h: "h = heap st" "b = a" using ok that by (simp_all add: ctx_ok_def h_def b_def)
    have "tn_unneeded (node st x) \<longleftrightarrow> x \<notin> set (entries rl)" if "x \<in> set (entries (timeline st))" for x
      using o that es h md n \<open>?tl\<close> by (cases "x = a") (auto simp: timeline_ok_def)
    moreover have "set (entries rl) \<subseteq> set (entries (timeline st))" using o es h(2) md that by (auto simp: timeline_ok_def)
    ultimately show ?thesis unfolding timeline_ok_def h1 fs h(1) using o unfolding timeline_ok_def by blast
  qed
  moreover have "own_ok st1" if "\<not> ?tl"
  proof -
    have "set (entries (backup st)) = dom (heap st) - {0}" "dom h = insert b (dom (heap st))"
      using ok that by (auto simp: ctx_ok_def own_ok_def h_def)
    then show ?thesis unfolding own_ok_def h1 fs using es b0 by auto
  qed
  ultimately have "ctx_ok cf {} st1" by (simp add: ctx_ok_def)
  moreover have "kept st1 x = ((kept st)(tn_key n \<mapsto> norm n)) x" for x
  proof (cases "x = tn_key n")
    case True
    then show ?thesis using r(3) h1 fs hb by (auto simp: kept_def)
  next
    case False
    then have "table_map (bkey st1) rl x = table_map (bkey st) (backup st) x" using r(3) h1 m by simp
    moreover have "h y = heap st y" if "table_map (bkey st) (backup st) x = Some y" for y
      using ea table_map_entry [OF that] by simp
    ultimately show ?thesis using False h1 fs by (cases "table_map (bkey st) (backup st) x") (simp_all add: kept_def)
  qed
  ultimately show ?thesis
    using e fs h1 hs by (intro exI [of _ b] exI [of _ st1]) (auto simp: st1_def [symmetric])
qed

text \<open>An event whose key has a kept event.\<close>

lemma findnew_old:
  assumes pl: "\<not> mc_nested cf" and ok: "ctx_ok cf X st" and n: "heap st a = Some n"
    and old: "table_map (bkey st) (backup st) (tn_key n) = Some b" and md: "mc_need_timeline cf \<longrightarrow> bkey st a = tn_key n"
    and mem: "mc_need_timeline cf \<or> mem"
  shows "findnew_backup cf mem a st = Some (Some b, False, st)"
proof -
  have t: "table_ok (bkey st) (backup st)" using ok by (simp add: ctx_ok_def base_ok_def)
  obtain u gs lm where d: "descend (\<lambda>x. perf_event_backup_node_cmp (node st x) n) (rl_tree (backup st)) [] True = ((u, gs), lm)"
    by (metis prod.exhaust)
  note se = bk.search [OF t d]
  obtain c l b' r where u: "u = Nd c l b' r" using se(5) old by (cases u) auto
  then have "b' = b" using se(6) [OF u] old by simp
  then show ?thesis using d u n by (simp add: findnew_backup_def Let_def rblist__findnew_def backup_cmp_plain [OF pl])
qed

lemma mark_unneeded_ok:
  assumes ok: "ctx_ok cf {a} st" and a: "a \<notin> set (entries (backup st))" and n: "heap st a = Some n"
  shows "ctx_ok cf {} (mark_unneeded a st)" "kept (mark_unneeded a st) = kept st"
proof -
  let ?s = "set_node a (\<lambda>n. n\<lparr>tn_unneeded := True\<rparr>) st"
  note m = mark_ok [OF ok, of "\<lambda>n. n\<lparr>tn_unneeded := True\<rparr>" a]
  have c: "ctx_ok cf X (count_unneeded k s) = ctx_ok cf X s" "kept (count_unneeded k s) = kept s" for X k s
    by (simp_all add: ctx_ok_def base_ok_def timeline_ok_def own_ok_def kept_def [abs_def])
  have "ctx_ok cf {} ?s"
  proof (cases "mc_need_timeline cf")
    case True
    then have o: "timeline_ok {a} ?s" "base_ok ?s" using m by (simp_all add: ctx_ok_def)
    have "tn_unneeded (node ?s a)" using n by simp
    then have "timeline_ok {} ?s" using timeline_ok_done [OF o(1)] a by simp
    then show ?thesis using o(2) True by (simp add: ctx_ok_def)
  qed (use m(1) in \<open>simp add: ctx_ok_def\<close>)
  then show "ctx_ok cf {} (mark_unneeded a st)" by (simp add: mark_unneeded_def c)
  show "kept (mark_unneeded a st) = kept st" using m(2) by (simp add: mark_unneeded_def c)
qed

lemma tryto_backup_ok:
  assumes pl: "\<not> mc_nested cf" and ok: "ctx_ok cf {a} st" and n: "heap st a = Some n" and a: "a \<notin> set (entries (backup st))"
    and md: "if mc_need_timeline cf then a \<in> set (entries (timeline st)) \<and> tn_unneeded n = (\<not> tn_need_backup n) else a = 0 \<and> mem"
  shows "\<exists>nf st1. multi_trace_tryto_backup cf mem a nf0 st = Some (nf, st1) \<and> ctx_ok cf {} st1 \<and> kept st1 = after_keep n (kept st) \<and>
    calls st1 = calls st \<and> timeline st1 = timeline st \<and> pending_list st1 = pending_list st \<and> event_handled st1 = event_handled st \<and>
    (nf \<or> \<not> nf0 \<and> (\<forall>x\<in>dom (heap st). heap st1 x = heap st x))"
proof (cases "tn_need_backup n")
  case False
  have "ctx_ok cf {} st"
  proof (cases "mc_need_timeline cf")
    case True
    then show ?thesis using ok md n a False timeline_ok_done [of a st] by (simp add: ctx_ok_def)
  qed (use ok in \<open>simp add: ctx_ok_def\<close>)
  then show ?thesis using False n by (auto simp: multi_trace_tryto_backup_def after_keep_def)
next
  case True
  have new: "\<exists>st1. backup_retry (Suc k) cf mem a nf s = Some (nf, st1) \<and> ctx_ok cf {} st1 \<and> kept st1 = (kept s)(tn_key n \<mapsto> norm n) \<and>
      calls st1 = calls s \<and> timeline st1 = timeline s \<and> pending_list st1 = pending_list s \<and> event_handled st1 = event_handled s \<and>
      (\<forall>x\<in>dom (heap s). heap st1 x = heap s x)"
    if s: "ctx_ok cf {a} s" "heap s a = Some n" "kept s (tn_key n) = None" "a \<notin> set (entries (backup s))" "timeline s = timeline st" for s nf k
  proof -
    have "if mc_need_timeline cf then a \<in> set (entries (timeline s)) \<and> \<not> tn_unneeded n \<and> a \<notin> set (entries (backup s)) else a = 0 \<and> mem"
      using md True s(4,5) by simp
    from findnew_new [OF pl s(1,2,3) this] obtain b st1 where
      "findnew_backup cf mem a s = Some (Some b, True, st1)" "ctx_ok cf {} st1" "kept st1 = (kept s)(tn_key n \<mapsto> norm n)"
      "timeline st1 = timeline s" "pending_list st1 = pending_list s" "event_handled st1 = event_handled s" "calls st1 = calls s"
      "\<forall>x\<in>dom (heap s). heap st1 x = heap s x" by blast
    then show ?thesis by simp
  qed
  show ?thesis
  proof (cases "table_map (bkey st) (backup st) (tn_key n)")
    case None
    then have k: "kept st (tn_key n) = None" by (simp add: kept_def)
    show ?thesis
      using new [OF ok n k a refl, of "rl_nr_entries (backup st)" nf0] True n k
      by (auto simp: multi_trace_tryto_backup_def after_keep_def)
  next
    case (Some b)
    note be = table_map_entry [OF Some]
    have f: "findnew_backup cf mem a st = Some (Some b, False, st)"
      using findnew_old [OF pl ok n Some] n md by (auto split: if_splits)
    have k: "kept st (tn_key n) = Some (norm (node st b))" using Some by (simp add: kept_def)
    show ?thesis
    proof (cases "tn_time n < tn_time (node st b)")
      case later: True
      have "multi_trace_tryto_backup cf mem a nf0 st = Some (True, mark_unneeded a st)"
        using f n later True by (simp add: multi_trace_tryto_backup_def)
      moreover have "after_keep n (kept st) = kept st" using k later by (simp add: after_keep_def)
      ultimately show ?thesis using mark_unneeded_ok [OF ok a n] by (intro exI [of _ True]) (simp add: mark_unneeded_def)
    next
      case False
      obtain s where s: "remove_backup cf b st = Some s" "ctx_ok cf {a} s" "kept s = (kept st)(bkey st b := None)"
        "set (entries (backup s)) = set (entries (backup st)) - {b}" "\<forall>x. x \<noteq> b \<longrightarrow> heap s x = heap st x" "timeline s = timeline st"
        "pending_list s = pending_list st" "calls s = calls st" "event_handled s = event_handled st"
        "rl_nr_entries (backup st) = Suc (rl_nr_entries (backup s))" using remove_backup_ok [OF ok, of b] be by auto
      have ab: "a \<noteq> b" using a be by auto
      have sk: "kept s (tn_key n) = None" "heap s a = Some n" "a \<notin> set (entries (backup s))"
        using s(3,4,5) be ab n a by auto
      from new [OF s(2) sk(2,1,3) s(6), of "rl_nr_entries (backup s)" True] obtain st1 where
        w: "backup_retry (Suc (rl_nr_entries (backup s))) cf mem a True s = Some (True, st1)" "ctx_ok cf {} st1"
          "kept st1 = (kept s)(tn_key n \<mapsto> norm n)" "calls st1 = calls s" "timeline st1 = timeline s" "pending_list st1 = pending_list s"
          "event_handled st1 = event_handled s" by blast
      have "backup_retry (Suc (rl_nr_entries (backup st))) cf mem a nf0 st = backup_retry (rl_nr_entries (backup st)) cf mem a True s"
        using f n False s(1) by simp
      then have "multi_trace_tryto_backup cf mem a nf0 st = Some (True, st1)"
        using n True s(10) w(1) by (simp add: multi_trace_tryto_backup_def del: backup_retry.simps)
      moreover have "after_keep n (kept st) = kept st1" using k False True w(3) s(3) be by (simp add: after_keep_def)
      ultimately show ?thesis using w s by (intro exI [of _ True] exI [of _ st1]) simp
    qed
  qed
qed

end
