(* ===== verification/Multi_Sample.thy ===== *)
theory Multi_Sample
  imports Multi_Pairs
begin

text \<open>
  Sequences of events for \<open>src/multi-trace.c\<close>: with and without a timeline every event is paired
  as in the map of kept events.
\<close>

section \<open>The variable \<open>current\<close>\<close>

lemma slot_heap [simp]: "a \<noteq> 0 \<Longrightarrow> ((heap st)(0 := v)) a = heap st a"
  by simp

lemma slot_ok:
  assumes ok: "ctx_ok cf {} st"
  shows "ctx_ok cf X (st\<lparr>heap := (heap st)(0 := v)\<rparr>)" "kept (st\<lparr>heap := (heap st)(0 := v)\<rparr>) = kept st"
proof -
  let ?s = "st\<lparr>heap := (heap st)(0 := v)\<rparr>"
  have "norm (node ?s x) = norm (node st x)" if "x \<in> set (entries (backup st))" for x
    using ok that by (cases "x = 0") (auto simp: ctx_ok_def base_ok_def)
  note k = kept_cong [of ?s st, OF _ this, simplified]
  have d: "dom ((heap st)(0 := v)) - {0} = dom (heap st) - {0}" by auto
  have "x < fresh st" if "x \<in> dom ((heap st)(0 := v))" for x
    using ok that by (cases "x = 0") (auto simp: ctx_ok_def base_ok_def split: if_splits)
  then have "base_ok ?s" using ok k(2) by (simp add: ctx_ok_def base_ok_def)
  moreover have "timeline_ok X ?s" if "mc_need_timeline cf"
  proof -
    have o: "timeline_ok {} st" using ok that by (simp add: ctx_ok_def)
    have h: "((heap st)(0 := v)) x = heap st x" if "x \<in> set (entries (timeline st))" for x
      using that timeline_okD(2) [OF o] by auto
    have "table_ok (\<lambda>x. tkey (node ?s x)) (timeline st)"
      using timeline_okD(1) [OF o] table_ok_cong [of "timeline st" "\<lambda>x. tkey (node ?s x)" "\<lambda>x. tkey (node st x)"] h by simp
    then show ?thesis using timeline_okD [OF o] d h by (intro timeline_okI) auto
  qed
  moreover have "own_ok ?s" if "\<not> mc_need_timeline cf" using ok that d by (simp add: ctx_ok_def own_ok_def)
  ultimately show "ctx_ok cf X ?s" by (simp add: ctx_ok_def)
  show "kept ?s = kept st" by (rule k(1))
qed

lemma no_lost: "ctx_ok cf X st \<Longrightarrow> multi_trace_event_lost cf a st = Some st"
  by (auto simp: multi_trace_event_lost_def ctx_ok_def base_ok_def Let_def fun_upd_def intro!: multi_trace_ctx.equality)

section \<open>Without a timeline\<close>

text \<open>What an event does that has the tracepoint of \<open>n\<close>.\<close>

definition spec_step :: "mt_conf \<Rightarrow> timeline_node \<Rightarrow> (u64 \<rightharpoonup> timeline_node) \<Rightarrow> u64 \<rightharpoonup> timeline_node" where
  "spec_step cf n m = (if tp_untraced (tp_at cf (tn_tp n)) then m else after_keep n (after_pair n m))"

definition spec_out :: "mt_conf \<Rightarrow> timeline_node \<Rightarrow> (u64 \<rightharpoonup> timeline_node) \<Rightarrow> (timeline_node \<times> timeline_node) list" where
  "spec_out cf n m = (if tp_untraced (tp_at cf (tn_tp n)) then [] else spec_pairs cf n m)"

definition plain :: "mt_conf \<Rightarrow> bool" where
  "plain cf \<longleftrightarrow> \<not> mc_nested cf \<and> mc_before_event1 cf = 0 \<and> mc_after_event2 cf = 0"

lemma sample_direct_ok:
  assumes pl: "plain cf" "\<not> mc_need_timeline cf" and ok: "ctx_ok cf {0} st" and n: "heap st 0 = Some n" "tn_tp1 n = None" "tn_need_remove n"
  shows "\<exists>st1. sample_direct cf True st = Some st1 \<and> ctx_ok cf {} st1 \<and> kept st1 = spec_step cf n (kept st) \<and>
    pairs (calls st1) = pairs (calls st) @ spec_out cf n (kept st) \<and> event_handled st1 = event_handled st \<and>
    timeline st1 = timeline st \<and> pending_list st1 = pending_list st"
proof (cases "tp_untraced (tp_at cf (tn_tp n))")
  case True
  then show ?thesis using ok pl n by (simp add: sample_direct_def spec_step_def spec_out_def ctx_ok_def)
next
  case False
  have a: "0 \<notin> set (entries (backup st))" using ok by (simp add: ctx_ok_def base_ok_def)
  have b0: "mc_before_event1 cf = 0" "\<not> mc_nested cf" using pl by (simp_all add: plain_def)
  obtain nf st1 where 1: "multi_trace_tryto_call_two cf 0 False st = Some (nf, st1)" "ctx_ok cf {0} st1" "heap st1 0 = Some n"
      "set (entries (backup st1)) \<subseteq> set (entries (backup st))" "kept st1 = after_pair n (kept st)"
      "pairs (calls st1) = pairs (calls st) @ spec_pairs cf n (kept st)" "event_handled st1 = event_handled st"
      "timeline st1 = timeline st" "pending_list st1 = pending_list st"
    using call_two_ok [OF b0(1) ok n a, of False] by blast
  have a1: "0 \<notin> set (entries (backup st1))" using 1(2) by (simp add: ctx_ok_def base_ok_def)
  obtain nf' st2 where "multi_trace_tryto_backup cf True 0 False st1 = Some (nf', st2)" "ctx_ok cf {} st2"
      "kept st2 = after_keep n (kept st1)" "calls st2 = calls st1" "event_handled st2 = event_handled st1"
      "timeline st2 = timeline st1" "pending_list st2 = pending_list st1"
    using tryto_backup_ok [OF b0(2) 1(2,3) a1, of True False] pl by auto
  then show ?thesis using 1 False n no_lost [OF ok] by (simp add: sample_direct_def spec_step_def spec_out_def)
qed

section \<open>Releasing the timeline\<close>

lemma timeline_delete_frame [simp]:
  "heap (timeline_node_delete b st) = (heap st)(b := None)" "fresh (timeline_node_delete b st) = fresh st"
  "backup (timeline_node_delete b st) = backup st" "timeline (timeline_node_delete b st) = timeline st"
  "pending_list (timeline_node_delete b st) = remove1 b (pending_list st)" "event_handled (timeline_node_delete b st) = event_handled st"
  "timeline_lost_list (timeline_node_delete b st) = timeline_lost_list st"
  "perins_lost_list (timeline_node_delete b st) = perins_lost_list st" "calls (timeline_node_delete b st) = calls st"
  by (simp_all add: timeline_node_delete_def Let_def)

lemma remove_timeline_ok:
  assumes tl: "mc_need_timeline cf" and ok: "ctx_ok cf {} st" and a: "a \<in> set (entries (timeline st))" "a \<notin> set (entries (backup st))"
  shows "\<exists>st1. remove_timeline a st = Some st1 \<and> ctx_ok cf {} st1 \<and> kept st1 = kept st \<and> calls st1 = calls st \<and>
    pending_list st1 = remove1 a (pending_list st) \<and> event_handled st1 = event_handled st \<and> heap st1 0 = heap st 0 \<and>
    (\<exists>xs ys. entries (timeline st) = xs @ a # ys \<and> entries (timeline st1) = xs @ ys)"
proof -
  have o: "timeline_ok {} st" and base: "base_ok st" using ok tl by (simp_all add: ctx_ok_def)
  obtain z rl where r: "place_of a (rl_tree (timeline st)) [] = Some z" "rblist__remove_node z (timeline st) = Some rl"
      "table_ok (\<lambda>a. tkey (node st a)) rl" "set (entries rl) = set (entries (timeline st)) - {a}"
      "\<exists>xs ys. entries (timeline st) = xs @ a # ys \<and> entries rl = xs @ ys"
    using remove_by_address [OF timeline_okD(1) [OF o] a(1)] by blast
  define st1 where "st1 = timeline_node_delete a (st\<lparr>timeline := rl\<rparr>)"
  have e: "remove_timeline a st = Some st1" using r(1,2) by (simp add: remove_timeline_def st1_def)
  have fs: "heap st1 = (heap st)(a := None)" "fresh st1 = fresh st" "backup st1 = backup st" "timeline st1 = rl"
      "pending_list st1 = remove1 a (pending_list st)" "event_handled st1 = event_handled st" "timeline_lost_list st1 = timeline_lost_list st"
      "perins_lost_list st1 = perins_lost_list st" "calls st1 = calls st" by (simp_all add: st1_def)
  have a0: "a \<noteq> 0" using a(1) timeline_okD(2) [OF o] by auto
  have hb: "heap st1 x = heap st x" if "x \<noteq> a" for x using that by (simp add: fs)
  have "norm (node st1 x) = norm (node st x)" if "x \<in> set (entries (backup st))" for x
    using hb [of x] that a(2) by (cases "x = a") simp_all
  note k = kept_cong [OF fs(3) this]
  have "base_ok st1" using base k(2) by (simp add: base_ok_def fs)
  moreover have "timeline_ok {} st1"
  proof (rule timeline_okI, unfold fs(3,4,6))
    show "table_ok (\<lambda>x. tkey (node st1 x)) rl"
      using r(3,4) table_ok_cong [of rl "\<lambda>x. tkey (node st1 x)" "\<lambda>x. tkey (node st x)"] hb by simp
    show "set (entries rl) = dom (heap st1) - {0}" using r(4) timeline_okD(2) [OF o] by (auto simp: fs)
    show "set (entries (backup st)) \<subseteq> set (entries rl)" using r(4) timeline_okD(3) [OF o] a(2) by auto
    show "tn_unneeded (node st1 x) \<longleftrightarrow> x \<notin> set (entries (backup st))" if "x \<in> set (entries rl)" for x
      using timeline_okD(4) [OF o, of x] hb [of x] that r(4) by simp
    show "snd (snd (tkey (node st1 x))) < event_handled st" if "x \<in> set (entries rl)" for x
      using timeline_okD(5) [OF o, of x] hb [of x] that r(4) by simp
  qed
  ultimately have c: "ctx_ok cf {} st1" using tl by (simp add: ctx_ok_def)
  show ?thesis using e c k(1) fs hb [of 0] a0 r(5) by (auto simp: fs(4))
qed

text \<open>The first node of the timeline is needed.\<close>

definition released :: "multi_trace_ctx \<Rightarrow> bool" where
  "released st \<longleftrightarrow> (case entries (timeline st) of [] \<Rightarrow> True | a # _ \<Rightarrow> \<not> tn_unneeded (node st a))"

lemma leftmost_entries: "table_ok k rl \<Longrightarrow> rl_leftmost rl = (case entries rl of [] \<Rightarrow> None | a # _ \<Rightarrow> Some a)"
  by (simp add: table_ok_def)

lemma free_loop_ok:
  assumes tl: "mc_need_timeline cf"
  shows "ctx_ok cf {} st \<Longrightarrow> pending_list st = [] \<Longrightarrow> length (entries (timeline st)) \<le> k \<Longrightarrow>
    \<exists>st1. free_loop cf 0 k st = Some st1 \<and> ctx_ok cf {} st1 \<and> kept st1 = kept st \<and> calls st1 = calls st \<and> pending_list st1 = [] \<and>
      event_handled st1 = event_handled st \<and> heap st1 0 = heap st 0 \<and> released st1"
proof (induction k arbitrary: st)
  case 0
  then have "timeline_ok {} st" using tl by (simp add: ctx_ok_def)
  note t = leftmost_entries [OF timeline_okD(1) [OF this]]
  show ?case using 0 t by (subst free_loop.simps) (simp add: released_def)
next
  case (Suc k)
  have o: "timeline_ok {} st" using tl Suc.prems by (simp add: ctx_ok_def)
  note t = leftmost_entries [OF timeline_okD(1) [OF o]]
  show ?case
  proof (cases "entries (timeline st)")
    case Nil
    then show ?thesis using Suc.prems t by (subst free_loop.simps) (simp add: released_def)
  next
    case (Cons a as)
    show ?thesis
    proof (cases "tn_unneeded (node st a)")
      case False
      then show ?thesis using Suc.prems t Cons by (subst free_loop.simps) (simp add: released_def)
    next
      case True
      then have a: "a \<in> set (entries (timeline st))" "a \<notin> set (entries (backup st))" using timeline_okD(4) [OF o, of a] Cons by auto
      obtain st1 where s: "remove_timeline a st = Some st1" "ctx_ok cf {} st1" "kept st1 = kept st" "calls st1 = calls st"
          "pending_list st1 = remove1 a (pending_list st)" "event_handled st1 = event_handled st" "heap st1 0 = heap st 0"
          "\<exists>xs ys. entries (timeline st) = xs @ a # ys \<and> entries (timeline st1) = xs @ ys"
        using remove_timeline_ok [OF tl Suc.prems(1) a] by blast
      have "length (entries (timeline st1)) \<le> k" using s(8) Suc.prems(3) by auto
      from Suc.IH [OF s(2) _ this] Suc.prems(2) s obtain st2 where
        "free_loop cf 0 k st1 = Some st2" "ctx_ok cf {} st2" "kept st2 = kept st" "calls st2 = calls st" "pending_list st2 = []"
        "event_handled st2 = event_handled st" "heap st2 0 = heap st 0" "released st2" by auto
      then show ?thesis using t Cons True s(1) by (subst free_loop.simps) simp
    qed
  qed
qed

lemma free_unneeded_ok:
  assumes "plain cf" "mc_need_timeline cf" "ctx_ok cf {} st" "pending_list st = []"
  shows "\<exists>st1. timeline_free_unneeded cf st = Some st1 \<and> ctx_ok cf {} st1 \<and> kept st1 = kept st \<and> calls st1 = calls st \<and>
    pending_list st1 = [] \<and> event_handled st1 = event_handled st \<and> heap st1 0 = heap st 0 \<and> released st1"
proof -
  have "timeline_ok {} st" using assms by (simp add: ctx_ok_def)
  then have "length (entries (timeline st)) \<le> rl_nr_entries (timeline st)" using timeline_okD(1) by (simp add: table_ok_def)
  then show ?thesis
    using free_loop_ok [OF assms(2-4)] assms(1) by (simp add: timeline_free_unneeded_def unneeded_before_def plain_def)
qed

section \<open>With a timeline\<close>

lemma add_cong:
  assumes "\<And>a. a \<in> set (entries rl) \<Longrightarrow> cmp a e = cmp' a e"
  shows "rblist__add_node cmp new e rl = rblist__add_node cmp' new e rl"
  using descend_cong [of "rl_tree rl" "\<lambda>a. cmp a e" "\<lambda>a. cmp' a e"] assms by (simp add: rblist__add_node_def)

text \<open>The event goes onto the timeline, as a node that is pending or, when it is not traced, unneeded.\<close>

lemma add_timeline_ok:
  assumes tl: "mc_need_timeline cf" and ok: "ctx_ok cf {} st" and n: "heap st 0 = Some n"
    and sq: "tn_seq n < event_handled st" "\<And>x. x \<in> set (entries (timeline st)) \<Longrightarrow> tn_seq (node st x) < tn_seq n"
    and un: "tn_unneeded n \<longleftrightarrow> \<not> tn_need_backup n \<or> tp_untraced (tp_at cf (tn_tp n))"
  defines "b \<equiv> fresh st" and "untraced \<equiv> tp_untraced (tp_at cf (tn_tp n))"
  shows "\<exists>rl. rblist__add_node (timeline_cmp st) (Some b) n (timeline st) = Some (0, rl) \<and>
    (\<forall>st1. st1 = timeline_node_new cf 0 b (st\<lparr>timeline := rl\<rparr>) \<longrightarrow>
       ctx_ok cf {b} st1 \<and> (untraced \<longrightarrow> ctx_ok cf {} st1) \<and> kept st1 = kept st \<and> heap st1 b = Some (n\<lparr>tn_maybe_unpaired := False, tn_unneeded := untraced\<rparr>) \<and>
       b \<in> set (entries (timeline st1)) \<and> b \<notin> set (entries (backup st1)) \<and>
       pending_list st1 = (if untraced then pending_list st else pending_list st @ [b]) \<and>
       calls st1 = calls st \<and> event_handled st1 = event_handled st \<and> (\<forall>x. x \<noteq> b \<longrightarrow> heap st1 x = heap st x) \<and>
       set (entries (timeline st1)) = insert b (set (entries (timeline st))))"
proof -
  have o: "timeline_ok {} st" and base: "base_ok st" using ok tl by (simp_all add: ctx_ok_def)
  have bd: "b \<notin> dom (heap st)" "b \<noteq> 0" using base by (auto simp: base_ok_def b_def)
  define n' where "n' = n\<lparr>tn_maybe_unpaired := False, tn_unneeded := untraced\<rparr>"
  have tn: "tkey n' = tkey n" "norm n' = norm n" by (simp_all add: n'_def tkey_def)
  define h where "h = (heap st)(b \<mapsto> n')"
  let ?s = "st\<lparr>heap := h\<rparr>"
  have ea: "h x = heap st x" if "x \<noteq> b" for x using that by (simp add: h_def)
  have bt: "b \<notin> set (entries (timeline st))" "b \<notin> set (entries (backup st))"
    using bd timeline_okD(2) [OF o] kept_alive [OF ok] by auto
  have et: "h x = heap st x" if "x \<in> set (entries (timeline st))" for x using ea [of x] that bt by (cases "x = b") simp_all
  have tc: "tkey (node ?s x) = tkey (node st x)" if "x \<in> set (entries (timeline st))" for x using et [OF that] by simp
  have t: "table_ok (\<lambda>x. tkey (node ?s x)) (timeline st)"
    using table_ok_cong [of "timeline st" "\<lambda>x. tkey (node ?s x)" "\<lambda>x. tkey (node st x)", OF tc] timeline_okD(1) [OF o] by simp
  have "tkey n \<noteq> tkey (node ?s x)" if "x \<in> set (entries (timeline st))" for x
    using sq(2) [OF that] tc [OF that] by (auto simp: tkey_def)
  then have no: "table_map (\<lambda>x. tkey (node ?s x)) (timeline st) (tkey n) = None" by (auto simp: table_map_None)
  have kb: "tkey (node ?s b) = tkey n" using tn by (simp add: h_def)
  obtain rl where r: "rblist__add_node (timeline_cmp ?s) (Some b) n (timeline st) = Some (0, rl)" "table_ok (\<lambda>x. tkey (node ?s x)) rl"
      "mset (entries rl) = add_mset b (mset (entries (timeline st)))"
    using tl.add_spec [OF t, of b n, OF kb] no by auto
  have es: "set (entries rl) = insert b (set (entries (timeline st)))" using r(3) by (metis set_mset_add_mset_insert set_mset_mset)
  have "timeline_cmp st x n = timeline_cmp ?s x n" if "x \<in> set (entries (timeline st))" for x
    using et [OF that] by (simp add: timeline_cmp_def)
  then have ad: "rblist__add_node (timeline_cmp st) (Some b) n (timeline st) = Some (0, rl)" using add_cong r(1) by metis
  define st1 where "st1 = timeline_node_new cf 0 b (st\<lparr>timeline := rl\<rparr>)"
  have fs: "heap st1 = h" "fresh st1 = fresh st + 1" "backup st1 = backup st" "timeline st1 = rl"
      "pending_list st1 = (if untraced then pending_list st else pending_list st @ [b])"
      "event_handled st1 = event_handled st" "timeline_lost_list st1 = timeline_lost_list st"
      "perins_lost_list st1 = perins_lost_list st" "calls st1 = calls st"
    using n un by (auto simp: st1_def timeline_node_new_def Let_def h_def n'_def untraced_def)
  have "norm (node st1 x) = norm (node st x)" if "x \<in> set (entries (backup st))" for x
    using ea [of x] that bt(2) fs(1) by (cases "x = b") simp_all
  note k = kept_cong [OF fs(3) this]
  have d: "dom h = insert b (dom (heap st))" by (simp add: h_def)
  have "\<forall>x\<in>dom h. x < fresh st + 1" using base by (auto simp: d b_def base_ok_def less_Suc_eq)
  then have base1: "base_ok st1" using base k(2) fs by (simp add: base_ok_def)
  have tb: "timeline_ok {b} st1"
  proof (rule timeline_okI, unfold fs(1,3,4,6))
    show "table_ok (\<lambda>x. tkey (the (h x))) rl" using r(2) by simp
    show "set (entries rl) = dom h - {0}" using es timeline_okD(2) [OF o] bd d by auto
    show "set (entries (backup st)) \<subseteq> set (entries rl)" using es timeline_okD(3) [OF o] by auto
    show "tn_unneeded (the (h x)) \<longleftrightarrow> x \<notin> set (entries (backup st))" if "x \<in> set (entries rl)" "x \<notin> {b}" for x
      using that es timeline_okD(4) [OF o, of x] et [of x] by simp
    show "snd (snd (tkey (the (h x)))) < event_handled st" if "x \<in> set (entries rl)" for x
    proof (cases "x = b")
      case True
      then show ?thesis using sq(1) tn by (simp add: h_def tkey_def)
    next
      case False
      then show ?thesis using that es timeline_okD(5) [OF o, of x] et [of x] by simp
    qed
  qed
  have "timeline_ok {} st1" if untraced using timeline_ok_done [OF tb] that bt(2) fs by (simp add: h_def n'_def)
  then show ?thesis
    using ad tb base1 tl k(1) fs ea es bt by (intro exI [of _ rl]) (auto simp: st1_def [symmetric] ctx_ok_def h_def n'_def)
qed

text \<open>The one pending event is handled.\<close>

lemma first_pending_ok:
  assumes pl: "plain cf" "mc_need_timeline cf" and ok: "ctx_ok cf {b} st" and p: "pending_list st = [b]" and n: "heap st b = Some n"
  shows "\<exists>st1. multi_trace_first_pending cf (Some t) st = Some (b, st1) \<and> ctx_ok cf {b} st1 \<and> kept st1 = kept st \<and>
    heap st1 b = Some (n\<lparr>tn_unneeded := \<not> tn_need_backup n\<rparr>) \<and> pending_list st1 = [] \<and> calls st1 = calls st \<and>
    event_handled st1 = event_handled st \<and> backup st1 = backup st \<and> timeline st1 = timeline st \<and> (\<forall>x. x \<noteq> b \<longrightarrow> heap st1 x = heap st x)"
proof -
  define s0 where "s0 = st\<lparr>pending_list := [], tl_stat := (tl_stat st)\<lparr>ts_pending := ts_pending (tl_stat st) - 1,
      ts_pending_bytes := ts_pending_bytes (tl_stat st) - esize n\<rparr>\<rparr>"
  have "ctx_ok cf {b} s0 = ctx_ok cf {b} st" "kept s0 = kept st"
    by (simp_all add: s0_def ctx_ok_def base_ok_def timeline_ok_def own_ok_def kept_def [abs_def])
  with ok have s0: "ctx_ok cf {b} s0" "kept s0 = kept st" by simp_all
  let ?s = "set_node b (\<lambda>n. n\<lparr>tn_unneeded := \<not> tn_need_backup n\<rparr>) s0"
  note m = mark_ok [OF s0(1), of "\<lambda>n. n\<lparr>tn_unneeded := \<not> tn_need_backup n\<rparr>" b]
  have c: "ctx_ok cf X (count_unneeded k s) = ctx_ok cf X s" "kept (count_unneeded k s) = kept s" for X k s
    by (simp_all add: ctx_ok_def base_ok_def timeline_ok_def own_ok_def kept_def [abs_def])
  have "multi_trace_first_pending cf (Some t) st = Some (b, if \<not> tn_need_backup n then count_unneeded n ?s else ?s)"
    using p n pl by (simp add: multi_trace_first_pending_def plain_def s0_def Let_def)
  then show ?thesis using m c s0(2) n by (auto simp: s0_def)
qed

lemma pending_loop_ok:
  assumes pl: "plain cf" "mc_need_timeline cf" and ok: "ctx_ok cf {b} st" and p: "pending_list st = [b]" and n: "heap st b = Some n"
    and b: "b \<notin> set (entries (backup st))" "b \<in> set (entries (timeline st))" and tp: "tn_tp1 n = None" "tn_need_remove n"
    and un: "\<not> tn_unneeded n" and rel: "nf0 \<or> released st" and nf: "\<not> tn_need_backup n \<longrightarrow> nf0"
  shows "\<exists>nf st1. pending_loop (Suc 0) cf True t nf0 st = Some (nf, st1) \<and> ctx_ok cf {} st1 \<and> pending_list st1 = [] \<and>
    kept st1 = after_keep n (after_pair n (kept st)) \<and> pairs (calls st1) = pairs (calls st) @ spec_pairs cf n (kept st) \<and>
    event_handled st1 = event_handled st \<and> (nf \<or> released st1)"
proof -
  obtain st1 where 1: "multi_trace_first_pending cf (Some t) st = Some (b, st1)" "ctx_ok cf {b} st1" "kept st1 = kept st"
      "heap st1 b = Some (n\<lparr>tn_unneeded := \<not> tn_need_backup n\<rparr>)" "pending_list st1 = []" "calls st1 = calls st"
      "event_handled st1 = event_handled st" "backup st1 = backup st" "timeline st1 = timeline st" "\<forall>x. x \<noteq> b \<longrightarrow> heap st1 x = heap st x"
    using first_pending_ok [OF pl ok p n] by blast
  let ?n = "n\<lparr>tn_unneeded := \<not> tn_need_backup n\<rparr>"
  have e: "spec_pairs cf ?n = spec_pairs cf n" "after_pair ?n = after_pair n" "after_keep ?n = after_keep n"
    by (auto simp: spec_pairs_def after_pair_def after_keep_def prev_of_def fun_eq_iff split: option.splits)
  have b0: "mc_before_event1 cf = 0" "\<not> mc_nested cf" using pl by (simp_all add: plain_def)
  have t1: "tn_tp1 ?n = None" "tn_need_remove ?n" "b \<notin> set (entries (backup st1))" using tp b 1(8) by simp_all
  obtain nf1 st2 where 2: "multi_trace_tryto_call_two cf b nf0 st1 = Some (nf1, st2)" "ctx_ok cf {b} st2" "heap st2 b = Some ?n"
      "set (entries (backup st2)) \<subseteq> set (entries (backup st1))" "kept st2 = after_pair n (kept st1)"
      "pairs (calls st2) = pairs (calls st1) @ spec_pairs cf n (kept st1)" "timeline st2 = timeline st1" "pending_list st2 = pending_list st1"
      "event_handled st2 = event_handled st1" "nf1 \<or> \<not> nf0 \<and> (\<forall>x. tn_unneeded (node st2 x) = tn_unneeded (node st1 x))"
    using call_two_ok [OF b0(1) 1(2,4) t1, of nf0] unfolding e by blast
  have b2: "b \<notin> set (entries (backup st2))" using 2(4) t1(3) by blast
  have md: "if mc_need_timeline cf then b \<in> set (entries (timeline st2)) \<and> tn_unneeded ?n = (\<not> tn_need_backup ?n) else b = 0 \<and> True"
    using pl b 1(9) 2(7) by simp
  obtain nf2 st3 where 3: "multi_trace_tryto_backup cf True b nf1 st2 = Some (nf2, st3)" "ctx_ok cf {} st3" "kept st3 = after_keep n (kept st2)"
      "calls st3 = calls st2" "timeline st3 = timeline st2" "pending_list st3 = pending_list st2" "event_handled st3 = event_handled st2"
      "nf2 \<or> \<not> nf1 \<and> (\<forall>x\<in>dom (heap st2). heap st3 x = heap st2 x)"
    using tryto_backup_ok [OF b0(2) 2(2,3) b2 md, of nf1] unfolding e by blast
  have "pending_loop (Suc 0) cf True t nf0 st = Some (nf2, st3)"
    using 1(1,5) 2(1,8) 3(1,6) no_lost [OF 1(2), of b]
    by (subst pending_loop.simps) (simp add: pending_loop.simps multi_trace_first_pending_def)
  moreover have "nf2 \<or> released st3"
  proof (rule disjCI)
    assume r: "\<not> released st3"
    show nf2
    proof (rule ccontr)
      assume "\<not> nf2"
      then have z: "\<not> nf1" "\<forall>x\<in>dom (heap st2). heap st3 x = heap st2 x" using 3(8) by auto
      then have y: "\<not> nf0" "\<forall>x. tn_unneeded (node st2 x) = tn_unneeded (node st1 x)" using 2(10) by auto
      have o2: "timeline_ok {b} st2" using 2(2) pl by (simp add: ctx_ok_def)
      have "tn_unneeded (node st3 x) = tn_unneeded (node st x)" if "x \<in> set (entries (timeline st))" for x
      proof -
        have "x \<in> dom (heap st2)" using that timeline_okD(2) [OF o2] 2(7) 1(9) by auto
        then have "tn_unneeded (node st3 x) = tn_unneeded (node st1 x)" using z y by simp
        then show ?thesis using 1(4,10) n un nf y(1) by (cases "x = b") simp_all
      qed
      then have "released st3 = released st" using 3(5) 2(7) 1(9) by (auto simp: released_def split: list.splits)
      then show False using r rel y(1) by simp
    qed
  qed
  ultimately show ?thesis using 1 2 3 by auto
qed

lemma head_least: "table_ok k rl \<Longrightarrow> entries rl = x # xs \<Longrightarrow> z \<in> set (entries rl) \<Longrightarrow> k x \<le> k z"
  by (auto simp: table_ok_def)

lemma sample_timeline_ok:
  assumes pl: "plain cf" "mc_need_timeline cf" and ok: "ctx_ok cf {} st" and n: "heap st 0 = Some n" "tn_tp1 n = None" "tn_need_remove n"
    and p: "pending_list st = []" and rel: "released st"
    and sq: "tn_seq n < event_handled st" "\<And>x. x \<in> set (entries (timeline st)) \<Longrightarrow> tn_seq (node st x) < tn_seq n"
    and un: "tn_unneeded n \<longleftrightarrow> \<not> tn_need_backup n \<or> tp_untraced (tp_at cf (tn_tp n))"
  shows "\<exists>st1. sample_timeline cf True st = Some st1 \<and> ctx_ok cf {} st1 \<and> kept st1 = spec_step cf n (kept st) \<and>
    pairs (calls st1) = pairs (calls st) @ spec_out cf n (kept st) \<and> event_handled st1 = event_handled st \<and>
    pending_list st1 = [] \<and> released st1"
proof (cases "rblist__empty (timeline st) \<and> tn_unneeded n")
  case True
  have o: "timeline_ok {} st" and "base_ok st" using ok pl by (simp_all add: ctx_ok_def)
  have "entries (timeline st) = []" using True table_empty [OF timeline_okD(1) [OF o]] by blast
  then have "entries (backup st) = []" using timeline_okD(3) [OF o] by auto
  then have k: "kept st = (\<lambda>_. None)" by (simp add: kept_def [abs_def] table_map_def)
  have "spec_step cf n (kept st) = kept st" "spec_out cf n (kept st) = []"
    using True un unfolding k by (auto simp: spec_step_def spec_out_def spec_pairs_def after_keep_def after_pair_def prev_of_def)
  then show ?thesis using True pl n ok p rel by (simp add: sample_timeline_def plain_def)
next
  case False
  let ?u = "tp_untraced (tp_at cf (tn_tp n))" and ?b = "fresh st"
  obtain rl where a: "rblist__add_node (timeline_cmp st) (Some ?b) n (timeline st) = Some (0, rl)"
    and all: "\<forall>st1. st1 = timeline_node_new cf 0 ?b (st\<lparr>timeline := rl\<rparr>) \<longrightarrow>
       ctx_ok cf {?b} st1 \<and> (?u \<longrightarrow> ctx_ok cf {} st1) \<and> kept st1 = kept st \<and> heap st1 ?b = Some (n\<lparr>tn_maybe_unpaired := False, tn_unneeded := ?u\<rparr>) \<and>
       ?b \<in> set (entries (timeline st1)) \<and> ?b \<notin> set (entries (backup st1)) \<and>
       pending_list st1 = (if ?u then pending_list st else pending_list st @ [?b]) \<and>
       calls st1 = calls st \<and> event_handled st1 = event_handled st \<and> (\<forall>x. x \<noteq> ?b \<longrightarrow> heap st1 x = heap st x) \<and>
       set (entries (timeline st1)) = insert ?b (set (entries (timeline st)))"
    using add_timeline_ok [OF pl(2) ok n(1) sq un] by blast
  define st1 where "st1 = timeline_node_new cf 0 ?b (st\<lparr>timeline := rl\<rparr>)"
  note s1 = all [rule_format, OF st1_def]
  have e: "sample_timeline cf True st =
      (case pending_loop (length (pending_list st1)) cf True (tn_time n) (tn_unneeded n) st1 of
         None \<Rightarrow> None | Some (need_free, st2) \<Rightarrow> if need_free then timeline_free_unneeded cf st2 else Some st2)"
    using a False n by (auto simp: sample_timeline_def st1_def Let_def)
  obtain nf st2 where 2: "pending_loop (length (pending_list st1)) cf True (tn_time n) (tn_unneeded n) st1 = Some (nf, st2)"
    "ctx_ok cf {} st2" "kept st2 = spec_step cf n (kept st)" "pairs (calls st2) = pairs (calls st) @ spec_out cf n (kept st)"
    "event_handled st2 = event_handled st" "pending_list st2 = []" "nf \<or> released st2"
  proof (cases ?u)
    case True
    then have "pending_loop (length (pending_list st1)) cf True (tn_time n) (tn_unneeded n) st1 = Some (tn_unneeded n, st1)"
      using s1 p by (subst pending_loop.simps) (simp add: multi_trace_first_pending_def)
    then show ?thesis using that [of "tn_unneeded n" st1] s1 True p un by (simp add: spec_step_def spec_out_def)
  next
    case False
    let ?n = "n\<lparr>tn_maybe_unpaired := False, tn_unneeded := False\<rparr>"
    have sp: "spec_pairs cf ?n = spec_pairs cf n" "after_pair ?n = after_pair n" "after_keep ?n = after_keep n"
      by (auto simp: spec_pairs_def after_pair_def after_keep_def prev_of_def fun_eq_iff split: option.splits)
    have o1: "timeline_ok {?b} st1" and o: "timeline_ok {} st" using s1 ok pl by (simp_all add: ctx_ok_def)
    have bt: "?b \<notin> set (entries (timeline st))"
      using ok timeline_okD(2) [OF o] by (auto simp: ctx_ok_def base_ok_def)
    have h: "heap st1 z = heap st z" if "z \<in> set (entries (timeline st))" for z using that bt s1 by metis
    have rl: "released st1"
    proof (cases "entries (timeline st1)")
      case (Cons x xs)
      show ?thesis
      proof (cases "x = ?b")
        case True
        then show ?thesis using Cons s1 False by (simp add: released_def)
      next
        case xb: False
        then have x: "x \<in> set (entries (timeline st))" using Cons s1 by auto
        then obtain y ys where y: "entries (timeline st) = y # ys" by (cases "entries (timeline st)") auto
        have "tkey (node st1 x) \<le> tkey (node st1 y)" using head_least [OF timeline_okD(1) [OF o1] Cons] s1 y by auto
        moreover have "tkey (node st y) \<le> tkey (node st x)" using head_least [OF timeline_okD(1) [OF o] y] x by auto
        ultimately have "tkey (node st x) = tkey (node st y)" using h [OF x] h [of y] y by auto
        then have "x = y" using table_map_of [OF timeline_okD(1) [OF o]] x y by (metis list.set_intros(1) option.inject)
        then show ?thesis using rel Cons y h [OF x] by (simp add: released_def)
      qed
    qed (simp add: released_def)
    have nb: "heap st1 ?b = Some ?n" "pending_list st1 = [?b]" using s1 False p by simp_all
    have tp: "tn_tp1 ?n = None" "tn_need_remove ?n" "\<not> tn_unneeded ?n" using n by simp_all
    have c: "ctx_ok cf {?b} st1" "?b \<notin> set (entries (backup st1))" "?b \<in> set (entries (timeline st1))" using s1 by blast+
    have "tn_unneeded n \<or> released st1" "\<not> tn_need_backup ?n \<longrightarrow> tn_unneeded n" using rl un by simp_all
    from pending_loop_ok [OF pl c(1) nb(2,1) c(2,3) tp this, of "tn_time n"] obtain nf st2 where
      "pending_loop (Suc 0) cf True (tn_time n) (tn_unneeded n) st1 = Some (nf, st2)" "ctx_ok cf {} st2" "pending_list st2 = []"
      "kept st2 = after_keep n (after_pair n (kept st1))" "pairs (calls st2) = pairs (calls st1) @ spec_pairs cf n (kept st1)"
      "event_handled st2 = event_handled st1" "nf \<or> released st2" unfolding sp by blast
    then show ?thesis using that [of nf st2] nb(2) s1 False by (simp add: spec_step_def spec_out_def)
  qed
  show ?thesis
  proof (cases nf)
    case True
    then show ?thesis using e 2 free_unneeded_ok [OF pl 2(2,6)] by auto
  next
    case False
    then show ?thesis using e 2 by auto
  qed
qed

section \<open>Sequences of events\<close>

definition run_ok :: "mt_conf \<Rightarrow> multi_trace_ctx \<Rightarrow> bool" where
  "run_ok cf st \<longleftrightarrow> ctx_ok cf {} st \<and> heap st 0 = None \<and> pending_list st = [] \<and>
     (if mc_need_timeline cf then released st else timeline st = rblist__init)"

lemma bump_ok:
  assumes "ctx_ok cf {} st" "event_handled st \<le> e"
  shows "ctx_ok cf {} (st\<lparr>recent_time := t, event_handled := e\<rparr>)" "kept (st\<lparr>recent_time := t, event_handled := e\<rparr>) = kept st"
proof -
  show "kept (st\<lparr>recent_time := t, event_handled := e\<rparr>) = kept st" by (simp add: kept_def [abs_def])
  have "timeline_ok {} (st\<lparr>recent_time := t, event_handled := e\<rparr>)" if o: "timeline_ok {} st"
  proof -
    have "snd (snd (tkey (node st a))) < e" if "a \<in> set (entries (timeline st))" for a
      using timeline_okD(5) [OF o that] assms(2) by (rule less_le_trans)
    then show ?thesis using timeline_okD [OF o] by (intro timeline_okI) simp_all
  qed
  then show "ctx_ok cf {} (st\<lparr>recent_time := t, event_handled := e\<rparr>)"
    using assms(1) by (auto simp: ctx_ok_def base_ok_def own_ok_def)
qed

lemma released_frame [simp]:
  "released (st\<lparr>recent_time := t\<rparr>) = released st" "released (st\<lparr>recent_time := t, event_handled := e\<rparr>) = released st"
  by (simp_all add: released_def split: list.split)

lemma released_slot: "ctx_ok cf {} st \<Longrightarrow> mc_need_timeline cf \<Longrightarrow> released (st\<lparr>heap := (heap st)(0 := v)\<rparr>) = released st"
  by (auto simp: released_def ctx_ok_def timeline_ok_def split: list.splits)

lemma make_current_simps [simp]:
  "tn_seq (make_current cf p tp1 sq e) = sq" "tn_tp (make_current cf p tp1 sq e) = p" "tn_time (make_current cf p tp1 sq e) = se_time e"
  "\<not> mc_nested cf \<Longrightarrow> tn_tp1 (make_current cf p tp1 sq e) = None" "\<not> mc_nested cf \<Longrightarrow> tn_need_remove (make_current cf p tp1 sq e)"
  "tn_unneeded (make_current cf p tp1 sq e) \<longleftrightarrow> \<not> tn_need_backup (make_current cf p tp1 sq e) \<or> tp_untraced (tp_at cf p)"
  by (simp_all add: make_current_def Let_def)

lemma sample_ok:
  assumes pl: "plain cf" and ok: "run_ok cf st" and nw: "event_handled st < event_handled st + 1"
  shows "\<exists>st1. multi_trace_sample cf True e st = Some st1 \<and> run_ok cf st1 \<and>
    (case find_tp (se_evsel e) 0 (mc_tp_list cf) of
       None \<Rightarrow> kept st1 = kept st \<and> pairs (calls st1) = pairs (calls st) \<and> event_handled st1 = event_handled st
     | Some (p, tp1) \<Rightarrow>
         kept st1 = spec_step cf (make_current cf p tp1 (event_handled st) e) (kept st) \<and>
         pairs (calls st1) = pairs (calls st) @ spec_out cf (make_current cf p tp1 (event_handled st) e) (kept st) \<and>
         event_handled st1 = event_handled st + 1)"
proof -
  define t where "t = (if se_time e > recent_time st then se_time e else recent_time st)"
  have c: "ctx_ok cf {} st" using ok by (simp add: run_ok_def)
  have st0: "(if se_time e > recent_time st then st\<lparr>recent_time := se_time e\<rparr> else st) = st\<lparr>recent_time := t\<rparr>" by (simp add: t_def)
  show ?thesis
  proof (cases "find_tp (se_evsel e) 0 (mc_tp_list cf)")
    case None
    then have "multi_trace_sample cf True e st = Some (st\<lparr>recent_time := t\<rparr>)" by (simp add: multi_trace_sample_def st0 Let_def)
    moreover have "ctx_ok cf {} (st\<lparr>recent_time := t\<rparr>)" "kept (st\<lparr>recent_time := t\<rparr>) = kept st"
      using bump_ok [OF c, of "event_handled st" t] by simp_all
    ultimately show ?thesis using None ok by (simp add: run_ok_def)
  next
    case (Some r)
    obtain p tp1 where r: "r = (p, tp1)" by (cases r)
    define n where "n = make_current cf p tp1 (event_handled st) e"
    define s0 where "s0 = st\<lparr>recent_time := t, event_handled := event_handled st + 1\<rparr>"
    define s1 where "s1 = s0\<lparr>heap := (heap s0)(0 \<mapsto> n)\<rparr>"
    have b: "ctx_ok cf {} s0" "kept s0 = kept st" using bump_ok [OF c, of "event_handled st + 1" t] nw by (simp_all add: s0_def)
    have k: "ctx_ok cf X s1" "kept s1 = kept st" for X using slot_ok(1) [OF b(1), of X "Some n"] slot_ok(2) [OF b(1), of "Some n"] b(2) by (simp_all add: s1_def)
    have f: "heap s1 0 = Some n" "calls s1 = calls st" "event_handled s1 = event_handled st + 1" "pending_list s1 = pending_list st"
        "timeline s1 = timeline st" "\<And>x. x \<noteq> 0 \<Longrightarrow> heap s1 x = heap st x" by (simp_all add: s1_def s0_def)
    have nn: "tn_tp1 n = None" "tn_need_remove n" "tn_seq n = event_handled st" "tn_tp n = p"
        "tn_unneeded n \<longleftrightarrow> \<not> tn_need_backup n \<or> tp_untraced (tp_at cf (tn_tp n))" using pl by (simp_all add: n_def plain_def)
    have e1: "multi_trace_sample cf True e st = map_option (\<lambda>st2. st2\<lparr>heap := (heap st2)(0 := None)\<rparr>)
        (if mc_need_timeline cf then sample_timeline cf True s1 else sample_direct cf True s1)"
      using Some r by (simp add: multi_trace_sample_def st0 Let_def n_def s0_def s1_def)
    obtain s2 where s2: "(if mc_need_timeline cf then sample_timeline cf True s1 else sample_direct cf True s1) = Some s2" "ctx_ok cf {} s2"
        "kept s2 = spec_step cf n (kept st)" "pairs (calls s2) = pairs (calls st) @ spec_out cf n (kept st)"
        "event_handled s2 = event_handled st + 1" "pending_list s2 = []" "if mc_need_timeline cf then released s2 else timeline s2 = rblist__init"
    proof (cases "mc_need_timeline cf")
      case True
      have o: "timeline_ok {} st" using c True by (simp add: ctx_ok_def)
      have rel: "pending_list s1 = []" "released s1"
        using ok True f(4) released_slot [OF b(1) True, of "Some n"] by (simp_all add: run_ok_def s1_def s0_def)
      have x0: "x \<noteq> 0" if "x \<in> set (entries (timeline s1))" for x using that timeline_okD(2) [OF o] f(5) by auto
      have sq: "tn_seq n < event_handled s1" "\<And>x. x \<in> set (entries (timeline s1)) \<Longrightarrow> tn_seq (node s1 x) < tn_seq n"
        using nw nn(3) f(3) timeline_okD(5) [OF o] f(5,6) x0 by (auto simp: tkey_def)
      show ?thesis
        using sample_timeline_ok [OF pl True k(1) f(1) nn(1,2) rel sq nn(5)] that True k(2) f(2,3) by auto
    next
      case False
      show ?thesis using sample_direct_ok [OF pl False k(1) f(1) nn(1,2)] that False k(2) f(2,3,4,5) ok by (auto simp: run_ok_def)
    qed
    let ?s = "s2\<lparr>heap := (heap s2)(0 := None)\<rparr>"
    have "multi_trace_sample cf True e st = Some ?s" using e1 s2(1) by simp
    moreover have "run_ok cf ?s" using slot_ok(1) [OF s2(2), of "{}" None] s2(6,7) released_slot [OF s2(2)] by (simp add: run_ok_def)
    moreover have "kept ?s = spec_step cf n (kept st)" using slot_ok(2) [OF s2(2), of None] s2(3) by simp
    ultimately show ?thesis using Some r s2(4,5) by (simp add: n_def)
  qed
qed

end
