(* ===== verification/Multi_Lost.thy ===== *)
theory Multi_Lost
  imports Multi_Sample
begin

text \<open>
  What \<open>src/multi-trace.c\<close> does with the events that have no partner: they are handed to
  \<open>remaining\<close> and let go when events are lost and at the end.
\<close>

section \<open>Emptying the table of kept events\<close>

lemma fold_backup_delete_frame:
  "fresh (fold (perf_event_backup_node_delete cf) ds st) = fresh st" "backup (fold (perf_event_backup_node_delete cf) ds st) = backup st"
  "timeline (fold (perf_event_backup_node_delete cf) ds st) = timeline st"
  "pending_list (fold (perf_event_backup_node_delete cf) ds st) = pending_list st"
  "recent_time (fold (perf_event_backup_node_delete cf) ds st) = recent_time st"
  "event_handled (fold (perf_event_backup_node_delete cf) ds st) = event_handled st"
  "timeline_lost_list (fold (perf_event_backup_node_delete cf) ds st) = timeline_lost_list st"
  "perins_lost_list (fold (perf_event_backup_node_delete cf) ds st) = perins_lost_list st"
  "calls (fold (perf_event_backup_node_delete cf) ds st) = calls st"
  by (induction ds arbitrary: st) simp_all

lemma fold_backup_delete_heap:
  "heap (fold (perf_event_backup_node_delete cf) ds st) x =
     (if x \<in> set ds then if mc_need_timeline cf then map_option (\<lambda>n. n\<lparr>tn_unneeded := True\<rparr>) (heap st x) else None else heap st x)"
  by (induction ds arbitrary: st) (simp_all add: option.map_comp comp_def)

lemma kept_none: "entries (backup st) = [] \<Longrightarrow> kept st = Map.empty"
  by (auto simp: kept_def table_map_def)

lemma exit_backup_ok:
  assumes ok: "ctx_ok cf {} st"
  shows "\<exists>st1. exit_backup cf st = Some st1 \<and> ctx_ok cf {} st1 \<and> kept st1 = Map.empty \<and> entries (backup st1) = [] \<and> calls st1 = calls st \<and>
    heap st1 0 = heap st 0 \<and>
    timeline st1 = timeline st \<and> pending_list st1 = pending_list st \<and> event_handled st1 = event_handled st \<and> recent_time st1 = recent_time st"
proof -
  let ?ds = "entries (backup st)"
  have base: "base_ok st" using ok by (simp add: ctx_ok_def)
  then have t: "table_ok (bkey st) (backup st)" by (simp add: base_ok_def)
  then have "length ?ds \<le> rl_nr_entries (backup st)" by (simp add: table_ok_def)
  then obtain rl where "rblist__exit (rl_nr_entries (backup st)) (backup st) = Some (rl, ?ds)" "rl = rblist__init"
    using exit_ok [OF t] rblist_emptied by blast
  then have e: "exit_backup cf st = Some (fold (perf_event_backup_node_delete cf) ?ds (st\<lparr>backup := rblist__init\<rparr>))"
    by (simp add: exit_backup_def)
  define st1 where "st1 = fold (perf_event_backup_node_delete cf) ?ds (st\<lparr>backup := rblist__init\<rparr>)"
  have fs: "fresh st1 = fresh st" "backup st1 = rblist__init" "timeline st1 = timeline st" "pending_list st1 = pending_list st"
      "recent_time st1 = recent_time st" "event_handled st1 = event_handled st" "timeline_lost_list st1 = timeline_lost_list st"
      "perins_lost_list st1 = perins_lost_list st" "calls st1 = calls st" by (simp_all add: st1_def fold_backup_delete_frame)
  have h: "heap st1 x = (if x \<in> set ?ds then if mc_need_timeline cf then map_option (\<lambda>n. n\<lparr>tn_unneeded := True\<rparr>) (heap st x) else None
      else heap st x)" for x by (simp add: st1_def fold_backup_delete_heap)
  have en: "entries (backup st1) = []" by (simp add: fs rblist__init_def)
  have d: "dom (heap st1) = (if mc_need_timeline cf then dom (heap st) else dom (heap st) - set ?ds)" by (auto simp: h split: if_splits)
  have "x < fresh st" if "x \<in> dom (heap st1)" for x using base d that by (auto simp: base_ok_def split: if_splits)
  then have "base_ok st1" using base en by (simp add: base_ok_def fs table_init_ok)
  moreover have "timeline_ok {} st1" if tl: "mc_need_timeline cf"
  proof -
    have o: "timeline_ok {} st" using ok tl by (simp add: ctx_ok_def)
    have sub: "x \<in> dom (heap st)" if "x \<in> set (entries (timeline st))" for x using that timeline_okD(2) [OF o] by blast
    have tk: "tkey (node st1 x) = tkey (node st x)" if "x \<in> set (entries (timeline st))" for x
      using sub [OF that] tl by (auto simp: h tkey_def)
    show ?thesis
    proof (rule timeline_okI, unfold fs(3,6) en)
      show "table_ok (\<lambda>x. tkey (node st1 x)) (timeline st)"
        using timeline_okD(1) [OF o] table_ok_cong [of "timeline st" "\<lambda>x. tkey (node st1 x)" "\<lambda>x. tkey (node st x)", OF tk] by simp
      show "tn_unneeded (node st1 x) \<longleftrightarrow> x \<notin> set []" if "x \<in> set (entries (timeline st))" for x
        using timeline_okD(4) [OF o that] sub [OF that] tl by (auto simp: h)
      show "snd (snd (tkey (node st1 x))) < event_handled st" if "x \<in> set (entries (timeline st))" for x
        using timeline_okD(5) [OF o that] tk [OF that] by simp
    qed (use timeline_okD(2) [OF o] d tl in simp_all)
  qed
  moreover have "own_ok st1" if "\<not> mc_need_timeline cf" using ok d that en by (auto simp: ctx_ok_def own_ok_def)
  ultimately have "ctx_ok cf {} st1" by (simp add: ctx_ok_def)
  moreover have "heap st1 0 = heap st 0" using base by (simp add: h base_ok_def)
  ultimately show ?thesis using e en kept_none [OF en] fs unfolding st1_def [symmetric] by blast
qed

section \<open>Events handed to \<open>remaining\<close>\<close>

definition remainders :: "call list \<Rightarrow> timeline_node list" where
  "remainders cs = concat (map (\<lambda>c. case c of Remaining n _ _ _ \<Rightarrow> [norm n] | _ \<Rightarrow> []) cs)"

lemma remainders_simps [simp]:
  "remainders [] = []" "remainders (cs @ ds) = remainders cs @ remainders ds" "remainders [Remaining n rr t s] = [norm n]"
  "remainders [Lost l] = []" "pairs [Remaining n rr t s] = []" "pairs [Lost l] = []"
  by (simp_all add: remainders_def pairs_def)

lemma call_remaining_ok:
  assumes pl: "plain cf" and ok: "ctx_ok cf {} st" and a: "a \<in> dom (heap st)"
  shows "\<exists>b st1. multi_trace_call_remaining cf a rr st = Some (b, st1) \<and> ctx_ok cf {} st1 \<and> kept st1 = kept st \<and>
    pairs (calls st1) = pairs (calls st) \<and> backup st1 = backup st \<and> timeline st1 = timeline st \<and> pending_list st1 = pending_list st \<and>
    event_handled st1 = event_handled st \<and> recent_time st1 = recent_time st \<and> dom (heap st1) = dom (heap st) \<and>
    (\<forall>x. x \<in> dom (heap st) \<longrightarrow> norm (node st1 x) = norm (node st x)) \<and> (b \<longrightarrow> mc_remaining_break cf (node st a)) \<and>
    remainders (calls st1) = remainders (calls st) @ (if mc_object_find cf (tn_tp (node st a)) None then [norm (node st a)] else [])"
proof (cases "mc_object_find cf (tn_tp (node st a)) None")
  case True
  obtain start where s: "iter_start cf a st = Some start" using pl by (cases "mc_need_timeline cf") (simp_all add: iter_start_def plain_def)
  define s0 where "s0 = (if recent_time st - tn_time (node st a) > mc_greater_than cf
     then set_node a (\<lambda>n. n\<lparr>tn_maybe_unpaired := True\<rparr>) st else st)"
  have s0: "ctx_ok cf {} s0" "kept s0 = kept st" using ok mark_ok [OF ok, of "\<lambda>n. n\<lparr>tn_maybe_unpaired := True\<rparr>" a] by (auto simp: s0_def)
  have "norm (node s0 x) = norm (node st x)" if "x \<in> dom (heap st)" for x using that by (auto simp: s0_def)
  moreover have "dom (heap s0) = dom (heap st)" by (auto simp: s0_def)
  moreover have "multi_trace_call_remaining cf a rr st =
      Some (mc_remaining_break cf (node st a), s0\<lparr>calls := calls s0 @ [Remaining (node st a) rr (recent_time st) start]\<rparr>)"
    using True s by (simp add: multi_trace_call_remaining_def s0_def Let_def)
  ultimately show ?thesis using True s0 by (simp add: s0_def)
next
  case False
  then show ?thesis using ok by (intro exI [of _ False] exI [of _ st]) (simp add: multi_trace_call_remaining_def)
qed

lemma handle_remaining_ok:
  assumes pl: "plain cf"
  shows "ctx_ok cf {} st \<Longrightarrow> set ls \<subseteq> dom (heap st) \<Longrightarrow>
    \<exists>st1. handle_remaining cf rr ls st = Some st1 \<and> ctx_ok cf {} st1 \<and> kept st1 = kept st \<and> pairs (calls st1) = pairs (calls st) \<and>
    backup st1 = backup st \<and> timeline st1 = timeline st \<and> pending_list st1 = pending_list st \<and> event_handled st1 = event_handled st \<and>
    recent_time st1 = recent_time st \<and> dom (heap st1) = dom (heap st) \<and>
    ((\<forall>n. \<not> mc_remaining_break cf n) \<longrightarrow> remainders (calls st1) =
       remainders (calls st) @ filter (\<lambda>n. mc_object_find cf (tn_tp n) None) (map (\<lambda>a. norm (node st a)) ls))"
proof (induction ls arbitrary: st)
  case (Cons a ls)
  have a: "a \<in> dom (heap st)" using Cons.prems(2) by simp
  obtain b s where s: "multi_trace_call_remaining cf a rr st = Some (b, s)" "ctx_ok cf {} s" "kept s = kept st"
      "pairs (calls s) = pairs (calls st)" "backup s = backup st" "timeline s = timeline st" "pending_list s = pending_list st"
      "event_handled s = event_handled st" "recent_time s = recent_time st" "dom (heap s) = dom (heap st)"
      "\<And>x. x \<in> dom (heap st) \<Longrightarrow> norm (node s x) = norm (node st x)" "b \<longrightarrow> mc_remaining_break cf (node st a)"
      "remainders (calls s) = remainders (calls st) @ (if mc_object_find cf (tn_tp (node st a)) None then [norm (node st a)] else [])"
    using call_remaining_ok [OF pl Cons.prems(1) a, of rr] by blast
  show ?case
  proof (cases b)
    case True
    then have "\<not> (\<forall>n. \<not> mc_remaining_break cf n)" using s(12) by blast
    then show ?thesis using s(1-10) True by auto
  next
    case False
    have m: "map (\<lambda>a. norm (node s a)) ls = map (\<lambda>a. norm (node st a)) ls" using s(11) Cons.prems(2) by auto
    have "set ls \<subseteq> dom (heap s)" using Cons.prems(2) s(10) by simp
    from Cons.IH [OF s(2) this] show ?thesis unfolding m using s(1,3-10,13) False by (auto simp: comp_def)
  qed
qed simp

lemma handle_all_remaining_ok:
  assumes pl: "plain cf" and ok: "ctx_ok cf {} st"
  shows "\<exists>st1. multi_trace_handle_remaining cf rr st = Some st1 \<and> ctx_ok cf {} st1 \<and> kept st1 = kept st \<and> pairs (calls st1) = pairs (calls st) \<and>
    backup st1 = backup st \<and> timeline st1 = timeline st \<and> pending_list st1 = pending_list st \<and> event_handled st1 = event_handled st \<and>
    recent_time st1 = recent_time st \<and> dom (heap st1) = dom (heap st) \<and>
    ((\<forall>n. \<not> mc_remaining_break cf n) \<longrightarrow> remainders (calls st1) =
       remainders (calls st) @ filter (\<lambda>n. mc_object_find cf (tn_tp n) None) (map (\<lambda>a. norm (node st a)) (entries (backup st))))"
proof -
  have "rl_nr_entries (backup st) = length (entries (backup st))" using ok by (simp add: ctx_ok_def base_ok_def table_ok_def)
  then have e: "multi_trace_handle_remaining cf rr st = handle_remaining cf rr (entries (backup st)) st"
    using walk_first [of "rl_tree (backup st)"] by (simp add: multi_trace_handle_remaining_def)
  have "set (entries (backup st)) \<subseteq> dom (heap st)" using kept_alive [OF ok] by blast
  from handle_remaining_ok [OF pl ok this] show ?thesis unfolding e .
qed

section \<open>Lost events\<close>

text \<open>What lost events do to the kept ones: without an order of its own, all events of the instance, or all events, go.\<close>

definition spec_lost :: "mt_conf \<Rightarrow> nat \<Rightarrow> (u64 \<rightharpoonup> timeline_node) \<Rightarrow> u64 \<rightharpoonup> timeline_node" where
  "spec_lost cf ins m = (if mc_lost_ins cf then m(mc_ins_key cf ins := None) else Map.empty)"

lemma lost_reclaim_ok:
  assumes pl: "plain cf" and ok: "ctx_ok cf {} st"
  shows "\<exists>st1. lost_reclaim cf ins st = Some st1 \<and> ctx_ok cf {} st1 \<and> kept st1 = spec_lost cf ins (kept st) \<and>
    pairs (calls st1) = pairs (calls st) \<and> pending_list st1 = pending_list st \<and> event_handled st1 = event_handled st \<and>
    timeline st1 = timeline st \<and> (heap st 0 = None \<longrightarrow> heap st1 0 = None)"
proof (cases "mc_lost_ins cf")
  case True
  let ?k = "mc_ins_key cf ins"
  have t: "table_ok (bkey st) (backup st)" using ok by (simp add: ctx_ok_def base_ok_def)
  show ?thesis
  proof (cases "table_map (bkey st) (backup st) ?k")
    case None
    then have "kept st ?k = None" by (simp add: kept_def)
    then have "spec_lost cf ins (kept st) = kept st" using True by (simp add: spec_lost_def fun_upd_idem)
    then show ?thesis using True None ok rb_for_each_plain [OF t, of ?k] by (simp add: lost_reclaim_def reclaim_def)
  next
    case (Some a)
    have a: "a \<in> set (entries (backup st))" "bkey st a = ?k" using table_map_entry [OF Some] by auto
    then have ad: "a \<in> dom (heap st)" "a \<noteq> 0" using kept_alive [OF ok] by auto
    obtain b s where s: "multi_trace_call_remaining cf a REMAINING_LOST st = Some (b, s)" "ctx_ok cf {} s" "kept s = kept st"
        "pairs (calls s) = pairs (calls st)" "backup s = backup st" "pending_list s = pending_list st"
        "event_handled s = event_handled st" "norm (node s a) = norm (node st a)" "dom (heap s) = dom (heap st)"
        "timeline s = timeline st"
      using call_remaining_ok [OF pl ok ad(1), of REMAINING_LOST] ad(1) by blast
    obtain s2 where s2: "remove_backup cf a s = Some s2" "ctx_ok cf {} s2" "kept s2 = (kept s)(bkey s a := None)" "calls s2 = calls s"
        "pending_list s2 = pending_list s" "event_handled s2 = event_handled s" "heap s2 0 = heap s 0" "timeline s2 = timeline s"
      using remove_backup_ok [OF s(2), of a] a(1) ad(2) s(5) by auto
    have "bkey s a = ?k" using norm_eqD [OF s(8)] a(2) by simp
    moreover have "heap s 0 = None" if "heap st 0 = None" using s(9) that by (metis domIff)
    ultimately show ?thesis
      using True Some rb_for_each_plain [OF t, of ?k] s s2 by (simp add: lost_reclaim_def reclaim_def spec_lost_def)
  qed
next
  case False
  obtain s where s: "multi_trace_handle_remaining cf REMAINING_LOST st = Some s" "ctx_ok cf {} s" "pairs (calls s) = pairs (calls st)"
      "pending_list s = pending_list st" "event_handled s = event_handled st" "dom (heap s) = dom (heap st)"
      "timeline s = timeline st" using handle_all_remaining_ok [OF pl ok] by blast
  have "heap s 0 = None" if "heap st 0 = None" using s(6) that by (metis domIff)
  then show ?thesis using False s exit_backup_ok [OF s(2)] by (auto simp: lost_reclaim_def spec_lost_def)
qed

lemma lost_ok:
  assumes pl: "plain cf" "\<not> mc_using_order cf" and ok: "run_ok cf st"
  shows "\<exists>st1. multi_trace_lost cf mem ins a b c st = Some st1 \<and> run_ok cf st1 \<and> kept st1 = spec_lost cf ins (kept st) \<and>
    pairs (calls st1) = pairs (calls st) \<and> event_handled st1 = event_handled st"
proof -
  define s0 where "s0 = st\<lparr>calls := calls st @ [Lost \<lparr>lo_ins = ins, lo_reclaim = False, lo_start = a, lo_end = b, lo_lost = c\<rparr>]\<rparr>"
  have "ctx_ok cf {} s0" using ok by (simp add: run_ok_def s0_def)
  from lost_reclaim_ok [OF pl(1) this, of ins] obtain s where s: "lost_reclaim cf ins s0 = Some s" "ctx_ok cf {} s"
      "kept s = spec_lost cf ins (kept s0)" "pairs (calls s) = pairs (calls s0)" "pending_list s = pending_list s0"
      "event_handled s = event_handled s0" "timeline s = timeline s0" "heap s0 0 = None \<longrightarrow> heap s 0 = None" by (elim exE conjE)
  have z: "kept s0 = kept st" "pairs (calls s0) = pairs (calls st)" "pending_list s0 = pending_list st" "event_handled s0 = event_handled st"
      "heap s0 0 = None" "timeline s0 = timeline st" using ok by (simp_all add: s0_def run_ok_def)
  have e: "multi_trace_lost cf mem ins a b c st = (if mc_need_timeline cf then timeline_free_unneeded cf s else Some s)"
    using pl s(1) by (simp add: multi_trace_lost_def plain_def s0_def)
  show ?thesis
  proof (cases "mc_need_timeline cf")
    case True
    have "pending_list s = []" using ok True s(5) z(3) by (simp add: run_ok_def)
    from free_unneeded_ok [OF pl(1) True s(2) this] show ?thesis using e True s(3,4,6,8) z(1,2,4,5) by (auto simp: run_ok_def)
  next
    case False
    then show ?thesis using e s z ok by (simp add: run_ok_def)
  qed
qed

section \<open>The end\<close>

lemma fold_timeline_delete:
  "heap (fold timeline_node_delete ds st) x = (if x \<in> set ds then None else heap st x)"
  "calls (fold timeline_node_delete ds st) = calls st" "timeline (fold timeline_node_delete ds st) = timeline st"
  "backup (fold timeline_node_delete ds st) = backup st"
  by (induction ds arbitrary: st) simp_all

lemma exit_timeline_ok:
  assumes "table_ok k (timeline st)"
  shows "exit_timeline st = Some (fold timeline_node_delete (entries (timeline st)) (st\<lparr>timeline := rblist__init\<rparr>))"
proof -
  have "length (entries (timeline st)) \<le> rl_nr_entries (timeline st)" using assms by (simp add: table_ok_def)
  then obtain rl where "rblist__exit (rl_nr_entries (timeline st)) (timeline st) = Some (rl, entries (timeline st))" "rl = rblist__init"
    using exit_ok [OF assms] rblist_emptied by blast
  then show ?thesis by (simp add: exit_timeline_def)
qed

lemma flush_ok:
  assumes pl: "plain cf" and ok: "run_ok cf st"
  shows "\<exists>st1. multi_trace_flush cf st = Some st1 \<and> heap st1 = Map.empty \<and> entries (backup st1) = [] \<and> entries (timeline st1) = [] \<and>
    pairs (calls st1) = pairs (calls st) \<and>
    ((\<forall>n. \<not> mc_remaining_break cf n) \<longrightarrow> remainders (calls st1) =
       remainders (calls st) @ filter (\<lambda>n. mc_object_find cf (tn_tp n) None) (map (\<lambda>a. norm (node st a)) (entries (backup st))))"
    (is "\<exists>st1. _ \<and> _ \<and> _ \<and> _ \<and> _ \<and> ?R st1")
proof -
  have c: "ctx_ok cf {} st" and n0: "heap st 0 = None" "pending_list st = []" using ok by (simp_all add: run_ok_def)
  obtain s where s: "multi_trace_handle_remaining cf REMAINING_EXIT st = Some s" "ctx_ok cf {} s" "pairs (calls s) = pairs (calls st)"
      "timeline s = timeline st" "pending_list s = []" "dom (heap s) = dom (heap st)" "?R s"
    using handle_all_remaining_ok [OF pl c, of REMAINING_EXIT] n0(2) by (elim exE conjE) simp
  have d: "drain_pending (length (pending_list s)) cf s = Some s"
    using s(5) by (subst drain_pending.simps) (simp add: multi_trace_first_pending_def)
  obtain s2 where s2: "exit_backup cf s = Some s2" "ctx_ok cf {} s2" "entries (backup s2) = []" "calls s2 = calls s" "heap s2 0 = heap s 0"
      "timeline s2 = timeline s" using exit_backup_ok [OF s(2)] by blast
  have "heap s 0 = None" using s(6) n0(1) by (metis domIff)
  then have z: "heap s2 0 = None" using s2(5) by simp
  obtain k :: "addr \<Rightarrow> u64 \<times> u64 \<times> u64" where t: "table_ok k (timeline s2)" and dm: "dom (heap s2) - {0} \<subseteq> set (entries (timeline s2))"
  proof (cases "mc_need_timeline cf")
    case True
    then have "timeline_ok {} s2" using s2(2) by (simp add: ctx_ok_def)
    then show ?thesis using that timeline_okD(1,2) by blast
  next
    case False
    then have "timeline s2 = rblist__init" using ok s(4) s2(6) by (simp add: run_ok_def)
    moreover have "dom (heap s2) - {0} \<subseteq> {}" using False s2(2,3) by (simp add: ctx_ok_def own_ok_def)
    ultimately show ?thesis using that [of "\<lambda>_. (0, 0, 0)"] table_init_ok [of "\<lambda>_. (0, 0, 0)"] by auto
  qed
  let ?s = "fold timeline_node_delete (entries (timeline s2)) (s2\<lparr>timeline := rblist__init\<rparr>)"
  have "heap ?s x = None" for x using dm z by (cases "x = 0") (auto simp: fold_timeline_delete)
  then have "heap ?s = Map.empty" by blast
  moreover have "multi_trace_flush cf st = Some ?s" using s(1) d s2(1) exit_timeline_ok [OF t] by (simp add: multi_trace_flush_def)
  ultimately show ?thesis using s(3,7) s2(3,4) by (simp add: fold_timeline_delete rblist__init_def)
qed

end
