(* ===== verification/Multi_Run.thy ===== *)
theory Multi_Run
  imports Multi_Lost
begin

text \<open>
  What the pairing of \<open>src/multi-trace.c\<close> promises of a whole sequence of events: which events
  are handed to \<open>two\<close>, that no event is handed on twice, that the timeline does not change the
  pairs, and that every node is released.
\<close>

section \<open>Sequences of events\<close>

text \<open>An event, or a report of lost events: the instance, the range and their number.\<close>

datatype mt_step = Event sample_event | Loss nat u64 u64 u64

text \<open>All memory requests are met.\<close>

fun multi_trace_run :: "mt_conf \<Rightarrow> mt_step list \<Rightarrow> multi_trace_ctx \<Rightarrow> multi_trace_ctx option" where
  "multi_trace_run cf [] st = Some st"
| "multi_trace_run cf (Event e # es) st = Option.bind (multi_trace_sample cf True e st) (multi_trace_run cf es)"
| "multi_trace_run cf (Loss ins a b c # es) st = Option.bind (multi_trace_lost cf True ins a b c st) (multi_trace_run cf es)"

text \<open>Reports of lost events are handled at once, except when events are put in order.\<close>

definition at_once :: "mt_conf \<Rightarrow> mt_step list \<Rightarrow> bool" where
  "at_once cf es \<longleftrightarrow> plain cf \<and> length es < 2 ^ 64 \<and> (mc_using_order cf \<longrightarrow> (\<forall>s\<in>set es. \<exists>e. s = Event e))"

text \<open>The pairs that a sequence makes and the events kept after it; \<open>sq\<close> numbers the events.\<close>

fun spec_run :: "mt_conf \<Rightarrow> u64 \<Rightarrow> (u64 \<rightharpoonup> timeline_node) \<Rightarrow> mt_step list \<Rightarrow>
    (timeline_node \<times> timeline_node) list \<times> (u64 \<rightharpoonup> timeline_node)" where
  "spec_run cf sq m [] = ([], m)"
| "spec_run cf sq m (Event e # es) =
     (case find_tp (se_evsel e) 0 (mc_tp_list cf) of
        None \<Rightarrow> spec_run cf sq m es
      | Some (p, tp1) \<Rightarrow>
          let n = make_current cf p tp1 sq e; r = spec_run cf (sq + 1) (spec_step cf n m) es
          in (spec_out cf n m @ fst r, snd r))"
| "spec_run cf sq m (Loss ins a b c # es) = spec_run cf sq (spec_lost cf ins m) es"

lemma unat_Suc: "unat (x :: u64) + 1 < 2 ^ 64 \<Longrightarrow> unat (x + 1) = unat x + 1"
  by (simp add: unat_word_ariths)

lemma run_refines:
  assumes "plain cf"
  shows "run_ok cf st \<Longrightarrow> unat (event_handled st) + length es < 2 ^ 64 \<Longrightarrow> (mc_using_order cf \<longrightarrow> (\<forall>s\<in>set es. \<exists>e. s = Event e)) \<Longrightarrow>
    \<exists>st1. multi_trace_run cf es st = Some st1 \<and> run_ok cf st1 \<and>
      pairs (calls st1) = pairs (calls st) @ fst (spec_run cf (event_handled st) (kept st) es) \<and>
      kept st1 = snd (spec_run cf (event_handled st) (kept st) es)"
proof (induction es arbitrary: st)
  case (Cons step es)
  have u: "unat (event_handled st + 1) = unat (event_handled st) + 1" using Cons.prems(2) by (intro unat_Suc) simp
  then have nw: "event_handled st < event_handled st + 1" by (simp add: word_less_nat_alt)
  have all: "mc_using_order cf \<longrightarrow> (\<forall>s\<in>set es. \<exists>e. s = Event e)" using Cons.prems(3) by simp
  show ?case
  proof (cases step)
    case (Event e)
    show ?thesis
    proof (cases "find_tp (se_evsel e) 0 (mc_tp_list cf)")
      case None
      obtain s where s: "multi_trace_sample cf True e st = Some s" "run_ok cf s" "kept s = kept st"
          "pairs (calls s) = pairs (calls st)" "event_handled s = event_handled st"
        using sample_ok [OF assms Cons.prems(1) nw, of e] None by auto
      have "unat (event_handled s) + length es < 2 ^ 64" using Cons.prems(2) s(5) by simp
      from Cons.IH [OF s(2) this all] show ?thesis using s None Event by auto
    next
      case (Some r)
      obtain p tp1 where r: "r = (p, tp1)" by (cases r)
      let ?n = "make_current cf p tp1 (event_handled st) e"
      obtain s where s: "multi_trace_sample cf True e st = Some s" "run_ok cf s" "kept s = spec_step cf ?n (kept st)"
          "pairs (calls s) = pairs (calls st) @ spec_out cf ?n (kept st)" "event_handled s = event_handled st + 1"
        using sample_ok [OF assms Cons.prems(1) nw, of e] Some r by auto
      have "unat (event_handled s) + length es < 2 ^ 64" using Cons.prems(2) s(5) u by simp
      from Cons.IH [OF s(2) this all] show ?thesis using s Some r Event by (auto simp: Let_def)
    qed
  next
    case (Loss ins a b c)
    then have "\<not> mc_using_order cf" using Cons.prems(3) by auto
    then obtain s where s: "multi_trace_lost cf True ins a b c st = Some s" "run_ok cf s" "kept s = spec_lost cf ins (kept st)"
        "pairs (calls s) = pairs (calls st)" "event_handled s = event_handled st"
      using lost_ok [OF assms _ Cons.prems(1)] by blast
    have "unat (event_handled s) + length es < 2 ^ 64" using Cons.prems(2) s(5) by simp
    from Cons.IH [OF s(2) this all] show ?thesis using s Loss by auto
  qed
qed simp

lemma multi_trace_init_ok: "run_ok cf multi_trace_init" "kept multi_trace_init = Map.empty"
proof -
  have t: "entries (rblist__init :: addr rblist) = []" by (simp add: rblist__init_def)
  then show "run_ok cf multi_trace_init"
    by (simp add: run_ok_def ctx_ok_def base_ok_def timeline_ok_def own_ok_def released_def multi_trace_init_def table_init_ok)
  show "kept multi_trace_init = Map.empty" using t by (auto simp: kept_def table_map_def multi_trace_init_def)
qed

lemma init_run:
  assumes "at_once cf es"
  obtains st where "multi_trace_run cf es multi_trace_init = Some st" "run_ok cf st"
    "pairs (calls st) = fst (spec_run cf 0 Map.empty es)" "kept st = snd (spec_run cf 0 Map.empty es)"
  using run_refines [of cf multi_trace_init es] multi_trace_init_ok assms unfolding at_once_def
  by (auto simp: multi_trace_init_def)

section \<open>The pairs of a sequence\<close>

text \<open>The kept events have their key and an earlier number, and no two have the same number.\<close>

definition kept_inv :: "u64 \<Rightarrow> (u64 \<rightharpoonup> timeline_node) \<Rightarrow> bool" where
  "kept_inv sq m \<longleftrightarrow> (\<forall>k n. m k = Some n \<longrightarrow> tn_key n = k \<and> tn_need_backup n \<and> tn_seq n < sq) \<and>
     (\<forall>k l n x. m k = Some n \<longrightarrow> m l = Some x \<longrightarrow> tn_seq n = tn_seq x \<longrightarrow> k = l)"

text \<open>A pair: one event to be kept, a later one that looks for it, of one key.\<close>

definition good_pair :: "mt_conf \<Rightarrow> timeline_node \<times> timeline_node \<Rightarrow> bool" where
  "good_pair cf q = (case q of (a, b) \<Rightarrow> tn_key a = tn_key b \<and> tn_time a < tn_time b \<and> tn_seq a < tn_seq b \<and>
     tn_need_backup a \<and> tn_need_find_prev b \<and> mc_object_find cf (tn_tp a) (Some (tn_tp b)))"

lemma norm_flags [simp]: "tn_need_backup (norm n) = tn_need_backup n" "tn_need_find_prev (norm n) = tn_need_find_prev n"
  by (simp_all add: norm_def)

lemma step_kept: "spec_step cf n m k = Some x \<Longrightarrow> x = norm n \<and> k = tn_key n \<and> tn_need_backup n \<or> m k = Some x"
  by (auto simp: spec_step_def after_keep_def after_pair_def split: if_splits option.splits)

lemma kept_inv_step:
  assumes "kept_inv sq m" "tn_seq n = sq" "sq < sq + 1"
  shows "kept_inv (sq + 1) (spec_step cf n m)"
  unfolding kept_inv_def
proof (intro conjI allI impI)
  fix k x assume "spec_step cf n m k = Some x"
  then show "tn_key x = k" "tn_need_backup x" "tn_seq x < sq + 1"
    using assms by (auto simp: kept_inv_def dest!: step_kept intro: less_trans)
next
  fix k l x y assume "spec_step cf n m k = Some x" "spec_step cf n m l = Some y" "tn_seq x = tn_seq y"
  moreover have "tn_seq z \<noteq> sq" if "m j = Some z" for j z using assms(1) that by (auto simp: kept_inv_def)
  ultimately show "k = l" using assms(1,2) unfolding kept_inv_def by (metis norm_simps(6) step_kept)
qed

lemma kept_inv_lost: "kept_inv sq m \<Longrightarrow> kept_inv sq (spec_lost cf ins m)"
  by (auto simp: kept_inv_def spec_lost_def)

lemma out_pair:
  assumes "kept_inv sq m" "tn_seq n = sq" "spec_out cf n m \<noteq> []"
  obtains p where "spec_out cf n m = [(p, norm n)]" "m (tn_key n) = Some p" "good_pair cf (p, norm n)"
    "\<And>x. spec_step cf n m (tn_key n) = Some x \<Longrightarrow> x = norm n"
proof -
  have t: "\<not> tp_untraced (tp_at cf (tn_tp n))" "spec_pairs cf n m \<noteq> []" using assms(3) by (auto simp: spec_out_def split: if_splits)
  then obtain p where p: "prev_of n m = Some p" "mc_object_find cf (tn_tp p) (Some (tn_tp n))" "tn_time p < tn_time n"
    by (auto simp: spec_pairs_def split: option.splits if_splits)
  then have f: "tn_need_find_prev n" "m (tn_key n) = Some p" by (auto simp: prev_of_def split: if_splits)
  have "spec_out cf n m = [(p, norm n)]" using t p by (simp add: spec_out_def spec_pairs_def)
  moreover have "good_pair cf (p, norm n)" using p f assms(1,2) by (simp add: good_pair_def kept_inv_def)
  moreover have "x = norm n" if "spec_step cf n m (tn_key n) = Some x" for x
    using that t(1) p(1) by (auto simp: spec_step_def after_pair_def after_keep_def split: if_splits)
  ultimately show ?thesis using that f(2) by blast
qed

text \<open>What is shown of the pairs \<open>ps\<close> that events from number \<open>sq\<close> on make when \<open>m\<close> is kept.\<close>

definition pairs_ok :: "mt_conf \<Rightarrow> u64 \<Rightarrow> (u64 \<rightharpoonup> timeline_node) \<Rightarrow> (timeline_node \<times> timeline_node) list \<Rightarrow> bool" where
  "pairs_ok cf sq m ps \<longleftrightarrow>
     (\<forall>q\<in>set ps. good_pair cf q \<and> sq \<le> tn_seq (snd q) \<and> (sq \<le> tn_seq (fst q) \<or> fst q \<in> ran m)) \<and>
     distinct (map (\<lambda>q. tn_seq (fst q)) ps) \<and> distinct (map (\<lambda>q. tn_seq (snd q)) ps)"

lemma pairs_ok_lost: "pairs_ok cf sq (spec_lost cf ins m) ps \<Longrightarrow> pairs_ok cf sq m ps"
  unfolding pairs_ok_def by (auto simp: spec_lost_def ran_def split: if_splits)

lemma pairs_ok_later:
  assumes "tn_seq n = sq" "sq < sq + 1" "pairs_ok cf (sq + 1) (spec_step cf n m) ps"
  shows "pairs_ok cf sq m ps"
proof -
  have sq: "sq \<le> x" if "sq + 1 \<le> x" for x :: u64 using that assms(2) by (meson le_less_trans less_imp_le less_le_trans)
  have "sq \<le> tn_seq x" if x: "x \<in> ran (spec_step cf n m)" "x \<notin> ran m" for x
  proof -
    obtain k where "spec_step cf n m k = Some x" using x(1) by (auto simp: ran_def)
    then show ?thesis using step_kept [of cf n m k x] x(2) assms(1) by (auto simp: ran_def)
  qed
  then show ?thesis using assms(3) sq unfolding pairs_ok_def by blast
qed

lemma pairs_ok_event:
  assumes inv: "kept_inv sq m" and sn: "tn_seq n = sq" and nw: "sq < sq + 1" and ps: "pairs_ok cf (sq + 1) (spec_step cf n m) ps"
  shows "pairs_ok cf sq m (spec_out cf n m @ ps)"
proof (cases "spec_out cf n m = []")
  case True
  then show ?thesis using pairs_ok_later [OF sn nw ps] by simp
next
  case False
  obtain a where a: "spec_out cf n m = [(a, norm n)]" "m (tn_key n) = Some a" "good_pair cf (a, norm n)"
      "\<And>x. spec_step cf n m (tn_key n) = Some x \<Longrightarrow> x = norm n"
    using out_pair [OF inv sn False] by blast
  have lt: "tn_seq a < sq" using inv a(2) by (auto simp: kept_inv_def)
  have "tn_seq (fst q) \<noteq> tn_seq a" if "q \<in> set ps" for q
  proof (cases "sq + 1 \<le> tn_seq (fst q)")
    case False
    then have "fst q \<in> ran (spec_step cf n m)" using ps that by (auto simp: pairs_ok_def)
    then obtain k where k: "spec_step cf n m k = Some (fst q)" by (auto simp: ran_def)
    show ?thesis
    proof (cases "k = tn_key n")
      case True
      then show ?thesis using a(4) k sn lt by auto
    next
      case False
      then have "m k = Some (fst q)" using step_kept [OF k] by auto
      then show ?thesis using inv a(2) False unfolding kept_inv_def by metis
    qed
  qed (use nw lt in force)
  moreover have "tn_seq (snd q) \<noteq> sq" if "q \<in> set ps" for q using ps that nw by (auto simp: pairs_ok_def)
  ultimately have "tn_seq a \<notin> (\<lambda>q. tn_seq (fst q)) ` set ps" "sq \<notin> (\<lambda>q. tn_seq (snd q)) ` set ps" "a \<in> ran m"
    using ranI [of m, OF a(2)] by fastforce+
  then show ?thesis using pairs_ok_later [OF sn nw ps] a(3) sn unfolding pairs_ok_def a(1) by simp
qed

lemma spec_run_pairs: "kept_inv sq m \<Longrightarrow> unat sq + length es < 2 ^ 64 \<Longrightarrow> pairs_ok cf sq m (fst (spec_run cf sq m es))"
proof (induction es arbitrary: sq m)
  case (Cons step es)
  have u: "unat (sq + 1) = unat sq + 1" using Cons.prems(2) by (intro unat_Suc) simp
  then have nw: "sq < sq + 1" by (simp add: word_less_nat_alt)
  show ?case
  proof (cases step)
    case (Loss ins a b c)
    then show ?thesis using Cons.IH [OF kept_inv_lost [OF Cons.prems(1), of cf ins]] Cons.prems(2) pairs_ok_lost by simp
  next
    case (Event e)
    show ?thesis
    proof (cases "find_tp (se_evsel e) 0 (mc_tp_list cf)")
      case None
      then show ?thesis using Cons.IH [OF Cons.prems(1)] Cons.prems(2) Event by simp
    next
      case (Some r)
      define n where "n = make_current cf (fst r) (snd r) sq e"
      have sn: "tn_seq n = sq" by (simp add: n_def)
      note i1 = kept_inv_step [OF Cons.prems(1) sn nw, of cf]
      have "pairs_ok cf sq m (spec_out cf n m @ fst (spec_run cf (sq + 1) (spec_step cf n m) es))"
        using pairs_ok_event [OF Cons.prems(1) sn nw Cons.IH [OF i1]] u Cons.prems(2) by simp
      then show ?thesis using Some Event by (cases r) (simp add: n_def Let_def)
    qed
  qed
qed (simp add: pairs_ok_def)

section \<open>The promises\<close>

lemma spec_run_timeline [simp]: "spec_run (cf\<lparr>mc_need_timeline := b\<rparr>) sq m es = spec_run cf sq m es"
proof -
  have m [simp]: "make_current (cf\<lparr>mc_need_timeline := b\<rparr>) = make_current cf" by (intro ext) (simp add: make_current_def tp_at_def Let_def cong: option.case_cong if_cong)
  have s: "spec_step (cf\<lparr>mc_need_timeline := b\<rparr>) = spec_step cf" "spec_out (cf\<lparr>mc_need_timeline := b\<rparr>) = spec_out cf"
      "spec_lost (cf\<lparr>mc_need_timeline := b\<rparr>) = spec_lost cf"
    by (intro ext; simp add: spec_step_def spec_out_def spec_pairs_def spec_lost_def tp_at_def cong: option.case_cong)+
  show ?thesis
  proof (induction es arbitrary: sq m)
    case (Cons step es)
    then show ?case by (cases step) (auto simp: m s Let_def split: option.splits)
  qed simp
qed

text \<open>A configuration with two levels of one event each, whose key is the instance, and events for it.\<close>

definition demo_conf :: "bool \<Rightarrow> mt_conf" where
  "demo_conf t =
     \<lparr>mc_tp_list = [[\<lparr>tp_evsel = 7, tp_untraced = False, tp_key_prog = None, tp_role_prog = None\<rparr>],
                    [\<lparr>tp_evsel = 8, tp_untraced = False, tp_key_prog = None, tp_role_prog = None\<rparr>]],
      mc_need_timeline = t, mc_nested = False, mc_impl_based_on_call = False, mc_cycle = False, mc_before_event1 = 0, mc_after_event2 = 0,
      mc_greater_than = 0, mc_lost_ins = False, mc_using_order = False, mc_ins_key = of_nat, mc_object_find = (\<lambda>_ _. True),
      mc_remaining_break = (\<lambda>_. False)\<rparr>"

definition demo_event :: "u64 \<Rightarrow> nat \<Rightarrow> nat \<Rightarrow> mt_step" where
  "demo_event t ev ins = Event \<lparr>se_time = t, se_evsel = ev, se_ins = ins, se_bytes = [], se_raw = [], se_dev = False, se_unnecessary = False\<rparr>"

text \<open>The second event of the first level is lost, the third is paired.\<close>

definition demo_run :: "mt_step list" where
  "demo_run = [demo_event 3 7 2, Loss 2 4 5 9, demo_event 6 7 1, demo_event 8 7 2, demo_event 9 8 2]"

lemma demo_at_once: "at_once (demo_conf t) demo_run"
  by (simp add: at_once_def plain_def demo_conf_def demo_run_def)

lemma demo_spec:
  "map (\<lambda>(a, b). (tn_time a, tn_time b)) (fst (spec_run (demo_conf t) 0 Map.empty demo_run)) = [(8, 9)]"
  by (simp add: demo_run_def demo_event_def demo_conf_def make_current_def spec_step_def spec_out_def spec_pairs_def spec_lost_def
      after_keep_def after_pair_def prev_of_def norm_def tp_at_def Let_def)

text \<open>
  C7. Pairing refines a map from keys to kept events: for every sequence of events and reports of
  lost events, with and without a timeline, no null pointer is followed, the calls \<open>two(A, B)\<close>
  are those of the map, and the table holds exactly the events of the map.
\<close>

theorem multi_trace_refines:
  assumes "at_once cf es"
  shows "\<exists>st. multi_trace_run cf es multi_trace_init = Some st \<and> (pairs (calls st), kept st) = spec_run cf 0 Map.empty es"
  by (rule init_run [OF assms]) simp

theorem multi_trace_refines_witness:
  "\<exists>st. multi_trace_run (demo_conf True) demo_run multi_trace_init = Some st \<and> map (\<lambda>(a, b). (tn_time a, tn_time b)) (pairs (calls st)) = [(8, 9)]"
  using multi_trace_refines [OF demo_at_once [of True]] demo_spec [of True] by (metis fst_conv)

text \<open>
  C9. Keeping a timeline does not change which events are paired or kept: both ways of keeping
  events hand the same pairs to \<open>two\<close>, in the same order.
\<close>

theorem timeline_same_pairs:
  assumes "at_once cf es"
  shows "\<exists>s t. multi_trace_run (cf\<lparr>mc_need_timeline := True\<rparr>) es multi_trace_init = Some s \<and>
    multi_trace_run (cf\<lparr>mc_need_timeline := False\<rparr>) es multi_trace_init = Some t \<and> pairs (calls s) = pairs (calls t) \<and> kept s = kept t"
proof -
  have a: "at_once (cf\<lparr>mc_need_timeline := b\<rparr>) es" for b using assms by (simp add: at_once_def plain_def)
  show ?thesis by (rule init_run [OF a [of True]], rule init_run [OF a [of False]]) simp
qed

theorem timeline_same_pairs_witness:
  "\<exists>s t. multi_trace_run (demo_conf True) demo_run multi_trace_init = Some s \<and>
    multi_trace_run (demo_conf False) demo_run multi_trace_init = Some t \<and> pairs (calls s) = pairs (calls t) \<and> kept s = kept t"
  using timeline_same_pairs [OF demo_at_once [of False]] by (simp add: demo_conf_def)

text \<open>
  C8. The two events of a pair have one key, the second came later and has a later time, the first
  was one to be kept and the second one to look for a partner; no event is the first of two
  pairs and none the second of two.
\<close>

theorem pairs_sound:
  assumes "at_once cf es" "multi_trace_run cf es multi_trace_init = Some st"
  shows "list_all (good_pair cf) (pairs (calls st)) \<and> distinct (map (\<lambda>q. tn_seq (fst q)) (pairs (calls st))) \<and>
    distinct (map (\<lambda>q. tn_seq (snd q)) (pairs (calls st)))"
proof -
  have "pairs (calls st) = fst (spec_run cf 0 Map.empty es)" using assms(2) by (rule_tac init_run [OF assms(1)]) simp
  moreover have "unat (0 :: u64) + length es < 2 ^ 64" "kept_inv 0 Map.empty" using assms(1) by (simp_all add: at_once_def kept_inv_def)
  ultimately show ?thesis using spec_run_pairs [of 0 Map.empty es cf] by (simp add: list_all_iff pairs_ok_def)
qed

theorem pairs_sound_witness:
  "\<exists>st. multi_trace_run (demo_conf True) demo_run multi_trace_init = Some st \<and> list_all (good_pair (demo_conf True)) (pairs (calls st))"
  by (rule init_run [OF demo_at_once [of True]]) (use pairs_sound [OF demo_at_once [of True]] in blast)

text \<open>
  C10. Between events the nodes that are allocated are those of the timeline, or without one those
  of the kept events; every kept event is on the timeline and its first node is a kept one, so
  what came before the oldest kept event has been released.
\<close>

theorem multi_trace_memory:
  assumes "at_once cf es" "multi_trace_run cf es multi_trace_init = Some st"
  shows "if mc_need_timeline cf
    then dom (heap st) = set (entries (timeline st)) \<and> set (entries (backup st)) \<subseteq> set (entries (timeline st)) \<and>
      (entries (timeline st) = [] \<or> hd (entries (timeline st)) \<in> set (entries (backup st)))
    else dom (heap st) = set (entries (backup st))"
proof -
  have r: "run_ok cf st" using assms(2) by (rule_tac init_run [OF assms(1)]) simp
  then have d: "dom (heap st) - {0} = dom (heap st)" by (auto simp: run_ok_def)
  show ?thesis
  proof (cases "mc_need_timeline cf")
    case True
    then have o: "timeline_ok {} st" and rl: "released st" using r by (simp_all add: run_ok_def ctx_ok_def)
    have "x \<in> set (entries (backup st))" if "entries (timeline st) = x # xs" for x xs
      using timeline_okD(4) [OF o, of x] rl that by (simp add: released_def)
    then have "entries (timeline st) = [] \<or> hd (entries (timeline st)) \<in> set (entries (backup st))" by (cases "entries (timeline st)") auto
    then show ?thesis using True d timeline_okD(2,3) [OF o] by simp
  next
    case False
    then show ?thesis using r d by (simp add: run_ok_def ctx_ok_def own_ok_def)
  qed
qed

theorem multi_trace_memory_witness:
  "\<exists>st. multi_trace_run (demo_conf True) demo_run multi_trace_init = Some st \<and> dom (heap st) = set (entries (timeline st)) \<and>
    set (entries (backup st)) \<subseteq> set (entries (timeline st))"
  by (rule init_run [OF demo_at_once [of True]]) (use multi_trace_memory [OF demo_at_once [of True]] in \<open>auto simp: demo_conf_def\<close>)

text \<open>
  C11. At the end every kept event whose tracepoint is known to \<open>object_find\<close> is handed to
  \<open>remaining\<close> once, in the order of the keys, when no callback asks to stop; the pairs stay, both
  tables are empty and every node is released.
\<close>

theorem multi_trace_flush_all:
  assumes "at_once cf es" "multi_trace_run cf es multi_trace_init = Some st" "mc_remaining_break cf = (\<lambda>_. False)"
  shows "\<exists>st1 rs. multi_trace_flush cf st = Some st1 \<and> heap st1 = Map.empty \<and> entries (backup st1) = [] \<and> entries (timeline st1) = [] \<and>
    pairs (calls st1) = pairs (calls st) \<and> remainders (calls st1) = remainders (calls st) @ rs \<and>
    set rs = {n \<in> ran (kept st). mc_object_find cf (tn_tp n) None} \<and> sorted_wrt (<) (map tn_key rs)"
proof -
  have r: "run_ok cf st" and pl: "plain cf" using assms(1,2) by (rule_tac init_run [OF assms(1)]; simp add: at_once_def)+
  have t: "table_ok (bkey st) (backup st)" using r by (simp add: run_ok_def ctx_ok_def base_ok_def)
  let ?es = "map (\<lambda>a. norm (node st a)) (entries (backup st))"
  let ?rs = "filter (\<lambda>n. mc_object_find cf (tn_tp n) None) ?es"
  have "ran (kept st) = (\<lambda>a. norm (node st a)) ` ran (table_map (bkey st) (backup st))" by (auto simp: ran_def kept_def)
  then have "set ?es = ran (kept st)" using entries_ran [OF t] by simp
  then have "set ?rs = {n \<in> ran (kept st). mc_object_find cf (tn_tp n) None}" by auto
  moreover have "sorted_wrt (<) (map tn_key ?es)" using t by (simp add: table_ok_def comp_def)
  then have "sorted_wrt (<) (map tn_key ?rs)" using sorted_wrt_filter [of "\<lambda>x y. tn_key x < tn_key y" ?es] by (simp add: sorted_wrt_map)
  ultimately show ?thesis using flush_ok [OF pl r] assms(3) by auto
qed

theorem multi_trace_flush_all_witness:
  "\<exists>st st1. multi_trace_run (demo_conf True) demo_run multi_trace_init = Some st \<and> multi_trace_flush (demo_conf True) st = Some st1 \<and>
    heap st1 = Map.empty \<and> pairs (calls st1) = pairs (calls st)"
  by (rule init_run [OF demo_at_once [of True]]) (use multi_trace_flush_all [OF demo_at_once [of True]] in \<open>fastforce simp: demo_conf_def\<close>)

end
