(* ===== verification/Event_Iter.thy ===== *)
theory Event_Iter
  imports Multi_Pairs
begin

text \<open>
  Walking along the timeline (\<open>event_iter_cmd\<close>) and choosing the events to show between the two
  events of a pair (\<open>event_need_to_print\<close>), both in \<open>src/multi-trace.c\<close>. C integers of 32 bits are
  words; what tracepoints know of their own data are the callbacks of \<open>struct tp_matcher\<close>.
  None is a null pointer followed.
\<close>

section \<open>The fields of an event\<close>

definition u32_at :: "u8 list \<Rightarrow> nat \<Rightarrow> u32" where
  "u32_at bs i = of_nat (le_nat (take 4 (drop i bs)))"

text \<open>\<open>struct multi_trace_type_header\<close>, after the header of eight bytes.\<close>

definition hdr_pid :: "timeline_node \<Rightarrow> u32" where
  "hdr_pid n = u32_at (tn_event n) 8"

definition hdr_tid :: "timeline_node \<Rightarrow> u32" where
  "hdr_tid n = u32_at (tn_event n) 12"

definition hdr_cpu :: "timeline_node \<Rightarrow> u32" where
  "hdr_cpu n = u32_at (tn_event n) 32"

definition hdr_rec_type :: "timeline_node \<Rightarrow> u32" where
  "hdr_rec_type n = u32_at (tn_event n) 0"

text \<open>The raw data behind the header, or behind the call chain.\<close>

definition multi_trace_raw_size :: "bool \<Rightarrow> timeline_node \<Rightarrow> u8 list" where
  "multi_trace_raw_size stack n =
     (let off = (if stack then 56 + unat (u64_at (tn_event n) 48) * 8 else 48)
      in take (unat (u32_at (tn_event n) off)) (drop (off + 4) (tn_event n)))"

record tp_matcher =
  ma_samecpu :: "(u8 list \<Rightarrow> u32 \<Rightarrow> bool) option"
  ma_samepid :: "(u8 list \<Rightarrow> u32 \<Rightarrow> bool) option"
  ma_target_cpu :: "(u8 list \<Rightarrow> u32 \<Rightarrow> u32 \<Rightarrow> u32 \<Rightarrow> string option \<Rightarrow> bool \<times> u32 \<times> string option) option"
  ma_oncpu :: "(u8 list \<Rightarrow> (u32 \<times> string) option) option"

text \<open>The fields of \<open>struct tp\<close> that are read here, and of \<open>struct env\<close> and the context.\<close>

record tp_info =
  ti_kernel :: bool
  ti_vcpu :: bool
  ti_stack :: bool
  ti_key :: bool
  ti_matcher :: "tp_matcher option"

record print_env =
  pe_samecpu :: bool
  pe_samepid :: bool
  pe_sametid :: bool
  pe_samekey :: bool
  pe_verbose :: bool
  pe_comm :: bool
  pe_rundelay :: bool
  pe_record_dev :: u32
  pe_tp :: "tpid \<Rightarrow> tp_info"

definition tp_samecpu :: "tp_info \<Rightarrow> u8 list \<Rightarrow> u32 \<Rightarrow> bool" where
  "tp_samecpu t raw cpu =
     (case ti_matcher t of Some m \<Rightarrow> (case ma_samecpu m of Some f \<Rightarrow> f raw cpu | None \<Rightarrow> False) | None \<Rightarrow> False)"

definition tp_samepid :: "tp_info \<Rightarrow> u8 list \<Rightarrow> u32 \<Rightarrow> bool" where
  "tp_samepid t raw pid =
     (case ti_matcher t of Some m \<Rightarrow> (case ma_samepid m of Some f \<Rightarrow> f raw pid | None \<Rightarrow> False) | None \<Rightarrow> False)"

text \<open>The last two arguments are read and written through pointers.\<close>

definition tp_target_cpu :: "tp_info \<Rightarrow> u8 list \<Rightarrow> u32 \<Rightarrow> u32 \<Rightarrow> u32 \<Rightarrow> string option \<Rightarrow> bool \<times> u32 \<times> string option" where
  "tp_target_cpu t raw cpu pid target reason =
     (case ti_matcher t of
        Some m \<Rightarrow> (case ma_target_cpu m of Some f \<Rightarrow> f raw cpu pid target reason | None \<Rightarrow> (False, target, reason))
      | None \<Rightarrow> (False, target, reason))"

definition tp_oncpu :: "tp_info \<Rightarrow> u8 list \<Rightarrow> (u32 \<times> string) option" where
  "tp_oncpu t raw = (case ti_matcher t of Some m \<Rightarrow> (case ma_oncpu m of Some f \<Rightarrow> f raw | None \<Rightarrow> None) | None \<Rightarrow> None)"

text \<open>The tracepoint may be missing.\<close>

definition event_comparable :: "print_env \<Rightarrow> tpid option \<Rightarrow> tpid option \<Rightarrow> bool" where
  "event_comparable pe tp1 tp2 =
     (let host = (\<lambda>tp. case tp of Some p \<Rightarrow> ti_kernel (pe_tp pe p) \<or> ti_vcpu (pe_tp pe p) | None \<Rightarrow> False)
      in host tp1 = host tp2)"

section \<open>The iterator\<close>

record event_iter =
  it_start :: "addr option"
  it_event1 :: "addr option"
  it_event2 :: "addr option"
  it_curr :: "addr option"
  it_time :: u64
  it_recent_cpu :: u32
  it_debug_msg :: "string option"
  it_reason :: "string option"
  it_curr_cpu :: "nat \<Rightarrow> u32"
  it_curr_pid :: "nat \<Rightarrow> u32"
  it_curr_time :: "nat \<Rightarrow> u64"
  it_running_time :: u64
  it_comm :: "string option"

datatype iter_cmd = CMD_RESET | CMD_EVENT1 | CMD_EVENT2 | CMD_PREV | CMD_NEXT

text \<open>\<open>rb_next\<close> and \<open>rb_prev\<close> of a node by its address; a node that is in no tree has neither.\<close>

definition step_node :: "(addr place \<Rightarrow> addr place option) \<Rightarrow> addr \<Rightarrow> addr rb \<Rightarrow> addr option" where
  "step_node step a t =
     (case place_of a t [] of
        None \<Rightarrow> None
      | Some z \<Rightarrow> (case step z of Some (Nd c l b r, fs) \<Rightarrow> Some b | _ \<Rightarrow> None))"

definition event_iter_cmd :: "multi_trace_ctx \<Rightarrow> iter_cmd \<Rightarrow> event_iter \<Rightarrow> (bool \<times> event_iter) option" where
  "event_iter_cmd st cmd it =
     (let at = (\<lambda>curr. case curr of
                  None \<Rightarrow> None
                | Some a \<Rightarrow> Some (True, it\<lparr>it_curr := curr, it_time := tn_time (node st a)\<rparr>));
          move = (\<lambda>step. case it_curr it of
                    None \<Rightarrow> Some (False, it)
                  | Some a \<Rightarrow>
                      (case step_node step a (rl_tree (timeline st)) of
                         None \<Rightarrow> Some (False, it\<lparr>it_curr := None\<rparr>)
                       | Some b \<Rightarrow> at (Some b)))
      in case cmd of
           CMD_RESET \<Rightarrow> at (it_start it)
         | CMD_EVENT1 \<Rightarrow> at (it_event1 it)
         | CMD_EVENT2 \<Rightarrow> at (it_event2 it)
         | CMD_PREV \<Rightarrow> move rb_prev
         | CMD_NEXT \<Rightarrow> move rb_next)"

section \<open>Which events to print\<close>

text \<open>A test may find that the event is to be printed, and leaves notes in the iterator.\<close>

type_synonym test = "event_iter \<Rightarrow> (bool \<times> event_iter) option"

definition or_else :: "test \<Rightarrow> test \<Rightarrow> test" where
  "or_else f g it =
     (case f it of None \<Rightarrow> None | Some (True, it1) \<Rightarrow> Some (True, it1) | Some (False, it1) \<Rightarrow> g it1)"

definition when_test :: "bool \<Rightarrow> test \<Rightarrow> test" where
  "when_test b f it = (if b then f it else Some (False, it))"

definition say :: "string \<Rightarrow> (event_iter \<Rightarrow> bool) \<Rightarrow> test" where
  "say msg p it = (let it1 = it\<lparr>it_debug_msg := Some msg\<rparr> in Some (p it1, it1))"

text \<open>\<open>e\<close> is the event of the iterator, \<open>e1\<close> and \<open>e2\<close> are the pair; \<open>e2\<close> may be missing.\<close>

definition track_cpu :: "print_env \<Rightarrow> timeline_node \<Rightarrow> timeline_node \<Rightarrow> u64 \<Rightarrow> u8 list \<Rightarrow> test" where
  "track_cpu pe e e1 key raw it =
     (let track_tid = (if pe_comm pe then ucast key else hdr_tid e1) in
      if sint track_tid > 0 then
        let it1 = it\<lparr>it_debug_msg := Some ''cpu tracking''\<rparr>;
            (ret, cpu, reason) = tp_target_cpu (pe_tp pe (tn_tp e)) raw (hdr_cpu e) track_tid (it_recent_cpu it1) (it_reason it1);
            it2 = it1\<lparr>it_recent_cpu := cpu, it_reason := reason\<rparr>
        in if ret then Some (True, if cpu = - 1 then it2\<lparr>it_debug_msg := Some ''cpu tracking end''\<rparr> else it2)
           else if \<not> pe_comm pe \<and> hdr_cpu e \<noteq> cpu \<and> hdr_tid e = track_tid
           then Some (True, it2\<lparr>it_recent_cpu := hdr_cpu e\<rparr>)
           else Some (False, it2)
      else Some (False, it))"

definition same_cpu :: "print_env \<Rightarrow> bool \<Rightarrow> bool \<Rightarrow> timeline_node \<Rightarrow> timeline_node \<Rightarrow> timeline_node option \<Rightarrow> u64 \<Rightarrow> u8 list \<Rightarrow> test" where
  "same_cpu pe cmp1 cmp2 e e1 e2 key raw =
     (let t = pe_tp pe (tn_tp e) in
      or_else (when_test cmp1
        (or_else (track_cpu pe e e1 key raw)
        (or_else (say ''samecpu-track'' (\<lambda>it. hdr_cpu e = it_recent_cpu it \<or> tp_samecpu t raw (it_recent_cpu it)))
                 (when_test (\<not> pe_comm pe) (say ''samecpu-1'' (\<lambda>_. hdr_cpu e = hdr_cpu e1 \<or> tp_samecpu t raw (hdr_cpu e1)))))))
      (when_test (cmp2 \<and> \<not> pe_comm pe)
        (\<lambda>it. case e2 of
           None \<Rightarrow> None
         | Some e2 \<Rightarrow> say ''samecpu-2'' (\<lambda>_. hdr_cpu e = hdr_cpu e2 \<or> hdr_cpu e1 \<noteq> hdr_cpu e2 \<and> tp_samecpu t raw (hdr_cpu e2)) it)))"

text \<open>The same test for processes and for threads; \<open>hid\<close> reads the number of an event.\<close>

definition same_id ::
  "string \<Rightarrow> string \<Rightarrow> (timeline_node \<Rightarrow> u32) \<Rightarrow> print_env \<Rightarrow> bool \<Rightarrow> bool \<Rightarrow> timeline_node \<Rightarrow> timeline_node \<Rightarrow> timeline_node option \<Rightarrow>
   u64 \<Rightarrow> u8 list \<Rightarrow> test" where
  "same_id msg1 msg2 hid pe cmp1 cmp2 e e1 e2 key raw =
     (let t = pe_tp pe (tn_tp e); i = (if pe_comm pe then ucast key else hid e1) in
      or_else (when_test cmp1 (say msg1 (\<lambda>_. sint i > 0 \<and> (hid e = i \<or> tp_samepid t raw i))))
      (when_test cmp2
        (\<lambda>it. case e2 of
           None \<Rightarrow> None
         | Some e2 \<Rightarrow>
             when_test (sint (hid e2) > 0)
               (say msg2 (\<lambda>_. \<not> pe_comm pe \<and> (hid e = hid e2 \<or> hid e1 \<noteq> hid e2 \<and> tp_samepid t raw (hid e2)))) it)))"

text \<open>The time a task ran on a processor that is followed, which is one of three.\<close>

definition cpu_slot :: "timeline_node \<Rightarrow> timeline_node \<Rightarrow> timeline_node option \<Rightarrow> event_iter \<Rightarrow> nat option option" where
  "cpu_slot e e1 e2 it =
     (if hdr_cpu e = it_recent_cpu it then Some (Some 2)
      else if hdr_cpu e = hdr_cpu e1 then Some (Some 0)
      else case e2 of None \<Rightarrow> None | Some e2 \<Rightarrow> Some (if hdr_cpu e = hdr_cpu e2 then Some 1 else None))"

definition copy_slot :: "nat \<Rightarrow> event_iter \<Rightarrow> event_iter" where
  "copy_slot i it =
     (if it_curr_cpu it i = it_curr_cpu it 2
      then it\<lparr>it_curr_pid := (it_curr_pid it)(i := it_curr_pid it 2), it_curr_time := (it_curr_time it)(i := it_curr_time it 2)\<rparr>
      else it)"

definition note_slot :: "nat \<Rightarrow> u32 \<Rightarrow> u32 \<Rightarrow> string \<Rightarrow> event_iter \<Rightarrow> event_iter" where
  "note_slot slot cpu next_pid prev_comm it =
     (let it2 = (if it_curr_cpu it slot = cpu \<and> it_curr_time it slot \<noteq> 0 \<and> sint (it_curr_pid it slot) > 0 \<and> it_curr_pid it slot \<noteq> next_pid
                 then it\<lparr>it_running_time := it_time it - it_curr_time it slot, it_comm := Some prev_comm\<rparr> else it);
          it3 = it2\<lparr>it_curr_pid := (it_curr_pid it2)(slot := next_pid), it_curr_time := (it_curr_time it2)(slot := it_time it2)\<rparr>
      in if slot = 2 then copy_slot 1 (copy_slot 0 (it3\<lparr>it_curr_cpu := (it_curr_cpu it3)(2 := cpu)\<rparr>)) else it3)"

text \<open>The label \<open>TRUE\<close>.\<close>

definition running :: "print_env \<Rightarrow> timeline_node \<Rightarrow> timeline_node \<Rightarrow> timeline_node option \<Rightarrow> u8 list \<Rightarrow> event_iter \<Rightarrow> event_iter option" where
  "running pe e e1 e2 raw it =
     (let it0 = (if pe_verbose pe then it else it\<lparr>it_debug_msg := None\<rparr>) in
      if pe_rundelay pe \<and> pe_samecpu pe \<and> hdr_cpu e \<noteq> - 1 then
        let it1 = it0\<lparr>it_running_time := 0, it_comm := None\<rparr> in
        case tp_oncpu (pe_tp pe (tn_tp e)) raw of
          None \<Rightarrow> Some it1
        | Some (next_pid, prev_comm) \<Rightarrow>
            map_option (\<lambda>s. case s of None \<Rightarrow> it1 | Some slot \<Rightarrow> note_slot slot (hdr_cpu e) next_pid prev_comm it1) (cpu_slot e e1 e2 it1)
      else Some it0)"

text \<open>\<open>tp1\<close>, \<open>tp2\<close> and \<open>key\<close> are those of \<open>info\<close>; the event is the one at which the iterator stands.\<close>

definition event_need_to_print ::
  "print_env \<Rightarrow> multi_trace_ctx \<Rightarrow> timeline_node \<Rightarrow> timeline_node option \<Rightarrow> tpid \<Rightarrow> tpid option \<Rightarrow> u64 \<Rightarrow> test" where
  "event_need_to_print pe st e1 e2 tp1 tp2 key it =
     (case it_curr it of
        None \<Rightarrow> None
      | Some cur \<Rightarrow>
          let e = node st cur in
          if \<not> (pe_samecpu pe \<or> pe_samepid pe \<or> pe_sametid pe \<or> pe_samekey pe) then Some (True, it)
          else
            let cmp1 = event_comparable pe (Some (tn_tp e)) (Some tp1); cmp2 = event_comparable pe (Some (tn_tp e)) tp2 in
            if \<not> cmp1 \<and> \<not> cmp2 then Some (False, it)
            else
              let raw = (if hdr_rec_type e \<noteq> pe_record_dev pe then multi_trace_raw_size (ti_stack (pe_tp pe (tn_tp e))) e else tn_event e);
                  tests =
                    or_else (when_test (pe_samecpu pe \<and> hdr_cpu e \<noteq> - 1) (same_cpu pe cmp1 cmp2 e e1 e2 key raw))
                    (or_else (when_test (pe_samepid pe) (same_id ''samepid-1'' ''samepid-2'' hdr_pid pe cmp1 cmp2 e e1 e2 key raw))
                    (or_else (when_test (pe_sametid pe) (same_id ''sametid-1'' ''sametid-2'' hdr_tid pe cmp1 cmp2 e e1 e2 key raw))
                    (say ''samekey'' (\<lambda>_. pe_samekey pe \<and> ti_key (pe_tp pe (tn_tp e)) = ti_key (pe_tp pe tp1) \<and> tn_key e = key))))
              in (case tests (it\<lparr>it_reason := None\<rparr>) of
                    None \<Rightarrow> None
                  | Some (True, it1) \<Rightarrow> map_option (\<lambda>it2. (True, it2)) (running pe e e1 e2 raw it1)
                  | Some (False, it1) \<Rightarrow> Some (False, it1\<lparr>it_debug_msg := None\<rparr>)))"

section \<open>Walking\<close>

text \<open>On a timeline the next node is the next element of the order.\<close>

lemma step_next:
  assumes t: "table_ok k rl" and e: "entries rl = xs @ a # ys"
  shows "step_node rb_next a (rl_tree rl) = (case ys of [] \<Rightarrow> None | b # _ \<Rightarrow> Some b)"
proof -
  have a: "a \<in> set (entries rl)" using e by simp
  then obtain z where z: "place_of a (rl_tree rl) [] = Some z" using place_of_complete [OF a, of "[]"] by auto
  then obtain c l r gs where g: "z = (Nd c l a r, gs)" "plug (Nd c l a r) gs = rl_tree rl" using place_of_sound [OF z] by auto
  have "entries rl = (before gs @ inorder l) @ a # (inorder r @ after gs)" using g(2) by (metis append.assoc append_Cons inorder.simps(2) inorder_plug)
  moreover have "distinct (entries rl)" using t by (auto simp: table_ok_def strict_sorted_iff distinct_map)
  ultimately have ys: "ys = inorder r @ after gs" using e by (metis append_Cons_eq_iff distinct.simps(2) distinct_append not_distinct_conv_prefix)
  have "at (a # ys) (Some (Nd c l a r, gs))" using ys by (simp add: at_def)
  then have "at ys (rb_next z)" unfolding g(1) by (rule next_at)
  then show ?thesis using z by (cases ys) (auto simp: step_node_def at_def split: option.splits rb.splits)
qed

text \<open>Where an iterator stands.\<close>

definition pos :: "event_iter \<Rightarrow> addr option \<times> addr option \<times> addr option \<times> addr option \<times> u64" where
  "pos it = (it_start it, it_event1 it, it_event2 it, it_curr it, it_time it)"

lemma posD: "pos it = pos it' \<Longrightarrow> it_start it = it_start it' \<and> it_event1 it = it_event1 it' \<and> it_event2 it = it_event2 it' \<and>
    it_curr it = it_curr it' \<and> it_time it = it_time it'"
  by (simp add: pos_def)

lemma pos_simps [simp]:
  "pos (it\<lparr>it_recent_cpu := x\<rparr>) = pos it" "pos (it\<lparr>it_debug_msg := d\<rparr>) = pos it" "pos (it\<lparr>it_reason := d\<rparr>) = pos it"
  "pos (it\<lparr>it_curr_cpu := f\<rparr>) = pos it" "pos (it\<lparr>it_curr_pid := f\<rparr>) = pos it" "pos (it\<lparr>it_curr_time := g\<rparr>) = pos it"
  "pos (it\<lparr>it_running_time := t\<rparr>) = pos it" "pos (it\<lparr>it_comm := d\<rparr>) = pos it"
  by (simp_all add: pos_def)

text \<open>A test that answers leaves the iterator where it is.\<close>

definition stays :: "test \<Rightarrow> bool" where
  "stays f \<longleftrightarrow> (\<forall>it. \<exists>b it1. f it = Some (b, it1) \<and> pos it1 = pos it)"

lemma staysD: "stays f \<Longrightarrow> \<exists>b it1. f it = Some (b, it1) \<and> pos it1 = pos it"
  by (simp add: stays_def)

lemma stays_or_else [intro]: "stays f \<Longrightarrow> stays g \<Longrightarrow> stays (or_else f g)"
  unfolding stays_def or_else_def
proof
  fix it
  assume f: "\<forall>it. \<exists>b it1. f it = Some (b, it1) \<and> pos it1 = pos it" and g: "\<forall>it. \<exists>b it1. g it = Some (b, it1) \<and> pos it1 = pos it"
  obtain b it1 where 1: "f it = Some (b, it1)" "pos it1 = pos it" using f by blast
  obtain c it2 where 2: "g it1 = Some (c, it2)" "pos it2 = pos it1" using g by blast
  show "\<exists>b it1. (case f it of None \<Rightarrow> None | Some (True, it1) \<Rightarrow> Some (True, it1) | Some (False, it1) \<Rightarrow> g it1) = Some (b, it1) \<and> pos it1 = pos it"
    using 1 2 by (cases b) auto
qed

lemma stays_when [intro]: "(b \<Longrightarrow> stays f) \<Longrightarrow> stays (when_test b f)"
  by (auto simp: stays_def when_test_def)

lemma stays_say [intro]: "stays (say msg p)"
  by (auto simp: stays_def say_def Let_def)

lemma stays_track: "stays (track_cpu pe e e1 key raw)"
  unfolding stays_def
proof
  fix it
  show "\<exists>b it1. track_cpu pe e e1 key raw it = Some (b, it1) \<and> pos it1 = pos it"
    by (cases "tp_target_cpu (pe_tp pe (tn_tp e)) raw (hdr_cpu e) (if pe_comm pe then ucast key else hdr_tid e1) (it_recent_cpu it) (it_reason it)")
      (auto simp: track_cpu_def Let_def)
qed

lemma stays_same_cpu: "stays (same_cpu pe cmp1 cmp2 e e1 (Some e2) key raw)"
  unfolding same_cpu_def Let_def by (auto intro!: stays_or_else stays_when stays_say stays_track)

lemma stays_same_id: "stays (same_id m1 m2 hid pe cmp1 cmp2 e e1 (Some e2) key raw)"
  unfolding same_id_def Let_def by (auto intro!: stays_or_else stays_when stays_say)

lemma pos_copy_slot [simp]: "pos (copy_slot i it) = pos it"
  by (simp add: copy_slot_def)

lemma pos_note_slot [simp]: "pos (note_slot slot cpu pid comm it) = pos it"
  by (simp add: note_slot_def Let_def)

lemma cpu_slot_some: "\<exists>s. cpu_slot e e1 (Some e2) it = Some s"
  by (simp add: cpu_slot_def)

lemma running_some: "\<exists>it1. running pe e e1 (Some e2) raw it = Some it1 \<and> pos it1 = pos it"
proof -
  define it0 where "it0 = (if pe_verbose pe then it else it\<lparr>it_debug_msg := None\<rparr>)"
  define it1 where "it1 = it0\<lparr>it_running_time := 0, it_comm := None\<rparr>"
  have p: "pos it0 = pos it" "pos it1 = pos it" by (simp_all add: it0_def it1_def)
  obtain s where s: "cpu_slot e e1 (Some e2) it1 = Some s" using cpu_slot_some by blast
  have "pos (case s of None \<Rightarrow> it1 | Some slot \<Rightarrow> note_slot slot c n m it1) = pos it" for c n m using p by (cases s) simp_all
  then show ?thesis
    unfolding running_def Let_def it0_def [symmetric] it1_def [symmetric] s using p
    by (cases "tp_oncpu (pe_tp pe (tn_tp e)) raw") (auto split: if_split)
qed

text \<open>With both events of the pair there, the question is always answered.\<close>

lemma need_answers:
  assumes "it_curr it = Some a"
  shows "\<exists>b it1. event_need_to_print pe st e1 (Some e2) tp1 tp2 key it = Some (b, it1) \<and> pos it1 = pos it"
proof -
  let ?e = "node st a"
  let ?c1 = "event_comparable pe (Some (tn_tp ?e)) (Some tp1)" and ?c2 = "event_comparable pe (Some (tn_tp ?e)) tp2"
  let ?raw = "if hdr_rec_type ?e \<noteq> pe_record_dev pe then multi_trace_raw_size (ti_stack (pe_tp pe (tn_tp ?e))) ?e else tn_event ?e"
  let ?t = "or_else (when_test (pe_samecpu pe \<and> hdr_cpu ?e \<noteq> - 1) (same_cpu pe ?c1 ?c2 ?e e1 (Some e2) key ?raw))
    (or_else (when_test (pe_samepid pe) (same_id ''samepid-1'' ''samepid-2'' hdr_pid pe ?c1 ?c2 ?e e1 (Some e2) key ?raw))
    (or_else (when_test (pe_sametid pe) (same_id ''sametid-1'' ''sametid-2'' hdr_tid pe ?c1 ?c2 ?e e1 (Some e2) key ?raw))
    (say ''samekey'' (\<lambda>_. pe_samekey pe \<and> ti_key (pe_tp pe (tn_tp ?e)) = ti_key (pe_tp pe tp1) \<and> tn_key ?e = key))))"
  have "stays ?t" by (intro stays_or_else stays_when stays_say stays_same_cpu stays_same_id)
  then obtain b it1 where t: "?t (it\<lparr>it_reason := None\<rparr>) = Some (b, it1)" "pos it1 = pos it" using staysD [of ?t "it\<lparr>it_reason := None\<rparr>"] by auto
  obtain it2 where "running pe ?e e1 (Some e2) ?raw it1 = Some it2" "pos it2 = pos it1" using running_some by blast
  then show ?thesis using assms t by (cases b) (auto simp: event_need_to_print_def Let_def)
qed

text \<open>Without a filter every event is printed.\<close>

definition filtered :: "print_env \<Rightarrow> bool" where
  "filtered pe \<longleftrightarrow> pe_samecpu pe \<or> pe_samepid pe \<or> pe_sametid pe \<or> pe_samekey pe"

lemma need_all:
  "\<not> filtered pe \<Longrightarrow> it_curr it = Some a \<Longrightarrow>
   event_need_to_print pe st e1 e2 tp1 tp2 key it = Some (True, it)"
  by (simp add: event_need_to_print_def filtered_def)

end
