(* ===== verification/Tp_Matcher.thy ===== *)
theory Tp_Matcher
  imports Event_Iter
begin

text \<open>
  What the scheduler's tracepoints know of their own data, \<open>src/tep.c\<close>: whether an event concerns
  a task or a processor, where a task may go on, and what runs next. The data are the
  structures of \<open>src/tp_struct.h\<close>, read at their offsets.
\<close>

section \<open>The callbacks\<close>

text \<open>\<open>TP_RAW_SIZE\<close>: with the length of four bytes before it the data is aligned to eight bytes.\<close>

definition tp_raw_size :: "nat \<Rightarrow> nat" where
  "tp_raw_size n = (n + 4 + 7) div 8 * 8 - 4"

definition sched_wakeup_samecpu :: "u8 list \<Rightarrow> u32 \<Rightarrow> bool" where
  "sched_wakeup_samecpu raw cpu =
     (if length raw = tp_raw_size 40 then u32_at raw 36 = cpu
      else if length raw = tp_raw_size 36 then u32_at raw 32 = cpu
      else False)"

definition sched_wakeup_samepid :: "u8 list \<Rightarrow> u32 \<Rightarrow> bool" where
  "sched_wakeup_samepid raw pid = (pid = u32_at raw 24)"

definition sched_wakeup_target_cpu :: "u8 list \<Rightarrow> u32 \<Rightarrow> u32 \<Rightarrow> u32 \<Rightarrow> string option \<Rightarrow> bool \<times> u32 \<times> string option" where
  "sched_wakeup_target_cpu raw cpu pid target reason =
     (if pid = u32_at raw 24 then
        if length raw = tp_raw_size 40 then (True, u32_at raw 36, Some ''[wakeup]'')
        else if length raw = tp_raw_size 36 then (True, u32_at raw 32, Some ''[wakeup]'')
        else (False, target, reason)
      else (False, target, reason))"

definition sched_switch_samepid :: "u8 list \<Rightarrow> u32 \<Rightarrow> bool" where
  "sched_switch_samepid raw pid = (pid = u32_at raw 24 \<or> pid = u32_at raw 56)"

text \<open>\<open>new_kernel\<close>: release 4.14 or later.\<close>

definition preempt_state :: "bool \<Rightarrow> u64" where
  "preempt_state new_kernel = (if new_kernel then 0x100 else 1024)"

definition sched_switch_target_cpu :: "bool \<Rightarrow> u8 list \<Rightarrow> u32 \<Rightarrow> u32 \<Rightarrow> u32 \<Rightarrow> string option \<Rightarrow> bool \<times> u32 \<times> string option" where
  "sched_switch_target_cpu new_kernel raw cpu pid target reason =
     (if pid = u32_at raw 56 then (True, cpu, Some ''[running]'')
      else if pid = u32_at raw 24 then
        if u64_at raw 32 = 0 \<or> u64_at raw 32 = preempt_state new_kernel then (True, cpu, Some ''[preempt]'')
        else (True, - 1, Some (if u64_at raw 32 = 1 then ''[sleeping]'' else ''[waiting]''))
      else (False, target, reason))"

text \<open>A name ends at its first zero byte.\<close>

definition str_at :: "u8 list \<Rightarrow> nat \<Rightarrow> string" where
  "str_at raw i = map (\<lambda>b. char_of (unat b)) (takeWhile (\<lambda>b. b \<noteq> 0) (drop i raw))"

definition sched_switch_oncpu :: "u8 list \<Rightarrow> (u32 \<times> string) option" where
  "sched_switch_oncpu raw = Some (u32_at raw 56, str_at raw 8)"

definition sched_migrate_task_samecpu :: "u8 list \<Rightarrow> u32 \<Rightarrow> bool" where
  "sched_migrate_task_samecpu raw cpu = (cpu = u32_at raw 32 \<or> cpu = u32_at raw 36)"

definition sched_migrate_task_samepid :: "u8 list \<Rightarrow> u32 \<Rightarrow> bool" where
  "sched_migrate_task_samepid raw pid = (pid = u32_at raw 24)"

definition sched_migrate_task_target_cpu :: "u8 list \<Rightarrow> u32 \<Rightarrow> u32 \<Rightarrow> u32 \<Rightarrow> string option \<Rightarrow> bool \<times> u32 \<times> string option" where
  "sched_migrate_task_target_cpu raw cpu pid target reason =
     (if pid = u32_at raw 24 then (True, u32_at raw 36, Some ''[migrate]'') else (False, target, reason))"

definition sched_stat_runtime_samepid :: "u8 list \<Rightarrow> u32 \<Rightarrow> bool" where
  "sched_stat_runtime_samepid raw pid = (pid = u32_at raw 24)"

definition sched_process_free_samepid :: "u8 list \<Rightarrow> u32 \<Rightarrow> bool" where
  "sched_process_free_samepid raw pid = (pid = u32_at raw 24)"

definition sched_process_fork_samepid :: "u8 list \<Rightarrow> u32 \<Rightarrow> bool" where
  "sched_process_fork_samepid raw pid = (pid = u32_at raw 24 \<or> pid = u32_at raw 44)"

definition sched_process_exec_samepid :: "u8 list \<Rightarrow> u32 \<Rightarrow> bool" where
  "sched_process_exec_samepid raw pid = (pid = u32_at raw 12)"

section \<open>The list of callbacks\<close>

type_synonym named_matcher = "string option \<times> string \<times> tp_matcher"

text \<open>The calls \<open>TP_MATCHER_REGISTER\<close> of this file, added at the end of the list.\<close>

definition tp_matcher_register :: "named_matcher \<Rightarrow> named_matcher list \<Rightarrow> named_matcher list" where
  "tp_matcher_register m ms = ms @ [m]"

definition sched_matcher :: "bool \<Rightarrow> string \<Rightarrow> tp_matcher option" where
  "sched_matcher new_kernel name =
     (let pidonly = (\<lambda>f. Some \<lparr>ma_samecpu = None, ma_samepid = Some f, ma_target_cpu = None, ma_oncpu = None\<rparr>) in
      if name \<in> {''sched_wakeup'', ''sched_waking'', ''sched_wakeup_new''} then
        Some \<lparr>ma_samecpu = Some sched_wakeup_samecpu, ma_samepid = Some sched_wakeup_samepid, ma_target_cpu = Some sched_wakeup_target_cpu,
              ma_oncpu = None\<rparr>
      else if name = ''sched_switch'' then
        Some \<lparr>ma_samecpu = None, ma_samepid = Some sched_switch_samepid, ma_target_cpu = Some (sched_switch_target_cpu new_kernel),
              ma_oncpu = Some sched_switch_oncpu\<rparr>
      else if name = ''sched_migrate_task'' then
        Some \<lparr>ma_samecpu = Some sched_migrate_task_samecpu, ma_samepid = Some sched_migrate_task_samepid,
              ma_target_cpu = Some sched_migrate_task_target_cpu, ma_oncpu = None\<rparr>
      else if name = ''sched_stat_runtime'' then pidonly sched_stat_runtime_samepid
      else if name \<in> {''sched_process_free'', ''sched_process_exit''} then pidonly sched_process_free_samepid
      else if name = ''sched_process_fork'' then pidonly sched_process_fork_samepid
      else if name = ''sched_process_exec'' then pidonly sched_process_exec_samepid
      else None)"

definition sched_names :: "string list" where
  "sched_names = [''sched_wakeup'', ''sched_waking'', ''sched_wakeup_new'', ''sched_switch'', ''sched_migrate_task'', ''sched_stat_runtime'',
     ''sched_process_free'', ''sched_process_exit'', ''sched_process_fork'', ''sched_process_exec'']"

definition sched_matchers :: "bool \<Rightarrow> named_matcher list" where
  "sched_matchers new_kernel =
     fold (\<lambda>n. tp_matcher_register (Some ''sched'', n, the (sched_matcher new_kernel n))) sched_names []"

text \<open>\<open>dflt\<close> is the search by the fields \<open>cpu\<close> and \<open>pid\<close> that ends \<open>tp_matcher_find\<close>; null system names are equal.\<close>

definition tp_matcher_find :: "named_matcher list \<Rightarrow> tp_matcher option \<Rightarrow> string option \<Rightarrow> string option \<Rightarrow> tp_matcher option" where
  "tp_matcher_find ms dflt sys name =
     (case name of
        None \<Rightarrow> None
      | Some nm \<Rightarrow>
          (case List.find (\<lambda>(s, n, _). s = sys \<and> n = nm) ms of
             Some (_, _, m) \<Rightarrow> Some m
           | None \<Rightarrow> dflt))"

lemma find_sched:
  assumes "nm \<in> set sched_names"
  shows "tp_matcher_find (sched_matchers nk) dflt (Some ''sched'') (Some nm) = sched_matcher nk nm"
  using assms unfolding tp_matcher_find_def sched_matchers_def tp_matcher_register_def
  by (auto simp: sched_names_def sched_matcher_def Let_def)


section \<open>Following a task\<close>

text \<open>What the scheduler reports; the kernel lays it out as the structures say, behind 24 bytes of header and name.\<close>

datatype sched_event =
    Wakeup u32 u32 bool
  | Switch u32 u32 u64
  | Migrate u32 u32 u32

definition word_bytes :: "u32 \<Rightarrow> u8 list" where
  "word_bytes w = le_bytes 4 (unat w)"

definition sched_bytes :: "u8 list \<Rightarrow> sched_event \<Rightarrow> u8 list" where
  "sched_bytes h ev =
     (let h24 = take 24 (h @ replicate 24 0); z = word_bytes 0 in
      case ev of
        Wakeup pid target success \<Rightarrow>
          concat ([h24, word_bytes pid, z] @ (if success then [word_bytes 1, word_bytes target, z] else [word_bytes target]))
      | Switch prev nxt state \<Rightarrow>
          concat [h24, word_bytes prev, z, le_bytes 8 (unat state), take 16 (drop 8 h24), word_bytes nxt, z, z]
      | Migrate pid orig dest \<Rightarrow> concat [h24, word_bytes pid, z, word_bytes orig, word_bytes dest, z])"

fun sched_name :: "sched_event \<Rightarrow> string" where
  "sched_name (Wakeup _ _ _) = ''sched_wakeup''"
| "sched_name (Switch _ _ _) = ''sched_switch''"
| "sched_name (Migrate _ _ _) = ''sched_migrate_task''"

text \<open>Where the task is after an event on processor \<open>cpu\<close>: on a processor, or, sleeping, nowhere.\<close>

fun moved :: "bool \<Rightarrow> u32 \<Rightarrow> sched_event \<Rightarrow> u32 \<Rightarrow> u32 option \<Rightarrow> u32 option" where
  "moved nk pid (Wakeup p target _) cpu w = (if p = pid then Some target else w)"
| "moved nk pid (Migrate p orig dest) cpu w = (if p = pid then Some dest else w)"
| "moved nk pid (Switch prev nxt state) cpu w =
     (if nxt = pid then Some cpu
      else if prev = pid then (if state = 0 \<or> state = preempt_state nk then Some cpu else None) else w)"

definition cpu_of :: "u32 option \<Rightarrow> u32" where
  "cpu_of w = (case w of Some c \<Rightarrow> c | None \<Rightarrow> - 1)"

text \<open>The calls of \<open>tp_target_cpu\<close> for events with their processors, with the callbacks that are found by name.\<close>

fun follow :: "tp_info \<Rightarrow> bool \<Rightarrow> u32 \<Rightarrow> (u8 list \<times> sched_event \<times> u32) list \<Rightarrow> u32 \<times> string option \<Rightarrow> u32 \<times> string option" where
  "follow t nk pid [] s = s"
| "follow t nk pid ((h, ev, cpu) # es) (target, reason) =
     follow t nk pid es
       (snd (tp_target_cpu (t\<lparr>ti_matcher := tp_matcher_find (sched_matchers nk) None (Some ''sched'') (Some (sched_name ev))\<rparr>)
               (sched_bytes h ev) cpu pid target reason))"

lemma read_word: "u32_at (xs @ word_bytes w @ ys) (length xs) = w"
proof -
  have "unat w < 2 ^ 32" using unsigned_less [of w, where 'a = nat] by simp
  then show ?thesis by (simp add: u32_at_def word_bytes_def le_nat_le_bytes)
qed

lemma read_at: "length xs = i \<Longrightarrow> u32_at (xs @ word_bytes w @ ys) i = w"
  using read_word by blast

lemma word_bytes_length [simp]: "length (word_bytes w) = 4"
  by (simp add: word_bytes_def)

lemma sched_fields:
  "u32_at (sched_bytes h (Wakeup pid target success)) 24 = pid"
  "length (sched_bytes h (Wakeup pid target success)) = (if success then 44 else 36)"
  "u32_at (sched_bytes h (Wakeup pid target True)) 36 = target"
  "u32_at (sched_bytes h (Wakeup pid target False)) 32 = target"
  "u32_at (sched_bytes h (Switch prev nxt state)) 24 = prev"
  "u32_at (sched_bytes h (Switch prev nxt state)) 56 = nxt"
  "u64_at (sched_bytes h (Switch prev nxt state)) 32 = state"
  "u32_at (sched_bytes h (Migrate pid orig dest)) 24 = pid"
  "u32_at (sched_bytes h (Migrate pid orig dest)) 36 = dest"
proof -
  define k where "k = take 24 (h @ replicate 24 0)"
  have l: "length k = 24" "length (take 16 (drop 8 k)) = 16" by (simp_all add: k_def)
  note d = sched_bytes_def [of h, folded k_def] Let_def
  show "u32_at (sched_bytes h (Wakeup pid target success)) 24 = pid" using read_at [OF l(1)] by (simp add: d)
  show "length (sched_bytes h (Wakeup pid target success)) = (if success then 44 else 36)" using l by (simp add: d)
  show "u32_at (sched_bytes h (Wakeup pid target True)) 36 = target"
    using read_at [of "k @ word_bytes pid @ word_bytes 0 @ word_bytes 1" 36 target] l by (simp add: d)
  show "u32_at (sched_bytes h (Wakeup pid target False)) 32 = target"
    using read_at [of "k @ word_bytes pid @ word_bytes 0" 32 target "[]"] l by (simp add: d)
  show "u32_at (sched_bytes h (Switch prev nxt state)) 24 = prev" using read_at [OF l(1)] by (simp add: d)
  show "u32_at (sched_bytes h (Switch prev nxt state)) 56 = nxt"
    using read_at [of "k @ word_bytes prev @ word_bytes 0 @ le_bytes 8 (unat state) @ take 16 (drop 8 k)" 56 nxt] l by (simp add: d)
  have "unat state < 2 ^ 64" using unsigned_less [of state, where 'a = nat] by simp
  then show "u64_at (sched_bytes h (Switch prev nxt state)) 32 = state" using l by (simp add: d u64_at_def le_nat_le_bytes)
  show "u32_at (sched_bytes h (Migrate pid orig dest)) 24 = pid" using read_at [OF l(1)] by (simp add: d)
  show "u32_at (sched_bytes h (Migrate pid orig dest)) 36 = dest"
    using read_at [of "k @ word_bytes pid @ word_bytes 0 @ word_bytes orig" 36 dest] l by (simp add: d)
qed

text \<open>
  C22. Following a task through scheduling events: from the bytes of wakeups (of both layouts),
  switches and migrations, the callbacks found by the names of the events give the processor
  on which the task runs or waits to run, and -1 while it sleeps.
\<close>

theorem follow_task:
  "fst (follow t nk pid es (cpu_of w, reason)) = cpu_of (fold (\<lambda>(h, ev, cpu). moved nk pid ev cpu) es w)"
proof (induction es arbitrary: w reason)
  case (Cons x es)
  obtain h ev cpu where x: "x = (h, ev, cpu)" by (metis prod.exhaust)
  have r: "tp_raw_size 40 = 44" "tp_raw_size 36 = 36" by (simp_all add: tp_raw_size_def)
  define t1 where "t1 = t\<lparr>ti_matcher := tp_matcher_find (sched_matchers nk) None (Some ''sched'') (Some (sched_name ev))\<rparr>"
  note d = t1_def find_sched sched_names_def sched_matcher_def tp_target_cpu_def cpu_of_def
  have "fst (snd (tp_target_cpu t1 (sched_bytes h ev) cpu pid (cpu_of w) reason)) = cpu_of (moved nk pid ev cpu w)"
  proof (cases ev)
    case (Wakeup p target success)
    then show ?thesis by (cases success) (auto simp: d sched_wakeup_target_cpu_def r sched_fields)
  next
    case (Switch prev nxt state)
    then show ?thesis by (auto simp: d sched_switch_target_cpu_def sched_fields)
  next
    case (Migrate p orig dest)
    then show ?thesis by (auto simp: d sched_migrate_task_target_cpu_def sched_fields)
  qed
  then obtain r1 where "snd (tp_target_cpu t1 (sched_bytes h ev) cpu pid (cpu_of w) reason) = (cpu_of (moved nk pid ev cpu w), r1)"
    by (metis prod.collapse)
  then show ?case using Cons.IH unfolding x follow.simps t1_def [symmetric] by simp
qed simp

text \<open>
  C23. An event that was never paired is shown with the events after it, and then there is no
  second event. When the scheduling delay is analysed with \<open>--samecpu\<close> and \<open>--samepid\<close>, a switch by
  another thread of the process on a processor that is neither the first event's nor the one
  that is followed makes \<open>event_need_to_print\<close> follow the null pointer.
\<close>

theorem need_remaining_null:
  assumes c: "it_curr it = Some a" "e = node st a" and pe: "pe_samecpu pe" "pe_samepid pe" "pe_comm pe" "pe_rundelay pe"
    and host: "ti_kernel (pe_tp pe (tn_tp e))" "ti_kernel (pe_tp pe tp1)" "ti_matcher (pe_tp pe (tn_tp e)) = sched_matcher nk ''sched_switch''"
    and raw: "raw = (if hdr_rec_type e \<noteq> pe_record_dev pe then multi_trace_raw_size (ti_stack (pe_tp pe (tn_tp e))) e else tn_event e)"
    and pid: "sint (ucast key :: u32) > 0" "hdr_pid e = ucast key" "\<not> sched_switch_samepid raw (ucast key)"
    and cpu: "hdr_cpu e \<notin> {- 1, it_recent_cpu it, hdr_cpu e1}"
  shows "event_need_to_print pe st e1 None tp1 None key it = None"
proof -
  let ?t = "pe_tp pe (tn_tp e)"
  have m: "tp_target_cpu ?t raw (hdr_cpu e) (ucast key) x r = (False, x, r)" "\<not> tp_samecpu ?t raw x" "tp_oncpu ?t raw = sched_switch_oncpu raw" for x r
    using host(3) pid(3) by (simp_all add: sched_matcher_def tp_target_cpu_def tp_samecpu_def tp_oncpu_def sched_switch_target_cpu_def sched_switch_samepid_def)
  have h: "event_comparable pe (Some (tn_tp e)) (Some tp1)" "\<not> event_comparable pe (Some (tn_tp e)) None" using host(1,2) by (simp_all add: event_comparable_def)
  define it0 where "it0 = it\<lparr>it_reason := None\<rparr>"
  define it1 where "it1 = it0\<lparr>it_debug_msg := Some ''cpu tracking'', it_reason := None, it_debug_msg := Some ''samecpu-track''\<rparr>"
  have r0: "it_recent_cpu it0 = it_recent_cpu it" "it_recent_cpu it1 = it_recent_cpu it" by (simp_all add: it0_def it1_def)
  have "track_cpu pe e e1 key raw it0 = Some (False, it0\<lparr>it_debug_msg := Some ''cpu tracking'', it_reason := None\<rparr>)"
    using pid(1) pe by (simp add: track_cpu_def m it0_def Let_def)
  then have 1: "same_cpu pe True False e e1 None key raw it0 = Some (False, it1)"
    using pe cpu m(2) r0(1) by (simp add: same_cpu_def or_else_def when_test_def say_def it1_def Let_def)
  have 2: "same_id ''samepid-1'' ''samepid-2'' hdr_pid pe True False e e1 None key raw it1 = Some (True, it1\<lparr>it_debug_msg := Some ''samepid-1''\<rparr>)"
    using pe pid by (simp add: same_id_def or_else_def when_test_def say_def Let_def)
  have 3: "running pe e e1 None raw (it1\<lparr>it_debug_msg := Some ''samepid-1''\<rparr>) = None"
    using pe cpu r0(2) by (simp add: running_def m sched_switch_oncpu_def cpu_slot_def Let_def)
  have "or_else (when_test (pe_samecpu pe \<and> hdr_cpu e \<noteq> - 1) (same_cpu pe True False e e1 None key raw))
      (or_else (when_test (pe_samepid pe) (same_id ''samepid-1'' ''samepid-2'' hdr_pid pe True False e e1 None key raw)) g) it0 =
      Some (True, it1\<lparr>it_debug_msg := Some ''samepid-1''\<rparr>)" for g
    using pe cpu 1 2 by (simp add: or_else_def when_test_def)
  then show ?thesis
    unfolding event_need_to_print_def c(1) option.case Let_def c(2) [symmetric] raw [symmetric] it0_def [symmetric]
    using h pe 3 by simp
qed

definition demo_switch :: timeline_node where
  "demo_switch = \<lparr>tn_time = 5, tn_key = 0, tn_tp = (0, 0), tn_tp1 = None, tn_unneeded = False, tn_need_find_prev = False, tn_need_backup = False,
     tn_need_remove = False, tn_maybe_unpaired = False, tn_ins = 0, tn_seq = 0,
     tn_event = concat [word_bytes 9, word_bytes 0, word_bytes 7, word_bytes 8, replicate 16 0, word_bytes 3, replicate 12 0, word_bytes 68,
       sched_bytes [] (Switch 8 0 1)]\<rparr>"

text \<open>Process 7 has the thread 8, which leaves processor 3 while thread 7 waits for another one.\<close>

theorem need_remaining_null_witness:
  "\<exists>st it pe e1. pe_rundelay pe \<and> it_curr it = Some 1 \<and> node st 1 = demo_switch \<and> event_need_to_print pe st e1 None (0, 0) None 7 it = None"
proof -
  define pe where "pe = \<lparr>pe_samecpu = True, pe_samepid = True, pe_sametid = False, pe_samekey = False, pe_verbose = False, pe_comm = True,
     pe_rundelay = True, pe_record_dev = 1, pe_tp = (\<lambda>_. \<lparr>ti_kernel = True, ti_vcpu = False, ti_stack = False, ti_key = False,
       ti_matcher = sched_matcher True ''sched_switch''\<rparr>)\<rparr>"
  define st where "st = multi_trace_init\<lparr>heap := [1 \<mapsto> demo_switch]\<rparr>"
  define e1 where "e1 = demo_switch\<lparr>tn_event := replicate 32 0 @ word_bytes 0\<rparr>"
  fix it0 :: event_iter
  define it where "it = it0\<lparr>it_curr := Some 1, it_recent_cpu := 2\<rparr>"
  define sw where "sw = sched_bytes [] (Switch 8 0 1)"
  have ev: "tn_event demo_switch = concat [word_bytes 9, word_bytes 0, word_bytes 7, word_bytes 8, replicate 16 0, word_bytes 3, replicate 12 0, word_bytes 68, sw]"
    by (simp add: demo_switch_def sw_def)
  have l: "length sw = 68" by (simp add: sw_def sched_bytes_def Let_def)
  have h: "hdr_rec_type demo_switch = 9" "hdr_pid demo_switch = 7" "hdr_cpu demo_switch = 3" "u32_at (tn_event demo_switch) 48 = 68"
    using read_at [of "[]" 0 9] read_at [of "word_bytes 9 @ word_bytes 0" 8 7]
      read_at [of "concat [word_bytes 9, word_bytes 0, word_bytes 7, word_bytes 8, replicate 16 0]" 32 3]
      read_at [of "concat [word_bytes 9, word_bytes 0, word_bytes 7, word_bytes 8, replicate 16 0, word_bytes 3, replicate 12 0]" 48 68 sw]
    by (simp_all add: hdr_rec_type_def hdr_pid_def hdr_cpu_def ev)
  have h1: "hdr_cpu e1 = 0" using read_at [of "replicate 32 0" 32 0 "[]"] by (simp add: hdr_cpu_def e1_def)
  have "multi_trace_raw_size False demo_switch = sw" using l h(4) by (simp add: multi_trace_raw_size_def ev)
  then have "\<not> sched_switch_samepid (multi_trace_raw_size False demo_switch) 7" by (simp add: sched_switch_samepid_def sw_def sched_fields)
  then have "event_need_to_print pe st e1 None (0, 0) None 7 it = None"
    using need_remaining_null [of it 1 demo_switch st pe "(0, 0)" True "multi_trace_raw_size False demo_switch" 7 e1] h h1
    by (simp add: pe_def st_def it_def)
  then show ?thesis by (intro exI [of _ st] exI [of _ it] exI [of _ pe] exI [of _ e1]) (simp add: pe_def it_def st_def)
qed

end
