(* ===== verification/Two_Event.thy ===== *)
theory Two_Event
  imports Multi_Pairs
begin

text \<open>
  The objects of \<open>src/two-event.c\<close>: one for every pair of tracepoints that is analysed. A class
  keeps its objects in two tables, one ordered by the two tracepoints and one by a number that
  the object gets when it is made.

  Tracepoints are their addresses, and 0 is the null pointer that stands for no second one.
  Objects are addresses into the heap of the class; \<open>te_obj\<close> is what the analyses add to them.
\<close>

record 'o two_event =
  te_tp1 :: nat
  te_tp2 :: nat
  te_id :: u32
  te_deleting :: bool
  te_obj :: 'o

record 'o two_event_class =
  cl_heap :: "nat \<Rightarrow> 'o two_event option"
  cl_fresh :: nat
  two_events :: "nat rblist"
  two_events_byid :: "nat rblist"
  cl_ids :: u32

abbreviation obj :: "'o two_event_class \<Rightarrow> nat \<Rightarrow> 'o two_event" where
  "obj c a \<equiv> the (cl_heap c a)"

definition two_event_node_cmp :: "'o two_event \<Rightarrow> nat \<times> nat \<Rightarrow> int" where
  "two_event_node_cmp two e =
     (if te_tp1 two > fst e then 1 else if te_tp1 two < fst e then - 1
      else if te_tp2 two > snd e then 1 else if te_tp2 two < snd e then - 1 else 0)"

definition two_event_node_cmp_byid :: "'o two_event \<Rightarrow> u32 \<Rightarrow> int" where
  "two_event_node_cmp_byid two i = (if te_id two > i then 1 else if te_id two < i then - 1 else 0)"

text \<open>
  \<open>two_event_node_new\<close> for the address \<open>a\<close>; \<open>z\<close> is the added part cleared by \<open>memset\<close>. In the
  table by number \<open>two_event_node_new_byid\<close> returns the object itself.
\<close>

definition two_event_node_new :: "'o \<Rightarrow> nat \<Rightarrow> nat \<times> nat \<Rightarrow> 'o two_event_class \<Rightarrow> 'o two_event_class option" where
  "two_event_node_new z a e c =
     (let two = \<lparr>te_tp1 = fst e, te_tp2 = snd e, te_id = cl_ids c, te_deleting = False, te_obj = z\<rparr>;
          c1 = c\<lparr>cl_heap := (cl_heap c)(a \<mapsto> two), cl_fresh := cl_fresh c + 1, cl_ids := cl_ids c + 1\<rparr>
      in map_option (\<lambda>(_, rl). c1\<lparr>two_events_byid := rl\<rparr>)
           (rblist__findnew (\<lambda>b. two_event_node_cmp_byid (obj c1 b)) (Some a) (te_id two) True (two_events_byid c1)))"

text \<open>The result is the address of the object, None without memory.\<close>

definition two_event_new :: "bool \<Rightarrow> 'o \<Rightarrow> nat \<Rightarrow> nat \<Rightarrow> 'o two_event_class \<Rightarrow> (nat option \<times> 'o two_event_class) option" where
  "two_event_new mem z tp1 tp2 c =
     (case rblist__findnew (\<lambda>b. two_event_node_cmp (obj c b)) (if mem then Some (cl_fresh c) else None) (tp1, tp2) True (two_events c) of
        None \<Rightarrow> None
      | Some (r, rl) \<Rightarrow>
          if rl_nr_entries rl = rl_nr_entries (two_events c) then Some (r, c\<lparr>two_events := rl\<rparr>)
          else map_option (\<lambda>c1. (r, c1\<lparr>two_events := rl\<rparr>)) (two_event_node_new z (cl_fresh c) (tp1, tp2) c))"

definition two_event_find :: "'o two_event_class \<Rightarrow> nat \<Rightarrow> nat \<Rightarrow> nat option" where
  "two_event_find c tp1 tp2 = rblist__find (\<lambda>b. two_event_node_cmp (obj c b)) (tp1, tp2) (two_events c)"

definition two_event_find_byid :: "'o two_event_class \<Rightarrow> u32 \<Rightarrow> nat option" where
  "two_event_find_byid c i = rblist__find (\<lambda>b. two_event_node_cmp_byid (obj c b)) i (two_events_byid c)"

definition set_deleting :: "nat \<Rightarrow> 'o two_event_class \<Rightarrow> 'o two_event_class" where
  "set_deleting a c = c\<lparr>cl_heap := (cl_heap c)(a := map_option (\<lambda>t. t\<lparr>te_deleting := True\<rparr>) (cl_heap c a))\<rparr>"

text \<open>
  \<open>object_delete\<close> is the analysis' own deletion; with \<open>deleting\<close> set, the \<open>two_event_delete\<close> at its
  end does nothing.
\<close>

definition two_event_node_delete ::
  "(nat \<Rightarrow> 'o two_event_class \<Rightarrow> 'o two_event_class) \<Rightarrow> nat \<Rightarrow> 'o two_event_class \<Rightarrow> 'o two_event_class option" where
  "two_event_node_delete object_delete a c =
     (let c1 = (if \<not> te_deleting (obj c a) then object_delete a (set_deleting a c) else c) in
      case place_of a (rl_tree (two_events_byid c1)) [] of
        None \<Rightarrow> None
      | Some z \<Rightarrow>
          map_option (\<lambda>rl. c1\<lparr>two_events_byid := rl, cl_heap := (cl_heap c1)(a := None)\<rparr>) (rblist__remove_node z (two_events_byid c1)))"

definition two_event_delete ::
  "(nat \<Rightarrow> 'o two_event_class \<Rightarrow> 'o two_event_class) \<Rightarrow> nat option \<Rightarrow> 'o two_event_class \<Rightarrow> 'o two_event_class option" where
  "two_event_delete object_delete two c =
     (case two of
        None \<Rightarrow> Some c
      | Some a \<Rightarrow>
          if te_deleting (obj c a) then Some c
          else
            let c1 = set_deleting a c in
            case place_of a (rl_tree (two_events c1)) [] of
              None \<Rightarrow> None
            | Some z \<Rightarrow>
                (case rblist__remove_node z (two_events c1) of
                   None \<Rightarrow> None
                 | Some rl \<Rightarrow> two_event_node_delete object_delete a (c1\<lparr>two_events := rl\<rparr>)))"

definition two_event_class_new :: "'o two_event_class" where
  "two_event_class_new = \<lparr>cl_heap = (\<lambda>_. None), cl_fresh = 1, two_events = rblist__init, two_events_byid = rblist__init, cl_ids = 0\<rparr>"

fun delete_all ::
  "(nat \<Rightarrow> 'o two_event_class \<Rightarrow> 'o two_event_class) \<Rightarrow> nat list \<Rightarrow> 'o two_event_class \<Rightarrow> 'o two_event_class option" where
  "delete_all object_delete [] c = Some c"
| "delete_all object_delete (a # as) c = Option.bind (two_event_node_delete object_delete a c) (delete_all object_delete as)"

text \<open>\<open>node_delete\<close> does not look at the table that \<open>rblist__exit\<close> empties, so it may follow the loop.\<close>

definition two_event_class_delete ::
  "(nat \<Rightarrow> 'o two_event_class \<Rightarrow> 'o two_event_class) \<Rightarrow> 'o two_event_class \<Rightarrow> 'o two_event_class option" where
  "two_event_class_delete object_delete c =
     (case rblist__exit (rl_nr_entries (two_events c)) (two_events c) of
        None \<Rightarrow> None
      | Some (rl, ds) \<Rightarrow> delete_all object_delete ds (c\<lparr>two_events := rl\<rparr>))"

section \<open>Both tables hold the same objects\<close>

abbreviation pkey :: "'o two_event_class \<Rightarrow> nat \<Rightarrow> nat \<times> nat" where
  "pkey c a \<equiv> (te_tp1 (obj c a), te_tp2 (obj c a))"

abbreviation idkey :: "'o two_event_class \<Rightarrow> nat \<Rightarrow> u32" where
  "idkey c a \<equiv> te_id (obj c a)"

interpretation pair: node_order "\<lambda>a. two_event_node_cmp (obj c a)" "pkey c" "\<lambda>e. e" for c :: "'o two_event_class"
  by unfold_locales (auto simp: two_event_node_cmp_def less_prod_def less_eq_prod_def)

interpretation byid: node_order "\<lambda>a. two_event_node_cmp_byid (obj c a)" "idkey c" "\<lambda>i. i" for c :: "'o two_event_class"
  by unfold_locales (auto simp: two_event_node_cmp_byid_def)

definition class_ok :: "'o two_event_class \<Rightarrow> bool" where
  "class_ok c \<longleftrightarrow> table_ok (pkey c) (two_events c) \<and> table_ok (idkey c) (two_events_byid c) \<and>
     set (entries (two_events c)) = dom (cl_heap c) \<and> set (entries (two_events_byid c)) = dom (cl_heap c) \<and>
     (\<forall>a t. cl_heap c a = Some t \<longrightarrow> a < cl_fresh c \<and> te_id t < cl_ids c \<and> \<not> te_deleting t)"

text \<open>The class as a map from pairs of tracepoints to numbers.\<close>

definition class_map :: "'o two_event_class \<Rightarrow> nat \<times> nat \<rightharpoonup> u32" where
  "class_map c e = map_option (idkey c) (table_map (pkey c) (two_events c) e)"

lemma class_new_ok: "class_ok two_event_class_new" "class_map two_event_class_new = Map.empty"
proof -
  have e: "entries (rblist__init :: nat rblist) = []" by (simp add: rblist__init_def)
  then show "class_ok two_event_class_new" by (simp add: class_ok_def two_event_class_new_def table_init_ok)
  show "class_map two_event_class_new = Map.empty" using e by (auto simp: class_map_def table_map_def two_event_class_new_def)
qed

text \<open>A fresh address enters a table.\<close>

lemma findnew_fresh:
  assumes no: "node_order cmp' k' ek" and ok: "table_ok k rl"
    and k: "\<And>x. x \<in> set (entries rl) \<Longrightarrow> k' x = k x" and c: "\<And>x. x \<in> set (entries rl) \<Longrightarrow> cmp x e = cmp' x e"
    and a: "k' a = ek e" and none: "table_map k rl (ek e) = None"
  shows "\<exists>rl1. rblist__findnew cmp (Some a) e True rl = Some (Some a, rl1) \<and> table_ok k' rl1 \<and>
    table_map k' rl1 = (table_map k rl)(ek e \<mapsto> a) \<and> set (entries rl1) = insert a (set (entries rl)) \<and>
    rl_nr_entries rl1 = rl_nr_entries rl + 1"
proof -
  have t: "table_ok k' rl" "table_map k' rl = table_map k rl" using ok table_ok_cong [of rl k' k] table_map_cong [of rl k' k] k by auto
  obtain r rl1 where f: "rblist__findnew cmp' (Some a) e True rl = Some (r, rl1)" "table_ok k' rl1" "r = Some a"
      "table_map k' rl1 = (table_map k' rl)(ek e := Some a)" "rl_nr_entries rl1 = rl_nr_entries rl + 1"
    using node_order.findnew_spec [OF no t(1), of "Some a" e True] a none t(2) by auto
  have "ran ((table_map k' rl)(ek e \<mapsto> a)) = insert a (ran (table_map k' rl))" using none t(2) by (simp add: ran_map_upd)
  then have "set (entries rl1) = insert a (set (entries rl))" using entries_ran [OF f(2)] entries_ran [OF t(1)] f(4) by simp
  then show ?thesis using f t(2) findnew_cong [of rl cmp e cmp' "Some a" True] c by auto
qed

lemma class_okD:
  assumes "class_ok c"
  shows "table_ok (pkey c) (two_events c)" "table_ok (idkey c) (two_events_byid c)" "set (entries (two_events c)) = dom (cl_heap c)"
    "set (entries (two_events_byid c)) = dom (cl_heap c)" "cl_heap c a = Some t \<Longrightarrow> a < cl_fresh c \<and> te_id t < cl_ids c \<and> \<not> te_deleting t"
  using assms unfolding class_ok_def by blast+

lemma find_pair: "class_ok c \<Longrightarrow> two_event_find c tp1 tp2 = table_map (pkey c) (two_events c) (tp1, tp2)"
  using pair.find_spec [OF class_okD(1)] by (simp add: two_event_find_def)

lemma find_byid: "class_ok c \<Longrightarrow> two_event_find_byid c i = table_map (idkey c) (two_events_byid c) i"
  using byid.find_spec [OF class_okD(2)] by (simp add: two_event_find_byid_def)

lemma found_object:
  assumes "class_ok c" "two_event_find c tp1 tp2 = Some a"
  shows "a \<in> dom (cl_heap c)" "pkey c a = (tp1, tp2)" "two_event_find_byid c (idkey c a) = Some a"
  using assms table_map_entry [of "pkey c" "two_events c" "(tp1, tp2)" a] class_okD(3,4) [OF assms(1)]
    table_map_of [OF class_okD(2) [OF assms(1)], of a] by (simp_all add: find_pair find_byid)

lemma new_ok:
  assumes ok: "class_ok c" and ids: "cl_ids c < cl_ids c + 1"
  shows "\<exists>a c1. two_event_new True z tp1 tp2 c = Some (Some a, c1) \<and> class_ok c1 \<and> two_event_find c1 tp1 tp2 = Some a \<and>
    (case class_map c (tp1, tp2) of
       Some i \<Rightarrow> c1 = c
     | None \<Rightarrow> class_map c1 = (class_map c)((tp1, tp2) \<mapsto> cl_ids c) \<and> cl_ids c1 = cl_ids c + 1)"
proof (cases "table_map (pkey c) (two_events c) (tp1, tp2)")
  case (Some a)
  have "rblist__findnew (\<lambda>b. two_event_node_cmp (obj c b)) None (tp1, tp2) True (two_events c) = Some (Some a, two_events c)"
    using pair.findnew_spec [OF class_okD(1) [OF ok], of None "(tp1, tp2)" True] Some by auto
  then have "rblist__findnew (\<lambda>b. two_event_node_cmp (obj c b)) (Some (cl_fresh c)) (tp1, tp2) True (two_events c) = Some (Some a, two_events c)"
    by (auto simp: rblist__findnew_def split: prod.splits rb.splits)
  then show ?thesis using Some ok find_pair [OF ok] by (simp add: two_event_new_def class_map_def)
next
  case None
  let ?a = "cl_fresh c"
  define t where "t = \<lparr>te_tp1 = tp1, te_tp2 = tp2, te_id = cl_ids c, te_deleting = False, te_obj = z\<rparr>"
  define c1 where "c1 = c\<lparr>cl_heap := (cl_heap c)(?a \<mapsto> t), cl_fresh := ?a + 1, cl_ids := cl_ids c + 1\<rparr>"
  have fr: "?a \<notin> dom (cl_heap c)" using class_okD(5) [OF ok] by fastforce
  have h: "obj c1 x = obj c x" if "x \<in> dom (cl_heap c)" for x using that fr by (auto simp: c1_def)
  have n: "obj c1 ?a = t" by (simp add: c1_def)
  have hp: "x \<in> dom (cl_heap c)" if "x \<in> set (entries (two_events c)) \<or> x \<in> set (entries (two_events_byid c))" for x
    using that class_okD(3,4) [OF ok] by blast
  obtain rl where r: "rblist__findnew (\<lambda>b. two_event_node_cmp (obj c b)) (Some ?a) (tp1, tp2) True (two_events c) = Some (Some ?a, rl)"
      "table_ok (pkey c1) rl" "table_map (pkey c1) rl = (table_map (pkey c) (two_events c))((tp1, tp2) \<mapsto> ?a)"
      "set (entries rl) = insert ?a (set (entries (two_events c)))" "rl_nr_entries rl = rl_nr_entries (two_events c) + 1"
    using findnew_fresh [OF pair.node_order_axioms [of c1] class_okD(1) [OF ok], of "\<lambda>b. two_event_node_cmp (obj c b)" "(tp1, tp2)" ?a]
      h hp n None by (auto simp: t_def)
  have "table_map (idkey c) (two_events_byid c) (cl_ids c) = None"
    using class_okD(5) [OF ok] hp by (fastforce simp: table_map_None)
  then obtain rl' where q: "rblist__findnew (\<lambda>b. two_event_node_cmp_byid (obj c1 b)) (Some ?a) (cl_ids c) True (two_events_byid c) = Some (Some ?a, rl')"
      "table_ok (idkey c1) rl'" "set (entries rl') = insert ?a (set (entries (two_events_byid c)))"
    using findnew_fresh [OF byid.node_order_axioms [of c1] class_okD(2) [OF ok], of "\<lambda>b. two_event_node_cmp_byid (obj c1 b)" "cl_ids c" ?a]
      h hp n by (auto simp: t_def)
  define c2 where "c2 = c1\<lparr>two_events_byid := rl', two_events := rl\<rparr>"
  have "two_event_new True z tp1 tp2 c = Some (Some ?a, c2)"
    using r(1,5) q(1) by (simp add: two_event_new_def two_event_node_new_def c2_def c1_def t_def Let_def)
  moreover have o: "cl_heap c2 = cl_heap c1" by (simp add: c2_def)
  have ok2: "class_ok c2"
    unfolding class_ok_def o
  proof (intro conjI allI impI)
    show "table_ok (pkey c1) (two_events c2)" "table_ok (idkey c1) (two_events_byid c2)" using r(2) q(2) by (simp_all add: c2_def)
    show "set (entries (two_events c2)) = dom (cl_heap c1)" "set (entries (two_events_byid c2)) = dom (cl_heap c1)"
      using r(4) q(3) class_okD(3,4) [OF ok] by (simp_all add: c2_def c1_def)
  next
    fix a t' assume a: "cl_heap c1 a = Some t'"
    have "a < ?a + 1 \<and> te_id t' < cl_ids c + 1 \<and> \<not> te_deleting t'"
    proof (cases "a = ?a")
      case True
      then have "t' = t" using a by (simp add: c1_def)
      then show ?thesis using True ids by (simp add: t_def)
    next
      case False
      then have "cl_heap c a = Some t'" using a by (simp add: c1_def)
      then show ?thesis using class_okD(5) [OF ok, of a t'] ids by (auto intro: less_trans)
    qed
    then show "a < cl_fresh c2" "te_id t' < cl_ids c2" "\<not> te_deleting t'" by (simp_all add: c2_def c1_def)
  qed
  moreover have "class_map c2 e = ((class_map c)((tp1, tp2) \<mapsto> cl_ids c)) e" for e
  proof (cases "e = (tp1, tp2)")
    case True
    then show ?thesis using r(3) n by (simp add: class_map_def o) (simp add: c2_def t_def)
  next
    case False
    have "obj c1 x = obj c x" if "table_map (pkey c) (two_events c) e = Some x" for x using table_map_entry [OF that] hp h by blast
    then show ?thesis using False r(3) by (cases "table_map (pkey c) (two_events c) e") (simp_all add: class_map_def o, simp_all add: c2_def)
  qed
  then have "class_map c2 = (class_map c)((tp1, tp2) \<mapsto> cl_ids c)" by blast
  moreover have "two_event_find c2 tp1 tp2 = Some ?a" using find_pair [OF ok2] r(3) by (simp add: o) (simp add: c2_def)
  moreover have "class_map c (tp1, tp2) = None" "cl_ids c2 = cl_ids c + 1" using None by (simp_all add: class_map_def c2_def c1_def)
  ultimately show ?thesis using ok2 by (intro exI [of _ ?a] exI [of _ c2]) simp
qed

section \<open>Deleting\<close>

text \<open>What the tables know of an object.\<close>

definition ident :: "'o two_event \<Rightarrow> nat \<times> nat \<times> u32 \<times> bool" where
  "ident t = (te_tp1 t, te_tp2 t, te_id t, te_deleting t)"

lemma identD: "ident s = ident t \<Longrightarrow> te_tp1 s = te_tp1 t \<and> te_tp2 s = te_tp2 t \<and> te_id s = te_id t \<and> te_deleting s = te_deleting t"
  by (simp add: ident_def)

text \<open>An analysis may change its own part of the objects when one is deleted, and nothing else.\<close>

locale analysis =
  fixes object_delete :: "nat \<Rightarrow> 'o two_event_class \<Rightarrow> 'o two_event_class"
  assumes keeps_tables: "two_events (object_delete a c) = two_events c" "two_events_byid (object_delete a c) = two_events_byid c"
    and keeps_counters: "cl_ids (object_delete a c) = cl_ids c" "cl_fresh (object_delete a c) = cl_fresh c"
    and keeps_objects: "map_option ident (cl_heap (object_delete a c) x) = map_option ident (cl_heap c x)"
begin

lemma node_delete_ok:
  assumes t: "table_ok (idkey c) (two_events_byid c)" and d: "set (entries (two_events_byid c)) = dom (cl_heap c)" and a: "a \<in> dom (cl_heap c)"
  shows "\<exists>c1. two_event_node_delete object_delete a c = Some c1 \<and> table_ok (idkey c1) (two_events_byid c1) \<and>
    set (entries (two_events_byid c1)) = dom (cl_heap c1) \<and> dom (cl_heap c1) = dom (cl_heap c) - {a} \<and>
    two_events c1 = two_events c \<and> cl_ids c1 = cl_ids c \<and> cl_fresh c1 = cl_fresh c \<and>
    (\<forall>x. x \<noteq> a \<longrightarrow> map_option ident (cl_heap c1 x) = map_option ident (cl_heap c x))"
proof -
  define c0 where "c0 = (if \<not> te_deleting (obj c a) then object_delete a (set_deleting a c) else c)"
  have i0: "map_option ident (cl_heap c0 x) = map_option ident (cl_heap c x)" if "x \<noteq> a" for x
    using that by (simp add: c0_def keeps_objects set_deleting_def)
  have al: "cl_heap (object_delete a e) a = None \<longleftrightarrow> cl_heap e a = None" for e
    using keeps_objects [of a e a] by (metis option.map_disc_iff)
  then have "map_option ident (cl_heap c0 a) = None \<longleftrightarrow> map_option ident (cl_heap c a) = None"
    by (simp add: c0_def set_deleting_def)
  then have "map_option ident (cl_heap c0 x) = None \<longleftrightarrow> map_option ident (cl_heap c x) = None" for x using i0 [of x] by (cases "x = a") simp_all
  then have d0: "dom (cl_heap c0) = dom (cl_heap c)" by (simp add: dom_def)
  have "map_option te_id (cl_heap c0 a) = map_option te_id (cl_heap c a)"
  proof -
    have "map_option te_id y = map_option (\<lambda>(_, _, i, _). i) (map_option ident y)" for y :: "'o two_event option" by (cases y) (simp_all add: ident_def)
    then have "map_option te_id (cl_heap (object_delete a e) a) = map_option te_id (cl_heap e a)" for e using keeps_objects by metis
    then show ?thesis by (simp add: c0_def set_deleting_def option.map_comp comp_def)
  qed
  then have k0: "idkey c0 x = idkey c x" if "x \<in> dom (cl_heap c)" for x
    using i0 [of x] that d0 by (cases "x = a") (auto simp: ident_def)
  have b0: "two_events_byid c0 = two_events_byid c" "two_events c0 = two_events c" "cl_ids c0 = cl_ids c" "cl_fresh c0 = cl_fresh c"
    by (simp_all add: c0_def keeps_tables keeps_counters set_deleting_def)
  have "table_ok (idkey c0) (two_events_byid c)" using t table_ok_cong [of "two_events_byid c" "idkey c0" "idkey c"] k0 d by simp
  from remove_by_address [OF this, of a] a d obtain z rl where r: "place_of a (rl_tree (two_events_byid c)) [] = Some z"
      "rblist__remove_node z (two_events_byid c) = Some rl" "table_ok (idkey c0) rl" "set (entries rl) = set (entries (two_events_byid c)) - {a}" by blast
  define c1 where "c1 = c0\<lparr>two_events_byid := rl, cl_heap := (cl_heap c0)(a := None)\<rparr>"
  have "two_event_node_delete object_delete a c = Some c1"
    using r(1,2) b0(1) by (simp add: two_event_node_delete_def c0_def [symmetric] c1_def Let_def)
  moreover have "idkey c1 x = idkey c0 x" if "x \<in> set (entries rl)" for x using that r(4) by (auto simp: c1_def)
  then have "table_ok (idkey c1) rl" using r(3) table_ok_cong [of rl "idkey c1" "idkey c0"] by simp
  moreover have "dom (cl_heap c1) = dom (cl_heap c) - {a}" by (simp add: c1_def d0)
  ultimately show ?thesis using b0 i0 r(4) d by (simp add: c1_def)
qed

lemma delete_all_ok:
  "table_ok (idkey c) (two_events_byid c) \<Longrightarrow> set (entries (two_events_byid c)) = dom (cl_heap c) \<Longrightarrow> distinct as \<Longrightarrow> set as \<subseteq> dom (cl_heap c) \<Longrightarrow>
   \<exists>c1. delete_all object_delete as c = Some c1 \<and> dom (cl_heap c1) = dom (cl_heap c) - set as \<and> two_events c1 = two_events c \<and>
     set (entries (two_events_byid c1)) = dom (cl_heap c1)"
proof (induction as arbitrary: c)
  case (Cons a as)
  obtain c1 where c1: "two_event_node_delete object_delete a c = Some c1" "table_ok (idkey c1) (two_events_byid c1)"
      "set (entries (two_events_byid c1)) = dom (cl_heap c1)" "dom (cl_heap c1) = dom (cl_heap c) - {a}" "two_events c1 = two_events c"
    using node_delete_ok [OF Cons.prems(1,2), of a] Cons.prems(4) by auto
  have "distinct as" "set as \<subseteq> dom (cl_heap c1)" using Cons.prems(3,4) c1(4) by auto
  from Cons.IH [OF c1(2,3) this] show ?case using c1(1,4,5) by auto
qed simp

lemma class_delete_ok:
  assumes ok: "class_ok c"
  shows "\<exists>c1. two_event_class_delete object_delete c = Some c1 \<and> cl_heap c1 = Map.empty \<and> entries (two_events c1) = [] \<and>
    entries (two_events_byid c1) = []"
proof -
  have "length (entries (two_events c)) \<le> rl_nr_entries (two_events c)" using class_okD(1) [OF ok] by (simp add: table_ok_def)
  then obtain rl where r: "rblist__exit (rl_nr_entries (two_events c)) (two_events c) = Some (rl, entries (two_events c))" "rl = rblist__init"
    using exit_ok [OF class_okD(1) [OF ok]] rblist_emptied by blast
  have "distinct (entries (two_events c))" using entries_distinct [OF class_okD(1) [OF ok]] by (simp add: distinct_map)
  with delete_all_ok [of "c\<lparr>two_events := rl\<rparr>" "entries (two_events c)"] class_okD(2-4) [OF ok] obtain c1 where
    "delete_all object_delete (entries (two_events c)) (c\<lparr>two_events := rl\<rparr>) = Some c1" "dom (cl_heap c1) = {}" "two_events c1 = rl"
    "set (entries (two_events_byid c1)) = {}" by auto
  then show ?thesis using r by (simp add: two_event_class_delete_def rblist__init_def)
qed

lemma delete_ok:
  assumes ok: "class_ok c" and f: "two_event_find c tp1 tp2 = Some a"
  shows "\<exists>c1. two_event_delete object_delete (Some a) c = Some c1 \<and> class_ok c1 \<and> class_map c1 = (class_map c)((tp1, tp2) := None) \<and>
    cl_ids c1 = cl_ids c"
proof -
  note fo = found_object [OF ok f]
  define c0 where "c0 = set_deleting a c"
  have h0: "cl_heap c0 x = cl_heap c x" if "x \<noteq> a" for x using that by (simp add: c0_def set_deleting_def)
  have a0: "\<exists>t. cl_heap c a = Some t \<and> cl_heap c0 a = Some (t\<lparr>te_deleting := True\<rparr>)" using fo(1) by (auto simp: c0_def set_deleting_def)
  then have k0: "pkey c0 x = pkey c x" "idkey c0 x = idkey c x" for x using h0 [of x] by (cases "x = a"; auto)+
  have d0: "dom (cl_heap c0) = dom (cl_heap c)" "two_events c0 = two_events c" "two_events_byid c0 = two_events_byid c" "cl_ids c0 = cl_ids c"
      "cl_fresh c0 = cl_fresh c" by (auto simp: c0_def set_deleting_def)
  have t0: "table_ok (pkey c0) (two_events c)" "table_ok (idkey c0) (two_events_byid c)" unfolding k0 using class_okD(1,2) [OF ok] by simp_all
  obtain z rl where r: "place_of a (rl_tree (two_events c)) [] = Some z" "rblist__remove_node z (two_events c) = Some rl" "table_ok (pkey c0) rl"
      "table_map (pkey c0) rl = (table_map (pkey c0) (two_events c))(pkey c0 a := None)" "set (entries rl) = set (entries (two_events c)) - {a}"
    using remove_by_address [OF t0(1), of a] fo(1) class_okD(3) [OF ok] by blast
  obtain c1 where c1: "two_event_node_delete object_delete a (c0\<lparr>two_events := rl\<rparr>) = Some c1" "table_ok (idkey c1) (two_events_byid c1)"
      "set (entries (two_events_byid c1)) = dom (cl_heap c1)" "dom (cl_heap c1) = dom (cl_heap c0) - {a}" "two_events c1 = rl"
      "cl_ids c1 = cl_ids c0" "cl_fresh c1 = cl_fresh c0"
      "\<And>x. x \<noteq> a \<Longrightarrow> map_option ident (cl_heap c1 x) = map_option ident (cl_heap c0 x)"
    using node_delete_ok [of "c0\<lparr>two_events := rl\<rparr>" a] t0(2) d0 fo(1) class_okD(4) [OF ok] by auto
  have e: "two_event_delete object_delete (Some a) c = Some c1"
    using r(1,2) c1(1) d0 fo(1) class_okD(5) [OF ok] by (auto simp: two_event_delete_def c0_def [symmetric] Let_def)
  have i: "ident (obj c1 x) = ident (obj c x)" if "x \<in> dom (cl_heap c1)" for x
  proof -
    have "x \<noteq> a" using that c1(4) by auto
    then have "map_option ident (cl_heap c1 x) = map_option ident (cl_heap c x)" using c1(8) h0 by simp
    then show ?thesis using that by (metis domD option.map_sel option.map_disc_iff option.distinct(1))
  qed
  have pk: "pkey c1 x = pkey c0 x" if "x \<in> set (entries rl)" for x
    using identD [OF i [of x]] k0(1) [of x] that r(5) c1(4) d0(1) class_okD(3) [OF ok] by simp
  have "class_ok c1"
    unfolding class_ok_def
  proof (intro conjI allI impI)
    show "table_ok (pkey c1) (two_events c1)" using r(3) c1(5) table_ok_cong [of rl "pkey c1" "pkey c0"] pk by simp
    show "set (entries (two_events c1)) = dom (cl_heap c1)" using r(5) c1(4,5) class_okD(3) [OF ok] d0(1) by simp
    show "a' < cl_fresh c1" "te_id t < cl_ids c1" "\<not> te_deleting t" if h: "cl_heap c1 a' = Some t" for a' t
    proof -
      have m: "a' \<in> dom (cl_heap c1)" using h by blast
      then obtain s where s: "cl_heap c a' = Some s" using c1(4) d0(1) by auto
      have "ident t = ident s" using i [OF m] h s by simp
      then show "a' < cl_fresh c1" "te_id t < cl_ids c1" "\<not> te_deleting t"
        using class_okD(5) [OF ok s] identD c1(6,7) d0(4,5) by metis+
    qed
  qed (use c1 in simp_all)
  moreover have "class_map c1 e = ((class_map c)((tp1, tp2) := None)) e" for e
  proof -
    have m: "table_map (pkey c1) rl = (table_map (pkey c) (two_events c))((tp1, tp2) := None)"
      using r(4) table_map_cong [of rl "pkey c1" "pkey c0"] pk fo(2) unfolding k0 by simp
    have "idkey c1 x = idkey c x" if "table_map (pkey c1) rl e = Some x" for x
      using identD [OF i [of x]] table_map_entry [OF that] r(5) c1(4) d0(1) class_okD(3) [OF ok] by simp
    then show ?thesis using m c1(5) by (cases "table_map (pkey c1) rl e") (auto simp: class_map_def split: if_splits)
  qed
  then have "class_map c1 = (class_map c)((tp1, tp2) := None)" by blast
  ultimately show ?thesis using e c1(6) d0(4) by (intro exI [of _ c1]) simp
qed

end

section \<open>Changes to what an analysis keeps\<close>

definition set_obj :: "nat \<Rightarrow> ('o \<Rightarrow> 'o) \<Rightarrow> 'o two_event_class \<Rightarrow> 'o two_event_class" where
  "set_obj a f c = c\<lparr>cl_heap := (cl_heap c)(a := map_option (\<lambda>t. t\<lparr>te_obj := f (te_obj t)\<rparr>) (cl_heap c a))\<rparr>"

lemma set_obj_frame:
  "map_option ident (cl_heap (set_obj a f c) x) = map_option ident (cl_heap c x)" "two_events (set_obj a f c) = two_events c"
  "two_events_byid (set_obj a f c) = two_events_byid c" "cl_ids (set_obj a f c) = cl_ids c" "cl_fresh (set_obj a f c) = cl_fresh c"
  by (simp_all add: set_obj_def ident_def [abs_def] option.map_comp comp_def)

lemma same_objects:
  assumes t: "two_events c1 = two_events c" "two_events_byid c1 = two_events_byid c" "cl_ids c1 = cl_ids c" "cl_fresh c1 = cl_fresh c"
    and h: "\<And>x. map_option ident (cl_heap c1 x) = map_option ident (cl_heap c x)" and ok: "class_ok c"
  shows "class_ok c1" "class_map c1 = class_map c" "two_event_find c1 = two_event_find c" "x \<in> dom (cl_heap c) \<Longrightarrow> idkey c1 x = idkey c x"
proof -
  have d: "dom (cl_heap c1) = dom (cl_heap c)" using h by (metis (no_types, lifting) domIff option.map_disc_iff subsetI subset_antisym)
  have i: "ident (obj c1 x) = ident (obj c x)" if "x \<in> dom (cl_heap c)" for x
    using h [of x] that d by (metis domD option.map_sel option.distinct(1))
  then show k: "idkey c1 x = idkey c x" if "x \<in> dom (cl_heap c)" for x using identD that by blast
  have p: "pkey c1 x = pkey c x" if "x \<in> dom (cl_heap c)" for x using identD [OF i [OF that]] by simp
  have e: "set (entries (two_events c)) = dom (cl_heap c)" "set (entries (two_events_byid c)) = dom (cl_heap c)" using class_okD [OF ok] by auto
  show ok1: "class_ok c1"
    unfolding class_ok_def t
  proof (intro conjI allI impI)
    show "table_ok (pkey c1) (two_events c)" using class_okD(1) [OF ok] table_ok_cong [of "two_events c" "pkey c1" "pkey c"] p e by simp
    show "table_ok (idkey c1) (two_events_byid c)" using class_okD(2) [OF ok] table_ok_cong [of "two_events_byid c" "idkey c1" "idkey c"] k e by simp
    show "a < cl_fresh c" "te_id s < cl_ids c" "\<not> te_deleting s" if s: "cl_heap c1 a = Some s" for a s
    proof -
      have "a \<in> dom (cl_heap c)" using s d by blast
      then obtain r where r: "cl_heap c a = Some r" by blast
      have "ident s = ident r" using h [of a] s r by simp
      then show "a < cl_fresh c" "te_id s < cl_ids c" "\<not> te_deleting s" using class_okD(5) [OF ok r] identD by metis+
    qed
  qed (use d e in simp_all)
  have m: "table_map (pkey c1) (two_events c) = table_map (pkey c) (two_events c)" by (rule table_map_cong) (use p e in simp)
  show "class_map c1 = class_map c"
  proof
    fix x
    show "class_map c1 x = class_map c x"
      using table_map_entry [of "pkey c" "two_events c" x] k e m t by (cases "table_map (pkey c) (two_events c) x") (auto simp: class_map_def)
  qed
  show "two_event_find c1 = two_event_find c" using m t by (intro ext) (simp add: find_pair [OF ok1] find_pair [OF ok])
qed

lemma set_obj_same: "class_ok c \<Longrightarrow> class_ok (set_obj a f c)" "class_ok c \<Longrightarrow> class_map (set_obj a f c) = class_map c"
  "class_ok c \<Longrightarrow> two_event_find (set_obj a f c) = two_event_find c" "class_ok c \<Longrightarrow> x \<in> dom (cl_heap c) \<Longrightarrow> idkey (set_obj a f c) x = idkey c x"
  "cl_ids (set_obj a f c) = cl_ids c" "dom (cl_heap (set_obj a f c)) = dom (cl_heap c)"
  by (rule same_objects; auto simp: set_obj_def ident_def [abs_def] option.map_comp comp_def)+
    (auto simp: set_obj_def)

text \<open>A new object has its cleared part, the others are as they were.\<close>

lemma new_heap:
  "two_event_new mem z tp1 tp2 c = Some (r, c1) \<Longrightarrow> cl_heap c1 x = Some t \<Longrightarrow> cl_heap c x = Some t \<or> te_obj t = z"
  by (auto simp: two_event_new_def two_event_node_new_def Let_def split: option.splits prod.splits if_splits)

section \<open>Sequences of operations\<close>

text \<open>The default: objects have no part of their own to delete.\<close>

definition no_object_delete :: "nat \<Rightarrow> 'o two_event_class \<Rightarrow> 'o two_event_class" where
  "no_object_delete a c = c"

interpretation plain: analysis no_object_delete
  by unfold_locales (simp_all add: no_object_delete_def)

datatype obj_op = New_obj nat nat | Delete_obj nat nat

fun obj_ops :: "'o \<Rightarrow> obj_op list \<Rightarrow> 'o two_event_class \<Rightarrow> 'o two_event_class option" where
  "obj_ops z [] c = Some c"
| "obj_ops z (New_obj tp1 tp2 # ops) c = Option.bind (two_event_new True z tp1 tp2 c) (\<lambda>(_, c1). obj_ops z ops c1)"
| "obj_ops z (Delete_obj tp1 tp2 # ops) c = Option.bind (two_event_delete no_object_delete (two_event_find c tp1 tp2) c) (obj_ops z ops)"

text \<open>A map from pairs to numbers, and the next number.\<close>

fun spec_ops :: "obj_op list \<Rightarrow> (nat \<times> nat \<rightharpoonup> u32) \<times> u32 \<Rightarrow> (nat \<times> nat \<rightharpoonup> u32) \<times> u32" where
  "spec_ops [] s = s"
| "spec_ops (New_obj tp1 tp2 # ops) (m, i) =
     spec_ops ops (case m (tp1, tp2) of Some _ \<Rightarrow> (m, i) | None \<Rightarrow> (m((tp1, tp2) \<mapsto> i), i + 1))"
| "spec_ops (Delete_obj tp1 tp2 # ops) (m, i) = spec_ops ops (m((tp1, tp2) := None), i)"

lemma unat_Suc32: "unat (x :: u32) + 1 < 2 ^ 32 \<Longrightarrow> unat (x + 1) = unat x + 1"
  by (simp add: unat_word_ariths)

lemma obj_ops_refine:
  "class_ok c \<Longrightarrow> unat (cl_ids c) + length ops < 2 ^ 32 \<Longrightarrow>
   \<exists>c1. obj_ops z ops c = Some c1 \<and> class_ok c1 \<and> (class_map c1, cl_ids c1) = spec_ops ops (class_map c, cl_ids c)"
proof (induction ops arbitrary: c)
  case (Cons p ops)
  have u: "unat (cl_ids c + 1) = unat (cl_ids c) + 1" using Cons.prems(2) by (intro unat_Suc32) simp
  then have nw: "cl_ids c < cl_ids c + 1" by (simp add: word_less_nat_alt)
  show ?case
  proof (cases p)
    case (New_obj tp1 tp2)
    obtain a c1 where c1: "two_event_new True z tp1 tp2 c = Some (Some a, c1)" "class_ok c1"
        "case class_map c (tp1, tp2) of Some i \<Rightarrow> c1 = c
         | None \<Rightarrow> class_map c1 = (class_map c)((tp1, tp2) \<mapsto> cl_ids c) \<and> cl_ids c1 = cl_ids c + 1"
      using new_ok [OF Cons.prems(1) nw] by blast
    have "unat (cl_ids c1) + length ops < 2 ^ 32" using c1(3) u Cons.prems(2) by (auto split: option.splits)
    from Cons.IH [OF c1(2) this] show ?thesis using c1(1,3) New_obj by (cases "class_map c (tp1, tp2)") (simp_all add: fun_upd_def)
  next
    case (Delete_obj tp1 tp2)
    show ?thesis
    proof (cases "two_event_find c tp1 tp2")
      case None
      then have "class_map c (tp1, tp2) = None" using find_pair [OF Cons.prems(1)] by (simp add: class_map_def)
      then show ?thesis using None Delete_obj Cons.IH [OF Cons.prems(1)] Cons.prems(2) by (simp add: two_event_delete_def fun_upd_idem)
    next
      case (Some a)
      obtain c1 where c1: "two_event_delete no_object_delete (Some a) c = Some c1" "class_ok c1"
          "class_map c1 = (class_map c)((tp1, tp2) := None)" "cl_ids c1 = cl_ids c"
        using plain.delete_ok [OF Cons.prems(1) Some] by blast
      then show ?thesis using Some Delete_obj Cons.IH [OF c1(2)] Cons.prems(2) by (simp add: fun_upd_def)
    qed
  qed
qed simp

text \<open>
  C20. After any sequence of making and deleting objects, fewer than \<open>2 ^ 32\<close>, a class is well formed:
  both tables are red-black trees with their first node and their number of entries, one in
  the order of the tracepoints and one in that of the numbers, both hold exactly the objects
  that are allocated, and no object has the number of another or is being deleted.
\<close>

theorem class_well_formed:
  assumes "length ops < 2 ^ 32"
  shows "\<exists>c. obj_ops z ops two_event_class_new = Some c \<and> class_ok c \<and> inj_on (\<lambda>a. te_id (obj c a)) (dom (cl_heap c))"
proof -
  have i: "cl_ids (two_event_class_new :: 'a two_event_class) = 0" by (simp add: two_event_class_new_def)
  obtain c where c: "obj_ops z ops two_event_class_new = Some c" "class_ok c"
    using obj_ops_refine [OF class_new_ok(1), of ops z] assms unfolding i by auto
  have "distinct (map (idkey c) (entries (two_events_byid c)))" using entries_distinct [OF class_okD(2) [OF c(2)]] by simp
  then have "inj_on (idkey c) (dom (cl_heap c))" using class_okD(4) [OF c(2)] by (simp add: distinct_map)
  then show ?thesis using c by blast
qed

theorem class_well_formed_witness:
  "\<exists>c. obj_ops () [New_obj 8 0, New_obj 8 9, Delete_obj 8 0] two_event_class_new = Some c \<and> class_ok c"
  using class_well_formed [of "[New_obj 8 0, New_obj 8 9, Delete_obj 8 0]" "()"] by auto

text \<open>
  C19. After any sequence of making and deleting objects, fewer than \<open>2 ^ 32\<close>, an object is found
  by its two tracepoints exactly when it was made and not deleted since; its number is the one
  it got when it was made, and looking up the number finds the same object. Deleting the
  class then releases every object and empties both tables.
\<close>

theorem two_event_objects:
  assumes "length ops < 2 ^ 32"
  shows "\<exists>c c1. obj_ops z ops two_event_class_new = Some c \<and>
    (\<forall>tp1 tp2. case two_event_find c tp1 tp2 of
       None \<Rightarrow> fst (spec_ops ops (Map.empty, 0)) (tp1, tp2) = None
     | Some a \<Rightarrow> te_tp1 (obj c a) = tp1 \<and> te_tp2 (obj c a) = tp2 \<and>
         fst (spec_ops ops (Map.empty, 0)) (tp1, tp2) = Some (te_id (obj c a)) \<and> two_event_find_byid c (te_id (obj c a)) = Some a) \<and>
    two_event_class_delete no_object_delete c = Some c1 \<and> cl_heap c1 = Map.empty \<and> entries (two_events c1) = [] \<and>
    entries (two_events_byid c1) = []"
proof -
  have i: "cl_ids (two_event_class_new :: 'a two_event_class) = 0" by (simp add: two_event_class_new_def)
  obtain c where c: "obj_ops z ops two_event_class_new = Some c" "class_ok c" "(class_map c, cl_ids c) = spec_ops ops (Map.empty, 0)"
    using obj_ops_refine [OF class_new_ok(1), of ops z] assms unfolding i class_new_ok(2) by auto
  have m: "fst (spec_ops ops (Map.empty, 0)) = class_map c" using c(3) by (metis fst_conv)
  have "case two_event_find c tp1 tp2 of None \<Rightarrow> class_map c (tp1, tp2) = None
     | Some a \<Rightarrow> te_tp1 (obj c a) = tp1 \<and> te_tp2 (obj c a) = tp2 \<and> class_map c (tp1, tp2) = Some (te_id (obj c a)) \<and>
         two_event_find_byid c (te_id (obj c a)) = Some a" for tp1 tp2
  proof (cases "two_event_find c tp1 tp2")
    case (Some a)
    then show ?thesis using found_object [OF c(2) Some] find_pair [OF c(2)] by (simp add: class_map_def)
  qed (use find_pair [OF c(2)] in \<open>simp add: class_map_def\<close>)
  then show ?thesis unfolding m using plain.class_delete_ok [OF c(2)] c(1) by blast
qed

theorem two_event_objects_witness:
  "\<exists>c. obj_ops () [New_obj 8 0, New_obj 8 9, Delete_obj 8 0, New_obj 9 8] two_event_class_new = Some c \<and>
    two_event_find c 8 0 = None \<and> (\<exists>a. two_event_find c 9 8 = Some a \<and> te_id (obj c a) = 2)"
proof -
  let ?ops = "[New_obj 8 0, New_obj 8 9, Delete_obj 8 0, New_obj 9 8]"
  have m: "fst (spec_ops ?ops (Map.empty, 0)) (8, 0) = None" "fst (spec_ops ?ops (Map.empty, 0)) (9, 8) = Some 2" by simp_all
  obtain c :: "unit two_event_class" where c: "obj_ops () ?ops two_event_class_new = Some c"
      "\<forall>tp1 tp2. case two_event_find c tp1 tp2 of
         None \<Rightarrow> fst (spec_ops ?ops (Map.empty, 0)) (tp1, tp2) = None
       | Some a \<Rightarrow> te_tp1 (obj c a) = tp1 \<and> te_tp2 (obj c a) = tp2 \<and>
           fst (spec_ops ?ops (Map.empty, 0)) (tp1, tp2) = Some (te_id (obj c a)) \<and> two_event_find_byid c (te_id (obj c a)) = Some a"
    using two_event_objects [of ?ops "()", simplified] by (elim exE conjE) simp
  show ?thesis using c(1) c(2) [rule_format, of 8 0] c(2) [rule_format, of 9 8] m by (auto split: option.splits)
qed

end
