(* ===== verification/Two_Delay.thy ===== *)
theory Two_Delay
  imports Tp_Matcher Two_Event Latency Multi_Run "HOL-Library.Sublist"
begin

text \<open>
  The analysis of delays in \<open>src/two-event.c\<close>: the time between the events of a pair goes into the
  statistics of \<open>src/latency_helpers.c\<close>; pairs beyond a limit are shown, with the events of the
  timeline before, between and after them.
\<close>

record two_event_options =
  op_perins :: bool
  op_comm :: bool
  op_rundelay :: bool
  op_greater_than :: u64
  op_lower_than :: u64
  op_hide_than :: u64
  op_after_event2 :: u64
  op_heatmap :: bool
  op_only_print_greater_than :: bool
  op_sort_print :: bool

text \<open>\<open>struct delay\<close>: the lines written to its heat map, if it has one.\<close>

type_synonym delay = "(u64 \<times> u64) list option"

record delay_class =
  dc_base :: "delay two_event_class"
  dc_max_len1 :: nat
  dc_max_len2 :: nat
  dc_lat_dist :: latency_dist

definition delay_class_new :: "two_event_options \<Rightarrow> delay_class" where
  "delay_class_new op =
     \<lparr>dc_base = two_event_class_new, dc_max_len1 = 5, dc_max_len2 = 3, dc_lat_dist = latency_dist_new_quantile (op_perins op) True 0\<rparr>"

text \<open>\<open>len\<close> is the length of the name of a tracepoint, \<open>opened\<close> what \<open>heatmap_open\<close> returns.\<close>

definition delay_new :: "bool \<Rightarrow> bool \<Rightarrow> (nat \<Rightarrow> nat) \<Rightarrow> two_event_options \<Rightarrow> nat \<Rightarrow> nat \<Rightarrow> delay_class \<Rightarrow> (nat option \<times> delay_class) option" where
  "delay_new mem opened len op tp1 tp2 dc =
     (case two_event_new mem None tp1 tp2 (dc_base dc) of
        None \<Rightarrow> None
      | Some (None, c) \<Rightarrow> Some (None, dc\<lparr>dc_base := c\<rparr>)
      | Some (Some a, c) \<Rightarrow>
          if tp2 = 0 then Some (Some a, dc\<lparr>dc_base := c\<rparr>)
          else Some (Some a, dc\<lparr>dc_base := (if op_heatmap op then set_obj a (\<lambda>_. if opened then Some [] else None) c else c),
                                dc_max_len1 := max (dc_max_len1 dc) (len tp1), dc_max_len2 := max (dc_max_len2 dc) (len tp2)\<rparr>))"

text \<open>\<open>delay_delete\<close> without the \<open>two_event_delete\<close> at its end, see \<open>two_event_node_delete\<close>: the heat map is closed.\<close>

definition delay_object_delete :: "nat \<Rightarrow> delay two_event_class \<Rightarrow> delay two_event_class" where
  "delay_object_delete a c = set_obj a (\<lambda>_. None) c"

interpretation delay: analysis delay_object_delete
  by unfold_locales (simp_all add: delay_object_delete_def set_obj_frame)

section \<open>Showing a pair\<close>

text \<open>
  What is printed: an event with its title, which is made of a note, a time and a reason; the
  first event in between is titled with the delay instead.
\<close>

datatype printed =
    P_previous u64
  | P_title addr "string option" u64 "string option"
  | P_first addr u64
  | P_delta u64
  | P_hidden nat
  | P_event timeline_node
  | P_after u64
  | P_bar addr
  | P_at_least addr u64
  | P_lost u64

text \<open>The pair, its tracepoints and its key.\<close>

record shown =
  sh_e1 :: timeline_node
  sh_e2 :: timeline_node
  sh_key :: u64

abbreviation need :: "print_env \<Rightarrow> multi_trace_ctx \<Rightarrow> shown \<Rightarrow> test" where
  "need pe st sh \<equiv> event_need_to_print pe st (sh_e1 sh) (Some (sh_e2 sh)) (tn_tp (sh_e1 sh)) (Some (tn_tp (sh_e2 sh))) (sh_key sh)"

text \<open>
  The events before the first; \<open>neg\<close> is \<open>None\<close> once the heading is printed. \<open>test\<close> says which events
  are to be printed and \<open>title\<close> how.
\<close>

fun show_before ::
  "nat \<Rightarrow> test \<Rightarrow> (addr \<Rightarrow> event_iter \<Rightarrow> printed) \<Rightarrow> multi_trace_ctx \<Rightarrow> u64 option \<Rightarrow> event_iter \<Rightarrow> (printed list \<times> event_iter) option" where
  "show_before k test title st neg it =
     (case test it of
        None \<Rightarrow> None
      | Some (b, it1) \<Rightarrow>
          let out = (if b then (case neg of Some n \<Rightarrow> [P_previous n] | None \<Rightarrow> []) @
                               (case it_curr it1 of Some a \<Rightarrow> [title a it1] | None \<Rightarrow> [])
                     else []) in
          (case event_iter_cmd st CMD_NEXT it1 of
             None \<Rightarrow> None
           | Some (False, it2) \<Rightarrow> Some (out, it2)
           | Some (True, it2) \<Rightarrow>
               if it_curr it2 = it_event1 it2 then Some (out, it2)
               else case k of
                      0 \<Rightarrow> None
                    | Suc k' \<Rightarrow> map_option (\<lambda>(os, it3). (out @ os, it3)) (show_before k' test title st (if b then None else neg) it2)))"

declare show_before.simps [simp del]

text \<open>The events in between. \<open>prev\<close> is the last event that was to be printed, \<open>hide\<close> counts those held back since the last one printed.\<close>

type_synonym held = "u64 \<times> addr \<times> string option \<times> string option"

definition show_one :: "two_event_options \<Rightarrow> shown \<Rightarrow> u64 \<Rightarrow> addr \<Rightarrow> event_iter \<Rightarrow> held option \<Rightarrow> nat \<Rightarrow> printed list \<times> nat" where
  "show_one op sh delta a it prev hide =
     (let t1 = tn_time (sh_e1 sh) in
      case prev of
        None \<Rightarrow> ([P_first a delta], 0)
      | Some (pt, pa, pd, pr) \<Rightarrow>
          if op_hide_than op \<noteq> 0 \<and> it_time it - pt < op_hide_than op then ([], hide + 1)
          else
            ((if op_hide_than op \<noteq> 0 \<and> hide \<noteq> 0
              then (if hide - 1 \<noteq> 0 then [P_hidden (hide - 1)] else []) @ [P_title pa pd (pt - t1) pr] else []) @
             [case it_comm it of
                Some c \<Rightarrow> P_title a (it_debug_msg it) (it_running_time it) (Some c)
              | None \<Rightarrow> P_title a (it_debug_msg it) (it_time it - t1) (it_reason it)], 0))"

fun show_between ::
  "nat \<Rightarrow> print_env \<Rightarrow> two_event_options \<Rightarrow> multi_trace_ctx \<Rightarrow> shown \<Rightarrow> u64 \<Rightarrow> held option \<Rightarrow> nat \<Rightarrow> event_iter \<Rightarrow> (printed list \<times> event_iter) option" where
  "show_between k pe op st sh delta prev hide it =
     (let fin = (if prev = None then [P_delta delta] else []) @ (if hide \<noteq> 0 then [P_hidden hide] else []) in
      case event_iter_cmd st CMD_NEXT it of
        None \<Rightarrow> None
      | Some (False, it1) \<Rightarrow> Some (fin, it1)
      | Some (True, it1) \<Rightarrow>
          if it_curr it1 = it_event2 it1 then Some (fin, it1)
          else
            (case k of
               0 \<Rightarrow> None
             | Suc k' \<Rightarrow>
                 (case need pe st sh it1 of
                    None \<Rightarrow> None
                  | Some (False, it2) \<Rightarrow> show_between k' pe op st sh delta prev hide it2
                  | Some (True, it2) \<Rightarrow>
                      (case it_curr it2 of
                         None \<Rightarrow> None
                       | Some a \<Rightarrow>
                           let (out, hide1) = show_one op sh delta a it2 prev hide
                           in map_option (\<lambda>(os, it3). (out @ os, it3))
                                (show_between k' pe op st sh delta (Some (it_time it2, a, it_debug_msg it2, it_reason it2)) hide1 it2)))))"

declare show_between.simps [simp del]

text \<open>The events after the second; \<open>late\<close> is the time of the last one once one was printed.\<close>

fun show_after ::
  "nat \<Rightarrow> print_env \<Rightarrow> two_event_options \<Rightarrow> multi_trace_ctx \<Rightarrow> shown \<Rightarrow> u64 option \<Rightarrow> event_iter \<Rightarrow> printed list option" where
  "show_after k pe op st sh late it =
     (let fin = (case late of Some t \<Rightarrow> [P_after (t - tn_time (sh_e2 sh))] | None \<Rightarrow> []) in
      case event_iter_cmd st CMD_NEXT it of
        None \<Rightarrow> None
      | Some (False, it1) \<Rightarrow> Some fin
      | Some (True, it1) \<Rightarrow>
          if it_time it1 - tn_time (sh_e2 sh) > op_after_event2 op then Some fin
          else
            (case k of
               0 \<Rightarrow> None
             | Suc k' \<Rightarrow>
                 (case need pe st sh it1 of
                    None \<Rightarrow> None
                  | Some (b, it2) \<Rightarrow>
                      let out = (if b then (case it_curr it2 of Some a \<Rightarrow> [P_title a (it_debug_msg it2) (it_time it2 - tn_time (sh_e1 sh)) (it_reason it2)] | None \<Rightarrow> []) else [])
                      in map_option (\<lambda>os. out @ os)
                           (show_after k' pe op st sh (if b \<or> late \<noteq> None then Some (it_time it2) else None) it2))))"

declare show_after.simps [simp del]

text \<open>Following the task: where it may be next. The result says whether the raw data was read.\<close>

definition track_event :: "print_env \<Rightarrow> two_event_options \<Rightarrow> timeline_node \<Rightarrow> u64 \<Rightarrow> timeline_node \<Rightarrow> event_iter \<Rightarrow> u8 list option \<times> event_iter" where
  "track_event pe op e1 key e it =
     (let track_tid = (if op_comm op then ucast key else hdr_tid e1); t = pe_tp pe (tn_tp e) in
      if sint track_tid > 0 then
        let raw = multi_trace_raw_size (ti_stack t) e;
            (_, cpu, reason) = tp_target_cpu t raw (hdr_cpu e) track_tid (it_recent_cpu it) (it_reason it)
        in (Some raw, it\<lparr>it_recent_cpu := cpu, it_reason := reason\<rparr>)
      else (None, it))"

text \<open>For the scheduling delay; without raw data an uninitialised pointer would be used.\<close>

definition track_running :: "print_env \<Rightarrow> two_event_options \<Rightarrow> shown \<Rightarrow> u8 list option \<Rightarrow> event_iter \<Rightarrow> event_iter option" where
  "track_running pe op sh raw it =
     (if op_rundelay op then
        (case raw of
           None \<Rightarrow> None
         | Some raw \<Rightarrow>
             let e1 = sh_e1 sh;
                 it1 = it\<lparr>it_curr_cpu := (it_curr_cpu it)(0 := hdr_cpu e1, 1 := hdr_cpu (sh_e2 sh), 2 := it_recent_cpu it),
                          it_curr_time := (it_curr_time it)(0 := it_time it),
                          it_curr_pid := (it_curr_pid it)(0 := (case tp_oncpu (pe_tp pe (tn_tp e1)) raw of Some (pid, _) \<Rightarrow> pid | None \<Rightarrow> hdr_tid e1))\<rparr>
             in Some (if it_curr_cpu it1 2 = it_curr_cpu it1 0
                      then it1\<lparr>it_curr_pid := (it_curr_pid it1)(2 := it_curr_pid it1 0), it_curr_time := (it_curr_time it1)(2 := it_curr_time it1 0)\<rparr>
                      else it1))
      else Some it)"

text \<open>A pair with the events around it. The loops run over the timeline, once each.\<close>

definition show_pair :: "print_env \<Rightarrow> two_event_options \<Rightarrow> multi_trace_ctx \<Rightarrow> shown \<Rightarrow> u64 \<Rightarrow> event_iter \<Rightarrow> printed list option" where
  "show_pair pe op st sh delta it =
     (let n = rl_nr_entries (timeline st);
          it0 = it\<lparr>it_recent_cpu := (if op_comm op then hdr_cpu (sh_e1 sh) else - 1)\<rparr> in
      case (if it_start it0 \<noteq> None \<and> it_start it0 \<noteq> it_event1 it0 then
              (case event_iter_cmd st CMD_RESET it0 of
                 None \<Rightarrow> None
               | Some (_, it1) \<Rightarrow> show_before n (need pe st sh) (\<lambda>a it. P_title a (it_debug_msg it) (it_time it - tn_time (sh_e1 sh)) (it_reason it)) st
                                   (Some (it_time it1 - tn_time (sh_e1 sh))) it1)
            else Some ([], it0)) of
        None \<Rightarrow> None
      | Some (o1, it1) \<Rightarrow>
          (case event_iter_cmd st CMD_EVENT1 it1 of
             None \<Rightarrow> None
           | Some (_, it2) \<Rightarrow>
               (case track_event pe op (sh_e1 sh) (sh_key sh) (sh_e1 sh) it2 of (raw, it3) \<Rightarrow>
                  (case track_running pe op sh raw it3 of
                     None \<Rightarrow> None
                   | Some it4 \<Rightarrow>
                       (case show_between n pe op st sh delta None 0 it4 of
                          None \<Rightarrow> None
                        | Some (o2, it5) \<Rightarrow>
                            (case event_iter_cmd st CMD_EVENT2 it5 of
                               None \<Rightarrow> None
                             | Some (_, it6) \<Rightarrow>
                                 (case track_event pe op (sh_e1 sh) (sh_key sh) (sh_e2 sh) it6 of (_, it7) \<Rightarrow>
                                    (case (if op_after_event2 op \<noteq> 0 then show_after n pe op st sh None it7 else Some []) of
                                       None \<Rightarrow> None
                                     | Some o3 \<Rightarrow> Some (o1 @ [P_event (sh_e1 sh)] @ o2 @ [P_event (sh_e2 sh)] @ o3)))))))))"

definition delay_two ::
  "print_env \<Rightarrow> two_event_options \<Rightarrow> multi_trace_ctx \<Rightarrow> bool \<Rightarrow> nat \<Rightarrow> shown \<Rightarrow> event_iter option \<Rightarrow> delay_class \<Rightarrow> (delay_class \<times> printed list) option" where
  "delay_two pe op st mem two sh iter dc =
     (if tn_time (sh_e2 sh) > tn_time (sh_e1 sh) then
        let delta = tn_time (sh_e2 sh) - tn_time (sh_e1 sh) in
        case latency_dist_input mem (sh_key sh, ucast (te_id (obj (dc_base dc) two))) delta (op_greater_than op) (dc_lat_dist dc) of
          None \<Rightarrow> None
        | Some (_, ld) \<Rightarrow>
            let dc1 = dc\<lparr>dc_lat_dist := ld,
                         dc_base := set_obj two (map_option (\<lambda>ws. ws @ [(tn_time (sh_e2 sh), delta)])) (dc_base dc)\<rparr> in
            if op_greater_than op \<noteq> 0 \<and> delta > op_greater_than op \<or> op_lower_than op \<noteq> 0 \<and> delta < op_lower_than op then
              map_option (\<lambda>out. (dc1, out))
                (case iter of
                   Some it \<Rightarrow> show_pair pe op st sh delta it
                 | None \<Rightarrow> Some [P_event (sh_e1 sh), P_event (sh_e2 sh)])
            else Some (dc1, [])
      else Some (dc, []))"

text \<open>
  \<open>delay_remaining\<close>: an event that was not paired for longer than the limit is shown with what came
  after it. There is no second event, also for \<open>event_need_to_print\<close>. True is \<open>REMAINING_BREAK\<close>.
\<close>

abbreviation need_one :: "print_env \<Rightarrow> multi_trace_ctx \<Rightarrow> timeline_node \<Rightarrow> u64 \<Rightarrow> test" where
  "need_one pe st e1 key \<equiv> event_need_to_print pe st e1 None (tn_tp e1) None key"

fun remaining_after ::
  "nat \<Rightarrow> print_env \<Rightarrow> multi_trace_ctx \<Rightarrow> timeline_node \<Rightarrow> u64 \<Rightarrow> u64 \<Rightarrow> bool \<Rightarrow> event_iter \<Rightarrow> printed list option" where
  "remaining_after k pe st e1 key delta first it =
     (case event_iter_cmd st CMD_NEXT it of
        None \<Rightarrow> None
      | Some (False, it1) \<Rightarrow> Some []
      | Some (True, it1) \<Rightarrow>
          if it_curr it1 = it_event2 it1 then Some []
          else
            (case k of
               0 \<Rightarrow> None
             | Suc k' \<Rightarrow>
                 (case need_one pe st e1 key it1 of
                    None \<Rightarrow> None
                  | Some (b, it2) \<Rightarrow>
                      let out = (if b then (case it_curr it2 of Some a \<Rightarrow> [if first then P_at_least a delta else P_bar a] | None \<Rightarrow> []) else [])
                      in map_option (\<lambda>os. out @ os) (remaining_after k' pe st e1 key delta (first \<and> \<not> b) it2))))"

declare remaining_after.simps [simp del]

definition delay_remaining ::
  "print_env \<Rightarrow> two_event_options \<Rightarrow> multi_trace_ctx \<Rightarrow> remaining_reason \<Rightarrow> timeline_node \<Rightarrow> u64 \<Rightarrow> u64 \<Rightarrow> event_iter option \<Rightarrow>
   (bool \<times> printed list) option" where
  "delay_remaining pe op st rr e1 key recent iter =
     (case (if rr = REMAINING_LOST then iter else None) of
        None \<Rightarrow> Some (True, [])
      | Some it \<Rightarrow>
          let n = rl_nr_entries (timeline st); delta = recent - tn_time e1;
              it0 = it\<lparr>it_recent_cpu := (if op_comm op then hdr_cpu e1 else - 1)\<rparr> in
          if op_greater_than op = 0 then Some (True, [])
          else if delta > op_greater_than op then
            (case (if it_start it0 \<noteq> None \<and> it_start it0 \<noteq> it_event1 it0 then
                     (case event_iter_cmd st CMD_RESET it0 of
                        None \<Rightarrow> None
                      | Some (_, it1) \<Rightarrow> show_before n (need_one pe st e1 key) (\<lambda>a it. P_bar a) st (Some (it_time it1 - tn_time e1)) it1)
                   else Some ([], it0)) of
               None \<Rightarrow> None
             | Some (o1, it1) \<Rightarrow>
                 (case track_event pe op e1 key e1 it1 of (_, it2) \<Rightarrow>
                    (case event_iter_cmd st CMD_EVENT1 it2 of
                       None \<Rightarrow> None
                     | Some (_, it3) \<Rightarrow>
                         map_option (\<lambda>o2. (False, o1 @ [P_event e1] @ o2 @ [P_lost delta])) (remaining_after n pe st e1 key delta True it3))))
          else Some (False, []))"

section \<open>What is shown between the events of a pair\<close>

text \<open>
  Which events concern a pair, said without the iterator, its notes and its walk. Without a
  filter all do. Otherwise an event must come from the same side, host or guest, as an event
  of the pair, and concern a processor, process, thread or key of it. The processors are
  those of the two events and the one to which the task is followed: that one is the only thing
  remembered from one event to the next.
\<close>

definition raw_of :: "print_env \<Rightarrow> timeline_node \<Rightarrow> u8 list" where
  "raw_of pe e = (if hdr_rec_type e \<noteq> pe_record_dev pe then multi_trace_raw_size (ti_stack (pe_tp pe (tn_tp e))) e else tn_event e)"

definition follow_cpu :: "print_env \<Rightarrow> shown \<Rightarrow> timeline_node \<Rightarrow> u32 \<Rightarrow> bool \<times> u32" where
  "follow_cpu pe sh e cpu =
     (let tid = (if pe_comm pe then ucast (sh_key sh) else hdr_tid (sh_e1 sh)) in
      if sint tid > 0 then
        (case tp_target_cpu (pe_tp pe (tn_tp e)) (raw_of pe e) (hdr_cpu e) tid cpu None of
           (moves, cpu1, _) \<Rightarrow>
             if moves then (True, cpu1)
             else if \<not> pe_comm pe \<and> hdr_cpu e \<noteq> cpu1 \<and> hdr_tid e = tid then (True, hdr_cpu e)
             else (False, cpu1))
      else (False, cpu))"

text \<open>\<open>c1\<close> and \<open>c2\<close> say whether the event is from the side of the first and of the second of the pair.\<close>

definition concerns_cpu :: "print_env \<Rightarrow> shown \<Rightarrow> bool \<Rightarrow> bool \<Rightarrow> timeline_node \<Rightarrow> u32 \<Rightarrow> bool" where
  "concerns_cpu pe sh c1 c2 e cpu \<longleftrightarrow>
     (let about = tp_samecpu (pe_tp pe (tn_tp e)) (raw_of pe e); cpu1 = hdr_cpu (sh_e1 sh); cpu2 = hdr_cpu (sh_e2 sh) in
      c1 \<and> (hdr_cpu e = cpu \<or> about cpu \<or> \<not> pe_comm pe \<and> (hdr_cpu e = cpu1 \<or> about cpu1)) \<or>
      c2 \<and> \<not> pe_comm pe \<and> (hdr_cpu e = cpu2 \<or> cpu1 \<noteq> cpu2 \<and> about cpu2))"

definition concerns_task :: "(timeline_node \<Rightarrow> u32) \<Rightarrow> print_env \<Rightarrow> shown \<Rightarrow> bool \<Rightarrow> bool \<Rightarrow> timeline_node \<Rightarrow> bool" where
  "concerns_task hid pe sh c1 c2 e \<longleftrightarrow>
     (let about = tp_samepid (pe_tp pe (tn_tp e)) (raw_of pe e); id1 = (if pe_comm pe then ucast (sh_key sh) else hid (sh_e1 sh));
          id2 = hid (sh_e2 sh) in
      c1 \<and> sint id1 > 0 \<and> (hid e = id1 \<or> about id1) \<or>
      c2 \<and> sint id2 > 0 \<and> \<not> pe_comm pe \<and> (hid e = id2 \<or> hid (sh_e1 sh) \<noteq> id2 \<and> about id2))"

definition concerns :: "print_env \<Rightarrow> shown \<Rightarrow> timeline_node \<Rightarrow> u32 \<Rightarrow> bool \<times> u32" where
  "concerns pe sh e cpu =
     (let c1 = event_comparable pe (Some (tn_tp e)) (Some (tn_tp (sh_e1 sh)));
          c2 = event_comparable pe (Some (tn_tp e)) (Some (tn_tp (sh_e2 sh)));
          (moves, cpu1) = (if pe_samecpu pe \<and> hdr_cpu e \<noteq> - 1 \<and> c1 then follow_cpu pe sh e cpu else (False, cpu)) in
      (\<not> filtered pe \<or>
       (c1 \<or> c2) \<and>
       (moves \<or> pe_samecpu pe \<and> hdr_cpu e \<noteq> - 1 \<and> concerns_cpu pe sh c1 c2 e cpu1 \<or>
        pe_samepid pe \<and> concerns_task hdr_pid pe sh c1 c2 e \<or> pe_sametid pe \<and> concerns_task hdr_tid pe sh c1 c2 e \<or>
        pe_samekey pe \<and> ti_key (pe_tp pe (tn_tp e)) = ti_key (pe_tp pe (tn_tp (sh_e1 sh))) \<and> tn_key e = sh_key sh),
       cpu1))"

fun wanted :: "print_env \<Rightarrow> multi_trace_ctx \<Rightarrow> shown \<Rightarrow> u32 \<Rightarrow> addr list \<Rightarrow> addr list" where
  "wanted pe st sh cpu [] = []"
| "wanted pe st sh cpu (y # ys) =
     (let (b, cpu1) = concerns pe sh (node st y) cpu in (if b then [y] else []) @ wanted pe st sh cpu1 ys)"

text \<open>Where the task is looked for at the start: the first event may say where it goes.\<close>

definition first_cpu :: "print_env \<Rightarrow> two_event_options \<Rightarrow> shown \<Rightarrow> string option \<Rightarrow> u32" where
  "first_cpu pe op sh reason =
     (let e1 = sh_e1 sh; tid = (if op_comm op then ucast (sh_key sh) else hdr_tid e1); cpu = (if op_comm op then hdr_cpu e1 else - 1);
          t = pe_tp pe (tn_tp e1) in
      if sint tid > 0 then fst (snd (tp_target_cpu t (multi_trace_raw_size (ti_stack t) e1) (hdr_cpu e1) tid cpu reason)) else cpu)"

text \<open>What a test answers at an iterator, and the processor it leaves in it.\<close>

definition answers :: "test \<Rightarrow> event_iter \<Rightarrow> bool \<Rightarrow> u32 \<Rightarrow> bool" where
  "answers f it b cpu \<longleftrightarrow> (\<exists>it1. f it = Some (b, it1) \<and> it_recent_cpu it1 = cpu)"

definition asks :: "test \<Rightarrow> (u32 \<Rightarrow> bool) \<Rightarrow> bool" where
  "asks f p \<longleftrightarrow> (\<forall>it. answers f it (p (it_recent_cpu it)) (it_recent_cpu it))"

lemma asks_say: "asks (say msg (\<lambda>it. p (it_recent_cpu it))) p"
  by (simp add: asks_def answers_def say_def Let_def)

lemma asks_say_const: "asks (say msg (\<lambda>_. b)) (\<lambda>_. b)"
  by (rule asks_say)

lemma asks_when: "asks f p \<Longrightarrow> asks (when_test b f) (\<lambda>c. b \<and> p c)"
  by (auto simp: asks_def answers_def when_test_def)

lemma answers_or_else: "answers f it b cpu \<Longrightarrow> asks g p \<Longrightarrow> answers (or_else f g) it (b \<or> p cpu) cpu"
  unfolding answers_def asks_def or_else_def by (cases b) fastforce+

lemma asks_or_else: "asks f p \<Longrightarrow> asks g q \<Longrightarrow> asks (or_else f g) (\<lambda>c. p c \<or> q c)"
  using answers_or_else unfolding asks_def by blast

lemma asks_cong: "asks f p \<Longrightarrow> (\<And>c. p c = q c) \<Longrightarrow> asks f q"
  by (simp add: asks_def)

lemma answers_when: "(b \<Longrightarrow> answers f it p cpu) \<Longrightarrow> (\<not> b \<Longrightarrow> cpu = it_recent_cpu it) \<Longrightarrow> answers (when_test b f) it (b \<and> p) cpu"
  by (auto simp: answers_def when_test_def)

lemma asks_same_id:
  "asks (same_id m1 m2 hid pe c1 c2 e (sh_e1 sh) (Some (sh_e2 sh)) (sh_key sh) (raw_of pe e)) (\<lambda>_. concerns_task hid pe sh c1 c2 e)"
  unfolding same_id_def Let_def option.case
  by (rule asks_cong, rule asks_or_else, rule asks_when, rule asks_say_const, rule asks_when, rule asks_when, rule asks_say_const)
    (auto simp: concerns_task_def Let_def)

lemma track_follows:
  assumes "it_reason it = None"
  shows "answers (track_cpu pe e (sh_e1 sh) (sh_key sh) (raw_of pe e)) it
    (fst (follow_cpu pe sh e (it_recent_cpu it))) (snd (follow_cpu pe sh e (it_recent_cpu it)))"
  using assms by (auto simp: answers_def track_cpu_def follow_cpu_def Let_def split: prod.splits)

lemma same_cpu_answers:
  assumes "it_reason it = None" and f_def: "f = (if c1 then follow_cpu pe sh e (it_recent_cpu it) else (False, it_recent_cpu it))"
  shows "answers (same_cpu pe c1 c2 e (sh_e1 sh) (Some (sh_e2 sh)) (sh_key sh) (raw_of pe e)) it
    (fst f \<or> concerns_cpu pe sh c1 c2 e (snd f)) (snd f)"
proof -
  let ?about = "tp_samecpu (pe_tp pe (tn_tp e)) (raw_of pe e)" and ?cpu1 = "hdr_cpu (sh_e1 sh)" and ?cpu2 = "hdr_cpu (sh_e2 sh)"
  have 1: "asks (or_else (say ''samecpu-track'' (\<lambda>it. hdr_cpu e = it_recent_cpu it \<or> ?about (it_recent_cpu it)))
      (when_test (\<not> pe_comm pe) (say ''samecpu-1'' (\<lambda>_. hdr_cpu e = ?cpu1 \<or> ?about ?cpu1))))
      (\<lambda>c. (hdr_cpu e = c \<or> ?about c) \<or> (\<not> pe_comm pe \<and> (hdr_cpu e = ?cpu1 \<or> ?about ?cpu1)))"
    by (intro asks_or_else asks_when asks_say asks_say_const)
  have 2: "asks (when_test (c2 \<and> \<not> pe_comm pe) (say ''samecpu-2'' (\<lambda>_. hdr_cpu e = ?cpu2 \<or> ?cpu1 \<noteq> ?cpu2 \<and> ?about ?cpu2)))
      (\<lambda>_. (c2 \<and> \<not> pe_comm pe) \<and> (hdr_cpu e = ?cpu2 \<or> ?cpu1 \<noteq> ?cpu2 \<and> ?about ?cpu2))"
    by (intro asks_when asks_say_const)
  have 3: "answers (when_test c1 (or_else (track_cpu pe e (sh_e1 sh) (sh_key sh) (raw_of pe e))
      (or_else (say ''samecpu-track'' (\<lambda>it. hdr_cpu e = it_recent_cpu it \<or> ?about (it_recent_cpu it)))
        (when_test (\<not> pe_comm pe) (say ''samecpu-1'' (\<lambda>_. hdr_cpu e = ?cpu1 \<or> ?about ?cpu1)))))) it
      (c1 \<and> (fst f \<or> (hdr_cpu e = snd f \<or> ?about (snd f)) \<or> (\<not> pe_comm pe \<and> (hdr_cpu e = ?cpu1 \<or> ?about ?cpu1)))) (snd f)"
    using answers_or_else [OF track_follows [OF assms(1)] 1, of pe e sh] unfolding f_def by (intro answers_when) auto
  have "fst f \<longrightarrow> c1" by (cases c1) (simp_all add: f_def)
  then have "(fst f \<or> concerns_cpu pe sh c1 c2 e (snd f)) \<longleftrightarrow>
      c1 \<and> (fst f \<or> (hdr_cpu e = snd f \<or> ?about (snd f)) \<or> (\<not> pe_comm pe \<and> (hdr_cpu e = ?cpu1 \<or> ?about ?cpu1))) \<or>
      (c2 \<and> \<not> pe_comm pe) \<and> (hdr_cpu e = ?cpu2 \<or> ?cpu1 \<noteq> ?cpu2 \<and> ?about ?cpu2)"
    unfolding concerns_cpu_def Let_def by blast
  then show ?thesis using answers_or_else [OF 3 2] unfolding same_cpu_def Let_def option.case by (simp only:)
qed

lemma slot_recent [simp]:
  "it_recent_cpu (copy_slot i it) = it_recent_cpu it" "it_recent_cpu (note_slot slot cpu pid comm it) = it_recent_cpu it"
  by (simp_all add: copy_slot_def note_slot_def Let_def)

lemma running_recent:
  "running pe e e1 (Some e2) raw it = Some it1 \<Longrightarrow> it_recent_cpu it1 = it_recent_cpu it"
proof -
  have c: "it_recent_cpu (case s of None \<Rightarrow> i | Some slot \<Rightarrow> note_slot slot c n m i) = it_recent_cpu i" for s c n m i
    by (cases s) simp_all
  show "running pe e e1 (Some e2) raw it = Some it1 \<Longrightarrow> it_recent_cpu it1 = it_recent_cpu it"
    unfolding running_def Let_def
    by (cases "tp_oncpu (pe_tp pe (tn_tp e)) raw") (auto simp: c split: if_splits)
qed

text \<open>\<open>event_need_to_print\<close> chooses the events that concern the pair.\<close>

lemma need_concerns:
  assumes "it_curr it = Some y"
  shows "answers (need pe st sh) it (fst (concerns pe sh (node st y) (it_recent_cpu it))) (snd (concerns pe sh (node st y) (it_recent_cpu it)))"
proof -
  define e where "e = node st y"
  define c1 where "c1 = event_comparable pe (Some (tn_tp e)) (Some (tn_tp (sh_e1 sh)))"
  define c2 where "c2 = event_comparable pe (Some (tn_tp e)) (Some (tn_tp (sh_e2 sh)))"
  define it0 where "it0 = it\<lparr>it_reason := None\<rparr>"
  define s where "s = (pe_samecpu pe \<and> hdr_cpu e \<noteq> - 1)"
  define f where "f = (if s \<and> c1 then follow_cpu pe sh e (it_recent_cpu it) else (False, it_recent_cpu it))"
  define key where "key \<longleftrightarrow> pe_samekey pe \<and> ti_key (pe_tp pe (tn_tp e)) = ti_key (pe_tp pe (tn_tp (sh_e1 sh))) \<and> tn_key e = sh_key sh"
  let ?rest = "or_else (when_test (pe_samepid pe) (same_id ''samepid-1'' ''samepid-2'' hdr_pid pe c1 c2 e (sh_e1 sh) (Some (sh_e2 sh)) (sh_key sh) (raw_of pe e)))
    (or_else (when_test (pe_sametid pe) (same_id ''sametid-1'' ''sametid-2'' hdr_tid pe c1 c2 e (sh_e1 sh) (Some (sh_e2 sh)) (sh_key sh) (raw_of pe e)))
    (say ''samekey'' (\<lambda>_. key)))"
  let ?t = "or_else (when_test s (same_cpu pe c1 c2 e (sh_e1 sh) (Some (sh_e2 sh)) (sh_key sh) (raw_of pe e))) ?rest"
  have r: "asks ?rest (\<lambda>_. pe_samepid pe \<and> concerns_task hdr_pid pe sh c1 c2 e \<or> pe_sametid pe \<and> concerns_task hdr_tid pe sh c1 c2 e \<or> key)"
    by (intro asks_or_else asks_when asks_same_id asks_say_const)
  have "answers (when_test s (same_cpu pe c1 c2 e (sh_e1 sh) (Some (sh_e2 sh)) (sh_key sh) (raw_of pe e))) it0
      (s \<and> (fst f \<or> concerns_cpu pe sh c1 c2 e (snd f))) (snd f)"
  proof (rule answers_when)
    assume s
    then have "f = (if c1 then follow_cpu pe sh e (it_recent_cpu it0) else (False, it_recent_cpu it0))" by (simp add: f_def it0_def)
    then show "answers (same_cpu pe c1 c2 e (sh_e1 sh) (Some (sh_e2 sh)) (sh_key sh) (raw_of pe e)) it0
      (fst f \<or> concerns_cpu pe sh c1 c2 e (snd f)) (snd f)" by (rule same_cpu_answers [rotated]) (simp add: it0_def)
  qed (simp add: f_def it0_def)
  then have t: "answers ?t it0 (s \<and> (fst f \<or> concerns_cpu pe sh c1 c2 e (snd f)) \<or> pe_samepid pe \<and> concerns_task hdr_pid pe sh c1 c2 e \<or>
      pe_sametid pe \<and> concerns_task hdr_tid pe sh c1 c2 e \<or> key) (snd f)" by (rule answers_or_else [OF _ r])
  have c: "concerns pe sh e (it_recent_cpu it) =
      (\<not> filtered pe \<or> (c1 \<or> c2) \<and> (fst f \<or> s \<and> concerns_cpu pe sh c1 c2 e (snd f) \<or> pe_samepid pe \<and> concerns_task hdr_pid pe sh c1 c2 e \<or>
        pe_sametid pe \<and> concerns_task hdr_tid pe sh c1 c2 e \<or> key), snd f)"
    by (simp add: concerns_def Let_def c1_def c2_def f_def s_def key_def split: prod.splits)
  have n: "need pe st sh it = (if \<not> filtered pe then Some (True, it) else if \<not> c1 \<and> \<not> c2 then Some (False, it)
      else (case ?t it0 of None \<Rightarrow> None
            | Some (True, it1) \<Rightarrow> map_option (\<lambda>it2. (True, it2)) (running pe e (sh_e1 sh) (Some (sh_e2 sh)) (raw_of pe e) it1)
            | Some (False, it1) \<Rightarrow> Some (False, it1\<lparr>it_debug_msg := None\<rparr>)))"
    unfolding event_need_to_print_def assms option.case Let_def filtered_def e_def c1_def c2_def it0_def s_def key_def raw_of_def ..
  show ?thesis
  proof (cases "filtered pe \<and> (c1 \<or> c2)")
    case True
    obtain b it1 where b: "?t it0 = Some (b, it1)" "it_recent_cpu it1 = snd f"
      "b \<longleftrightarrow> s \<and> (fst f \<or> concerns_cpu pe sh c1 c2 e (snd f)) \<or> pe_samepid pe \<and> concerns_task hdr_pid pe sh c1 c2 e \<or>
        pe_sametid pe \<and> concerns_task hdr_tid pe sh c1 c2 e \<or> key" using t unfolding answers_def by blast
    have fs: "fst f \<Longrightarrow> s" by (cases s) (simp_all add: f_def)
    obtain it2 where it2: "running pe e (sh_e1 sh) (Some (sh_e2 sh)) (raw_of pe e) it1 = Some it2" using running_some by blast
    show ?thesis unfolding answers_def e_def [symmetric] c fst_conv snd_conv
      using True n b it2 running_recent [OF it2] fs by (cases b) auto
  next
    case False
    have "\<not> s \<or> \<not> c1" if "filtered pe" using False that by blast
    moreover have "\<not> s" if "\<not> filtered pe" using that by (simp add: s_def filtered_def)
    ultimately have "f = (False, it_recent_cpu it)" by (auto simp: f_def)
    then show ?thesis unfolding answers_def e_def [symmetric] c fst_conv snd_conv using False n by auto
  qed
qed

lemma wanted_all: "\<not> filtered pe \<Longrightarrow> wanted pe st sh cpu ys = ys"
  by (induction ys arbitrary: cpu) (auto simp: concerns_def Let_def split: prod.splits)

lemma wanted_subseq: "subseq (wanted pe st sh cpu ys) ys"
  by (induction ys arbitrary: cpu) (auto split: prod.splits)

text \<open>The events that are titled, and the number reported as hidden.\<close>

definition titles :: "printed list \<Rightarrow> addr list" where
  "titles ps = concat (map (\<lambda>p. case p of P_title a _ _ _ \<Rightarrow> [a] | P_first a _ \<Rightarrow> [a] | _ \<Rightarrow> []) ps)"

definition hidden :: "printed list \<Rightarrow> nat" where
  "hidden ps = sum_list (map (\<lambda>p. case p of P_hidden n \<Rightarrow> n | _ \<Rightarrow> 0) ps)"

lemma titles_simps [simp]:
  "titles [] = []" "titles (P_title a d t r # ps) = a # titles ps" "titles (P_first a t # ps) = a # titles ps"
  "titles (P_hidden n # ps) = titles ps" "titles (P_delta t # ps) = titles ps" "titles (ps @ qs) = titles ps @ titles qs"
  by (simp_all add: titles_def)

lemma hidden_simps [simp]:
  "hidden [] = 0" "hidden (P_title a d t r # ps) = hidden ps" "hidden (P_first a t # ps) = hidden ps"
  "hidden (P_hidden n # ps) = n + hidden ps" "hidden (P_delta t # ps) = hidden ps" "hidden (ps @ qs) = hidden ps + hidden qs"
  by (simp_all add: hidden_def)

text \<open>One event: it is titled or held back, and one that was held back is titled before it.\<close>

lemma show_one_ok:
  assumes "show_one op sh delta a it prev hide = (out, hide1)" "hide \<noteq> 0 \<longrightarrow> prev \<noteq> None \<and> op_hide_than op \<noteq> 0"
  shows "length (titles out) + hidden out + hide1 = hide + 1"
    "subseq (titles out @ (if hide1 \<noteq> 0 then [a] else [])) ((if hide \<noteq> 0 then [fst (snd (the prev))] else []) @ [a])"
    "op_hide_than op = 0 \<longrightarrow> titles out = [a]" "hide1 \<noteq> 0 \<longrightarrow> op_hide_than op \<noteq> 0"
  using assms by (auto simp: show_one_def Let_def split: option.splits prod.splits if_splits)

lemma next_on_timeline:
  assumes "table_ok k (timeline st)" "entries (timeline st) = xs @ p # y # zs" "it_curr it = Some p"
  shows "event_iter_cmd st CMD_NEXT it = Some (True, it\<lparr>it_curr := Some y, it_time := tn_time (node st y)\<rparr>)"
  using step_next [OF assms(1,2)] assms(3) by (simp add: event_iter_cmd_def Let_def)

lemma show_between_spec:
  assumes t: "table_ok k (timeline st)"
  shows "entries (timeline st) = xs @ p # ys @ q # zs \<Longrightarrow> it_curr it = Some p \<Longrightarrow> it_event2 it = Some q \<Longrightarrow> length ys \<le> n \<Longrightarrow>
    hide \<noteq> 0 \<longrightarrow> prev \<noteq> None \<and> op_hide_than op \<noteq> 0 \<Longrightarrow> as = wanted pe st sh (it_recent_cpu it) ys \<Longrightarrow>
    \<exists>out it1. show_between n pe op st sh delta prev hide it = Some (out, it1) \<and>
      length (titles out) + hidden out = length as + hide \<and>
      subseq (titles out) ((if hide \<noteq> 0 then [fst (snd (the prev))] else []) @ as) \<and> (op_hide_than op = 0 \<longrightarrow> titles out = as) \<and>
      it_event1 it1 = it_event1 it \<and> it_event2 it1 = it_event2 it"
proof (induction ys arbitrary: xs p it n prev hide as)
  case Nil
  have e: "event_iter_cmd st CMD_NEXT it = Some (True, it\<lparr>it_curr := Some q, it_time := tn_time (node st q)\<rparr>)"
    using next_on_timeline [OF t, of xs p q zs it] Nil.prems by simp
  show ?case using e Nil.prems(3,5,6) by (subst show_between.simps) auto
next
  case (Cons y ys)
  let ?it = "it\<lparr>it_curr := Some y, it_time := tn_time (node st y)\<rparr>"
  have e: "event_iter_cmd st CMD_NEXT it = Some (True, ?it)"
    using next_on_timeline [OF t, of xs p y "ys @ q # zs" it] Cons.prems by simp
  have d: "distinct (entries (timeline st))" using t by (auto simp: table_ok_def strict_sorted_iff distinct_map)
  then have yq: "y \<noteq> q" using Cons.prems(1) by auto
  obtain m where m: "n = Suc m" "length ys \<le> m" using Cons.prems(4) by (cases n) auto
  obtain b it2 where nd: "need pe st sh ?it = Some (b, it2)" "pos it2 = pos ?it"
    using need_answers [of ?it y pe st "sh_e1 sh" "sh_e2 sh" "tn_tp (sh_e1 sh)" "Some (tn_tp (sh_e2 sh))" "sh_key sh"] by auto
  have p2: "it_curr it2 = Some y" "it_event2 it2 = Some q" "it_event1 it2 = it_event1 it" using posD [OF nd(2)] Cons.prems(3) by simp_all
  have cc: "concerns pe sh (node st y) (it_recent_cpu it) = (b, it_recent_cpu it2)"
    using need_concerns [of ?it y pe st sh] nd(1) by (auto simp: answers_def prod_eq_iff)
  have en: "entries (timeline st) = (xs @ [p]) @ y # ys @ q # zs" using Cons.prems(1) by simp
  define as2 where "as2 = wanted pe st sh (it_recent_cpu it2) ys"
  have as: "as = (if b then [y] else []) @ as2" using Cons.prems(6) cc by (simp add: as2_def)
  show ?case
  proof (cases b)
    case False
    from Cons.IH [OF en p2(1,2) m(2) Cons.prems(5) as2_def] obtain out it3 where ih:
      "show_between m pe op st sh delta prev hide it2 = Some (out, it3)"
      "length (titles out) + hidden out = length as2 + hide" "subseq (titles out) ((if hide \<noteq> 0 then [fst (snd (the prev))] else []) @ as2)"
      "op_hide_than op = 0 \<longrightarrow> titles out = as2" "it_event1 it3 = it_event1 it2" "it_event2 it3 = it_event2 it2" by (elim exE conjE)
    moreover have "show_between n pe op st sh delta prev hide it = Some (out, it3)"
      using e nd(1) yq m(1) p2 Cons.prems(3) False ih(1) by (subst show_between.simps) simp
    ultimately show ?thesis using p2 Cons.prems(3) as False by (intro exI [of _ out] exI [of _ it3]) simp
  next
    case True
    obtain out hide1 where o: "show_one op sh delta y it2 prev hide = (out, hide1)" by fastforce
    note so = show_one_ok [OF o Cons.prems(5)]
    let ?prev = "Some (it_time it2, y, it_debug_msg it2, it_reason it2)"
    have "hide1 \<noteq> 0 \<longrightarrow> ?prev \<noteq> None \<and> op_hide_than op \<noteq> 0" using so(4) by simp
    from Cons.IH [OF en p2(1,2) m(2) this as2_def, unfolded option.sel fst_conv snd_conv] obtain out2 it3 where ih:
      "show_between m pe op st sh delta ?prev hide1 it2 = Some (out2, it3)"
      "length (titles out2) + hidden out2 = length as2 + hide1" "subseq (titles out2) ((if hide1 \<noteq> 0 then [y] else []) @ as2)"
      "op_hide_than op = 0 \<longrightarrow> titles out2 = as2" "it_event1 it3 = it_event1 it2" "it_event2 it3 = it_event2 it2" by (elim exE conjE)
    have "subseq (titles out @ titles out2) (titles out @ (if hide1 \<noteq> 0 then [y] else []) @ as2)"
      using list_emb_append_mono [OF subseq_order.order_refl ih(3), of "titles out"] .
    also have "subseq \<dots> ((if hide \<noteq> 0 then [fst (snd (the prev))] else []) @ y # as2)"
      using list_emb_append_mono [OF so(2), of as2 as2] by simp
    finally have "subseq (titles out @ titles out2) ((if hide \<noteq> 0 then [fst (snd (the prev))] else []) @ y # as2)" .
    moreover have "show_between n pe op st sh delta prev hide it = Some (out @ out2, it3)"
      using e nd(1) yq m(1) p2 Cons.prems(3) True o ih(1) by (subst show_between.simps) simp
    ultimately show ?thesis
      using so(1,3) ih(2,4-6) p2 Cons.prems(3) as True by (intro exI [of _ "out @ out2"] exI [of _ it3]) auto
  qed
qed

lemma track_pos: "pos (snd (track_event pe op e1 key e it)) = pos it"
  by (simp add: track_event_def Let_def split: prod.splits)

lemma track_running_pos: "\<not> op_rundelay op \<or> raw \<noteq> None \<Longrightarrow> \<exists>it1. track_running pe op sh raw it = Some it1 \<and> pos it1 = pos it"
  by (auto simp: track_running_def Let_def)

lemma track_recent:
  "it_recent_cpu (snd (track_event pe op (sh_e1 sh) (sh_key sh) (sh_e1 sh) (it\<lparr>it_recent_cpu := (if op_comm op then hdr_cpu (sh_e1 sh) else - 1)\<rparr>))) =
     first_cpu pe op sh (it_reason it)"
  by (auto simp: track_event_def first_cpu_def Let_def split: prod.splits)

lemma track_running_recent: "track_running pe op sh raw it = Some it1 \<Longrightarrow> it_recent_cpu it1 = it_recent_cpu it"
  by (auto simp: track_running_def Let_def split: if_splits option.splits)

text \<open>
  C21. A pair is shown as its first event, the events of the timeline strictly between the two
  that concern it, and its second event, and the loop over the timeline ends. The events that
  concern it are those that the filters by processor (the task is followed from processor to
  processor), process, thread and key choose, all of them when there is no filter. Each is
  titled, in its order, or counted in a line of hidden events; without a hiding time all are
  titled. This is the case of a window that starts at the first event (nothing is asked for from
  before it) and ends at the second; the option \<open>--rundelay\<close> needs a positive
  number of the task, without which the program reads a pointer that was not set.
\<close>

theorem show_pair_between:
  assumes t: "table_ok k (timeline st)" and e: "entries (timeline st) = xs @ p # ys @ q # zs"
    and it: "it_start it = Some p" "it_event1 it = Some p" "it_event2 it = Some q"
    and op: "op_after_event2 op = 0" "\<not> op_rundelay op \<or> sint (if op_comm op then ucast (sh_key sh) else hdr_tid (sh_e1 sh)) > 0"
    and as: "as = wanted pe st sh (first_cpu pe op sh (it_reason it)) ys"
  shows "\<exists>out. show_pair pe op st sh delta it = Some (P_event (sh_e1 sh) # out @ [P_event (sh_e2 sh)]) \<and>
    subseq as ys \<and> (\<not> filtered pe \<longrightarrow> as = ys) \<and> subseq (titles out) as \<and> length (titles out) + hidden out = length as \<and>
    (op_hide_than op = 0 \<longrightarrow> titles out = as)"
proof -
  let ?it0 = "it\<lparr>it_recent_cpu := (if op_comm op then hdr_cpu (sh_e1 sh) else - 1)\<rparr>"
  define it2 where "it2 = ?it0\<lparr>it_curr := Some p, it_time := tn_time (node st p)\<rparr>"
  obtain raw it3 where 3: "track_event pe op (sh_e1 sh) (sh_key sh) (sh_e1 sh) it2 = (raw, it3)" by fastforce
  then have p3: "pos it3 = pos it2" using track_pos [of pe op "sh_e1 sh" "sh_key sh" "sh_e1 sh" it2] by simp
  have "\<not> op_rundelay op \<or> raw \<noteq> None" using op(2) 3 by (auto simp: track_event_def Let_def split: prod.splits if_splits)
  then obtain it4 where 4: "track_running pe op sh raw it3 = Some it4" "pos it4 = pos it3" using track_running_pos by blast
  have "it2 = it\<lparr>it_curr := Some p, it_time := tn_time (node st p), it_recent_cpu := (if op_comm op then hdr_cpu (sh_e1 sh) else - 1)\<rparr>"
    by (simp add: it2_def)
  then have "it_recent_cpu it3 = first_cpu pe op sh (it_reason it)"
    using track_recent [of pe op sh "it\<lparr>it_curr := Some p, it_time := tn_time (node st p)\<rparr>"] 3 by simp
  then have as4: "as = wanted pe st sh (it_recent_cpu it4) ys" using as track_running_recent [OF 4(1)] by simp
  have p4: "it_curr it4 = Some p" "it_event1 it4 = Some p" "it_event2 it4 = Some q"
    using posD [OF 4(2)] posD [OF p3] it by (simp_all add: it2_def)
  have n: "length ys \<le> rl_nr_entries (timeline st)" using t e by (simp add: table_ok_def)
  obtain out it5 where 5: "show_between (rl_nr_entries (timeline st)) pe op st sh delta None 0 it4 = Some (out, it5)"
      "length (titles out) + hidden out = length as" "subseq (titles out) as" "op_hide_than op = 0 \<longrightarrow> titles out = as"
      "it_event2 it5 = it_event2 it4"
    using show_between_spec [OF t e p4(1,3) n _ as4, of 0 None op delta, simplified] by (elim exE conjE)
  obtain r7 it7 where 7: "track_event pe op (sh_e1 sh) (sh_key sh) (sh_e2 sh) (it5\<lparr>it_curr := Some q, it_time := tn_time (node st q)\<rparr>) = (r7, it7)" by fastforce
  have "show_pair pe op st sh delta it = Some (P_event (sh_e1 sh) # out @ [P_event (sh_e2 sh)])"
    using it op(1) 3 4(1) 5(1,5) p4(3) 7 by (simp add: show_pair_def event_iter_cmd_def it2_def Let_def)
  then show ?thesis using 5(2-4) wanted_subseq wanted_all as by (intro exI [of _ out]) auto
qed

definition demo_pe :: print_env where
  "demo_pe = \<lparr>pe_samecpu = False, pe_samepid = False, pe_sametid = False, pe_samekey = False, pe_verbose = False, pe_comm = False,
     pe_rundelay = False, pe_record_dev = 0, pe_tp = (\<lambda>_. \<lparr>ti_kernel = True, ti_vcpu = False, ti_stack = False, ti_key = False, ti_matcher = None\<rparr>)\<rparr>"

definition demo_op :: two_event_options where
  "demo_op = \<lparr>op_perins = True, op_comm = False, op_rundelay = False, op_greater_than = 0, op_lower_than = 0, op_hide_than = 0,
     op_after_event2 = 0, op_heatmap = True, op_only_print_greater_than = False, op_sort_print = True\<rparr>"

definition demo_timeline :: "addr rblist" where
  "demo_timeline =
     \<lparr>rl_tree = Nd Black (Nd Black (Nd Red Lf 1 Lf) 2 Lf) 3 (Nd Black Lf 4 Lf), rl_leftmost = Some 1, rl_nr_entries = 4\<rparr>"

text \<open>Two events in between; the filter by key drops the second of them.\<close>

theorem show_pair_between_witness:
  "\<exists>n it st out. it_event1 it = Some 1 \<and> it_event2 it = Some 4 \<and> entries (timeline st) = [1, 2, 3, 4] \<and>
     show_pair (demo_pe\<lparr>pe_samekey := True\<rparr>) demo_op st \<lparr>sh_e1 = n, sh_e2 = n, sh_key = 5\<rparr> 9 it =
       Some (P_event n # out @ [P_event n]) \<and> titles out = [2] \<and> hidden out = 0"
proof -
  fix n :: timeline_node and it :: event_iter
  let ?pe = "demo_pe\<lparr>pe_samekey := True\<rparr>" and ?sh = "\<lparr>sh_e1 = n, sh_e2 = n, sh_key = 5\<rparr>"
  let ?st = "multi_trace_init\<lparr>timeline := demo_timeline, heap := [2 \<mapsto> n\<lparr>tn_key := 5\<rparr>, 3 \<mapsto> n\<lparr>tn_key := 6\<rparr>]\<rparr>"
  let ?it = "it\<lparr>it_start := Some 1, it_event1 := Some 1, it_event2 := Some 4\<rparr>"
  have t: "table_ok (\<lambda>a. a) (timeline ?st)" "entries (timeline ?st) = [] @ 1 # [2, 3] @ 4 # []"
    by (simp_all add: demo_timeline_def table_ok_def rbt_def)
  have w: "wanted ?pe ?st ?sh c [2, 3] = [2]" for c
    by (simp add: concerns_def filtered_def demo_pe_def event_comparable_def Let_def)
  obtain out where "show_pair ?pe demo_op ?st ?sh 9 ?it = Some (P_event n # out @ [P_event n])"
    "length (titles out) + hidden out = 1" "titles out = [2]"
    using show_pair_between [OF t, of ?it demo_op ?sh _ ?pe 9] unfolding w by (auto simp: demo_op_def)
  then show ?thesis using t(2) by (intro exI [of _ n] exI [of _ ?it] exI [of _ ?st] exI [of _ out]) simp
qed

end
