(* ===== verification/Two_Stats.thy ===== *)
theory Two_Stats
  imports Two_Delay
begin

text \<open>
  From events to statistics: \<open>multi_trace_init\<close> makes the objects of a trace by levels, the pairing
  of \<open>src/multi-trace.c\<close> calls \<open>delay_two\<close> of \<open>src/two-event.c\<close>, which fills the tables of
  \<open>src/latency_helpers.c\<close>.
\<close>

section \<open>The objects of a trace\<close>

text \<open>\<open>dev\<close> are the tracepoints that stand for other devices, \<open>ptr\<close> the addresses of tracepoints.\<close>

definition traced :: "(tpid \<Rightarrow> bool) \<Rightarrow> mt_conf \<Rightarrow> nat \<Rightarrow> tpid list" where
  "traced dev cf k = filter (\<lambda>p. \<not> dev p \<and> \<not> tp_untraced (tp_at cf p)) (map (\<lambda>j. (k, j)) [0..<length (mc_tp_list cf ! k)])"

definition level_pairs :: "(tpid \<Rightarrow> bool) \<Rightarrow> (tpid \<Rightarrow> nat) \<Rightarrow> mt_conf \<Rightarrow> (nat \<times> nat) list" where
  "level_pairs dev ptr cf =
     (let n = length (mc_tp_list cf) in
      concat (map (\<lambda>k. concat (map (\<lambda>p. (ptr p, 0) # map (\<lambda>q. (ptr p, ptr q)) (traced dev cf ((k + 1) mod n))) (traced dev cf k)))
        [0..<n - (if mc_cycle cf then 0 else 1)]))"

text \<open>The loop of \<open>multi_trace_init\<close> for the analysis of delays; None when an object cannot be made.\<close>

fun delay_news :: "bool \<Rightarrow> bool \<Rightarrow> (nat \<Rightarrow> nat) \<Rightarrow> two_event_options \<Rightarrow> (nat \<times> nat) list \<Rightarrow> delay_class \<Rightarrow> delay_class option" where
  "delay_news mem opened len op [] dc = Some dc"
| "delay_news mem opened len op ((tp1, tp2) # ps) dc =
     (case delay_new mem opened len op tp1 tp2 dc of
        Some (Some a, dc1) \<Rightarrow> delay_news mem opened len op ps dc1
      | _ \<Rightarrow> None)"

definition init_objects :: "bool \<Rightarrow> bool \<Rightarrow> (nat \<Rightarrow> nat) \<Rightarrow> two_event_options \<Rightarrow> (tpid \<Rightarrow> bool) \<Rightarrow> (tpid \<Rightarrow> nat) \<Rightarrow> mt_conf \<Rightarrow> delay_class option" where
  "init_objects mem opened len op dev ptr cf = delay_news mem opened len op (level_pairs dev ptr cf) (delay_class_new op)"

lemma delay_new_ok:
  assumes ok: "class_ok (dc_base dc)" and ids: "cl_ids (dc_base dc) < cl_ids (dc_base dc) + 1"
  shows "\<exists>a dc1. delay_new True opened len op tp1 tp2 dc = Some (Some a, dc1) \<and> class_ok (dc_base dc1) \<and> dc_lat_dist dc1 = dc_lat_dist dc \<and>
    dom (class_map (dc_base dc1)) = insert (tp1, tp2) (dom (class_map (dc_base dc))) \<and>
    (cl_ids (dc_base dc1) = cl_ids (dc_base dc) \<or> cl_ids (dc_base dc1) = cl_ids (dc_base dc) + 1)"
proof -
  obtain a c1 where c1: "two_event_new True None tp1 tp2 (dc_base dc) = Some (Some a, c1)" "class_ok c1"
      "case class_map (dc_base dc) (tp1, tp2) of Some i \<Rightarrow> c1 = dc_base dc
       | None \<Rightarrow> class_map c1 = (class_map (dc_base dc))((tp1, tp2) \<mapsto> cl_ids (dc_base dc)) \<and> cl_ids c1 = cl_ids (dc_base dc) + 1"
    using new_ok [OF ok ids] by blast
  have "dom (class_map c1) = insert (tp1, tp2) (dom (class_map (dc_base dc)))"
      "cl_ids c1 = cl_ids (dc_base dc) \<or> cl_ids c1 = cl_ids (dc_base dc) + 1"
    using c1(3) by (auto split: option.splits)
  then show ?thesis using c1(1,2) by (simp add: delay_new_def set_obj_same)
qed

lemma delay_news_ok:
  "class_ok (dc_base dc) \<Longrightarrow> unat (cl_ids (dc_base dc)) + length ps < 2 ^ 32 \<Longrightarrow>
   \<exists>dc1. delay_news True opened len op ps dc = Some dc1 \<and> class_ok (dc_base dc1) \<and> dc_lat_dist dc1 = dc_lat_dist dc \<and>
     dom (class_map (dc_base dc1)) = set ps \<union> dom (class_map (dc_base dc))"
proof (induction ps arbitrary: dc)
  case (Cons p ps)
  obtain tp1 tp2 where p: "p = (tp1, tp2)" by (cases p)
  have u: "unat (cl_ids (dc_base dc) + 1) = unat (cl_ids (dc_base dc)) + 1" using Cons.prems(2) by (intro unat_Suc32) simp
  then have nw: "cl_ids (dc_base dc) < cl_ids (dc_base dc) + 1" by (simp add: word_less_nat_alt)
  obtain a dc1 where 1: "delay_new True opened len op tp1 tp2 dc = Some (Some a, dc1)" "class_ok (dc_base dc1)" "dc_lat_dist dc1 = dc_lat_dist dc"
      "dom (class_map (dc_base dc1)) = insert (tp1, tp2) (dom (class_map (dc_base dc)))"
      "cl_ids (dc_base dc1) = cl_ids (dc_base dc) \<or> cl_ids (dc_base dc1) = cl_ids (dc_base dc) + 1"
    using delay_new_ok [OF Cons.prems(1) nw] by blast
  have "unat (cl_ids (dc_base dc1)) + length ps < 2 ^ 32" using 1(5) u Cons.prems(2) by auto
  from Cons.IH [OF 1(2) this] show ?case using 1(1,3,4) p by auto
qed simp


lemma init_objects_ok:
  assumes "length (level_pairs dev ptr cf) < 2 ^ 32"
  obtains dc where "init_objects True opened len op dev ptr cf = Some dc" "class_ok (dc_base dc)"
    "dc_lat_dist dc = latency_dist_new_quantile (op_perins op) True 0" "dom (class_map (dc_base dc)) = set (level_pairs dev ptr cf)"
proof -
  have b: "dc_base (delay_class_new op) = two_event_class_new" "dc_lat_dist (delay_class_new op) = latency_dist_new_quantile (op_perins op) True 0"
    by (simp_all add: delay_class_new_def)
  have "unat (cl_ids (dc_base (delay_class_new op))) + length (level_pairs dev ptr cf) < 2 ^ 32" using assms b by (simp add: two_event_class_new_def)
  moreover have "class_ok (dc_base (delay_class_new op))" unfolding b by (rule class_new_ok)
  ultimately obtain dc where "init_objects True opened len op dev ptr cf = Some dc" "class_ok (dc_base dc)"
      "dc_lat_dist dc = dc_lat_dist (delay_class_new op)" "dom (class_map (dc_base dc)) = set (level_pairs dev ptr cf)"
    using delay_news_ok [of "delay_class_new op" "level_pairs dev ptr cf" opened len op] unfolding init_objects_def b(1) class_new_ok(2) by auto
  then show thesis using that b(2) by simp
qed

section \<open>The calls of a trace\<close>

text \<open>
  The calls of \<open>two(A, B)\<close> that \<open>multi_trace_tryto_call_two\<close> makes when there is no timeline. The
  other calls do not change the class: \<open>delay_remaining\<close> and \<open>multi_trace_print_lost\<close> only print.
\<close>

definition delay_call :: "print_env \<Rightarrow> two_event_options \<Rightarrow> (tpid \<Rightarrow> nat) \<Rightarrow> multi_trace_ctx \<Rightarrow> call \<Rightarrow> delay_class \<Rightarrow> delay_class option" where
  "delay_call pe op ptr st c dc =
     (case c of
        Two a (Some b) _ _ \<Rightarrow>
          (case two_event_find (dc_base dc) (ptr (tn_tp a)) (ptr (tn_tp b)) of
             None \<Rightarrow> Some dc
           | Some two \<Rightarrow> map_option fst (delay_two pe op st True two \<lparr>sh_e1 = a, sh_e2 = b, sh_key = tn_key b\<rparr> None dc))
      | _ \<Rightarrow> Some dc)"

fun delay_calls :: "print_env \<Rightarrow> two_event_options \<Rightarrow> (tpid \<Rightarrow> nat) \<Rightarrow> multi_trace_ctx \<Rightarrow> call list \<Rightarrow> delay_class \<Rightarrow> delay_class option" where
  "delay_calls pe op ptr st [] dc = Some dc"
| "delay_calls pe op ptr st (c # cs) dc = Option.bind (delay_call pe op ptr st c dc) (delay_calls pe op ptr st cs)"

text \<open>The sample that a pair is for the statistics.\<close>

definition pair_sample :: "two_event_options \<Rightarrow> (tpid \<Rightarrow> nat) \<Rightarrow> (nat \<times> nat \<rightharpoonup> u32) \<Rightarrow> timeline_node \<times> timeline_node \<Rightarrow> sample" where
  "pair_sample op ptr m q =
     (case q of (a, b) \<Rightarrow> ((tn_key b, ucast (the (m (ptr (tn_tp a), ptr (tn_tp b))))), tn_time b - tn_time a, op_greater_than op))"

lemma ucast_32_64: "(ucast (x :: u32) :: u64) = ucast y \<longleftrightarrow> x = y"
proof -
  have "unat (ucast z :: u64) = unat z" for z :: u32 using unsigned_less [of z, where 'a = nat] by (simp add: unsigned_ucast_eq take_bit_nat_eq_self)
  then show ?thesis by (metis word_unat_eq_iff)
qed

lemma pair_sample_norm [simp]: "pair_sample op ptr m (norm a, norm b) = pair_sample op ptr m (a, b)"
  by (simp add: pair_sample_def)

lemma delay_two_ok:
  assumes ok: "class_ok (dc_base dc)" and f: "two_event_find (dc_base dc) (ptr (tn_tp a)) (ptr (tn_tp b)) = Some two"
    and t: "tn_time a < tn_time b" and s: "summarised ss (dc_lat_dist dc)"
  shows "\<exists>dc1 out rl. delay_two pe op st True two \<lparr>sh_e1 = a, sh_e2 = b, sh_key = tn_key b\<rparr> None dc = Some (dc1, out) \<and>
    class_ok (dc_base dc1) \<and> class_map (dc_base dc1) = class_map (dc_base dc) \<and> two_event_find (dc_base dc1) = two_event_find (dc_base dc) \<and>
    dc_lat_dist dc1 = (dc_lat_dist dc)\<lparr>ld_lat := rl\<rparr> \<and> summarised (ss @ [pair_sample op ptr (class_map (dc_base dc)) (a, b)]) (dc_lat_dist dc1)"
proof -
  have i: "class_map (dc_base dc) (ptr (tn_tp a), ptr (tn_tp b)) = Some (idkey (dc_base dc) two)" using f find_pair [OF ok] by (simp add: class_map_def)
  obtain rl where rl: "latency_dist_input True (tn_key b, ucast (idkey (dc_base dc) two)) (tn_time b - tn_time a) (op_greater_than op) (dc_lat_dist dc) =
      Some (True, (dc_lat_dist dc)\<lparr>ld_lat := rl\<rparr>)"
      "summarised (ss @ [pair_sample op ptr (class_map (dc_base dc)) (a, b)]) ((dc_lat_dist dc)\<lparr>ld_lat := rl\<rparr>)"
    using input_summarised [OF s] i unfolding pair_sample_def by fastforce
  show ?thesis
    using rl t set_obj_same(1-3) [OF ok] by (auto simp: delay_two_def Let_def)
qed

lemma delay_calls_ok:
  "class_ok (dc_base dc) \<Longrightarrow> summarised ss (dc_lat_dist dc) \<Longrightarrow>
   \<forall>(a, b)\<in>set (pairs cs). tn_time a < tn_time b \<and> two_event_find (dc_base dc) (ptr (tn_tp a)) (ptr (tn_tp b)) \<noteq> None \<Longrightarrow>
   \<exists>dc1 rl. delay_calls pe op ptr st cs dc = Some dc1 \<and> class_ok (dc_base dc1) \<and> class_map (dc_base dc1) = class_map (dc_base dc) \<and>
     dc_lat_dist dc1 = (dc_lat_dist dc)\<lparr>ld_lat := rl\<rparr> \<and> summarised (ss @ map (pair_sample op ptr (class_map (dc_base dc))) (pairs cs)) (dc_lat_dist dc1)"
proof (induction cs arbitrary: dc ss)
  case Nil
  then show ?case by (auto intro: exI [of _ "ld_lat (dc_lat_dist dc)"])
next
  case (Cons c cs)
  have pc: "pairs (c # cs) = pairs [c] @ pairs cs" using pairs_simps(2) [of "[c]" cs] by simp
  show ?case
  proof (cases "pairs [c] = []")
    case True
    then have "delay_call pe op ptr st c dc = Some dc" by (auto simp: delay_call_def pairs_def split: call.splits option.splits)
    then show ?thesis using Cons.IH [OF Cons.prems(1,2)] Cons.prems(3) pc True by simp
  next
    case False
    then obtain a b x y where c: "c = Two a (Some b) x y" by (auto simp: pairs_def split: call.splits option.splits)
    have p: "pairs [c] = [(norm a, norm b)]" using c by simp
    have t: "tn_time a < tn_time b" and "two_event_find (dc_base dc) (ptr (tn_tp a)) (ptr (tn_tp b)) \<noteq> None"
      using Cons.prems(3) unfolding pc p by auto
    then obtain two where f: "two_event_find (dc_base dc) (ptr (tn_tp a)) (ptr (tn_tp b)) = Some two" by auto
    obtain dc1 out rl where d: "delay_two pe op st True two \<lparr>sh_e1 = a, sh_e2 = b, sh_key = tn_key b\<rparr> None dc = Some (dc1, out)"
        "class_ok (dc_base dc1)" "class_map (dc_base dc1) = class_map (dc_base dc)" "two_event_find (dc_base dc1) = two_event_find (dc_base dc)"
        "dc_lat_dist dc1 = (dc_lat_dist dc)\<lparr>ld_lat := rl\<rparr>" "summarised (ss @ [pair_sample op ptr (class_map (dc_base dc)) (a, b)]) (dc_lat_dist dc1)"
      using delay_two_ok [OF Cons.prems(1) f t Cons.prems(2), of pe op st] by (elim exE conjE)
    have "delay_call pe op ptr st c dc = Some dc1" using c f d(1) by (simp add: delay_call_def)
    moreover have "\<forall>(a, b)\<in>set (pairs cs). tn_time a < tn_time b \<and> two_event_find (dc_base dc1) (ptr (tn_tp a)) (ptr (tn_tp b)) \<noteq> None"
      using Cons.prems(3) d(4) unfolding pc by auto
    note Cons.IH [OF d(2,6) this]
    ultimately show ?thesis using d(3,5) by (auto simp: pc p)
  qed
qed

section \<open>From events to statistics\<close>

text \<open>The objects that \<open>multi_trace_ctx\<close> finds are those of the class.\<close>

definition finds_in :: "delay_class \<Rightarrow> (tpid \<Rightarrow> nat) \<Rightarrow> mt_conf \<Rightarrow> bool" where
  "finds_in dc ptr cf \<longleftrightarrow>
     mc_object_find cf = (\<lambda>p q. two_event_find (dc_base dc) (ptr p) (case q of None \<Rightarrow> 0 | Some q \<Rightarrow> ptr q) \<noteq> None)"

lemma traced_delays:
  assumes es: "at_once cf es" and n: "length (level_pairs dev ptr cf) < 2 ^ 32"
    and dc: "init_objects True opened len op dev ptr cf = Some dc" and fd: "finds_in dc ptr cf"
  obtains st dc1 where "multi_trace_run cf es multi_trace_init = Some st" "delay_calls pe op ptr st (calls st) dc = Some dc1"
    "class_ok (dc_base dc1)" "class_map (dc_base dc1) = class_map (dc_base dc)" "dom (class_map (dc_base dc)) = set (level_pairs dev ptr cf)"
    "ld_perins (dc_lat_dist dc1) = op_perins op" "ld_perkey (dc_lat_dist dc1)"
    "summarised (map (pair_sample op ptr (class_map (dc_base dc))) (fst (spec_run cf 0 Map.empty es))) (dc_lat_dist dc1)"
    "\<forall>(a, b)\<in>set (fst (spec_run cf 0 Map.empty es)). class_map (dc_base dc) (ptr (tn_tp a), ptr (tn_tp b)) \<noteq> None"
proof -
  obtain dc' where "init_objects True opened len op dev ptr cf = Some dc'" "class_ok (dc_base dc')"
    "dc_lat_dist dc' = latency_dist_new_quantile (op_perins op) True 0" "dom (class_map (dc_base dc')) = set (level_pairs dev ptr cf)"
    by (rule init_objects_ok [OF n])
  then have ok: "class_ok (dc_base dc)" "dc_lat_dist dc = latency_dist_new_quantile (op_perins op) True 0"
      "dom (class_map (dc_base dc)) = set (level_pairs dev ptr cf)" using dc by auto
  let ?ps = "fst (spec_run cf 0 Map.empty es)" and ?m = "class_map (dc_base dc)"
  obtain st where st: "multi_trace_run cf es multi_trace_init = Some st" "pairs (calls st) = ?ps" by (rule init_run [OF es])
  have "pairs_ok cf 0 Map.empty ?ps" using es by (intro spec_run_pairs) (simp_all add: kept_inv_def at_once_def)
  then have g: "tn_time a < tn_time b" "two_event_find (dc_base dc) (ptr (tn_tp a)) (ptr (tn_tp b)) \<noteq> None" if "(a, b) \<in> set ?ps" for a b
    using that fd by (auto simp: pairs_ok_def good_pair_def finds_in_def)
  then have "\<forall>(a, b)\<in>set (pairs (calls st)). tn_time a < tn_time b \<and> two_event_find (dc_base dc) (ptr (tn_tp a)) (ptr (tn_tp b)) \<noteq> None"
    unfolding st(2) by blast
  moreover have s0: "summarised [] (dc_lat_dist dc)" using ok(2) new_summarised(2) by simp
  ultimately obtain dc1 rl where d: "delay_calls pe op ptr st (calls st) dc = Some dc1" "dc_lat_dist dc1 = (dc_lat_dist dc)\<lparr>ld_lat := rl\<rparr>"
      "summarised (map (pair_sample op ptr ?m) ?ps) (dc_lat_dist dc1)" "class_ok (dc_base dc1)" "class_map (dc_base dc1) = ?m"
    using delay_calls_ok [OF ok(1) s0, of "calls st" ptr pe op st] st(2) by auto
  have l: "ld_perins (dc_lat_dist dc1) = op_perins op" "ld_perkey (dc_lat_dist dc1)" using d(2) ok(2) by (simp_all add: latency_dist_new_quantile_def latency_dist_new_def)
  have "?m (ptr (tn_tp a), ptr (tn_tp b)) \<noteq> None" if "(a, b) \<in> set ?ps" for a b
    using g(2) [OF that] find_pair [OF ok(1)] by (simp add: class_map_def)
  then show thesis using that st(1) d ok(3) l by blast
qed

text \<open>
  C12. Without a timeline, a trace with the objects of \<open>multi_trace_init\<close> leaves in the statistics of
  an object, for a key when they are per instance, what the pairs of the trace say: a node
  exactly when there was such a pair, the number and the sum of the times between the two
  events modulo \<open>2 ^ 64\<close>, the least, the greatest and how many exceed the limit. Every two
  traced events of neighbouring levels have an object.
\<close>

theorem delay_statistics:
  assumes es: "at_once cf es" "\<not> mc_need_timeline cf" and n: "length (level_pairs dev ptr cf) < 2 ^ 32"
    and dc: "init_objects True opened len op dev ptr cf = Some dc" and fd: "finds_in dc ptr cf"
  shows "dom (class_map (dc_base dc)) = set (level_pairs dev ptr cf) \<and>
    (\<exists>st dc1. multi_trace_run cf es multi_trace_init = Some st \<and> delay_calls pe op ptr st (calls st) dc = Some dc1 \<and>
      (\<forall>k i. let xs = filter (\<lambda>(a, b). (op_perins op \<longrightarrow> tn_key b = k) \<and> class_map (dc_base dc) (ptr (tn_tp a), ptr (tn_tp b)) = Some i)
                   (fst (spec_run cf 0 Map.empty es));
                 ds = map (\<lambda>(a, b). tn_time b - tn_time a) xs in
         case latency_dist_find (k, ucast i) (dc_lat_dist dc1) of
           None \<Rightarrow> xs = []
         | Some l \<Rightarrow> xs \<noteq> [] \<and> ln_n l = of_nat (length xs) \<and> ln_sum l = sum_list ds \<and> ln_min l = Min (set ds) \<and> ln_max l = Max (set ds) \<and>
             ln_than l = of_nat (length (filter (\<lambda>d. op_greater_than op \<noteq> 0 \<and> d > op_greater_than op) ds))))"
proof -
  let ?ps = "fst (spec_run cf 0 Map.empty es)" and ?m = "class_map (dc_base dc)"
  obtain st dc1 where d: "multi_trace_run cf es multi_trace_init = Some st" "delay_calls pe op ptr st (calls st) dc = Some dc1"
      "dom ?m = set (level_pairs dev ptr cf)" "summarised (map (pair_sample op ptr ?m) ?ps) (dc_lat_dist dc1)"
    and l: "ld_perins (dc_lat_dist dc1) = op_perins op" "ld_perkey (dc_lat_dist dc1) = True"
    and m: "\<forall>(a, b)\<in>set ?ps. ?m (ptr (tn_tp a), ptr (tn_tp b)) \<noteq> None"
    by (rule traced_delays [OF es(1) n dc fd, of pe]) simp
  have x: "filter (\<lambda>(f, _). (\<not> op_perins op \<or> fst f = k) \<and> snd f = ucast i) (map (pair_sample op ptr ?m) ?ps) =
      map (pair_sample op ptr ?m) (filter (\<lambda>(a, b). (op_perins op \<longrightarrow> tn_key b = k) \<and> ?m (ptr (tn_tp a), ptr (tn_tp b)) = Some i) ?ps)" for k and i :: u32
  proof -
    have "filter ((\<lambda>(f, _). (\<not> op_perins op \<or> fst f = k) \<and> snd f = ucast i) \<circ> pair_sample op ptr ?m) ?ps =
        filter (\<lambda>(a, b). (op_perins op \<longrightarrow> tn_key b = k) \<and> ?m (ptr (tn_tp a), ptr (tn_tp b)) = Some i) ?ps"
      using m by (intro filter_cong) (force simp: pair_sample_def ucast_32_64)+
    then show ?thesis by (simp add: filter_map)
  qed
  have y: "map (fst \<circ> snd) (map (pair_sample op ptr ?m) xs) = map (\<lambda>(a, b). tn_time b - tn_time a) xs"
      "length (filter (\<lambda>(_, l, t). t \<noteq> 0 \<and> l > t) (map (pair_sample op ptr ?m) xs)) =
       length (filter (\<lambda>d. op_greater_than op \<noteq> 0 \<and> d > op_greater_than op) (map (\<lambda>(a, b). tn_time b - tn_time a) xs))" for xs
    by (auto simp: pair_sample_def filter_map comp_def split: prod.splits intro!: arg_cong [of _ _ length] filter_cong)
  have "let xs = filter (\<lambda>(a, b). (op_perins op \<longrightarrow> tn_key b = k) \<and> ?m (ptr (tn_tp a), ptr (tn_tp b)) = Some i) ?ps;
            ds = map (\<lambda>(a, b). tn_time b - tn_time a) xs in
         case latency_dist_find (k, ucast i) (dc_lat_dist dc1) of
           None \<Rightarrow> xs = []
         | Some l \<Rightarrow> xs \<noteq> [] \<and> ln_n l = of_nat (length xs) \<and> ln_sum l = sum_list ds \<and> ln_min l = Min (set ds) \<and> ln_max l = Max (set ds) \<and>
             ln_than l = of_nat (length (filter (\<lambda>d. op_greater_than op \<noteq> 0 \<and> d > op_greater_than op) ds))" for k i
    using statistics_found [OF d(4), of "(k, ucast i)"]
    unfolding l fst_conv snd_conv Let_def not_True_eq_False simp_thms x y length_map map_is_Nil_conv .
  then show ?thesis using d(1-3) by blast
qed


definition demo_ptr :: "tpid \<Rightarrow> nat" where
  "demo_ptr p = 8 + fst p"

lemma demo_levels: "level_pairs (\<lambda>_. False) demo_ptr ((demo_conf False)\<lparr>mc_object_find := f\<rparr>) = [(8, 0), (8, 9)]"
  by (simp add: level_pairs_def traced_def demo_conf_def demo_ptr_def tp_at_def)

lemma demo_pairs:
  assumes "f (0, 0) (Some (1, 0))"
  shows "map (\<lambda>(a, b). (tn_time a, tn_time b, tn_key b, tn_tp a, tn_tp b))
    (fst (spec_run ((demo_conf False)\<lparr>mc_object_find := f\<rparr>) 0 Map.empty demo_run)) = [(8, 9, 2, (0, 0), (1, 0))]"
  using assms by (simp add: demo_run_def demo_event_def demo_conf_def make_current_def spec_step_def spec_out_def spec_pairs_def spec_lost_def
      after_keep_def after_pair_def prev_of_def norm_def tp_at_def Let_def)

text \<open>The objects do not depend on what the configuration finds, so it can find them.\<close>

lemma demo_setup:
  obtains cf dc j a b where "at_once cf demo_run" "\<not> mc_need_timeline cf" "length (level_pairs (\<lambda>_. False) demo_ptr cf) < 2 ^ 32"
    "init_objects True True (\<lambda>_. 4) demo_op (\<lambda>_. False) demo_ptr cf = Some dc" "finds_in dc demo_ptr cf" "class_map (dc_base dc) (8, 9) = Some j"
    "fst (spec_run cf 0 Map.empty demo_run) = [(a, b)]" "tn_time a = 8" "tn_time b = 9" "tn_key b = 2" "tn_tp a = (0, 0)" "tn_tp b = (1, 0)"
proof -
  let ?cf = "\<lambda>f. (demo_conf False)\<lparr>mc_object_find := f\<rparr>"
  obtain dc where dc: "init_objects True True (\<lambda>_. 4) demo_op (\<lambda>_. False) demo_ptr (?cf (\<lambda>_ _. True)) = Some dc" "class_ok (dc_base dc)"
      "dom (class_map (dc_base dc)) = set (level_pairs (\<lambda>_. False) demo_ptr (?cf (\<lambda>_ _. True)))"
    by (rule init_objects_ok [of "\<lambda>_. False" demo_ptr "?cf (\<lambda>_ _. True)" True "\<lambda>_. 4" demo_op]) (simp add: demo_levels)
  define f where "f = (\<lambda>p q. two_event_find (dc_base dc) (demo_ptr p) (case q of None \<Rightarrow> 0 | Some q \<Rightarrow> demo_ptr q) \<noteq> None)"
  have "(8, 9) \<in> dom (class_map (dc_base dc))" using dc(3) by (simp add: demo_levels)
  then obtain j where j: "class_map (dc_base dc) (8, 9) = Some j" by blast
  then have f: "f (0, 0) (Some (1, 0))" using find_pair [OF dc(2)] by (auto simp: f_def demo_ptr_def class_map_def)
  obtain a b where "fst (spec_run (?cf f) 0 Map.empty demo_run) = [(a, b)]" "tn_time a = 8" "tn_time b = 9" "tn_key b = 2" "tn_tp a = (0, 0)" "tn_tp b = (1, 0)"
    using demo_pairs [of f, OF f] by (auto simp: map_eq_Cons_conv)
  moreover have "at_once (?cf f) demo_run" using demo_at_once [of False] by (simp add: at_once_def plain_def)
  moreover have "\<not> mc_need_timeline (?cf f)" "length (level_pairs (\<lambda>_. False) demo_ptr (?cf f)) < 2 ^ 32" by (simp add: demo_conf_def, simp add: demo_levels)
  moreover have "init_objects True True (\<lambda>_. 4) demo_op (\<lambda>_. False) demo_ptr (?cf f) = Some dc" using dc(1) unfolding init_objects_def demo_levels .
  moreover have "finds_in dc demo_ptr (?cf f)" by (simp add: finds_in_def f_def)
  ultimately show thesis using that j by blast
qed

theorem delay_statistics_witness:
  "\<exists>cf dc st dc1 i l. init_objects True True (\<lambda>_. 4) demo_op (\<lambda>_. False) demo_ptr cf = Some dc \<and> class_map (dc_base dc) (8, 9) = Some i \<and>
    multi_trace_run cf demo_run multi_trace_init = Some st \<and> delay_calls demo_pe demo_op demo_ptr st (calls st) dc = Some dc1 \<and>
    latency_dist_find (2, ucast i) (dc_lat_dist dc1) = Some l \<and> ln_n l = 1 \<and> ln_sum l = 1 \<and> ln_max l = 1"
proof -
  obtain cf dc j a b where d: "at_once cf demo_run" "\<not> mc_need_timeline cf" "length (level_pairs (\<lambda>_. False) demo_ptr cf) < 2 ^ 32"
    "init_objects True True (\<lambda>_. 4) demo_op (\<lambda>_. False) demo_ptr cf = Some dc" "finds_in dc demo_ptr cf"
    and j: "class_map (dc_base dc) (8, 9) = Some j"
    and ab: "fst (spec_run cf 0 Map.empty demo_run) = [(a, b)]" "tn_time a = 8" "tn_time b = 9" "tn_key b = 2" "tn_tp a = (0, 0)" "tn_tp b = (1, 0)"
    by (rule demo_setup)
  let ?xs = "\<lambda>k i. filter (\<lambda>(a, b). (op_perins demo_op \<longrightarrow> tn_key b = k) \<and> class_map (dc_base dc) (demo_ptr (tn_tp a), demo_ptr (tn_tp b)) = Some i)
      (fst (spec_run cf 0 Map.empty demo_run))"
  have x: "?xs 2 j = [(a, b)]" using ab j by (simp add: demo_ptr_def)
  obtain st dc1 where s: "multi_trace_run cf demo_run multi_trace_init = Some st" "delay_calls demo_pe demo_op demo_ptr st (calls st) dc = Some dc1"
    "\<forall>k i. let xs = ?xs k i; ds = map (\<lambda>(a, b). tn_time b - tn_time a) xs in
         case latency_dist_find (k, ucast i) (dc_lat_dist dc1) of
           None \<Rightarrow> xs = []
         | Some l \<Rightarrow> xs \<noteq> [] \<and> ln_n l = of_nat (length xs) \<and> ln_sum l = sum_list ds \<and> ln_min l = Min (set ds) \<and> ln_max l = Max (set ds) \<and>
             ln_than l = of_nat (length (filter (\<lambda>d. op_greater_than demo_op \<noteq> 0 \<and> d > op_greater_than demo_op) ds))"
    using delay_statistics [OF d, of demo_pe] by (elim conjE exE)
  note e = spec [OF spec [OF s(3), of 2], of j, unfolded x Let_def]
  then obtain l where "latency_dist_find (2, ucast j) (dc_lat_dist dc1) = Some l" "ln_n l = 1" "ln_sum l = 1" "ln_max l = 1"
    using ab by (cases "latency_dist_find (2, ucast j) (dc_lat_dist dc1)") auto
  then show ?thesis using s(1,2) d(4) j by blast
qed

end
