(* ===== verification/Two_Print.thy ===== *)
theory Two_Print
  imports Two_Stats
begin

text \<open>
  Printing the statistics of delays, \<open>delay_print_header\<close> and \<open>delay_print_node\<close> of
  \<open>src/two-event.c\<close>: every node is printed with the tracepoints of the object that its key
  numbers. The quantiles come from the digest and are left out.
\<close>

record delay_line =
  dl_instance :: "u64 option"
  dl_tp1 :: nat
  dl_tp2 :: nat
  dl_n :: u64
  dl_sum :: u64
  dl_min :: u64
  dl_max :: u64
  dl_than :: "(u64 \<times> u64) option"

text \<open>None is a null pointer followed: no object has the number, or it has no second tracepoint.\<close>

definition delay_print_node :: "two_event_options \<Rightarrow> delay two_event_class \<Rightarrow> latency_node \<Rightarrow> delay_line option" where
  "delay_print_node op c n =
     (case two_event_find_byid c (ucast (ln_key n)) of
        None \<Rightarrow> None
      | Some two \<Rightarrow>
          let tp1 = te_tp1 (obj c two); tp2 = te_tp2 (obj c two) in
          if tp1 = 0 \<or> tp2 = 0 then None
          else Some \<lparr>dl_instance = (if op_perins op then Some (ln_instance n) else None), dl_tp1 = tp1, dl_tp2 = tp2, dl_n = ln_n n,
                     dl_sum = ln_sum n, dl_min = ln_min n, dl_max = ln_max n,
                     dl_than = (if op_greater_than op \<noteq> 0 then Some (ln_than n, ln_than n * 100 div (if ln_n n \<noteq> 0 then ln_n n else 1)) else None)\<rparr>)"

definition delay_print_header :: "two_event_options \<Rightarrow> delay_class \<Rightarrow> (delay_class \<times> delay_line list) option" where
  "delay_print_header op dc =
     (if latency_dist_empty (dc_lat_dist dc) then Some (dc, [])
      else
        (case (if op_only_print_greater_than op then latency_dist_greater_than (op_greater_than op) (dc_lat_dist dc) else Some True) of
           None \<Rightarrow> None
         | Some False \<Rightarrow> Some (dc, [])
         | Some True \<Rightarrow>
             (case (if \<not> op_sort_print op then latency_dist_print (dc_lat_dist dc) else latency_dist_print_sorted (dc_lat_dist dc)) of
                None \<Rightarrow> None
              | Some (ld, ns) \<Rightarrow> map_option (\<lambda>ls. (dc\<lparr>dc_lat_dist := ld\<rparr>, ls)) (those (map (delay_print_node op (dc_base dc)) ns)))))"

text \<open>The first result is what is left of the statistics: None when the last reference went.\<close>

definition delay_class_delete :: "delay_class \<Rightarrow> (latency_dist option \<times> delay two_event_class) option" where
  "delay_class_delete dc =
     map_option (\<lambda>c. (latency_dist_free (dc_lat_dist dc), c)) (two_event_class_delete delay_object_delete (dc_base dc))"

section \<open>Every node has its object\<close>

lemma ucast_ucast_32: "(ucast (ucast (i :: u32) :: u64) :: u32) = i"
  by transfer simp

lemma those_some: "(\<And>x. x \<in> set xs \<Longrightarrow> f x = Some (g x)) \<Longrightarrow> those (map f xs) = Some (map g xs)"
  by (induction xs) simp_all

lemma latency_print_all:
  assumes "dist_ok d"
  shows "\<exists>ns. (if \<not> srt then latency_dist_print d else latency_dist_print_sorted d) = Some (d\<lparr>ld_lat := rblist__init\<rparr>, ns) \<and>
    mset ns = mset (entries (ld_lat d))"
proof (cases srt)
  case False
  have t: "table_ok (node_key (ld_perins d) (ld_perkey d)) (ld_lat d)" using assms by (simp add: dist_ok_def)
  then have "length (entries (ld_lat d)) \<le> rl_nr_entries (ld_lat d)" by (simp add: table_ok_def)
  then obtain rl where "rblist__exit (rl_nr_entries (ld_lat d)) (ld_lat d) = Some (rl, entries (ld_lat d))" "rl = rblist__init"
    using exit_ok [OF t] rblist_emptied by blast
  moreover have "ld_lat d = rblist__init" if "rblist__empty (ld_lat d)"
    using that t by (intro rblist_emptied; cases "rl_tree (ld_lat d)") (auto simp: table_ok_def rblist__empty_def)
  ultimately show ?thesis
    using False table_empty [OF t] by (cases "rblist__empty (ld_lat d)") (auto simp: latency_dist_print_def)
qed (use print_sorted_spec [OF assms] in auto)

lemma node_object:
  assumes s: "summarised (map (pair_sample op ptr m) ps) d" "ld_perkey d" and n: "n \<in> set (entries (ld_lat d))"
    and m: "\<forall>(a, b)\<in>set ps. m (ptr (tn_tp a), ptr (tn_tp b)) \<noteq> None"
  obtains a b i where "(a, b) \<in> set ps" "m (ptr (tn_tp a), ptr (tn_tp b)) = Some i" "ln_key n = ucast i"
proof -
  have ok: "dist_ok d" using s(1) by (simp add: summarised_def)
  let ?e = "(ln_instance n, ln_key n)"
  have k: "dist_key d ?e = node_key (ld_perins d) (ld_perkey d) n" by (simp add: entry_key_def node_key_def)
  have "dist_map d (dist_key d ?e) = Some n" using table_map_of [of "node_key (ld_perins d) (ld_perkey d)" "ld_lat d" n] ok n unfolding k by (simp add: dist_ok_def)
  then have "of_key d ?e (map (pair_sample op ptr m) ps) \<noteq> []" using summarisedD [OF s(1), of ?e] by simp
  then obtain q where q: "q \<in> set ps" "dist_key d (fst (pair_sample op ptr m q)) = dist_key d ?e" by (auto simp: of_key_def filter_empty_conv)
  obtain a b where ab: "q = (a, b)" by (cases q)
  then obtain i where i: "m (ptr (tn_tp a), ptr (tn_tp b)) = Some i" using m q(1) by fastforce
  have "ln_key n = ucast i" using q(2) i s(2) ab by (simp add: entry_key_def pair_sample_def)
  then show thesis using that q(1) ab i by blast
qed


lemma find_numbered:
  assumes ok: "class_ok c" and i: "class_map c (tp1, tp2) = Some i"
  shows "\<exists>two. two_event_find_byid c i = Some two \<and> te_tp1 (obj c two) = tp1 \<and> te_tp2 (obj c two) = tp2"
proof -
  obtain two where "two_event_find c tp1 tp2 = Some two" "idkey c two = i" using i find_pair [OF ok] by (auto simp: class_map_def)
  then show ?thesis using found_object [OF ok] by auto
qed

text \<open>
  C13. Printing the statistics after a trace follows no null pointer: the number in the key of every
  node is that of an object, whose tracepoints are those of a pair of the trace. When nothing
  is held back, there is one line for every node and the table is left empty.
\<close>

theorem delay_print_safe:
  assumes es: "at_once cf es" "\<not> mc_need_timeline cf" and n: "length (level_pairs dev ptr cf) < 2 ^ 32"
    and dc: "init_objects True opened len op dev ptr cf = Some dc" and fd: "finds_in dc ptr cf" and ptr: "\<forall>p. ptr p \<noteq> 0"
  shows "\<exists>st dc1 dc2 ls. multi_trace_run cf es multi_trace_init = Some st \<and> delay_calls pe op ptr st (calls st) dc = Some dc1 \<and>
    delay_print_header op dc1 = Some (dc2, ls) \<and>
    (\<forall>l\<in>set ls. \<exists>(a, b)\<in>set (fst (spec_run cf 0 Map.empty es)). dl_tp1 l = ptr (tn_tp a) \<and> dl_tp2 l = ptr (tn_tp b)) \<and>
    (\<not> op_only_print_greater_than op \<longrightarrow> length ls = length (entries (ld_lat (dc_lat_dist dc1))) \<and> entries (ld_lat (dc_lat_dist dc2)) = [])"
proof -
  let ?ps = "fst (spec_run cf 0 Map.empty es)" and ?m = "class_map (dc_base dc)"
  obtain st dc1 where st: "multi_trace_run cf es multi_trace_init = Some st" "delay_calls pe op ptr st (calls st) dc = Some dc1"
    and c: "class_ok (dc_base dc1)" "class_map (dc_base dc1) = ?m" and k: "ld_perkey (dc_lat_dist dc1)"
    and s: "summarised (map (pair_sample op ptr ?m) ?ps) (dc_lat_dist dc1)"
    and m: "\<forall>(a, b)\<in>set ?ps. ?m (ptr (tn_tp a), ptr (tn_tp b)) \<noteq> None"
    by (rule traced_delays [OF es(1) n dc fd, of pe]) simp
  have dk: "dist_ok (dc_lat_dist dc1)" using s by (simp add: summarised_def)
  have line: "\<exists>l. delay_print_node op (dc_base dc1) x = Some l \<and> (\<exists>(a, b)\<in>set ?ps. dl_tp1 l = ptr (tn_tp a) \<and> dl_tp2 l = ptr (tn_tp b))"
    if x: "x \<in> set (entries (ld_lat (dc_lat_dist dc1)))" for x
  proof -
    obtain a b i where ab: "(a, b) \<in> set ?ps" "?m (ptr (tn_tp a), ptr (tn_tp b)) = Some i" "ln_key x = ucast i"
      by (rule node_object [OF s k x m])
    have "ucast (ucast i :: u64) = i" by (simp add: ucast_ucast_32)
    moreover obtain two where "two_event_find_byid (dc_base dc1) i = Some two" "te_tp1 (obj (dc_base dc1) two) = ptr (tn_tp a)"
        "te_tp2 (obj (dc_base dc1) two) = ptr (tn_tp b)" using find_numbered [OF c(1), of "ptr (tn_tp a)" "ptr (tn_tp b)" i] ab(2) c(2) by auto
    ultimately show ?thesis using ab(1,3) spec [OF ptr, of "tn_tp a"] spec [OF ptr, of "tn_tp b"] by (auto simp: delay_print_node_def Let_def)
  qed
  define g where "g x = the (delay_print_node op (dc_base dc1) x)" for x
  obtain ns where ns: "(if \<not> op_sort_print op then latency_dist_print (dc_lat_dist dc1) else latency_dist_print_sorted (dc_lat_dist dc1)) =
      Some ((dc_lat_dist dc1)\<lparr>ld_lat := rblist__init\<rparr>, ns)" "mset ns = mset (entries (ld_lat (dc_lat_dist dc1)))"
    using latency_print_all [OF dk] by blast
  have sn: "set ns = set (entries (ld_lat (dc_lat_dist dc1)))" "length ns = length (entries (ld_lat (dc_lat_dist dc1)))"
    using ns(2) by (metis set_mset_mset, metis size_mset)
  have t: "those (map (delay_print_node op (dc_base dc1)) ns) = Some (map g ns)" using line sn(1) by (intro those_some) (fastforce simp: g_def)
  have gl: "\<forall>l\<in>set (map g ns). \<exists>(a, b)\<in>set ?ps. dl_tp1 l = ptr (tn_tp a) \<and> dl_tp2 l = ptr (tn_tp b)" using line sn(1) by (fastforce simp: g_def)
  have e: "latency_dist_empty (dc_lat_dist dc1) \<longleftrightarrow> ns = []" using sn(2) dk by (auto simp: latency_dist_empty_def dist_ok_def table_empty)
  obtain b where b: "(if op_only_print_greater_than op then latency_dist_greater_than (op_greater_than op) (dc_lat_dist dc1) else Some True) = Some b"
      "\<not> op_only_print_greater_than op \<longrightarrow> b" using latency_greater_than_ok [OF dk] by (cases "op_only_print_greater_than op") auto
  show ?thesis
  proof (cases "ns = [] \<or> \<not> b")
    case True
    then have "delay_print_header op dc1 = Some (dc1, [])" using e b(1) by (auto simp: delay_print_header_def)
    then show ?thesis using st True b(2) sn by (intro exI [of _ st] exI [of _ dc1]) auto
  next
    case False
    then have "delay_print_header op dc1 = Some (dc1\<lparr>dc_lat_dist := (dc_lat_dist dc1)\<lparr>ld_lat := rblist__init\<rparr>\<rparr>, map g ns)"
      using e b(1) ns(1) t by (simp add: delay_print_header_def)
    then show ?thesis using st gl sn(2) by (rule_tac exI [of _ st], rule_tac exI [of _ dc1]) (auto simp: rblist__init_def)
  qed
qed


theorem delay_print_safe_witness:
  "\<exists>cf dc st dc1 dc2 ls. init_objects True True (\<lambda>_. 4) demo_op (\<lambda>_. False) demo_ptr cf = Some dc \<and>
    multi_trace_run cf demo_run multi_trace_init = Some st \<and> delay_calls demo_pe demo_op demo_ptr st (calls st) dc = Some dc1 \<and>
    delay_print_header demo_op dc1 = Some (dc2, ls) \<and> entries (ld_lat (dc_lat_dist dc2)) = []"
proof -
  obtain cf dc where d: "at_once cf demo_run" "\<not> mc_need_timeline cf" "length (level_pairs (\<lambda>_. False) demo_ptr cf) < 2 ^ 32"
      "init_objects True True (\<lambda>_. 4) demo_op (\<lambda>_. False) demo_ptr cf = Some dc" "finds_in dc demo_ptr cf"
    by (rule demo_setup)
  have "\<forall>p. demo_ptr p \<noteq> 0" "\<not> op_only_print_greater_than demo_op" by (simp_all add: demo_ptr_def demo_op_def)
  then show ?thesis using delay_print_safe [OF d, of demo_pe] d(4) by blast
qed


text \<open>Deleting the class closes every heat map and releases every object.\<close>

lemma delay_class_delete_frees:
  "class_ok (dc_base dc) \<Longrightarrow> ld_ref (dc_lat_dist dc) = 1 \<Longrightarrow>
   \<exists>c. delay_class_delete dc = Some (None, c) \<and> cl_heap c = Map.empty \<and> entries (two_events c) = [] \<and> entries (two_events_byid c) = []"
  using delay.class_delete_ok [of "dc_base dc"] by (auto simp: delay_class_delete_def latency_dist_free_def)

end
