(* ===== verification/Two_Call.thy ===== *)
theory Two_Call
  imports Two_Event
begin

text \<open>
  The analysis of function calls in \<open>src/two-event.c\<close>: who calls whom is a forest, made from the
  calls \<open>two(A, B)\<close>, in A a call of B, and \<open>two(A, NULL)\<close>, a first call of A. It is printed and started
  anew when a function turns out to be called from elsewhere.
\<close>

text \<open>
  \<open>struct caller\<close>. \<open>ca_callees\<close> is the list at \<open>callee_head\<close>; \<open>ca_link\<close> is the object on whose list
  \<open>caller_link\<close> is, None when it is empty.
\<close>

record caller =
  ca_tp2 :: nat
  ca_depth :: nat
  ca_recursive :: bool
  ca_parent :: "nat option"
  ca_callees :: "nat list"
  ca_link :: "nat option"

record call_class =
  cc_base :: "caller two_event_class"
  cc_head :: "nat list"
  cc_calls :: u64
  cc_max_depth :: nat

abbreviation ca :: "call_class \<Rightarrow> nat \<Rightarrow> caller" where
  "ca cc a \<equiv> te_obj (obj (cc_base cc) a)"

abbreviation objs :: "call_class \<Rightarrow> nat set" where
  "objs cc \<equiv> dom (cl_heap (cc_base cc))"

definition set_ca :: "nat \<Rightarrow> (caller \<Rightarrow> caller) \<Rightarrow> call_class \<Rightarrow> call_class" where
  "set_ca a f cc = cc\<lparr>cc_base := set_obj a f (cc_base cc)\<rparr>"

definition call_class_new :: call_class where
  "call_class_new = \<lparr>cc_base = two_event_class_new, cc_head = [], cc_calls = 0, cc_max_depth = 0\<rparr>"

section \<open>Printing\<close>

text \<open>The objects that \<open>call_iterate\<close> hands to the iterator, in this order; \<open>k\<close> bounds the depth.\<close>

fun call_iterate :: "nat \<Rightarrow> call_class \<Rightarrow> nat \<Rightarrow> nat list option"
  and call_iterate_list :: "nat \<Rightarrow> call_class \<Rightarrow> nat list \<Rightarrow> nat list option" where
  "call_iterate 0 cc a = None"
| "call_iterate (Suc k) cc a = map_option (\<lambda>as. a # as) (call_iterate_list k cc (ca_callees (ca cc a)))"
| "call_iterate_list k cc [] = Some []"
| "call_iterate_list k cc (a # as) =
     (case call_iterate k cc a of None \<Rightarrow> None | Some bs \<Rightarrow> map_option (\<lambda>cs. bs @ cs) (call_iterate_list k cc as))"

definition call_class_iterate :: "call_class \<Rightarrow> nat list option" where
  "call_class_iterate cc = call_iterate_list (cc_max_depth cc + 1) cc (cc_head cc)"

text \<open>A line: the indentation, the function and whether it is marked as recursive.\<close>

definition call_iterator_print :: "call_class \<Rightarrow> nat \<Rightarrow> nat \<times> nat \<times> bool" where
  "call_iterator_print cc a = (ca_depth (ca cc a), te_tp1 (obj (cc_base cc) a), ca_recursive (ca cc a))"

definition call_class_print :: "call_class \<Rightarrow> (call_class \<times> (nat \<times> nat \<times> bool) list) option" where
  "call_class_print cc =
     (if cc_calls cc \<noteq> 0
      then map_option (\<lambda>as. (cc\<lparr>cc_calls := 0\<rparr>, map (call_iterator_print cc) as)) (call_class_iterate cc)
      else Some (cc, []))"

section \<open>Objects\<close>

definition zero_caller :: caller where
  "zero_caller = \<lparr>ca_tp2 = 0, ca_depth = 0, ca_recursive = False, ca_parent = None, ca_callees = [], ca_link = None\<rparr>"

text \<open>None also when list nodes or heads that are in use are initialised again.\<close>

definition call_new :: "bool \<Rightarrow> nat \<Rightarrow> nat \<Rightarrow> call_class \<Rightarrow> (nat option \<times> call_class) option" where
  "call_new mem tp1 tp2 cc =
     (case two_event_new mem zero_caller tp1 0 (cc_base cc) of
        None \<Rightarrow> None
      | Some (None, c) \<Rightarrow> Some (None, cc\<lparr>cc_base := c\<rparr>)
      | Some (Some a, c) \<Rightarrow>
          let cc1 = cc\<lparr>cc_base := c\<rparr> in
          if ca_callees (ca cc1 a) \<noteq> [] \<or> ca_link (ca cc1 a) \<noteq> None \<or> a \<in> set (cc_head cc1) then None
          else Some (Some a, set_ca a (\<lambda>r. r\<lparr>ca_tp2 := tp2, ca_parent := None\<rparr>) cc1))"

text \<open>\<open>call_delete\<close> without the list of the class and without \<open>two_event_delete\<close>: the lists of callers.\<close>

definition call_object_delete :: "nat \<Rightarrow> caller two_event_class \<Rightarrow> caller two_event_class" where
  "call_object_delete a c =
     (let r = te_obj (obj c a);
          c1 = fold (\<lambda>b. set_obj b (\<lambda>x. x\<lparr>ca_link := None\<rparr>)) (ca_callees r) c;
          c2 = (case ca_link r of None \<Rightarrow> c1 | Some p \<Rightarrow> set_obj p (\<lambda>x. x\<lparr>ca_callees := remove1 a (ca_callees x)\<rparr>) c1)
      in set_obj a (\<lambda>x. x\<lparr>ca_link := None, ca_callees := []\<rparr>) c2)"

lemma fold_links:
  "map_option ident (cl_heap (fold (\<lambda>b. set_obj b f) bs c) x) = map_option ident (cl_heap c x)"
  "two_events (fold (\<lambda>b. set_obj b f) bs c) = two_events c" "two_events_byid (fold (\<lambda>b. set_obj b f) bs c) = two_events_byid c"
  "cl_ids (fold (\<lambda>b. set_obj b f) bs c) = cl_ids c" "cl_fresh (fold (\<lambda>b. set_obj b f) bs c) = cl_fresh c"
  by (induction bs arbitrary: c) (simp_all add: set_obj_frame)

interpretation call: analysis call_object_delete
  by unfold_locales (simp_all add: call_object_delete_def Let_def set_obj_frame fold_links split: option.split)

definition call_find :: "call_class \<Rightarrow> nat \<Rightarrow> nat \<Rightarrow> nat option" where
  "call_find cc tp1 tp2 = two_event_find (cc_base cc) tp1 0"

section \<open>Linking\<close>

fun call_update_depth :: "nat \<Rightarrow> nat \<Rightarrow> call_class \<Rightarrow> call_class option"
  and call_update_depths :: "nat \<Rightarrow> nat list \<Rightarrow> call_class \<Rightarrow> call_class option" where
  "call_update_depth 0 a cc = None"
| "call_update_depth (Suc k) a cc =
     (let d = (case ca_parent (ca cc a) of None \<Rightarrow> 0 | Some p \<Rightarrow> ca_depth (ca cc p) + 1);
          cc1 = set_ca a (\<lambda>r. r\<lparr>ca_depth := d\<rparr>) cc;
          cc2 = (if d > cc_max_depth cc1 then cc1\<lparr>cc_max_depth := d\<rparr> else cc1)
      in call_update_depths k (ca_callees (ca cc2 a)) cc2)"
| "call_update_depths k [] cc = Some cc"
| "call_update_depths k (a # as) cc = Option.bind (call_update_depth k a cc) (call_update_depths k as)"

fun call_recursive :: "nat \<Rightarrow> call_class \<Rightarrow> nat option \<Rightarrow> nat \<Rightarrow> bool option" where
  "call_recursive k cc None callee = Some False"
| "call_recursive k cc (Some a) callee =
     (if a = callee then Some True else case k of 0 \<Rightarrow> None | Suc k' \<Rightarrow> call_recursive k' cc (ca_parent (ca cc a)) callee)"

text \<open>\<open>list_del_init\<close> of \<open>caller_link\<close>.\<close>

definition unlink :: "nat \<Rightarrow> call_class \<Rightarrow> call_class" where
  "unlink a cc =
     (case ca_link (ca cc a) of
        None \<Rightarrow> cc
      | Some p \<Rightarrow> set_ca a (\<lambda>r. r\<lparr>ca_link := None\<rparr>) (set_ca p (\<lambda>r. r\<lparr>ca_callees := remove1 a (ca_callees r)\<rparr>) cc))"

text \<open>New parents: none, or \<open>a\<close> for \<open>b\<close>, whose links move with \<open>list_move_tail\<close> and \<open>list_del_init\<close>.\<close>

definition make_root :: "nat \<Rightarrow> call_class \<Rightarrow> call_class" where
  "make_root a cc = set_ca a (\<lambda>r. r\<lparr>ca_parent := None\<rparr>) (unlink a cc)"

definition move_callee :: "nat \<Rightarrow> nat \<Rightarrow> call_class \<Rightarrow> call_class" where
  "move_callee a b cc =
     (let cc3 = set_ca b (\<lambda>r. r\<lparr>ca_link := Some a\<rparr>) (set_ca a (\<lambda>r. r\<lparr>ca_callees := ca_callees r @ [b]\<rparr>) (unlink b cc))
      in set_ca b (\<lambda>r. r\<lparr>ca_parent := Some a\<rparr>) (cc3\<lparr>cc_head := remove1 b (cc_head cc3)\<rparr>))"

text \<open>A tree that is moved gets at most twice as deep as the forest was, and one more.\<close>

abbreviation depth_bound :: "call_class \<Rightarrow> nat" where
  "depth_bound cc \<equiv> 2 * cc_max_depth cc + 3"

text \<open>\<open>two(A, NULL)\<close>: A becomes a root.\<close>

definition link_root :: "nat \<Rightarrow> call_class \<Rightarrow> (call_class \<times> (nat \<times> nat \<times> bool) list) option" where
  "link_root a cc =
     map_option (\<lambda>(cc1, ls). (cc1\<lparr>cc_head := (if a \<in> set (cc_head cc1) then cc_head cc1 else cc_head cc1 @ [a]), cc_calls := cc_calls cc1 + 1\<rparr>, ls))
       (if ca_link (ca cc a) \<noteq> None then
          (case call_class_print cc of
             None \<Rightarrow> None
           | Some (cc1, ls) \<Rightarrow>
               map_option (\<lambda>cc2. (cc2, ls)) (call_update_depth (depth_bound cc1) a (make_root a cc1)))
        else Some (cc, []))"

text \<open>\<open>two(A, B)\<close> with the object \<open>b\<close> of B, which is not above A.\<close>

definition link_callee :: "nat \<Rightarrow> nat \<Rightarrow> call_class \<Rightarrow> (call_class \<times> (nat \<times> nat \<times> bool) list) option" where
  "link_callee a b cc =
     (case (if ca_parent (ca cc b) \<noteq> None \<or> b \<in> set (cc_head cc) then call_class_print cc else Some (cc, [])) of
        None \<Rightarrow> None
      | Some (cc1, ls) \<Rightarrow> map_option (\<lambda>cc2. (cc2, ls)) (call_update_depth (depth_bound cc1) b (move_callee a b cc1)))"

definition call_link :: "nat option \<Rightarrow> nat \<Rightarrow> call_class \<Rightarrow> (bool \<times> call_class \<times> (nat \<times> nat \<times> bool) list) option" where
  "call_link two tp2 cc =
     (case two of
        None \<Rightarrow> Some (False, cc, [])
      | Some a \<Rightarrow>
          if tp2 = 0 then map_option (\<lambda>r. (True, r)) (link_root a cc)
          else
            (case two_event_find (cc_base cc) tp2 0 of
               None \<Rightarrow> Some (False, cc, [])
             | Some b \<Rightarrow>
                 (case call_recursive (cc_max_depth cc + 1) cc (Some a) b of
                    None \<Rightarrow> None
                  | Some rec \<Rightarrow>
                      let cc1 = set_ca a (\<lambda>r. r\<lparr>ca_recursive := rec\<rparr>) cc in
                      map_option (\<lambda>(cc2, ls). (True, cc2\<lparr>cc_calls := cc_calls cc2 + 1\<rparr>, ls))
                        (if ca_parent (ca cc1 b) \<noteq> Some a \<and> \<not> rec then link_callee a b cc1 else Some (cc1, [])))))"


section \<open>The forest\<close>

declare domIff [iff del]

text \<open>Who calls whom.\<close>

definition calls_to :: "call_class \<Rightarrow> (nat \<times> nat) set" where
  "calls_to cc = {(p, a). p \<in> objs cc \<and> a \<in> set (ca_callees (ca cc p))}"

definition parents :: "call_class \<Rightarrow> nat \<Rightarrow> nat option" where
  "parents cc a = (if a \<in> objs cc then ca_parent (ca cc a) else None)"

text \<open>
  The lists agree with the parents, and roots have none. The depth of an object is one more than
  that of its parent, so there is no cycle.
\<close>

definition links_ok :: "call_class \<Rightarrow> bool" where
  "links_ok cc \<longleftrightarrow> class_ok (cc_base cc) \<and>
     (\<forall>a\<in>objs cc. ca_link (ca cc a) = ca_parent (ca cc a) \<and> (\<forall>p. ca_parent (ca cc a) = Some p \<longrightarrow> p \<in> objs cc) \<and>
        distinct (ca_callees (ca cc a)) \<and> set (ca_callees (ca cc a)) = {b \<in> objs cc. ca_parent (ca cc b) = Some a}) \<and>
     distinct (cc_head cc) \<and> set (cc_head cc) \<subseteq> {a \<in> objs cc. ca_parent (ca cc a) = None}"

definition levels :: "call_class \<Rightarrow> (nat \<Rightarrow> nat) \<Rightarrow> bool" where
  "levels cc d \<longleftrightarrow> (\<forall>a\<in>objs cc. d a = (case ca_parent (ca cc a) of None \<Rightarrow> 0 | Some p \<Rightarrow> d p + 1))"

definition call_ok :: "call_class \<Rightarrow> bool" where
  "call_ok cc \<longleftrightarrow> links_ok cc \<and> levels cc (\<lambda>a. ca_depth (ca cc a)) \<and> (\<forall>a\<in>objs cc. ca_depth (ca cc a) \<le> cc_max_depth cc)"

lemma links_okD:
  assumes "links_ok cc"
  shows "class_ok (cc_base cc)" "distinct (cc_head cc)" "set (cc_head cc) \<subseteq> {a \<in> objs cc. ca_parent (ca cc a) = None}"
    "a \<in> objs cc \<Longrightarrow> ca_link (ca cc a) = ca_parent (ca cc a)" "a \<in> objs cc \<Longrightarrow> ca_parent (ca cc a) = Some p \<Longrightarrow> p \<in> objs cc"
    "a \<in> objs cc \<Longrightarrow> distinct (ca_callees (ca cc a))" "a \<in> objs cc \<Longrightarrow> set (ca_callees (ca cc a)) = {b \<in> objs cc. ca_parent (ca cc b) = Some a}"
  using assms unfolding links_ok_def by blast+

lemma calls_to_parent: "links_ok cc \<Longrightarrow> (p, a) \<in> calls_to cc \<longleftrightarrow> a \<in> objs cc \<and> ca_parent (ca cc a) = Some p"
  using links_okD(5,7) [of cc] by (fastforce simp: calls_to_def)

lemma objs_set_ca [simp]: "objs (set_ca a f cc) = objs cc"
  by (simp add: set_ca_def set_obj_same)

lemma set_ca_frame [simp]: "cc_head (set_ca a f cc) = cc_head cc" "cc_calls (set_ca a f cc) = cc_calls cc" "cc_max_depth (set_ca a f cc) = cc_max_depth cc"
  by (simp_all add: set_ca_def)

lemma ca_set [simp]: "a \<in> objs cc \<Longrightarrow> ca (set_ca a f cc) b = (if b = a then f (ca cc a) else ca cc b)"
  by (auto simp: set_ca_def set_obj_def domIff)

lemma class_set_ca: "class_ok (cc_base cc) \<Longrightarrow> class_ok (cc_base (set_ca a f cc))"
  by (simp add: set_ca_def set_obj_same)

text \<open>Below an object, the object is the only one of its level.\<close>

lemma levels_step: "links_ok cc \<Longrightarrow> levels cc d \<Longrightarrow> (p, a) \<in> calls_to cc \<Longrightarrow> d a = d p + 1"
  by (auto simp: calls_to_parent levels_def)

lemma levels_mono:
  assumes "links_ok cc" "levels cc d"
  shows "(p, a) \<in> (calls_to cc)\<^sup>* \<Longrightarrow> d p \<le> d a"
  by (induction rule: rtrancl_induct) (auto dest: levels_step [OF assms])

lemma same_level:
  assumes "links_ok cc" "levels cc d" "(a, x) \<in> (calls_to cc)\<^sup>*" "(b, x) \<in> (calls_to cc)\<^sup>*" "d a = d b"
  shows "a = b"
  using assms(3,4)
proof (induction rule: rtrancl_induct)
  case base
  then show ?case
  proof (cases rule: rtranclE)
    case (step y)
    then have "d b \<le> d y" "d a = d y + 1" using levels_mono [OF assms(1,2)] levels_step [OF assms(1,2)] by auto
    then show ?thesis using assms(5) by simp
  qed simp
next
  case (step y x)
  show ?case
    using step.prems
  proof (cases rule: rtranclE)
    case base
    then have "d a \<le> d y" "d b = d y + 1" using step.hyps levels_mono [OF assms(1,2)] levels_step [OF assms(1,2)] by auto
    then show ?thesis using assms(5) by simp
  next
    case (step z)
    then have "z = y" using step.hyps calls_to_parent [OF assms(1)] \<open>(y, x) \<in> calls_to cc\<close> by auto
    then show ?thesis using step.IH step(1) by blast
  qed
qed

section \<open>Loops end\<close>

lemma recursive_ok:
  assumes l: "links_ok cc" "levels cc (\<lambda>a. ca_depth (ca cc a))"
  shows "a \<in> objs cc \<Longrightarrow> ca_depth (ca cc a) < k \<Longrightarrow> call_recursive k cc (Some a) b = Some ((b, a) \<in> (calls_to cc)\<^sup>*)"
proof (induction k arbitrary: a)
  case (Suc k)
  show ?case
  proof (cases "ca_parent (ca cc a)")
    case None
    then have "(b, a) \<in> (calls_to cc)\<^sup>* \<longleftrightarrow> a = b" using calls_to_parent [OF l(1)] by (auto elim: rtranclE)
    then show ?thesis using None by simp
  next
    case (Some p)
    have "p \<in> objs cc" "ca_depth (ca cc p) < k" using Some Suc.prems links_okD(5) [OF l(1)] l(2) by (auto simp: levels_def)
    moreover have "(p, a) \<in> calls_to cc" using calls_to_parent [OF l(1)] Suc.prems(1) Some by simp
    then have "(b, a) \<in> (calls_to cc)\<^sup>* \<longleftrightarrow> a = b \<or> (b, p) \<in> (calls_to cc)\<^sup>*"
      using calls_to_parent [OF l(1)] Some by (auto elim: rtranclE intro: rtrancl_into_rtrancl)
    ultimately show ?thesis using Suc.IH Some by simp
  qed
qed simp


text \<open>Every object comes after its parent, which may be one of \<open>S\<close>.\<close>

fun parents_first :: "call_class \<Rightarrow> nat set \<Rightarrow> nat list \<Rightarrow> bool" where
  "parents_first cc S [] = True"
| "parents_first cc S (x # xs) = ((\<forall>p. ca_parent (ca cc x) = Some p \<longrightarrow> p \<in> S) \<and> parents_first cc (insert x S) xs)"

lemma parents_first_append: "parents_first cc S (xs @ ys) \<longleftrightarrow> parents_first cc S xs \<and> parents_first cc (S \<union> set xs) ys"
  by (induction xs arbitrary: S) simp_all

text \<open>The objects below \<open>a\<close>, in an order in which they can be printed.\<close>

definition visits :: "call_class \<Rightarrow> nat set \<Rightarrow> nat list \<Rightarrow> nat list \<Rightarrow> bool" where
  "visits cc S as ls \<longleftrightarrow> distinct ls \<and> set ls = {x. \<exists>a\<in>set as. (a, x) \<in> (calls_to cc)\<^sup>*} \<and> parents_first cc S ls"

lemma visits_Nil: "visits cc S [] []"
  by (simp add: visits_def)

lemma below_step: "a \<in> objs cc \<Longrightarrow> (a, x) \<in> (calls_to cc)\<^sup>* \<longleftrightarrow> x = a \<or> (\<exists>b\<in>set (ca_callees (ca cc a)). (b, x) \<in> (calls_to cc)\<^sup>*)"
  by (auto simp: calls_to_def elim: converse_rtranclE intro: converse_rtrancl_into_rtrancl)

lemma visits_Cons:
  assumes l: "links_ok cc" "levels cc d" and b: "visits cc S [a] bs" and c: "visits cc (S \<union> set bs) as cs"
    and n: "a \<notin> set as" "\<forall>x\<in>set as. d x = d a"
  shows "visits cc S (a # as) (bs @ cs)"
proof -
  have "set bs \<inter> set cs = {}" using b c n same_level [OF l] by (fastforce simp: visits_def)
  then show ?thesis using b c by (auto simp: visits_def parents_first_append)
qed

lemma visits_top:
  assumes l: "links_ok cc" "levels cc d" and a: "a \<in> objs cc" and p: "\<forall>p. ca_parent (ca cc a) = Some p \<longrightarrow> p \<in> S"
    and v: "visits cc (insert a S) (ca_callees (ca cc a)) ls"
  shows "visits cc S [a] (a # ls)"
proof -
  have "d b = d a + 1" if "b \<in> set (ca_callees (ca cc a))" for b using that levels_step [OF l] a by (simp add: calls_to_def)
  then have "a \<notin> set ls" using v levels_mono [OF l] by (force simp: visits_def)
  then show ?thesis using v p below_step [OF a] by (auto simp: visits_def)
qed

lemma iterate_list_ok:
  assumes l: "links_ok cc" "levels cc d"
    and step: "\<And>a S. a \<in> objs cc \<Longrightarrow> N < k + d a \<Longrightarrow> (\<forall>p. ca_parent (ca cc a) = Some p \<longrightarrow> p \<in> S) \<Longrightarrow>
      \<exists>ls. call_iterate k cc a = Some ls \<and> visits cc S [a] ls"
  shows "set as \<subseteq> objs cc \<Longrightarrow> distinct as \<Longrightarrow> \<forall>a\<in>set as. d a = m \<Longrightarrow> N < k + m \<Longrightarrow>
    \<forall>a\<in>set as. \<forall>p. ca_parent (ca cc a) = Some p \<longrightarrow> p \<in> S \<Longrightarrow> \<exists>ls. call_iterate_list k cc as = Some ls \<and> visits cc S as ls"
proof (induction as arbitrary: S)
  case (Cons a as)
  obtain bs where b: "call_iterate k cc a = Some bs" "visits cc S [a] bs" using step [of a S] Cons.prems by auto
  obtain cs where c: "call_iterate_list k cc as = Some cs" "visits cc (S \<union> set bs) as cs"
    using Cons.IH [of "S \<union> set bs"] Cons.prems by auto
  have "visits cc S (a # as) (bs @ cs)" using visits_Cons [OF l b(2) c(2)] Cons.prems(2,3) by simp
  then show ?case using b(1) c(1) by simp
qed (simp add: visits_Nil)

lemma iterate_ok:
  assumes l: "links_ok cc" "levels cc d" and N: "\<forall>a\<in>objs cc. d a \<le> N"
  shows "a \<in> objs cc \<Longrightarrow> N < k + d a \<Longrightarrow> \<forall>p. ca_parent (ca cc a) = Some p \<longrightarrow> p \<in> S \<Longrightarrow>
    \<exists>ls. call_iterate k cc a = Some ls \<and> visits cc S [a] ls"
proof (induction k arbitrary: a S)
  case (Suc k)
  let ?as = "ca_callees (ca cc a)"
  have s: "set ?as \<subseteq> objs cc" "distinct ?as" "\<forall>b\<in>set ?as. d b = d a + 1" "\<forall>b\<in>set ?as. ca_parent (ca cc b) = Some a"
    using links_okD(6,7) [OF l(1) Suc.prems(1)] levels_step [OF l] Suc.prems(1) by (auto simp: calls_to_def)
  have "\<exists>ls. call_iterate_list k cc ?as = Some ls \<and> visits cc (insert a S) ?as ls"
    by (rule iterate_list_ok [OF l Suc.IH, where m = "d a + 1"]) (use s Suc.prems(2) in simp_all)
  then obtain ls where "call_iterate_list k cc ?as = Some ls" "visits cc (insert a S) ?as ls" by blast
  then show ?case using visits_top [OF l Suc.prems(1,3)] by auto
qed (use N in force)

lemma class_iterate_ok:
  assumes "call_ok cc"
  shows "\<exists>ls. call_class_iterate cc = Some ls \<and> visits cc {} (cc_head cc) ls"
proof -
  let ?d = "\<lambda>a. ca_depth (ca cc a)"
  have l: "links_ok cc" "levels cc ?d" "\<forall>a\<in>objs cc. ?d a \<le> cc_max_depth cc" using assms by (simp_all add: call_ok_def)
  have h: "set (cc_head cc) \<subseteq> objs cc" "\<forall>a\<in>set (cc_head cc). ca_parent (ca cc a) = None" using links_okD(3) [OF l(1)] by auto
  then have "\<forall>a\<in>set (cc_head cc). ?d a = 0" using l(2) unfolding levels_def by (metis option.simps(4) subsetD)
  then show ?thesis
    unfolding call_class_iterate_def
    by (intro iterate_list_ok [OF l(1,2) iterate_ok [OF l], where m = 0 and N = "cc_max_depth cc"]) (use h links_okD(2) [OF l(1)] in simp_all)
qed

lemma class_print_ok:
  assumes "call_ok cc"
  shows "\<exists>n ls. call_class_print cc = Some (cc\<lparr>cc_calls := n\<rparr>, ls)"
  using class_iterate_ok [OF assms] by (auto simp: call_class_print_def intro: exI [of _ "cc_calls cc"])


section \<open>Depths\<close>

text \<open>The same objects with other depths.\<close>

definition with_depth :: "(nat \<Rightarrow> nat) \<Rightarrow> nat \<Rightarrow> call_class \<Rightarrow> call_class" where
  "with_depth d m cc = cc\<lparr>cc_max_depth := m,
     cc_base := (cc_base cc)\<lparr>cl_heap := (\<lambda>x. map_option (\<lambda>t. t\<lparr>te_obj := (te_obj t)\<lparr>ca_depth := d x\<rparr>\<rparr>) (cl_heap (cc_base cc) x))\<rparr>\<rparr>"

lemma with_depth_frame [simp]:
  "objs (with_depth d m cc) = objs cc" "cc_head (with_depth d m cc) = cc_head cc" "cc_calls (with_depth d m cc) = cc_calls cc"
  "cc_max_depth (with_depth d m cc) = m" "(with_depth d m cc)\<lparr>cc_max_depth := n\<rparr> = with_depth d n cc"
  by (auto simp: with_depth_def domIff)

lemma ca_with_depth [simp]: "x \<in> objs cc \<Longrightarrow> ca (with_depth d m cc) x = (ca cc x)\<lparr>ca_depth := d x\<rparr>"
  by (auto simp: with_depth_def domIff)

lemma set_with_depth: "set_ca a (\<lambda>r. r\<lparr>ca_depth := v\<rparr>) (with_depth d m cc) = with_depth (d(a := v)) m cc"
proof -
  have "(\<lambda>x. map_option (\<lambda>t. t\<lparr>te_obj := (te_obj t)\<lparr>ca_depth := d x\<rparr>\<rparr>) (cl_heap (cc_base cc) x))
      (a := map_option (\<lambda>t. t\<lparr>te_obj := (te_obj t)\<lparr>ca_depth := v\<rparr>\<rparr>) (map_option (\<lambda>t. t\<lparr>te_obj := (te_obj t)\<lparr>ca_depth := d a\<rparr>\<rparr>) (cl_heap (cc_base cc) a))) =
    (\<lambda>x. map_option (\<lambda>t. t\<lparr>te_obj := (te_obj t)\<lparr>ca_depth := (d(a := v)) x\<rparr>\<rparr>) (cl_heap (cc_base cc) x))"
    by (auto simp: option.map_comp comp_def)
  then show ?thesis by (simp add: set_ca_def set_obj_def with_depth_def)
qed

lemma own_depth: "with_depth (\<lambda>x. ca_depth (ca cc x)) (cc_max_depth cc) cc = cc"
proof -
  have "map_option (\<lambda>t. t\<lparr>te_obj := (te_obj t)\<lparr>ca_depth := ca_depth (ca cc x)\<rparr>\<rparr>) (cl_heap (cc_base cc) x) = cl_heap (cc_base cc) x" for x
    by (cases "cl_heap (cc_base cc) x") auto
  then show ?thesis by (simp add: with_depth_def)
qed

lemma with_depth_class:
  assumes "class_ok (cc_base cc)"
  shows "class_ok (cc_base (with_depth d m cc))" "class_map (cc_base (with_depth d m cc)) = class_map (cc_base cc)"
    "two_event_find (cc_base (with_depth d m cc)) = two_event_find (cc_base cc)"
proof -
  have "map_option ident (cl_heap (cc_base (with_depth d m cc)) x) = map_option ident (cl_heap (cc_base cc) x)" for x
    by (cases "cl_heap (cc_base cc) x") (simp_all add: with_depth_def ident_def)
  note same_objects [OF _ _ _ _ this assms]
  then show "class_ok (cc_base (with_depth d m cc))" "class_map (cc_base (with_depth d m cc)) = class_map (cc_base cc)"
    "two_event_find (cc_base (with_depth d m cc)) = two_event_find (cc_base cc)" by (simp_all add: with_depth_def)
qed

lemma with_depth_links: "links_ok cc \<Longrightarrow> links_ok (with_depth d m cc)"
  by (simp add: links_ok_def with_depth_class cong: conj_cong)

text \<open>\<open>T\<close> are the depths to be reached; they hold for the parent already.\<close>

lemma update_depths_ok:
  assumes step: "\<And>a d m. a \<in> objs cc \<Longrightarrow> N < k + T a \<Longrightarrow> (\<forall>p. ca_parent (ca cc a) = Some p \<longrightarrow> p \<in> objs cc \<and> d p = T p) \<Longrightarrow>
      \<exists>m1. call_update_depth k a (with_depth d m cc) =
          Some (with_depth (\<lambda>x. if (a, x) \<in> (calls_to cc)\<^sup>* then T x else d x) m1 cc) \<and> m \<le> m1 \<and> (\<forall>x. (a, x) \<in> (calls_to cc)\<^sup>* \<longrightarrow> T x \<le> m1)"
    and p: "p \<in> objs cc" "N < k + T p + 1"
  shows "set as \<subseteq> {a \<in> objs cc. ca_parent (ca cc a) = Some p \<and> T a = T p + 1} \<Longrightarrow> d p = T p \<Longrightarrow>
    \<exists>m1. call_update_depths k as (with_depth d m cc) =
      Some (with_depth (\<lambda>x. if \<exists>a\<in>set as. (a, x) \<in> (calls_to cc)\<^sup>* then T x else d x) m1 cc) \<and> m \<le> m1 \<and>
      (\<forall>x. (\<exists>a\<in>set as. (a, x) \<in> (calls_to cc)\<^sup>*) \<longrightarrow> T x \<le> m1)"
proof (induction as arbitrary: d m)
  case (Cons a as)
  let ?d = "\<lambda>x. if (a, x) \<in> (calls_to cc)\<^sup>* then T x else d x"
  have "a \<in> objs cc" "N < k + T a" "\<forall>q. ca_parent (ca cc a) = Some q \<longrightarrow> q \<in> objs cc \<and> d q = T q" using Cons.prems p by auto
  from step [OF this, of m] obtain m1 where 1: "call_update_depth k a (with_depth d m cc) = Some (with_depth ?d m1 cc)" "m \<le> m1"
      "\<forall>x. (a, x) \<in> (calls_to cc)\<^sup>* \<longrightarrow> T x \<le> m1" by blast
  have "set as \<subseteq> {a \<in> objs cc. ca_parent (ca cc a) = Some p \<and> T a = T p + 1}" "?d p = T p" using Cons.prems by auto
  from Cons.IH [where d = ?d and m = m1, OF this] obtain m2 where 2: "call_update_depths k as (with_depth ?d m1 cc) =
      Some (with_depth (\<lambda>x. if \<exists>a\<in>set as. (a, x) \<in> (calls_to cc)\<^sup>* then T x else ?d x) m2 cc)" "m1 \<le> m2"
      "\<forall>x. (\<exists>a\<in>set as. (a, x) \<in> (calls_to cc)\<^sup>*) \<longrightarrow> T x \<le> m2" by blast
  have "(\<lambda>x. if \<exists>a\<in>set as. (a, x) \<in> (calls_to cc)\<^sup>* then T x else ?d x) = (\<lambda>x. if \<exists>a\<in>set (a # as). (a, x) \<in> (calls_to cc)\<^sup>* then T x else d x)"
    by auto
  then have "call_update_depths k (a # as) (with_depth d m cc) =
      Some (with_depth (\<lambda>x. if \<exists>a\<in>set (a # as). (a, x) \<in> (calls_to cc)\<^sup>* then T x else d x) m2 cc)" using 1(1) 2(1) by simp
  moreover have "m \<le> m2" "\<forall>x. (\<exists>a\<in>set (a # as). (a, x) \<in> (calls_to cc)\<^sup>*) \<longrightarrow> T x \<le> m2" using 1(2,3) 2(2,3) by (auto intro: le_trans)
  ultimately show ?case by blast
qed auto

lemma update_depth_ok:
  assumes l: "\<forall>a\<in>objs cc. \<forall>b\<in>set (ca_callees (ca cc a)). b \<in> objs cc \<and> ca_parent (ca cc b) = Some a" and t: "levels cc T" "\<forall>a\<in>objs cc. T a \<le> N"
  shows "a \<in> objs cc \<Longrightarrow> N < k + T a \<Longrightarrow> \<forall>p. ca_parent (ca cc a) = Some p \<longrightarrow> p \<in> objs cc \<and> d p = T p \<Longrightarrow>
      \<exists>m1. call_update_depth k a (with_depth d m cc) =
          Some (with_depth (\<lambda>x. if (a, x) \<in> (calls_to cc)\<^sup>* then T x else d x) m1 cc) \<and> m \<le> m1 \<and> (\<forall>x. (a, x) \<in> (calls_to cc)\<^sup>* \<longrightarrow> T x \<le> m1)"
proof (induction k arbitrary: a d m)
  case 0
  then show ?case using t(2) by force
next
  case (Suc k)
  let ?as = "ca_callees (ca cc a)" and ?m = "max m (T a)"
  have ta: "(case ca_parent (ca (with_depth d m cc) a) of None \<Rightarrow> 0 | Some p \<Rightarrow> ca_depth (ca (with_depth d m cc) p) + 1) = T a"
    using Suc.prems(1,3) t(1) by (auto simp: levels_def split: option.splits)
  have as: "set ?as \<subseteq> {b \<in> objs cc. ca_parent (ca cc b) = Some a \<and> T b = T a + 1}"
  proof
    fix b assume "b \<in> set ?as"
    then have "b \<in> objs cc" "ca_parent (ca cc b) = Some a" using l Suc.prems(1) by blast+
    then show "b \<in> {b \<in> objs cc. ca_parent (ca cc b) = Some a \<and> T b = T a + 1}" using t(1) by (simp add: levels_def)
  qed
  have "\<exists>m1. call_update_depths k ?as (with_depth (d(a := T a)) ?m cc) =
      Some (with_depth (\<lambda>x. if \<exists>b\<in>set ?as. (b, x) \<in> (calls_to cc)\<^sup>* then T x else (d(a := T a)) x) m1 cc) \<and> ?m \<le> m1 \<and>
      (\<forall>x. (\<exists>b\<in>set ?as. (b, x) \<in> (calls_to cc)\<^sup>*) \<longrightarrow> T x \<le> m1)"
    by (rule update_depths_ok [OF Suc.IH Suc.prems(1)]) (use Suc.prems(2) as in simp_all)
  then obtain m1 where 1: "call_update_depths k ?as (with_depth (d(a := T a)) ?m cc) =
      Some (with_depth (\<lambda>x. if \<exists>b\<in>set ?as. (b, x) \<in> (calls_to cc)\<^sup>* then T x else (d(a := T a)) x) m1 cc)" "?m \<le> m1"
      "\<forall>x. (\<exists>b\<in>set ?as. (b, x) \<in> (calls_to cc)\<^sup>*) \<longrightarrow> T x \<le> m1" by blast
  have "(\<lambda>x. if \<exists>b\<in>set ?as. (b, x) \<in> (calls_to cc)\<^sup>* then T x else (d(a := T a)) x) = (\<lambda>x. if (a, x) \<in> (calls_to cc)\<^sup>* then T x else d x)"
    using below_step [OF Suc.prems(1)] by auto
  moreover have "call_update_depth (Suc k) a (with_depth d m cc) = call_update_depths k ?as (with_depth (d(a := T a)) ?m cc)"
    unfolding call_update_depth.simps Let_def ta set_with_depth using Suc.prems(1) by (simp add: max_def)
  moreover have "\<forall>x. (a, x) \<in> (calls_to cc)\<^sup>* \<longrightarrow> T x \<le> m1" using 1(2,3) below_step [OF Suc.prems(1)] by auto
  ultimately show ?case using 1 by (intro exI [of _ m1]) simp
qed


section \<open>Moving a function\<close>

text \<open>The object \<open>a\<close> gets the parent \<open>np\<close>, which is not below it; updating the depths then restores the invariant.\<close>

definition new_level :: "call_class \<Rightarrow> nat \<Rightarrow> nat option \<Rightarrow> nat \<Rightarrow> nat" where
  "new_level cc a np x =
     (if (a, x) \<in> (calls_to cc)\<^sup>*
      then ca_depth (ca cc x) - ca_depth (ca cc a) + (case np of None \<Rightarrow> 0 | Some q \<Rightarrow> ca_depth (ca cc q) + 1)
      else ca_depth (ca cc x))"

lemma new_levels:
  assumes ok: "call_ok cc" and o: "objs cc1 = objs cc"
    and par: "\<forall>x\<in>objs cc. ca_parent (ca cc1 x) = (if x = a then np else ca_parent (ca cc x))"
    and np: "\<forall>q. np = Some q \<longrightarrow> q \<in> objs cc \<and> (a, q) \<notin> (calls_to cc)\<^sup>*"
  shows "levels cc1 (new_level cc a np)" "\<forall>x\<in>objs cc1. new_level cc a np x \<le> 2 * cc_max_depth cc + 1"
proof -
  define d where "d = (\<lambda>x. ca_depth (ca cc x))"
  define v where "v = (case np of None \<Rightarrow> 0 | Some q \<Rightarrow> d q + 1)"
  have T: "new_level cc a np x = (if (a, x) \<in> (calls_to cc)\<^sup>* then d x - d a + v else d x)" for x unfolding new_level_def v_def d_def by (rule refl)
  have l: "links_ok cc" "levels cc d" and mx: "\<forall>x\<in>objs cc. d x \<le> cc_max_depth cc" using ok by (simp_all add: call_ok_def d_def)
  have below: "(a, x) \<in> (calls_to cc)\<^sup>* \<longleftrightarrow> (a, p) \<in> (calls_to cc)\<^sup>*" if "x \<in> objs cc" "x \<noteq> a" "ca_parent (ca cc x) = Some p" for x p
    using that calls_to_parent [OF l(1)] by (auto elim: rtranclE intro: rtrancl_into_rtrancl)
  show "levels cc1 (new_level cc a np)"
    unfolding levels_def o T
  proof
    fix x assume x: "x \<in> objs cc"
    show "(if (a, x) \<in> (calls_to cc)\<^sup>* then d x - d a + v else d x) =
      (case ca_parent (ca cc1 x) of None \<Rightarrow> 0 | Some p \<Rightarrow> (if (a, p) \<in> (calls_to cc)\<^sup>* then d p - d a + v else d p) + 1)"
    proof (cases "x = a")
      case True
      then show ?thesis using par x np by (auto simp: v_def split: option.splits)
    next
      case False
      show ?thesis
      proof (cases "ca_parent (ca cc x)")
        case None
        then have "(a, x) \<notin> (calls_to cc)\<^sup>*" using False calls_to_parent [OF l(1)] by (auto elim: rtranclE)
        then show ?thesis using None False par x l(2) by (simp add: levels_def)
      next
        case (Some p)
        have "d x = d p + 1" using Some x l(2) by (simp add: levels_def)
        moreover have "d a \<le> d p" if "(a, p) \<in> (calls_to cc)\<^sup>*" using levels_mono [OF l that] .
        ultimately show ?thesis using below [OF x False Some] Some False par x by auto
      qed
    qed
  qed
  have "v \<le> cc_max_depth cc + 1" using np mx by (auto simp: v_def split: option.splits)
  then have "d x - d a + v \<le> 2 * cc_max_depth cc + 1" "d x \<le> 2 * cc_max_depth cc + 1" if "x \<in> objs cc" for x using bspec [OF mx that] by linarith+
  then show "\<forall>x\<in>objs cc1. new_level cc a np x \<le> 2 * cc_max_depth cc + 1" unfolding o T by simp
qed

text \<open>What is below \<open>a\<close> stays there.\<close>

lemma below_stays:
  assumes l: "links_ok cc" "levels cc d" and o: "objs cc1 = objs cc" and l1: "links_ok cc1"
    and par: "\<forall>x\<in>objs cc. ca_parent (ca cc1 x) = (if x = a then np else ca_parent (ca cc x))"
  shows "(a, x) \<in> (calls_to cc)\<^sup>* \<Longrightarrow> (a, x) \<in> (calls_to cc1)\<^sup>*"
proof (induction rule: rtrancl_induct)
  case (step y z)
  have "d z = d y + 1" "d a \<le> d y" using levels_step [OF l step(2)] levels_mono [OF l step(1)] by auto
  then have "z \<noteq> a" by auto
  then have "(y, z) \<in> calls_to cc1" using step(2) calls_to_parent [OF l(1)] calls_to_parent [OF l1] par o by simp
  then show ?case using step.IH by (rule rtrancl_into_rtrancl [rotated])
qed simp

lemma relink_ok:
  assumes ok: "call_ok cc" and a: "a \<in> objs cc" and o: "objs cc1 = objs cc" and l1: "links_ok cc1"
    and par: "\<forall>x\<in>objs cc. ca_parent (ca cc1 x) = (if x = a then np else ca_parent (ca cc x))"
    and dep: "\<forall>x\<in>objs cc. ca_depth (ca cc1 x) = ca_depth (ca cc x)" "cc_max_depth cc1 = cc_max_depth cc"
    and np: "\<forall>q. np = Some q \<longrightarrow> q \<in> objs cc \<and> (a, q) \<notin> (calls_to cc)\<^sup>*"
  shows "\<exists>d m. call_update_depth (depth_bound cc) a cc1 = Some (with_depth d m cc1) \<and> call_ok (with_depth d m cc1)"
proof -
  let ?T = "new_level cc a np" and ?d1 = "\<lambda>x. ca_depth (ca cc1 x)"
  let ?d = "\<lambda>x. if (a, x) \<in> (calls_to cc1)\<^sup>* then ?T x else ?d1 x"
  have l: "links_ok cc" "levels cc (\<lambda>x. ca_depth (ca cc x))" and mx: "\<forall>x\<in>objs cc. ca_depth (ca cc x) \<le> cc_max_depth cc"
    using ok by (simp_all add: call_ok_def)
  note lv = new_levels [OF ok o par np]
  have c1: "\<forall>x\<in>objs cc1. \<forall>b\<in>set (ca_callees (ca cc1 x)). b \<in> objs cc1 \<and> ca_parent (ca cc1 b) = Some x" using links_okD(7) [OF l1] by blast
  have "\<exists>m1. call_update_depth (depth_bound cc) a (with_depth ?d1 (cc_max_depth cc1) cc1) = Some (with_depth ?d m1 cc1) \<and> cc_max_depth cc1 \<le> m1 \<and>
      (\<forall>x. (a, x) \<in> (calls_to cc1)\<^sup>* \<longrightarrow> ?T x \<le> m1)"
    by (rule update_depth_ok [OF c1 lv]) (use a o par np dep(1) in \<open>auto simp: new_level_def\<close>)
  then obtain m where m: "call_update_depth (depth_bound cc) a cc1 = Some (with_depth ?d m cc1)" "cc_max_depth cc1 \<le> m"
      "\<forall>x. (a, x) \<in> (calls_to cc1)\<^sup>* \<longrightarrow> ?T x \<le> m" unfolding own_depth by blast
  have dT: "?d x = ?T x" if "x \<in> objs cc" for x using below_stays [OF l o l1 par, of x] dep(1) that by (auto simp: new_level_def)
  have "levels (with_depth ?d m cc1) (\<lambda>x. ca_depth (ca (with_depth ?d m cc1) x))"
    unfolding levels_def
  proof
    fix x assume "x \<in> objs (with_depth ?d m cc1)"
    then have x: "x \<in> objs cc" using o by simp
    then have p: "p \<in> objs cc" if "ca_parent (ca cc1 x) = Some p" for p using links_okD(5) [OF l1] o that by auto
    show "ca_depth (ca (with_depth ?d m cc1) x) =
      (case ca_parent (ca (with_depth ?d m cc1) x) of None \<Rightarrow> 0 | Some p \<Rightarrow> ca_depth (ca (with_depth ?d m cc1) p) + 1)"
      using lv(1) x p dT by (cases "ca_parent (ca cc1 x)") (auto simp: levels_def o)
  qed
  moreover have "\<forall>x\<in>objs cc1. ?d x \<le> m" using m(2,3) mx dep unfolding o by (auto intro: le_trans)
  ultimately have "call_ok (with_depth ?d m cc1)" using with_depth_links [OF l1] by (simp add: call_ok_def)
  then show ?thesis using m(1) by blast
qed

text \<open>The lists after a move.\<close>

lemma links_okI:
  assumes "class_ok (cc_base cc)" "distinct (cc_head cc)" "\<And>a. a \<in> set (cc_head cc) \<Longrightarrow> a \<in> objs cc \<and> ca_parent (ca cc a) = None"
    "\<And>a. a \<in> objs cc \<Longrightarrow> ca_link (ca cc a) = ca_parent (ca cc a)" "\<And>a p. a \<in> objs cc \<Longrightarrow> ca_parent (ca cc a) = Some p \<Longrightarrow> p \<in> objs cc"
    "\<And>a. a \<in> objs cc \<Longrightarrow> distinct (ca_callees (ca cc a))"
    "\<And>a. a \<in> objs cc \<Longrightarrow> set (ca_callees (ca cc a)) = {b \<in> objs cc. ca_parent (ca cc b) = Some a}"
  shows "links_ok cc"
  using assms unfolding links_ok_def by blast

lemma unlink_objs [simp]: "objs (unlink a cc) = objs cc" "cc_head (unlink a cc) = cc_head cc" "cc_calls (unlink a cc) = cc_calls cc"
  "cc_max_depth (unlink a cc) = cc_max_depth cc"
  by (simp_all add: unlink_def split: option.split)

lemma class_unlink: "class_ok (cc_base cc) \<Longrightarrow> class_ok (cc_base (unlink a cc))"
  by (simp add: unlink_def class_set_ca split: option.split)

lemma unlink_fields:
  assumes l: "links_ok cc" and a: "a \<in> objs cc" and x: "x \<in> objs cc"
  shows "ca_parent (ca (unlink a cc) x) = ca_parent (ca cc x)" "ca_depth (ca (unlink a cc) x) = ca_depth (ca cc x)"
    "ca_link (ca (unlink a cc) x) = (if x = a then None else ca_parent (ca cc x))"
    "ca_callees (ca (unlink a cc) x) = (if ca_parent (ca cc a) = Some x then remove1 a (ca_callees (ca cc x)) else ca_callees (ca cc x))"
  using links_okD(4,5) [OF l] a x by (cases "ca_parent (ca cc a)"; simp add: unlink_def)+

lemma root_frame [simp]: "objs (make_root a cc) = objs cc" "cc_head (make_root a cc) = cc_head cc" "cc_calls (make_root a cc) = cc_calls cc"
  "cc_max_depth (make_root a cc) = cc_max_depth cc"
  by (simp_all add: make_root_def)

lemma root_fields:
  assumes l: "links_ok cc" and a: "a \<in> objs cc" and x: "x \<in> objs cc"
  shows "ca_parent (ca (make_root a cc) x) = (if x = a then None else ca_parent (ca cc x))"
    "ca_link (ca (make_root a cc) x) = (if x = a then None else ca_parent (ca cc x))"
    "ca_depth (ca (make_root a cc) x) = ca_depth (ca cc x)"
    "ca_callees (ca (make_root a cc) x) = (if ca_parent (ca cc a) = Some x then remove1 a (ca_callees (ca cc x)) else ca_callees (ca cc x))"
  using unlink_fields [OF l a] a x by (simp_all add: make_root_def)

lemma links_root:
  assumes l: "links_ok cc" and a: "a \<in> objs cc"
  shows "links_ok (make_root a cc)"
proof (rule links_okI)
  let ?c = "make_root a cc"
  note f = root_fields [OF l a]
  show "class_ok (cc_base ?c)" using links_okD(1) [OF l] by (simp add: make_root_def class_set_ca class_unlink)
  show "distinct (cc_head ?c)" using links_okD(2) [OF l] by simp
  show "x \<in> objs ?c \<and> ca_parent (ca ?c x) = None" if "x \<in> set (cc_head ?c)" for x
  proof -
    have "x \<in> objs cc" "ca_parent (ca cc x) = None" using links_okD(3) [OF l] that by auto
    then show ?thesis using f by simp
  qed
  fix x assume "x \<in> objs ?c"
  then have x: "x \<in> objs cc" by simp
  show "ca_link (ca ?c x) = ca_parent (ca ?c x)" using f x by simp
  show "p \<in> objs ?c" if "ca_parent (ca ?c x) = Some p" for p using that f x links_okD(5) [OF l x] by (simp split: if_splits)
  show "distinct (ca_callees (ca ?c x))" using f(4) [OF x] links_okD(6) [OF l x] by simp
  have "set (ca_callees (ca ?c x)) = set (ca_callees (ca cc x)) - {a}" using f(4) [OF x] links_okD(6,7) [OF l x] by auto
  also have "\<dots> = {y \<in> objs ?c. ca_parent (ca ?c y) = Some x}"
  proof -
    have "{y \<in> objs ?c. ca_parent (ca ?c y) = Some x} = {y \<in> objs cc. (if y = a then None else ca_parent (ca cc y)) = Some x}"
      using f(1) by (simp cong: conj_cong)
    then show ?thesis unfolding links_okD(7) [OF l x] by (auto split: if_splits)
  qed
  finally show "set (ca_callees (ca ?c x)) = {y \<in> objs ?c. ca_parent (ca ?c y) = Some x}" .
qed

lemma move_frame [simp]: "objs (move_callee a b cc) = objs cc" "cc_head (move_callee a b cc) = remove1 b (cc_head cc)"
  "cc_calls (move_callee a b cc) = cc_calls cc" "cc_max_depth (move_callee a b cc) = cc_max_depth cc"
  by (simp_all add: move_callee_def Let_def)

lemma move_fields:
  assumes l: "links_ok cc" and ab: "a \<in> objs cc" "b \<in> objs cc" "a \<noteq> b" "ca_parent (ca cc b) \<noteq> Some a" and x: "x \<in> objs cc"
  shows "ca_parent (ca (move_callee a b cc) x) = (if x = b then Some a else ca_parent (ca cc x))"
    "ca_link (ca (move_callee a b cc) x) = (if x = b then Some a else ca_parent (ca cc x))"
    "ca_depth (ca (move_callee a b cc) x) = ca_depth (ca cc x)"
    "ca_callees (ca (move_callee a b cc) x) =
       (if x = a then ca_callees (ca cc a) @ [b] else if ca_parent (ca cc b) = Some x then remove1 b (ca_callees (ca cc x)) else ca_callees (ca cc x))"
  using unlink_fields [OF l ab(2)] ab x by (simp_all add: move_callee_def Let_def)

lemma links_callee:
  assumes l: "links_ok cc" and ab: "a \<in> objs cc" "b \<in> objs cc" "a \<noteq> b" "ca_parent (ca cc b) \<noteq> Some a"
  shows "links_ok (move_callee a b cc)"
proof (rule links_okI)
  let ?c = "move_callee a b cc"
  note f = move_fields [OF l ab]
  show "class_ok (cc_base ?c)" using links_okD(1) [OF l] by (simp add: move_callee_def Let_def class_set_ca class_unlink)
  show "distinct (cc_head ?c)" using links_okD(2) [OF l] by simp
  show "x \<in> objs ?c \<and> ca_parent (ca ?c x) = None" if "x \<in> set (cc_head ?c)" for x
  proof -
    have "x \<in> objs cc" "ca_parent (ca cc x) = None" "x \<noteq> b" using links_okD(2,3) [OF l] that by auto
    then show ?thesis using f by simp
  qed
  fix x assume "x \<in> objs ?c"
  then have x: "x \<in> objs cc" by simp
  show "ca_link (ca ?c x) = ca_parent (ca ?c x)" using f x by simp
  show "p \<in> objs ?c" if "ca_parent (ca ?c x) = Some p" for p using that f x ab links_okD(5) [OF l x] by (simp split: if_splits)
  have nb: "b \<notin> set (ca_callees (ca cc x))" if "ca_parent (ca cc b) \<noteq> Some x" using links_okD(7) [OF l x] that by simp
  show "distinct (ca_callees (ca ?c x))" using f(4) [OF x] nb ab links_okD(6) [OF l x] by (cases "x = a") simp_all
  have "set (ca_callees (ca ?c x)) = (set (ca_callees (ca cc x)) - {b}) \<union> (if x = a then {b} else {})"
    using f(4) [OF x] nb ab links_okD(6) [OF l x] by (cases "x = a") auto
  also have "\<dots> = {y \<in> objs ?c. ca_parent (ca ?c y) = Some x}"
  proof -
    have "{y \<in> objs ?c. ca_parent (ca ?c y) = Some x} = {y \<in> objs cc. (if y = b then Some a else ca_parent (ca cc y)) = Some x}"
      using f(1) by (simp cong: conj_cong)
    then show ?thesis unfolding links_okD(7) [OF l x] using ab(2) by (auto split: if_splits)
  qed
  finally show "set (ca_callees (ca ?c x)) = {y \<in> objs ?c. ca_parent (ca ?c y) = Some x}" .
qed


section \<open>Every call keeps the forest\<close>

text \<open>What a call may change: not which objects there are.\<close>

definition same_names :: "call_class \<Rightarrow> call_class \<Rightarrow> bool" where
  "same_names cc cc1 \<longleftrightarrow> objs cc1 = objs cc \<and> two_event_find (cc_base cc1) = two_event_find (cc_base cc) \<and>
     class_map (cc_base cc1) = class_map (cc_base cc)"

lemma same_names_refl: "same_names cc cc"
  by (simp add: same_names_def)

lemma same_names_trans: "same_names a b \<Longrightarrow> same_names b c \<Longrightarrow> same_names a c"
  by (simp add: same_names_def)

lemma names_set_ca: "class_ok (cc_base cc) \<Longrightarrow> same_names cc (set_ca a f cc)"
  by (simp add: same_names_def set_ca_def set_obj_same)

lemma names_unlink: "class_ok (cc_base cc) \<Longrightarrow> same_names cc (unlink a cc)"
  by (auto simp: unlink_def class_set_ca intro: same_names_refl same_names_trans [OF names_set_ca names_set_ca] split: option.split)

lemma names_root: "class_ok (cc_base cc) \<Longrightarrow> same_names cc (make_root a cc)"
  unfolding make_root_def by (intro same_names_trans [OF names_unlink names_set_ca] class_unlink)

lemma names_base: "cc_base cc1 = cc_base cc \<Longrightarrow> same_names cc cc1"
  by (simp add: same_names_def)

lemma names_move: "class_ok (cc_base cc) \<Longrightarrow> same_names cc (move_callee a b cc)"
  unfolding move_callee_def Let_def
  by (rule same_names_trans [OF names_unlink same_names_trans [OF names_set_ca same_names_trans [OF names_set_ca same_names_trans [OF names_base names_set_ca]]]])
    (simp_all add: class_unlink class_set_ca)

lemma names_depth: "class_ok (cc_base cc) \<Longrightarrow> same_names cc (with_depth d m cc)"
  by (simp add: same_names_def with_depth_class)

lemma ok_counts [simp]: "call_ok (cc\<lparr>cc_calls := n\<rparr>) = call_ok cc"
  by (simp add: call_ok_def links_ok_def levels_def)

lemma calls_to_counts [simp]: "calls_to (cc\<lparr>cc_calls := n\<rparr>) = calls_to cc"
  by (simp add: calls_to_def)

lemma add_root_ok:
  assumes "call_ok cc" "a \<in> objs cc" "ca_parent (ca cc a) = None"
  shows "call_ok (cc\<lparr>cc_head := (if a \<in> set (cc_head cc) then cc_head cc else cc_head cc @ [a]), cc_calls := n\<rparr>)"
proof -
  have "levels (cc\<lparr>cc_head := h, cc_calls := n\<rparr>) d = levels cc d" for h n d by (simp add: levels_def)
  then show ?thesis using assms by (auto simp: call_ok_def links_ok_def)
qed

lemma set_recursive_ok:
  assumes "call_ok cc" "a \<in> objs cc"
  shows "call_ok (set_ca a (\<lambda>r. r\<lparr>ca_recursive := b\<rparr>) cc)" "calls_to (set_ca a (\<lambda>r. r\<lparr>ca_recursive := b\<rparr>) cc) = calls_to cc"
proof -
  let ?c = "set_ca a (\<lambda>r. r\<lparr>ca_recursive := b\<rparr>) cc"
  have f: "ca_parent (ca ?c x) = ca_parent (ca cc x)" "ca_link (ca ?c x) = ca_link (ca cc x)" "ca_callees (ca ?c x) = ca_callees (ca cc x)"
      "ca_depth (ca ?c x) = ca_depth (ca cc x)" for x using assms(2) by simp_all
  show "calls_to ?c = calls_to cc" unfolding calls_to_def f by simp
  have "class_ok (cc_base ?c)" using assms(1) by (intro class_set_ca) (simp add: call_ok_def links_ok_def)
  then show "call_ok ?c" using assms(1) unfolding call_ok_def links_ok_def levels_def f objs_set_ca set_ca_frame by blast
qed

text \<open>What the parents are after a call.\<close>

definition linked_to :: "call_class \<Rightarrow> nat \<Rightarrow> nat option \<Rightarrow> call_class \<Rightarrow> bool" where
  "linked_to cc b np cc1 \<longleftrightarrow> call_ok cc1 \<and> same_names cc cc1 \<and>
     (\<forall>x\<in>objs cc. ca_parent (ca cc1 x) = (if x = b then np else ca_parent (ca cc x)))"

lemma relinked:
  assumes ok: "call_ok cc" and a: "a \<in> objs cc" and l1: "links_ok cc1" and nm: "same_names cc cc1"
    and par: "\<forall>x\<in>objs cc. ca_parent (ca cc1 x) = (if x = a then np else ca_parent (ca cc x))"
    and dep: "\<forall>x\<in>objs cc. ca_depth (ca cc1 x) = ca_depth (ca cc x)" "cc_max_depth cc1 = cc_max_depth cc"
    and np: "\<forall>q. np = Some q \<longrightarrow> q \<in> objs cc \<and> (a, q) \<notin> (calls_to cc)\<^sup>*"
  shows "\<exists>cc2. call_update_depth (depth_bound cc) a cc1 = Some cc2 \<and> linked_to cc a np cc2 \<and> cc_head cc2 = cc_head cc1"
proof -
  have o: "objs cc1 = objs cc" using nm by (simp add: same_names_def)
  obtain d m where r: "call_update_depth (depth_bound cc) a cc1 = Some (with_depth d m cc1)" "call_ok (with_depth d m cc1)"
    using relink_ok [OF ok a o l1 par dep np] by blast
  have "same_names cc (with_depth d m cc1)" using same_names_trans [OF nm names_depth] links_okD(1) [OF l1] by blast
  then have "linked_to cc a np (with_depth d m cc1)" using r(2) par o by (simp add: linked_to_def)
  then show ?thesis using r(1) by auto
qed

lemma link_root_ok:
  assumes ok: "call_ok cc" and a: "a \<in> objs cc"
  shows "\<exists>cc1 ls. link_root a cc = Some (cc1, ls) \<and> linked_to cc a None cc1"
proof -
  have l: "links_ok cc" using ok by (simp add: call_ok_def)
  show ?thesis
  proof (cases "ca_parent (ca cc a)")
    case None
    then have "ca_link (ca cc a) = None" using links_okD(4) [OF l a] by simp
    then show ?thesis using add_root_ok [OF ok a None] None names_base by (auto simp: link_root_def linked_to_def)
  next
    case (Some p)
    then have k: "ca_link (ca cc a) \<noteq> None" using links_okD(4) [OF l a] by simp
    obtain n ls where p: "call_class_print cc = Some (cc\<lparr>cc_calls := n\<rparr>, ls)" using class_print_ok [OF ok] by blast
    let ?c = "cc\<lparr>cc_calls := n\<rparr>"
    have c: "call_ok ?c" "links_ok ?c" "a \<in> objs ?c" using ok a by (simp_all add: call_ok_def [of ?c, simplified])
    note f = root_fields [OF c(2,3)]
    obtain cc2 where 2: "call_update_depth (depth_bound ?c) a (make_root a ?c) = Some cc2" "linked_to ?c a None cc2"
      using relinked [OF c(1,3) links_root [OF c(2,3)] names_root [OF links_okD(1) [OF c(2)]], of None] f by auto
    have t: "a \<in> objs cc2" "ca_parent (ca cc2 a) = None" "call_ok cc2" using 2(2) a by (auto simp: linked_to_def same_names_def)
    have "linked_to cc a None (cc2\<lparr>cc_head := (if a \<in> set (cc_head cc2) then cc_head cc2 else cc_head cc2 @ [a]), cc_calls := cc_calls cc2 + 1\<rparr>)"
      using add_root_ok [OF t(3,1,2)] 2(2) by (simp add: linked_to_def same_names_def)
    then show ?thesis using k p 2(1) by (simp add: link_root_def)
  qed
qed

lemma link_callee_ok:
  assumes ok: "call_ok cc" and ab: "a \<in> objs cc" "b \<in> objs cc" "(b, a) \<notin> (calls_to cc)\<^sup>*" "ca_parent (ca cc b) \<noteq> Some a"
  shows "\<exists>cc1 ls. link_callee a b cc = Some (cc1, ls) \<and> linked_to cc b (Some a) cc1"
proof -
  obtain n ls where p: "(if ca_parent (ca cc b) \<noteq> None \<or> b \<in> set (cc_head cc) then call_class_print cc else Some (cc, [])) =
      Some (cc\<lparr>cc_calls := n\<rparr>, ls)" 
  proof (cases "ca_parent (ca cc b) \<noteq> None \<or> b \<in> set (cc_head cc)")
    case False
    then show ?thesis using that [of "cc_calls cc" "[]"] by simp
  qed (use class_print_ok [OF ok] that in auto)
  let ?c = "cc\<lparr>cc_calls := n\<rparr>"
  have c: "call_ok ?c" "links_ok ?c" using ok by (simp_all add: call_ok_def [of ?c, simplified])
  have n: "a \<noteq> b" using ab(3) by auto
  have d: "a \<in> objs ?c" "b \<in> objs ?c" "a \<noteq> b" "ca_parent (ca ?c b) \<noteq> Some a" using ab n by simp_all
  note f = move_fields [OF c(2) d]
  obtain cc2 where 2: "call_update_depth (depth_bound ?c) b (move_callee a b ?c) = Some cc2" "linked_to ?c b (Some a) cc2"
    using relinked [OF c(1) d(2) links_callee [OF c(2) d] names_move [OF links_okD(1) [OF c(2)]], of "Some a"] f ab by auto
  then have "linked_to cc b (Some a) cc2" by (simp add: linked_to_def same_names_def)
  then show ?thesis using p 2(1) unfolding link_callee_def by simp
qed


lemma call_link_ok:
  assumes ok: "call_ok cc" and a: "a \<in> objs cc"
  shows "\<exists>r cc1 ls. call_link (Some a) tp2 cc = Some (r, cc1, ls) \<and> call_ok cc1 \<and> same_names cc cc1 \<and>
    (\<forall>x\<in>objs cc. ca_parent (ca cc1 x) =
      (if tp2 = 0 then if x = a then None else ca_parent (ca cc x)
       else if two_event_find (cc_base cc) tp2 0 = Some x \<and> (x, a) \<notin> (calls_to cc)\<^sup>* then Some a else ca_parent (ca cc x)))"
proof (cases "tp2 = 0")
  case True
  then show ?thesis using link_root_ok [OF ok a] by (auto simp: call_link_def linked_to_def)
next
  case False
  have l: "links_ok cc" "levels cc (\<lambda>x. ca_depth (ca cc x))" "ca_depth (ca cc a) \<le> cc_max_depth cc" using ok a by (auto simp: call_ok_def)
  show ?thesis
  proof (cases "two_event_find (cc_base cc) tp2 0")
    case None
    then show ?thesis using False ok same_names_refl by (rule_tac exI [of _ False]) (simp add: call_link_def)
  next
    case (Some b)
    have b: "b \<in> objs cc" using found_object(1) [OF links_okD(1) [OF l(1)] Some] .
    let ?rec = "(b, a) \<in> (calls_to cc)\<^sup>*" and ?c = "set_ca a (\<lambda>r. r\<lparr>ca_recursive := (b, a) \<in> (calls_to cc)\<^sup>*\<rparr>) cc"
    have rc: "call_recursive (cc_max_depth cc + 1) cc (Some a) b = Some ?rec" using recursive_ok [OF l(1,2) a] l(3) by simp
    have c: "call_ok ?c" "calls_to ?c = calls_to cc" "same_names cc ?c" using set_recursive_ok [OF ok a] names_set_ca [OF links_okD(1) [OF l(1)]] by auto
    have pc: "ca_parent (ca ?c x) = ca_parent (ca cc x)" for x using a by simp
    show ?thesis
    proof (cases "ca_parent (ca ?c b) \<noteq> Some a \<and> \<not> ?rec")
      case True
      then obtain cc1 ls where 1: "link_callee a b ?c = Some (cc1, ls)" "linked_to ?c b (Some a) cc1"
        using link_callee_ok [OF c(1), unfolded objs_set_ca c(2), OF a b] by blast
      have "call_ok cc1" "same_names cc cc1" "\<forall>x\<in>objs cc. ca_parent (ca cc1 x) = (if x = b then Some a else ca_parent (ca cc x))"
        using 1(2) same_names_trans [OF c(3)] unfolding linked_to_def pc objs_set_ca by auto
      then show ?thesis using False Some rc 1(1) True by (auto simp: call_link_def same_names_def)
    next
      case no: False
      then show ?thesis using False Some rc c pc a by (auto simp: call_link_def same_names_def)
    qed
  qed
qed

section \<open>Sequences of calls\<close>

text \<open>The objects of \<open>multi_trace_init\<close>, then the calls of \<open>two\<close>: the function, and the function it calls or 0.\<close>

fun call_news :: "(nat \<times> nat) list \<Rightarrow> call_class \<Rightarrow> call_class option" where
  "call_news [] cc = Some cc"
| "call_news ((tp1, tp2) # ps) cc = (case call_new True tp1 tp2 cc of Some (Some a, cc1) \<Rightarrow> call_news ps cc1 | _ \<Rightarrow> None)"

fun call_twos :: "(nat \<times> nat) list \<Rightarrow> call_class \<Rightarrow> (call_class \<times> (nat \<times> nat \<times> bool) list) option" where
  "call_twos [] cc = Some (cc, [])"
| "call_twos ((tp1, tp2) # ps) cc =
     (case call_link (call_find cc tp1 tp2) tp2 cc of
        None \<Rightarrow> None
      | Some (_, cc1, ls) \<Rightarrow> map_option (\<lambda>(cc2, ls2). (cc2, ls @ ls2)) (call_twos ps cc1))"

text \<open>The callers by name.\<close>

definition caller_of :: "call_class \<Rightarrow> nat \<rightharpoonup> nat" where
  "caller_of cc t = (case two_event_find (cc_base cc) t 0 of
     None \<Rightarrow> None
   | Some x \<Rightarrow> map_option (\<lambda>p. te_tp1 (obj (cc_base cc) p)) (ca_parent (ca cc x)))"

text \<open>\<open>b\<close> is \<open>a\<close> or a caller of it, directly or not.\<close>

definition above :: "(nat \<rightharpoonup> nat) \<Rightarrow> nat \<Rightarrow> nat \<Rightarrow> bool" where
  "above m b a \<longleftrightarrow> (a, b) \<in> {(x, p). m x = Some p}\<^sup>*"

text \<open>Only known functions are looked at; a function above the caller keeps its place.\<close>

definition spec_two :: "nat set \<Rightarrow> nat \<times> nat \<Rightarrow> (nat \<rightharpoonup> nat) \<Rightarrow> nat \<rightharpoonup> nat" where
  "spec_two K c m = (case c of (a, b) \<Rightarrow>
     if a \<notin> K then m
     else if b = 0 then m(a := None)
     else if b \<notin> K \<or> above m b a then m else m(b \<mapsto> a))"

definition named :: "call_class \<Rightarrow> bool" where
  "named cc \<longleftrightarrow> class_ok (cc_base cc) \<and> dom (class_map (cc_base cc)) \<subseteq> {e. snd e = 0}"

abbreviation name_of :: "call_class \<Rightarrow> nat \<Rightarrow> nat" where
  "name_of cc x \<equiv> te_tp1 (obj (cc_base cc) x)"

lemma find_named:
  assumes "named cc" "x \<in> objs cc"
  shows "two_event_find (cc_base cc) (name_of cc x) 0 = Some x"
proof -
  have c: "class_ok (cc_base cc)" using assms(1) by (simp add: named_def)
  have "x \<in> set (entries (two_events (cc_base cc)))" using class_okD(3) [OF c] assms(2) by simp
  then have m: "table_map (pkey (cc_base cc)) (two_events (cc_base cc)) (pkey (cc_base cc) x) = Some x" using table_map_of [OF class_okD(1) [OF c]] by blast
  then have "pkey (cc_base cc) x \<in> dom (class_map (cc_base cc))" by (auto simp: class_map_def domIff)
  then have "te_tp2 (obj (cc_base cc) x) = 0" using assms(1) by (auto simp: named_def)
  then show ?thesis using m find_pair [OF c] by simp
qed

lemma named_same:
  assumes "named cc" "same_names cc cc1" "class_ok (cc_base cc1)"
  shows "named cc1" "x \<in> objs cc \<Longrightarrow> name_of cc1 x = name_of cc x"
proof -
  show "named cc1" using assms by (simp add: named_def same_names_def)
  show "name_of cc1 x = name_of cc x" if "x \<in> objs cc"
    using found_object(2) [OF assms(3), of "name_of cc x" 0 x] find_named [OF assms(1) that] assms(2) by (simp add: same_names_def)
qed

lemma caller_name: "named cc \<Longrightarrow> x \<in> objs cc \<Longrightarrow> caller_of cc (name_of cc x) = map_option (name_of cc) (ca_parent (ca cc x))"
  by (simp add: caller_of_def find_named)

lemma above_calls:
  assumes n: "named cc" and l: "links_ok cc" and ab: "a \<in> objs cc" "b \<in> objs cc"
  shows "above (caller_of cc) (name_of cc b) (name_of cc a) \<longleftrightarrow> (b, a) \<in> (calls_to cc)\<^sup>*"
proof
  let ?R = "{(x, p). caller_of cc x = Some p}"
  have "(name_of cc a, t) \<in> ?R\<^sup>* \<Longrightarrow> \<exists>c\<in>objs cc. t = name_of cc c \<and> (c, a) \<in> (calls_to cc)\<^sup>*" for t
  proof (induction rule: rtrancl_induct)
    case base
    then show ?case using ab(1) by auto
  next
    case (step t u)
    then obtain c where c: "c \<in> objs cc" "t = name_of cc c" "(c, a) \<in> (calls_to cc)\<^sup>*" by blast
    then obtain p where p: "ca_parent (ca cc c) = Some p" "u = name_of cc p" using step.hyps(2) caller_name [OF n c(1)] by auto
    have "p \<in> objs cc" "(p, c) \<in> calls_to cc" using links_okD(5) [OF l c(1) p(1)] calls_to_parent [OF l] c(1) p(1) by auto
    then show ?case using p(2) c(3) by (auto intro: converse_rtrancl_into_rtrancl)
  qed
  moreover assume "above (caller_of cc) (name_of cc b) (name_of cc a)"
  ultimately obtain c where "c \<in> objs cc" "name_of cc b = name_of cc c" "(c, a) \<in> (calls_to cc)\<^sup>*" unfolding above_def by blast
  then show "(b, a) \<in> (calls_to cc)\<^sup>*" using find_named [OF n] ab(2) by (metis option.inject)
next
  assume "(b, a) \<in> (calls_to cc)\<^sup>*"
  then show "above (caller_of cc) (name_of cc b) (name_of cc a)"
  proof (induction rule: rtrancl_induct)
    case (step y z)
    then have "z \<in> objs cc" "ca_parent (ca cc z) = Some y" using calls_to_parent [OF l] by auto
    then have "caller_of cc (name_of cc z) = Some (name_of cc y)" using caller_name [OF n] by simp
    then show ?case using step.IH unfolding above_def by (intro converse_rtrancl_into_rtrancl [of "name_of cc z" "name_of cc y"]) simp_all
  qed (simp add: above_def)
qed


text \<open>The functions that have an object.\<close>

definition known :: "call_class \<Rightarrow> nat set" where
  "known cc = {t. two_event_find (cc_base cc) t 0 \<noteq> None}"

lemma two_refines:
  assumes ok: "call_ok cc" and n: "named cc"
  shows "\<exists>r cc1 ls. call_link (call_find cc a b) b cc = Some (r, cc1, ls) \<and> call_ok cc1 \<and> named cc1 \<and> known cc1 = known cc \<and>
    caller_of cc1 = spec_two (known cc) (a, b) (caller_of cc)"
proof (cases "two_event_find (cc_base cc) a 0")
  case None
  then show ?thesis using ok n by (rule_tac exI [of _ False]) (simp add: call_find_def call_link_def known_def spec_two_def)
next
  case (Some x)
  have l: "links_ok cc" and c: "class_ok (cc_base cc)" using ok by (auto simp: call_ok_def links_ok_def)
  have x: "x \<in> objs cc" "name_of cc x = a" using found_object [OF c Some] by auto
  obtain r cc1 ls where 1: "call_link (Some x) b cc = Some (r, cc1, ls)" "call_ok cc1" "same_names cc cc1"
      "\<forall>y\<in>objs cc. ca_parent (ca cc1 y) =
        (if b = 0 then if y = x then None else ca_parent (ca cc y)
         else if two_event_find (cc_base cc) b 0 = Some y \<and> (y, x) \<notin> (calls_to cc)\<^sup>* then Some x else ca_parent (ca cc y))"
    using call_link_ok [OF ok x(1), of b] by blast
  have c1: "class_ok (cc_base cc1)" "objs cc1 = objs cc" "two_event_find (cc_base cc1) = two_event_find (cc_base cc)"
    using 1(2,3) by (auto simp: call_ok_def links_ok_def same_names_def)
  note n1 = named_same [OF n 1(3) c1(1)]
  have k: "known cc1 = known cc" using c1(3) by (simp add: known_def)
  have "caller_of cc1 t = spec_two (known cc) (a, b) (caller_of cc) t" for t
  proof (cases "two_event_find (cc_base cc) t 0")
    case None
    then have "t \<notin> known cc" "t \<noteq> a" using Some by (auto simp: known_def)
    then show ?thesis using None c1(3) by (auto simp: caller_of_def spec_two_def)
  next
    case (Some y)
    have y: "y \<in> objs cc" "name_of cc y = t" using found_object [OF c Some] by auto
    have "name_of cc1 q = name_of cc q" if "ca_parent (ca cc1 y) = Some q" for q
      using that n1(2) links_okD(5) [of cc1 y q] 1(2) c1(2) y(1) by (simp add: call_ok_def)
    then have ca: "caller_of cc1 t = map_option (name_of cc) (ca_parent (ca cc1 y))"
      using caller_name [OF n1(1), of y] y n1(2) [OF y(1)] c1(2) by (cases "ca_parent (ca cc1 y)") simp_all
    have cb: "caller_of cc t = map_option (name_of cc) (ca_parent (ca cc y))" using caller_name [OF n y(1)] y(2) by simp
    have ta: "t = a \<longleftrightarrow> y = x" using Some find_named [OF n x(1), unfolded x(2)] x(2) y(2) by (metis option.inject)
    have tb: "t = b \<longleftrightarrow> two_event_find (cc_base cc) b 0 = Some y" using Some y(2) found_object(2) [OF c, of b 0 y] by auto
    have ab: "above (caller_of cc) b a \<longleftrightarrow> (y, x) \<in> (calls_to cc)\<^sup>*" if "t = b" using above_calls [OF n l x(1) y(1)] x(2) y(2) that by simp
    have ka: "a \<in> known cc" "b \<in> known cc \<longleftrightarrow> two_event_find (cc_base cc) b 0 \<noteq> None" using find_named [OF n x(1)] x(2) by (auto simp: known_def)
    show ?thesis
    proof (cases "b = 0")
      case True
      then show ?thesis using ca cb 1(4) y(1) ta ka by (simp add: spec_two_def)
    next
      case False
      have cc1: "ca_parent (ca cc1 y) = (if t = b \<and> (y, x) \<notin> (calls_to cc)\<^sup>* then Some x else ca_parent (ca cc y))"
        using 1(4) y(1) False tb by simp
      have sp: "spec_two (known cc) (a, b) (caller_of cc) t =
          (if t = b \<and> b \<in> known cc \<and> \<not> above (caller_of cc) b a then Some a else caller_of cc t)" using False ka(1) by (simp add: spec_two_def)
      show ?thesis
      proof (cases "t = b")
        case True
        then have "b \<in> known cc" using ka(2) tb by simp
        then show ?thesis using True sp ca cb cc1 ab x(2) by simp
      qed (use sp ca cb cc1 in simp)
    qed
  qed
  then show ?thesis using 1(1,2) n1(1) k \<open>two_event_find (cc_base cc) a 0 = Some x\<close> by (auto simp: call_find_def)
qed


lemma twos_refine:
  "call_ok cc \<Longrightarrow> named cc \<Longrightarrow>
   \<exists>cc1 out. call_twos cs cc = Some (cc1, out) \<and> call_ok cc1 \<and> caller_of cc1 = fold (spec_two (known cc)) cs (caller_of cc)"
proof (induction cs arbitrary: cc)
  case (Cons c cs)
  obtain a b where c: "c = (a, b)" by (cases c)
  obtain r cc1 ls where 1: "call_link (call_find cc a b) b cc = Some (r, cc1, ls)" "call_ok cc1" "named cc1" "known cc1 = known cc"
      "caller_of cc1 = spec_two (known cc) (a, b) (caller_of cc)" using two_refines [OF Cons.prems] by blast
  then show ?case using Cons.IH [OF 1(2,3)] c by auto
qed simp

text \<open>Objects that are not linked.\<close>

definition unlinked :: "call_class \<Rightarrow> bool" where
  "unlinked cc \<longleftrightarrow> cc_head cc = [] \<and>
     (\<forall>x\<in>objs cc. ca_parent (ca cc x) = None \<and> ca_link (ca cc x) = None \<and> ca_callees (ca cc x) = [] \<and> ca_depth (ca cc x) = 0)"

lemma unlinked_ok: "unlinked cc \<Longrightarrow> class_ok (cc_base cc) \<Longrightarrow> call_ok cc"
  by (auto simp: call_ok_def links_ok_def levels_def unlinked_def)

lemma unlinked_none: "unlinked cc \<Longrightarrow> class_ok (cc_base cc) \<Longrightarrow> caller_of cc = Map.empty"
  using found_object(1) [of "cc_base cc"] by (auto simp: caller_of_def unlinked_def fun_eq_iff split: option.splits)

lemma call_new_ok:
  assumes u: "unlinked cc" "named cc" and ids: "cl_ids (cc_base cc) < cl_ids (cc_base cc) + 1"
  shows "\<exists>a cc1. call_new True tp1 tp2 cc = Some (Some a, cc1) \<and> unlinked cc1 \<and> named cc1 \<and> known cc1 = insert tp1 (known cc) \<and>
    (cl_ids (cc_base cc1) = cl_ids (cc_base cc) \<or> cl_ids (cc_base cc1) = cl_ids (cc_base cc) + 1)"
proof -
  have ok: "class_ok (cc_base cc)" using u(2) by (simp add: named_def)
  obtain a c where c: "two_event_new True zero_caller tp1 0 (cc_base cc) = Some (Some a, c)" "class_ok c" "two_event_find c tp1 0 = Some a"
      "case class_map (cc_base cc) (tp1, 0) of Some i \<Rightarrow> c = cc_base cc
       | None \<Rightarrow> class_map c = (class_map (cc_base cc))((tp1, 0) \<mapsto> cl_ids (cc_base cc)) \<and> cl_ids c = cl_ids (cc_base cc) + 1"
    using new_ok [OF ok ids] by blast
  let ?cc = "cc\<lparr>cc_base := c\<rparr>"
  have m: "dom (class_map c) = insert (tp1, 0) (dom (class_map (cc_base cc)))" using c(4) by (auto simp: domIff split: option.splits)
  have "te_obj t = zero_caller \<or> (\<exists>y\<in>objs cc. te_obj t = ca cc y)" if "cl_heap c x = Some t" for x t
    using new_heap [OF c(1) that] by (metis domI option.sel)
  then have u1: "unlinked ?cc" using u(1) by (fastforce simp: unlinked_def zero_caller_def domIff)
  have a: "a \<in> objs ?cc" using found_object(1) [OF c(2,3)] by simp
  define cc1 where "cc1 = set_ca a (\<lambda>r. r\<lparr>ca_tp2 := tp2, ca_parent := None\<rparr>) ?cc"
  have b: "cc_base cc1 = set_obj a (\<lambda>r. r\<lparr>ca_tp2 := tp2, ca_parent := None\<rparr>) c" by (simp add: cc1_def set_ca_def)
  have "call_new True tp1 tp2 cc = Some (Some a, cc1)" using c(1) u1 a by (simp add: call_new_def cc1_def unlinked_def Let_def)
  moreover have "unlinked cc1" using u1 a by (auto simp: unlinked_def cc1_def)
  moreover have k: "t \<in> known (cc\<lparr>cc_base := e\<rparr>) \<longleftrightarrow> (t, 0) \<in> dom (class_map e)" if "class_ok e" for e t
    using find_pair [OF that] by (auto simp: known_def class_map_def domIff)
  have "known cc1 = known ?cc" using set_obj_same(3) [OF c(2)] by (simp add: known_def b)
  then have "known cc1 = insert tp1 (known cc)" using k [OF c(2)] k [OF ok] m by auto
  moreover have "named cc1" using u(2) m set_obj_same(1,2) [OF c(2)] by (simp add: named_def b)
  moreover have "cl_ids (cc_base cc1) = cl_ids c" by (simp add: b set_obj_same)
  ultimately show ?thesis using c(4) by (auto split: option.splits)
qed

lemma call_news_ok:
  "unlinked cc \<Longrightarrow> named cc \<Longrightarrow> unat (cl_ids (cc_base cc)) + length ps < 2 ^ 32 \<Longrightarrow>
   \<exists>cc1. call_news ps cc = Some cc1 \<and> unlinked cc1 \<and> named cc1 \<and> known cc1 = fst ` set ps \<union> known cc"
proof (induction ps arbitrary: cc)
  case (Cons p ps)
  obtain tp1 tp2 where p: "p = (tp1, tp2)" by (cases p)
  have u: "unat (cl_ids (cc_base cc) + 1) = unat (cl_ids (cc_base cc)) + 1" using Cons.prems(3) by (intro unat_Suc32) simp
  then have nw: "cl_ids (cc_base cc) < cl_ids (cc_base cc) + 1" by (simp add: word_less_nat_alt)
  obtain a cc1 where 1: "call_new True tp1 tp2 cc = Some (Some a, cc1)" "unlinked cc1" "named cc1" "known cc1 = insert tp1 (known cc)"
      "cl_ids (cc_base cc1) = cl_ids (cc_base cc) \<or> cl_ids (cc_base cc1) = cl_ids (cc_base cc) + 1"
    using call_new_ok [OF Cons.prems(1,2) nw] by blast
  have "unat (cl_ids (cc_base cc1)) + length ps < 2 ^ 32" using 1(5) u Cons.prems(3) by auto
  from Cons.IH [OF 1(2,3) this] show ?case using 1(1,4) p by auto
qed simp

text \<open>
  C14. Any sequence of calls leaves a forest: the caller of every known function is the one of the
  last call that gave it one, where a call from below the function, a recursion, does not
  count; the lists agree with the callers, the depth of a function is the number of its
  callers, and no loop over the forest runs on. Printing visits every function below a root
  exactly once, each after its caller.
\<close>

theorem call_forest:
  assumes "length ps < 2 ^ 32"
  shows "\<exists>cc cc1 out ls. call_news ps call_class_new = Some cc \<and> call_twos cs cc = Some (cc1, out) \<and> call_ok cc1 \<and>
    caller_of cc1 = fold (spec_two (fst ` set ps)) cs Map.empty \<and>
    call_class_iterate cc1 = Some ls \<and> distinct ls \<and> set ls = {x. \<exists>r\<in>set (cc_head cc1). (r, x) \<in> (calls_to cc1)\<^sup>*} \<and> parents_first cc1 {} ls"
proof -
  have b: "cc_base call_class_new = two_event_class_new" by (simp add: call_class_new_def)
  have c: "class_ok (cc_base call_class_new)" "class_map (cc_base call_class_new) = Map.empty" unfolding b by (rule class_new_ok)+
  then have "table_map (pkey (cc_base call_class_new)) (two_events (cc_base call_class_new)) e = None" for e by (cases e) (simp add: class_map_def fun_eq_iff)
  then have n: "known call_class_new = {}" "named call_class_new" using find_pair [OF c(1)] c by (simp_all add: known_def named_def)
  have u: "unlinked call_class_new" "unat (cl_ids (cc_base call_class_new)) + length ps < 2 ^ 32"
    using assms by (simp_all add: unlinked_def call_class_new_def two_event_class_new_def)
  obtain cc where cc: "call_news ps call_class_new = Some cc" "unlinked cc" "named cc" "known cc = fst ` set ps"
    using call_news_ok [OF u(1) n(2) u(2)] n(1) by auto
  have ok: "class_ok (cc_base cc)" using cc(3) by (simp add: named_def)
  obtain cc1 out where 1: "call_twos cs cc = Some (cc1, out)" "call_ok cc1" "caller_of cc1 = fold (spec_two (known cc)) cs (caller_of cc)"
    using twos_refine [OF unlinked_ok [OF cc(2) ok] cc(3)] by blast
  then show ?thesis using cc(1,4) class_iterate_ok [OF 1(2)] unlinked_none [OF cc(2) ok] by (auto simp: visits_def)
qed

theorem call_forest_witness:
  "\<exists>cc cc1 out. call_news [(7, 0), (7, 8), (8, 9), (9, 0)] call_class_new = Some cc \<and>
    call_twos [(7, 0), (7, 8), (8, 9), (9, 7), (7, 9)] cc = Some (cc1, out) \<and> call_ok cc1 \<and> caller_of cc1 = [8 \<mapsto> 7, 9 \<mapsto> 7]"
proof -
  have step: "above m b a \<longleftrightarrow> a = b \<or> (case m a of None \<Rightarrow> False | Some p \<Rightarrow> above m b p)" for m b a
    unfolding above_def by (cases "m a") (auto elim: converse_rtranclE intro: converse_rtrancl_into_rtrancl)
  have "\<not> above Map.empty 8 7" "\<not> above [8 \<mapsto> 7] 9 8" "above [8 \<mapsto> 7, 9 \<mapsto> 8] 7 9" "\<not> above [8 \<mapsto> 7, 9 \<mapsto> 8] 9 7"
    by (simp_all add: step)
  then have "fold (spec_two {7, 8, 9}) [(7, 0), (7, 8), (8, 9), (9, 7), (7, 9)] Map.empty = [8 \<mapsto> 7, 9 \<mapsto> (7 :: nat)]"
    by (simp add: spec_two_def)
  then show ?thesis using call_forest [of "[(7, 0), (7, 8), (8, 9), (9, 0)]" "[(7, 0), (7, 8), (8, 9), (9, 7), (7, 9)]"] by auto
qed

end
