(* ===== verification/Tp_Prog.thy ===== *)
theory Tp_Prog
  imports Expr_Load
begin

text \<open>
  The attributes of a tracepoint that are expressions over its fields, in \<open>src/tep.c\<close>: an attribute is
  compiled once, and for every record the program is loaded with the record and run.

  The state is the program, None for the null pointer, and the memory around its data area at
  \<open>base\<close>. None as a result is a write behind the data area, a fault of the program or a run
  without an end.
\<close>

text \<open>\<open>tp_new_prog\<close>; the fields of a tracepoint come from libtraceevent.\<close>

definition tp_new_prog :: "alloc \<Rightarrow> string \<Rightarrow> global_var_declare list option \<Rightarrow> expr_prog option" where
  "tp_new_prog al text fds =
     (case fds of
        None \<Rightarrow> None
      | Some ds \<Rightarrow> (case expr_compile al text ds of Inr p \<Rightarrow> Some p | Inl _ \<Rightarrow> None))"

type_synonym prog_state = "expr_prog option \<times> memory"

definition read_area :: "memory \<Rightarrow> u64 \<Rightarrow> nat \<Rightarrow> u8 list" where
  "read_area m base n = map (\<lambda>i. the (m (base + of_nat i))) [0..<n]"

definition tp_prog_run :: "world \<Rightarrow> u64 \<Rightarrow> u8 list \<Rightarrow> prog_state \<Rightarrow> (u64 \<times> prog_state) option" where
  "tp_prog_run w base d s =
     (case fst s of
        None \<Rightarrow> Some (- 1, s)
      | Some p \<Rightarrow>
          (case expr_load_data p d of
             Refused \<Rightarrow> Some (- 1, s)
           | Out_of_bounds \<Rightarrow> None
           | Loaded bs \<Rightarrow>
               (case expr_run w p (snd s ++ area base bs) of
                  Some (Returned v, vm) \<Rightarrow> Some (v, Some (p\<lparr>p_data := read_area (v_mem vm) base (length bs)\<rparr>), v_mem vm)
                | _ \<Rightarrow> None)))"

text \<open>None is the text \<open>Error\<close>.\<close>

definition tp_get_comm :: "world \<Rightarrow> u64 \<Rightarrow> u8 list \<Rightarrow> prog_state \<Rightarrow> (u64 option \<times> prog_state) option" where
  "tp_get_comm w base d s = map_option (\<lambda>(v, s1). (if v = - 1 then None else Some v, s1)) (tp_prog_run w base d s)"

definition tp_get_key :: "world \<Rightarrow> u64 \<Rightarrow> u8 list \<Rightarrow> prog_state \<Rightarrow> (u64 \<times> prog_state) option" where
  "tp_get_key w base d s = map_option (\<lambda>(v, s1). (if v = - 1 then 0 else v, s1)) (tp_prog_run w base d s)"

definition tp_get_role :: "world \<Rightarrow> u64 \<Rightarrow> u8 list \<Rightarrow> prog_state \<Rightarrow> (u64 \<times> prog_state) option" where
  "tp_get_role w base d s = map_option (\<lambda>(v, s1). (if v = - 1 then 0 else v, s1)) (tp_prog_run w base d s)"

definition tp_get_num :: "world \<Rightarrow> u64 \<Rightarrow> u8 list \<Rightarrow> prog_state \<Rightarrow> (u64 \<times> prog_state) option" where
  "tp_get_num w base d s = map_option (\<lambda>(v, s1). (if v = - 1 then 0 else v, s1)) (tp_prog_run w base d s)"

definition tp_get_mem_ptr :: "world \<Rightarrow> u64 \<Rightarrow> u8 list \<Rightarrow> prog_state \<Rightarrow> (u64 \<times> prog_state) option" where
  "tp_get_mem_ptr w base d s = map_option (\<lambda>(v, s1). (if v = - 1 then 0 else v, s1)) (tp_prog_run w base d s)"

definition tp_get_mem_size :: "world \<Rightarrow> u64 \<Rightarrow> u8 list \<Rightarrow> prog_state \<Rightarrow> (u64 \<times> prog_state) option" where
  "tp_get_mem_size w base d s = map_option (\<lambda>(v, s1). (if v = - 1 then 1 else v, s1)) (tp_prog_run w base d s)"

text \<open>One record after the other.\<close>

fun per_record :: "(u8 list \<Rightarrow> 's \<Rightarrow> ('v \<times> 's) option) \<Rightarrow> u8 list list \<Rightarrow> 's \<Rightarrow> ('v list \<times> 's) option" where
  "per_record g [] s = Some ([], s)"
| "per_record g (d # ds) s =
     (case g d s of None \<Rightarrow> None | Some (v, s1) \<Rightarrow> map_option (\<lambda>(vs, s2). (v # vs, s2)) (per_record g ds s1))"

section \<open>Reading a field\<close>

lemma load_bytes_le: "load_bytes m a n = Some bs \<Longrightarrow> m \<subseteq>\<^sub>m m1 \<Longrightarrow> load_bytes m1 a n = Some bs"
proof (induction n arbitrary: a bs)
  case (Suc n)
  then show ?case by (auto simp: map_le_def dom_def split: option.splits)
qed simp

text \<open>The field of a declared variable in a record, as a signed number.\<close>

definition field_of :: "global_var_declare \<Rightarrow> u8 list \<Rightarrow> u64" where
  "field_of d rec = sext (d_elementsize d) (of_nat (le_nat (take (d_elementsize d) (drop (d_offset d) rec))))"

lemma run_field:
  assumes "decls_ok al ds" "d \<in> set ds" "d_size d = d_elementsize d" "w_insn_base w = insn_base al" "expr_compile al (d_name d) ds = Inr prog"
    and p: "p_insn p = p_insn prog" "length (p_data p) < 2 ^ 31" "expr_load_data p rec = Loaded bs"
    and le: "d_offset d + d_elementsize d \<le> length rec"
  shows "\<exists>v. expr_run w p (m ++ area (data_base al) bs) = Some (Returned (field_of d rec), v) \<and> v_mem v = m ++ area (data_base al) bs"
proof -
  let ?m = "m ++ area (data_base al) bs"
  have e: "decl_env ds al (d_name d) = (data_base al + of_nat (d_offset d), d_elementsize d)"
    using assms(1,2) find_distinct [of ds d] by (simp add: decl_env_def decls_ok_def)
  note b = loaded_bytes [OF p(3) le]
  have l: "d_offset d + d_elementsize d \<le> length bs" "length bs < 2 ^ 64"
    using p le b(2) by (auto simp: expr_load_data_def split: if_splits)
  have "load_bytes ?m (data_base al + of_nat (d_offset d)) (d_elementsize d) = Some (take (d_elementsize d) (drop (d_offset d) rec))"
    using area_bytes [OF l, of "data_base al", unfolded b(1)] by (rule load_bytes_le) simp
  then have "eval (decl_env ds al) (AVar (d_name d)) ?m = Inr (field_of d rec, ?m)" by (simp add: e load_int_def field_of_def)
  moreover have "scalar_of ds (d_name d)" using assms(2,3) by (auto simp: scalar_of_def)
  moreover have "length (d_name d) \<le> 255" using assms(1,2) by (auto simp: decls_ok_def list_all_iff)
  ultimately obtain v where "expr_run w prog ?m = Some (Returned (field_of d rec), v)" "v_mem v = ?m"
    using compile_and_run [OF assms(1), of "AVar (d_name d)" w ?m] assms(4,5) by auto
  then show ?thesis using p(1) by (simp add: expr_run_def)
qed

lemma read_loaded: "length bs < 2 ^ 64 \<Longrightarrow> read_area (m ++ area base bs) base (length bs) = bs"
proof -
  assume l: "length bs < 2 ^ 64"
  have "the ((m ++ area base bs) (base + of_nat i)) = bs ! i" if "i < length bs" for i
    using area_byte [OF that l] by (simp add: map_add_def)
  then show ?thesis by (auto simp: read_area_def intro: nth_equalityI)
qed

text \<open>The program as it was compiled, whatever the last record left in its data area.\<close>

definition usable :: "expr_prog \<Rightarrow> prog_state \<Rightarrow> bool" where
  "usable prog s \<longleftrightarrow> (\<exists>p. fst s = Some p \<and> p_insn p = p_insn prog \<and> length (p_data p) = length (p_data prog))"

definition run_value :: "expr_prog \<Rightarrow> global_var_declare \<Rightarrow> u8 list \<Rightarrow> u64" where
  "run_value prog d rec = (if length rec < length (p_data prog) then field_of d rec else - 1)"

lemma prog_run_field:
  assumes "decls_ok al ds" "d \<in> set ds" "d_size d = d_elementsize d" "w_insn_base w = insn_base al" "expr_compile al (d_name d) ds = Inr prog"
    and u: "usable prog s" "length (p_data prog) < 2 ^ 31"
    and r: "d_offset d + d_elementsize d \<le> length rec" "length rec \<noteq> length (p_data prog)"
  shows "\<exists>s1. tp_prog_run w (data_base al) rec s = Some (run_value prog d rec, s1) \<and> usable prog s1"
proof -
  obtain p where p: "fst s = Some p" "p_insn p = p_insn prog" "length (p_data p) = length (p_data prog)" using u by (auto simp: usable_def)
  show ?thesis
  proof (cases "expr_load_data p rec")
    case (Loaded bs)
    have l: "length bs = length (p_data p)" "length rec < length (p_data prog)"
      using loaded_bytes(2) [OF Loaded r(1)] Loaded p(3) by (auto simp: expr_load_data_def split: if_splits)
    have n: "length (p_data p) < 2 ^ 31" using p(3) u(2) by simp
    obtain v where v: "expr_run w p (snd s ++ area (data_base al) bs) = Some (Returned (field_of d rec), v)"
        "v_mem v = snd s ++ area (data_base al) bs"
      using run_field [OF assms(1-5) p(2) n Loaded r(1)] by blast
    have "read_area (v_mem v) (data_base al) (length bs) = bs" using read_loaded [of bs] v(2) l(1) n by simp
    then show ?thesis using p v(1) l Loaded by (simp add: tp_prog_run_def usable_def run_value_def)
  qed (use p r u in \<open>auto simp: tp_prog_run_def expr_load_data_def run_value_def split: if_splits\<close>)
qed

text \<open>A record as long as the data area is written past its end.\<close>

lemma prog_run_overrun:
  assumes "usable prog s" "length rec = length (p_data prog)" shows "tp_prog_run w base rec s = None"
  using assms by (auto simp: usable_def tp_prog_run_def expr_load_data_def)

lemma per_record_field:
  assumes "decls_ok al ds" "d \<in> set ds" "d_size d = d_elementsize d" "w_insn_base w = insn_base al" "expr_compile al (d_name d) ds = Inr prog"
    "length (p_data prog) < 2 ^ 31"
    and g: "\<And>rec s. g rec s = map_option (\<lambda>(v, s1). (if v = - 1 then z else v, s1)) (tp_prog_run w (data_base al) rec s)"
  shows "usable prog s \<Longrightarrow> \<forall>rec\<in>set recs. d_offset d + d_elementsize d \<le> length rec \<Longrightarrow>
    if \<exists>rec\<in>set recs. length rec = length (p_data prog) then per_record g recs s = None
    else \<exists>s1. per_record g recs s = Some (map (\<lambda>rec. let v = run_value prog d rec in if v = - 1 then z else v) recs, s1)"
proof (induction recs arbitrary: s)
  case (Cons rec recs)
  show ?case
  proof (cases "length rec = length (p_data prog)")
    case True
    then show ?thesis using prog_run_overrun [OF Cons.prems(1) True] g [of rec s] by auto
  next
    case False
    then obtain s1 where "tp_prog_run w (data_base al) rec s = Some (run_value prog d rec, s1)" "usable prog s1"
      using prog_run_field [OF assms(1-5) Cons.prems(1) assms(6), of rec] Cons.prems(2) by auto
    moreover have "if \<exists>rec\<in>set recs. length rec = length (p_data prog) then per_record g recs s1 = None
      else \<exists>s2. per_record g recs s1 = Some (map (\<lambda>rec. let v = run_value prog d rec in if v = - 1 then z else v) recs, s2)"
      using Cons.IH [OF calculation(2)] Cons.prems(2) by auto
    ultimately show ?thesis using g [of rec s] False by (auto simp: Let_def split: if_splits)
  qed
qed simp

text \<open>
  C6. An attribute that names a field reads this field of every record: if the name of a
  declared scalar variable is compiled once, then for any sequence of records that reach past
  the variable each run gives the bytes of its own record, little-endian and sign-extended. A
  record that is longer than the data area, as well as a field that reads as -1, is taken for an
  error: the key, the role, the number and the pointer are 0 then and the size is 1. If one of
  the records has exactly the length of the data area there is no result: its terminating zero
  is written one byte past the area.

  The declarations are the fields of the tracepoint, any number of them and arrays among them,
  with distinct identifiers that are not reserved and elements of 1, 2, 4 or 8 bytes; if there
  are more than six, the entries that \<open>realloc\<close> adds to the symbol table without
  clearing them have to read as unused. The data area has less than \<open>2 ^ 31\<close> bytes,
  an \<open>int\<close> in the program, and the instruction array has not moved between
  compiling and running.
\<close>

theorem tp_attributes_read:
  assumes "decls_ok al ds" "d \<in> set ds" "d_size d = d_elementsize d" "w_insn_base w = insn_base al"
    "tp_new_prog al (d_name d) (Some ds) = Some prog" "length (p_data prog) < 2 ^ 31"
    "\<forall>rec\<in>set recs. d_offset d + d_elementsize d \<le> length rec"
    "(g, z) \<in> {(tp_get_key, 0), (tp_get_role, 0), (tp_get_num, 0), (tp_get_mem_ptr, 0), (tp_get_mem_size, 1)}"
  shows "if \<exists>rec\<in>set recs. length rec = length (p_data prog)
    then per_record (g w (data_base al)) recs (Some prog, m) = None
    else \<exists>s. per_record (g w (data_base al)) recs (Some prog, m) =
      Some (map (\<lambda>rec. if length rec < length (p_data prog) \<and> field_of d rec \<noteq> - 1 then field_of d rec else z) recs, s)"
proof -
  have c: "expr_compile al (d_name d) ds = Inr prog" using assms(5) by (auto simp: tp_new_prog_def split: sum.splits)
  have g: "g w (data_base al) rec s = map_option (\<lambda>(v, s1). (if v = - 1 then z else v, s1)) (tp_prog_run w (data_base al) rec s)" for rec s
    using assms(8) by (auto simp: tp_get_key_def tp_get_role_def tp_get_num_def tp_get_mem_ptr_def tp_get_mem_size_def)
  have u: "usable prog (Some prog, m)" by (simp add: usable_def)
  have val: "(\<lambda>rec. let v = run_value prog d rec in if v = - 1 then z else v) =
      (\<lambda>rec. if length rec < length (p_data prog) \<and> field_of d rec \<noteq> - 1 then field_of d rec else z)"
    by (auto simp: run_value_def)
  show ?thesis using per_record_field [OF assms(1-4) c assms(6) g u assms(7)] unfolding val .
qed

text \<open>Fields like those of \<open>kmem:kmalloc\<close> and an array: nine declarations, so that the symbol table grows.\<close>

definition kmem_fields :: "global_var_declare list" where
  "kmem_fields =
     map (\<lambda>(x, off, size, elem). \<lparr>d_name = x, d_offset = off, d_size = size, d_elementsize = elem\<rparr>)
       [(''common_type'', 0, 2, 2), (''common_flags'', 2, 1, 1), (''common_preempt_count'', 3, 1, 1), (''common_pid'', 4, 4, 4),
        (''call_site'', 8, 8, 8), (''ptr'', 16, 8, 8), (''bytes_req'', 24, 8, 8), (''bytes_alloc'', 32, 8, 8), (''comm'', 40, 16, 1)]"

lemma kmem_fields_ok: "decls_ok ex_al kmem_fields"
  by (simp add: decls_ok_def ex_al_def empty_sym_def kmem_fields_def decl_ok_def ident_def char_defs reserved_def key_table_def lib_table_def)

definition bytes_alloc_field :: global_var_declare where
  "bytes_alloc_field = \<lparr>d_name = ''bytes_alloc'', d_offset = 32, d_size = 8, d_elementsize = 8\<rparr>"

lemma bytes_alloc_compiles:
  "\<exists>prog. tp_new_prog ex_al (d_name bytes_alloc_field) (Some kmem_fields) = Some prog \<and> length (p_data prog) = 256"
proof -
  have "scalar_of kmem_fields (d_name bytes_alloc_field)" by (simp add: scalar_of_def kmem_fields_def bytes_alloc_field_def)
  then obtain prog where p: "expr_compile ex_al (d_name bytes_alloc_field) kmem_fields = Inr prog"
    using compile_and_run [OF kmem_fields_ok, of "AVar (d_name bytes_alloc_field)" ex_world "area 0 []"]
    by (auto simp: bytes_alloc_field_def ex_world_def ex_al_def)
  moreover have "length (p_data prog) = 256"
    using compiled_data [OF p] by (simp add: max_offset_def data_size_def kmem_fields_def)
  ultimately show ?thesis by (simp add: tp_new_prog_def)
qed

theorem tp_attributes_read_witness:
  "\<exists>prog s. tp_new_prog ex_al ''bytes_alloc'' (Some kmem_fields) = Some prog \<and>
     per_record (tp_get_mem_size ex_world 0x9000) [replicate 32 1 @ [64, 0, 0, 0, 0, 0, 0, 0], replicate 32 1 @ [255, 255, 255, 255, 255, 255, 255, 255], replicate 300 3] (Some prog, Map.empty) =
       Some ([64, 1, 1], s) \<and>
     per_record (tp_get_mem_size ex_world 0x9000) [replicate 256 1] (Some prog, Map.empty) = None"
proof -
  obtain prog where p: "tp_new_prog ex_al (d_name bytes_alloc_field) (Some kmem_fields) = Some prog" "length (p_data prog) = 256"
    using bytes_alloc_compiles by blast
  let ?d = bytes_alloc_field and ?recs = "[replicate 32 1 @ [64, 0, 0, 0, 0, 0, 0, 0], replicate 32 1 @ [255, 255, 255, 255, 255, 255, 255, 255], replicate 300 3] :: u8 list list"
  have d: "?d \<in> set kmem_fields" "d_size ?d = d_elementsize ?d" "w_insn_base ex_world = insn_base ex_al" "length (p_data prog) < 2 ^ 31"
    "data_base ex_al = 0x9000"
    by (simp_all add: kmem_fields_def bytes_alloc_field_def ex_world_def ex_al_def p(2))
  note r = tp_attributes_read [OF kmem_fields_ok d(1-3) p(1) d(4), of _ tp_get_mem_size 1 Map.empty, unfolded p(2) d(5)]
  have f: "map (\<lambda>rec. if length rec < 256 \<and> field_of ?d rec \<noteq> - 1 then field_of ?d rec else 1) ?recs = [64, 1, 1]"
    by (simp add: field_of_def bytes_alloc_field_def sext_def)
  have "\<exists>s. per_record (tp_get_mem_size ex_world 0x9000) ?recs (Some prog, Map.empty) = Some ([64, 1, 1], s)"
    using r [of ?recs] unfolding f by (simp add: bytes_alloc_field_def)
  moreover have "per_record (tp_get_mem_size ex_world 0x9000) [replicate 256 1] (Some prog, Map.empty) = None"
    using r [of "[replicate 256 1]"] by (simp add: bytes_alloc_field_def)
  ultimately show ?thesis using p(1) by (auto simp: bytes_alloc_field_def)
qed

end
