(* ===== verification/Key_Value.thy ===== *)
theory Key_Value
  imports Rblist "HOL-Library.List_Lexorder" "HOL-Library.Product_Lexorder"
begin

text \<open>
  The tables of \<open>src/stack_helpers.c\<close> that are keyed by call chains, and its table of unique strings.

  A call chain is its list of addresses, \<open>nr\<close> of them. None as a table is the null pointer; as a
  result it is a null pointer followed or a write outside an array.
\<close>

section \<open>Call chains as keys\<close>

record key_value =
  kv_value :: "u8 list"
  kv_n :: u32
  kv_key :: "u64 list"

record key_value_paires =
  kv_pairs :: "key_value rblist"
  value_size :: nat

text \<open>\<open>(int)key.nr\<close>\<close>

definition nr_int :: "u64 list \<Rightarrow> int" where
  "nr_int ks = sint (of_nat (length ks) :: u32)"

fun ips_cmp :: "u64 list \<Rightarrow> u64 list \<Rightarrow> int" where
  "ips_cmp (a # as) (b # bs) = (if a > b then 1 else if a < b then - 1 else ips_cmp as bs)"
| "ips_cmp as bs = 0"

definition key_value_node_cmp :: "key_value \<Rightarrow> u64 list \<Rightarrow> int" where
  "key_value_node_cmp kv key =
     (let c = ips_cmp (take (nat (nr_int (kv_key kv))) (kv_key kv)) (take (nat (nr_int key)) key)
      in if c \<noteq> 0 then c else nr_int (kv_key kv) - nr_int key)"

definition key_value_node_new :: "key_value_paires \<Rightarrow> bool \<Rightarrow> u64 list \<Rightarrow> key_value option" where
  "key_value_node_new p mem key =
     (if mem then Some \<lparr>kv_value = replicate (value_size p) 0, kv_n = 0, kv_key = key\<rparr> else None)"

text \<open>\<open>ALIGN(value_size, 8)\<close> makes the size a multiple of eight.\<close>

definition keyvalue_pairs_new :: "bool \<Rightarrow> nat \<Rightarrow> key_value_paires option" where
  "keyvalue_pairs_new mem vsize = (if mem then Some \<lparr>kv_pairs = rblist__init, value_size = (vsize + 7) div 8 * 8\<rparr> else None)"

text \<open>The second result is what \<open>key_value_node_delete\<close> was called with.\<close>

definition keyvalue_pairs_free :: "key_value_paires option \<Rightarrow> key_value list option" where
  "keyvalue_pairs_free p =
     (case p of None \<Rightarrow> Some [] | Some q \<Rightarrow> map_option snd (rblist__exit (rl_nr_entries (kv_pairs q)) (kv_pairs q)))"

text \<open>The first result says whether a pointer to the value is returned.\<close>

definition keyvalue_pairs_add_key ::
  "bool \<Rightarrow> u64 list \<Rightarrow> key_value_paires option \<Rightarrow> (bool \<times> key_value_paires option) option" where
  "keyvalue_pairs_add_key mem key p =
     (case p of
        None \<Rightarrow> Some (False, None)
      | Some q \<Rightarrow>
          (case rblist__findnew key_value_node_cmp (key_value_node_new q mem key) key True (kv_pairs q) of
             None \<Rightarrow> None
           | Some (None, rl) \<Rightarrow> Some (False, Some (q\<lparr>kv_pairs := rl\<rparr>))
           | Some (Some kv, rl) \<Rightarrow>
               Some (value_size q \<noteq> 0, Some (q\<lparr>kv_pairs := write_node key_value_node_cmp key (\<lambda>kv. kv\<lparr>kv_n := kv_n kv + 1\<rparr>) rl\<rparr>))))"

text \<open>Writing through the pointer that it returned.\<close>

definition write_value :: "u64 list \<Rightarrow> (u8 list \<Rightarrow> u8 list) \<Rightarrow> key_value_paires \<Rightarrow> key_value_paires" where
  "write_value key f q = q\<lparr>kv_pairs := write_node key_value_node_cmp key (\<lambda>kv. kv\<lparr>kv_value := f (kv_value kv)\<rparr>) (kv_pairs q)\<rparr>"

text \<open>What \<open>f\<close> is called with, in this order.\<close>

definition keyvalue_pairs_foreach :: "key_value_paires option \<Rightarrow> key_value list option" where
  "keyvalue_pairs_foreach p =
     (case p of None \<Rightarrow> Some [] | Some q \<Rightarrow> walk (rl_nr_entries (kv_pairs q)) (rb_first (rl_tree (kv_pairs q))))"

text \<open>\<open>qs\<close> is \<open>qsort\<close>; the values that it sorts lie in front of their nodes.\<close>

type_synonym 'a qsort = "('a \<Rightarrow> 'a \<Rightarrow> int) \<Rightarrow> 'a list \<Rightarrow> 'a list"

definition keyvalue_pairs_sorted_firstn ::
  "key_value qsort \<Rightarrow> bool \<Rightarrow> (u8 list \<Rightarrow> u8 list \<Rightarrow> int) \<Rightarrow> nat \<Rightarrow> key_value_paires option \<Rightarrow> key_value list option" where
  "keyvalue_pairs_sorted_firstn qs mem cmp n p =
     (case p of
        None \<Rightarrow> Some []
      | Some q \<Rightarrow>
          if rblist__empty (kv_pairs q) then Some []
          else if value_size q = 0 then keyvalue_pairs_foreach p
          else if \<not> mem then Some []
          else map_option (\<lambda>kvs. let s = qs (\<lambda>a b. cmp (kv_value a) (kv_value b)) kvs
                                 in if n \<noteq> 0 \<and> length s > n then take n s else s)
                 (walk (rl_nr_entries (kv_pairs q)) (rb_first (rl_tree (kv_pairs q)))))"

definition keyvalue_pairs_sorted_foreach ::
  "key_value qsort \<Rightarrow> bool \<Rightarrow> (u8 list \<Rightarrow> u8 list \<Rightarrow> int) \<Rightarrow> key_value_paires option \<Rightarrow> key_value list option" where
  "keyvalue_pairs_sorted_foreach qs mem cmp p = keyvalue_pairs_sorted_firstn qs mem cmp 0 p"

definition keyvalue_pairs_reinit :: "key_value_paires option \<Rightarrow> key_value_paires option option" where
  "keyvalue_pairs_reinit p =
     (case p of
        None \<Rightarrow> Some None
      | Some q \<Rightarrow> map_option (\<lambda>(rl, _). Some (q\<lparr>kv_pairs := rl\<rparr>)) (rblist__exit (rl_nr_entries (kv_pairs q)) (kv_pairs q)))"

definition keyvalue_pairs_nr_entries :: "key_value_paires option \<Rightarrow> nat" where
  "keyvalue_pairs_nr_entries p = (case p of None \<Rightarrow> 0 | Some q \<Rightarrow> rl_nr_entries (kv_pairs q))"

definition keyvalue_pairs_empty :: "key_value_paires option \<Rightarrow> bool" where
  "keyvalue_pairs_empty p \<longleftrightarrow> (case p of None \<Rightarrow> True | Some q \<Rightarrow> rblist__empty (kv_pairs q))"

section \<open>Chains are told apart\<close>

text \<open>The key that the comparison sees: longer chains than an \<open>int\<close> can count are cut.\<close>

definition chain_key :: "u64 list \<Rightarrow> u64 list \<times> int" where
  "chain_key ks = (take (nat (nr_int ks)) ks, nr_int ks)"

lemma Nil_less: "[] < xs \<longleftrightarrow> xs \<noteq> []" for xs :: "u64 list"
  by (cases xs) auto

lemma ips_cmp_lex:
  "ips_cmp as bs > 0 \<Longrightarrow> bs < as" "ips_cmp as bs < 0 \<Longrightarrow> as < bs"
  "ips_cmp as bs = 0 \<Longrightarrow> (as < bs \<longleftrightarrow> length as < length bs) \<and> (bs < as \<longleftrightarrow> length bs < length as) \<and> (as = bs \<longleftrightarrow> length as = length bs)"
  by (induction as bs rule: ips_cmp.induct) (auto simp: Nil_less split: if_splits)

text \<open>A chain that an \<open>int\<close> can count.\<close>

definition chain_fits :: "u64 list \<Rightarrow> bool" where
  "chain_fits ks \<longleftrightarrow> length ks < 2 ^ 31"

lemma nr_int_fits: "chain_fits ks \<Longrightarrow> nr_int ks = int (length ks)"
  by (simp add: chain_fits_def nr_int_def signed_of_nat signed_take_bit_int_eq_self)

lemma nr_int_bound: "nat (nr_int ks) \<le> length ks"
proof (cases "chain_fits ks")
  case False
  have "nr_int ks < 2 ^ 31" using sint_lt [of "of_nat (length ks) :: u32"] by (simp add: nr_int_def)
  then show ?thesis using False by (simp add: chain_fits_def)
qed (simp add: nr_int_fits)

lemma chain_key_length: "length (fst (chain_key ks)) = nat (snd (chain_key ks))"
  using nr_int_bound [of ks] by (simp add: chain_key_def)

lemma cut_order:
  fixes xs ys :: "u64 list"
  assumes "length xs = nat i" "length ys = nat j"
  shows "(let c = ips_cmp xs ys in if c \<noteq> 0 then c else i - j) > 0 \<longleftrightarrow> (ys, j) < (xs, i)"
    "(let c = ips_cmp xs ys in if c \<noteq> 0 then c else i - j) < 0 \<longleftrightarrow> (xs, i) < (ys, j)"
  using ips_cmp_lex [of xs ys] assms by (cases "ips_cmp xs ys" "0 :: int" rule: linorder_cases; force simp: Let_def less_prod_def')+

interpretation kv: node_order key_value_node_cmp "\<lambda>n. chain_key (kv_key n)" chain_key
proof
  show "key_value_node_cmp n e > 0 \<longleftrightarrow> chain_key e < chain_key (kv_key n)" "key_value_node_cmp n e < 0 \<longleftrightarrow> chain_key (kv_key n) < chain_key e" for n e
    using cut_order [of "fst (chain_key (kv_key n))" "snd (chain_key (kv_key n))" "fst (chain_key e)" "snd (chain_key e)", OF chain_key_length chain_key_length]
    by (simp_all only: prod.collapse) (simp_all only: key_value_node_cmp_def chain_key_def fst_conv snd_conv)
qed

lemma chain_key_inj: "chain_fits xs \<Longrightarrow> chain_fits ys \<Longrightarrow> chain_key xs = chain_key ys \<longleftrightarrow> xs = ys"
  by (auto simp: chain_key_def nr_int_fits)

section \<open>Adding up per chain\<close>

abbreviation node_chain :: "key_value \<Rightarrow> u64 list \<times> int" where
  "node_chain n \<equiv> chain_key (kv_key n)"

text \<open>\<open>*bytes += x\<close> on the value of a key; a null pointer is followed without memory.\<close>

definition add_bytes :: "bool \<Rightarrow> u64 list \<Rightarrow> u64 \<Rightarrow> key_value_paires option \<Rightarrow> key_value_paires option option" where
  "add_bytes mem key x p =
     (case keyvalue_pairs_add_key mem key p of
        Some (True, Some q) \<Rightarrow> Some (Some (write_value key (\<lambda>v. put_u64 v 0 (u64_at v 0 + x)) q))
      | _ \<Rightarrow> None)"

definition bytes_of :: "key_value \<Rightarrow> u64" where
  "bytes_of kv = u64_at (kv_value kv) 0"

text \<open>The amounts of one chain, and the node that counts and adds them.\<close>

abbreviation of_chain :: "u64 list \<Rightarrow> (u64 list \<times> u64) list \<Rightarrow> u64 list" where
  "of_chain ks xs \<equiv> map snd (filter (\<lambda>x. fst x = ks) xs)"

definition counts :: "u64 list \<Rightarrow> u64 list \<Rightarrow> key_value \<Rightarrow> bool" where
  "counts ks ys kv \<longleftrightarrow> kv_key kv = ks \<and> kv_n kv = of_nat (length ys) \<and> length (kv_value kv) = 8 \<and> bytes_of kv = sum_list ys"

definition tally :: "(u64 list \<times> u64) list \<Rightarrow> key_value_paires \<Rightarrow> bool" where
  "tally xs q \<longleftrightarrow> table_ok node_chain (kv_pairs q) \<and> value_size q = 8 \<and> (\<forall>kv\<in>set (entries (kv_pairs q)). chain_fits (kv_key kv)) \<and>
     (\<forall>ks. chain_fits ks \<longrightarrow>
       (case table_map node_chain (kv_pairs q) (chain_key ks) of
          None \<Rightarrow> of_chain ks xs = []
        | Some kv \<Rightarrow> of_chain ks xs \<noteq> [] \<and> counts ks (of_chain ks xs) kv))"

lemma new_tally: "\<exists>q. keyvalue_pairs_new True 8 = Some q \<and> tally [] q"
  by (simp add: keyvalue_pairs_new_def tally_def table_init_ok) (simp add: table_map_def rblist__init_def)

lemma tallyD:
  "tally xs q \<Longrightarrow> chain_fits ks \<Longrightarrow>
   case table_map node_chain (kv_pairs q) (chain_key ks) of None \<Rightarrow> of_chain ks xs = [] | Some kv \<Rightarrow> of_chain ks xs \<noteq> [] \<and> counts ks (of_chain ks xs) kv"
  unfolding tally_def by blast

lemma zero_value: "u64_at (replicate 8 0) 0 = 0"
  by (simp add: u64_at_def numeral_eq_Suc)

lemma add_bytes_tally:
  assumes t: "tally xs q" and ks: "chain_fits ks"
  shows "\<exists>q1. add_bytes True ks x (Some q) = Some (Some q1) \<and> tally (xs @ [(ks, x)]) q1"
proof -
  define n where "n = \<lparr>kv_value = replicate 8 (0 :: u8), kv_n = 0, kv_key = ks\<rparr>"
  let ?m = "table_map node_chain (kv_pairs q)" and ?f = "\<lambda>kv. kv\<lparr>kv_n := kv_n kv + 1\<rparr>"
    and ?g = "\<lambda>kv. kv\<lparr>kv_value := put_u64 (kv_value kv) 0 (u64_at (kv_value kv) 0 + x)\<rparr>"
  have ok: "table_ok node_chain (kv_pairs q)" and v: "value_size q = 8" and fs: "\<forall>kv\<in>set (entries (kv_pairs q)). chain_fits (kv_key kv)"
    using t by (simp_all add: tally_def)
  obtain r rl where u: "rblist__findnew key_value_node_cmp (Some n) ks True (kv_pairs q) = Some (Some r, rl)"
      "r = (case ?m (chain_key ks) of Some a \<Rightarrow> a | None \<Rightarrow> n)" "table_ok node_chain (write_node key_value_node_cmp ks ?f rl)"
      "table_map node_chain (write_node key_value_node_cmp ks ?f rl) = ?m(chain_key ks \<mapsto> ?f r)"
    using kv.upsert_spec [OF ok, of n ks ?f] by (auto simp: n_def)
  define rl2 where "rl2 = write_node key_value_node_cmp ks ?g (write_node key_value_node_cmp ks ?f rl)"
  have w: "table_ok node_chain rl2" "table_map node_chain rl2 = ?m(chain_key ks \<mapsto> ?g (?f r))"
    using kv.write_spec(1,2) [OF u(3), of ks "?f r" ?g] u(4) by (simp_all add: rl2_def)
  have a: "add_bytes True ks x (Some q) = Some (Some (q\<lparr>kv_pairs := rl2\<rparr>))"
    using u(1) v by (simp add: add_bytes_def keyvalue_pairs_add_key_def key_value_node_new_def n_def write_value_def rl2_def)
  have "counts ks (of_chain ks xs) r" using tallyD [OF t ks] u(2) zero_value
    by (auto simp: counts_def n_def bytes_of_def split: option.splits)
  then have c: "counts ks (of_chain ks (xs @ [(ks, x)])) (?g (?f r))" by (simp add: counts_def bytes_of_def)
  have "case table_map node_chain rl2 (chain_key js) of None \<Rightarrow> of_chain js (xs @ [(ks, x)]) = []
      | Some kv \<Rightarrow> of_chain js (xs @ [(ks, x)]) \<noteq> [] \<and> counts js (of_chain js (xs @ [(ks, x)])) kv" if "chain_fits js" for js
    using c w(2) tallyD [OF t that] chain_key_inj [OF ks that] by (cases "js = ks") (auto split: option.splits)
  moreover have "chain_fits (kv_key kv)" if "kv \<in> set (entries rl2)" for kv
  proof -
    have "kv \<in> ran (?m(chain_key ks \<mapsto> ?g (?f r)))" using that entries_ran [OF w(1)] w(2) by simp
    then have "kv = ?g (?f r) \<or> kv \<in> ran ?m" by (auto simp: ran_def split: if_splits)
    then show ?thesis using c ks fs entries_ran [OF ok] by (auto simp: counts_def)
  qed
  ultimately show ?thesis using a w(1) v by (simp add: tally_def)
qed

section \<open>The greatest first\<close>

text \<open>What the C standard promises of \<open>qsort\<close>: a permutation, in order if the comparison is an order.\<close>

definition sorts :: "'a qsort \<Rightarrow> bool" where
  "sorts qs \<longleftrightarrow> (\<forall>cmp xs. mset (qs cmp xs) = mset xs \<and>
     ((\<forall>a b. cmp a b \<le> 0 \<or> cmp b a \<le> 0) \<and> (\<forall>a b c. cmp a b \<le> 0 \<longrightarrow> cmp b c \<le> 0 \<longrightarrow> cmp a c \<le> 0) \<longrightarrow>
      sorted_wrt (\<lambda>a b. cmp a b \<le> 0) (qs cmp xs)))"

lemma sortsD:
  assumes "sorts qs"
  shows "mset (qs cmp xs) = mset xs"
    "(\<And>a b. cmp a b \<le> 0 \<or> cmp b a \<le> 0) \<Longrightarrow> (\<And>a b c. cmp a b \<le> 0 \<Longrightarrow> cmp b c \<le> 0 \<Longrightarrow> cmp a c \<le> 0) \<Longrightarrow>
     sorted_wrt (\<lambda>a b. cmp a b \<le> 0) (qs cmp xs)"
  using spec [OF spec [OF assms [unfolded sorts_def], of cmp], of xs] by metis+

text \<open>Descending by the number that a value begins with.\<close>

definition cmp_bytes :: "u8 list \<Rightarrow> u8 list \<Rightarrow> int" where
  "cmp_bytes v w = (if u64_at v 0 < u64_at w 0 then 1 else if u64_at v 0 > u64_at w 0 then - 1 else 0)"

text \<open>The nodes that are reported for the amounts \<open>xs\<close>, at most \<open>n\<close> of them if that is not zero.\<close>

definition top_chains :: "(u64 list \<times> u64) list \<Rightarrow> nat \<Rightarrow> key_value list \<Rightarrow> bool" where
  "top_chains xs n kvs \<longleftrightarrow> distinct (map kv_key kvs) \<and>
     length kvs = (let d = card (fst ` set xs) in if n = 0 then d else min n d) \<and>
     sorted_wrt (\<lambda>a b. bytes_of b \<le> bytes_of a) kvs \<and>
     (\<forall>kv\<in>set kvs. of_chain (kv_key kv) xs \<noteq> [] \<and> counts (kv_key kv) (of_chain (kv_key kv) xs) kv) \<and>
     (\<forall>ks\<in>fst ` set xs - kv_key ` set kvs. \<forall>kv\<in>set kvs. sum_list (of_chain ks xs) \<le> bytes_of kv)"

lemma tally_entries:
  assumes t: "tally xs q"
  shows "distinct (map kv_key (entries (kv_pairs q)))"
    "\<forall>kv\<in>set (entries (kv_pairs q)). of_chain (kv_key kv) xs \<noteq> [] \<and> counts (kv_key kv) (of_chain (kv_key kv) xs) kv"
    "\<forall>x\<in>set xs. chain_fits (fst x) \<Longrightarrow> kv_key ` set (entries (kv_pairs q)) = fst ` set xs"
proof -
  let ?es = "entries (kv_pairs q)"
  have ok: "table_ok node_chain (kv_pairs q)" and fs: "\<forall>kv\<in>set ?es. chain_fits (kv_key kv)" using t by (simp_all add: tally_def)
  have "distinct (map chain_key (map kv_key ?es))" using entries_distinct [OF ok] by (simp add: comp_def)
  then show "distinct (map kv_key ?es)" by (auto simp: distinct_map dest: inj_on_imageI2)
  show e: "\<forall>kv\<in>set ?es. of_chain (kv_key kv) xs \<noteq> [] \<and> counts (kv_key kv) (of_chain (kv_key kv) xs) kv"
  proof
    fix kv assume kv: "kv \<in> set ?es"
    show "of_chain (kv_key kv) xs \<noteq> [] \<and> counts (kv_key kv) (of_chain (kv_key kv) xs) kv"
      using tallyD [OF t, of "kv_key kv"] fs kv table_map_of [OF ok kv] by simp
  qed
  assume x: "\<forall>x\<in>set xs. chain_fits (fst x)"
  have "kv_key kv \<in> fst ` set xs" if "kv \<in> set ?es" for kv using e that by (force simp: filter_empty_conv)
  moreover have "fst x \<in> kv_key ` set ?es" if "x \<in> set xs" for x
  proof -
    have "of_chain (fst x) xs \<noteq> []" using that by (auto simp: filter_empty_conv)
    then obtain kv where "table_map node_chain (kv_pairs q) (chain_key (fst x)) = Some kv" "kv_key kv = fst x"
      using tallyD [OF t bspec [OF x \<open>x \<in> set xs\<close>]] by (auto simp: counts_def split: option.splits)
    then show ?thesis using table_map_entry by (metis image_eqI)
  qed
  ultimately show "kv_key ` set ?es = fst ` set xs" by blast
qed

lemma firstn_top:
  assumes qs: "sorts qs" and t: "tally xs q" and x: "\<forall>x\<in>set xs. chain_fits (fst x)"
  shows "\<exists>kvs. keyvalue_pairs_sorted_firstn qs True cmp_bytes n (Some q) = Some kvs \<and> top_chains xs n kvs"
proof -
  let ?es = "entries (kv_pairs q)" and ?c = "\<lambda>(a :: key_value) (b :: key_value). cmp_bytes (kv_value a) (kv_value b)"
  note e = tally_entries [OF t] and k = tally_entries(3) [OF t x]
  have ok: "table_ok node_chain (kv_pairs q)" "value_size q = 8" using t by (simp_all add: tally_def)
  have nr: "rl_nr_entries (kv_pairs q) = length ?es" using ok(1) by (simp add: table_ok_def)
  define s where "s = qs ?c ?es"
  have m: "mset s = mset ?es" using sortsD(1) [OF qs] by (simp add: s_def)
  have le: "?c a b \<le> 0 \<longleftrightarrow> bytes_of b \<le> bytes_of a" for a b :: key_value by (auto simp: cmp_bytes_def bytes_of_def)
  have so: "sorted_wrt (\<lambda>a b. bytes_of b \<le> bytes_of a) s"
  proof -
    have "sorted_wrt (\<lambda>a b. ?c a b \<le> 0) s" unfolding s_def by (rule sortsD(2) [OF qs]) (auto simp: le)
    then show ?thesis by (simp add: le)
  qed
  have set_s: "set s = set ?es" using m by (metis set_mset_mset)
  have d: "distinct (map kv_key s)" using e(1) m by (metis mset_map mset_eq_imp_distinct_iff)
  have l: "length s = card (fst ` set xs)" using d k set_s by (metis distinct_card length_map list.set_map)
  define kvs where "kvs = (if n \<noteq> 0 \<and> length s > n then take n s else s)"
  obtain ts where ts: "s = kvs @ ts" by (metis append_Nil2 append_take_drop_id kvs_def)
  have "keyvalue_pairs_sorted_firstn qs True cmp_bytes n (Some q) = Some kvs"
  proof (cases "?es = []")
    case True
    then show ?thesis using table_empty [OF ok(1)] set_s by (simp add: keyvalue_pairs_sorted_firstn_def kvs_def)
  next
    case False
    then show ?thesis using table_empty [OF ok(1)] ok(2) nr walk_first [of "rl_tree (kv_pairs q)"]
      by (simp add: keyvalue_pairs_sorted_firstn_def kvs_def s_def Let_def)
  qed
  moreover have "top_chains xs n kvs"
    unfolding top_chains_def
  proof (intro conjI ballI)
    show "distinct (map kv_key kvs)" "sorted_wrt (\<lambda>a b. bytes_of b \<le> bytes_of a) kvs" using d so unfolding ts by (auto simp: sorted_wrt_append)
    show "length kvs = (let d = card (fst ` set xs) in if n = 0 then d else min n d)" using l by (auto simp: kvs_def Let_def)
    show "of_chain (kv_key kv) xs \<noteq> []" "counts (kv_key kv) (of_chain (kv_key kv) xs) kv" if "kv \<in> set kvs" for kv
      using e(2) that set_s ts by auto
    show "sum_list (of_chain ks xs) \<le> bytes_of kv" if ks: "ks \<in> fst ` set xs - kv_key ` set kvs" and kv: "kv \<in> set kvs" for ks kv
    proof -
      obtain j where j: "j \<in> set s" "kv_key j = ks" using ks k set_s by (metis DiffD1 imageE)
      then have "j \<in> set ts" using ts ks by auto
      then have "bytes_of j \<le> bytes_of kv" using so kv unfolding ts by (simp add: sorted_wrt_append)
      then show ?thesis using e(2) j set_s by (auto simp: counts_def)
    qed
  qed
  ultimately show ?thesis by blast
qed

lemma reinit_tally: "tally xs q \<Longrightarrow> keyvalue_pairs_reinit (Some q) = Some (keyvalue_pairs_new True 8)"
proof -
  assume t: "tally xs q"
  then have ok: "table_ok node_chain (kv_pairs q)" "value_size q = 8" by (simp_all add: tally_def)
  have nr: "length (entries (kv_pairs q)) \<le> rl_nr_entries (kv_pairs q)" using ok(1) by (simp add: table_ok_def)
  obtain rl where "rblist__exit (rl_nr_entries (kv_pairs q)) (kv_pairs q) = Some (rl, entries (kv_pairs q))" "rl = rblist__init"
    using exit_ok [OF ok(1) nr] rblist_emptied by blast
  then show ?thesis using ok(2) by (simp add: keyvalue_pairs_reinit_def keyvalue_pairs_new_def)
qed

end
