(* ===== verification/Unique_String.thy ===== *)
theory Unique_String
  imports Key_Value
begin

text \<open>
  The table of unique strings in \<open>src/stack_helpers.c\<close>: every text is stored once, so that its
  pointer stands for it, also as an address in a call chain.

  A string is the list of its bytes before the terminating zero. The pointer that is returned is
  the address of the node, behind which the text lies.
\<close>

record unique_string_node =
  us_addr :: nat
  us_n :: u32
  us_len :: u32
  us_str :: "u8 list"

text \<open>The sign of \<open>strcmp\<close>; the end of a string is before every byte.\<close>

fun strcmp :: "u8 list \<Rightarrow> u8 list \<Rightarrow> int" where
  "strcmp [] [] = 0"
| "strcmp [] (b # bs) = - 1"
| "strcmp (a # as) [] = 1"
| "strcmp (a # as) (b # bs) = (if a = b then strcmp as bs else if a < b then - 1 else 1)"

definition unique_string_node_cmp :: "unique_string_node \<Rightarrow> u8 list \<Rightarrow> int" where
  "unique_string_node_cmp s str = strcmp (us_str s) str"

text \<open>\<open>mem\<close> is what \<open>malloc\<close> returns.\<close>

definition unique_string_node_new :: "nat option \<Rightarrow> u8 list \<Rightarrow> unique_string_node option" where
  "unique_string_node_new mem str =
     map_option (\<lambda>a. \<lparr>us_addr = a, us_n = 0, us_len = of_nat (length str + 1), us_str = str\<rparr>) mem"

definition unique_string ::
  "nat option \<Rightarrow> u8 list \<Rightarrow> unique_string_node rblist \<Rightarrow> (nat option \<times> unique_string_node rblist) option" where
  "unique_string mem str rl =
     (case rblist__findnew unique_string_node_cmp (unique_string_node_new mem str) str True rl of
        None \<Rightarrow> None
      | Some (None, rl1) \<Rightarrow> Some (None, rl1)
      | Some (Some s, rl1) \<Rightarrow> Some (Some (us_addr s), write_node unique_string_node_cmp str (\<lambda>s. s\<lparr>us_n := us_n s + 1\<rparr>) rl1))"

text \<open>The lengths are multiplied as 32-bit numbers; a node has 32 bytes.\<close>

definition unique_string_stat :: "unique_string_node rblist \<Rightarrow> (u64 \<times> u64) option" where
  "unique_string_stat rl =
     map_option (\<lambda>ss. (sum_list (map (\<lambda>s. ucast (us_len s * us_n s)) ss), of_nat (32 * length ss)))
       (walk (rl_nr_entries rl) (rb_first (rl_tree rl)))"

text \<open>A sequence of calls and what they return.\<close>

fun unique_strings :: "(nat option \<times> u8 list) list \<Rightarrow> unique_string_node rblist \<Rightarrow> (nat option list \<times> unique_string_node rblist) option" where
  "unique_strings [] rl = Some ([], rl)"
| "unique_strings ((mem, str) # xs) rl =
     (case unique_string mem str rl of
        None \<Rightarrow> None
      | Some (r, rl1) \<Rightarrow> map_option (\<lambda>(rs, rl2). (r # rs, rl2)) (unique_strings xs rl1))"

section \<open>One pointer for every text\<close>

lemma strcmp_order: "strcmp as bs > 0 \<longleftrightarrow> bs < as" "strcmp as bs < 0 \<longleftrightarrow> as < bs"
  by (induction as bs rule: strcmp.induct) auto

interpretation us: node_order unique_string_node_cmp us_str "\<lambda>str. str"
  by unfold_locales (simp_all add: unique_string_node_cmp_def strcmp_order)

text \<open>The pointers of the texts.\<close>

definition pointers :: "unique_string_node rblist \<Rightarrow> u8 list \<rightharpoonup> nat" where
  "pointers rl str = map_option us_addr (table_map us_str rl str)"

lemma unique_string_spec:
  assumes ok: "table_ok us_str rl"
  shows "\<exists>rl1. unique_string mem str rl = Some (pointers rl1 str, rl1) \<and> table_ok us_str rl1 \<and>
    pointers rl1 = (case pointers rl str of None \<Rightarrow> (pointers rl)(str := mem) | Some p \<Rightarrow> pointers rl)"
proof (cases "unique_string_node_new mem str")
  case None
  obtain r rl1 where f: "rblist__findnew unique_string_node_cmp None str True rl = Some (r, rl1)"
    "case table_map us_str rl str of Some a \<Rightarrow> r = Some a \<and> rl1 = rl | None \<Rightarrow> r = None \<and> rl1 = rl"
    using us.findnew_spec [OF ok, of None str True] by (auto split: option.splits)
  show ?thesis
  proof (cases "table_map us_str rl str")
    case (Some a)
    note w = us.write_spec [OF ok Some, of "\<lambda>s. s\<lparr>us_n := us_n s + 1\<rparr>"]
    show ?thesis using f None Some w by (auto simp: unique_string_def pointers_def fun_eq_iff)
  qed (use f None ok in \<open>auto simp: unique_string_def pointers_def fun_eq_iff unique_string_node_new_def\<close>)
next
  case (Some n)
  then have n: "us_str n = str" "mem = Some (us_addr n)" by (auto simp: unique_string_node_new_def)
  obtain r rl1 where "rblist__findnew unique_string_node_cmp (Some n) str True rl = Some (Some r, rl1)"
      "r = (case table_map us_str rl str of Some a \<Rightarrow> a | None \<Rightarrow> n)"
      "table_ok us_str (write_node unique_string_node_cmp str (\<lambda>s. s\<lparr>us_n := us_n s + 1\<rparr>) rl1)"
      "table_map us_str (write_node unique_string_node_cmp str (\<lambda>s. s\<lparr>us_n := us_n s + 1\<rparr>) rl1) = (table_map us_str rl)(str \<mapsto> r\<lparr>us_n := us_n r + 1\<rparr>)"
    using us.upsert_spec [OF ok, of n str "\<lambda>s. s\<lparr>us_n := us_n s + 1\<rparr>"] n by auto
  then show ?thesis using Some n by (auto simp: unique_string_def pointers_def fun_eq_iff split: option.splits)
qed

text \<open>The addresses that \<open>malloc\<close> returned.\<close>

abbreviation given :: "(nat option \<times> 'a) list \<Rightarrow> nat list" where
  "given xs \<equiv> List.map_filter fst xs"

lemma unique_strings_spec:
  assumes "table_ok us_str rl" "inj_on (pointers rl) (dom (pointers rl))" "distinct (given xs)" "set (given xs) \<inter> ran (pointers rl) = {}"
  shows "\<exists>rs rl1. unique_strings xs rl = Some (rs, rl1) \<and> table_ok us_str rl1 \<and> pointers rl \<subseteq>\<^sub>m pointers rl1 \<and>
    inj_on (pointers rl1) (dom (pointers rl1)) \<and> length rs = length xs \<and>
    (\<forall>i<length xs. rs ! i \<noteq> None \<longrightarrow> rs ! i = pointers rl1 (snd (xs ! i))) \<and> (\<forall>i<length xs. fst (xs ! i) \<noteq> None \<longrightarrow> rs ! i \<noteq> None)"
  using assms
proof (induction xs arbitrary: rl)
  case Nil
  then show ?case by simp
next
  case (Cons x xs)
  obtain mem str where x: "x = (mem, str)" by (cases x)
  obtain rl1 where 1: "unique_string mem str rl = Some (pointers rl1 str, rl1)" "table_ok us_str rl1"
    "pointers rl1 = (case pointers rl str of None \<Rightarrow> (pointers rl)(str := mem) | Some p \<Rightarrow> pointers rl)"
    using unique_string_spec [OF Cons.prems(1)] by blast
  have g: "given (x # xs) = (case mem of None \<Rightarrow> given xs | Some a \<Rightarrow> a # given xs)" by (simp add: x map_filter_simps)
  have i: "inj_on (pointers rl1) (dom (pointers rl1))"
    using Cons.prems(2,4) 1(3) g by (auto simp: inj_on_def dom_def ran_def split: option.splits if_splits)
  have d: "distinct (given xs)" "set (given xs) \<inter> ran (pointers rl1) = {}"
    using Cons.prems(3,4) 1(3) g by (auto simp: ran_def split: option.splits if_splits)
  have le: "pointers rl \<subseteq>\<^sub>m pointers rl1" using 1(3) by (auto simp: map_le_def split: option.splits)
  obtain rs rl2 where 2: "unique_strings xs rl1 = Some (rs, rl2)" "table_ok us_str rl2" "pointers rl1 \<subseteq>\<^sub>m pointers rl2"
    "inj_on (pointers rl2) (dom (pointers rl2))" "length rs = length xs"
    "\<forall>i<length xs. rs ! i \<noteq> None \<longrightarrow> rs ! i = pointers rl2 (snd (xs ! i))" "\<forall>i<length xs. fst (xs ! i) \<noteq> None \<longrightarrow> rs ! i \<noteq> None"
    using Cons.IH [OF 1(2) i d] by blast
  have "pointers rl1 str \<noteq> None \<longrightarrow> pointers rl1 str = pointers rl2 str" using 2(3) by (auto simp: map_le_def dom_def)
  moreover have "mem \<noteq> None \<longrightarrow> pointers rl1 str \<noteq> None" using 1(3) by (auto split: option.splits)
  ultimately have "\<forall>i<length (x # xs). (pointers rl1 str # rs) ! i \<noteq> None \<longrightarrow> (pointers rl1 str # rs) ! i = pointers rl2 (snd ((x # xs) ! i))"
      "\<forall>i<length (x # xs). fst ((x # xs) ! i) \<noteq> None \<longrightarrow> (pointers rl1 str # rs) ! i \<noteq> None"
    using 2(6,7) x by (simp_all add: nth_Cons split: nat.split)
  then show ?case using 1(1) 2 x map_le_trans [OF le 2(3)] by auto
qed

text \<open>
  C18. Pointers to unique strings stand for their texts: in any sequence of calls, if \<open>malloc\<close> never
  returns the same address twice, two pointers that are not null are equal exactly when
  the texts are. A pointer is null only if \<open>malloc\<close> returned none.
\<close>

theorem unique_string_interns:
  assumes "distinct (given xs)"
  shows "\<exists>rs rl. unique_strings xs rblist__init = Some (rs, rl) \<and> length rs = length xs \<and>
    (\<forall>i<length xs. \<forall>j<length xs. rs ! i \<noteq> None \<longrightarrow> rs ! j \<noteq> None \<longrightarrow> (rs ! i = rs ! j \<longleftrightarrow> snd (xs ! i) = snd (xs ! j))) \<and>
    (\<forall>i<length xs. rs ! i = None \<longrightarrow> fst (xs ! i) = None)"
proof -
  have 0: "pointers rblist__init = Map.empty" by (simp add: pointers_def table_map_def rblist__init_def fun_eq_iff)
  obtain rs rl where r: "unique_strings xs rblist__init = Some (rs, rl)" "length rs = length xs" "inj_on (pointers rl) (dom (pointers rl))"
    "\<forall>i<length xs. rs ! i \<noteq> None \<longrightarrow> rs ! i = pointers rl (snd (xs ! i))" "\<forall>i<length xs. fst (xs ! i) \<noteq> None \<longrightarrow> rs ! i \<noteq> None"
    using unique_strings_spec [OF table_init_ok, of xs] assms 0 by auto
  have "rs ! i = rs ! j \<longleftrightarrow> snd (xs ! i) = snd (xs ! j)" if "i < length xs" "j < length xs" "rs ! i \<noteq> None" "rs ! j \<noteq> None" for i j
  proof -
    have p: "rs ! i = pointers rl (snd (xs ! i))" "rs ! j = pointers rl (snd (xs ! j))" using r(4) that by blast+
    then have "snd (xs ! i) \<in> dom (pointers rl)" "snd (xs ! j) \<in> dom (pointers rl)" using that(3,4) by (simp_all add: domIff)
    then show ?thesis using p inj_on_eq_iff [OF r(3)] by simp
  qed
  then show ?thesis using r by blast
qed

theorem unique_string_interns_witness:
  "\<exists>rs rl. unique_strings [(Some 16, [97]), (Some 48, [98]), (Some 80, [97])] rblist__init = Some (rs, rl) \<and>
    rs ! 0 = rs ! 2 \<and> rs ! 0 \<noteq> rs ! 1"
proof -
  let ?xs = "[(Some 16, [97]), (Some 48, [98]), (Some 80, [97])] :: (nat option \<times> u8 list) list"
  have "distinct (given ?xs)" by (simp add: map_filter_simps)
  from unique_string_interns [OF this] obtain rs rl where r: "unique_strings ?xs rblist__init = Some (rs, rl)"
    "\<forall>i<length ?xs. \<forall>j<length ?xs. rs ! i \<noteq> None \<longrightarrow> rs ! j \<noteq> None \<longrightarrow> (rs ! i = rs ! j \<longleftrightarrow> snd (?xs ! i) = snd (?xs ! j))"
    "\<forall>i<length ?xs. rs ! i = None \<longrightarrow> fst (?xs ! i) = None" by blast
  have "rs ! i \<noteq> None" if "i < 3" for i using r(3) that by (auto simp: less_Suc_eq numeral_3_eq_3)
  then show ?thesis using r(1,2) by (auto simp: numeral_3_eq_3)
qed

end
