(* ===== verification/Two_Mem.thy ===== *)
theory Two_Mem
  imports Event_Iter Two_Event Key_Value Tp_Prog
begin

text \<open>
  The analysis of memory in \<open>src/two-event.c\<close>: the bytes that are allocated and freed, in all and per
  call chain. The size comes from the attribute of the allocating tracepoint, the chains from
  the events.
\<close>

record mem_profile =
  mp_alloc :: "key_value_paires option"
  mp_free :: "key_value_paires option"
  mp_nr_alloc :: u32
  mp_alloc_bytes :: u64
  mp_nr_free :: u32
  mp_free_bytes :: u64

text \<open>What is used of a tracepoint: its stack attribute and the program of its size attribute.\<close>

record mem_tp =
  mt_stack :: bool
  mt_base :: u64
  mt_prog :: prog_state

record mem_state =
  ms_class :: "mem_profile two_event_class"
  ms_tp :: "nat \<Rightarrow> mem_tp"

definition zero_profile :: mem_profile where
  "zero_profile = \<lparr>mp_alloc = None, mp_free = None, mp_nr_alloc = 0, mp_alloc_bytes = 0, mp_nr_free = 0, mp_free_bytes = 0\<rparr>"

definition mem_profile_new ::
  "bool \<Rightarrow> (nat \<Rightarrow> mem_tp) \<Rightarrow> nat \<Rightarrow> nat \<Rightarrow> mem_profile two_event_class \<Rightarrow> (nat option \<times> mem_profile two_event_class) option" where
  "mem_profile_new mem tps tp1 tp2 c =
     (if fst (mt_prog (tps tp1)) = None then Some (None, c)
      else case two_event_new mem zero_profile tp1 tp2 c of
             Some (Some a, c1) \<Rightarrow>
               Some (Some a, set_obj a (\<lambda>p. p\<lparr>mp_alloc := keyvalue_pairs_new mem 8, mp_free := keyvalue_pairs_new mem 8\<rparr>) c1)
           | r \<Rightarrow> r)"

text \<open>\<open>mem_profile_delete\<close> without the \<open>two_event_delete\<close> at its end, see \<open>two_event_node_delete\<close>: both tables are freed.\<close>

definition mem_object_delete :: "nat \<Rightarrow> mem_profile two_event_class \<Rightarrow> mem_profile two_event_class" where
  "mem_object_delete a c = set_obj a (\<lambda>p. p\<lparr>mp_alloc := None, mp_free := None\<rparr>) c"

interpretation memory: analysis mem_object_delete
  by unfold_locales (simp_all add: mem_object_delete_def set_obj_frame)

text \<open>The call chain of an event, behind the header.\<close>

definition event_chain :: "timeline_node \<Rightarrow> u64 list" where
  "event_chain e = map (\<lambda>i. u64_at (tn_event e) (56 + 8 * i)) [0..<unat (u64_at (tn_event e) 48)]"

definition add_stack :: "bool \<Rightarrow> bool \<Rightarrow> timeline_node \<Rightarrow> u64 \<Rightarrow> key_value_paires option \<Rightarrow> key_value_paires option option" where
  "add_stack mem stack e b t = (if stack then add_bytes mem (event_chain e) b t else Some t)"

text \<open>The second event is missing for an allocation that was not freed. None is a null pointer followed.\<close>

definition mem_profile_two ::
  "world \<Rightarrow> bool \<Rightarrow> nat option \<Rightarrow> timeline_node \<Rightarrow> timeline_node option \<Rightarrow> mem_state \<Rightarrow> mem_state option" where
  "mem_profile_two w mem two e1 e2 s =
     (case two of
        None \<Rightarrow> Some s
      | Some a \<Rightarrow>
          let t = obj (ms_class s) a; i1 = ms_tp s (te_tp1 t); p = te_obj t in
          case tp_get_mem_size w (mt_base i1) (multi_trace_raw_size (mt_stack i1) e1) (mt_prog i1) of
            None \<Rightarrow> None
          | Some (b, ps) \<Rightarrow>
              case add_stack mem (mt_stack i1) e1 b (mp_alloc p) of
                None \<Rightarrow> None
              | Some al \<Rightarrow>
                  let p1 = p\<lparr>mp_nr_alloc := mp_nr_alloc p + 1, mp_alloc_bytes := mp_alloc_bytes p + b, mp_alloc := al\<rparr> in
                  case (case e2 of
                          None \<Rightarrow> Some p1
                        | Some e \<Rightarrow>
                            if te_tp2 t = 0 then None
                            else map_option
                                   (\<lambda>fr. p1\<lparr>mp_nr_free := mp_nr_free p1 + 1, mp_free_bytes := mp_free_bytes p1 + b, mp_free := fr\<rparr>)
                                   (add_stack mem (mt_stack (ms_tp s (te_tp2 t))) e b (mp_free p1))) of
                    None \<Rightarrow> None
                  | Some p2 \<Rightarrow>
                      Some (s\<lparr>ms_class := set_obj a (\<lambda>_. p2) (ms_class s),
                              ms_tp := (ms_tp s)(te_tp1 t := i1\<lparr>mt_prog := ps\<rparr>)\<rparr>))"

text \<open>It returns \<open>REMAINING_CONTINUE\<close>.\<close>

definition mem_profile_remaining :: "world \<Rightarrow> bool \<Rightarrow> nat option \<Rightarrow> timeline_node \<Rightarrow> mem_state \<Rightarrow> mem_state option" where
  "mem_profile_remaining w mem two e1 s = mem_profile_two w mem two e1 None s"

section \<open>The report\<close>

text \<open>One half of a report: bytes, objects, the chains shown and the numbers of those skipped.\<close>

record mem_half =
  mh_bytes :: u64
  mh_nr :: u32
  mh_chains :: "key_value list"
  mh_skipped :: "(nat \<times> nat) option"

record mem_report =
  mr_alloc :: mem_half
  mr_free :: "mem_half option"

definition half :: "key_value qsort \<Rightarrow> bool \<Rightarrow> nat \<Rightarrow> u64 \<Rightarrow> u32 \<Rightarrow> key_value_paires option \<Rightarrow> mem_half option" where
  "half qs mem n bytes nr t =
     map_option (\<lambda>kvs. \<lparr>mh_bytes = bytes, mh_nr = nr, mh_chains = kvs,
                        mh_skipped = (if keyvalue_pairs_nr_entries t > n then Some (n + 1, keyvalue_pairs_nr_entries t) else None)\<rparr>)
       (keyvalue_pairs_sorted_firstn qs mem cmp_bytes n t)"

text \<open>What follows the label \<open>reset\<close>.\<close>

definition reset_profile :: "mem_profile \<Rightarrow> mem_profile option" where
  "reset_profile p =
     (case (keyvalue_pairs_reinit (mp_alloc p), keyvalue_pairs_reinit (mp_free p)) of
        (Some al, Some fr) \<Rightarrow> Some \<lparr>mp_alloc = al, mp_free = fr, mp_nr_alloc = 0, mp_alloc_bytes = 0, mp_nr_free = 0, mp_free_bytes = 0\<rparr>
      | _ \<Rightarrow> None)"

definition mem_profile_print ::
  "key_value qsort \<Rightarrow> bool \<Rightarrow> nat \<Rightarrow> nat option \<Rightarrow> mem_profile two_event_class \<Rightarrow> (mem_report option \<times> mem_profile two_event_class) option" where
  "mem_profile_print qs mem n two c =
     (case two of
        None \<Rightarrow> Some (None, c)
      | Some a \<Rightarrow>
          let p = te_obj (obj c a); tp2 = te_tp2 (obj c a) in
          if tp2 = 0 \<and> mp_nr_alloc p = 0 then Some (None, c)
          else case half qs mem n (mp_alloc_bytes p) (mp_nr_alloc p) (mp_alloc p) of
            None \<Rightarrow> None
          | Some h1 \<Rightarrow>
              case (if tp2 = 0 then Some None else map_option Some (half qs mem n (mp_free_bytes p) (mp_nr_free p) (mp_free p))) of
                None \<Rightarrow> None
              | Some h2 \<Rightarrow> map_option (\<lambda>p1. (Some \<lparr>mr_alloc = h1, mr_free = h2\<rparr>, set_obj a (\<lambda>_. p1) c)) (reset_profile p))"

text \<open>A sequence of calls for one object.\<close>

fun mem_twos :: "world \<Rightarrow> nat \<Rightarrow> (timeline_node \<times> timeline_node option) list \<Rightarrow> mem_state \<Rightarrow> mem_state option" where
  "mem_twos w a [] s = Some s"
| "mem_twos w a ((e1, e2) # xs) s = Option.bind (mem_profile_two w True (Some a) e1 e2 s) (mem_twos w a xs)"

section \<open>Every byte is accounted for\<close>

text \<open>The size of an allocation, and the amounts of a sequence of calls per chain.\<close>

definition size_of :: "expr_prog \<Rightarrow> global_var_declare \<Rightarrow> bool \<Rightarrow> timeline_node \<Rightarrow> u64" where
  "size_of prog d stack e1 =
     (let raw = multi_trace_raw_size stack e1
      in if length raw < length (p_data prog) \<and> field_of d raw \<noteq> - 1 then field_of d raw else 1)"

definition allocs :: "(timeline_node \<Rightarrow> u64) \<Rightarrow> (timeline_node \<times> timeline_node option) list \<Rightarrow> (u64 list \<times> u64) list" where
  "allocs sz xs = map (\<lambda>(e1, _). (event_chain e1, sz e1)) xs"

definition frees :: "(timeline_node \<Rightarrow> u64) \<Rightarrow> (timeline_node \<times> timeline_node option) list \<Rightarrow> (u64 list \<times> u64) list" where
  "frees sz xs = List.map_filter (\<lambda>(e1, e2). map_option (\<lambda>e. (event_chain e, sz e1)) e2) xs"

lemma allocs_frees [simp]:
  "allocs sz [] = []" "frees sz [] = []" "allocs sz (xs @ [(e1, e2)]) = allocs sz xs @ [(event_chain e1, sz e1)]"
  "frees sz (xs @ [(e1, None)]) = frees sz xs" "frees sz (xs @ [(e1, Some e)]) = frees sz xs @ [(event_chain e, sz e1)]"
  by (simp_all add: allocs_def frees_def map_filter_def)

definition accounts :: "bool \<Rightarrow> (u64 list \<times> u64) list \<Rightarrow> u32 \<Rightarrow> u64 \<Rightarrow> key_value_paires option \<Rightarrow> bool" where
  "accounts stack xs nr bytes t \<longleftrightarrow> nr = of_nat (length xs) \<and> bytes = sum_list (map snd xs) \<and>
     (\<exists>q. t = Some q \<and> tally (if stack then xs else []) q)"

lemma accounts_add:
  assumes a: "accounts stack xs nr bytes t" and f: "chain_fits (event_chain e)"
  shows "\<exists>t1. add_stack True stack e b t = Some t1 \<and> accounts stack (xs @ [(event_chain e, b)]) (nr + 1) (bytes + b) t1"
proof -
  obtain q where q: "t = Some q" "tally (if stack then xs else []) q" using a by (auto simp: accounts_def)
  show ?thesis
  proof (cases stack)
    case True
    then obtain q1 where "add_bytes True (event_chain e) b (Some q) = Some (Some q1)" "tally (xs @ [(event_chain e, b)]) q1"
      using add_bytes_tally [of xs q "event_chain e" b] q f by auto
    then show ?thesis using a True q(1) by (simp add: add_stack_def accounts_def)
  qed (use a q in \<open>simp add: add_stack_def accounts_def\<close>)
qed

text \<open>An object as it was made, and as the report leaves it.\<close>

definition fresh_profile :: mem_profile where
  "fresh_profile = zero_profile\<lparr>mp_alloc := keyvalue_pairs_new True 8, mp_free := keyvalue_pairs_new True 8\<rparr>"

lemma fresh_accounts:
  "accounts stack [] (mp_nr_alloc fresh_profile) (mp_alloc_bytes fresh_profile) (mp_alloc fresh_profile)"
  "accounts stack [] (mp_nr_free fresh_profile) (mp_free_bytes fresh_profile) (mp_free fresh_profile)"
  using new_tally by (auto simp: accounts_def fresh_profile_def zero_profile_def)

lemma new_profile:
  assumes ok: "class_ok c" "cl_ids c < cl_ids c + 1" and new: "class_map c (tp1, tp2) = None"
    and m: "mem_profile_new True tps tp1 tp2 c = Some (Some a, c1)"
  shows "\<exists>t. cl_heap c1 a = Some t \<and> te_tp1 t = tp1 \<and> te_tp2 t = tp2 \<and> te_obj t = fresh_profile"
proof -
  obtain c0 where c0: "two_event_new True zero_profile tp1 tp2 c = Some (Some a, c0)"
    "c1 = set_obj a (\<lambda>p. p\<lparr>mp_alloc := keyvalue_pairs_new True 8, mp_free := keyvalue_pairs_new True 8\<rparr>) c0"
    using m by (auto simp: mem_profile_new_def split: if_splits option.splits)
  have f: "class_ok c0" "two_event_find c0 tp1 tp2 = Some a" using new_ok [OF ok, of zero_profile tp1 tp2] c0(1) by auto
  obtain t where t: "cl_heap c0 a = Some t" "te_tp1 t = tp1" "te_tp2 t = tp2" using found_object [OF f] by auto
  have "cl_heap c a \<noteq> Some t"
  proof
    assume a: "cl_heap c a = Some t"
    then have "table_map (pkey c) (two_events c) (pkey c a) = Some a" using ok(1) by (intro table_map_of) (auto simp: class_ok_def)
    then show False using new a t(2,3) by (simp add: class_map_def)
  qed
  then have "te_obj t = zero_profile" using new_heap [OF c0(1) t(1)] by simp
  then show ?thesis using t c0(2) by (simp add: set_obj_def fresh_profile_def)
qed

text \<open>The object \<open>a\<close> after the calls \<open>xs\<close>.\<close>

definition profiled ::
  "expr_prog \<Rightarrow> global_var_declare \<Rightarrow> u64 \<Rightarrow> bool \<Rightarrow> bool \<Rightarrow> nat \<Rightarrow> nat \<Rightarrow> nat \<Rightarrow> (timeline_node \<times> timeline_node option) list \<Rightarrow> mem_state \<Rightarrow> bool" where
  "profiled prog d base st1 st2 tp1 tp2 a xs s \<longleftrightarrow>
     (\<exists>t. cl_heap (ms_class s) a = Some t \<and> te_tp1 t = tp1 \<and> te_tp2 t = tp2 \<and>
       accounts st1 (allocs (size_of prog d st1) xs) (mp_nr_alloc (te_obj t)) (mp_alloc_bytes (te_obj t)) (mp_alloc (te_obj t)) \<and>
       accounts st2 (frees (size_of prog d st1) xs) (mp_nr_free (te_obj t)) (mp_free_bytes (te_obj t)) (mp_free (te_obj t))) \<and>
     mt_stack (ms_tp s tp1) = st1 \<and> mt_stack (ms_tp s tp2) = st2 \<and> mt_base (ms_tp s tp1) = base \<and> usable prog (mt_prog (ms_tp s tp1))"

text \<open>Events that the analysis can read: the record reaches past the field and the chains can be counted.\<close>

definition readable :: "expr_prog \<Rightarrow> global_var_declare \<Rightarrow> bool \<Rightarrow> nat \<Rightarrow> timeline_node \<times> timeline_node option \<Rightarrow> bool" where
  "readable prog d st1 tp2 x \<longleftrightarrow>
     (case x of (e1, e2) \<Rightarrow>
        d_offset d + d_elementsize d \<le> length (multi_trace_raw_size st1 e1) \<and>
        chain_fits (event_chain e1) \<and> (case e2 of None \<Rightarrow> True | Some e \<Rightarrow> tp2 \<noteq> 0 \<and> chain_fits (event_chain e)))"

text \<open>The record of the first event has the length of the data area: \<open>expr_load_data\<close> writes one byte past it.\<close>

definition overruns :: "expr_prog \<Rightarrow> bool \<Rightarrow> timeline_node \<times> timeline_node option \<Rightarrow> bool" where
  "overruns prog st1 x \<longleftrightarrow> length (multi_trace_raw_size st1 (fst x)) = length (p_data prog)"

text \<open>The size attribute: the name of a declared scalar variable, compiled.\<close>

definition size_attribute :: "alloc \<Rightarrow> world \<Rightarrow> global_var_declare list \<Rightarrow> global_var_declare \<Rightarrow> expr_prog \<Rightarrow> bool" where
  "size_attribute al w ds d prog \<longleftrightarrow> decls_ok al ds \<and> d \<in> set ds \<and> d_size d = d_elementsize d \<and> w_insn_base w = insn_base al \<and>
     tp_new_prog al (d_name d) (Some ds) = Some prog \<and> length (p_data prog) < 2 ^ 31"

lemma two_profiled:
  assumes sz: "size_attribute al w ds d prog" and p: "profiled prog d (data_base al) st1 st2 tp1 tp2 a xs s" and r: "readable prog d st1 tp2 (e1, e2)"
    and no: "\<not> overruns prog st1 (e1, e2)"
  shows "\<exists>s1. mem_profile_two w True (Some a) e1 e2 s = Some s1 \<and> profiled prog d (data_base al) st1 st2 tp1 tp2 a (xs @ [(e1, e2)]) s1"
proof -
  let ?raw = "multi_trace_raw_size st1 e1" and ?sz = "size_of prog d st1"
  obtain t where t: "cl_heap (ms_class s) a = Some t" "te_tp1 t = tp1" "te_tp2 t = tp2"
      "accounts st1 (allocs ?sz xs) (mp_nr_alloc (te_obj t)) (mp_alloc_bytes (te_obj t)) (mp_alloc (te_obj t))"
      "accounts st2 (frees ?sz xs) (mp_nr_free (te_obj t)) (mp_free_bytes (te_obj t)) (mp_free (te_obj t))"
    and m: "mt_stack (ms_tp s tp1) = st1" "mt_stack (ms_tp s tp2) = st2" "mt_base (ms_tp s tp1) = data_base al" "usable prog (mt_prog (ms_tp s tp1))"
    using p by (auto simp: profiled_def)
  have eq: "tp2 = tp1 \<longrightarrow> st1 = st2" using m by auto
  have c: "expr_compile al (d_name d) ds = Inr prog" "decls_ok al ds" "d \<in> set ds" "d_size d = d_elementsize d"
    "w_insn_base w = insn_base al" "length (p_data prog) < 2 ^ 31"
    using sz by (auto simp: size_attribute_def tp_new_prog_def split: sum.splits)
  obtain ps where ps: "tp_prog_run w (data_base al) ?raw (mt_prog (ms_tp s tp1)) = Some (run_value prog d ?raw, ps)" "usable prog ps"
    using prog_run_field [OF c(2-5,1) m(4) c(6), of ?raw] r no by (auto simp: readable_def overruns_def)
  have b: "tp_get_mem_size w (data_base al) ?raw (mt_prog (ms_tp s tp1)) = Some (?sz e1, ps)"
    using ps(1) by (auto simp: tp_get_mem_size_def size_of_def run_value_def Let_def)
  obtain al1 where al1: "add_stack True st1 e1 (?sz e1) (mp_alloc (te_obj t)) = Some al1"
      "accounts st1 (allocs ?sz (xs @ [(e1, e2)])) (mp_nr_alloc (te_obj t) + 1) (mp_alloc_bytes (te_obj t) + ?sz e1) al1"
    using accounts_add [OF t(4), of e1 "?sz e1"] r by (auto simp: readable_def)
  show ?thesis
  proof (cases e2)
    case None
    then show ?thesis using t m eq b al1 ps(2) by (simp add: mem_profile_two_def profiled_def Let_def set_obj_def)
  next
    case (Some e)
    obtain fr where fr: "add_stack True st2 e (?sz e1) (mp_free (te_obj t)) = Some fr"
        "accounts st2 (frees ?sz (xs @ [(e1, Some e)])) (mp_nr_free (te_obj t) + 1) (mp_free_bytes (te_obj t) + ?sz e1) fr"
      using accounts_add [OF t(5), of e "?sz e1"] r Some by (auto simp: readable_def)
    have "tp2 \<noteq> 0" using r Some by (simp add: readable_def)
    then show ?thesis using t m eq b al1 fr ps(2) Some by (simp add: mem_profile_two_def profiled_def Let_def set_obj_def)
  qed
qed

lemma two_overruns:
  assumes p: "profiled prog d base st1 st2 tp1 tp2 a xs s" and o: "overruns prog st1 (e1, e2)"
  shows "mem_profile_two w True (Some a) e1 e2 s = None"
  using p prog_run_overrun [of prog "mt_prog (ms_tp s tp1)" "multi_trace_raw_size st1 e1" w base] o
  by (auto simp: profiled_def overruns_def mem_profile_two_def tp_get_mem_size_def Let_def)

lemma twos_profiled:
  assumes sz: "size_attribute al w ds d prog"
  shows "profiled prog d (data_base al) st1 st2 tp1 tp2 a ys s \<Longrightarrow> \<forall>x\<in>set xs. readable prog d st1 tp2 x \<Longrightarrow>
    if \<exists>x\<in>set xs. overruns prog st1 x then mem_twos w a xs s = None
    else \<exists>s1. mem_twos w a xs s = Some s1 \<and> profiled prog d (data_base al) st1 st2 tp1 tp2 a (ys @ xs) s1"
proof (induction xs arbitrary: ys s)
  case (Cons x xs)
  obtain e1 e2 where x: "x = (e1, e2)" by (cases x)
  show ?case
  proof (cases "overruns prog st1 x")
    case True
    then show ?thesis using two_overruns [OF Cons.prems(1), of e1 e2 w] x by auto
  next
    case False
    then obtain s1 where 1: "mem_profile_two w True (Some a) e1 e2 s = Some s1" "profiled prog d (data_base al) st1 st2 tp1 tp2 a (ys @ [x]) s1"
      using two_profiled [OF sz Cons.prems(1), of e1 e2] Cons.prems(2) x by auto
    have "\<forall>x\<in>set xs. readable prog d st1 tp2 x" using Cons.prems(2) by simp
    note Cons.IH [OF 1(2) this]
    then show ?thesis using 1(1) x False by (auto split: if_splits)
  qed
qed auto

section \<open>The report is true\<close>

definition reports :: "bool \<Rightarrow> (u64 list \<times> u64) list \<Rightarrow> nat \<Rightarrow> mem_half \<Rightarrow> bool" where
  "reports stack xs n h \<longleftrightarrow> mh_nr h = of_nat (length xs) \<and> mh_bytes h = sum_list (map snd xs) \<and>
     (let ys = (if stack then xs else []); k = card (fst ` set ys)
      in top_chains ys n (mh_chains h) \<and> mh_skipped h = (if k > n then Some (n + 1, k) else None))"

lemma half_reports:
  assumes a: "accounts stack xs nr bytes t" and qs: "sorts qs" and x: "\<forall>x\<in>set xs. chain_fits (fst x)"
  shows "\<exists>h. half qs True n bytes nr t = Some h \<and> reports stack xs n h"
proof -
  let ?ys = "if stack then xs else []"
  obtain q where q: "t = Some q" "tally ?ys q" using a by (auto simp: accounts_def)
  have y: "\<forall>x\<in>set ?ys. chain_fits (fst x)" using x by simp
  obtain kvs where k: "keyvalue_pairs_sorted_firstn qs True cmp_bytes n (Some q) = Some kvs" "top_chains ?ys n kvs"
    using firstn_top [OF qs q(2) y] by blast
  have "keyvalue_pairs_nr_entries t = card (fst ` set ?ys)"
    using q(1) tally_entries(1,3) [OF q(2)] y distinct_card [OF tally_entries(1) [OF q(2)]] q(2)
    by (simp add: keyvalue_pairs_nr_entries_def tally_def table_ok_def)
  then show ?thesis using k q(1) a by (simp add: half_def reports_def accounts_def)
qed

lemma reset_fresh:
  "accounts st1 xs nr bytes (mp_alloc p) \<Longrightarrow> accounts st2 ys nr' bytes' (mp_free p) \<Longrightarrow> reset_profile p = Some fresh_profile"
  using reinit_tally by (auto simp: accounts_def reset_profile_def fresh_profile_def zero_profile_def)

lemma readable_fits:
  assumes "\<forall>x\<in>set xs. readable prog d st1 tp2 x"
  shows "\<forall>x\<in>set (allocs sz xs). chain_fits (fst x)" "\<forall>x\<in>set (frees sz xs). chain_fits (fst x)"
  using assms by (force simp: allocs_def readable_def, force simp: frees_def readable_def map_filter_def split: option.splits)

text \<open>
  C15. The report on memory is true. An object is made for an allocating and a freeing
  tracepoint (or for allocations that were not freed), the size attribute names a scalar field,
  and \<open>mem_profile_two\<close> is called for a sequence of events whose records reach past
  the field and whose call chains have less than \<open>2 ^ 31\<close> addresses: the report
  gives the number of allocations and of frees and their bytes, modulo the width of the
  counters, and if there are stacks the call chains with the most bytes, every one with its own
  bytes and number, the others none greater, and how many were left out; no null pointer is
  followed, and then the object is as new. The exception is a record of exactly the length of
  the data area of the size program: with one in the sequence, \<open>expr_load_data\<close>
  writes past the area and there is no result.

  The tracepoint may have any number of fields, arrays among them, with distinct identifiers; if
  there are more than six, the entries that \<open>realloc\<close> adds to the symbol table
  without clearing them have to read as unused. Memory does not run out, and an object for
  allocations alone has something to report.
\<close>

theorem mem_profile_reports:
  assumes sz: "size_attribute al w ds d prog" and c: "class_ok c" "cl_ids c < cl_ids c + 1" "class_map c (tp1, tp2) = None"
    and new: "mem_profile_new True tps tp1 tp2 c = Some (Some a, c1)" and qs: "sorts qs"
    and tp1: "tps tp1 = \<lparr>mt_stack = st1, mt_base = data_base al, mt_prog = (Some prog, m)\<rparr>"
    and xs: "\<forall>x\<in>set xs. readable prog d st1 tp2 x" and some: "tp2 \<noteq> 0 \<or> (of_nat (length xs) :: u32) \<noteq> 0"
  shows "if \<exists>x\<in>set xs. overruns prog st1 x then mem_twos w a xs \<lparr>ms_class = c1, ms_tp = tps\<rparr> = None
    else \<exists>s r c2. mem_twos w a xs \<lparr>ms_class = c1, ms_tp = tps\<rparr> = Some s \<and>
      mem_profile_print qs True n (Some a) (ms_class s) = Some (Some r, c2) \<and>
      reports st1 (allocs (size_of prog d st1) xs) n (mr_alloc r) \<and>
      (case mr_free r of None \<Rightarrow> tp2 = 0 | Some h \<Rightarrow> tp2 \<noteq> 0 \<and> reports (mt_stack (tps tp2)) (frees (size_of prog d st1) xs) n h) \<and>
      te_obj (obj c2 a) = te_obj (obj c1 a)"
proof -
  obtain t0 where t0: "cl_heap c1 a = Some t0" "te_tp1 t0 = tp1" "te_tp2 t0 = tp2" "te_obj t0 = fresh_profile"
    using new_profile [OF c new] by blast
  have "profiled prog d (data_base al) st1 (mt_stack (tps tp2)) tp1 tp2 a [] \<lparr>ms_class = c1, ms_tp = tps\<rparr>"
    using t0 fresh_accounts tp1 by (simp add: profiled_def usable_def)
  note run = twos_profiled [OF sz this xs]
  show ?thesis
  proof (cases "\<exists>x\<in>set xs. overruns prog st1 x")
    case True
    then show ?thesis using run by (simp only: if_True simp_thms)
  next
    case False
    then obtain s where s: "mem_twos w a xs \<lparr>ms_class = c1, ms_tp = tps\<rparr> = Some s"
      "profiled prog d (data_base al) st1 (mt_stack (tps tp2)) tp1 tp2 a xs s" using run by auto
    let ?al = "allocs (size_of prog d st1) xs" and ?fr = "frees (size_of prog d st1) xs"
    obtain t where t: "cl_heap (ms_class s) a = Some t" "te_tp2 t = tp2"
        "accounts st1 ?al (mp_nr_alloc (te_obj t)) (mp_alloc_bytes (te_obj t)) (mp_alloc (te_obj t))"
        "accounts (mt_stack (tps tp2)) ?fr (mp_nr_free (te_obj t)) (mp_free_bytes (te_obj t)) (mp_free (te_obj t))"
      using s(2) by (auto simp: profiled_def)
    obtain h1 where h1: "half qs True n (mp_alloc_bytes (te_obj t)) (mp_nr_alloc (te_obj t)) (mp_alloc (te_obj t)) = Some h1" "reports st1 ?al n h1"
      using half_reports [OF t(3) qs readable_fits(1) [OF xs]] by blast
    obtain h2 where h2: "half qs True n (mp_free_bytes (te_obj t)) (mp_nr_free (te_obj t)) (mp_free (te_obj t)) = Some h2"
        "reports (mt_stack (tps tp2)) ?fr n h2"
      using half_reports [OF t(4) qs readable_fits(2) [OF xs]] by blast
    have "tp2 \<noteq> 0 \<or> mp_nr_alloc (te_obj t) \<noteq> 0" using some t(3) by (simp add: accounts_def allocs_def)
    then have "mem_profile_print qs True n (Some a) (ms_class s) =
        Some (Some \<lparr>mr_alloc = h1, mr_free = (if tp2 = 0 then None else Some h2)\<rparr>, set_obj a (\<lambda>_. fresh_profile) (ms_class s))"
      using t h1(1) h2(1) reset_fresh [OF t(3,4)] by (simp add: mem_profile_print_def Let_def)
    then show ?thesis using s(1) h1(2) h2(2) t(1) t0(1,4) False by (simp add: set_obj_def)
  qed
qed

text \<open>A sort, events with one address and a size of one byte, and the tracepoints.\<close>

fun insert_by :: "('a \<Rightarrow> 'a \<Rightarrow> int) \<Rightarrow> 'a \<Rightarrow> 'a list \<Rightarrow> 'a list" where
  "insert_by cmp x [] = [x]"
| "insert_by cmp x (y # ys) = (if cmp x y \<le> 0 then x # y # ys else y # insert_by cmp x ys)"

definition demo_sort :: "'a qsort" where
  "demo_sort cmp xs = foldr (insert_by cmp) xs []"

lemma insert_by_mset [simp]: "mset (insert_by cmp x ys) = add_mset x (mset ys)"
  by (induction ys) auto

lemma insert_by_set [simp]: "set (insert_by cmp x ys) = insert x (set ys)"
  by (induction ys) auto

lemma insert_by_sorted:
  assumes "\<forall>a b. cmp a b \<le> 0 \<or> cmp b a \<le> 0" "\<forall>a b c. cmp a b \<le> 0 \<longrightarrow> cmp b c \<le> 0 \<longrightarrow> cmp a c \<le> 0"
  shows "sorted_wrt (\<lambda>a b. cmp a b \<le> 0) ys \<Longrightarrow> sorted_wrt (\<lambda>a b. cmp a b \<le> 0) (insert_by cmp x ys)"
  using assms by (induction ys) (simp, force)

lemma demo_sorts: "sorts demo_sort"
proof -
  have "mset (foldr (insert_by cmp) xs []) = mset xs" for cmp :: "'a \<Rightarrow> 'a \<Rightarrow> int" and xs by (induction xs) auto
  moreover have "sorted_wrt (\<lambda>a b. cmp a b \<le> 0) (foldr (insert_by cmp) xs [])"
    if "\<forall>a b. cmp a b \<le> 0 \<or> cmp b a \<le> 0" "\<forall>a b c. cmp a b \<le> 0 \<longrightarrow> cmp b c \<le> 0 \<longrightarrow> cmp a c \<le> 0" for cmp :: "'a \<Rightarrow> 'a \<Rightarrow> int" and xs
    using insert_by_sorted [OF that] by (induction xs) auto
  ultimately show ?thesis by (auto simp: sorts_def demo_sort_def)
qed

definition demo_alloc :: "u8 \<Rightarrow> timeline_node" where
  "demo_alloc b = \<lparr>tn_time = 0, tn_key = 0, tn_tp = (0, 0), tn_tp1 = None, tn_unneeded = False, tn_need_find_prev = False,
     tn_need_backup = False, tn_need_remove = False, tn_maybe_unpaired = False, tn_ins = 0, tn_seq = 0,
     tn_event = replicate 48 0 @ [1, 0, 0, 0, 0, 0, 0, 0, 188, 10, 0, 0, 0, 0, 0, 0, 1, 0, 0, 0, b]\<rparr>"

lemma demo_alloc_fields: "event_chain (demo_alloc b) = [2748]" "multi_trace_raw_size True (demo_alloc b) = [b]"
  by (simp_all add: event_chain_def demo_alloc_def u64_at_def u32_at_def multi_trace_raw_size_def Let_def)

definition demo_tps :: "expr_prog \<Rightarrow> nat \<Rightarrow> mem_tp" where
  "demo_tps prog tp = \<lparr>mt_stack = True, mt_base = 0x9000, mt_prog = (Some prog, Map.empty)\<rparr>"

abbreviation demo_calls :: "(timeline_node \<times> timeline_node option) list" where
  "demo_calls \<equiv> [(demo_alloc 7, Some (demo_alloc 0)), (demo_alloc 5, None)]"

theorem mem_profile_reports_witness:
  "\<exists>prog a c1 s r c2. mem_profile_new True (demo_tps prog) 8 9 two_event_class_new = Some (Some a, c1) \<and>
    mem_twos ex_world a demo_calls \<lparr>ms_class = c1, ms_tp = demo_tps prog\<rparr> = Some s \<and>
    mem_profile_print demo_sort True 10 (Some a) (ms_class s) = Some (Some r, c2) \<and>
    mh_nr (mr_alloc r) = 2 \<and> mh_bytes (mr_alloc r) = 12 \<and> map_option mh_bytes (mr_free r) = Some 7 \<and>
    map (\<lambda>kv. (kv_key kv, bytes_of kv)) (mh_chains (mr_alloc r)) = [([2748], 12)]"
proof -
  obtain prog where p: "expr_compile ex_al ''pid'' ex_decls = Inr prog"
    using compile_and_run [OF ex_decls_ok, of "AVar ''pid''" ex_world ex_al "area 0 []"]
    by (auto simp: scalar_of_def ex_decls_def ex_world_def ex_al_def)
  have n: "length (p_data prog) = 256" using compiled_data [OF p] by (simp add: max_offset_def data_size_def ex_decls_def)
  let ?d = "hd ex_decls" and ?c = "two_event_class_new :: mem_profile two_event_class"
  have sz: "size_attribute ex_al ex_world ex_decls ?d prog"
    using p n ex_decls_ok by (simp add: size_attribute_def tp_new_prog_def) (simp add: ex_decls_def ex_world_def ex_al_def)
  have ids: "cl_ids ?c < cl_ids ?c + 1" by (simp add: two_event_class_new_def)
  obtain a c1 where a: "mem_profile_new True (demo_tps prog) 8 9 ?c = Some (Some a, c1)"
    using new_ok [OF class_new_ok(1) ids, of zero_profile 8 9] by (auto simp: mem_profile_new_def demo_tps_def)
  have x: "\<forall>x\<in>set demo_calls. readable prog ?d True 9 x"
    by (simp add: readable_def demo_alloc_fields n chain_fits_def ex_decls_def)
  have o: "\<not> (\<exists>x\<in>set demo_calls. overruns prog True x)" by (simp add: overruns_def demo_alloc_fields n)
  have tp: "demo_tps prog 8 = \<lparr>mt_stack = True, mt_base = data_base ex_al, mt_prog = (Some prog, Map.empty)\<rparr>" by (simp add: demo_tps_def ex_al_def)
  have new: "class_map ?c (8, 9) = None" by (simp add: class_new_ok(2))
  have some: "(9 :: nat) \<noteq> 0 \<or> (of_nat (length demo_calls) :: u32) \<noteq> 0" by simp
  have s: "size_of prog ?d True (demo_alloc 7) = 7" "size_of prog ?d True (demo_alloc 5) = 5"
    by (simp_all add: size_of_def demo_alloc_fields n field_of_def ex_decls_def sext_def)
  have al: "allocs (size_of prog ?d True) demo_calls = [([2748], 7), ([2748], 5)]" "frees (size_of prog ?d True) demo_calls = [([2748], 7)]"
    by (simp_all add: allocs_def frees_def map_filter_def demo_alloc_fields s)
  obtain s r c2 where r: "mem_twos ex_world a demo_calls \<lparr>ms_class = c1, ms_tp = demo_tps prog\<rparr> = Some s"
      "mem_profile_print demo_sort True 10 (Some a) (ms_class s) = Some (Some r, c2)"
      "reports True [([2748], 7), ([2748], 5)] 10 (mr_alloc r)"
      "case mr_free r of None \<Rightarrow> (9 :: nat) = 0 | Some h \<Rightarrow> (9 :: nat) \<noteq> 0 \<and> reports (mt_stack (demo_tps prog 9)) [([2748], 7)] 10 h"
    using mem_profile_reports [OF sz class_new_ok(1) ids new a demo_sorts tp x some, of 10, unfolded al] o by (simp only: if_False) blast
  have "length (mh_chains (mr_alloc r)) = 1" using r(3) by (simp add: reports_def top_chains_def)
  then obtain kv where kv: "mh_chains (mr_alloc r) = [kv]" by (auto simp: length_Suc_conv)
  have "kv_key kv = [2748]" "bytes_of kv = 12" using r(3) kv by (auto simp: reports_def top_chains_def counts_def split: if_splits)
  moreover have "mh_nr (mr_alloc r) = 2" "mh_bytes (mr_alloc r) = 12" using r(3) by (simp_all add: reports_def)
  moreover have "map_option mh_bytes (mr_free r) = Some 7" using r(4) by (auto simp: reports_def split: option.splits)
  ultimately show ?thesis using a r(1,2) kv by (intro exI [of _ prog] exI [of _ a] exI [of _ c1] exI [of _ s] exI [of _ r] exI [of _ c2]) simp
qed

end
