(* ===== verification/Two_Pair.thy ===== *)
theory Two_Pair
  imports Two_Stats
begin

text \<open>
  Counting pairs in \<open>src/two-event.c\<close>, and the report of \<open>multi_trace_interval\<close> in \<open>src/multi-trace.c\<close>,
  which asks every object of a trace to print.

  The counter of an object is \<open>paired\<close> and \<open>unpaired\<close> at once, a union. The pair analysis has no
  operation that can fail.
\<close>

type_synonym pair_class = "u64 two_event_class"

definition pair_two :: "nat option \<Rightarrow> pair_class \<Rightarrow> pair_class" where
  "pair_two two c = (case two of None \<Rightarrow> c | Some a \<Rightarrow> set_obj a (\<lambda>n. n + 1) c)"

text \<open>The second result is the event that is printed; it returns \<open>REMAINING_CONTINUE\<close>.\<close>

definition pair_remaining :: "nat option \<Rightarrow> timeline_node \<Rightarrow> pair_class \<Rightarrow> pair_class \<times> timeline_node list" where
  "pair_remaining two e1 c = (case two of None \<Rightarrow> (c, []) | Some a \<Rightarrow> (set_obj a (\<lambda>n. n + 1) c, [e1]))"

definition pair_print_header :: "nat option \<Rightarrow> pair_class \<Rightarrow> bool \<times> pair_class \<times> (nat \<times> nat \<times> u64) list" where
  "pair_print_header two c = (True, c, [])"

text \<open>A line: the two tracepoints, 0 for none, and the number.\<close>

definition pair_print :: "nat option \<Rightarrow> pair_class \<Rightarrow> pair_class \<times> (nat \<times> nat \<times> u64) list" where
  "pair_print two c =
     (case two of
        None \<Rightarrow> (c, [])
      | Some a \<Rightarrow> (set_obj a (\<lambda>_. 0) c, [(te_tp1 (obj c a), te_tp2 (obj c a), te_obj (obj c a))]))"

definition pair_class_new :: pair_class where
  "pair_class_new = two_event_class_new"

section \<open>A whole trace\<close>

text \<open>The loop of \<open>multi_trace_init\<close> with \<open>two_event_new\<close>, the default \<open>object_new\<close>.\<close>

fun object_news :: "'o \<Rightarrow> (nat \<times> nat) list \<Rightarrow> 'o two_event_class \<Rightarrow> 'o two_event_class option" where
  "object_news z [] c = Some c"
| "object_news z ((tp1, tp2) # ps) c =
     (case two_event_new True z tp1 tp2 c of Some (Some a, c1) \<Rightarrow> object_news z ps c1 | _ \<Rightarrow> None)"

text \<open>What is called for a call of a trace, and the tracepoints of its object.\<close>

definition call_tps :: "(tpid \<Rightarrow> nat) \<Rightarrow> call \<Rightarrow> (nat \<times> nat) option" where
  "call_tps ptr c =
     (case c of
        Two a b _ _ \<Rightarrow> Some (ptr (tn_tp a), case b of None \<Rightarrow> 0 | Some b \<Rightarrow> ptr (tn_tp b))
      | Remaining a _ _ _ \<Rightarrow> Some (ptr (tn_tp a), 0)
      | Lost _ \<Rightarrow> None)"

definition pair_call :: "(tpid \<Rightarrow> nat) \<Rightarrow> call \<Rightarrow> pair_class \<Rightarrow> pair_class" where
  "pair_call ptr c cl =
     (case c of
        Two a b _ _ \<Rightarrow> pair_two (two_event_find cl (ptr (tn_tp a)) (case b of None \<Rightarrow> 0 | Some b \<Rightarrow> ptr (tn_tp b))) cl
      | Remaining a _ _ _ \<Rightarrow> fst (pair_remaining (two_event_find cl (ptr (tn_tp a)) 0) a cl)
      | Lost _ \<Rightarrow> cl)"

text \<open>
  \<open>multi_trace_interval\<close> for the pairs of tracepoints that \<open>level_pairs\<close> goes through: \<open>print_header\<close>
  until it returns a value other than zero, and \<open>print\<close>. The results are what is printed.
\<close>

fun interval_prints ::
  "('s \<Rightarrow> nat \<Rightarrow> nat \<Rightarrow> nat option) \<Rightarrow> (nat option \<Rightarrow> 's \<Rightarrow> bool \<times> 's \<times> 'l list) \<Rightarrow> (nat option \<Rightarrow> 's \<Rightarrow> 's \<times> 'l list) \<Rightarrow>
   (nat \<times> nat) list \<Rightarrow> bool \<Rightarrow> 's \<Rightarrow> 's \<times> 'l list" where
  "interval_prints object_find print_header print [] header s = (s, [])"
| "interval_prints object_find print_header print ((tp1, tp2) # ps) header s =
     (let two = object_find s tp1 tp2;
          (header1, s1, l1) = (if header then (True, s, []) else print_header two s);
          (s2, l2) = print two s1;
          (s3, l3) = interval_prints object_find print_header print ps header1 s2
      in (s3, l1 @ l2 @ l3))"

definition multi_trace_interval ::
  "('s \<Rightarrow> nat \<Rightarrow> nat \<Rightarrow> nat option) \<Rightarrow> (nat option \<Rightarrow> 's \<Rightarrow> bool \<times> 's \<times> 'l list) \<Rightarrow> (nat option \<Rightarrow> 's \<Rightarrow> 's \<times> 'l list) \<Rightarrow>
   (tpid \<Rightarrow> bool) \<Rightarrow> (tpid \<Rightarrow> nat) \<Rightarrow> mt_conf \<Rightarrow> 's \<Rightarrow> 's \<times> 'l list" where
  "multi_trace_interval object_find print_header print dev ptr cf s =
     interval_prints object_find print_header print (level_pairs dev ptr cf) False s"

section \<open>Counters of objects\<close>

definition counter :: "pair_class \<Rightarrow> nat \<times> nat \<Rightarrow> u64 option" where
  "counter c e = map_option (\<lambda>a. te_obj (obj c a)) (two_event_find c (fst e) (snd e))"

lemma set_counter:
  assumes ok: "class_ok c" and f: "two_event_find c tp1 tp2 = Some a"
  shows "counter (set_obj a g c) = (counter c)((tp1, tp2) := map_option g (counter c (tp1, tp2)))"
proof
  fix e
  note o = found_object [OF ok f] and s = set_obj_same(3) [OF ok, of a g]
  show "counter (set_obj a g c) e = ((counter c)((tp1, tp2) := map_option g (counter c (tp1, tp2)))) e"
  proof (cases "two_event_find c (fst e) (snd e)")
    case (Some b)
    note p = found_object [OF ok Some]
    have "b = a \<longleftrightarrow> e = (tp1, tp2)" using o(2) p(2) Some f by (metis option.inject prod.collapse prod.inject)
    then show ?thesis using Some s o(1) p(1) f by (auto simp: counter_def set_obj_def)
  qed (use s f in \<open>auto simp: counter_def\<close>)
qed

lemma pair_two_counter:
  assumes ok: "class_ok c" and two: "two = two_event_find c tp1 tp2"
  shows "class_ok (pair_two two c)" "counter (pair_two two c) = (counter c)((tp1, tp2) := map_option (\<lambda>n. n + 1) (counter c (tp1, tp2)))"
    "fst (pair_remaining two e c) = pair_two two c"
  using set_counter [OF ok, of tp1 tp2 _ "\<lambda>n. n + 1"] set_obj_same(1) [OF ok] ok two
  by (auto simp: pair_two_def pair_remaining_def counter_def fun_eq_iff split: option.splits)

definition calls_of :: "(tpid \<Rightarrow> nat) \<Rightarrow> nat \<times> nat \<Rightarrow> call list \<Rightarrow> nat" where
  "calls_of ptr e cs = length (filter (\<lambda>c. call_tps ptr c = Some e) cs)"

lemma pair_calls_counter:
  "class_ok c \<Longrightarrow> class_ok (fold (pair_call ptr) cs c) \<and>
   counter (fold (pair_call ptr) cs c) e = map_option (\<lambda>n. n + of_nat (calls_of ptr e cs)) (counter c e)"
proof (induction cs arbitrary: c)
  case Nil
  then show ?case by (simp add: calls_of_def map_option.id [unfolded id_def])
next
  case (Cons x cs)
  have "class_ok (pair_call ptr x c) \<and> counter (pair_call ptr x c) e = map_option (\<lambda>n. n + (if call_tps ptr x = Some e then 1 else 0)) (counter c e)"
    using pair_two_counter [OF Cons.prems refl] Cons.prems
    by (cases x; simp add: pair_call_def call_tps_def map_option.id [unfolded id_def] split: option.split)
  then show ?case using Cons.IH [of "pair_call ptr x c"]
    by (auto simp: calls_of_def option.map_comp comp_def algebra_simps intro!: arg_cong2 [of _ _ _ _ map_option])
qed

section \<open>The report\<close>

lemma counter_dom: "class_ok c \<Longrightarrow> dom (counter c) = dom (class_map c)"
  by (auto simp: counter_def class_map_def find_pair dom_def)

lemma news_counter:
  "class_ok c \<Longrightarrow> unat (cl_ids c) + length ps < 2 ^ 32 \<Longrightarrow> \<forall>x t. cl_heap c x = Some t \<longrightarrow> te_obj t = z \<Longrightarrow>
   \<exists>c1. object_news z ps c = Some c1 \<and> class_ok c1 \<and> (\<forall>x t. cl_heap c1 x = Some t \<longrightarrow> te_obj t = z) \<and>
     dom (class_map c1) = set ps \<union> dom (class_map c)"
proof (induction ps arbitrary: c)
  case (Cons p ps)
  obtain tp1 tp2 where p: "p = (tp1, tp2)" by (cases p)
  have u: "unat (cl_ids c + 1) = unat (cl_ids c) + 1" using Cons.prems(2) by (intro unat_Suc32) simp
  then have nw: "cl_ids c < cl_ids c + 1" by (simp add: word_less_nat_alt)
  obtain a c1 where 1: "two_event_new True z tp1 tp2 c = Some (Some a, c1)" "class_ok c1"
      "case class_map c (tp1, tp2) of Some i \<Rightarrow> c1 = c | None \<Rightarrow> class_map c1 = (class_map c)((tp1, tp2) \<mapsto> cl_ids c) \<and> cl_ids c1 = cl_ids c + 1"
    using new_ok [OF Cons.prems(1) nw] by blast
  have "unat (cl_ids c1) + length ps < 2 ^ 32" "dom (class_map c1) = insert (tp1, tp2) (dom (class_map c))"
    using 1(3) u Cons.prems(2) by (auto split: option.splits)
  moreover have "\<forall>x t. cl_heap c1 x = Some t \<longrightarrow> te_obj t = z" using new_heap [OF 1(1)] Cons.prems(3) by blast
  ultimately show ?case using Cons.IH [OF 1(2)] 1(1) p by auto
qed auto

lemma new_counters:
  assumes "length ps < 2 ^ 32"
  obtains c where "object_news 0 ps pair_class_new = Some c" "class_ok c" "counter c = (\<lambda>e. if e \<in> set ps then Some 0 else None)"
proof -
  have "unat (cl_ids pair_class_new) + length ps < 2 ^ 32" "\<forall>x t. cl_heap pair_class_new x = Some t \<longrightarrow> te_obj t = 0"
    using assms by (simp_all add: pair_class_new_def two_event_class_new_def)
  moreover have "class_ok pair_class_new" "class_map pair_class_new = Map.empty" by (simp_all add: pair_class_new_def class_new_ok)
  ultimately obtain c where c: "object_news 0 ps pair_class_new = Some c" "class_ok c" "\<forall>x t. cl_heap c x = Some t \<longrightarrow> te_obj t = 0" "dom (class_map c) = set ps"
    using news_counter [of pair_class_new ps 0] by auto
  have "counter c e = (if e \<in> set ps then Some 0 else None)" for e
  proof (cases "counter c e")
    case None
    then show ?thesis using counter_dom [OF c(2)] c(4) by (metis domIff)
  next
    case (Some n)
    then obtain a where "two_event_find c (fst e) (snd e) = Some a" "n = te_obj (obj c a)" by (auto simp: counter_def)
    then have "n = 0" using found_object(1) [OF c(2)] c(3) by fastforce
    then show ?thesis using Some counter_dom [OF c(2)] c(4) by (metis domI)
  qed
  then show thesis using that c by blast
qed

lemma interval_counters:
  "class_ok c \<Longrightarrow> distinct ps \<Longrightarrow> set ps \<subseteq> dom (counter c) \<Longrightarrow>
   \<exists>c1. interval_prints two_event_find pair_print_header pair_print ps h c = (c1, map (\<lambda>(tp1, tp2). (tp1, tp2, the (counter c (tp1, tp2)))) ps) \<and>
     class_ok c1 \<and> counter c1 = (\<lambda>e. if e \<in> set ps then Some 0 else counter c e)"
proof (induction ps arbitrary: c h)
  case (Cons p ps)
  obtain tp1 tp2 where p: "p = (tp1, tp2)" by (cases p)
  have "p \<in> dom (counter c)" using Cons.prems(3) by simp
  then obtain a where a: "two_event_find c tp1 tp2 = Some a" using p by (auto simp: counter_def)
  let ?c = "set_obj a (\<lambda>_. 0) c"
  have v: "counter c p = Some (te_obj (obj c a))" using a p by (simp add: counter_def)
  have k: "counter ?c = (counter c)(p \<mapsto> 0)" using set_counter [OF Cons.prems(1) a, of "\<lambda>_. 0"] v p by simp
  have "set ps \<subseteq> dom (counter ?c)" using Cons.prems(3) k by auto
  then obtain c1 where c1: "interval_prints two_event_find pair_print_header pair_print ps True ?c =
      (c1, map (\<lambda>(tp1, tp2). (tp1, tp2, the (counter ?c (tp1, tp2)))) ps)" "class_ok c1" "counter c1 = (\<lambda>e. if e \<in> set ps then Some 0 else counter ?c e)"
    using Cons.IH [OF set_obj_same(1) [OF Cons.prems(1)], of a "\<lambda>_. 0" True] Cons.prems(2) by auto
  have m: "map (\<lambda>(tp1, tp2). (tp1, tp2, the (counter ?c (tp1, tp2)))) ps = map (\<lambda>(tp1, tp2). (tp1, tp2, the (counter c (tp1, tp2)))) ps"
    using Cons.prems(2) p k by (auto intro!: map_cong)
  have "pair_print (Some a) c = (?c, [(tp1, tp2, the (counter c p))])" using found_object(2) [OF Cons.prems(1) a] v by (simp add: pair_print_def)
  then have "interval_prints two_event_find pair_print_header pair_print (p # ps) h c =
      (c1, map (\<lambda>(tp1, tp2). (tp1, tp2, the (counter c (tp1, tp2)))) (p # ps))"
    using a c1(1) m p by (cases h) (simp_all add: pair_print_header_def)
  moreover have "counter c1 = (\<lambda>e. if e \<in> set (p # ps) then Some 0 else counter c e)" using c1(3) k by (auto simp: fun_eq_iff)
  ultimately show ?case using c1(2) by blast
qed simp

lemma distinct_concat_map:
  "distinct ks \<Longrightarrow> (\<And>k. k \<in> set ks \<Longrightarrow> distinct (f k)) \<Longrightarrow> (\<And>k l. k \<in> set ks \<Longrightarrow> l \<in> set ks \<Longrightarrow> k \<noteq> l \<Longrightarrow> set (f k) \<inter> set (f l) = {}) \<Longrightarrow>
   distinct (concat (map f ks))"
proof (induction ks)
  case (Cons k ks)
  have "set (f k) \<inter> set (concat (map f ks)) = {}" using Cons.prems(1,3) by fastforce
  then show ?case using Cons by simp
qed simp

lemma traced_distinct: "distinct (traced dev cf k)" "p \<in> set (traced dev cf k) \<Longrightarrow> fst p = k"
  by (auto simp: traced_def distinct_map inj_on_def)

lemma level_pairs_distinct:
  assumes "inj ptr" "\<And>p. ptr p \<noteq> 0" shows "distinct (level_pairs dev ptr cf)"
  unfolding level_pairs_def Let_def
proof (intro distinct_concat_map)
  let ?f = "\<lambda>k p. (ptr p, 0) # map (\<lambda>q. (ptr p, ptr q)) (traced dev cf ((k + 1) mod length (mc_tp_list cf)))"
  have p: "fst e = ptr p" if "e \<in> set (?f k p)" for e k p using that by auto
  have i: "inj (\<lambda>q. (ptr p, ptr q))" for p by (rule injI) (metis injD [OF assms(1)] prod.inject)
  have z: "(ptr p, 0) \<notin> (\<lambda>q. (ptr p, ptr q)) ` A" for p A
  proof
    assume "(ptr p, 0) \<in> (\<lambda>q. (ptr p, ptr q)) ` A"
    then obtain q where "ptr q = 0" by auto
    then show False using assms(2) [of q] by simp
  qed
  have d: "distinct (map (\<lambda>q. (ptr p, ptr q)) (traced dev cf l))" for p l
    unfolding distinct_map using traced_distinct(1) inj_on_subset [OF i subset_UNIV] by blast
  show "distinct (?f k p)" for k p
    unfolding distinct.simps set_map using z d by blast
  show "set (?f k p) \<inter> set (?f k q) = {}" if "p \<noteq> q" for k p q
  proof -
    have "ptr p \<noteq> ptr q" using injD [OF assms(1)] that by blast
    then show ?thesis using p [where k = k and p = p] p [where k = k and p = q] by (metis disjoint_iff)
  qed
  show "set (concat (map (?f k) (traced dev cf k))) \<inter> set (concat (map (?f l) (traced dev cf l))) = {}" if "k \<noteq> l" for k l
  proof -
    have o: "\<exists>q. fst q = m \<and> fst e = ptr q" if e: "e \<in> set (concat (map (?f m) (traced dev cf m)))" for e m
    proof -
      obtain q where q: "q \<in> set (traced dev cf m)" "e \<in> set (?f m q)" using e unfolding set_concat set_map by blast
      show ?thesis using traced_distinct(2) [OF q(1)] p [OF q(2)] by blast
    qed
    show ?thesis
    proof (rule ccontr)
      assume "\<not> ?thesis"
      then obtain e where e: "e \<in> set (concat (map (?f k) (traced dev cf k)))" "e \<in> set (concat (map (?f l) (traced dev cf l)))" by blast
      obtain q r where "fst q = k" "fst r = l" "ptr q = ptr r" using o [OF e(1)] o [OF e(2)] by metis
      then show False using injD [OF assms(1)] \<open>k \<noteq> l\<close> by blast
    qed
  qed
qed (simp_all add: traced_distinct)

text \<open>The events of the calls \<open>two(A, NULL)\<close>.\<close>

definition firsts :: "call list \<Rightarrow> timeline_node list" where
  "firsts cs = concat (map (\<lambda>c. case c of Two a None _ _ \<Rightarrow> [norm a] | _ \<Rightarrow> []) cs)"

lemma calls_of_pairs:
  "t2 \<noteq> 0 \<Longrightarrow> calls_of ptr (t1, t2) cs = length (filter (\<lambda>(a, b). ptr (tn_tp a) = t1 \<and> ptr (tn_tp b) = t2) (pairs cs))"
  by (induction cs) (auto simp: calls_of_def call_tps_def pairs_def split: call.splits option.splits)

lemma calls_of_single:
  "(\<And>p. ptr p \<noteq> 0) \<Longrightarrow>
   calls_of ptr (t1, 0) cs = length (filter (\<lambda>n. ptr (tn_tp n) = t1) (remainders cs)) + length (filter (\<lambda>n. ptr (tn_tp n) = t1) (firsts cs))"
  by (induction cs) (auto simp: calls_of_def call_tps_def remainders_def firsts_def split: call.splits option.splits)

text \<open>
  C16. The counts of pairs are those of the trace. After a trace and the flush at its end, the report of
  \<open>multi_trace_interval\<close> has one line for every object: for two tracepoints the number of pairs
  of such events that the sequence makes, for a single one the number of its events that were
  handed on without a partner, modulo \<open>2 ^ 64\<close>. Every event that is still kept is among these. A
  second report is all zeros.
\<close>

theorem pair_counts:
  assumes es: "at_once cf es" "mc_remaining_break cf = (\<lambda>_. False)" and ptr: "inj ptr" "\<And>p. ptr p \<noteq> 0"
    and n: "length (level_pairs dev ptr cf) < 2 ^ 32"
  shows "\<exists>st st1 c c1 c2. multi_trace_run cf es multi_trace_init = Some st \<and> multi_trace_flush cf st = Some st1 \<and>
    object_news 0 (level_pairs dev ptr cf) pair_class_new = Some c \<and>
    multi_trace_interval two_event_find pair_print_header pair_print dev ptr cf (fold (pair_call ptr) (calls st1) c) =
      (c1, map (\<lambda>(t1, t2). (t1, t2, of_nat (if t2 = 0
             then length (filter (\<lambda>n. ptr (tn_tp n) = t1) (remainders (calls st1))) + length (filter (\<lambda>n. ptr (tn_tp n) = t1) (firsts (calls st1)))
             else length (filter (\<lambda>(a, b). ptr (tn_tp a) = t1 \<and> ptr (tn_tp b) = t2) (fst (spec_run cf 0 Map.empty es))))))
           (level_pairs dev ptr cf)) \<and>
    {n \<in> ran (snd (spec_run cf 0 Map.empty es)). mc_object_find cf (tn_tp n) None} \<subseteq> set (remainders (calls st1)) \<and>
    multi_trace_interval two_event_find pair_print_header pair_print dev ptr cf c1 = (c2, map (\<lambda>(t1, t2). (t1, t2, 0)) (level_pairs dev ptr cf))"
proof -
  let ?ps = "level_pairs dev ptr cf"
  obtain st where st: "multi_trace_run cf es multi_trace_init = Some st" "run_ok cf st" "pairs (calls st) = fst (spec_run cf 0 Map.empty es)"
    "kept st = snd (spec_run cf 0 Map.empty es)" by (rule init_run [OF es(1)])
  obtain st1 where f: "multi_trace_flush cf st = Some st1" "pairs (calls st1) = pairs (calls st)"
      "remainders (calls st1) = remainders (calls st) @ filter (\<lambda>n. mc_object_find cf (tn_tp n) None) (map (\<lambda>a. norm (node st a)) (entries (backup st)))"
    using flush_ok [OF _ st(2)] es by (auto simp: at_once_def)
  have t: "table_ok (bkey st) (backup st)" using st(2) by (simp add: run_ok_def ctx_ok_def base_ok_def)
  have "ran (kept st) = (\<lambda>a. norm (node st a)) ` set (entries (backup st))" unfolding entries_ran [OF t] by (auto simp: ran_def kept_def)
  then have k: "{n \<in> ran (snd (spec_run cf 0 Map.empty es)). mc_object_find cf (tn_tp n) None} \<subseteq> set (remainders (calls st1))"
    unfolding st(4) [symmetric] f(3) by auto
  obtain c where c: "object_news 0 ?ps pair_class_new = Some c" "class_ok c" "counter c = (\<lambda>e. if e \<in> set ?ps then Some 0 else None)"
    by (rule new_counters [OF n])
  let ?c = "fold (pair_call ptr) (calls st1) c"
  have d: "class_ok ?c" "counter ?c = (\<lambda>e. if e \<in> set ?ps then Some (of_nat (calls_of ptr e (calls st1))) else None)"
    using pair_calls_counter [OF c(2)] c(3) by auto
  have i: "distinct ?ps" by (rule level_pairs_distinct [OF ptr])
  have dm: "set ?ps \<subseteq> dom (counter ?c)" using d(2) by auto
  obtain c1 where c1: "multi_trace_interval two_event_find pair_print_header pair_print dev ptr cf ?c =
      (c1, map (\<lambda>(t1, t2). (t1, t2, the (counter ?c (t1, t2)))) ?ps)" "class_ok c1" "counter c1 = (\<lambda>e. if e \<in> set ?ps then Some 0 else counter ?c e)"
    using interval_counters [OF d(1) i dm, of False] unfolding multi_trace_interval_def by blast
  have dm2: "set ?ps \<subseteq> dom (counter c1)" using c1(3) by auto
  obtain c2 where c2: "multi_trace_interval two_event_find pair_print_header pair_print dev ptr cf c1 =
      (c2, map (\<lambda>(t1, t2). (t1, t2, the (counter c1 (t1, t2)))) ?ps)"
    using interval_counters [OF c1(2) i dm2, of False] unfolding multi_trace_interval_def by blast
  have "map (\<lambda>(t1, t2). (t1, t2, the (counter ?c (t1, t2)))) ?ps = map (\<lambda>(t1, t2). (t1, t2, of_nat (if t2 = 0
       then length (filter (\<lambda>n. ptr (tn_tp n) = t1) (remainders (calls st1))) + length (filter (\<lambda>n. ptr (tn_tp n) = t1) (firsts (calls st1)))
       else length (filter (\<lambda>(a, b). ptr (tn_tp a) = t1 \<and> ptr (tn_tp b) = t2) (fst (spec_run cf 0 Map.empty es)))))) ?ps"
    using d(2) calls_of_single [OF ptr(2)] calls_of_pairs [of _ ptr _ "calls st1"] f(2) st(3) by (intro map_cong) auto
  moreover have "map (\<lambda>(t1, t2). (t1, t2, the (counter c1 (t1, t2)))) ?ps = map (\<lambda>(t1, t2). (t1, t2, 0)) ?ps"
    using c1(3) by (intro map_cong) auto
  ultimately show ?thesis using st(1) f(1) c(1) c1(1) c2 k by auto
qed

definition demo_addr :: "tpid \<Rightarrow> nat" where
  "demo_addr p = (fst p + snd p) * (fst p + snd p) + fst p + 8"

lemma demo_addr_inj: "inj demo_addr"
proof (rule injI)
  have lt: "demo_addr p < demo_addr q" if "fst p + snd p < fst q + snd q" for p q
  proof -
    have "Suc (fst p + snd p) * Suc (fst p + snd p) \<le> (fst q + snd q) * (fst q + snd q)" using that by (intro mult_le_mono) simp_all
    then show ?thesis by (simp add: demo_addr_def)
  qed
  fix p q assume e: "demo_addr p = demo_addr q"
  then have "fst p + snd p = fst q + snd q" using lt [of p q] lt [of q p] by (metis less_irrefl linorder_neqE_nat)
  then show "p = q" using e by (simp add: demo_addr_def prod_eq_iff)
qed

theorem pair_counts_witness:
  "\<exists>st st1 c c1 ls. multi_trace_run (demo_conf False) demo_run multi_trace_init = Some st \<and> multi_trace_flush (demo_conf False) st = Some st1 \<and>
    object_news 0 [(8, 0), (8, 10)] pair_class_new = Some c \<and>
    multi_trace_interval two_event_find pair_print_header pair_print (\<lambda>_. False) demo_addr (demo_conf False)
      (fold (pair_call demo_addr) (calls st1) c) = (c1, ls) \<and> (8, 10, 1) \<in> set ls"
proof -
  have l: "level_pairs (\<lambda>_. False) demo_addr (demo_conf False) = [(8, 0), (8, 10)]"
    by (simp add: level_pairs_def traced_def demo_conf_def demo_addr_def tp_at_def)
  have b: "mc_remaining_break (demo_conf False) = (\<lambda>_. False)" by (simp add: demo_conf_def)
  have z: "demo_addr p \<noteq> 0" for p by (simp add: demo_addr_def)
  have "map (\<lambda>(a, b). (tn_tp a, tn_tp b)) (fst (spec_run (demo_conf False) 0 Map.empty demo_run)) = [((0, 0), (1, 0))]"
    by (simp add: demo_run_def demo_event_def demo_conf_def make_current_def spec_step_def spec_out_def spec_pairs_def spec_lost_def
        after_keep_def after_pair_def prev_of_def norm_def tp_at_def Let_def)
  then obtain a b where p: "fst (spec_run (demo_conf False) 0 Map.empty demo_run) = [(a, b)]" "tn_tp a = (0, 0)" "tn_tp b = (1, 0)"
    by (auto simp: map_eq_Cons_conv)
  have s: "length (level_pairs (\<lambda>_. False) demo_addr (demo_conf False)) < 2 ^ 32" using l by simp
  show ?thesis
    using pair_counts [OF demo_at_once b demo_addr_inj z s] unfolding l p(1) by (elim exE conjE) (force simp: p(2,3) demo_addr_def)
qed

end
