(* ===== verification/Two_Syscalls.thy ===== *)
theory Two_Syscalls
  imports Two_Print
begin

text \<open>
  The analysis of system calls in \<open>src/two-event.c\<close>: the time from \<open>sys_enter\<close> to \<open>sys_exit\<close> goes into the
  statistics of the thread and the call, with the number of calls that failed. A call that
  never returns ends when the thread is freed.
\<close>

section \<open>The records\<close>

text \<open>\<open>struct sys_enter\<close> and \<open>struct sys_exit\<close> in the raw data of an event.\<close>

definition sys_pid :: "u8 list \<Rightarrow> u32" where
  "sys_pid raw = u32_at raw 4"

definition sys_id :: "u8 list \<Rightarrow> u64" where
  "sys_id raw = u64_at raw 8"

definition sys_ret :: "u8 list \<Rightarrow> u64" where
  "sys_ret raw = u64_at raw 16"

definition is_err_value :: "u64 \<Rightarrow> bool" where
  "is_err_value x \<longleftrightarrow> x \<ge> - 4095"

text \<open>The place of a call in the statistics; a pid of type \<open>int\<close> becomes a number of 64 bits.\<close>

definition sys_entry :: "u8 list \<Rightarrow> entry" where
  "sys_entry raw = (scast (sys_pid raw), sys_id raw)"

section \<open>The operations\<close>

definition syscalls_class_new :: "two_event_options \<Rightarrow> delay_class" where
  "syscalls_class_new op =
     \<lparr>dc_base = two_event_class_new, dc_max_len1 = 0, dc_max_len2 = 0, dc_lat_dist = latency_dist_new (op_perins op) True 8\<rparr>"

text \<open>\<open>name\<close> gives the system and the name of a tracepoint.\<close>

definition syscalls_new ::
  "(nat \<Rightarrow> string \<times> string) \<Rightarrow> bool \<Rightarrow> bool \<Rightarrow> (nat \<Rightarrow> nat) \<Rightarrow> two_event_options \<Rightarrow> nat \<Rightarrow> nat \<Rightarrow> delay_class \<Rightarrow> (nat option \<times> delay_class) option" where
  "syscalls_new name mem opened len op tp1 tp2 dc =
     (if name tp1 \<noteq> (''raw_syscalls'', ''sys_enter'') \<or> tp2 \<noteq> 0 \<and> name tp2 \<noteq> (''raw_syscalls'', ''sys_exit'') then Some (None, dc)
      else delay_new mem opened len op tp1 tp2 dc)"

text \<open>\<open>node->extra[0] += b\<close> through the pointer that \<open>latency_dist_input\<close> returned.\<close>

definition add_error :: "entry \<Rightarrow> bool \<Rightarrow> latency_dist \<Rightarrow> latency_dist" where
  "add_error e b d =
     d\<lparr>ld_lat := write_node (latency_stat_node_cmp (ld_perins d) (ld_perkey d)) e
                  (\<lambda>n. n\<lparr>ln_extra := put_u64 (ln_extra n) 0 (u64_at (ln_extra n) 0 + (if b then 1 else 0))\<rparr>) (ld_lat d)\<rparr>"

text \<open>
  \<open>stack\<close> are the stack attributes of the two tracepoints. The second result are the events that are
  printed. None is a null pointer followed: the node is not tested.
\<close>

definition syscalls_two ::
  "two_event_options \<Rightarrow> bool \<times> bool \<Rightarrow> bool \<Rightarrow> nat option \<Rightarrow> timeline_node \<Rightarrow> timeline_node \<Rightarrow> delay_class \<Rightarrow> (delay_class \<times> timeline_node list) option" where
  "syscalls_two op stack mem two e1 e2 dc =
     (case two of
        None \<Rightarrow> Some (dc, [])
      | Some a \<Rightarrow>
          if tn_time e2 > tn_time e1 then
            let delta = tn_time e2 - tn_time e1; enter = multi_trace_raw_size (fst stack) e1; exit = multi_trace_raw_size (snd stack) e2 in
            if sys_pid enter \<noteq> sys_pid exit \<or> sys_id enter \<noteq> sys_id exit then Some (dc, [])
            else case latency_dist_input mem (sys_entry enter) delta (op_greater_than op) (dc_lat_dist dc) of
                   Some (True, ld) \<Rightarrow>
                     Some (dc\<lparr>dc_lat_dist := add_error (sys_entry enter) (is_err_value (sys_ret exit)) ld,
                              dc_base := set_obj a (map_option (\<lambda>ws. ws @ [(tn_time e2, delta)])) (dc_base dc)\<rparr>,
                           if op_greater_than op \<noteq> 0 \<and> delta > op_greater_than op then [e1, e2] else [])
                 | _ \<Rightarrow> None
          else Some (dc, []))"

text \<open>The first result is \<open>REMAINING_BREAK\<close>; \<open>recent\<close> is the time at which the thread was freed.\<close>

definition syscalls_remaining ::
  "two_event_options \<Rightarrow> bool \<Rightarrow> bool \<Rightarrow> nat option \<Rightarrow> remaining_reason \<Rightarrow> timeline_node \<Rightarrow> u64 \<Rightarrow> delay_class \<Rightarrow>
   (bool \<times> delay_class \<times> timeline_node list) option" where
  "syscalls_remaining op stack mem two rr e1 recent dc =
     (if rr \<noteq> REMAINING_SYSCALLS then Some (True, dc, [])
      else case two of
        None \<Rightarrow> Some (False, dc, [])
      | Some a \<Rightarrow>
          if recent > tn_time e1 then
            let delta = recent - tn_time e1; enter = multi_trace_raw_size stack e1 in
            map_option (\<lambda>(_, ld). (False,
                dc\<lparr>dc_lat_dist := ld, dc_base := set_obj a (map_option (\<lambda>ws. ws @ [(recent, delta)])) (dc_base dc)\<rparr>,
                if op_greater_than op \<noteq> 0 \<and> delta > op_greater_than op then [e1] else []))
              (latency_dist_input mem (sys_entry enter) delta (op_greater_than op) (dc_lat_dist dc))
          else Some (False, dc, []))"

record sys_line =
  sl_instance :: "u64 option"
  sl_id :: u64
  sl_n :: u64
  sl_sum :: u64
  sl_min :: u64
  sl_avg :: u64
  sl_max :: u64
  sl_err :: u64
  sl_than :: "(u64 \<times> u64) option"

text \<open>None is a division by zero.\<close>

definition syscalls_print_node :: "two_event_options \<Rightarrow> latency_node \<Rightarrow> sys_line option" where
  "syscalls_print_node op n =
     (if ln_n n = 0 then None
      else Some \<lparr>sl_instance = (if op_perins op then Some (ln_instance n) else None), sl_id = ln_key n, sl_n = ln_n n, sl_sum = ln_sum n,
                 sl_min = ln_min n, sl_avg = ln_sum n div ln_n n, sl_max = ln_max n, sl_err = u64_at (ln_extra n) 0,
                 sl_than = (if op_greater_than op \<noteq> 0 then Some (ln_than n, ln_than n * 100 div ln_n n) else None)\<rparr>)"

definition syscalls_print_header :: "two_event_options \<Rightarrow> nat option \<Rightarrow> delay_class \<Rightarrow> (bool \<times> delay_class \<times> sys_line list) option" where
  "syscalls_print_header op two dc =
     (case two of
        None \<Rightarrow> Some (False, dc, [])
      | Some _ \<Rightarrow>
          if latency_dist_empty (dc_lat_dist dc) then Some (True, dc, [])
          else case (if \<not> op_sort_print op then latency_dist_print (dc_lat_dist dc) else latency_dist_print_sorted (dc_lat_dist dc)) of
            None \<Rightarrow> None
          | Some (ld, ns) \<Rightarrow> map_option (\<lambda>ls. (True, dc\<lparr>dc_lat_dist := ld\<rparr>, ls)) (those (map (syscalls_print_node op) ns)))"

section \<open>Calls and their statistics\<close>

text \<open>What happens to a thread: a call that returns, or the end of the thread within a call.\<close>

datatype sys_step = Returns timeline_node timeline_node | Freed timeline_node u64

definition syscalls_step :: "two_event_options \<Rightarrow> bool \<times> bool \<Rightarrow> nat option \<times> nat option \<Rightarrow> sys_step \<Rightarrow> delay_class \<Rightarrow> delay_class option" where
  "syscalls_step op stack twos x dc =
     (case x of
        Returns e1 e2 \<Rightarrow> map_option fst (syscalls_two op stack True (fst twos) e1 e2 dc)
      | Freed e1 t \<Rightarrow> map_option (fst \<circ> snd) (syscalls_remaining op (fst stack) True (snd twos) REMAINING_SYSCALLS e1 t dc))"

fun syscalls_steps :: "two_event_options \<Rightarrow> bool \<times> bool \<Rightarrow> nat option \<times> nat option \<Rightarrow> sys_step list \<Rightarrow> delay_class \<Rightarrow> delay_class option" where
  "syscalls_steps op stack twos [] dc = Some dc"
| "syscalls_steps op stack twos (x # xs) dc = Option.bind (syscalls_step op stack twos x dc) (syscalls_steps op stack twos xs)"

text \<open>The calls that count: place, duration and whether it failed.\<close>

definition sys_calls :: "bool \<times> bool \<Rightarrow> sys_step \<Rightarrow> (entry \<times> u64 \<times> bool) list" where
  "sys_calls stack x =
     (case x of
        Returns e1 e2 \<Rightarrow>
          let enter = multi_trace_raw_size (fst stack) e1; exit = multi_trace_raw_size (snd stack) e2 in
          if tn_time e2 > tn_time e1 \<and> sys_pid enter = sys_pid exit \<and> sys_id enter = sys_id exit
          then [(sys_entry enter, tn_time e2 - tn_time e1, is_err_value (sys_ret exit))] else []
      | Freed e1 t \<Rightarrow> if t > tn_time e1 then [(sys_entry (multi_trace_raw_size (fst stack) e1), t - tn_time e1, False)] else [])"

definition counted :: "two_event_options \<Rightarrow> (entry \<times> u64 \<times> bool) list \<Rightarrow> latency_dist \<Rightarrow> bool" where
  "counted op cs d \<longleftrightarrow> summarised (map (\<lambda>(e, l, _). (e, l, op_greater_than op)) cs) d \<and> ld_extra_size d = 8 \<and>
     (\<forall>e n. dist_map d (dist_key d e) = Some n \<longrightarrow> length (ln_extra n) = 8 \<and>
        u64_at (ln_extra n) 0 = of_nat (length (filter (\<lambda>(f, _, b). dist_key d f = dist_key d e \<and> b) cs)))"

lemma countedD:
  "counted op cs d \<Longrightarrow> dist_map d (dist_key d e) = Some n \<Longrightarrow> length (ln_extra n) = 8 \<and>
   u64_at (ln_extra n) 0 = of_nat (length (filter (\<lambda>(f, _, b). dist_key d f = dist_key d e \<and> b) cs))"
  unfolding counted_def by blast

lemma add_error_map:
  assumes ok: "dist_ok d" and n: "dist_map d (dist_key d e) = Some n"
  shows "dist_ok (add_error e b d)" "dist_map (add_error e b d) =
    (dist_map d)(dist_key d e \<mapsto> n\<lparr>ln_extra := put_u64 (ln_extra n) 0 (u64_at (ln_extra n) 0 + (if b then 1 else 0))\<rparr>)"
    "ld_perins (add_error e b d) = ld_perins d" "ld_perkey (add_error e b d) = ld_perkey d" "ld_extra_size (add_error e b d) = ld_extra_size d"
  using lat.write_spec(1,2) [of "ld_perins d" "ld_perkey d" "ld_lat d" e n
      "\<lambda>n. n\<lparr>ln_extra := put_u64 (ln_extra n) 0 (u64_at (ln_extra n) 0 + (if b then 1 else 0))\<rparr>"] ok n
  by (simp_all add: add_error_def dist_ok_def node_key_def)

lemma add_error_summarised:
  assumes s: "summarised ss d" and n: "dist_map d (dist_key d e) = Some n" shows "summarised ss (add_error e b d)"
proof -
  have ok: "dist_ok d" using s by (simp add: summarised_def)
  note a = add_error_map [OF ok n, of b]
  have x: "is_stat xs (n\<lparr>ln_extra := v\<rparr>) = is_stat xs n" for xs v by (simp add: is_stat_def)
  have "of_key (add_error e b d) = of_key d" by (simp add: of_key_def [abs_def] a(3,4))
  then have "case dist_map (add_error e b d) (dist_key d f) of None \<Rightarrow> of_key (add_error e b d) f ss = []
      | Some m \<Rightarrow> of_key (add_error e b d) f ss \<noteq> [] \<and> is_stat (of_key (add_error e b d) f ss) m" for f
    using summarisedD [OF s, of f] a(2) n x by (cases "dist_key d f = dist_key d e") (auto split: option.splits)
  then show ?thesis unfolding summarised_def using a by simp
qed

lemma add_error_counted:
  assumes c: "counted op (cs @ [(e, l, False)]) d" and n: "dist_map d (dist_key d e) = Some n"
  shows "counted op (cs @ [(e, l, b)]) (add_error e b d)"
proof -
  have ok: "dist_ok d" using c by (simp add: counted_def summarised_def)
  note a = add_error_map [OF ok n, of b]
  have l: "length (ln_extra n) = 8" "u64_at (ln_extra n) 0 = of_nat (length (filter (\<lambda>(f, _, b). dist_key d f = dist_key d e \<and> b) cs))"
    using countedD [OF c n] by simp_all
  have "length (ln_extra m) = 8 \<and> u64_at (ln_extra m) 0 = of_nat (length (filter (\<lambda>(g, _, b). dist_key d g = dist_key d f \<and> b) (cs @ [(e, l, b)])))"
    if "dist_map (add_error e b d) (dist_key d f) = Some m" for f m
  proof (cases "dist_key d f = dist_key d e")
    case True
    then show ?thesis using that a(2) l by auto
  next
    case False
    then have "dist_map d (dist_key d f) = Some m" using that a(2) by simp
    from countedD [OF c this] show ?thesis using False by simp
  qed
  moreover have "summarised (map (\<lambda>(e, l, _). (e, l, op_greater_than op)) (cs @ [(e, l, b)])) (add_error e b d)" "ld_extra_size d = 8"
    using c add_error_summarised [OF _ n, of _ b] by (simp_all add: counted_def)
  ultimately show ?thesis unfolding counted_def a(3-5) by blast
qed

lemma input_counted:
  assumes c: "counted op cs d"
  shows "\<exists>rl n. latency_dist_input True e l (op_greater_than op) d = Some (True, d\<lparr>ld_lat := rl\<rparr>) \<and>
    counted op (cs @ [(e, l, False)]) (d\<lparr>ld_lat := rl\<rparr>) \<and> dist_map (d\<lparr>ld_lat := rl\<rparr>) (dist_key d e) = Some n"
proof -
  let ?t = "op_greater_than op"
  let ?ss = "map (\<lambda>(e, l, _). (e, l, ?t)) cs"
  have s: "summarised ?ss d" and x: "ld_extra_size d = 8" using c by (simp_all add: counted_def)
  then have ok: "dist_ok d" by (simp add: summarised_def)
  obtain n0 where n0: "latency_stat_node_new d True e = Some n0" "ln_extra n0 = replicate 8 0" using x by (simp add: latency_stat_node_new_def)
  define n where "n = (case dist_map d (dist_key d e) of Some n \<Rightarrow> n | None \<Rightarrow> n0)"
  obtain rl where rl: "latency_dist_input True e l ?t d = Some (True, d\<lparr>ld_lat := rl\<rparr>)"
      "dist_map (d\<lparr>ld_lat := rl\<rparr>) = (dist_map d)(dist_key d e \<mapsto> node_add l ?t n)"
    using input_spec [OF ok, of True e l ?t] n0(1) by (auto simp: n_def split: option.splits)
  have s1: "summarised (?ss @ [(e, l, ?t)]) (d\<lparr>ld_lat := rl\<rparr>)" using input_summarised [OF s, of e l ?t] rl(1) by auto
  have l: "length (ln_extra n) = 8 \<and> u64_at (ln_extra n) 0 = of_nat (length (filter (\<lambda>(f, _, b). dist_key d f = dist_key d e \<and> b) cs))"
  proof (cases "dist_map d (dist_key d e)")
    case None
    then have "of_key d e ?ss = []" using summarisedD [OF s, of e] by simp
    then have "filter (\<lambda>(f, _, b). dist_key d f = dist_key d e \<and> b) cs = []" by (fastforce simp: of_key_def filter_empty_conv)
    then show ?thesis using None n0(2) by (simp add: n_def u64_at_def numeral_eq_Suc)
  qed (use countedD [OF c, of e] in \<open>simp add: n_def\<close>)
  have "length (ln_extra m) = 8 \<and> u64_at (ln_extra m) 0 = of_nat (length (filter (\<lambda>(g, _, b). dist_key d g = dist_key d f \<and> b) (cs @ [(e, l, False)])))"
    if "dist_map (d\<lparr>ld_lat := rl\<rparr>) (dist_key d f) = Some m" for f m
    using that rl(2) l countedD [OF c, of f m] by (cases "dist_key d f = dist_key d e") (auto simp: node_add_def)
  then have "counted op (cs @ [(e, l, False)]) (d\<lparr>ld_lat := rl\<rparr>)" unfolding counted_def using s1 x by simp
  then show ?thesis using rl by (intro exI [of _ rl] exI [of _ "node_add l ?t n"]) simp
qed

text \<open>Both objects are those of the class; the statistics take the calls in turn.\<close>

lemma step_counted:
  assumes c: "counted op cs (dc_lat_dist dc)" and t: "fst twos \<noteq> None" "snd twos \<noteq> None"
  shows "\<exists>dc1. syscalls_step op stack twos x dc = Some dc1 \<and> counted op (cs @ sys_calls stack x) (dc_lat_dist dc1) \<and>
    ld_perins (dc_lat_dist dc1) = ld_perins (dc_lat_dist dc) \<and> ld_perkey (dc_lat_dist dc1) = ld_perkey (dc_lat_dist dc)"
proof (cases x)
  case (Returns e1 e2)
  let ?r = "multi_trace_raw_size (fst stack) e1" and ?q = "multi_trace_raw_size (snd stack) e2"
  obtain rl n where i: "latency_dist_input True (sys_entry ?r) (tn_time e2 - tn_time e1) (op_greater_than op) (dc_lat_dist dc) = Some (True, (dc_lat_dist dc)\<lparr>ld_lat := rl\<rparr>)"
      "counted op (cs @ [(sys_entry ?r, tn_time e2 - tn_time e1, False)]) ((dc_lat_dist dc)\<lparr>ld_lat := rl\<rparr>)"
      "dist_map ((dc_lat_dist dc)\<lparr>ld_lat := rl\<rparr>) (dist_key (dc_lat_dist dc) (sys_entry ?r)) = Some n"
    using input_counted [OF c] by blast
  have k: "dist_map ((dc_lat_dist dc)\<lparr>ld_lat := rl\<rparr>) (dist_key ((dc_lat_dist dc)\<lparr>ld_lat := rl\<rparr>) (sys_entry ?r)) = Some n" using i(3) by simp
  have ok: "dist_ok ((dc_lat_dist dc)\<lparr>ld_lat := rl\<rparr>)" using i(2) by (simp add: counted_def summarised_def)
  show ?thesis using c t(1) i(1) add_error_counted [OF i(2) k, of "is_err_value (sys_ret ?q)"] add_error_map(3,4) [OF ok k] Returns
    by (auto simp: syscalls_step_def syscalls_two_def sys_calls_def Let_def)
next
  case (Freed e1 f)
  show ?thesis using input_counted [OF c, of "sys_entry (multi_trace_raw_size (fst stack) e1)" "f - tn_time e1"] c t(2) Freed
    by (auto simp: syscalls_step_def syscalls_remaining_def sys_calls_def Let_def)
qed

lemma steps_counted:
  "counted op cs (dc_lat_dist dc) \<Longrightarrow> fst twos \<noteq> None \<Longrightarrow> snd twos \<noteq> None \<Longrightarrow>
   \<exists>dc1. syscalls_steps op stack twos xs dc = Some dc1 \<and> counted op (cs @ concat (map (sys_calls stack) xs)) (dc_lat_dist dc1) \<and>
     ld_perins (dc_lat_dist dc1) = ld_perins (dc_lat_dist dc) \<and> ld_perkey (dc_lat_dist dc1) = ld_perkey (dc_lat_dist dc)"
proof (induction xs arbitrary: cs dc)
  case (Cons x xs)
  obtain dc1 where 1: "syscalls_step op stack twos x dc = Some dc1" "counted op (cs @ sys_calls stack x) (dc_lat_dist dc1)"
    "ld_perins (dc_lat_dist dc1) = ld_perins (dc_lat_dist dc)" "ld_perkey (dc_lat_dist dc1) = ld_perkey (dc_lat_dist dc)"
    using step_counted [OF Cons.prems] by blast
  from Cons.IH [OF 1(2) Cons.prems(2,3)] show ?case using 1 by auto
qed auto

lemma new_counted: "counted op [] (dc_lat_dist (syscalls_class_new op))"
  using new_summarised(1) by (simp add: counted_def syscalls_class_new_def)
    (simp add: latency_dist_new_def table_map_def rblist__init_def)

section \<open>What is printed\<close>

text \<open>The calls of a place: all of a number, or those of one thread.\<close>

definition calls_at :: "bool \<Rightarrow> u64 option \<Rightarrow> u64 \<Rightarrow> (entry \<times> u64 \<times> bool) list \<Rightarrow> (entry \<times> u64 \<times> bool) list" where
  "calls_at perins i k cs = filter (\<lambda>(e, _, _). (perins \<longrightarrow> i = Some (fst e)) \<and> snd e = k) cs"

text \<open>A line is right about its calls.\<close>

definition line_ok :: "bool \<Rightarrow> (entry \<times> u64 \<times> bool) list \<Rightarrow> sys_line \<Rightarrow> bool" where
  "line_ok perins cs l \<longleftrightarrow>
     (let ys = calls_at perins (sl_instance l) (sl_id l) cs; ts = map (fst \<circ> snd) ys in
      ys \<noteq> [] \<and> sl_n l = of_nat (length ys) \<and> sl_sum l = sum_list ts \<and> sl_min l = Min (set ts) \<and> sl_max l = Max (set ts) \<and>
      sl_avg l = sum_list ts div of_nat (length ys) \<and> sl_err l = of_nat (length (filter (snd \<circ> snd) ys)))"

lemma node_line:
  assumes c: "counted op cs d" and p: "ld_perins d = op_perins op" "ld_perkey d" and n: "n \<in> set (entries (ld_lat d))" and l: "length cs < 2 ^ 64"
  shows "\<exists>x. syscalls_print_node op n = Some x \<and> line_ok (op_perins op) cs x \<and> sl_id x = ln_key n \<and>
    sl_instance x = (if op_perins op then Some (ln_instance n) else None)"
proof -
  let ?e = "(ln_instance n, ln_key n)" and ?ss = "map (\<lambda>(e, l, _). (e, l, op_greater_than op)) cs"
    and ?i = "if op_perins op then Some (ln_instance n) else None"
  let ?ys = "calls_at (op_perins op) ?i (ln_key n) cs"
  have s: "summarised ?ss d" and ok: "dist_ok d" using c by (simp_all add: counted_def summarised_def)
  have k: "dist_key d ?e = node_key (ld_perins d) (ld_perkey d) n" by (simp add: entry_key_def node_key_def)
  have m: "dist_map d (dist_key d ?e) = Some n" using table_map_of [of "node_key (ld_perins d) (ld_perkey d)" "ld_lat d" n] ok n unfolding k by (simp add: dist_ok_def)
  have q: "dist_key d f = dist_key d ?e \<longleftrightarrow> (op_perins op \<longrightarrow> ?i = Some (fst f)) \<and> snd f = ln_key n" for f using p by (auto simp: entry_key_def)
  have o: "of_key d ?e ?ss = map (\<lambda>(e, l, _). (e, l, op_greater_than op)) ?ys"
    unfolding of_key_def calls_at_def filter_map q by (auto intro!: arg_cong2 [of _ _ _ _ map] filter_cong)
  have st: "?ys \<noteq> []" "is_stat (map (\<lambda>(e, l, _). (e, l, op_greater_than op)) ?ys) n" using summarisedD [OF s, of ?e] m o by auto
  have ts: "map (fst \<circ> snd) (map (\<lambda>(e, l, _). (e, l, op_greater_than op)) ?ys) = map (fst \<circ> snd) ?ys" by auto
  have er: "u64_at (ln_extra n) 0 = of_nat (length (filter (snd \<circ> snd) ?ys))"
  proof -
    have "filter (snd \<circ> snd) ?ys = filter (\<lambda>(f, _, b). dist_key d f = dist_key d ?e \<and> b) cs"
      unfolding calls_at_def filter_filter q by (rule filter_cong) auto
    then show ?thesis using countedD [OF c m] by simp
  qed
  have len: "length ?ys < 2 ^ 64" using l length_filter_le [of _ cs] unfolding calls_at_def by (meson le_less_trans)
  have nz: "(of_nat (length ?ys) :: u64) \<noteq> 0"
  proof
    assume "(of_nat (length ?ys) :: u64) = 0"
    then have "unat (of_nat (length ?ys) :: u64) = 0" by simp
    then show False using len st(1) by (simp add: unat_of_nat)
  qed
  have v: "ln_n n = of_nat (length ?ys)" "ln_sum n = sum_list (map (fst \<circ> snd) ?ys)" "ln_min n = Min (set (map (fst \<circ> snd) ?ys))"
      "ln_max n = Max (set (map (fst \<circ> snd) ?ys))"
    using st ts min_max_nonempty [of "set (map (fst \<circ> snd) ?ys)"] unfolding is_stat_def by (simp_all del: map_map set_map add: )
  show ?thesis using nz v er st(1) by (simp add: syscalls_print_node_def line_ok_def Let_def)
qed

lemma print_lines:
  assumes c: "counted op cs (dc_lat_dist dc)" and p: "ld_perins (dc_lat_dist dc) = op_perins op" "ld_perkey (dc_lat_dist dc)" and len: "length cs < 2 ^ 64"
  shows "\<exists>dc1 ls. syscalls_print_header op (Some a) dc = Some (True, dc1, ls) \<and> (\<forall>x\<in>set ls. line_ok (op_perins op) cs x) \<and>
    distinct (map (\<lambda>x. (sl_instance x, sl_id x)) ls) \<and>
    (\<forall>(e, _)\<in>set cs. \<exists>x\<in>set ls. sl_id x = snd e \<and> sl_instance x = (if op_perins op then Some (fst e) else None)) \<and>
    latency_dist_empty (dc_lat_dist dc1)"
proof -
  let ?d = "dc_lat_dist dc" and ?k = "node_key (op_perins op) True"
  have ok: "dist_ok ?d" and s: "summarised (map (\<lambda>(e, l, _). (e, l, op_greater_than op)) cs) ?d" using c by (simp_all add: counted_def summarised_def)
  define g where "g x = the (syscalls_print_node op x)" for x
  have g: "syscalls_print_node op x = Some (g x) \<and> line_ok (op_perins op) cs (g x) \<and> sl_id (g x) = ln_key x \<and>
      sl_instance (g x) = (if op_perins op then Some (ln_instance x) else None)" if "x \<in> set (entries (ld_lat ?d))" for x
    using node_line [OF c p that len] by (auto simp: g_def)
  obtain ns where ns: "(if \<not> op_sort_print op then latency_dist_print ?d else latency_dist_print_sorted ?d) = Some (?d\<lparr>ld_lat := rblist__init\<rparr>, ns)"
      "mset ns = mset (entries (ld_lat ?d))" using latency_print_all [OF ok] by blast
  have sn: "set ns = set (entries (ld_lat ?d))" using ns(2) by (metis set_mset_mset)
  have t: "those (map (syscalls_print_node op) ns) = Some (map g ns)" using g sn by (intro those_some) auto
  have "distinct (map ?k (entries (ld_lat ?d)))" using ok p by (intro entries_distinct) (simp add: dist_ok_def)
  then have dk: "distinct (map ?k ns)" using ns(2) by (metis mset_map mset_eq_imp_distinct_iff)
  have di: "distinct (map (\<lambda>x. (sl_instance x, sl_id x)) (map g ns))"
  proof -
    have k: "inj_on ?k (set ns)" "distinct ns" using dk by (simp_all add: distinct_map)
    have "inj_on ((\<lambda>x. (sl_instance x, sl_id x)) \<circ> g) (set ns)"
    proof (rule inj_onI)
      fix x y assume xy: "x \<in> set ns" "y \<in> set ns" "((\<lambda>x. (sl_instance x, sl_id x)) \<circ> g) x = ((\<lambda>x. (sl_instance x, sl_id x)) \<circ> g) y"
      then have "?k x = ?k y" using g [of x] g [of y] sn by (auto simp: node_key_def split: if_splits)
      then show "x = y" using inj_onD [OF k(1)] xy(1,2) by blast
    qed
    then show ?thesis using k(2) unfolding map_map distinct_map by simp
  qed
  have cov: "\<exists>x\<in>set (map g ns). sl_id x = snd e \<and> sl_instance x = (if op_perins op then Some (fst e) else None)" if e: "(e, y) \<in> set cs" for e y
  proof -
    have "(e, fst y, op_greater_than op) \<in> set (of_key ?d e (map (\<lambda>(e, l, _). (e, l, op_greater_than op)) cs))"
      using e by (cases y) (force simp: of_key_def)
    then have "of_key ?d e (map (\<lambda>(e, l, _). (e, l, op_greater_than op)) cs) \<noteq> []" by auto
    then obtain n where n: "dist_map ?d (dist_key ?d e) = Some n" using summarisedD [OF s, of e] by (auto split: option.splits)
    then have "n \<in> set ns" "?k n = dist_key ?d e" using table_map_entry [OF n] sn p by auto
    then show ?thesis using g [of n] sn p by (intro bexI [of _ "g n"]) (auto simp: node_key_def entry_key_def)
  qed
  have em: "latency_dist_empty ?d \<longleftrightarrow> ns = []" using sn ok by (auto simp: latency_dist_empty_def dist_ok_def table_empty)
  show ?thesis
  proof (cases "ns = []")
    case True
    moreover have "cs = []"
    proof (rule ccontr)
      assume "cs \<noteq> []"
      then obtain e y where "(e, y) \<in> set cs" by (cases cs) auto
      from cov [OF this] True show False by simp
    qed
    ultimately show ?thesis using em by (simp add: syscalls_print_header_def)
  next
    case False
    then have "syscalls_print_header op (Some a) dc = Some (True, dc\<lparr>dc_lat_dist := ?d\<lparr>ld_lat := rblist__init\<rparr>\<rparr>, map g ns)"
      using em ns(1) t by (simp add: syscalls_print_header_def)
    moreover have "latency_dist_empty (?d\<lparr>ld_lat := rblist__init\<rparr>)" by (simp add: latency_dist_empty_def rblist__empty_def rblist__init_def)
    moreover have "\<forall>x\<in>set (map g ns). line_ok (op_perins op) cs x" using g sn by auto
    moreover have "\<forall>(e, _)\<in>set cs. \<exists>x\<in>set (map g ns). sl_id x = snd e \<and> sl_instance x = (if op_perins op then Some (fst e) else None)" using cov by blast
    ultimately show ?thesis using di
      by (intro exI [of _ "dc\<lparr>dc_lat_dist := ?d\<lparr>ld_lat := rblist__init\<rparr>\<rparr>"] exI [of _ "map g ns"] conjI) simp_all
  qed
qed

lemma sys_calls_length: "length (concat (map (sys_calls stack) xs)) \<le> length xs"
proof (induction xs)
  case (Cons x xs)
  have "length (sys_calls stack x) \<le> 1" by (auto simp: sys_calls_def Let_def split: sys_step.split)
  then show ?case using Cons by simp
qed simp

text \<open>
  C17. The lines on system calls are true. The two objects are made for \<open>sys_enter\<close> and \<open>sys_exit\<close>, and any
  sequence of returned calls and of threads freed within a call is taken: then the report
  has one line for every number of a call (and every thread, when they are kept apart), with
  how many there were, their total, least, greatest and average time and how many returned
  an error. Pairs that do not belong together or run backwards are left out, nothing
  crashes, and the statistics start anew.
\<close>

theorem syscalls_lines:
  assumes nm: "name tp1 = (''raw_syscalls'', ''sys_enter'')" "name tp2 = (''raw_syscalls'', ''sys_exit'')" "tp2 \<noteq> 0"
    and l: "length xs < 2 ^ 64"
  shows "\<exists>a1 a2 d1 d2 dc dc1 ls. syscalls_new name True opened len op tp1 0 (syscalls_class_new op) = Some (Some a1, d1) \<and>
    syscalls_new name True opened len op tp1 tp2 d1 = Some (Some a2, d2) \<and>
    syscalls_steps op stack (Some a2, Some a1) xs d2 = Some dc \<and> syscalls_print_header op (Some a2) dc = Some (True, dc1, ls) \<and>
    (let cs = concat (map (sys_calls stack) xs) in
      (\<forall>x\<in>set ls. line_ok (op_perins op) cs x) \<and> distinct (map (\<lambda>x. (sl_instance x, sl_id x)) ls) \<and>
      (\<forall>(e, _)\<in>set cs. \<exists>x\<in>set ls. sl_id x = snd e \<and> sl_instance x = (if op_perins op then Some (fst e) else None))) \<and>
    latency_dist_empty (dc_lat_dist dc1)"
proof -
  let ?c = "syscalls_class_new op" and ?cs = "concat (map (sys_calls stack) xs)"
  have c0: "class_ok (dc_base ?c)" "cl_ids (dc_base ?c) = 0" using class_new_ok(1) by (simp_all add: syscalls_class_new_def two_event_class_new_def)
  obtain a1 d1 where 1: "delay_new True opened len op tp1 0 ?c = Some (Some a1, d1)" "class_ok (dc_base d1)" "dc_lat_dist d1 = dc_lat_dist ?c"
      "cl_ids (dc_base d1) = 0 \<or> cl_ids (dc_base d1) = 1" using delay_new_ok [OF c0(1), of opened len op tp1 0] c0(2) by auto
  have "cl_ids (dc_base d1) < cl_ids (dc_base d1) + 1" using 1(4) by auto
  then obtain a2 d2 where 2: "delay_new True opened len op tp1 tp2 d1 = Some (Some a2, d2)" "dc_lat_dist d2 = dc_lat_dist ?c"
    using delay_new_ok [OF 1(2), of opened len op tp1 tp2] 1(3) by auto
  have c: "counted op [] (dc_lat_dist d2)" using new_counted 2(2) by simp
  obtain dc where dc: "syscalls_steps op stack (Some a2, Some a1) xs d2 = Some dc" "counted op ?cs (dc_lat_dist dc)"
      "ld_perins (dc_lat_dist dc) = op_perins op" "ld_perkey (dc_lat_dist dc)"
    using steps_counted [OF c, of "(Some a2, Some a1)" stack xs] 2(2) by (auto simp: syscalls_class_new_def latency_dist_new_def)
  have len: "length ?cs < 2 ^ 64" using sys_calls_length [of stack xs] l by simp
  show ?thesis
    using 1(1) 2(1) dc(1) print_lines [OF dc(2-4) len, of a2] nm by (fastforce simp: syscalls_new_def Let_def)
qed

definition demo_sys :: "u64 \<Rightarrow> u8 \<Rightarrow> timeline_node" where
  "demo_sys t b = \<lparr>tn_time = t, tn_key = 0, tn_tp = (0, 0), tn_tp1 = None, tn_unneeded = False, tn_need_find_prev = False,
     tn_need_backup = False, tn_need_remove = False, tn_maybe_unpaired = False, tn_ins = 0, tn_seq = 0,
     tn_event = replicate 48 0 @ [24, 0, 0, 0, 0, 0, 0, 0, 7, 0, 0, 0, 3, 0, 0, 0, 0, 0, 0, 0, b, b, b, b, b, b, b, b]\<rparr>"

lemma demo_sys_fields:
  "multi_trace_raw_size False (demo_sys t b) = [0, 0, 0, 0, 7, 0, 0, 0, 3, 0, 0, 0, 0, 0, 0, 0, b, b, b, b, b, b, b, b]"
  "tn_time (demo_sys t b) = t"
  by (simp_all add: demo_sys_def u32_at_def multi_trace_raw_size_def Let_def)

lemma demo_sys_calls: "sys_calls (False, False) (Returns (demo_sys 5 0) (demo_sys 9 255)) = [((7, 3), 4, True)]"
  by (simp add: sys_calls_def demo_sys_fields sys_entry_def sys_pid_def sys_id_def sys_ret_def is_err_value_def u32_at_def u64_at_def Let_def)

definition demo_name :: "nat \<Rightarrow> string \<times> string" where
  "demo_name tp = (''raw_syscalls'', if tp = 8 then ''sys_enter'' else ''sys_exit'')"

theorem syscalls_lines_witness:
  "\<exists>a1 a2 d1 d2 dc dc1 ls. syscalls_new demo_name True True (\<lambda>_. 9) demo_op 8 0 (syscalls_class_new demo_op) = Some (Some a1, d1) \<and>
    syscalls_new demo_name True True (\<lambda>_. 9) demo_op 8 9 d1 = Some (Some a2, d2) \<and>
    syscalls_steps demo_op (False, False) (Some a2, Some a1) [Returns (demo_sys 5 0) (demo_sys 9 255)] d2 = Some dc \<and>
    syscalls_print_header demo_op (Some a2) dc = Some (True, dc1, ls) \<and> (\<exists>x\<in>set ls. sl_id x = 3 \<and> sl_n x = 1 \<and> sl_sum x = 4 \<and> sl_err x = 1)"
proof -
  let ?xs = "[Returns (demo_sys 5 0) (demo_sys 9 255)]"
  have c: "concat (map (sys_calls (False, False)) ?xs) = [((7, 3), 4, True)]" by (simp add: demo_sys_calls)
  have h: "demo_name 8 = (''raw_syscalls'', ''sys_enter'')" "demo_name 9 = (''raw_syscalls'', ''sys_exit'')" "(9 :: nat) \<noteq> 0" "length ?xs < 2 ^ 64"
    by (simp_all add: demo_name_def)
  obtain a1 a2 d1 d2 dc dc1 ls where r: "syscalls_new demo_name True True (\<lambda>_. 9) demo_op 8 0 (syscalls_class_new demo_op) = Some (Some a1, d1)"
    "syscalls_new demo_name True True (\<lambda>_. 9) demo_op 8 9 d1 = Some (Some a2, d2)"
    "syscalls_steps demo_op (False, False) (Some a2, Some a1) ?xs d2 = Some dc" "syscalls_print_header demo_op (Some a2) dc = Some (True, dc1, ls)"
    "\<forall>x\<in>set ls. line_ok (op_perins demo_op) [((7, 3), 4, True)] x"
    "\<forall>(e, _)\<in>set [((7, 3), 4, True)] :: (entry \<times> u64 \<times> bool) set. \<exists>x\<in>set ls. sl_id x = snd e \<and> sl_instance x = (if op_perins demo_op then Some (fst e) else None)"
    using syscalls_lines [OF h, of True "\<lambda>_. 9" demo_op "(False, False)", unfolded c Let_def] by (elim exE conjE)
  obtain x where x: "x \<in> set ls" "sl_id x = 3" "sl_instance x = (if op_perins demo_op then Some 7 else None)" using r(6) by auto
  then have "line_ok (op_perins demo_op) [((7, 3), 4, True)] x" using r(5) by blast
  then have "sl_n x = 1 \<and> sl_sum x = 4 \<and> sl_err x = 1" using x(2,3) by (simp add: line_ok_def calls_at_def Let_def split: if_splits)
  then show ?thesis using r(1-4) x(1,2) by blast
qed

end
