(* ===== verification/Spec2Isabelle.thy ===== *)
theory Spec2Isabelle
  imports Min_Heap Perf_Mmap Clock_Convert Order Order_Sorted Order_Ends Expr_Load Expr_Ends Hweight Order_Setup Rbtree Rblist Latency Count Multi_Run Two_Print Two_Call Tp_Prog Key_Value Unique_String Two_Mem Two_Pair Two_Syscalls
begin

text \<open>
  A verification library for perf-prof.

  perf-prof opens kernel events, reads the records that the kernel writes into ring buffers,
  converts their times, merges the buffers into one sequence in time order, filters them with
  user expressions and keeps statistics on them. The library models the parts that compute;
  the source files are named below relative to \<open>src/\<close>.

  \<^bold>\<open>Parts and theories.\<close>

  \<^item> \<open>Prelude\<close>: machine types, exchanges in arrays, words; the collections \<open>layout_simps\<close> and
    \<open>frame_simps\<close>.
  \<^item> \<open>Min_Heap\<close> (\<open>include/linux/min_heap.h\<close>): the heap on an array, at indices and at the byte
    offsets of the code. Every operation keeps the heap order and the elements; the offset
    version is the index version; repeated pop sorts. Locale \<open>heap_order\<close> holds the laws of
    the comparison.
  \<^item> \<open>Perf_Mmap\<close> (\<open>lib/perf/mmap.c\<close>): the ring buffer with its page, cursors, reference count,
    overwrite mode. Locale \<open>event_queue\<close> states what a reader relies on; the ring refines a
    queue of records under every interleaving of kernel writes, reads, unreads and consumes.
    Records have any size up to 16 bits; of one that is longer than \<open>union perf_event\<close> and
    reaches the end of the ring the reader sees the first bytes only (\<open>read_as\<close>).
  \<^item> \<open>Clock_Convert\<close> (\<open>convert.c\<close>): the clocks of events, the position of the fields of a
    sample, rewriting of the time of an event, the choice of multiplier and shift, and the
    lock-free read of the conversion parameters: its accesses take effect one by one, in an
    order that only the read barriers restrict, on a page that the kernel rewrites
    (\<open>userpage_step\<close>).
  \<^item> \<open>Order\<close>, \<open>Order_Sorted\<close>, \<open>Order_Ends\<close>, \<open>Order_Setup\<close> (\<open>order.c\<close>): the merge. \<open>Order\<close> has the
    state of the sources and \<open>order_process\<close> with everything it calls; \<open>Order_Sorted\<close> the
    invariant of its loop, on the heap of \<open>Min_Heap\<close> and the rings of \<open>Perf_Mmap\<close>;
    \<open>Order_Ends\<close> that the samples come out in ascending time, whatever the kernel writes
    meanwhile, and that a call returns when the kernel is quiet; \<open>Order_Setup\<close> how queues are
    gathered and released, how streams register, how large a sample can be and when the
    kernel wakes the reader.
  \<^item> \<open>Expr\<close>, \<open>Expr_Correct\<close>, \<open>Expr_Parse\<close>, \<open>Expr_Decl\<close>, \<open>Expr_Ends\<close>, \<open>Expr_Load\<close> (\<open>expr.c\<close>): lexer,
    one-pass compiler, symbol table and virtual machine. Compiling the text of an expression
    and running the instructions computes its meaning, traps included; the compiler ends on
    every text; \<open>Expr_Load\<close> is about the loading of records.
  \<^item> \<open>Hweight\<close> (\<open>lib/hweight.c\<close>): the parallel bit counts are the number of set bits.
  \<^item> \<open>Rbtree\<close> (\<open>lib/rbtree.c\<close>, \<open>include/linux/rbtree_augmented.h\<close>): red-black trees as trees with
    a path to the place of a node. Insertion and removal keep the balance and the order,
    walking visits the elements in order, the height is logarithmic.
  \<^item> \<open>Rblist\<close> (\<open>lib/rblist.c\<close>): sorted tables over a comparison callback. Locale \<open>node_order\<close>
    assumes that the callback compares keys and shows that the table is a map from keys to
    nodes, with a true cache of the first node and a true count.
  \<^item> \<open>Latency\<close> (\<open>latency_helpers.c\<close>) and \<open>Count\<close> (\<open>count_helpers.c\<close>): the two users of the tables
    for statistics; they interpret \<open>node_order\<close> three times. The nodes are the statistics of
    the samples of their keys.
  \<^item> \<open>Multi_Trace\<close>, \<open>Multi_Find\<close>, \<open>Multi_Pairs\<close>, \<open>Multi_Sample\<close>, \<open>Multi_Lost\<close>, \<open>Multi_Run\<close>
    (\<open>multi-trace.c\<close>): pairing of events. \<open>Multi_Trace\<close> has the nodes in an explicit heap, since the
    timeline and the table of kept events share them, and every operation on them;
    \<open>Multi_Find\<close> the search of all nodes of a key in a tree; \<open>Multi_Pairs\<close> the invariant, which
    interprets \<open>node_order\<close> for both tables, and the pairing and keeping of one event;
    \<open>Multi_Sample\<close> one whole event with and without a timeline; \<open>Multi_Lost\<close> what happens to events
    without a partner; \<open>Multi_Run\<close> the promises for whole sequences: they refine a map from
    keys to events, the timeline changes nothing, no event is paired twice, all memory is
    released.
  \<^item> \<open>Two_Event\<close> (\<open>two-event.c\<close>): the objects that analyse a pair of tracepoints, in two tables that
    hold the same objects. Locale \<open>analysis\<close> states what the deletion of an analysis may do;
    under it, deleting objects and the class keeps the tables together and releases all.
  \<^item> \<open>Event_Iter\<close> (\<open>multi-trace.c\<close>) walks along the timeline and chooses the events to show;
    \<open>Tp_Matcher\<close> (\<open>tep.c\<close>) has what the scheduler's events say of tasks and processors: they follow
    a task through its wakeups, switches and migrations.
  \<^item> \<open>Two_Delay\<close>, \<open>Two_Stats\<close>, \<open>Two_Print\<close> (\<open>two-event.c\<close>): the analysis of delays. \<open>Two_Delay\<close> has what
    is done with one pair, which events are shown around it (\<open>wanted\<close>), and interprets \<open>analysis\<close>; \<open>Two_Stats\<close> composes the making of the objects,
    the pairing of \<open>Multi_Run\<close> and the statistics of \<open>Latency\<close>: what a trace leaves is a function of
    the pairs of its events; \<open>Two_Print\<close> shows that every node then has its object.
  \<^item> \<open>Two_Call\<close> (\<open>two-event.c\<close>): the analysis of calls. The parent pointers, the lists of callees and
    the depths of the functions are a forest after every sequence of calls, and the callers
    are those of a map that is updated call by call.

  \<^item> \<open>Tp_Prog\<close> (\<open>tep.c\<close>): the attributes of tracepoints that are expressions, on the compiler and the
    machine of \<open>Expr\<close>. An attribute that names a field reads it from every record.
  \<^item> \<open>Key_Value\<close>, \<open>Unique_String\<close> (\<open>stack_helpers.c\<close>): tables keyed by call chains, which interpret
    \<open>node_order\<close> with the lexicographic order, and the table that stores every text once.
  \<^item> \<open>Two_Mem\<close> (\<open>two-event.c\<close>): the analysis of memory on these. Its report is a function of the events.
  \<^item> \<open>Two_Pair\<close> (\<open>two-event.c\<close>, \<open>multi_trace_interval\<close> of \<open>multi-trace.c\<close>): counting pairs, and the report
    on all objects of a trace. The numbers are those of the pairs that the events make.
  \<^item> \<open>Two_Syscalls\<close> (\<open>two-event.c\<close>): the statistics of system calls. Every line is true of the calls.

  \<^bold>\<open>How code becomes definitions.\<close> Structs are records, C integers are words where they can
  wrap, pointers to list and tree nodes are indices or places. Operations pass the state
  along. Following a null pointer, a write outside an array and a division by zero are None
  or an explicit fault. What other programs do is a parameter: the kernel writing to a ring
  (\<open>machine\<close> in \<open>Order\<close>) and to its first page (\<open>page_reads\<close> in \<open>Clock_Convert\<close>), memory that runs out
  and what \<open>realloc\<close> leaves in it, the callbacks of the tables, \<open>printf\<close>,
  \<open>qsort\<close>.

  \<^bold>\<open>Loops.\<close> Loops that the kernel can keep alive are partial functions into option, and that
  they return is a theorem (\<open>order_process\<close>, the search of the overwrite range). The compiler
  takes fuel; twelve units per character and twenty-four more are enough
  (\<open>Expr_Ends\<close>). Loops over a table are bounded by its number of entries, which is
  enough by \<open>walk_first\<close> and \<open>exit_ok\<close>. Loops over the forest of calls are bounded by its depth,
  twice and three more while a tree is moved, which is enough by \<open>relink_ok\<close>.

  \<^bold>\<open>Limits.\<close> The order of delivery is shown for sources without streams. The correctness of the
  compiler covers integer expressions over scalar variables among any number of declared
  variables and arrays; from the seventh declaration on the symbol table grows, and the
  entries that \<open>realloc\<close> adds have to read as unused. The count of a table is a
  natural number, the code has 32 bits. Sizes that the code keeps in \<open>int\<close> are not negative. The
  sequences of \<open>Multi_Run\<close> are those of traces by level, without extra time before and after
  a pair, with memory available and losses handled when they are reported; nested traces,
  extra time and deferred losses are modelled, and no theorem is about them.

  \<^bold>\<open>Not modelled.\<close> Opening and mapping of events, the event loop and the option parser
  (\<open>monitor.c\<close>, \<open>lib/perf\<close>): system calls. The profilers and their output. Symbols and the
  printing of stacks (\<open>trace_helpers.c\<close>, \<open>stack_helpers.c\<close>): files of the system. The digest (\<open>lib/tdigest.c\<close>):
  floating point. \<open>lib/bpf\<close>, \<open>lib/traceevent\<close>, \<open>lib/subcmd\<close>: third-party code. Of
  \<open>two-event.c\<close> the call times, which put the statistics of delays on the forest of calls.
\<close>

end
